(* ===== verification/Hex_Prelude.thy ===== *)
theory Hex_Prelude
  imports Main "HOL-Library.Word"
begin

text \<open>
  Shared base of the development: the machine types of the C sources, the
  outcome type that makes every assertion failure, \<open>exit\<close>, core dump and
  undefined access of the C code a value, and the generic lemmas on words,
  bits and lists that the component theories use.
\<close>

unbundle bit_operations_syntax

section \<open>Machine types\<close>

type_synonym u8 = "8 word"
type_synonym u16 = "16 word"
type_synonym u32 = "32 word"
type_synonym u64 = "64 word"

section \<open>Outcomes of C code\<close>

text \<open>
  \<open>Ok a\<close>: the code returned \<open>a\<close>.  \<open>Stop e a\<close>: control never
  comes back to the caller, with \<open>a\<close> the state that was reached, because the
  code called \<open>exit\<close>, failed an \<open>assert\<close>, called \<open>abort\<close> or jumped to the
  core dump routine.  \<open>Undef\<close>: the C code performed an access or an
  operation that the language leaves undefined.
\<close>

datatype stop = Exit_code int | Assert_failed | Aborted | Coredumped

datatype ('s, 'a) outcome = Ok 'a | Stop stop 's | Undef

fun bind_outcome :: "('s, 'a) outcome \<Rightarrow> ('a \<Rightarrow> ('s, 'b) outcome) \<Rightarrow> ('s, 'b) outcome" where
  "bind_outcome (Ok a) f = f a"
| "bind_outcome (Stop e s) f = Stop e s"
| "bind_outcome Undef f = Undef"

lemma bind_outcome_Ok_iff:
  "bind_outcome m f = Ok b \<longleftrightarrow> (\<exists>a. m = Ok a \<and> f a = Ok b)"
  by (cases m) auto

lemma bind_outcome_assoc:
  "bind_outcome (bind_outcome m f) g = bind_outcome m (\<lambda>a. bind_outcome (f a) g)"
  by (cases m) auto

section \<open>Named collections\<close>

named_theorems bit_field_simps
  \<open>bitwise characterisations of field reads and writes\<close>

named_theorems frame_simps
  \<open>what an operation leaves unchanged\<close>

section \<open>Words and bits\<close>

text \<open>The mask \<open>(1 << n) - 1\<close> as the C sources write it.\<close>

lemma ones_eq_mask:
  "(push_bit n 1 - 1 :: 'a::len word) = mask n"
  by (simp add: mask_eq_exp_minus_1 push_bit_eq_mult)

lemma bit_ones_iff [bit_field_simps]:
  "bit (push_bit n 1 - 1 :: 'a::len word) i \<longleftrightarrow> i < n \<and> i < LENGTH('a)"
  unfolding ones_eq_mask by (auto simp: bit_mask_iff)

lemma bit_exp_minus_1_iff [bit_field_simps]:
  "bit (2 ^ n - 1 :: 'a::len word) i \<longleftrightarrow> i < n \<and> i < LENGTH('a)"
  using bit_ones_iff [of n i] by (simp add: push_bit_eq_mult)

lemma and_mask_eq_take_bit:
  "(x::'a::len word) AND mask n = take_bit n x"
  by (simp add: take_bit_eq_mask)

lemma take_bit_eq_self_unat:
  "unat (x::'a::len word) < 2 ^ n \<Longrightarrow> take_bit n x = x"
  by (simp add: take_bit_nat_eq_self unsigned_take_bit_eq word_unat_eq_iff)

lemma unat_of_nat_small:
  "n < 2 ^ LENGTH('a) \<Longrightarrow> unat (of_nat n :: 'a::len word) = n"
  by (simp add: unsigned_of_nat take_bit_nat_eq_self)

lemma sint_eq_uint_if_nonneg:
  assumes "0 \<le> sint (w::u32)"
  shows "sint w = uint w"
proof -
  have "sint w = take_bit 32 (uint w) - 2 ^ 32 * of_bool (bit (uint w) 31)"
    using signed_take_bit_eq_take_bit_minus [of 31 "uint w"] by (simp add: sint_uint)
  moreover have "take_bit 32 (uint w) = uint w"
    using uint_bounded [of w] by (simp add: take_bit_int_eq_self)
  moreover have "uint w < 2 ^ 32" using uint_bounded [of w] by simp
  ultimately show ?thesis using assms by (cases "bit (uint w) 31") simp_all
qed

lemma bit_beyond_unat:
  assumes "unat (x::'a::len word) < 2 ^ n" and "n \<le> i"
  shows "\<not> bit x i"
proof -
  have "take_bit n x = x" using assms(1) by (rule take_bit_eq_self_unat)
  then have "bit x i = (i < n \<and> bit x i)" by (metis bit_take_bit_iff)
  with assms(2) show ?thesis by simp
qed

lemma unat_less_exp_iff_bits:
  assumes "\<And>i. n \<le> i \<Longrightarrow> \<not> bit (x::'a::len word) i"
  shows "unat x < 2 ^ n"
proof -
  have "take_bit n x = x"
    by (rule bit_word_eqI) (use assms in \<open>auto simp: bit_take_bit_iff not_le [symmetric]\<close>)
  then have "unat x = take_bit n (unat x)"
    by (metis unsigned_take_bit_eq)
  then show ?thesis by (metis take_bit_nat_less_exp)
qed

section \<open>Lists\<close>

lemma fold_upt_Suc:
  "fold f [0..<Suc n] s = f n (fold f [0..<n] s)"
  by simp

lemma fold_range_inv:
  assumes "I a s" "\<And>i s. a \<le> i \<Longrightarrow> i < b \<Longrightarrow> I i s \<Longrightarrow> I (Suc i) (f i s)" "a \<le> b"
  shows "I b (fold f [a..<b] s)"
  using assms(3, 2)
proof (induction rule: dec_induct)
  case base
  then show ?case using assms(1) by simp
next
  case (step n)
  then show ?case by simp
qed

lemma fold_invariant_list:
  assumes "\<And>x s. x \<in> set xs \<Longrightarrow> P s \<Longrightarrow> P (f x s)" and "P s"
  shows "P (fold f xs s)"
  using assms by (induction xs arbitrary: s) auto

lemma nth_list_update_if:
  "i < length xs \<Longrightarrow> xs[j := v] ! i = (if i = j then v else xs ! i)"
  by (simp add: nth_list_update)

end
