(* ===== verification/Reg_Fields.thy ===== *)
theory Reg_Fields
  imports Hex_Prelude
begin

text \<open>
  Register fields: the table of \<^verbatim>\<open>include/reg_fields_def.h\<close> and the macros of
  \<^verbatim>\<open>include/mmu.h\<close> that read and write a field of a register
  (\<open>fZXTN\<close>, \<open>fEXTRACTU_BITS\<close>, \<open>fINSERT_BITS\<close>, \<open>GET_FIELD\<close>, \<open>SET_FIELD\<close>).
  The macros compute in 64 bits (their masks are \<open>long long\<close>) and the result of
  a write is truncated to the register's own width, here the width of the
  word type.
\<close>

section \<open>The field table\<close>

datatype reg_fields_enum =
    PTE_PPD | PTE_C | PTE_U | PTE_R | PTE_W | PTE_X | PTE_VPN | PTE_ASID
  | PTE_ATR0 | PTE_ATR1 | PTE_PA35 | PTE_G | PTE_V
  | SSR_CAUSE | SSR_ASID | SSR_UM | SSR_EX | SSR_IE | SSR_GM | SSR_V0 | SSR_V1
  | SSR_BVS | SSR_CE | SSR_PE | SSR_BP | SSR_XA | SSR_SS | SSR_XE

record reg_field_t =
  offset :: nat
  width :: nat

fun reg_field_info :: "reg_fields_enum \<Rightarrow> reg_field_t" where
  "reg_field_info PTE_PPD = \<lparr>offset = 0, width = 24\<rparr>"
| "reg_field_info PTE_C = \<lparr>offset = 24, width = 4\<rparr>"
| "reg_field_info PTE_U = \<lparr>offset = 28, width = 1\<rparr>"
| "reg_field_info PTE_R = \<lparr>offset = 29, width = 1\<rparr>"
| "reg_field_info PTE_W = \<lparr>offset = 30, width = 1\<rparr>"
| "reg_field_info PTE_X = \<lparr>offset = 31, width = 1\<rparr>"
| "reg_field_info PTE_VPN = \<lparr>offset = 32, width = 20\<rparr>"
| "reg_field_info PTE_ASID = \<lparr>offset = 52, width = 7\<rparr>"
| "reg_field_info PTE_ATR0 = \<lparr>offset = 59, width = 1\<rparr>"
| "reg_field_info PTE_ATR1 = \<lparr>offset = 60, width = 1\<rparr>"
| "reg_field_info PTE_PA35 = \<lparr>offset = 61, width = 1\<rparr>"
| "reg_field_info PTE_G = \<lparr>offset = 62, width = 1\<rparr>"
| "reg_field_info PTE_V = \<lparr>offset = 63, width = 1\<rparr>"
| "reg_field_info SSR_CAUSE = \<lparr>offset = 0, width = 8\<rparr>"
| "reg_field_info SSR_ASID = \<lparr>offset = 8, width = 7\<rparr>"
| "reg_field_info SSR_UM = \<lparr>offset = 16, width = 1\<rparr>"
| "reg_field_info SSR_EX = \<lparr>offset = 17, width = 1\<rparr>"
| "reg_field_info SSR_IE = \<lparr>offset = 18, width = 1\<rparr>"
| "reg_field_info SSR_GM = \<lparr>offset = 19, width = 1\<rparr>"
| "reg_field_info SSR_V0 = \<lparr>offset = 20, width = 1\<rparr>"
| "reg_field_info SSR_V1 = \<lparr>offset = 21, width = 1\<rparr>"
| "reg_field_info SSR_BVS = \<lparr>offset = 22, width = 1\<rparr>"
| "reg_field_info SSR_CE = \<lparr>offset = 23, width = 1\<rparr>"
| "reg_field_info SSR_PE = \<lparr>offset = 24, width = 1\<rparr>"
| "reg_field_info SSR_BP = \<lparr>offset = 25, width = 1\<rparr>"
| "reg_field_info SSR_XA = \<lparr>offset = 27, width = 3\<rparr>"
| "reg_field_info SSR_SS = \<lparr>offset = 30, width = 1\<rparr>"
| "reg_field_info SSR_XE = \<lparr>offset = 31, width = 1\<rparr>"

section \<open>The field macros\<close>

definition fZXTN :: "nat \<Rightarrow> u64 \<Rightarrow> u64" where
  "fZXTN n val = val AND (push_bit n 1 - 1)"

definition fEXTRACTU_BITS :: "'a::len word \<Rightarrow> nat \<Rightarrow> nat \<Rightarrow> u64" where
  "fEXTRACTU_BITS inreg w off = fZXTN w (ucast (drop_bit off inreg))"

definition fINSERT_BITS :: "'a::len word \<Rightarrow> nat \<Rightarrow> nat \<Rightarrow> u64 \<Rightarrow> 'a word" where
  "fINSERT_BITS reg w off inval =
     ucast ((ucast reg AND NOT (push_bit off (push_bit w 1 - 1)))
            OR push_bit off (inval AND (push_bit w 1 - 1)) :: u64)"

definition GET_FIELD :: "'a::len word \<Rightarrow> reg_fields_enum \<Rightarrow> u64" where
  "GET_FIELD entry f =
     fEXTRACTU_BITS entry (width (reg_field_info f)) (offset (reg_field_info f))"

definition SET_FIELD :: "'a::len word \<Rightarrow> reg_fields_enum \<Rightarrow> u64 \<Rightarrow> 'a word" where
  "SET_FIELD entry f val =
     fINSERT_BITS entry (width (reg_field_info f)) (offset (reg_field_info f)) val"

section \<open>Bitwise meaning of the macros\<close>

lemma bit_fEXTRACTU_BITS [bit_field_simps]:
  "bit (fEXTRACTU_BITS (r::'a::len word) w off) i \<longleftrightarrow> i < w \<and> i < 64 \<and> bit r (off + i)"
  by (auto simp: fEXTRACTU_BITS_def fZXTN_def bit_and_iff bit_exp_minus_1_iff bit_ucast_iff
      bit_drop_bit_eq dest: bit_imp_le_length)

lemma bit_fINSERT_BITS [bit_field_simps]:
  assumes "LENGTH('a) \<le> 64" and "i < LENGTH('a)"
  shows "bit (fINSERT_BITS (r::'a::len word) w off v) i \<longleftrightarrow>
    (if off \<le> i \<and> i < off + w then bit v (i - off) else bit r i)"
  using assms
  by (auto simp: fINSERT_BITS_def bit_ucast_iff bit_or_iff bit_and_iff bit_not_iff
      bit_push_bit_iff bit_exp_minus_1_iff dest: bit_imp_le_length)

section \<open>The field interface\<close>

text \<open>
  What the clients of a field layout rely on: a read after a write of the same
  field gives the value cut to the field's width, and a write leaves every
  field that does not overlap it alone.
\<close>

locale field_layout =
  fixes get :: "'r \<Rightarrow> 'f \<Rightarrow> u64"
    and put :: "'r \<Rightarrow> 'f \<Rightarrow> u64 \<Rightarrow> 'r"
    and fwidth :: "'f \<Rightarrow> nat"
    and fits :: "'f \<Rightarrow> bool"
    and apart :: "'f \<Rightarrow> 'f \<Rightarrow> bool"
  assumes get_put_same: "fits f \<Longrightarrow> get (put r f v) f = take_bit (fwidth f) v"
    and get_put_apart: "fits f \<Longrightarrow> fits g \<Longrightarrow> apart f g \<Longrightarrow> get (put r f v) g = get r g"
    and apart_sym: "apart f g \<Longrightarrow> apart g f"
begin

definition puts_all :: "('f \<times> u64) list \<Rightarrow> 'r \<Rightarrow> 'r" where
  "puts_all fvs r = fold (\<lambda>(f, v) r. put r f v) fvs r"

lemma puts_all_simps [simp]:
  "puts_all [] r = r"
  "puts_all ((f, v) # fvs) r = puts_all fvs (put r f v)"
  by (simp_all add: puts_all_def)

lemma get_puts_all_apart:
  assumes "fits g" and "\<forall>(f, v) \<in> set fvs. fits f \<and> apart f g"
  shows "get (puts_all fvs r) g = get r g"
  using assms(2)
proof (induction fvs arbitrary: r)
  case Nil
  show ?case by simp
next
  case (Cons fv fvs)
  obtain f v where "fv = (f, v)" by (cases fv)
  with Cons assms(1) show ?case by (auto simp: get_put_apart)
qed

text \<open>Writing a list of fields that do not overlap leaves every one of them readable.\<close>

lemma get_puts_all_mem:
  assumes "(g, v) \<in> set fvs" and "\<forall>(f, w) \<in> set fvs. fits f"
    and "pairwise apart (fst ` set fvs)" and "distinct (map fst fvs)"
  shows "get (puts_all fvs r) g = take_bit (fwidth g) v"
  using assms
proof (induction fvs arbitrary: r)
  case Nil
  then show ?case by simp
next
  case (Cons fw fvs)
  obtain f w where fw: "fw = (f, w)" by (cases fw)
  show ?case
  proof (cases "(g, v) = (f, w)")
    case True
    have "get (puts_all fvs (put r g v)) g = get (put r g v) g"
    proof (rule get_puts_all_apart)
      show "fits g" using Cons.prems fw True by auto
      show "\<forall>(f', v') \<in> set fvs. fits f' \<and> apart f' g"
        using Cons.prems fw True by (force simp: pairwise_def)
    qed
    then show ?thesis using Cons.prems fw True by (auto simp: get_put_same)
  next
    case False
    with Cons.prems fw have "(g, v) \<in> set fvs" by auto
    moreover have "pairwise apart (fst ` set fvs)"
      using Cons.prems(3) by (rule pairwise_subset) auto
    ultimately show ?thesis using Cons.prems fw Cons.IH by auto
  qed
qed

end

definition fields_apart :: "reg_fields_enum \<Rightarrow> reg_fields_enum \<Rightarrow> bool" where
  "fields_apart f g \<longleftrightarrow>
     offset (reg_field_info f) + width (reg_field_info f) \<le> offset (reg_field_info g) \<or>
     offset (reg_field_info g) + width (reg_field_info g) \<le> offset (reg_field_info f)"

definition fits_width :: "nat \<Rightarrow> reg_fields_enum \<Rightarrow> bool" where
  "fits_width n f \<longleftrightarrow> offset (reg_field_info f) + width (reg_field_info f) \<le> n"

lemma reg_field_width_le: "width (reg_field_info f) \<le> 24"
  by (cases f) simp_all

lemma fits_width_64 [simp]: "fits_width 64 f"
  by (cases f) (simp_all add: fits_width_def)

lemma GET_SET_FIELD_same:
  assumes "LENGTH('a) \<le> 64" and "fits_width LENGTH('a) f"
  shows "GET_FIELD (SET_FIELD (r::'a::len word) f v) f = take_bit (width (reg_field_info f)) v"
  using assms
  by (intro bit_word_eqI)
     (auto simp: GET_FIELD_def SET_FIELD_def bit_field_simps fits_width_def bit_take_bit_iff)

lemma GET_SET_FIELD_apart:
  assumes "LENGTH('a) \<le> 64" and "fits_width LENGTH('a) g" and "fields_apart f g"
  shows "GET_FIELD (SET_FIELD (r::'a::len word) f v) g = GET_FIELD r g"
  using assms
  by (intro bit_word_eqI)
     (auto simp: GET_FIELD_def SET_FIELD_def bit_field_simps fits_width_def fields_apart_def)

interpretation pte: field_layout
  "GET_FIELD :: u64 \<Rightarrow> reg_fields_enum \<Rightarrow> u64" SET_FIELD
  "\<lambda>f. width (reg_field_info f)" "fits_width 64" fields_apart
proof
  fix f :: reg_fields_enum and r v :: u64
  show "GET_FIELD (SET_FIELD r f v) f = take_bit (width (reg_field_info f)) v"
    by (rule GET_SET_FIELD_same) simp_all
next
  fix f g :: reg_fields_enum and r v :: u64
  assume "fields_apart f g"
  then show "GET_FIELD (SET_FIELD r f v) g = GET_FIELD r g"
    by (intro GET_SET_FIELD_apart) simp_all
qed (auto simp: fields_apart_def)

interpretation ssr: field_layout
  "GET_FIELD :: u32 \<Rightarrow> reg_fields_enum \<Rightarrow> u64" SET_FIELD
  "\<lambda>f. width (reg_field_info f)" "fits_width 32" fields_apart
proof
  fix f :: reg_fields_enum and r :: u32 and v :: u64
  assume "fits_width 32 f"
  then show "GET_FIELD (SET_FIELD r f v) f = take_bit (width (reg_field_info f)) v"
    by (intro GET_SET_FIELD_same) simp_all
next
  fix f g :: reg_fields_enum and r :: u32 and v :: u64
  assume "fits_width 32 g" "fields_apart f g"
  then show "GET_FIELD (SET_FIELD r f v) g = GET_FIELD r g"
    by (intro GET_SET_FIELD_apart) simp_all
qed (auto simp: fields_apart_def)

section \<open>The two register layouts\<close>

definition pte_fields :: "reg_fields_enum list" where
  "pte_fields = [PTE_PPD, PTE_C, PTE_U, PTE_R, PTE_W, PTE_X, PTE_VPN, PTE_ASID,
     PTE_ATR0, PTE_ATR1, PTE_PA35, PTE_G, PTE_V]"

lemma pte_fields_apart:
  "pairwise fields_apart (set pte_fields)"
  by (auto simp: pte_fields_def pairwise_def fields_apart_def)

text \<open>The PTE fields cover the 64 bits of an entry: the entry is its fields.\<close>

lemma pte_fields_cover:
  assumes "i < 64"
  shows "\<exists>f \<in> set pte_fields. offset (reg_field_info f) \<le> i \<and>
           i < offset (reg_field_info f) + width (reg_field_info f)"
  using assms by (simp add: pte_fields_def) linarith

lemma pte_ext:
  assumes "\<And>f. f \<in> set pte_fields \<Longrightarrow> GET_FIELD (x::u64) f = GET_FIELD y f"
  shows "x = y"
proof (rule bit_word_eqI)
  fix i assume "i < LENGTH(64)"
  then obtain f where f: "f \<in> set pte_fields" "offset (reg_field_info f) \<le> i"
      "i < offset (reg_field_info f) + width (reg_field_info f)"
    using pte_fields_cover by auto
  define j where "j = i - offset (reg_field_info f)"
  have "bit (GET_FIELD x f) j = bit (GET_FIELD y f) j" using assms f(1) by simp
  moreover have "j < width (reg_field_info f)" "j < 64" "offset (reg_field_info f) + j = i"
    using f reg_field_width_le [of f] by (auto simp: j_def)
  ultimately show "bit x i = bit y i"
    by (simp add: GET_FIELD_def bit_field_simps)
qed

end
