(* ===== verification/Tlb_Entry.thy ===== *)
theory Tlb_Entry
  imports Reg_Fields
begin

text \<open>
  TLB entries as values.  The encoders are \<open>basic_entry\<close> and \<open>mkentry\<close> of
  \<^verbatim>\<open>crt0/tlb.c\<close> over the \<open>TLBEntry\<close> union of
  \<^verbatim>\<open>crt0/hexagon_standalone.h\<close> and \<open>create_mmu_entry\<close> of
  \<^verbatim>\<open>include/mmu.h\<close>; the decoders are the \<open>hex_tlb_*\<close> helpers of
  \<^verbatim>\<open>include/mmu.h\<close>.  The lemmas are round trips between the two files.
\<close>

section \<open>Counting trailing zeros\<close>

text \<open>\<open>__builtin_ctz\<close> and \<open>__builtin_ctzll\<close>, for a non-zero argument.\<close>

definition ctz :: "'a::len word \<Rightarrow> nat" where
  "ctz w = length (takeWhile (\<lambda>i. \<not> bit w i) [0..<LENGTH('a)])"

lemma takeWhile_upt_first:
  assumes "k < n" and "\<not> P k" and "\<And>i. i < k \<Longrightarrow> P i"
  shows "takeWhile P [0..<n] = [0..<k]"
proof -
  have "[0..<n] = [0..<k] @ [k..<n]"
    using assms(1) upt_add_eq_append [of 0 k "n - k"] by simp
  moreover have "[k..<n] = k # [Suc k..<n]"
    using assms(1) by (rule upt_conv_Cons)
  ultimately have "[0..<n] = [0..<k] @ k # [Suc k..<n]" by simp
  then show ?thesis using assms(2,3) by (simp add: takeWhile_tail)
qed

lemma ctz_eqI:
  assumes "bit (w::'a::len word) k" and "\<And>i. i < k \<Longrightarrow> \<not> bit w i"
  shows "ctz w = k"
proof -
  have "k < LENGTH('a)" using assms(1) by (rule bit_imp_le_length)
  then show ?thesis using assms by (simp add: ctz_def takeWhile_upt_first)
qed

section \<open>Page sizes\<close>

datatype PageShift = SHIFT_4K | SHIFT_16K | SHIFT_64K | SHIFT_256K | SHIFT_1M
  | SHIFT_4M | SHIFT_16M | SHIFT_64M | SHIFT_256M | SHIFT_1G

fun page_shift :: "PageShift \<Rightarrow> nat" where
  "page_shift SHIFT_4K = 0"
| "page_shift SHIFT_16K = 1"
| "page_shift SHIFT_64K = 2"
| "page_shift SHIFT_256K = 3"
| "page_shift SHIFT_1M = 4"
| "page_shift SHIFT_4M = 5"
| "page_shift SHIFT_16M = 6"
| "page_shift SHIFT_64M = 7"
| "page_shift SHIFT_256M = 8"
| "page_shift SHIFT_1G = 9"

text \<open>\<open>PageSize\<close>: \<open>PAGE_4K = 1 << SHIFT_4K\<close> and so on.\<close>

definition PageSize :: "PageShift \<Rightarrow> u32" where
  "PageSize s = push_bit (page_shift s) 1"

definition NUM_PGSIZE_TYPES :: nat where
  "NUM_PGSIZE_TYPES = page_shift SHIFT_1G + 1"

lemma page_shift_le: "page_shift s \<le> 9"
  by (cases s) simp_all

lemma bit_PageSize [bit_field_simps]: "bit (PageSize s) i \<longleftrightarrow> i = page_shift s"
  using page_shift_le [of s] by (auto simp: PageSize_def bit_push_bit_iff bit_1_iff bit_exp_iff)

section \<open>The TLBEntry union\<close>

text \<open>
  A \<open>TLBEntry\<close> is its \<open>raw\<close> word; a member of the bit-field struct is the
  range of bits that the compiler allocates to it, least significant first.
  \<open>A0\<close>, \<open>A1\<close> exist below architecture 73, \<open>PPN_EX\<close> from 73 on.
\<close>

datatype TLBEntry_member = S_bit | PPN | CacheAttr | XWRU | VirtualPage | ASID | A0 | A1 | PPN_EX | EP | VG

fun member_info :: "TLBEntry_member \<Rightarrow> reg_field_t" where
  "member_info S_bit = \<lparr>offset = 0, width = 1\<rparr>"
| "member_info PPN = \<lparr>offset = 1, width = 23\<rparr>"
| "member_info CacheAttr = \<lparr>offset = 24, width = 4\<rparr>"
| "member_info XWRU = \<lparr>offset = 28, width = 4\<rparr>"
| "member_info VirtualPage = \<lparr>offset = 32, width = 20\<rparr>"
| "member_info ASID = \<lparr>offset = 52, width = 7\<rparr>"
| "member_info A0 = \<lparr>offset = 59, width = 1\<rparr>"
| "member_info A1 = \<lparr>offset = 60, width = 1\<rparr>"
| "member_info PPN_EX = \<lparr>offset = 59, width = 2\<rparr>"
| "member_info EP = \<lparr>offset = 61, width = 1\<rparr>"
| "member_info VG = \<lparr>offset = 62, width = 2\<rparr>"

definition get_member :: "u64 \<Rightarrow> TLBEntry_member \<Rightarrow> u64" where
  "get_member t m = fEXTRACTU_BITS t (width (member_info m)) (offset (member_info m))"

definition set_member :: "u64 \<Rightarrow> TLBEntry_member \<Rightarrow> u64 \<Rightarrow> u64" where
  "set_member t m v = fINSERT_BITS t (width (member_info m)) (offset (member_info m)) v"

lemma bit_set_member [bit_field_simps]:
  assumes "i < 64"
  shows "bit (set_member t m v) i \<longleftrightarrow>
    (if offset (member_info m) \<le> i \<and> i < offset (member_info m) + width (member_info m)
     then bit v (i - offset (member_info m)) else bit t i)"
  using assms by (simp add: set_member_def bit_fINSERT_BITS)

lemma bit_get_member [bit_field_simps]:
  "bit (get_member t m) i \<longleftrightarrow> i < width (member_info m) \<and> bit t (offset (member_info m) + i)"
  by (cases m) (auto simp: get_member_def bit_fEXTRACTU_BITS dest: bit_imp_le_length)

definition members_apart :: "TLBEntry_member \<Rightarrow> TLBEntry_member \<Rightarrow> bool" where
  "members_apart f g \<longleftrightarrow>
     offset (member_info f) + width (member_info f) \<le> offset (member_info g) \<or>
     offset (member_info g) + width (member_info g) \<le> offset (member_info f)"

lemma member_fits: "offset (member_info m) + width (member_info m) \<le> 64"
  by (cases m) simp_all

interpretation tlb_union: field_layout get_member set_member
  "\<lambda>m. width (member_info m)" "\<lambda>_. True" members_apart
proof
  fix r v :: u64 and f :: TLBEntry_member
  show "get_member (set_member r f v) f = take_bit (width (member_info f)) v"
    using member_fits [of f]
    by (intro bit_word_eqI) (auto simp: bit_field_simps bit_take_bit_iff)
next
  fix r v :: u64 and f g :: TLBEntry_member
  assume "members_apart f g"
  then show "get_member (set_member r f v) g = get_member r g"
    using member_fits [of g]
    by (intro bit_word_eqI) (auto simp: bit_field_simps members_apart_def)
qed (auto simp: members_apart_def)

section \<open>The encoder of crt0/tlb.c\<close>

definition basic_entry :: "nat \<Rightarrow> u32 \<Rightarrow> u64 \<Rightarrow> u32 \<Rightarrow> u64" where
  "basic_entry arch va pa pagesize =
     (let t = 0;
          t = set_member t VirtualPage (ucast (drop_bit 12 va));
          t = (if arch > 72
               then set_member t PPN_EX (drop_bit 36 (pa AND push_bit 36 3)) else t);
          t = set_member t EP (drop_bit 35 (pa AND push_bit 35 1));
          ppn = drop_bit 12 pa;
          ppn = push_bit 1 ppn OR ucast pagesize;
          t = (if pagesize = 1 then set_member t S_bit 1 else t)
      in t OR ppn)"

definition mkentry :: "nat \<Rightarrow> u32 \<Rightarrow> u64 \<Rightarrow> u32 \<Rightarrow> u64" where
  "mkentry arch va pa pagesize =
     (let t = basic_entry arch va pa pagesize;
          t = set_member t CacheAttr 7;
          t = set_member t XWRU 6;
          t = set_member t VG 3
      in t)"

section \<open>The encoder and the decoders of include/mmu.h\<close>

definition TARGET_PAGE_BITS :: nat where
  "TARGET_PAGE_BITS = 12"

definition page_start :: "u32 \<Rightarrow> nat \<Rightarrow> u32" where
  "page_start addr page_size_bits =
     (let page_size = push_bit page_size_bits 1;
          page_align = NOT (page_size - 1)
      in addr AND page_align)"

definition GET_PPD :: "u64 \<Rightarrow> u64" where
  "GET_PPD entry =
     GET_FIELD entry PTE_PPD OR
     push_bit (width (reg_field_info PTE_PPD)) (GET_FIELD entry PTE_PA35)"

definition size_str :: "string list" where
  "size_str = [''4K'', ''16K'', ''64K'', ''256K'', ''1M'', ''4M'', ''16M'', ''64M'', ''256M'', ''1G'']"

text \<open>Out-of-range indices into a C array are undefined behaviour.\<close>

definition array_at :: "'a list \<Rightarrow> nat \<Rightarrow> ('s, 'a) outcome" where
  "array_at xs i = (if i < length xs then Ok (xs ! i) else Undef)"

definition pgsize_str :: "u32 \<Rightarrow> (unit, string) outcome" where
  "pgsize_str pgsize =
     (if pgsize = 0 then Stop Assert_failed () else array_at size_str (ctz pgsize))"

definition encmask_2_mask :: "u64 list" where
  "encmask_2_mask = [0x0fff, 0x3fff, 0xffff, 0x3ffff, 0xfffff, 0x3fffff, 0xffffff, 0xffffffff]"

definition hex_tlb_pgsize :: "u64 \<Rightarrow> (unit, nat) outcome" where
  "hex_tlb_pgsize entry =
     (if entry = 0 then Stop Assert_failed ()
      else let size = ctz entry
           in if size < NUM_PGSIZE_TYPES then Ok size else Stop Assert_failed ())"

definition hex_tlb_page_size :: "u64 \<Rightarrow> (unit, u32) outcome" where
  "hex_tlb_page_size entry =
     bind_outcome (hex_tlb_pgsize entry) (\<lambda>sz. Ok (push_bit (TARGET_PAGE_BITS + 2 * sz) 1))"

definition hex_tlb_phys_page_num :: "u64 \<Rightarrow> u64" where
  "hex_tlb_phys_page_num entry =
     (let ppd = (ucast (GET_PPD entry) :: u32) in ucast (drop_bit 1 ppd))"

definition hex_tlb_phys_addr :: "u64 \<Rightarrow> (unit, u64) outcome" where
  "hex_tlb_phys_addr entry =
     bind_outcome (hex_tlb_pgsize entry) (\<lambda>sz.
     bind_outcome (array_at encmask_2_mask sz) (\<lambda>pagemask.
       Ok (push_bit TARGET_PAGE_BITS (hex_tlb_phys_page_num entry) AND NOT pagemask)))"

definition hex_tlb_virt_addr :: "u64 \<Rightarrow> u64" where
  "hex_tlb_virt_addr entry = push_bit TARGET_PAGE_BITS (GET_FIELD entry PTE_VPN)"

definition create_mmu_entry ::
  "u8 \<Rightarrow> u8 \<Rightarrow> u8 \<Rightarrow> u8 \<Rightarrow> u32 \<Rightarrow> u8 \<Rightarrow> u8 \<Rightarrow> u8 \<Rightarrow> u8 \<Rightarrow> u8 \<Rightarrow> u64 \<Rightarrow> u32 \<Rightarrow> u64" where
  "create_mmu_entry G a0 a1 asid VA X W R U C PA SZ =
     (let entry = 0;
          entry = SET_FIELD entry PTE_V 1;
          entry = SET_FIELD entry PTE_G (ucast G);
          entry = SET_FIELD entry PTE_ATR0 (ucast a0);
          entry = SET_FIELD entry PTE_ATR1 (ucast a1);
          entry = SET_FIELD entry PTE_ASID (ucast asid);
          entry = SET_FIELD entry PTE_VPN (ucast (drop_bit TARGET_PAGE_BITS VA));
          entry = SET_FIELD entry PTE_X (ucast X);
          entry = SET_FIELD entry PTE_W (scast W);
          entry = SET_FIELD entry PTE_R (ucast R);
          entry = SET_FIELD entry PTE_U (ucast U);
          entry = SET_FIELD entry PTE_C (ucast C);
          entry = SET_FIELD entry PTE_PA35 (drop_bit (TARGET_PAGE_BITS + 35) PA AND 1);
          entry = SET_FIELD entry PTE_PPD (drop_bit (TARGET_PAGE_BITS - 1) PA)
      in entry OR ucast SZ)"

text \<open>
  \<open>hex_dump_mmu_entry\<close>: the values it prints, in the order it prints them,
  with the page-size string; \<open>None\<close> for the \<open>invalid\<close> line.
\<close>

definition hex_dump_mmu_entry ::
  "u64 \<Rightarrow> (unit, ((string \<times> u64) list \<times> string \<times> u32) option) outcome" where
  "hex_dump_mmu_entry entry =
     (if GET_FIELD entry PTE_V \<noteq> 0 then
        bind_outcome (hex_tlb_phys_addr entry) (\<lambda>PA.
        bind_outcome (pgsize_str (ucast entry)) (\<lambda>sz.
        bind_outcome (hex_tlb_page_size entry) (\<lambda>ps.
          Ok (Some
           ([(''V'', GET_FIELD entry PTE_V), (''G'', GET_FIELD entry PTE_G),
             (''A1'', GET_FIELD entry PTE_ATR1), (''A0'', GET_FIELD entry PTE_ATR0),
             (''ASID'', GET_FIELD entry PTE_ASID), (''VA'', hex_tlb_virt_addr entry),
             (''X'', GET_FIELD entry PTE_X), (''W'', GET_FIELD entry PTE_W),
             (''R'', GET_FIELD entry PTE_R), (''U'', GET_FIELD entry PTE_U),
             (''C'', GET_FIELD entry PTE_C), (''PA'', PA)], sz, ps)))))
      else Ok None)"

section \<open>What an encoded page looks like\<close>

text \<open>A physical address is aligned to the page size when its page offset bits are zero.\<close>

definition page_aligned :: "PageShift \<Rightarrow> u64 \<Rightarrow> bool" where
  "page_aligned s pa \<longleftrightarrow> take_bit (12 + 2 * page_shift s) pa = 0"

lemma page_aligned_bit:
  assumes "page_aligned s pa" and "i < 12 + 2 * page_shift s"
  shows "\<not> bit pa i"
proof -
  have "\<not> bit (take_bit (12 + 2 * page_shift s) pa) i" using assms(1) by (simp add: page_aligned_def)
  with assms(2) show ?thesis by (simp add: bit_take_bit_iff)
qed

lemma PageSize_eq_1_iff: "PageSize s = 1 \<longleftrightarrow> page_shift s = 0"
  by (cases s) (simp_all add: PageSize_def)


lemma bit_set_member_outside:
  assumes "\<not> (offset (member_info m) \<le> i \<and> i < offset (member_info m) + width (member_info m))"
  shows "bit (set_member t m v) i = bit t i"
  using assms by (cases "i < 64") (auto simp: bit_set_member dest: bit_imp_le_length)

lemma bit_page_start: "bit (page_start va n) i \<longleftrightarrow> n \<le> i \<and> bit va i"
  by (auto simp: page_start_def Let_def bit_and_iff bit_not_iff bit_exp_minus_1_iff
      dest: bit_imp_le_length)

lemma bit_3_iff: "bit (3::u64) j \<longleftrightarrow> j < 2"
  using bit_mask_iff [of 2 j, where 'a = u64] by (auto simp: mask_eq_exp_minus_1)

lemma bit_ppn:
  assumes "i < 64"
  shows "bit (push_bit 1 (drop_bit 12 pa) OR ucast (PageSize s) :: u64) i \<longleftrightarrow>
    (1 \<le> i \<and> bit pa (i + 11)) \<or> i = page_shift s"
proof -
  have "bit (push_bit 1 (drop_bit 12 pa)) i \<longleftrightarrow> 1 \<le> i \<and> bit pa (i + 11)"
    using assms unfolding bit_push_bit_iff bit_drop_bit_eq o_def
    by (auto simp: add.commute)
  then show ?thesis using assms unfolding bit_or_iff by (simp add: bit_ucast_iff bit_PageSize)
qed

lemma bit_drop_and_ones:
  "bit (drop_bit n (pa AND push_bit n m) :: u64) j \<longleftrightarrow> n + j < 64 \<and> bit pa (n + j) \<and> bit m j"
  by (auto simp: bit_drop_bit_eq bit_and_iff bit_push_bit_iff)

lemma bit_basic_entry [bit_field_simps]:
  assumes "i < 64"
  shows "bit (basic_entry arch va pa (PageSize s)) i \<longleftrightarrow>
    (32 \<le> i \<and> i < 52 \<and> bit va (i - 20)) \<or>
    (72 < arch \<and> 59 \<le> i \<and> i < 61 \<and> bit pa (i - 23)) \<or>
    (i = 61 \<and> bit pa 35) \<or> (1 \<le> i \<and> bit pa (i + 11)) \<or> i = page_shift s"
proof -
  define t0 where "t0 = set_member 0 VirtualPage (ucast (drop_bit 12 va))"
  define t1 where "t1 = (if arch > 72
     then set_member t0 PPN_EX (drop_bit 36 (pa AND push_bit 36 3)) else t0)"
  define t2 where "t2 = set_member t1 EP (drop_bit 35 (pa AND push_bit 35 1))"
  define t3 where "t3 = (if PageSize s = 1 then set_member t2 S_bit 1 else t2)"
  have b0: "bit t0 i \<longleftrightarrow> 32 \<le> i \<and> i < 52 \<and> bit va (i - 20)"
    using assms by (auto simp: t0_def bit_set_member bit_ucast_iff bit_drop_bit_eq)
  have b1: "bit t1 i \<longleftrightarrow> bit t0 i \<or> (72 < arch \<and> 59 \<le> i \<and> i < 61 \<and> bit pa (i - 23))"
    using assms b0 unfolding t1_def
    by (auto simp: bit_set_member bit_drop_and_ones bit_3_iff simp del: push_bit_numeral drop_bit_and bit_numeral_word_iff)
  have b2: "bit t2 i \<longleftrightarrow> bit t1 i \<or> (i = 61 \<and> bit pa 35)"
  proof (cases "i = 61")
    case True
    then show ?thesis using b0 b1
      by (simp add: t2_def bit_set_member bit_drop_and_ones del: push_bit_of_1 drop_bit_and)
  next
    case False
    then have "\<not> (61 \<le> i \<and> i < 62)" by auto
    with False show ?thesis by (simp add: t2_def bit_set_member_outside)
  qed
  have b3: "bit t3 i \<longleftrightarrow> bit t2 i \<or> (i = 0 \<and> page_shift s = 0)"
    using assms b0 b1 b2 unfolding t3_def
    by (auto simp: bit_set_member PageSize_eq_1_iff bit_1_iff)
  define p where "p = push_bit 1 (drop_bit 12 pa) OR ucast (PageSize s)"
  have p: "bit p i \<longleftrightarrow> (1 \<le> i \<and> bit pa (i + 11)) \<or> i = page_shift s"
    unfolding p_def using assms by (rule bit_ppn)
  have "basic_entry arch va pa (PageSize s) = t3 OR p"
    by (simp add: basic_entry_def Let_def t0_def t1_def t2_def t3_def p_def)
  then have "bit (basic_entry arch va pa (PageSize s)) i \<longleftrightarrow> bit t3 i \<or> bit p i"
    by (simp add: bit_or_iff)
  then show ?thesis using b0 b1 b2 b3 p by metis
qed

text \<open>
  What the decoders need of an entry: the low 24 bits hold the page number
  with the size marker, bit 61 is physical address bit 35.
\<close>

definition encodes_page :: "u64 \<Rightarrow> PageShift \<Rightarrow> u64 \<Rightarrow> bool" where
  "encodes_page e s pa \<longleftrightarrow>
     (\<forall>i<24. bit e i \<longleftrightarrow> (1 \<le> i \<and> bit pa (i + 11)) \<or> i = page_shift s) \<and>
     (bit e 61 \<longleftrightarrow> bit pa 35)"

lemma encodes_page_ctz:
  assumes "encodes_page e s pa" and "page_aligned s pa"
  shows "ctz e = page_shift s"
proof (rule ctz_eqI)
  have lt: "page_shift s < 24" using page_shift_le [of s] by simp
  then show "bit e (page_shift s)" using assms(1) by (simp add: encodes_page_def)
  fix i assume "i < page_shift s"
  moreover from this have "\<not> bit pa (i + 11)"
    using page_aligned_bit [OF assms(2), of "i + 11"] by simp
  ultimately show "\<not> bit e i" using assms(1) lt by (simp add: encodes_page_def)
qed

lemma encodes_page_pgsize:
  assumes "encodes_page e s pa" and "page_aligned s pa"
  shows "hex_tlb_pgsize e = Ok (page_shift s)"
proof -
  have "bit e (page_shift s)"
    using assms(1) page_shift_le [of s] by (simp add: encodes_page_def)
  then have "e \<noteq> 0" by auto
  then show ?thesis using encodes_page_ctz [OF assms] page_shift_le [of s]
    by (simp add: hex_tlb_pgsize_def NUM_PGSIZE_TYPES_def)
qed

lemma bit_GET_PPD:
  "bit (GET_PPD e) i \<longleftrightarrow> (i < 24 \<and> bit e i) \<or> (i = 24 \<and> bit e 61)"
  by (auto simp: GET_PPD_def bit_or_iff bit_push_bit_iff GET_FIELD_def bit_fEXTRACTU_BITS
      dest: bit_imp_le_length)

lemma bit_phys_page_num:
  "bit (hex_tlb_phys_page_num e) i \<longleftrightarrow> (i < 23 \<and> bit e (i + 1)) \<or> (i = 23 \<and> bit e 61)"
  by (auto simp: hex_tlb_phys_page_num_def bit_ucast_iff bit_drop_bit_eq bit_GET_PPD)

lemma encmask_2_mask_nth:
  "s \<le> 6 \<Longrightarrow> encmask_2_mask ! s = mask (12 + 2 * s)"
  by (auto simp: encmask_2_mask_def mask_eq_exp_minus_1 numeral_nat le_Suc_eq)

lemma page_aligned_and_not_mask:
  "page_aligned s pa \<Longrightarrow> pa AND NOT (mask (12 + 2 * page_shift s)) = pa"
  by (rule bit_word_eqI) (auto simp: bit_and_iff bit_not_iff bit_mask_iff dest: page_aligned_bit)

text \<open>Masking the decoded page number with any mask that covers the page offset.\<close>

lemma encodes_page_masked:
  assumes "encodes_page e s pa" and "12 + 2 * page_shift s \<le> n" and "unat pa < 2 ^ 36"
  shows "push_bit 12 (hex_tlb_phys_page_num e) AND NOT (mask n) = pa AND NOT (mask n)"
proof (rule bit_word_eqI)
  fix i assume "i < LENGTH(64)"
  then have i: "i < 64" by simp
  have "bit (push_bit 12 (hex_tlb_phys_page_num e)) i = bit pa i" if "n \<le> i"
  proof -
    consider "i < 35" | "i = 35" | "36 \<le> i" by linarith
    then show ?thesis
    proof cases
      case 1
      then have "bit e (i - 12 + 1) \<longleftrightarrow> bit pa (i - 12 + 1 + 11) \<or> i - 12 + 1 = page_shift s"
        using assms(1) unfolding encodes_page_def by simp
      moreover have "i - 12 + 1 \<noteq> page_shift s" "i - 12 + 1 + 11 = i" "i - 12 < 23"
        using 1 that assms(2) by auto
      ultimately show ?thesis using i that assms(2)
        by (simp add: bit_push_bit_iff bit_phys_page_num)
    next
      case 2
      then show ?thesis using assms(1)
        by (simp add: bit_push_bit_iff bit_phys_page_num encodes_page_def)
    next
      case 3
      then have "\<not> bit pa i" using bit_beyond_unat [OF assms(3)] by simp
      moreover have "\<not> i - 12 < 23" "i - 12 \<noteq> 23" using 3 by auto
      ultimately show ?thesis by (simp add: bit_push_bit_iff bit_phys_page_num)
    qed
  qed
  then show "bit (push_bit 12 (hex_tlb_phys_page_num e) AND NOT (mask n)) i = bit (pa AND NOT (mask n)) i"
    by (auto simp: bit_and_iff bit_not_iff bit_mask_iff)
qed

lemma encodes_page_phys_addr:
  assumes "encodes_page e s pa" and "page_aligned s pa"
    and "page_shift s \<le> 6" and "unat pa < 2 ^ 36"
  shows "hex_tlb_phys_addr e = Ok pa"
proof -
  have "page_shift s < length encmask_2_mask" using assms(3) by (simp add: encmask_2_mask_def)
  then show ?thesis
    using assms encodes_page_pgsize [OF assms(1,2)] encodes_page_masked [OF assms(1) _ assms(4), of "12 + 2 * page_shift s"]
    by (simp add: hex_tlb_phys_addr_def array_at_def TARGET_PAGE_BITS_def encmask_2_mask_nth
        page_aligned_and_not_mask)
qed

lemma encodes_page_phys_addr_64M:
  assumes "encodes_page e SHIFT_64M pa" and "page_aligned SHIFT_64M pa" and "unat pa < 2 ^ 36"
  shows "hex_tlb_phys_addr e = Ok (pa AND NOT (mask 32))"
proof -
  have "encmask_2_mask ! 7 = mask 32" "7 < length encmask_2_mask"
    by (simp_all add: encmask_2_mask_def mask_eq_exp_minus_1)
  then show ?thesis
    using encodes_page_pgsize [OF assms(1,2)] encodes_page_masked [OF assms(1) _ assms(3), of 32]
    by (simp add: hex_tlb_phys_addr_def array_at_def TARGET_PAGE_BITS_def del: mask_numeral)
qed

lemma encodes_page_phys_addr_Undef:
  assumes "encodes_page e s pa" and "page_aligned s pa" and "8 \<le> page_shift s"
  shows "hex_tlb_phys_addr e = Undef"
  using assms(3) encodes_page_pgsize [OF assms(1,2)]
  by (simp add: hex_tlb_phys_addr_def array_at_def encmask_2_mask_def)

lemma bit_7_iff: "bit (7::u64) j \<longleftrightarrow> j < 3"
  using bit_mask_iff [of 3 j, where 'a = u64] by (auto simp: mask_eq_exp_minus_1)

lemma bit_mkentry_low:
  assumes "i < 62" and "\<not> (24 \<le> i \<and> i < 32)"
  shows "bit (mkentry arch va pa sz) i = bit (basic_entry arch va pa sz) i"
proof -
  have "\<not> (24 \<le> i \<and> i < 28)" "\<not> (28 \<le> i \<and> i < 32)" using assms by auto
  then show ?thesis using assms(1) by (simp add: mkentry_def Let_def bit_set_member_outside)
qed

lemma mkentry_encodes_page:
  assumes "unat pa < 2 ^ 43"
  shows "encodes_page (mkentry arch va pa (PageSize s)) s pa"
proof -
  have "bit (mkentry arch va pa (PageSize s)) i \<longleftrightarrow> (1 \<le> i \<and> bit pa (i + 11)) \<or> i = page_shift s"
    if "i < 24" for i
    using that by (simp add: bit_mkentry_low bit_basic_entry)
  moreover have "bit (mkentry arch va pa (PageSize s)) 61 \<longleftrightarrow> bit pa 35"
  proof -
    have "\<not> bit pa 72" using assms by (intro bit_beyond_unat [of _ 43]) simp_all
    moreover have "page_shift s \<noteq> 61" using page_shift_le [of s] by simp
    ultimately show ?thesis by (simp add: bit_mkentry_low bit_basic_entry)
  qed
  ultimately show ?thesis by (simp add: encodes_page_def)
qed

lemma virt_addr_eqI:
  assumes "\<And>i. i < 20 \<Longrightarrow> bit e (32 + i) \<longleftrightarrow> bit va (12 + i)"
  shows "hex_tlb_virt_addr e = ucast (page_start va TARGET_PAGE_BITS)"
proof (rule bit_word_eqI)
  fix i assume "i < LENGTH(64)"
  then have i: "i < 64" by simp
  have ps: "bit (page_start va 12) i \<longleftrightarrow> 12 \<le> i \<and> bit va i"
    by (rule bit_page_start)
  have "bit (hex_tlb_virt_addr e) i \<longleftrightarrow> 12 \<le> i \<and> i < 32 \<and> bit e (20 + i)"
    using i by (auto simp: hex_tlb_virt_addr_def TARGET_PAGE_BITS_def bit_push_bit_iff
        GET_FIELD_def bit_fEXTRACTU_BITS)
  moreover have "12 \<le> i \<Longrightarrow> i < 32 \<Longrightarrow> bit e (20 + i) \<longleftrightarrow> bit va i"
    using assms [of "i - 12"] by simp
  moreover have "bit va i \<Longrightarrow> i < 32" using bit_imp_le_length [of va i] by simp
  ultimately show "bit (hex_tlb_virt_addr e) i = bit (ucast (page_start va TARGET_PAGE_BITS) :: u64) i"
    using i ps by (auto simp: bit_ucast_iff TARGET_PAGE_BITS_def)
qed

lemma mkentry_virt_addr:
  assumes "unat pa < 2 ^ 43"
  shows "hex_tlb_virt_addr (mkentry arch va pa (PageSize s)) = ucast (page_start va TARGET_PAGE_BITS)"
proof (rule virt_addr_eqI)
  fix i :: nat assume i: "i < 20"
  have "\<not> bit pa (32 + i + 11)" using assms by (intro bit_beyond_unat [of _ 43]) simp_all
  moreover have "32 + i \<noteq> page_shift s" using page_shift_le [of s] by simp
  ultimately show "bit (mkentry arch va pa (PageSize s)) (32 + i) = bit va (12 + i)"
    using i by (simp add: bit_mkentry_low bit_basic_entry)
qed

lemma mkentry_members:
  "get_member (mkentry arch va pa sz) CacheAttr = 7"
  "get_member (mkentry arch va pa sz) XWRU = 6"
  "get_member (mkentry arch va pa sz) VG = 3"
  by (simp_all add: mkentry_def Let_def tlb_union.get_put_same tlb_union.get_put_apart
      members_apart_def)

definition mmu_entry_fields ::
  "u8 \<Rightarrow> u8 \<Rightarrow> u8 \<Rightarrow> u8 \<Rightarrow> u32 \<Rightarrow> u8 \<Rightarrow> u8 \<Rightarrow> u8 \<Rightarrow> u8 \<Rightarrow> u8 \<Rightarrow> u64 \<Rightarrow> (reg_fields_enum \<times> u64) list" where
  "mmu_entry_fields G a0 a1 asid VA X W R U C PA =
     [(PTE_V, 1), (PTE_G, ucast G), (PTE_ATR0, ucast a0), (PTE_ATR1, ucast a1),
      (PTE_ASID, ucast asid), (PTE_VPN, ucast (drop_bit TARGET_PAGE_BITS VA)),
      (PTE_X, ucast X), (PTE_W, scast W), (PTE_R, ucast R), (PTE_U, ucast U), (PTE_C, ucast C),
      (PTE_PA35, drop_bit (TARGET_PAGE_BITS + 35) PA AND 1),
      (PTE_PPD, drop_bit (TARGET_PAGE_BITS - 1) PA)]"

lemma create_mmu_entry_eq:
  "create_mmu_entry G a0 a1 asid VA X W R U C PA SZ =
     pte.puts_all (mmu_entry_fields G a0 a1 asid VA X W R U C PA) 0 OR ucast SZ"
  by (simp add: create_mmu_entry_def mmu_entry_fields_def Let_def)

lemma mmu_entry_fields_get:
  assumes "(f, v) \<in> set (mmu_entry_fields G a0 a1 asid VA X W R U C PA)"
  shows "GET_FIELD (pte.puts_all (mmu_entry_fields G a0 a1 asid VA X W R U C PA) 0) f =
     take_bit (width (reg_field_info f)) v"
proof (rule pte.get_puts_all_mem [OF assms])
  have "fst ` set (mmu_entry_fields G a0 a1 asid VA X W R U C PA) = set pte_fields"
    by (auto simp: mmu_entry_fields_def pte_fields_def)
  then show "pairwise fields_apart (fst ` set (mmu_entry_fields G a0 a1 asid VA X W R U C PA))"
    using pte_fields_apart by simp
  show "distinct (map fst (mmu_entry_fields G a0 a1 asid VA X W R U C PA))"
    by (simp add: mmu_entry_fields_def)
qed simp

lemma GET_FIELD_or_size:
  assumes "f \<in> set pte_fields" and "f \<noteq> PTE_PPD"
  shows "GET_FIELD (e OR ucast (PageSize s) :: u64) f = GET_FIELD e f"
proof (rule bit_word_eqI)
  fix i assume "i < LENGTH(64)"
  have "24 \<le> offset (reg_field_info f)" using assms by (auto simp: pte_fields_def)
  then have "offset (reg_field_info f) + i \<noteq> page_shift s" using page_shift_le [of s] by linarith
  then show "bit (GET_FIELD (e OR ucast (PageSize s)) f) i = bit (GET_FIELD e f) i"
    by (auto simp: GET_FIELD_def bit_fEXTRACTU_BITS bit_or_iff bit_ucast_iff bit_PageSize)
qed

lemma create_mmu_entry_field:
  assumes "(f, v) \<in> set (mmu_entry_fields G a0 a1 asid VA X W R U C PA)" and "f \<noteq> PTE_PPD"
  shows "GET_FIELD (create_mmu_entry G a0 a1 asid VA X W R U C PA (PageSize s)) f =
     take_bit (width (reg_field_info f)) v"
proof -
  have "f \<in> set pte_fields" using assms(1) by (auto simp: mmu_entry_fields_def pte_fields_def)
  then show ?thesis
    using assms by (simp add: create_mmu_entry_eq GET_FIELD_or_size mmu_entry_fields_get)
qed

lemma create_mmu_entry_encodes_page:
  assumes "unat PA < 2 ^ 47" and "page_aligned s PA"
  shows "encodes_page (create_mmu_entry G a0 a1 asid VA X W R U C PA (PageSize s)) s (take_bit 35 PA)"
proof -
  let ?fs = "mmu_entry_fields G a0 a1 asid VA X W R U C PA"
  let ?e = "create_mmu_entry G a0 a1 asid VA X W R U C PA (PageSize s)"
  have ppd: "GET_FIELD (pte.puts_all ?fs 0) PTE_PPD = take_bit 24 (drop_bit 11 PA)"
    using mmu_entry_fields_get [of PTE_PPD "drop_bit (TARGET_PAGE_BITS - 1) PA"]
    by (simp add: mmu_entry_fields_def TARGET_PAGE_BITS_def)
  have "bit ?e i \<longleftrightarrow> (1 \<le> i \<and> bit (take_bit 35 PA) (i + 11)) \<or> i = page_shift s" if "i < 24" for i
  proof -
    have "bit (GET_FIELD (pte.puts_all ?fs 0) PTE_PPD) i = bit (pte.puts_all ?fs 0) i"
      using that by (simp add: GET_FIELD_def bit_fEXTRACTU_BITS)
    then have "bit (pte.puts_all ?fs 0) i \<longleftrightarrow> bit PA (i + 11)"
      using that ppd by (simp add: bit_take_bit_iff bit_drop_bit_eq add.commute)
    moreover have "\<not> bit PA 11" using page_aligned_bit [OF assms(2), of 11] by simp
    ultimately show ?thesis using that
      by (cases i) (auto simp: create_mmu_entry_eq bit_or_iff bit_ucast_iff bit_PageSize bit_take_bit_iff)
  qed
  moreover have "bit ?e 61 \<longleftrightarrow> bit (take_bit 35 PA) 35"
  proof -
    have "\<not> bit PA 47" using bit_beyond_unat [OF assms(1)] by simp
    moreover have "GET_FIELD ?e PTE_PA35 = take_bit 1 (drop_bit 47 PA AND 1)"
      using create_mmu_entry_field [of PTE_PA35 "drop_bit (TARGET_PAGE_BITS + 35) PA AND 1"]
      by (simp add: mmu_entry_fields_def TARGET_PAGE_BITS_def)
    then have "bit (GET_FIELD ?e PTE_PA35) 0 \<longleftrightarrow> bit PA 47"
      by (simp add: bit_iff_odd_drop_bit even_and_iff)
    then have "bit ?e 61 \<longleftrightarrow> bit PA 47" by (simp add: GET_FIELD_def bit_fEXTRACTU_BITS)
    ultimately show ?thesis by (simp add: bit_take_bit_iff)
  qed
  ultimately show ?thesis by (simp add: encodes_page_def)
qed

lemma create_mmu_entry_virt_addr:
  "hex_tlb_virt_addr (create_mmu_entry G a0 a1 asid VA X W R U C PA (PageSize s)) =
     ucast (page_start VA TARGET_PAGE_BITS)"
proof (rule virt_addr_eqI)
  fix i :: nat assume i: "i < 20"
  let ?e = "create_mmu_entry G a0 a1 asid VA X W R U C PA (PageSize s)"
  have "GET_FIELD ?e PTE_VPN = take_bit 20 (ucast (drop_bit 12 VA))"
    using create_mmu_entry_field [of PTE_VPN "ucast (drop_bit TARGET_PAGE_BITS VA)"]
    by (simp add: mmu_entry_fields_def TARGET_PAGE_BITS_def)
  then have "bit (GET_FIELD ?e PTE_VPN) i = bit VA (12 + i)"
    using i by (simp add: bit_take_bit_iff bit_ucast_iff bit_drop_bit_eq)
  then show "bit ?e (32 + i) = bit VA (12 + i)"
    using i by (simp add: GET_FIELD_def bit_fEXTRACTU_BITS)
qed

lemma page_aligned_take_bit:
  "page_aligned s pa \<Longrightarrow> page_aligned s (take_bit n pa)"
  unfolding page_aligned_def by (metis take_bit_of_0 take_bit_take_bit min.commute)

lemma unat_take_bit_less: "unat (take_bit n (pa::u64)) < 2 ^ n"
  by (rule unat_less_exp_iff_bits) (simp add: bit_take_bit_iff)

section \<open>Round trips\<close>

text \<open>C36: an entry made by \<open>mkentry\<close> of the runtime decodes, with the helpers of
  \<open>mmu.h\<close>, to the virtual page, the physical address and the page size it was made
  from, and carries the default attributes (cacheability 7, permissions 6, valid and
  global), for every page size up to 16M and every page-aligned 36-bit address.\<close>

theorem mkentry_roundtrip:
  assumes "unat pa < 2 ^ 36" and "page_aligned s pa" and "page_shift s \<le> 6"
  shows "hex_tlb_virt_addr (mkentry arch va pa (PageSize s)) = ucast (page_start va TARGET_PAGE_BITS)
    \<and> hex_tlb_phys_addr (mkentry arch va pa (PageSize s)) = Ok pa
    \<and> hex_tlb_pgsize (mkentry arch va pa (PageSize s)) = Ok (page_shift s)
    \<and> get_member (mkentry arch va pa (PageSize s)) CacheAttr = 7
    \<and> get_member (mkentry arch va pa (PageSize s)) XWRU = 6
    \<and> get_member (mkentry arch va pa (PageSize s)) VG = 3"
proof -
  have "unat pa < 2 ^ 43" using assms(1) by simp
  then have "encodes_page (mkentry arch va pa (PageSize s)) s pa"
    and "hex_tlb_virt_addr (mkentry arch va pa (PageSize s)) = ucast (page_start va TARGET_PAGE_BITS)"
    by (rule mkentry_encodes_page, rule mkentry_virt_addr)
  with assms show ?thesis
    by (simp add: encodes_page_phys_addr encodes_page_pgsize mkentry_members)
qed

theorem mkentry_roundtrip_witness:
  "hex_tlb_phys_addr (mkentry 0 0xC0100123 0x812340000 (PageSize SHIFT_256K)) = Ok 0x812340000"
  using mkentry_roundtrip [of "0x812340000" SHIFT_256K 0 "0xC0100123"] by (simp add: page_aligned_def)

text \<open>Every field of an entry made by \<open>create_mmu_entry\<close> reads back as the argument
  cut to the field's width, and virtual page and page size decode to the arguments.\<close>

lemma create_mmu_entry_fields:
  assumes "unat PA < 2 ^ 47" and "page_aligned s PA"
    and e: "e = create_mmu_entry G a0 a1 asid VA X W R U C PA (PageSize s)"
  shows "GET_FIELD e PTE_V = 1 \<and> GET_FIELD e PTE_G = take_bit 1 (ucast G)
    \<and> GET_FIELD e PTE_ATR0 = take_bit 1 (ucast a0) \<and> GET_FIELD e PTE_ATR1 = take_bit 1 (ucast a1)
    \<and> GET_FIELD e PTE_ASID = take_bit 7 (ucast asid)
    \<and> GET_FIELD e PTE_X = take_bit 1 (ucast X) \<and> GET_FIELD e PTE_W = take_bit 1 (scast W)
    \<and> GET_FIELD e PTE_R = take_bit 1 (ucast R) \<and> GET_FIELD e PTE_U = take_bit 1 (ucast U)
    \<and> GET_FIELD e PTE_C = take_bit 4 (ucast C)
    \<and> hex_tlb_virt_addr e = ucast (page_start VA TARGET_PAGE_BITS)
    \<and> hex_tlb_pgsize e = Ok (page_shift s)"
proof -
  have "encodes_page e s (take_bit 35 PA)"
    unfolding e using assms(1,2) by (rule create_mmu_entry_encodes_page)
  then have "hex_tlb_pgsize e = Ok (page_shift s)"
    using assms(2) by (blast intro: encodes_page_pgsize page_aligned_take_bit)
  moreover have "hex_tlb_virt_addr e = ucast (page_start VA TARGET_PAGE_BITS)"
    unfolding e by (rule create_mmu_entry_virt_addr)
  moreover have "GET_FIELD e f = take_bit (width (reg_field_info f)) v"
    if "(f, v) \<in> set (mmu_entry_fields G a0 a1 asid VA X W R U C PA)" "f \<noteq> PTE_PPD" for f v
    unfolding e using that by (rule create_mmu_entry_field)
  note this [of PTE_V] this [of PTE_G] this [of PTE_ATR0] this [of PTE_ATR1] this [of PTE_ASID]
    this [of PTE_X] this [of PTE_W] this [of PTE_R] this [of PTE_U] this [of PTE_C]
  ultimately show ?thesis by (simp add: mmu_entry_fields_def)
qed

text \<open>The physical address that decodes from an entry made by \<open>create_mmu_entry\<close> is
  the argument cut to 35 bits: the code takes bit 47 of the address for the field that
  the decoder (and the field table) reads as address bit 35.\<close>

lemma create_mmu_entry_phys_addr:
  assumes "unat PA < 2 ^ 47" and "page_aligned s PA" and "page_shift s \<le> 6"
  shows "hex_tlb_phys_addr (create_mmu_entry G a0 a1 asid VA X W R U C PA (PageSize s)) =
    Ok (take_bit 35 PA)"
proof (rule encodes_page_phys_addr)
  show "encodes_page (create_mmu_entry G a0 a1 asid VA X W R U C PA (PageSize s)) s (take_bit 35 PA)"
    using assms(1,2) by (rule create_mmu_entry_encodes_page)
  show "page_aligned s (take_bit 35 PA)" using assms(2) by (rule page_aligned_take_bit)
  have "unat (take_bit 35 PA) < 2 ^ 35" by (rule unat_take_bit_less)
  then show "unat (take_bit 35 PA) < 2 ^ 36" by simp
qed (rule assms(3))

text \<open>For page sizes above 16M the decoder's mask table fails: a 64M page decodes
  with its 32 low address bits cleared, and a 256M or 1G page indexes past the end of
  the table.\<close>

lemma hex_tlb_phys_addr_large_pages:
  assumes "unat pa < 2 ^ 36" and "page_aligned s pa" and "7 \<le> page_shift s"
  shows "hex_tlb_phys_addr (mkentry arch va pa (PageSize s)) =
    (if s = SHIFT_64M then Ok (pa AND NOT (mask 32)) else Undef)"
proof -
  have "unat pa < 2 ^ 43" using assms(1) by simp
  then have enc: "encodes_page (mkentry arch va pa (PageSize s)) s pa"
    by (rule mkentry_encodes_page)
  show ?thesis
  proof (cases "s = SHIFT_64M")
    case True
    then show ?thesis using encodes_page_phys_addr_64M enc assms(1,2) by simp
  next
    case False
    with assms(3) have "8 \<le> page_shift s" by (cases s) simp_all
    with False show ?thesis using encodes_page_phys_addr_Undef [OF enc assms(2)] by simp
  qed
qed

end
