(* ===== verification/Tlb_Runtime.thy ===== *)
theory Tlb_Runtime
  imports Tlb_Entry
begin

text \<open>
  The TLB runtime of \<^verbatim>\<open>crt0/tlb.c\<close>.  The TLB itself is hardware: the
  instructions \<open>tlbr\<close>, \<open>tlbw\<close> and \<open>tlbp\<close> are parameters of the model (a
  record of operations on a device state), and the locale \<open>tlb_device\<close> states
  what the code relies on.  The component's own state is the status register,
  the TLB lock bit, the number of fixed entries and the software page table.
\<close>

section \<open>State\<close>

record 'd tlb_ops =
  op_tlbr :: "'d \<Rightarrow> u32 \<Rightarrow> u64"
  op_tlbw :: "'d \<Rightarrow> u64 \<Rightarrow> u32 \<Rightarrow> 'd"
  op_tlbp :: "'d \<Rightarrow> u32 \<Rightarrow> u32"

record 'd tlb_rt =
  dev :: 'd
  ssr_reg :: u32
  syscfg_TL :: bool
  tlb_fixed_entries :: u32
  upte :: "nat \<Rightarrow> u16"

definition TLB_NOT_FOUND :: u32 where
  "TLB_NOT_FOUND = 0x80000000"

section \<open>Operations on the TLB\<close>

definition get_tlb_fixed_entries :: "'d tlb_rt \<Rightarrow> u32" where
  "get_tlb_fixed_entries st = tlb_fixed_entries st"

definition get_ssr :: "'d tlb_rt \<Rightarrow> u32" where
  "get_ssr st = ssr_reg st"

definition read_tlb_entry :: "'d tlb_ops \<Rightarrow> 'd tlb_rt \<Rightarrow> u32 \<Rightarrow> u64" where
  "read_tlb_entry hw st index = op_tlbr hw (dev st) index"

definition write_tlb_entry :: "'d tlb_ops \<Rightarrow> 'd tlb_rt \<Rightarrow> u64 \<Rightarrow> u32 \<Rightarrow> 'd tlb_rt" where
  "write_tlb_entry hw st entry index =
     (let st = st\<lparr>syscfg_TL := True\<rparr>;
          st = st\<lparr>dev := op_tlbw hw (dev st) entry index\<rparr>
      in st\<lparr>syscfg_TL := False\<rparr>)"

definition probe_key :: "u32 \<Rightarrow> u32 \<Rightarrow> u32" where
  "probe_key ssr va =
     (let VirtualPageNumber = drop_bit 12 va;
          asid = drop_bit 8 ssr AND 0x7f
      in (push_bit 20 asid OR VirtualPageNumber) AND 0x7ffffff)"

definition tlb_probe :: "'d tlb_ops \<Rightarrow> 'd tlb_rt \<Rightarrow> u32 \<Rightarrow> u32" where
  "tlb_probe hw st va = op_tlbp hw (dev st) (probe_key (get_ssr st) va)"

definition tlb_invalidate :: "'d tlb_ops \<Rightarrow> 'd tlb_rt \<Rightarrow> u32 \<Rightarrow> 'd tlb_rt" where
  "tlb_invalidate hw st va =
     (let entry = tlb_probe hw st va
      in if entry = TLB_NOT_FOUND then st
         else let tlb = read_tlb_entry hw st entry;
                  tlb = tlb AND NOT (push_bit 63 1)
              in write_tlb_entry hw st tlb entry)"

definition translation_entry ::
  "nat \<Rightarrow> u32 \<Rightarrow> u64 \<Rightarrow> u32 \<Rightarrow> u32 \<Rightarrow> u32 \<Rightarrow> u32 \<Rightarrow> u32 \<Rightarrow> u32 \<Rightarrow> u64" where
  "translation_entry arch va pa page_size xwru cccc asid aa vg =
     (let t = basic_entry arch va pa page_size;
          t = set_member t ASID (ucast asid AND 0x7f);
          t = set_member t CacheAttr (ucast cccc AND 0xf);
          t = set_member t XWRU (ucast xwru AND 0xf);
          t = set_member t VG (ucast vg AND 0x3)
      in if arch < 73 then t OR push_bit 59 (ucast aa AND 0x3) else t)"

text \<open>
  \<open>index\<close> is a C \<open>int\<close>: the first comparison is signed, the second is with an
  unsigned operand and so unsigned, and \<open>num_entries - 1\<close> wraps.
\<close>

definition add_translation_extended ::
  "nat \<Rightarrow> 'd tlb_ops \<Rightarrow> 'd tlb_rt \<Rightarrow> u32 \<Rightarrow> u32 \<Rightarrow> u64 \<Rightarrow> u32 \<Rightarrow> u32 \<Rightarrow> u32 \<Rightarrow> u32 \<Rightarrow> u32 \<Rightarrow> u32
   \<Rightarrow> 'd tlb_rt \<times> int" where
  "add_translation_extended arch hw st index va pa page_size xwru cccc asid aa vg =
     (let num_entries = get_tlb_fixed_entries st
      in if sint index < 1 \<or> index > num_entries - 1 then (st, -1)
         else let st = tlb_invalidate hw st va;
                  t = translation_entry arch va pa page_size xwru cccc asid aa vg
              in (write_tlb_entry hw st t index, 0))"

definition add_translation_fixed ::
  "nat \<Rightarrow> 'd tlb_ops \<Rightarrow> 'd tlb_rt \<Rightarrow> u32 \<Rightarrow> u32 \<Rightarrow> u32 \<Rightarrow> u32 \<Rightarrow> u32 \<Rightarrow> 'd tlb_rt" where
  "add_translation_fixed arch hw st index va pa cccc permissions =
     (let st = tlb_invalidate hw st va
      in fst (add_translation_extended arch hw st index va (ucast pa) (PageSize SHIFT_1M)
                permissions cccc 0 0 3))"

section \<open>The software page table\<close>

text \<open>
  \<open>SMALL_PTE\<close>: \<open>cache\<close> in bits 0 to 3, \<open>pa\<close> in bits 4 to 15.  A pointer into
  the table is its element index.
\<close>

definition get_pte_cache :: "u16 \<Rightarrow> u16" where
  "get_pte_cache p = p AND 0xf"

definition get_pte_pa :: "u16 \<Rightarrow> u16" where
  "get_pte_pa p = drop_bit 4 p"

definition set_pte_pa :: "u16 \<Rightarrow> u32 \<Rightarrow> u16" where
  "set_pte_pa p v = fINSERT_BITS p 12 4 (ucast v)"

definition set_pte_cache :: "u16 \<Rightarrow> u32 \<Rightarrow> u16" where
  "set_pte_cache p v = fINSERT_BITS p 4 0 (ucast v)"

definition findPTEAddr :: "u32 \<Rightarrow> nat" where
  "findPTEAddr va = unat (drop_bit 20 va)"

definition findPTEValue :: "'d tlb_rt \<Rightarrow> u32 \<Rightarrow> u16" where
  "findPTEValue st va = upte st (findPTEAddr va)"

definition add_translation :: "'d tlb_rt \<Rightarrow> u32 \<Rightarrow> u32 \<Rightarrow> u32 \<Rightarrow> 'd tlb_rt" where
  "add_translation st va pa cccc =
     (let i = findPTEAddr va;
          s = upte st i;
          s = set_pte_pa s (drop_bit 20 pa);
          s = set_pte_cache s cccc
      in st\<lparr>upte := (upte st)(i := s)\<rparr>)"

section \<open>Bits of a translation entry\<close>

lemma bit_aa_outside:
  "\<not> (59 \<le> i \<and> i < 61) \<Longrightarrow> \<not> bit (push_bit 59 (x AND 0x3) :: u64) i"
proof
  assume "\<not> (59 \<le> i \<and> i < 61)" "bit (push_bit 59 (x AND 0x3) :: u64) i"
  then have "59 \<le> i" "bit (3::u64) (i - 59)" "\<not> i < 61"
    unfolding bit_push_bit_iff bit_and_iff by simp_all
  then show False by (auto simp: bit_3_iff simp del: bit_numeral_word_iff)
qed

lemma bit_translation_entry_low:
  assumes "i < 24 \<or> 32 \<le> i \<and> i < 52 \<or> i = 61"
  shows "bit (translation_entry arch va pa sz xwru cccc asid aa vg) i =
    bit (basic_entry arch va pa sz) i"
proof -
  have *: "\<not> (52 \<le> i \<and> i < 59)" "\<not> (24 \<le> i \<and> i < 28)" "\<not> (28 \<le> i \<and> i < 32)" "\<not> (62 \<le> i \<and> i < 64)"
    using assms by auto
  have "\<not> bit (push_bit 59 (ucast aa AND 0x3) :: u64) i" using assms by (intro bit_aa_outside) auto
  then show ?thesis using *
    by (simp add: translation_entry_def Let_def bit_set_member_outside bit_or_iff)
qed

lemma translation_entry_encodes_page:
  assumes "unat pa < 2 ^ 43"
  shows "encodes_page (translation_entry arch va pa (PageSize s) xwru cccc asid aa vg) s pa"
proof -
  have "\<not> bit pa 72" using assms by (intro bit_beyond_unat [of _ 43]) simp_all
  moreover have "page_shift s \<noteq> 61" using page_shift_le [of s] by simp
  ultimately show ?thesis
    by (simp add: encodes_page_def bit_translation_entry_low bit_basic_entry)
qed

lemma translation_entry_vpn:
  assumes "unat pa < 2 ^ 43"
  shows "get_member (translation_entry arch va pa (PageSize s) xwru cccc asid aa vg) VirtualPage =
    ucast (drop_bit 12 va)"
proof (rule bit_word_eqI)
  fix i assume "i < LENGTH(64)"
  have "\<not> bit pa (32 + i + 11)" using assms by (intro bit_beyond_unat [of _ 43]) simp_all
  moreover have "32 + i \<noteq> page_shift s" using page_shift_le [of s] by simp
  moreover have "bit va (12 + i) \<Longrightarrow> i < 20" using bit_imp_le_length [of va "12 + i"] by simp
  ultimately show "bit (get_member (translation_entry arch va pa (PageSize s) xwru cccc asid aa vg)
      VirtualPage) i = bit (ucast (drop_bit 12 va) :: u64) i"
    using \<open>i < LENGTH(64)\<close>
    by (auto simp: bit_get_member bit_translation_entry_low bit_basic_entry bit_ucast_iff
        bit_drop_bit_eq)
qed

lemma get_member_or_outside:
  assumes "\<And>i. offset (member_info m) \<le> i \<Longrightarrow> i < offset (member_info m) + width (member_info m) \<Longrightarrow> \<not> bit y i"
  shows "get_member (x OR y) m = get_member x m"
  by (rule bit_word_eqI) (auto simp: bit_get_member bit_or_iff assms)

lemma translation_entry_members:
  "get_member (translation_entry arch va pa sz xwru cccc asid aa vg) ASID = take_bit 7 (ucast asid)"
  "get_member (translation_entry arch va pa sz xwru cccc asid aa vg) CacheAttr = take_bit 4 (ucast cccc)"
  "get_member (translation_entry arch va pa sz xwru cccc asid aa vg) XWRU = take_bit 4 (ucast xwru)"
  "get_member (translation_entry arch va pa sz xwru cccc asid aa vg) VG = take_bit 2 (ucast vg)"
proof -
  have outside: "get_member (t OR push_bit 59 (ucast aa AND 0x3)) m = get_member t m"
    if "m \<in> {ASID, CacheAttr, XWRU, VG}" for t m
    using that by (intro get_member_or_outside bit_aa_outside) auto
  have ones: "(0x7f :: u64) = mask 7" "(0xf :: u64) = mask 4" "(0x3 :: u64) = mask 2"
    by (simp_all add: mask_eq_exp_minus_1)
  note simps = translation_entry_def Let_def tlb_union.get_put_same tlb_union.get_put_apart
    members_apart_def
  show "get_member (translation_entry arch va pa sz xwru cccc asid aa vg) ASID = take_bit 7 (ucast asid)"
    using outside [of ASID] by (simp add: simps) (simp add: ones and_mask_eq_take_bit del: mask_numeral)
  show "get_member (translation_entry arch va pa sz xwru cccc asid aa vg) CacheAttr = take_bit 4 (ucast cccc)"
    using outside [of CacheAttr] by (simp add: simps) (simp add: ones and_mask_eq_take_bit del: mask_numeral)
  show "get_member (translation_entry arch va pa sz xwru cccc asid aa vg) XWRU = take_bit 4 (ucast xwru)"
    using outside [of XWRU] by (simp add: simps) (simp add: ones and_mask_eq_take_bit del: mask_numeral)
  show "get_member (translation_entry arch va pa sz xwru cccc asid aa vg) VG = take_bit 2 (ucast vg)"
    using outside [of VG] by (simp add: simps) (simp add: ones and_mask_eq_take_bit del: mask_numeral)
qed

section \<open>The TLB device\<close>

text \<open>
  When an entry matches a probe: it is valid, it is global or its address space
  is the probe's, and the virtual page numbers agree above the page offset of
  the entry's size (\<^verbatim>\<open>hexagon_standalone.h\<close>, the description of \<open>TLBHI\<close>).
\<close>

definition tlb_entry_matches :: "u32 \<Rightarrow> u64 \<Rightarrow> bool" where
  "tlb_entry_matches key e \<longleftrightarrow>
     bit e 63 \<and> (bit e 62 \<or> get_member e ASID = ucast (take_bit 7 (drop_bit 20 key))) \<and>
     drop_bit (2 * ctz e) (get_member e VirtualPage) = drop_bit (2 * ctz e) (ucast (take_bit 20 key))"

definition unique_match :: "'d tlb_ops \<Rightarrow> ('d \<Rightarrow> u32 \<Rightarrow> bool) \<Rightarrow> 'd \<Rightarrow> u32 \<Rightarrow> bool" where
  "unique_match hw ok d x \<longleftrightarrow> (\<forall>i j. ok d i \<longrightarrow> ok d j \<longrightarrow>
     tlb_entry_matches x (op_tlbr hw d i) \<longrightarrow> tlb_entry_matches x (op_tlbr hw d j) \<longrightarrow> i = j)"

lemma probe_key_fields:
  "take_bit 20 (probe_key ssr va) = drop_bit 12 va"
  "take_bit 7 (drop_bit 20 (probe_key ssr va)) = take_bit 7 (drop_bit 8 ssr)"
proof -
  have ones: "(0x7f :: u32) = mask 7" "(0x7ffffff :: u32) = mask 27"
    by (simp_all add: mask_eq_exp_minus_1)
  have va: "bit va (12 + i) \<Longrightarrow> i < 20" for i using bit_imp_le_length [of va "12 + i"] by simp
  show "take_bit 20 (probe_key ssr va) = drop_bit 12 va"
    using va unfolding probe_key_def Let_def ones
    by (intro bit_word_eqI)
       (auto simp: bit_take_bit_iff bit_and_iff bit_or_iff bit_push_bit_iff bit_mask_iff bit_drop_bit_eq)
  have va20: "\<not> bit va (32 + i)" for i using bit_imp_le_length [of va "32 + i"] by auto
  show "take_bit 7 (drop_bit 20 (probe_key ssr va)) = take_bit 7 (drop_bit 8 ssr)"
    using va20 unfolding probe_key_def Let_def ones
    by (intro bit_word_eqI)
       (auto simp: bit_take_bit_iff bit_and_iff bit_or_iff bit_push_bit_iff bit_mask_iff bit_drop_bit_eq)
qed

lemma bit_VG_member:
  "bit e 63 = bit (get_member e VG) 1" "bit e 62 = bit (get_member e VG) 0"
  by (simp_all add: bit_get_member)

lemma translation_entry_matches:
  assumes "unat pa < 2 ^ 43" and "bit vg 1"
    and "bit vg 0 \<or> take_bit 7 asid = take_bit 7 (drop_bit 8 ssr)"
  shows "tlb_entry_matches (probe_key ssr va)
    (translation_entry arch va pa (PageSize s) xwru cccc asid aa vg)"
proof -
  let ?e = "translation_entry arch va pa (PageSize s) xwru cccc asid aa vg"
  have "bit ?e 63" "bit ?e 62 = bit vg 0"
    using assms(2) by (simp_all add: bit_VG_member translation_entry_members bit_take_bit_iff bit_ucast_iff)
  moreover have "get_member ?e ASID = ucast (take_bit 7 (drop_bit 20 (probe_key ssr va)))"
    if "take_bit 7 asid = take_bit 7 (drop_bit 8 ssr)"
    using that by (simp add: translation_entry_members probe_key_fields unsigned_take_bit_eq [symmetric])
  ultimately show ?thesis
    using assms(3) by (auto simp: tlb_entry_matches_def translation_entry_vpn [OF assms(1)] probe_key_fields)
qed

lemma not_matches_cleared: "\<not> tlb_entry_matches x (e AND NOT (push_bit 63 1))"
  by (simp add: tlb_entry_matches_def bit_and_iff bit_not_iff)

locale tlb_device =
  fixes hw :: "'d tlb_ops" and ok :: "'d \<Rightarrow> u32 \<Rightarrow> bool"
  assumes rd_wr_same: "ok d i \<Longrightarrow> op_tlbr hw (op_tlbw hw d e i) i = e"
    and rd_wr_other: "ok d i \<Longrightarrow> ok d j \<Longrightarrow> i \<noteq> j \<Longrightarrow> op_tlbr hw (op_tlbw hw d e i) j = op_tlbr hw d j"
    and ok_wr: "ok (op_tlbw hw d e i) j = ok d j"
    and probe_hit: "op_tlbp hw d x \<noteq> TLB_NOT_FOUND \<Longrightarrow>
      ok d (op_tlbp hw d x) \<and> tlb_entry_matches x (op_tlbr hw d (op_tlbp hw d x))"
    and probe_miss: "op_tlbp hw d x = TLB_NOT_FOUND \<Longrightarrow> ok d i \<Longrightarrow>
      \<not> tlb_entry_matches x (op_tlbr hw d i)"
begin

lemma probe_unique:
  assumes "ok d i" and "tlb_entry_matches x (op_tlbr hw d i)"
    and "\<And>j. ok d j \<Longrightarrow> tlb_entry_matches x (op_tlbr hw d j) \<Longrightarrow> j = i"
  shows "op_tlbp hw d x = i"
  using assms probe_hit [of d x] probe_miss [of d x i] by blast

lemma write_read:
  assumes "ok (dev st) i" and "ok (dev st) j"
  shows "op_tlbr hw (dev (write_tlb_entry hw st e i)) j = (if i = j then e else op_tlbr hw (dev st) j)"
  using assms by (simp add: write_tlb_entry_def Let_def rd_wr_same rd_wr_other)

lemma ok_write: "ok (dev (write_tlb_entry hw st e i)) j = ok (dev st) j"
  by (simp add: write_tlb_entry_def Let_def ok_wr)

lemma ok_invalidate: "ok (dev (tlb_invalidate hw st va)) j = ok (dev st) j"
  by (simp add: tlb_invalidate_def Let_def ok_write)

lemma probe_ok: "tlb_probe hw st va \<noteq> TLB_NOT_FOUND \<Longrightarrow> ok (dev st) (tlb_probe hw st va)"
  using probe_hit unfolding tlb_probe_def by blast

lemma invalidate_entry:
  assumes "ok (dev st) j"
  shows "op_tlbr hw (dev (tlb_invalidate hw st va)) j =
    (if tlb_probe hw st va \<noteq> TLB_NOT_FOUND \<and> j = tlb_probe hw st va
     then op_tlbr hw (dev st) j AND NOT (push_bit 63 1) else op_tlbr hw (dev st) j)"
  using assms probe_ok [of st va]
  by (auto simp: tlb_invalidate_def Let_def write_read read_tlb_entry_def)

lemma invalidate_no_match:
  assumes "unique_match hw ok (dev st) (probe_key (ssr_reg st) va)" and "ok (dev st) j"
  shows "\<not> tlb_entry_matches (probe_key (ssr_reg st) va) (op_tlbr hw (dev (tlb_invalidate hw st va)) j)"
proof (cases "tlb_probe hw st va = TLB_NOT_FOUND")
  case True
  then show ?thesis using probe_miss [OF _ assms(2)] assms(2)
    by (simp add: invalidate_entry tlb_probe_def get_ssr_def)
next
  case False
  then have hit: "ok (dev st) (tlb_probe hw st va)"
    "tlb_entry_matches (probe_key (ssr_reg st) va) (op_tlbr hw (dev st) (tlb_probe hw st va))"
    using probe_hit [of "dev st" "probe_key (ssr_reg st) va"] by (simp_all add: tlb_probe_def get_ssr_def)
  show ?thesis
  proof (cases "j = tlb_probe hw st va")
    case True
    then have "op_tlbr hw (dev (tlb_invalidate hw st va)) j =
        op_tlbr hw (dev st) j AND NOT (push_bit 63 1)"
      using False invalidate_entry [OF assms(2), of va] by simp
    then show ?thesis using not_matches_cleared by metis
  next
    case other: False
    then have "\<not> tlb_entry_matches (probe_key (ssr_reg st) va) (op_tlbr hw (dev st) j)"
      using assms hit unfolding unique_match_def by blast
    then show ?thesis using other assms(2) by (simp add: invalidate_entry)
  qed
qed

lemma install_entry:
  assumes "unique_match hw ok (dev st) (probe_key (ssr_reg st) va)" and "ok (dev st) i"
    and "tlb_entry_matches (probe_key (ssr_reg st) va) e"
  shows "op_tlbp hw (dev (write_tlb_entry hw (tlb_invalidate hw st va) e i)) (probe_key (ssr_reg st) va) = i"
proof (rule probe_unique)
  show "ok (dev (write_tlb_entry hw (tlb_invalidate hw st va) e i)) i"
    using assms(2) by (simp add: ok_write ok_invalidate)
  show "tlb_entry_matches (probe_key (ssr_reg st) va)
      (op_tlbr hw (dev (write_tlb_entry hw (tlb_invalidate hw st va) e i)) i)"
    using assms(2,3) by (simp add: write_read ok_invalidate)
next
  fix j
  assume j: "ok (dev (write_tlb_entry hw (tlb_invalidate hw st va) e i)) j"
    and m: "tlb_entry_matches (probe_key (ssr_reg st) va)
      (op_tlbr hw (dev (write_tlb_entry hw (tlb_invalidate hw st va) e i)) j)"
  from j have "ok (dev st) j" by (simp add: ok_write ok_invalidate)
  with m show "j = i"
    using assms(1,2) invalidate_no_match [of st va j]
    by (auto simp: write_read ok_invalidate split: if_splits)
qed

end

section \<open>What the operations leave alone\<close>

lemma write_tlb_entry_frame [frame_simps]:
  "ssr_reg (write_tlb_entry hw st e i) = ssr_reg st"
  "tlb_fixed_entries (write_tlb_entry hw st e i) = tlb_fixed_entries st"
  "upte (write_tlb_entry hw st e i) = upte st"
  "syscfg_TL (write_tlb_entry hw st e i) = False"
  by (simp_all add: write_tlb_entry_def Let_def)

lemma tlb_invalidate_frame [frame_simps]:
  "ssr_reg (tlb_invalidate hw st va) = ssr_reg st"
  "tlb_fixed_entries (tlb_invalidate hw st va) = tlb_fixed_entries st"
  "upte (tlb_invalidate hw st va) = upte st"
  by (simp_all add: tlb_invalidate_def Let_def frame_simps)

section \<open>An array of entries as the device\<close>

definition arr_tlbp :: "u64 list \<Rightarrow> u32 \<Rightarrow> u32" where
  "arr_tlbp d key =
     (case find (\<lambda>i. tlb_entry_matches key (d ! i)) [0..<min (length d) (2 ^ 31)] of
        None \<Rightarrow> TLB_NOT_FOUND | Some i \<Rightarrow> of_nat i)"

definition arr_tlb :: "u64 list tlb_ops" where
  "arr_tlb = \<lparr>op_tlbr = (\<lambda>d i. if unat i < length d then d ! unat i else 0),
              op_tlbw = (\<lambda>d e i. d[unat i := e]), op_tlbp = arr_tlbp\<rparr>"

definition arr_ok :: "u64 list \<Rightarrow> u32 \<Rightarrow> bool" where
  "arr_ok d i \<longleftrightarrow> unat i < min (length d) (2 ^ 31)"

lemma find_upt_None_iff: "find P [0..<n] = None \<longleftrightarrow> (\<forall>i<n. \<not> P i)"
  by (simp add: find_None_iff)

lemma find_upt_SomeD: "find P [0..<n] = Some i \<Longrightarrow> i < n \<and> P i"
  by (auto simp: find_Some_iff)

interpretation arr: tlb_device arr_tlb arr_ok
proof
  fix d :: "u64 list" and x :: u32
  show "arr_ok d (op_tlbp arr_tlb d x) \<and> tlb_entry_matches x (op_tlbr arr_tlb d (op_tlbp arr_tlb d x))"
    if hit: "op_tlbp arr_tlb d x \<noteq> TLB_NOT_FOUND"
  proof -
    from hit obtain i where "find (\<lambda>i. tlb_entry_matches x (d ! i)) [0..<min (length d) (2 ^ 31)] = Some i"
      by (auto simp: arr_tlb_def arr_tlbp_def split: option.splits)
    moreover from find_upt_SomeD [OF this] have i: "i < min (length d) (2 ^ 31)" "tlb_entry_matches x (d ! i)"
      by simp_all
    moreover from i have "unat (of_nat i :: u32) = i"
      by (simp add: unat_of_nat_small)
    ultimately show ?thesis by (simp add: arr_tlb_def arr_tlbp_def arr_ok_def)
  qed
  show "\<not> tlb_entry_matches x (op_tlbr arr_tlb d i)"
    if "op_tlbp arr_tlb d x = TLB_NOT_FOUND" "arr_ok d i" for i
  proof -
    have "find (\<lambda>i. tlb_entry_matches x (d ! i)) [0..<min (length d) (2 ^ 31)] = None"
    proof (rule ccontr)
      assume "find (\<lambda>i. tlb_entry_matches x (d ! i)) [0..<min (length d) (2 ^ 31)] \<noteq> None"
      then obtain k where k: "find (\<lambda>i. tlb_entry_matches x (d ! i)) [0..<min (length d) (2 ^ 31)] = Some k"
        by auto
      then have "k < 2 ^ 31" by (auto dest: find_upt_SomeD)
      then have "unat (of_nat k :: u32) < 2 ^ 31" by (simp add: unat_of_nat_small)
      moreover have "(of_nat k :: u32) = TLB_NOT_FOUND" using that(1) k by (simp add: arr_tlb_def arr_tlbp_def)
      ultimately show False by (simp add: TLB_NOT_FOUND_def)
    qed
    with that(2) show ?thesis by (auto simp: find_upt_None_iff arr_ok_def arr_tlb_def)
  qed
qed (auto simp: arr_tlb_def arr_ok_def nth_list_update word_unat_eq_iff)

section \<open>Properties of the runtime\<close>

lemma tlb_invalidate_entry:
  assumes "tlb_device hw ok" and "unique_match hw ok (dev st) (probe_key (ssr_reg st) va)"
    and "ok (dev st) j"
  shows "\<not> tlb_entry_matches (probe_key (ssr_reg st) va) (read_tlb_entry hw (tlb_invalidate hw st va) j)
    \<and> read_tlb_entry hw (tlb_invalidate hw st va) j =
       (if tlb_entry_matches (probe_key (ssr_reg st) va) (read_tlb_entry hw st j)
        then read_tlb_entry hw st j AND NOT (push_bit 63 1) else read_tlb_entry hw st j)"
proof -
  let ?k = "probe_key (ssr_reg st) va"
  have "tlb_entry_matches ?k (op_tlbr hw (dev st) j) \<longleftrightarrow>
      tlb_probe hw st va \<noteq> TLB_NOT_FOUND \<and> j = tlb_probe hw st va"
    using assms tlb_device.probe_hit [OF assms(1), of "dev st" ?k]
      tlb_device.probe_miss [OF assms(1), of "dev st" ?k j]
    unfolding unique_match_def tlb_probe_def get_ssr_def by blast
  then show ?thesis
    using tlb_device.invalidate_no_match [OF assms] tlb_device.invalidate_entry [OF assms(1,3), of va]
    by (simp add: read_tlb_entry_def)
qed

text \<open>\<open>tlb_invalidate\<close> removes the translation of an address.  With at most one
  entry matching the address before, no entry matches it afterwards, every entry that
  did not match is unchanged, and an entry that did match keeps all bits but the valid bit.\<close>

lemma tlb_invalidate_correct:
  assumes "tlb_device hw ok" and "unique_match hw ok (dev st) (probe_key (ssr_reg st) va)"
    and "ok (dev st) j"
  shows "\<not> tlb_entry_matches (probe_key (ssr_reg st) va) (read_tlb_entry hw (tlb_invalidate hw st va) j)
    \<and> read_tlb_entry hw (tlb_invalidate hw st va) j =
       (if tlb_entry_matches (probe_key (ssr_reg st) va) (read_tlb_entry hw st j)
        then read_tlb_entry hw st j AND NOT (push_bit 63 1) else read_tlb_entry hw st j)"
  using assms by (rule tlb_invalidate_entry)

lemma index_range_check:
  "sint index < 1 \<or> index > tlb_fixed_entries st - 1 \<longleftrightarrow>
     sint index < 1 \<or> tlb_fixed_entries st \<noteq> 0 \<and> uint (tlb_fixed_entries st) \<le> sint index"
proof (cases "sint index < 1")
  case False
  then have "sint index = uint index" by (intro sint_eq_uint_if_nonneg) simp
  moreover have "index > tlb_fixed_entries st - 1 \<longleftrightarrow>
      tlb_fixed_entries st \<noteq> 0 \<and> uint (tlb_fixed_entries st) \<le> uint index"
  proof (cases "tlb_fixed_entries st = 0")
    case True
    then show ?thesis using word_n1_ge [of index] by (simp add: leD)
  next
    case False
    then have "0 < uint (tlb_fixed_entries st)" by (metis order_le_less uint_0_iff uint_ge_0)
    then show ?thesis using False by (auto simp: word_less_alt uint_sub_if')
  qed
  ultimately show ?thesis by simp
qed simp

text \<open>\<open>add_translation_extended\<close> accepts exactly the indices from 1 to one below the
  number of fixed entries, and refuses every other one with \<open>-1\<close> and no change of state;
  with no fixed entries at all the bound wraps and every positive index is accepted.\<close>

lemma add_translation_extended_error:
  "(add_translation_extended arch hw st index va pa sz xwru cccc asid aa vg = (st, -1)) =
     (sint index < 1 \<or> tlb_fixed_entries st \<noteq> 0 \<and> uint (tlb_fixed_entries st) \<le> sint index)
   \<and> (snd (add_translation_extended arch hw st index va pa sz xwru cccc asid aa vg) = 0) =
     (1 \<le> sint index \<and> (tlb_fixed_entries st = 0 \<or> sint index < uint (tlb_fixed_entries st)))"
proof -
  note index_range_check [of index st]
  then show ?thesis by (auto simp: add_translation_extended_def get_tlb_fixed_entries_def Let_def)
qed

text \<open>C1: \<open>add_translation_extended\<close> installs a translation.  For an accepted index, a
  page-aligned physical address and at most one previous entry for the address, it
  returns 0, a probe of the address then finds exactly the given index, the entry there
  carries the requested attributes and decodes to the requested virtual page, physical
  address and page size, and every entry that neither matched the address nor is the
  target is unchanged.\<close>

theorem add_translation_extended_installs:
  assumes hw: "tlb_device hw ok" and u: "unique_match hw ok (dev st) (probe_key (ssr_reg st) va)"
    and i: "ok (dev st) index" "1 \<le> sint index" "index \<le> tlb_fixed_entries st - 1"
    and pa: "unat pa < 2 ^ 36" "page_aligned s pa"
    and vg: "bit vg 1" "bit vg 0 \<or> take_bit 7 asid = take_bit 7 (drop_bit 8 (ssr_reg st))"
    and r: "add_translation_extended arch hw st index va pa (PageSize s) xwru cccc asid aa vg = (st', r)"
  shows "r = 0 \<and> tlb_probe hw st' va = index
    \<and> get_member (read_tlb_entry hw st' index) XWRU = take_bit 4 (ucast xwru)
    \<and> get_member (read_tlb_entry hw st' index) CacheAttr = take_bit 4 (ucast cccc)
    \<and> get_member (read_tlb_entry hw st' index) VirtualPage = ucast (drop_bit 12 va)
    \<and> hex_tlb_pgsize (read_tlb_entry hw st' index) = Ok (page_shift s)
    \<and> (page_shift s \<le> 6 \<longrightarrow> hex_tlb_phys_addr (read_tlb_entry hw st' index) = Ok pa)
    \<and> (\<forall>j. ok (dev st) j \<longrightarrow> j \<noteq> index \<longrightarrow>
         \<not> tlb_entry_matches (probe_key (ssr_reg st) va) (read_tlb_entry hw st j) \<longrightarrow>
         read_tlb_entry hw st' j = read_tlb_entry hw st j)"
proof -
  let ?e = "translation_entry arch va pa (PageSize s) xwru cccc asid aa vg"
  let ?k = "probe_key (ssr_reg st) va"
  have r0: "r = 0" and st': "st' = write_tlb_entry hw (tlb_invalidate hw st va) ?e index"
    using r i by (auto simp: add_translation_extended_def get_tlb_fixed_entries_def Let_def
        split: if_splits)
  have pa43: "unat pa < 2 ^ 43" using pa(1) by simp
  have "tlb_entry_matches ?k ?e" using pa43 vg by (rule translation_entry_matches)
  then have "tlb_probe hw st' va = index"
    using tlb_device.install_entry [OF hw u i(1)] by (simp add: tlb_probe_def get_ssr_def st' frame_simps)
  moreover have rd: "read_tlb_entry hw st' index = ?e"
    using tlb_device.write_read [OF hw, of "tlb_invalidate hw st va" index index] i(1)
    by (simp add: read_tlb_entry_def st' tlb_device.ok_invalidate [OF hw])
  moreover have "encodes_page ?e s pa" using pa43 by (rule translation_entry_encodes_page)
  moreover have "read_tlb_entry hw st' j = read_tlb_entry hw st j"
    if "ok (dev st) j" "j \<noteq> index" "\<not> tlb_entry_matches ?k (read_tlb_entry hw st j)" for j
    using tlb_invalidate_entry [OF hw u that(1)] that i(1)
      tlb_device.write_read [OF hw, of "tlb_invalidate hw st va" index j]
    by (simp add: read_tlb_entry_def st' tlb_device.ok_invalidate [OF hw])
  ultimately show ?thesis
    using r0 pa by (simp add: translation_entry_members translation_entry_vpn [OF pa43]
        encodes_page_pgsize encodes_page_phys_addr)
qed

theorem add_translation_extended_installs_witness:
  "tlb_probe arr_tlb (fst (add_translation_extended 68 arr_tlb
     \<lparr>dev = replicate 8 0, ssr_reg = 0, syscfg_TL = False, tlb_fixed_entries = 6, upte = \<lambda>_. 0\<rparr>
     1 0xd8200000 0xd8200000 (PageSize SHIFT_256K) 15 7 0 0 3)) 0xd8200000 = 1"
proof -
  let ?st = "\<lparr>dev = replicate 8 (0 :: u64), ssr_reg = 0, syscfg_TL = False, tlb_fixed_entries = 6, upte = \<lambda>_. 0\<rparr>"
  obtain st' r where r: "add_translation_extended 68 arr_tlb ?st 1 0xd8200000 0xd8200000
      (PageSize SHIFT_256K) 15 7 0 0 3 = (st', r)"
    by fastforce
  have "unique_match arr_tlb arr_ok (dev ?st) (probe_key (ssr_reg ?st) 0xd8200000)"
    by (auto simp: unique_match_def arr_ok_def arr_tlb_def tlb_entry_matches_def)
  moreover have "arr_ok (dev ?st) 1" "1 \<le> sint (1::u32)" "1 \<le> tlb_fixed_entries ?st - 1"
    "unat (0xd8200000 :: u64) < 2 ^ 36" "page_aligned SHIFT_256K 0xd8200000"
    "bit (3::u32) 1" "bit (3::u32) 0 \<or> take_bit 7 (0::u32) = take_bit 7 (drop_bit 8 (ssr_reg ?st))"
    by (simp_all add: arr_ok_def page_aligned_def)
  ultimately have "tlb_probe arr_tlb st' 0xd8200000 = 1"
    using add_translation_extended_installs [OF arr.tlb_device_axioms _ _ _ _ _ _ _ _ r] by blast
  then show ?thesis using r by simp
qed

text \<open>\<open>add_translation\<close> records the 1M page of the physical address and the
  cacheability bits for exactly the addresses of the same virtual megabyte; the lookup
  of every other address is unchanged, and every index stays inside the 4096-entry table.\<close>

lemma add_translation_lookup:
  "findPTEAddr va' < 4096
   \<and> get_pte_pa (findPTEValue (add_translation st va pa cccc) va') =
       (if drop_bit 20 va' = drop_bit 20 va then ucast (drop_bit 20 pa) else get_pte_pa (findPTEValue st va'))
   \<and> get_pte_cache (findPTEValue (add_translation st va pa cccc) va') =
       (if drop_bit 20 va' = drop_bit 20 va then ucast (cccc AND 0xf) else get_pte_cache (findPTEValue st va'))"
proof -
  have f15: "(0xf :: u16) = mask 4" "(0xf :: u32) = mask 4" by (simp_all add: mask_eq_exp_minus_1)
  define p where "p = set_pte_cache (set_pte_pa (upte st (findPTEAddr va)) (drop_bit 20 pa)) cccc"
  have pa20: "\<not> bit pa (20 + i)" if "12 \<le> i" for i using that bit_imp_le_length [of pa "20 + i"] by auto
  have "get_pte_pa p = ucast (drop_bit 20 pa)"
  proof (rule bit_word_eqI)
    fix n assume "n < LENGTH(16)"
    show "bit (get_pte_pa p) n = bit (ucast (drop_bit 20 pa) :: u16) n"
    proof (cases "n < 12")
      case True
      then show ?thesis
        by (simp add: p_def get_pte_pa_def set_pte_pa_def set_pte_cache_def bit_drop_bit_eq
            bit_fINSERT_BITS bit_ucast_iff)
    next
      case False
      then have "\<not> bit p (4 + n)" using bit_imp_le_length [of p "4 + n"] by auto
      then show ?thesis using False pa20 [of n] by (simp add: get_pte_pa_def bit_drop_bit_eq bit_ucast_iff)
    qed
  qed
  moreover have "get_pte_cache p = ucast (cccc AND 0xf)"
    unfolding get_pte_cache_def f15
    by (intro bit_word_eqI) (auto simp: p_def set_pte_cache_def bit_and_iff bit_fINSERT_BITS
        bit_ucast_iff bit_mask_iff)
  moreover have "unat (drop_bit 20 va') < 2 ^ 12"
    by (rule unat_less_exp_iff_bits) (auto simp: bit_drop_bit_eq dest: bit_imp_le_length)
  ultimately show ?thesis
    by (auto simp: findPTEValue_def add_translation_def findPTEAddr_def Let_def p_def word_unat_eq_iff)
qed

end
