(* ===== verification/Mmu.thy ===== *)
theory Mmu
  imports Tlb_Runtime
begin

text \<open>
  The MMU helpers of \<^verbatim>\<open>include/mmu.h\<close>: system register access, the exception
  vector that records the causes taken, the event handlers that repair a TLB
  fault, and the operations that add and remove a translation.  Moves from and
  to a system register are reads and writes of a field of the state.
\<close>

section \<open>State\<close>

record 'd mmu =
  rt :: "'d tlb_rt"
  evb :: u32
  badva :: u32
  elr :: u32
  stid :: u32
  old_evb :: u32
  my_exceptions :: "u64 \<times> u64"

definition tlb_entry_num :: "u32 \<Rightarrow> u32" where
  "tlb_entry_num va = drop_bit 20 va"

definition ONE_MB :: u32 where
  "ONE_MB = push_bit 20 1"

section \<open>System registers and TLB instructions\<close>

definition tlbr :: "'d tlb_ops \<Rightarrow> 'd mmu \<Rightarrow> u32 \<Rightarrow> u64" where
  "tlbr hw m i = op_tlbr hw (dev (rt m)) i"

definition tlbw :: "'d tlb_ops \<Rightarrow> 'd mmu \<Rightarrow> u64 \<Rightarrow> u32 \<Rightarrow> 'd mmu" where
  "tlbw hw m entry idx = m\<lparr>rt := (rt m)\<lparr>dev := op_tlbw hw (dev (rt m)) entry idx\<rparr>\<rparr>"

definition tlbp :: "'d tlb_ops \<Rightarrow> 'd mmu \<Rightarrow> u32 \<Rightarrow> u32 \<Rightarrow> u32" where
  "tlbp hw m asid VA =
     op_tlbp hw (dev (rt m)) (push_bit 20 (asid AND 0x7f) OR (drop_bit 12 VA AND 0xfffff))"

definition getssr :: "'d mmu \<Rightarrow> u32" where
  "getssr m = ssr_reg (rt m)"

definition setssr :: "'d mmu \<Rightarrow> u32 \<Rightarrow> 'd mmu" where
  "setssr m new_ssr = m\<lparr>rt := (rt m)\<lparr>ssr_reg := new_ssr\<rparr>\<rparr>"

definition set_asid :: "'d mmu \<Rightarrow> u32 \<Rightarrow> 'd mmu" where
  "set_asid m asid = setssr m (SET_FIELD (getssr m) SSR_ASID (ucast asid))"

definition enter_user_mode :: "'d mmu \<Rightarrow> 'd mmu" where
  "enter_user_mode m =
     (let r0 = getssr m;
          r0 = unset_bit 17 r0;
          r0 = set_bit 16 r0;
          r0 = unset_bit 19 r0
      in setssr m r0)"

definition enter_kernel_mode :: "'d mmu \<Rightarrow> 'd mmu" where
  "enter_kernel_mode m =
     (let r0 = getssr m;
          r0 = unset_bit 17 r0;
          r0 = unset_bit 16 r0;
          r0 = unset_bit 19 r0
      in setssr m r0)"

definition getevb :: "'d mmu \<Rightarrow> u32" where
  "getevb m = evb m"

definition setevb :: "'d mmu \<Rightarrow> u32 \<Rightarrow> 'd mmu" where
  "setevb m new_evb = m\<lparr>evb := new_evb\<rparr>"

definition getbadva :: "'d mmu \<Rightarrow> u32" where
  "getbadva m = badva m"

definition inc_elr :: "'d mmu \<Rightarrow> u32 \<Rightarrow> 'd mmu" where
  "inc_elr m inc = m\<lparr>elr := elr m + inc\<rparr>"

definition do_coredump :: "'d mmu \<Rightarrow> ('d mmu, 'd mmu) outcome" where
  "do_coredump m = Stop Coredumped (m\<lparr>stid := 2\<rparr>)"

definition install_my_event_vectors :: "u32 \<Rightarrow> 'd mmu \<Rightarrow> 'd mmu" where
  "install_my_event_vectors my_event_vectors m =
     (let m = m\<lparr>old_evb := getevb m\<rparr> in setevb m my_event_vectors)"

section \<open>The exception vector\<close>

definition clear_exception_vector :: "u64 \<times> u64 \<Rightarrow> u64 \<times> u64" where
  "clear_exception_vector excp = (0, 0)"

definition set_exception_vector_bit :: "u64 \<times> u64 \<Rightarrow> u32 \<Rightarrow> u64 \<times> u64" where
  "set_exception_vector_bit excp b =
     (if b < 64 then (fst excp OR push_bit (unat b) 1, snd excp)
      else if b < 128 then (fst excp, snd excp OR push_bit (unat (b - 64)) 1)
      else excp)"

text \<open>The numbers \<open>print_exception_vector\<close> prints, in its order.\<close>

definition print_exception_vector :: "u64 \<times> u64 \<Rightarrow> nat list" where
  "print_exception_vector excp =
     filter (\<lambda>i. fst excp AND push_bit i 1 \<noteq> 0) [0..<64] @
     map (\<lambda>i. i + 64) (filter (\<lambda>i. snd excp AND push_bit i 1 \<noteq> 0) [0..<64])"

definition record_exception :: "'d mmu \<Rightarrow> u32 \<Rightarrow> 'd mmu" where
  "record_exception m cause =
     m\<lparr>my_exceptions := set_exception_vector_bit (my_exceptions m) cause\<rparr>"

section \<open>Event handlers\<close>

definition HEX_CAUSE_FETCH_NO_XPAGE :: u32 where "HEX_CAUSE_FETCH_NO_XPAGE = 0x011"
definition HEX_CAUSE_FETCH_NO_UPAGE :: u32 where "HEX_CAUSE_FETCH_NO_UPAGE = 0x012"
definition HEX_CAUSE_PRIV_NO_READ :: u32 where "HEX_CAUSE_PRIV_NO_READ = 0x022"
definition HEX_CAUSE_PRIV_NO_WRITE :: u32 where "HEX_CAUSE_PRIV_NO_WRITE = 0x023"
definition HEX_CAUSE_PRIV_NO_UREAD :: u32 where "HEX_CAUSE_PRIV_NO_UREAD = 0x024"
definition HEX_CAUSE_PRIV_NO_UWRITE :: u32 where "HEX_CAUSE_PRIV_NO_UWRITE = 0x025"
definition HEX_CAUSE_IMPRECISE_MULTI_TLB_MATCH :: u32 where "HEX_CAUSE_IMPRECISE_MULTI_TLB_MATCH = 0x044"
definition HEX_CAUSE_TLBMISSX_NORMAL :: u32 where "HEX_CAUSE_TLBMISSX_NORMAL = 0x060"
definition HEX_CAUSE_TLBMISSRW_READ :: u32 where "HEX_CAUSE_TLBMISSRW_READ = 0x070"
definition HEX_CAUSE_TLBMISSRW_WRITE :: u32 where "HEX_CAUSE_TLBMISSRW_WRITE = 0x071"

lemmas cause_defs = HEX_CAUSE_FETCH_NO_XPAGE_def HEX_CAUSE_FETCH_NO_UPAGE_def
  HEX_CAUSE_PRIV_NO_READ_def HEX_CAUSE_PRIV_NO_WRITE_def HEX_CAUSE_PRIV_NO_UREAD_def
  HEX_CAUSE_PRIV_NO_UWRITE_def HEX_CAUSE_IMPRECISE_MULTI_TLB_MATCH_def
  HEX_CAUSE_TLBMISSX_NORMAL_def HEX_CAUSE_TLBMISSRW_READ_def HEX_CAUSE_TLBMISSRW_WRITE_def

definition my_event_handle_error_helper ::
  "'d tlb_ops \<Rightarrow> u32 \<Rightarrow> 'd mmu \<Rightarrow> ('d mmu, 'd mmu) outcome" where
  "my_event_handle_error_helper hw ssr m =
     (let cause = ucast (GET_FIELD ssr SSR_CAUSE) :: u32;
          bad = getbadva m;
          entry_num = tlb_entry_num bad;
          m = record_exception m cause
      in if cause = HEX_CAUSE_FETCH_NO_XPAGE then
           (let entry = tlbr hw m entry_num;
                entry = SET_FIELD entry PTE_X 1 in Ok (tlbw hw m entry entry_num))
         else if cause = HEX_CAUSE_FETCH_NO_UPAGE then
           (let entry = tlbr hw m entry_num;
                entry = SET_FIELD entry PTE_U 1 in Ok (tlbw hw m entry entry_num))
         else if cause = HEX_CAUSE_PRIV_NO_READ then
           (let entry = tlbr hw m entry_num;
                entry = SET_FIELD entry PTE_R 1 in Ok (tlbw hw m entry entry_num))
         else if cause = HEX_CAUSE_PRIV_NO_WRITE then
           (let entry = tlbr hw m entry_num;
                entry = SET_FIELD entry PTE_W 1 in Ok (tlbw hw m entry entry_num))
         else if cause = HEX_CAUSE_PRIV_NO_UREAD then
           (let entry = tlbr hw m entry_num;
                entry = SET_FIELD entry PTE_U 1 in Ok (tlbw hw m entry entry_num))
         else if cause = HEX_CAUSE_PRIV_NO_UWRITE then
           (let entry = tlbr hw m entry_num;
                entry = SET_FIELD entry PTE_U 1 in Ok (tlbw hw m entry entry_num))
         else do_coredump m)"

definition my_event_handle_nmi_helper :: "u32 \<Rightarrow> 'd mmu \<Rightarrow> ('d mmu, 'd mmu) outcome" where
  "my_event_handle_nmi_helper ssr m =
     (let cause = ucast (GET_FIELD ssr SSR_CAUSE) :: u32;
          m = record_exception m cause
      in if cause = HEX_CAUSE_IMPRECISE_MULTI_TLB_MATCH then Ok m else do_coredump m)"

definition my_event_handle_tlbmissrw_helper ::
  "'d tlb_ops \<Rightarrow> u32 \<Rightarrow> 'd mmu \<Rightarrow> ('d mmu, 'd mmu) outcome" where
  "my_event_handle_tlbmissrw_helper hw ssr m =
     (let cause = ucast (GET_FIELD ssr SSR_CAUSE) :: u32;
          bad = getbadva m;
          entry_num = tlb_entry_num bad;
          VA = page_start bad TARGET_PAGE_BITS;
          PA = VA - entry_num * ONE_MB;
          entry = create_mmu_entry 1 0 0 0 VA 0 0 0 1 0x3 (ucast PA) (PageSize SHIFT_4K);
          entry = (if entry_num = 2 then SET_FIELD entry PTE_R 1 else entry);
          entry = (if entry_num = 3 then SET_FIELD entry PTE_W 1 else entry);
          m = record_exception m cause
      in if cause = HEX_CAUSE_TLBMISSRW_READ then Ok (tlbw hw m entry entry_num)
         else if cause = HEX_CAUSE_TLBMISSRW_WRITE then Ok (tlbw hw m entry entry_num)
         else do_coredump m)"

definition my_event_handle_tlbmissx_helper ::
  "'d tlb_ops \<Rightarrow> u32 \<Rightarrow> 'd mmu \<Rightarrow> ('d mmu, 'd mmu) outcome" where
  "my_event_handle_tlbmissx_helper hw ssr m =
     (let cause = ucast (GET_FIELD ssr SSR_CAUSE) :: u32;
          bad = getbadva m;
          entry_num = tlb_entry_num bad;
          VA = page_start bad TARGET_PAGE_BITS;
          PA = VA - entry_num * ONE_MB;
          entry = create_mmu_entry 1 0 0 0 VA 0 0 0 1 0x3 (ucast PA) (PageSize SHIFT_4K);
          m = record_exception m cause
      in if cause = HEX_CAUSE_TLBMISSX_NORMAL then Ok (tlbw hw m entry entry_num)
         else do_coredump m)"

section \<open>Adding and removing translations\<close>

definition remove_trans :: "'d tlb_ops \<Rightarrow> 'd mmu \<Rightarrow> u32 \<Rightarrow> 'd mmu" where
  "remove_trans hw m index =
     (let entry = tlbr hw m index;
          entry = SET_FIELD entry PTE_V 0
      in tlbw hw m entry index)"

definition clear_overlapping_entry :: "'d tlb_ops \<Rightarrow> 'd mmu \<Rightarrow> u32 \<Rightarrow> u32 \<Rightarrow> 'd mmu" where
  "clear_overlapping_entry hw m asid va =
     (let index = tlbp hw m asid va
      in if index \<noteq> TLB_NOT_FOUND then remove_trans hw m index else m)"

definition add_trans ::
  "nat \<Rightarrow> 'd tlb_ops \<Rightarrow> 'd mmu \<Rightarrow> u32 \<Rightarrow> u32 \<Rightarrow> u64 \<Rightarrow> u32 \<Rightarrow> u8 \<Rightarrow> u32 \<Rightarrow> u8 \<Rightarrow> u8
   \<Rightarrow> ('d mmu, 'd mmu) outcome" where
  "add_trans arch hw m index va pa page_size xwru asid V G =
     (let m = (if V \<noteq> 0 then clear_overlapping_entry hw m asid va else m);
          (st, r) = add_translation_extended arch hw (rt m) index va pa page_size (ucast xwru) 0 asid 0
                      (push_bit 1 (ucast V AND 1) OR (ucast G AND 1));
          m = m\<lparr>rt := st\<rparr>
      in if r = 0 then Ok m else Stop Assert_failed m)"

section \<open>The exception vector as a set\<close>

definition excp_set :: "u64 \<times> u64 \<Rightarrow> nat set" where
  "excp_set v = {i. i < 64 \<and> bit (fst v) i} \<union> {i. 64 \<le> i \<and> bit (snd v) (i - 64)}"

lemma bit_or_exp_iff:
  "bit (x OR 2 ^ n :: 'a::len word) i \<longleftrightarrow> bit x i \<or> i = n \<and> n < LENGTH('a)"
  by (auto simp: bit_or_iff bit_exp_iff)

lemma and_push_bit_1_neq_0: "(x AND push_bit i 1 :: 'a::len word) \<noteq> 0 \<longleftrightarrow> bit x i"
  by (simp add: and_exp_eq_0_iff_not_bit)

lemma excp_set_insert:
  "excp_set (set_exception_vector_bit v b) =
     (if unat b < 128 then insert (unat b) (excp_set v) else excp_set v)"
proof -
  have b64: "b < 64 \<longleftrightarrow> unat b < 64" and b128: "b < 128 \<longleftrightarrow> unat b < 128"
    by (simp_all add: word_less_nat_alt)
  have sub: "unat (b - 64) = unat b - 64" if "\<not> b < 64"
    using that by (simp add: unat_sub word_le_nat_alt not_less)
  show ?thesis
    unfolding excp_set_def set_exception_vector_bit_def
    using b64 b128 sub by (auto simp: bit_or_exp_iff)
qed

lemma set_print_exception_vector: "set (print_exception_vector v) = excp_set v"
proof -
  have "set (print_exception_vector v) =
      {i. i < 64 \<and> bit (fst v) i} \<union> (\<lambda>i. i + 64) ` {i. i < 64 \<and> bit (snd v) i}"
    by (simp only: print_exception_vector_def and_push_bit_1_neq_0 set_append set_map set_filter)
       (simp add: set_eq_iff)
  also have "(\<lambda>i. i + 64) ` {i. i < 64 \<and> bit (snd v) i} = {i. 64 \<le> i \<and> bit (snd v) (i - 64)}"
  proof (intro set_eqI iffI)
    fix i assume "i \<in> {i. 64 \<le> i \<and> bit (snd v) (i - 64)}"
    then have "i = (i - 64) + 64" "i - 64 < 64" "bit (snd v) (i - 64)"
      using bit_imp_le_length [of "snd v" "i - 64"] by auto
    then show "i \<in> (\<lambda>i. i + 64) ` {i. i < 64 \<and> bit (snd v) i}" by blast
  qed auto
  finally show ?thesis by (simp add: excp_set_def)
qed

section \<open>The handlers' access to the TLB\<close>

context tlb_device
begin

lemma tlbr_tlbw:
  assumes "ok (dev (rt m)) i" and "ok (dev (rt m)) j"
  shows "tlbr hw (tlbw hw m e i) j = (if i = j then e else tlbr hw m j)"
  using assms by (simp add: tlbr_def tlbw_def rd_wr_same rd_wr_other)

lemma ok_tlbw: "ok (dev (rt (tlbw hw m e i))) j = ok (dev (rt m)) j"
  by (simp add: tlbw_def ok_wr)

end

lemma tlbr_record [frame_simps]:
  "tlbr hw (record_exception m c) i = tlbr hw m i"
  "rt (record_exception m c) = rt m"
  by (simp_all add: tlbr_def record_exception_def)

lemma my_exceptions_tlbw [frame_simps]:
  "my_exceptions (tlbw hw m e i) = my_exceptions m"
  by (simp add: tlbw_def)

lemma excp_set_record:
  assumes "unat c < 128"
  shows "excp_set (my_exceptions (record_exception m c)) = insert (unat c) (excp_set (my_exceptions m))"
  using assms by (simp add: record_exception_def excp_set_insert)

text \<open>The permission a fault cause asks for, from the comments and cause names of the header.\<close>

definition perm_field :: "u32 \<Rightarrow> reg_fields_enum option" where
  "perm_field cause =
     (if cause = 0x11 then Some PTE_X
      else if cause = 0x12 \<or> cause = 0x24 \<or> cause = 0x25 then Some PTE_U
      else if cause = 0x22 then Some PTE_R
      else if cause = 0x23 then Some PTE_W else None)"

lemma perm_field_SomeD:
  assumes "perm_field c = Some f"
  shows "unat c < 128" and "f \<in> set pte_fields" and "width (reg_field_info f) = 1"
  using assms by (auto simp: perm_field_def pte_fields_def split: if_splits)

lemma error_helper_cases:
  "my_event_handle_error_helper hw ssr m =
     (let cause = ucast (GET_FIELD ssr SSR_CAUSE) :: u32; m' = record_exception m cause;
          n = tlb_entry_num (badva m)
      in case perm_field cause of
           Some f \<Rightarrow> Ok (tlbw hw m' (SET_FIELD (tlbr hw m' n) f 1) n)
         | None \<Rightarrow> do_coredump m')"
  unfolding my_event_handle_error_helper_def Let_def getbadva_def cause_defs perm_field_def
  by simp

section \<open>The entry made for a TLB miss\<close>

lemma bit_SET_FIELD_outside:
  assumes "\<not> (offset (reg_field_info f) \<le> i \<and> i < offset (reg_field_info f) + width (reg_field_info f))"
  shows "bit (SET_FIELD (e::u64) f v) i = bit e i"
  using assms by (cases "i < 64") (auto simp: SET_FIELD_def bit_fINSERT_BITS dest: bit_imp_le_length)

lemma encodes_page_SET_FIELD:
  assumes "f \<in> {PTE_R, PTE_W}"
  shows "encodes_page (SET_FIELD e f v) s pa = encodes_page e s pa"
proof -
  have "bit (SET_FIELD e f v) i = bit e i" if "i < 24 \<or> i = 61" for i
    using assms that by (intro bit_SET_FIELD_outside) auto
  then show ?thesis by (simp add: encodes_page_def)
qed

text \<open>\<open>VA - entry_num * ONE_MB\<close> is the page's offset in the first megabyte.\<close>

lemma miss_PA:
  "page_start bad 12 - tlb_entry_num bad * ONE_MB = take_bit 20 (page_start bad 12)"
proof -
  have "tlb_entry_num bad * ONE_MB = push_bit 20 (drop_bit 20 bad)"
    by (simp add: tlb_entry_num_def ONE_MB_def push_bit_eq_mult)
  also have "drop_bit 20 bad = drop_bit 20 (page_start bad 12)"
    by (rule bit_word_eqI) (simp add: bit_drop_bit_eq bit_page_start)
  finally show ?thesis using bits_ident [of 20 "page_start bad 12"] by (simp add: algebra_simps)
qed

lemma miss_PA_aligned: "page_aligned SHIFT_4K (ucast (take_bit 20 (page_start bad 12)))"
  unfolding page_aligned_def
  by (rule bit_word_eqI) (simp add: bit_take_bit_iff bit_ucast_iff bit_page_start)

lemma miss_PA_small: "unat (ucast (take_bit 20 (page_start bad 12)) :: u64) < 2 ^ 35"
  by (rule unat_less_exp_iff_bits) (simp add: bit_ucast_iff bit_take_bit_iff)

definition miss_entry :: "u32 \<Rightarrow> bool \<Rightarrow> bool \<Rightarrow> u64" where
  "miss_entry bad r w =
     (let e = create_mmu_entry 1 0 0 0 (page_start bad 12) 0 0 0 1 3
                (ucast (take_bit 20 (page_start bad 12))) (PageSize SHIFT_4K);
          e = (if r then SET_FIELD e PTE_R 1 else e)
      in if w then SET_FIELD e PTE_W 1 else e)"

lemma miss_entry_field:
  assumes "f \<in> set pte_fields" and "f \<noteq> PTE_PPD"
  shows "GET_FIELD (miss_entry bad r w) f =
    (if f = PTE_R \<and> r \<or> f = PTE_W \<and> w then 1
     else GET_FIELD (create_mmu_entry 1 0 0 0 (page_start bad 12) 0 0 0 1 3
            (ucast (take_bit 20 (page_start bad 12))) (PageSize SHIFT_4K)) f)"
proof -
  have "fields_apart PTE_R f" if "f \<noteq> PTE_R" using assms(1) that pte_fields_apart
    by (auto simp: pairwise_def pte_fields_def)
  moreover have "fields_apart PTE_W f" if "f \<noteq> PTE_W" using assms(1) that pte_fields_apart
    by (auto simp: pairwise_def pte_fields_def)
  ultimately show ?thesis
    by (cases "f = PTE_R"; cases "f = PTE_W")
       (simp_all add: miss_entry_def Let_def pte.get_put_same pte.get_put_apart)
qed

lemma miss_entry_fields:
  "GET_FIELD (miss_entry bad r w) PTE_V = 1" "GET_FIELD (miss_entry bad r w) PTE_G = 1"
  "GET_FIELD (miss_entry bad r w) PTE_U = 1" "GET_FIELD (miss_entry bad r w) PTE_X = 0"
  "GET_FIELD (miss_entry bad r w) PTE_R = of_bool r" "GET_FIELD (miss_entry bad r w) PTE_W = of_bool w"
  "GET_FIELD (miss_entry bad r w) PTE_VPN = ucast (drop_bit 12 bad)"
proof -
  note field = create_mmu_entry_field [where G = 1 and ?a0.0 = 0 and ?a1.0 = 0 and asid = 0
    and VA = "page_start bad 12" and X = 0 and W = 0 and R = 0 and U = 1 and C = 3
    and PA = "ucast (take_bit 20 (page_start bad 12))" and s = SHIFT_4K]
  note args = mmu_entry_fields_def miss_entry_field pte_fields_def TARGET_PAGE_BITS_def
  show "GET_FIELD (miss_entry bad r w) PTE_V = 1" using field [of PTE_V 1] by (simp add: args)
  show "GET_FIELD (miss_entry bad r w) PTE_G = 1" using field [of PTE_G 1] by (simp add: args)
  show "GET_FIELD (miss_entry bad r w) PTE_U = 1" using field [of PTE_U 1] by (simp add: args)
  show "GET_FIELD (miss_entry bad r w) PTE_X = 0" using field [of PTE_X 0] by (simp add: args)
  show "GET_FIELD (miss_entry bad r w) PTE_R = of_bool r" using field [of PTE_R 0] by (simp add: args)
  show "GET_FIELD (miss_entry bad r w) PTE_W = of_bool w" using field [of PTE_W 0] by (simp add: args)
  have "take_bit 20 (ucast (drop_bit 12 (page_start bad 12)) :: u64) = ucast (drop_bit 12 bad)"
  proof (rule bit_word_eqI)
    fix i assume "i < LENGTH(64)"
    moreover have "bit bad (12 + i) \<Longrightarrow> i < 20" using bit_imp_le_length [of bad "12 + i"] by simp
    ultimately show "bit (take_bit 20 (ucast (drop_bit 12 (page_start bad 12))) :: u64) i =
        bit (ucast (drop_bit 12 bad) :: u64) i"
      by (auto simp: bit_take_bit_iff bit_ucast_iff bit_drop_bit_eq bit_page_start)
  qed
  then show "GET_FIELD (miss_entry bad r w) PTE_VPN = ucast (drop_bit 12 bad)"
    using field [of PTE_VPN "ucast (drop_bit TARGET_PAGE_BITS (page_start bad 12))"] by (simp add: args)
qed

lemma miss_entry_encodes_page:
  "encodes_page (miss_entry bad r w) SHIFT_4K (ucast (take_bit 20 (page_start bad 12)))"
proof -
  let ?PA = "ucast (take_bit 20 (page_start bad 12)) :: u64"
  have "take_bit 35 ?PA = ?PA" using miss_PA_small by (rule take_bit_eq_self_unat)
  moreover have "unat ?PA < 2 ^ 47" using miss_PA_small [of bad] by simp
  ultimately show ?thesis
    using create_mmu_entry_encodes_page [OF _ miss_PA_aligned, of bad]
    by (simp add: miss_entry_def Let_def encodes_page_SET_FIELD)
qed

lemma miss_entry_phys_addr:
  "hex_tlb_phys_addr (miss_entry bad r w) = Ok (ucast (take_bit 20 (page_start bad 12)))"
  using miss_PA_small [of bad]
  by (intro encodes_page_phys_addr [OF miss_entry_encodes_page miss_PA_aligned]) simp_all

lemma miss_entry_matches: "tlb_entry_matches (probe_key s bad) (miss_entry bad r w)"
proof -
  have "bit (GET_FIELD (miss_entry bad r w) PTE_V) 0" "bit (GET_FIELD (miss_entry bad r w) PTE_G) 0"
    by (simp_all add: miss_entry_fields)
  then have "bit (miss_entry bad r w) 63" "bit (miss_entry bad r w) 62"
    unfolding GET_FIELD_def by (simp_all add: bit_fEXTRACTU_BITS)
  moreover have "get_member (miss_entry bad r w) VirtualPage = ucast (drop_bit 12 bad)"
    using miss_entry_fields(7) [of bad r w] by (simp add: get_member_def GET_FIELD_def)
  ultimately show ?thesis by (simp add: tlb_entry_matches_def probe_key_fields)
qed

lemma error_helper_repairs_core:
  assumes hw: "tlb_device hw ok" and n: "n = tlb_entry_num (badva m)" "ok (dev (rt m)) n"
    and c: "c = ucast (GET_FIELD ssr SSR_CAUSE)" "perm_field c = Some f"
  shows "\<exists>m'. my_event_handle_error_helper hw ssr m = Ok m'
    \<and> GET_FIELD (tlbr hw m' n) f = 1
    \<and> (\<forall>g \<in> set pte_fields. g \<noteq> f \<longrightarrow> GET_FIELD (tlbr hw m' n) g = GET_FIELD (tlbr hw m n) g)
    \<and> (\<forall>j. ok (dev (rt m)) j \<longrightarrow> j \<noteq> n \<longrightarrow> tlbr hw m' j = tlbr hw m j)
    \<and> excp_set (my_exceptions m') = insert (unat c) (excp_set (my_exceptions m))"
proof -
  define m' where "m' = tlbw hw (record_exception m c) (SET_FIELD (tlbr hw m n) f 1) n"
  have "my_event_handle_error_helper hw ssr m = Ok m'"
    using c n by (simp add: error_helper_cases Let_def m'_def frame_simps)
  moreover have rd: "tlbr hw m' j = (if n = j then SET_FIELD (tlbr hw m n) f 1 else tlbr hw m j)"
    if "ok (dev (rt m)) j" for j
    using tlb_device.tlbr_tlbw [OF hw, of "record_exception m c" n j] n(2) that
    by (simp add: m'_def frame_simps)
  moreover have "GET_FIELD (SET_FIELD (tlbr hw m n) f 1) f = 1"
    using perm_field_SomeD [OF c(2)] by (simp add: pte.get_put_same)
  moreover have "GET_FIELD (SET_FIELD (tlbr hw m n) f 1) g = GET_FIELD (tlbr hw m n) g"
    if "g \<in> set pte_fields" "g \<noteq> f" for g
    using pte_fields_apart that perm_field_SomeD(2) [OF c(2)]
    by (intro pte.get_put_apart) (auto simp: pairwise_def)
  moreover have "excp_set (my_exceptions m') = insert (unat c) (excp_set (my_exceptions m))"
    using perm_field_SomeD(1) [OF c(2)] by (simp add: m'_def frame_simps excp_set_record)
  ultimately show ?thesis using n(2) by auto
qed

text \<open>A sample state for concrete instances: eight empty entries.\<close>

definition sample_mmu :: "u32 \<Rightarrow> u64 list mmu" where
  "sample_mmu bad = \<lparr>rt = \<lparr>dev = replicate 8 0, ssr_reg = 0, syscfg_TL = False,
     tlb_fixed_entries = 6, upte = \<lambda>_. 0\<rparr>, evb = 0, badva = bad, elr = 0, stid = 0,
     old_evb = 0, my_exceptions = (0, 0)\<rparr>"

section \<open>Properties of the handlers\<close>

text \<open>The exception vector is a set of cause numbers below 128.  Setting a bit inserts
  the number (a larger number changes nothing), clearing gives the empty set, and
  \<open>print_exception_vector\<close> lists exactly the members, in increasing order.\<close>

lemma exception_vector_refines_set:
  "excp_set (clear_exception_vector v) = {}
   \<and> excp_set (set_exception_vector_bit v b) =
      (if unat b < 128 then insert (unat b) (excp_set v) else excp_set v)
   \<and> set (print_exception_vector v) = excp_set v
   \<and> sorted (print_exception_vector v) \<and> distinct (print_exception_vector v)"
proof -
  have "excp_set (clear_exception_vector v) = {}"
    by (simp add: excp_set_def clear_exception_vector_def)
  moreover have "sorted (print_exception_vector v)"
    by (auto simp: print_exception_vector_def sorted_append sorted_map intro!: sorted_wrt_filter)
  moreover have "distinct (print_exception_vector v)"
    by (auto simp: print_exception_vector_def distinct_map inj_on_def)
  ultimately show ?thesis by (simp add: excp_set_insert set_print_exception_vector)
qed

text \<open>C13: a permission fault is repaired.  For each of the six permission causes the error
  handler sets exactly the missing permission bit of the faulting megabyte's entry, keeps
  every other field of it and every other entry, and records the cause.\<close>

theorem error_helper_repairs:
  assumes hw: "tlb_device hw ok" and n: "n = tlb_entry_num (badva m)" "ok (dev (rt m)) n"
    and c: "c = ucast (GET_FIELD ssr SSR_CAUSE)" "perm_field c = Some f"
  shows "\<exists>m'. my_event_handle_error_helper hw ssr m = Ok m'
    \<and> GET_FIELD (tlbr hw m' n) f = 1
    \<and> (\<forall>g \<in> set pte_fields. g \<noteq> f \<longrightarrow> GET_FIELD (tlbr hw m' n) g = GET_FIELD (tlbr hw m n) g)
    \<and> (\<forall>j. ok (dev (rt m)) j \<longrightarrow> j \<noteq> n \<longrightarrow> tlbr hw m' j = tlbr hw m j)
    \<and> excp_set (my_exceptions m') = insert (unat c) (excp_set (my_exceptions m))"
  using assms by (rule error_helper_repairs_core)

theorem error_helper_repairs_witness:
  "\<exists>m'. my_event_handle_error_helper arr_tlb 0x22 (sample_mmu 0x00234567) = Ok m'
     \<and> GET_FIELD (tlbr arr_tlb m' 2) PTE_R = 1"
proof -
  have "2 = tlb_entry_num (badva (sample_mmu 0x00234567))" "arr_ok (dev (rt (sample_mmu 0x00234567))) 2"
    by (simp_all add: sample_mmu_def tlb_entry_num_def arr_ok_def)
  moreover have "(0x22 :: u32) = ucast (GET_FIELD (0x22 :: u32) SSR_CAUSE)" "perm_field 0x22 = Some PTE_R"
    by (simp_all add: GET_FIELD_def fEXTRACTU_BITS_def fZXTN_def perm_field_def)
  ultimately show ?thesis
    using error_helper_repairs [OF arr.tlb_device_axioms] by blast
qed

text \<open>C30: the handlers do not return from a cause they do not know: the error handler, the
  NMI handler and the two TLB-miss handlers reach the core dump, with the cause recorded
  and thread id 2 in \<open>stid\<close>, for every cause outside their own lists.\<close>

theorem handlers_unknown_cause:
  assumes "c = ucast (GET_FIELD ssr SSR_CAUSE)"
  shows "(perm_field c = None \<longrightarrow> my_event_handle_error_helper hw ssr m =
            Stop Coredumped ((record_exception m c)\<lparr>stid := 2\<rparr>))
    \<and> (c \<noteq> 0x44 \<longrightarrow> my_event_handle_nmi_helper ssr m =
            Stop Coredumped ((record_exception m c)\<lparr>stid := 2\<rparr>))
    \<and> (c \<noteq> 0x70 \<and> c \<noteq> 0x71 \<longrightarrow> my_event_handle_tlbmissrw_helper hw ssr m =
            Stop Coredumped ((record_exception m c)\<lparr>stid := 2\<rparr>))
    \<and> (c \<noteq> 0x60 \<longrightarrow> my_event_handle_tlbmissx_helper hw ssr m =
            Stop Coredumped ((record_exception m c)\<lparr>stid := 2\<rparr>))"
  unfolding error_helper_cases
  by (simp add: assms Let_def do_coredump_def my_event_handle_nmi_helper_def
      my_event_handle_tlbmissrw_helper_def my_event_handle_tlbmissx_helper_def cause_defs)

theorem handlers_unknown_cause_witness:
  "my_event_handle_tlbmissx_helper arr_tlb 0x61 (sample_mmu 0) =
     Stop Coredumped ((record_exception (sample_mmu 0) 0x61)\<lparr>stid := 2\<rparr>)"
proof -
  have "(0x61 :: u32) = ucast (GET_FIELD (0x61 :: u32) SSR_CAUSE)"
    by (simp add: GET_FIELD_def fEXTRACTU_BITS_def fZXTN_def)
  from handlers_unknown_cause [OF this, of arr_tlb "sample_mmu 0"] show ?thesis by simp
qed

text \<open>C12: a data TLB miss is repaired.  The handler writes, at the index of the faulting
  megabyte, a valid global user entry that matches every later access to the faulting
  page, maps it to the same page offset in the first megabyte, is readable exactly for
  index 2 and writable exactly for index 3, and it changes no other entry.\<close>

theorem tlbmissrw_helper_maps:
  assumes hw: "tlb_device hw ok" and n: "n = tlb_entry_num (badva m)" "ok (dev (rt m)) n"
    and c: "c = (ucast (GET_FIELD ssr SSR_CAUSE) :: u32)" "c = 0x70 \<or> c = 0x71"
  shows "\<exists>m' e. my_event_handle_tlbmissrw_helper hw ssr m = Ok m' \<and> tlbr hw m' n = e
    \<and> tlb_entry_matches (probe_key s (badva m)) e
    \<and> hex_tlb_phys_addr e = Ok (ucast (take_bit 20 (page_start (badva m) 12)))
    \<and> GET_FIELD e PTE_R = of_bool (n = 2) \<and> GET_FIELD e PTE_W = of_bool (n = 3)
    \<and> GET_FIELD e PTE_X = 0 \<and> GET_FIELD e PTE_U = 1
    \<and> (\<forall>j. ok (dev (rt m)) j \<longrightarrow> j \<noteq> n \<longrightarrow> tlbr hw m' j = tlbr hw m j)
    \<and> excp_set (my_exceptions m') = insert (unat c) (excp_set (my_exceptions m))"
proof -
  define e where "e = miss_entry (badva m) (n = 2) (n = 3)"
  define m' where "m' = tlbw hw (record_exception m c) e n"
  have "my_event_handle_tlbmissrw_helper hw ssr m = Ok m'"
    unfolding my_event_handle_tlbmissrw_helper_def Let_def getbadva_def TARGET_PAGE_BITS_def miss_PA
    using c by (auto simp: cause_defs m'_def e_def miss_entry_def Let_def n(1))
  moreover have "tlbr hw m' j = (if n = j then e else tlbr hw m j)" if "ok (dev (rt m)) j" for j
    using tlb_device.tlbr_tlbw [OF hw, of "record_exception m c" n j] n(2) that
    by (simp add: m'_def frame_simps)
  moreover have "excp_set (my_exceptions m') = insert (unat c) (excp_set (my_exceptions m))"
    using c(2) by (auto simp: m'_def frame_simps excp_set_record)
  ultimately show ?thesis using n(2)
    by (auto simp: e_def miss_entry_matches miss_entry_phys_addr miss_entry_fields)
qed

theorem tlbmissrw_helper_maps_witness:
  "\<exists>m' e. my_event_handle_tlbmissrw_helper arr_tlb 0x70 (sample_mmu 0x00234567) = Ok m'
     \<and> tlbr arr_tlb m' 2 = e \<and> hex_tlb_phys_addr e = Ok 0x34000 \<and> GET_FIELD e PTE_R = 1"
proof -
  have "2 = tlb_entry_num (badva (sample_mmu 0x00234567))" "arr_ok (dev (rt (sample_mmu 0x00234567))) 2"
    by (simp_all add: sample_mmu_def tlb_entry_num_def arr_ok_def)
  moreover have "(0x70 :: u32) = ucast (GET_FIELD (0x70 :: u32) SSR_CAUSE)" "(0x70 :: u32) = 0x70 \<or> (0x70 :: u32) = 0x71"
    by (simp_all add: GET_FIELD_def fEXTRACTU_BITS_def fZXTN_def)
  moreover have "ucast (take_bit 20 (page_start (badva (sample_mmu 0x00234567)) 12)) = (0x34000 :: u64)"
    by (simp add: sample_mmu_def page_start_def)
  ultimately show ?thesis
    using tlbmissrw_helper_maps [OF arr.tlb_device_axioms, of 2 "sample_mmu 0x00234567" "0x70" "0x70" 0]
    by auto
qed

text \<open>An instruction TLB miss is repaired the same way, with an entry that grants no
  read, write or execute permission yet: the retried fetch raises the permission fault
  that the error handler repairs.\<close>

lemma tlbmissx_then_error_repairs:
  assumes hw: "tlb_device hw ok" and n: "n = tlb_entry_num (badva m)" "ok (dev (rt m)) n"
    and c: "ucast (GET_FIELD ssr SSR_CAUSE) = (0x60 :: u32)" "ucast (GET_FIELD ssr' SSR_CAUSE) = (0x11 :: u32)"
  shows "\<exists>m' m''. my_event_handle_tlbmissx_helper hw ssr m = Ok m'
    \<and> tlb_entry_matches (probe_key s (badva m)) (tlbr hw m' n)
    \<and> GET_FIELD (tlbr hw m' n) PTE_X = 0
    \<and> my_event_handle_error_helper hw ssr' m' = Ok m''
    \<and> GET_FIELD (tlbr hw m'' n) PTE_X = 1 \<and> GET_FIELD (tlbr hw m'' n) PTE_U = 1
    \<and> GET_FIELD (tlbr hw m'' n) PTE_VPN = ucast (drop_bit 12 (badva m))
    \<and> excp_set (my_exceptions m'') = {0x60, 0x11} \<union> excp_set (my_exceptions m)"
proof -
  define e where "e = miss_entry (badva m) False False"
  define m' where "m' = tlbw hw (record_exception m 0x60) e n"
  have h: "my_event_handle_tlbmissx_helper hw ssr m = Ok m'"
    using c by (auto simp: my_event_handle_tlbmissx_helper_def Let_def getbadva_def cause_defs
        TARGET_PAGE_BITS_def miss_PA m'_def e_def miss_entry_def n(1))
  have rd: "tlbr hw m' n = e"
    using tlb_device.tlbr_tlbw [OF hw, of "record_exception m 0x60" n n] n(2)
    by (simp add: m'_def frame_simps)
  have x: "excp_set (my_exceptions m') = insert 0x60 (excp_set (my_exceptions m))"
    by (simp add: m'_def frame_simps excp_set_record)
  have "n = tlb_entry_num (badva m')" "ok (dev (rt m')) n" "perm_field 0x11 = Some PTE_X"
    using n by (simp_all add: m'_def tlb_device.ok_tlbw [OF hw] frame_simps perm_field_def)
       (simp add: tlbw_def record_exception_def)
  from error_helper_repairs_core [OF hw this(1,2) c(2) [symmetric] this(3)] obtain m''
    where "my_event_handle_error_helper hw ssr' m' = Ok m''" "GET_FIELD (tlbr hw m'' n) PTE_X = 1"
      "\<forall>g \<in> set pte_fields. g \<noteq> PTE_X \<longrightarrow> GET_FIELD (tlbr hw m'' n) g = GET_FIELD (tlbr hw m' n) g"
      "excp_set (my_exceptions m'') = insert (unat (0x11 :: u32)) (excp_set (my_exceptions m'))"
    by blast
  with h rd x show ?thesis
    by (auto simp: e_def miss_entry_matches miss_entry_fields pte_fields_def)
qed

section \<open>Address spaces\<close>

definition mmu_key :: "u32 \<Rightarrow> u32 \<Rightarrow> u32" where
  "mmu_key asid VA = push_bit 20 (asid AND 0x7f) OR (drop_bit 12 VA AND 0xfffff)"

lemma bit_mmu_key:
  "bit (mmu_key asid VA) i \<longleftrightarrow> (i < 20 \<and> bit VA (12 + i)) \<or> (20 \<le> i \<and> i < 27 \<and> bit asid (i - 20))"
proof -
  have ones: "(0x7f :: u32) = mask 7" "(0xfffff :: u32) = mask 20"
    by (simp_all add: mask_eq_exp_minus_1)
  show ?thesis unfolding mmu_key_def ones bit_or_iff bit_push_bit_iff bit_and_iff bit_drop_bit_eq
    by (auto simp: bit_mask_iff)
qed

lemma bit_probe_key:
  "bit (probe_key ssr va) i \<longleftrightarrow> (i < 20 \<and> bit va (12 + i)) \<or> (20 \<le> i \<and> i < 27 \<and> bit ssr (i - 12))"
proof -
  have ones: "(0x7f :: u32) = mask 7" "(0x7ffffff :: u32) = mask 27"
    by (simp_all add: mask_eq_exp_minus_1)
  have va: "bit va (12 + i) \<Longrightarrow> i < 20" using bit_imp_le_length [of va "12 + i"] by simp
  show ?thesis
    using va unfolding probe_key_def Let_def ones bit_or_iff bit_push_bit_iff bit_and_iff bit_drop_bit_eq
    by (auto simp: bit_mask_iff)
qed

lemma mmu_key_eq_probe_key: "mmu_key asid VA = probe_key (push_bit 8 asid) VA"
  by (rule bit_word_eqI) (auto simp: bit_mmu_key bit_probe_key bit_push_bit_iff)

lemma probe_key_set_asid: "probe_key (SET_FIELD ssr SSR_ASID (ucast asid)) va = mmu_key asid va"
  by (rule bit_word_eqI)
     (auto simp: bit_mmu_key bit_probe_key SET_FIELD_def bit_fINSERT_BITS bit_ucast_iff)

text \<open>\<open>set_asid\<close> selects the address space of later translations: the runtime's probe
  under the new status register finds what a \<open>tlbp\<close> with that address space finds, and
  no other bit of the status register changes.\<close>

lemma set_asid_selects:
  "tlb_probe hw (rt (set_asid m asid)) va = tlbp hw m asid va
   \<and> GET_FIELD (getssr (set_asid m asid)) SSR_ASID = take_bit 7 (ucast asid)
   \<and> (\<forall>i. bit (getssr (set_asid m asid)) i = (if 8 \<le> i \<and> i < 15 then bit asid (i - 8) else bit (getssr m) i))"
proof (intro conjI allI)
  have ssr: "getssr (set_asid m asid) = SET_FIELD (getssr m) SSR_ASID (ucast asid)"
    by (simp add: set_asid_def getssr_def setssr_def)
  show "tlb_probe hw (rt (set_asid m asid)) va = tlbp hw m asid va"
    by (simp add: tlb_probe_def get_ssr_def tlbp_def set_asid_def setssr_def getssr_def
        probe_key_set_asid mmu_key_def)
  show "GET_FIELD (getssr (set_asid m asid)) SSR_ASID = take_bit 7 (ucast asid)"
    unfolding ssr using ssr.get_put_same [of SSR_ASID] by (simp add: fits_width_def)
  fix i
  show "bit (getssr (set_asid m asid)) i = (if 8 \<le> i \<and> i < 15 then bit asid (i - 8) else bit (getssr m) i)"
    unfolding ssr
    by (cases "i < 32") (auto simp: SET_FIELD_def bit_fINSERT_BITS bit_ucast_iff dest: bit_imp_le_length)
qed

text \<open>Entering user mode sets the user bit and entering kernel mode clears it; both
  clear the exception and guest bits and keep every other bit of the status register.\<close>

lemma mode_switch_bits:
  "bit (getssr (enter_user_mode m)) i = (if i \<in> {17, 19} then False else i = 16 \<or> bit (getssr m) i)
   \<and> bit (getssr (enter_kernel_mode m)) i = (if i \<in> {16, 17, 19} then False else bit (getssr m) i)"
  by (auto simp: enter_user_mode_def enter_kernel_mode_def getssr_def setssr_def Let_def
      bit_set_bit_iff bit_unset_bit_iff)

section \<open>Adding a translation for an address space\<close>

lemma SET_FIELD_V_0: "SET_FIELD (e::u64) PTE_V 0 = e AND NOT (push_bit 63 1)"
proof (rule bit_word_eqI)
  fix i assume "i < LENGTH(64)"
  then have i: "i < 64" by simp
  then have "bit (NOT (push_bit 63 1) :: u64) i \<longleftrightarrow> i \<noteq> 63"
    unfolding bit_not_iff bit_push_bit_iff bit_1_iff by auto
  moreover have "63 \<le> i \<longleftrightarrow> i = 63" using i by auto
  ultimately show "bit (SET_FIELD e PTE_V 0) i = bit (e AND NOT (push_bit 63 1)) i"
    using i unfolding SET_FIELD_def bit_and_iff by (simp add: bit_fINSERT_BITS)
qed

lemma not_matches_SET_V_0: "\<not> tlb_entry_matches x (SET_FIELD e PTE_V 0)"
  unfolding SET_FIELD_V_0 by (rule not_matches_cleared)

context tlb_device
begin

lemma clear_overlapping_no_match:
  assumes "unique_match hw ok (dev (rt m)) (mmu_key asid va)" and "ok (dev (rt m)) j"
  shows "\<not> tlb_entry_matches (mmu_key asid va) (tlbr hw (clear_overlapping_entry hw m asid va) j)"
proof (cases "tlbp hw m asid va = TLB_NOT_FOUND")
  case True
  then show ?thesis using probe_miss [OF _ assms(2)]
    by (simp add: clear_overlapping_entry_def Let_def tlbr_def tlbp_def mmu_key_def)
next
  case False
  let ?i = "tlbp hw m asid va"
  have hit: "ok (dev (rt m)) ?i" "tlb_entry_matches (mmu_key asid va) (tlbr hw m ?i)"
    using False probe_hit by (simp_all add: tlbp_def tlbr_def mmu_key_def)
  have "tlbr hw (clear_overlapping_entry hw m asid va) j =
      (if ?i = j then SET_FIELD (tlbr hw m ?i) PTE_V 0 else tlbr hw m j)"
    using False hit assms(2) by (simp add: clear_overlapping_entry_def remove_trans_def Let_def tlbr_tlbw)
  moreover have "\<not> tlb_entry_matches (mmu_key asid va) (tlbr hw m j)" if "?i \<noteq> j"
    using assms hit that unfolding unique_match_def tlbr_def by blast
  ultimately show ?thesis using not_matches_SET_V_0 by simp
qed

lemma ok_clear_overlapping:
  "ok (dev (rt (clear_overlapping_entry hw m asid va))) j = ok (dev (rt m)) j"
  by (simp add: clear_overlapping_entry_def remove_trans_def Let_def ok_tlbw)

text \<open>Invalidating an entry never makes another one match.\<close>

lemma invalidate_keeps_no_match:
  assumes "ok (dev st) j" and "\<not> tlb_entry_matches x (op_tlbr hw (dev st) j)"
  shows "\<not> tlb_entry_matches x (op_tlbr hw (dev (tlb_invalidate hw st va)) j)"
proof (cases "tlb_probe hw st va \<noteq> TLB_NOT_FOUND \<and> j = tlb_probe hw st va")
  case True
  then have "op_tlbr hw (dev (tlb_invalidate hw st va)) j =
      op_tlbr hw (dev st) j AND NOT (push_bit 63 1)"
    using invalidate_entry [OF assms(1), of va] by simp
  then show ?thesis using not_matches_cleared by metis
next
  case False
  then have "op_tlbr hw (dev (tlb_invalidate hw st va)) j = op_tlbr hw (dev st) j"
    using invalidate_entry [OF assms(1), of va] by auto
  with assms(2) show ?thesis by simp
qed

lemma install_after_clear:
  assumes u: "unique_match hw ok (dev (rt m)) (mmu_key asid va)" and i: "ok (dev (rt m)) index"
    and e: "tlb_entry_matches (mmu_key asid va) e"
    and st: "st = write_tlb_entry hw (tlb_invalidate hw (rt (clear_overlapping_entry hw m asid va)) va) e index"
  shows "op_tlbp hw (dev st) (mmu_key asid va) = index \<and> op_tlbr hw (dev st) index = e"
proof -
  let ?m1 = "clear_overlapping_entry hw m asid va"
  have ok1: "ok (dev (tlb_invalidate hw (rt ?m1) va)) j = ok (dev (rt m)) j" for j
    by (simp add: ok_invalidate ok_clear_overlapping)
  have rd: "op_tlbr hw (dev st) j = (if index = j then e else op_tlbr hw (dev (tlb_invalidate hw (rt ?m1) va)) j)"
    if "ok (dev (rt m)) j" for j
    unfolding st using that i by (intro write_read) (simp_all add: ok1)
  have "op_tlbp hw (dev st) (mmu_key asid va) = index"
  proof (rule probe_unique)
    show "ok (dev st) index" using i by (simp add: st ok_write ok1)
    show "tlb_entry_matches (mmu_key asid va) (op_tlbr hw (dev st) index)" using rd [OF i] e by simp
  next
    fix j assume "ok (dev st) j" and m: "tlb_entry_matches (mmu_key asid va) (op_tlbr hw (dev st) j)"
    then have j: "ok (dev (rt m)) j" by (simp add: st ok_write ok1)
    then have "\<not> tlb_entry_matches (mmu_key asid va) (op_tlbr hw (dev (tlb_invalidate hw (rt ?m1) va)) j)"
      using clear_overlapping_no_match [OF u j]
      by (intro invalidate_keeps_no_match) (simp_all add: ok_clear_overlapping tlbr_def)
    with m rd [OF j] show "j = index" by (auto split: if_splits)
  qed
  with rd [OF i] show ?thesis by simp
qed

end

lemma add_trans_entry_matches:
  assumes "unat pa < 2 ^ 43" and "page_aligned s pa" and "bit (V::u8) 0"
    and vg: "vg = push_bit 1 (ucast V AND 1) OR (ucast G AND 1)"
  shows "tlb_entry_matches (mmu_key asid va)
    (translation_entry arch va pa (PageSize s) xwru cccc asid aa vg)"
proof -
  have "bit vg 1" using assms(3) unfolding vg bit_or_iff bit_push_bit_iff bit_and_iff
    by (simp add: bit_ucast_iff)
  moreover have "take_bit 7 asid = take_bit 7 (drop_bit 8 (push_bit 8 asid))"
    by (rule bit_word_eqI) (auto simp: bit_take_bit_iff bit_drop_bit_eq bit_push_bit_iff)
  ultimately show ?thesis
    unfolding mmu_key_eq_probe_key using translation_entry_matches assms(1) by blast
qed

lemma clear_overlapping_frame [frame_simps]:
  "tlb_fixed_entries (rt (clear_overlapping_entry hw m asid va)) = tlb_fixed_entries (rt m)"
  by (simp add: clear_overlapping_entry_def remove_trans_def tlbw_def Let_def)

text \<open>C2: \<open>add_trans\<close> installs a valid translation for an address space whichever space
  is current: with an index inside the fixed entries it does not fail its assertion, a
  probe of the address in that space then finds exactly the given index, and the entry
  there decodes to the requested page.  With an index outside, it stops at the assertion.\<close>

theorem add_trans_installs:
  assumes hw: "tlb_device hw ok" and u: "unique_match hw ok (dev (rt m)) (mmu_key asid va)"
    and i: "ok (dev (rt m)) index" and pa: "unat pa < 2 ^ 36" "page_aligned s pa" "page_shift s \<le> 6"
    and V: "bit V 0" and n: "tlb_fixed_entries (rt m) \<noteq> 0"
  shows "if 1 \<le> sint index \<and> sint index < uint (tlb_fixed_entries (rt m))
    then \<exists>m'. add_trans arch hw m index va pa (PageSize s) xwru asid V G = Ok m'
      \<and> tlbp hw m' asid va = index
      \<and> hex_tlb_phys_addr (tlbr hw m' index) = Ok pa
      \<and> get_member (tlbr hw m' index) VirtualPage = ucast (drop_bit 12 va)
      \<and> get_member (tlbr hw m' index) XWRU = take_bit 4 (ucast xwru)
      \<and> get_member (tlbr hw m' index) ASID = take_bit 7 (ucast asid)
    else \<exists>m'. add_trans arch hw m index va pa (PageSize s) xwru asid V G = Stop Assert_failed m'"
proof -
  define vg :: u32 where "vg = push_bit 1 (ucast V AND 1) OR (ucast G AND 1)"
  define m1 where "m1 = clear_overlapping_entry hw m asid va"
  define e where "e = translation_entry arch va pa (PageSize s) (ucast xwru) 0 asid 0 vg"
  define st where "st = write_tlb_entry hw (tlb_invalidate hw (rt m1) va) e index"
  have "V \<noteq> 0" using V by auto
  then have unf: "add_trans arch hw m index va pa (PageSize s) xwru asid V G =
      (case add_translation_extended arch hw (rt m1) index va pa (PageSize s) (ucast xwru) 0 asid 0 vg of
        (st, r) \<Rightarrow> if r = 0 then Ok (m1\<lparr>rt := st\<rparr>) else Stop Assert_failed (m1\<lparr>rt := st\<rparr>))"
    unfolding add_trans_def m1_def vg_def by (simp add: Let_def)
  have in_range: "(1 \<le> sint index \<and> sint index < uint (tlb_fixed_entries (rt m))) =
      (\<not> (sint index < 1 \<or> index > tlb_fixed_entries (rt m1) - 1))"
    using index_range_check [of index "rt m1"] n by (auto simp: m1_def frame_simps)
  show ?thesis
  proof (cases "1 \<le> sint index \<and> sint index < uint (tlb_fixed_entries (rt m))")
    case True
    then have r: "add_trans arch hw m index va pa (PageSize s) xwru asid V G = Ok (m1\<lparr>rt := st\<rparr>)"
      using in_range unfolding unf
      by (simp add: add_translation_extended_def get_tlb_fixed_entries_def Let_def st_def e_def)
    have pa43: "unat pa < 2 ^ 43" using pa(1) by simp
    have "tlb_entry_matches (mmu_key asid va) e"
      unfolding e_def by (rule add_trans_entry_matches [OF pa43 pa(2) V vg_def])
    from tlb_device.install_after_clear [OF hw u i this st_def [unfolded m1_def]]
    have probe: "op_tlbp hw (dev st) (mmu_key asid va) = index" and rd: "op_tlbr hw (dev st) index = e"
      by auto
    have "encodes_page e s pa" unfolding e_def using pa43 by (rule translation_entry_encodes_page)
    then have "hex_tlb_phys_addr e = Ok pa" using pa by (intro encodes_page_phys_addr)
    moreover have "tlbp hw (m1\<lparr>rt := st\<rparr>) asid va = index" "tlbr hw (m1\<lparr>rt := st\<rparr>) index = e"
      using probe rd by (simp_all add: tlbp_def tlbr_def mmu_key_def)
    moreover have "get_member e VirtualPage = ucast (drop_bit 12 va)"
      "get_member e XWRU = take_bit 4 (ucast (ucast xwru :: u32))"
      "get_member e ASID = take_bit 7 (ucast asid)"
      by (simp_all add: e_def translation_entry_members translation_entry_vpn [OF pa43])
    moreover have "ucast (ucast xwru :: u32) = (ucast xwru :: u64)"
      by (rule bit_word_eqI) (auto simp: bit_ucast_iff dest: bit_imp_le_length)
    ultimately show ?thesis using True r by auto
  next
    case False
    then show ?thesis using in_range unfolding unf
      by (auto simp: add_translation_extended_def get_tlb_fixed_entries_def)
  qed
qed

theorem add_trans_installs_witness:
  "\<exists>m'. add_trans 68 arr_tlb (sample_mmu 0) 1 0x00400000 0x00300000 (PageSize SHIFT_1M) 7 5 1 0 = Ok m'
     \<and> tlbp arr_tlb m' 5 0x00400000 = 1"
proof -
  have "unique_match arr_tlb arr_ok (dev (rt (sample_mmu 0))) (mmu_key 5 0x00400000)"
    by (auto simp: unique_match_def arr_ok_def arr_tlb_def tlb_entry_matches_def sample_mmu_def)
  moreover have "arr_ok (dev (rt (sample_mmu 0))) 1" "unat (0x00300000 :: u64) < 2 ^ 36"
    "page_aligned SHIFT_1M 0x00300000" "page_shift SHIFT_1M \<le> 6" "bit (1 :: u8) 0"
    "tlb_fixed_entries (rt (sample_mmu 0)) \<noteq> 0"
    "1 \<le> sint (1::u32) \<and> sint (1::u32) < uint (tlb_fixed_entries (rt (sample_mmu 0)))"
    by (simp_all add: arr_ok_def page_aligned_def sample_mmu_def)
  ultimately show ?thesis
    using add_trans_installs [OF arr.tlb_device_axioms, of "sample_mmu 0" 5 "0x00400000" 1 "0x00300000"
        SHIFT_1M 1 68 7 0] by auto
qed

end
