(* ===== verification/Event_Handle.thy ===== *)
theory Event_Handle
  imports Mmu
begin

text \<open>
  The assembly parts of \<^verbatim>\<open>include/mmu.h\<close>: the save and restore sequence that the
  macro \<open>MY_EVENT_HANDLE\<close> wraps around a C helper, the table \<open>my_event_vectors\<close>, and
  the offsets with which \<open>DEFAULT_EVENT_HANDLE\<close> jumps into the previous table, that of \<^verbatim>\<open>crt0/crt0_standalone.S\<close>.  The
  instructions are interpreted on a register file, the \<open>sgp0\<close> and \<open>ssr\<close> registers
  and a memory of double words; the helper is a parameter.
\<close>

section \<open>The save and restore sequence\<close>

record hctx =
  regs :: "nat \<Rightarrow> u32"
  sgp0 :: u32
  h_ssr :: u32
  hmem :: "u32 \<Rightarrow> u64"

definition SP :: nat where "SP = 29"

text \<open>
  \<open>Push n\<close> is \<open>memd(sp++#8) = r(n+1):n\<close>, \<open>Pop n\<close> is \<open>r(n+1):n = memd(sp++#-8)\<close>,
  \<open>Load n\<close> is \<open>r(n+1):n = memd(sp)\<close>.
\<close>

datatype hinsn = Crswap_sp_sgp0 | Push nat | Add_sp u32 | Pop nat | Load nat | R0_ssr | Call_helper | Rte

definition pair :: "hctx \<Rightarrow> nat \<Rightarrow> u64" where
  "pair c n = word_cat (regs c (n + 1)) (regs c n)"

definition set_pair :: "hctx \<Rightarrow> nat \<Rightarrow> u64 \<Rightarrow> hctx" where
  "set_pair c n d = c\<lparr>regs := (regs c)(n := ucast d, n + 1 := ucast (drop_bit 32 d))\<rparr>"

fun hstep :: "(hctx \<Rightarrow> hctx) \<Rightarrow> hinsn \<Rightarrow> hctx \<Rightarrow> hctx" where
  "hstep helper Crswap_sp_sgp0 c = c\<lparr>regs := (regs c)(SP := sgp0 c), sgp0 := regs c SP\<rparr>"
| "hstep helper (Push n) c =
     c\<lparr>hmem := (hmem c)(regs c SP := pair c n), regs := (regs c)(SP := regs c SP + 8)\<rparr>"
| "hstep helper (Add_sp k) c = c\<lparr>regs := (regs c)(SP := regs c SP + k)\<rparr>"
| "hstep helper (Pop n) c =
     (let c' = set_pair c n (hmem c (regs c SP)) in c'\<lparr>regs := (regs c')(SP := regs c SP - 8)\<rparr>)"
| "hstep helper (Load n) c = set_pair c n (hmem c (regs c SP))"
| "hstep helper R0_ssr c = c\<lparr>regs := (regs c)(0 := h_ssr c)\<rparr>"
| "hstep helper Call_helper c = helper c"
| "hstep helper Rte c = c"

definition hrun :: "(hctx \<Rightarrow> hctx) \<Rightarrow> hinsn list \<Rightarrow> hctx \<Rightarrow> hctx" where
  "hrun helper is c = fold (hstep helper) is c"

definition MY_EVENT_HANDLE :: "hinsn list" where
  "MY_EVENT_HANDLE =
     [Crswap_sp_sgp0,
      Push 0, Push 2, Push 4, Push 6, Push 8, Push 10, Push 12, Push 14, Push 16,
      Push 18, Push 20, Push 22, Push 24, Push 26, Push 30,
      R0_ssr, Call_helper, Add_sp (- 8),
      Pop 30, Pop 26, Pop 24, Pop 22, Pop 20, Pop 18, Pop 16, Pop 14, Pop 12,
      Pop 10, Pop 8, Pop 6, Pop 4, Pop 2, Load 0,
      Crswap_sp_sgp0, Rte]"

section \<open>The event vector tables\<close>

datatype event_handle = Handle_reset | Handle_nmi | Handle_error | Handle_rsvd | Handle_tlbmissx
  | Handle_tlbmissrw | Handle_trap0 | Handle_trap1 | Handle_fperror | Handle_int

definition my_event_vectors :: "event_handle list" where
  "my_event_vectors =
     [Handle_reset, Handle_nmi, Handle_error, Handle_rsvd, Handle_tlbmissx, Handle_rsvd,
      Handle_tlbmissrw, Handle_rsvd, Handle_trap0, Handle_trap1, Handle_rsvd, Handle_fperror,
      Handle_rsvd, Handle_rsvd, Handle_rsvd, Handle_rsvd] @ replicate 32 Handle_int"

fun HANDLE_OFFSET :: "event_handle \<Rightarrow> nat" where
  "HANDLE_OFFSET Handle_reset = 0x00"
| "HANDLE_OFFSET Handle_nmi = 0x04"
| "HANDLE_OFFSET Handle_error = 0x08"
| "HANDLE_OFFSET Handle_rsvd = 0x0c"
| "HANDLE_OFFSET Handle_tlbmissx = 0x10"
| "HANDLE_OFFSET Handle_tlbmissrw = 0x18"
| "HANDLE_OFFSET Handle_trap0 = 0x20"
| "HANDLE_OFFSET Handle_trap1 = 0x24"
| "HANDLE_OFFSET Handle_fperror = 0x28"
| "HANDLE_OFFSET Handle_int = 0x40"

text \<open>The table of the start code, to which \<open>evb\<close> points before: its entries jump to handlers of the same names.\<close>

definition EventVectors :: "event_handle list" where
  "EventVectors =
     [Handle_reset, Handle_nmi, Handle_error, Handle_rsvd, Handle_tlbmissx, Handle_rsvd,
      Handle_tlbmissrw, Handle_rsvd, Handle_trap0, Handle_trap1, Handle_rsvd, Handle_rsvd,
      Handle_rsvd, Handle_rsvd, Handle_rsvd, Handle_rsvd] @ replicate 32 Handle_int"

text \<open>\<open>DEFAULT_EVENT_HANDLE\<close> computes \<open>old_evb + offset\<close> in \<open>r0\<close> and jumps there.\<close>

definition DEFAULT_EVENT_HANDLE :: "'d mmu \<Rightarrow> event_handle \<Rightarrow> hctx \<Rightarrow> hctx \<times> u32" where
  "DEFAULT_EVENT_HANDLE m h c =
     (let c = c\<lparr>regs := (regs c)(0 := old_evb m)\<rparr>;
          c = c\<lparr>regs := (regs c)(0 := regs c 0 + of_nat (HANDLE_OFFSET h))\<rparr>
      in (c, regs c 0))"

section \<open>Saving and restoring\<close>

lemma pair_split:
  "ucast (word_cat (hi :: u32) (lo :: u32) :: u64) = lo"
  "ucast (drop_bit 32 (word_cat (hi :: u32) (lo :: u32) :: u64)) = hi"
  by (rule bit_word_eqI; simp add: bit_ucast_iff bit_word_cat_iff bit_drop_bit_eq)+

lemma set_pair_pair: "set_pair c n (pair d n) = c\<lparr>regs := (regs c)(n := regs d n, n + 1 := regs d (n + 1))\<rparr>"
  by (simp add: set_pair_def pair_def pair_split)

definition saved :: "nat list" where
  "saved = [0, 2, 4, 6, 8, 10, 12, 14, 16, 18, 20, 22, 24, 26, 30]"

lemma MY_EVENT_HANDLE_parts:
  "MY_EVENT_HANDLE = [Crswap_sp_sgp0] @ map Push saved @ [R0_ssr, Call_helper, Add_sp (- 8)] @
     map Pop (butlast (rev saved)) @ [Load 0, Crswap_sp_sgp0, Rte]"
  by (simp add: MY_EVENT_HANDLE_def saved_def)

lemma hrun_append: "hrun h (xs @ ys) c = hrun h ys (hrun h xs c)"
  by (simp add: hrun_def)

lemma slot_neq:
  assumes "j < n" and "n \<le> 2 ^ 28"
  shows "a + 8 * of_nat j \<noteq> (a + 8 * of_nat n :: u32)"
proof
  have u: "unat (8 * of_nat j :: u32) = 8 * j" "unat (8 * of_nat n :: u32) = 8 * n"
    using assms by (auto simp: unat_word_ariths unsigned_of_nat take_bit_nat_eq_self)
  assume "a + 8 * of_nat j = (a + 8 * of_nat n :: u32)"
  then have "(8 * of_nat j :: u32) = 8 * of_nat n" by simp
  then have "8 * j = 8 * n" using u by metis
  with assms(1) show False by simp
qed

lemma pushes:
  assumes "\<forall>n \<in> set ns. n \<noteq> SP \<and> n + 1 \<noteq> SP" and "length ns \<le> 2 ^ 28"
  shows "regs (hrun h (map Push ns) c) = (regs c)(SP := regs c SP + 8 * of_nat (length ns))
    \<and> sgp0 (hrun h (map Push ns) c) = sgp0 c \<and> h_ssr (hrun h (map Push ns) c) = h_ssr c
    \<and> (\<forall>j < length ns. hmem (hrun h (map Push ns) c) (regs c SP + 8 * of_nat j) = pair c (ns ! j))"
  using assms
proof (induction ns rule: rev_induct)
  case Nil
  then show ?case by (simp add: hrun_def)
next
  case (snoc n ns)
  let ?d = "hrun h (map Push ns) c"
  have IH: "regs ?d = (regs c)(SP := regs c SP + 8 * of_nat (length ns))" "sgp0 ?d = sgp0 c" "h_ssr ?d = h_ssr c"
    "\<And>j. j < length ns \<Longrightarrow> hmem ?d (regs c SP + 8 * of_nat j) = pair c (ns ! j)"
    using snoc by auto
  have step: "hrun h (map Push (ns @ [n])) c = hstep h (Push n) ?d"
    by (simp add: hrun_def)
  have pr: "pair ?d n = pair c n" using snoc.prems(1) IH(1) by (simp add: pair_def)
  have "hmem (hstep h (Push n) ?d) (regs c SP + 8 * of_nat j) = pair c ((ns @ [n]) ! j)"
    if "j < length (ns @ [n])" for j
  proof (cases "j = length ns")
    case True
    then show ?thesis using pr IH(1) by simp
  next
    case False
    with that have "j < length ns" by simp
    then show ?thesis using slot_neq [of j "length ns" "regs c SP"] snoc.prems(2) IH(1,4)
      by (simp add: nth_append)
  qed
  then show ?case unfolding step using IH by (simp add: algebra_simps)
qed

lemma pops:
  assumes "\<forall>n \<in> set ns. n \<noteq> SP \<and> n + 1 \<noteq> SP"
    and "\<forall>j < length ns. hmem d (regs d SP - 8 * of_nat j) = pair c (ns ! j)"
  shows "hrun h (map Pop ns) d = d\<lparr>regs := (\<lambda>r. if r = SP then regs d SP - 8 * of_nat (length ns)
    else if \<exists>n \<in> set ns. r = n \<or> r = n + 1 then regs c r else regs d r)\<rparr>"
  using assms
proof (induction ns arbitrary: d)
  case Nil
  have "(\<lambda>r. if r = SP then regs d SP else regs d r) = regs d" by auto
  then show ?case by (simp add: hrun_def cong: if_cong)
next
  case (Cons n ns)
  let ?d = "d\<lparr>regs := (regs d)(n := regs c n, n + 1 := regs c (n + 1), SP := regs d SP - 8)\<rparr>"
  have "hmem d (regs d SP) = pair c n" using Cons.prems(2) by force
  then have step: "hstep h (Pop n) d = ?d" by (simp add: set_pair_pair Let_def)
  have "\<forall>j < length ns. hmem ?d (regs ?d SP - 8 * of_nat j) = pair c (ns ! j)"
  proof (intro allI impI)
    fix j assume "j < length ns"
    then have "hmem d (regs d SP - 8 * of_nat (Suc j)) = pair c ((n # ns) ! Suc j)"
      using Cons.prems(2) by (metis Suc_less_eq length_Cons)
    then show "hmem ?d (regs ?d SP - 8 * of_nat j) = pair c (ns ! j)"
      by (simp add: algebra_simps)
  qed
  then have "hrun h (map Pop ns) ?d = ?d\<lparr>regs := (\<lambda>r. if r = SP then regs ?d SP - 8 * of_nat (length ns)
    else if \<exists>n \<in> set ns. r = n \<or> r = n + 1 then regs c r else regs ?d r)\<rparr>"
    using Cons.prems(1) by (intro Cons.IH) simp
  moreover have "hrun h (map Pop (n # ns)) d = hrun h (map Pop ns) ?d"
    using step by (simp add: hrun_def)
  moreover have "(\<lambda>r. if r = SP then regs ?d SP - 8 * of_nat (length ns)
      else if \<exists>n \<in> set ns. r = n \<or> r = n + 1 then regs c r else regs ?d r) =
    (\<lambda>r. if r = SP then regs d SP - 8 * of_nat (length (n # ns))
      else if \<exists>n \<in> set (n # ns). r = n \<or> r = n + 1 then regs c r else regs d r)"
    using Cons.prems(1) by (auto simp: fun_eq_iff algebra_simps)
  ultimately show ?case by simp
qed

text \<open>The state in which the helper is called.\<close>

definition at_call :: "hctx \<Rightarrow> hctx" where
  "at_call c = hrun id ([Crswap_sp_sgp0] @ map Push saved @ [R0_ssr]) c"

lemma hstep_helper: "i \<noteq> Call_helper \<Longrightarrow> hstep h i c = hstep id i c"
  by (cases i) auto

lemma hrun_helper: "Call_helper \<notin> set is \<Longrightarrow> hrun h is c = hrun id is c"
proof (induction "is" arbitrary: c)
  case (Cons i "is")
  then have "hstep h i c = hstep id i c" by (intro hstep_helper) auto
  with Cons show ?case by (simp add: hrun_def id_def)
qed (simp add: hrun_def)

lemma hrun_MY_EVENT_HANDLE:
  "hrun h MY_EVENT_HANDLE c = hrun h ([Add_sp (- 8)] @ map Pop (butlast (rev saved)) @
     [Load 0, Crswap_sp_sgp0, Rte]) (h (at_call c))"
proof -
  let ?pre = "[Crswap_sp_sgp0] @ map Push saved @ [R0_ssr]"
  let ?post = "[Add_sp (- 8)] @ map Pop (butlast (rev saved)) @ [Load 0, Crswap_sp_sgp0, Rte]"
  have eq: "MY_EVENT_HANDLE = ?pre @ [Call_helper] @ ?post"
    by (simp only: MY_EVENT_HANDLE_parts append_assoc append_Cons append_Nil)
  have "hrun h MY_EVENT_HANDLE c = hrun h ?post (hrun h [Call_helper] (hrun h ?pre c))"
    unfolding eq by (simp only: hrun_append)
  also have "hrun h ?pre c = at_call c"
    unfolding at_call_def by (rule hrun_helper) auto
  finally show ?thesis by (simp only: hrun_def fold.simps comp_apply id_apply hstep.simps)
qed

lemma saved_ok: "\<forall>n \<in> set saved. n \<noteq> SP \<and> n + 1 \<noteq> SP" "length saved = 15"
  by (simp_all add: saved_def SP_def)

lemma at_call_props:
  "regs (at_call c) SP = sgp0 c + 120" "sgp0 (at_call c) = regs c SP"
  "regs (at_call c) 0 = h_ssr c"
  "j < 15 \<Longrightarrow> hmem (at_call c) (sgp0 c + 8 * of_nat j) = pair c (saved ! j)"
proof -
  let ?c1 = "c\<lparr>regs := (regs c)(SP := sgp0 c), sgp0 := regs c SP\<rparr>"
  have "at_call c = hstep id R0_ssr (hrun id (map Push saved) ?c1)"
    unfolding at_call_def hrun_append by (simp add: hrun_def)
  moreover have "pair ?c1 (saved ! j) = pair c (saved ! j)" if "j < 15" for j
    using that saved_ok nth_mem [of j saved] by (auto simp: pair_def)
  ultimately show "regs (at_call c) SP = sgp0 c + 120" "sgp0 (at_call c) = regs c SP"
    "regs (at_call c) 0 = h_ssr c"
    "j < 15 \<Longrightarrow> hmem (at_call c) (sgp0 c + 8 * of_nat j) = pair c (saved ! j)"
    using pushes [OF saved_ok(1), of id ?c1] saved_ok(2) by (simp_all add: SP_def)
qed

lemma rev_saved_nth: "j < 14 \<Longrightarrow> butlast (rev saved) ! j = saved ! (14 - j)"
  using nth_butlast [of j "rev saved"] rev_nth [of j saved] by (simp add: saved_ok(2) del: butlast_rev)

lemma restore:
  assumes sp: "regs d SP = sgp0 c + 120" and g: "sgp0 d = regs c SP"
    and m: "\<And>j. j < 15 \<Longrightarrow> hmem d (sgp0 c + 8 * of_nat j) = pair c (saved ! j)"
  shows "hrun h ([Add_sp (- 8)] @ map Pop (butlast (rev saved)) @ [Load 0, Crswap_sp_sgp0, Rte]) d =
    d\<lparr>regs := (\<lambda>r. if r < 32 \<and> r \<noteq> 28 then regs c r else regs d r), sgp0 := sgp0 c\<rparr>"
proof -
  let ?d = "d\<lparr>regs := (regs d)(SP := sgp0 c + 112)\<rparr>"
  have "hmem ?d (regs ?d SP - 8 * of_nat j) = pair c (butlast (rev saved) ! j)" if "j < 14" for j
  proof -
    have "sgp0 c + 112 - 8 * of_nat j = sgp0 c + 8 * of_nat (14 - j)"
      using that by (simp add: of_nat_diff algebra_simps)
    then have "hmem d (sgp0 c + 112 - 8 * of_nat j) = pair c (saved ! (14 - j))"
      by (simp only: m)
    then show ?thesis using that by (simp add: rev_saved_nth del: butlast_rev)
  qed
  then have p: "hrun h (map Pop (butlast (rev saved))) ?d =
      ?d\<lparr>regs := (\<lambda>r. if r = SP then sgp0 c
        else if \<exists>n \<in> set (butlast (rev saved)). r = n \<or> r = n + 1 then regs c r else regs d r)\<rparr>"
    using pops [of "butlast (rev saved)" ?d c h] saved_ok by (auto simp: saved_def cong: if_cong)
  have l: "set_pair e 0 (hmem d (sgp0 c)) = e\<lparr>regs := (regs e)(0 := regs c 0, 1 := regs c 1)\<rparr>" for e
    using m [of 0] set_pair_pair [of e 0 c] by (simp add: saved_def)
  have r: "(r = SP \<or> r = 0 \<or> r = 1 \<or> (\<exists>n \<in> set (butlast (rev saved)). r = n \<or> r = n + 1)) =
      (r < 32 \<and> r \<noteq> 28)" for r
    by (simp add: saved_def SP_def) presburger
  have "hrun h [Add_sp (- 8)] d = ?d" using sp by (simp add: hrun_def add.commute)
  then have "hrun h ([Add_sp (- 8)] @ map Pop (butlast (rev saved)) @ [Load 0, Crswap_sp_sgp0, Rte]) d =
      hrun h [Load 0, Crswap_sp_sgp0, Rte] (hrun h (map Pop (butlast (rev saved))) ?d)"
    by (simp only: hrun_append)
  also have "\<dots> = d\<lparr>regs := (\<lambda>r. if r < 32 \<and> r \<noteq> 28 then regs c r else regs d r), sgp0 := sgp0 c\<rparr>"
    unfolding p using g by (simp add: hrun_def l) (auto simp: fun_eq_iff r [symmetric] SP_def)
  finally show ?thesis .
qed

section \<open>Properties\<close>

text \<open>C29: an event handler made by \<open>MY_EVENT_HANDLE\<close> is transparent.  If the helper
  returns with its stack pointer, \<open>sgp0\<close> and the fifteen double words below its entry stack
  pointer as it found them, then after the sequence every general register except r28, the
  stack pointer included, and \<open>sgp0\<close> hold their values from before the event; the helper is
  entered with the status register in r0.\<close>

theorem event_handle_transparent:
  assumes "regs (helper (at_call c)) SP = regs (at_call c) SP"
    and "sgp0 (helper (at_call c)) = sgp0 (at_call c)"
    and "\<forall>j < 15. hmem (helper (at_call c)) (sgp0 c + 8 * of_nat j) = hmem (at_call c) (sgp0 c + 8 * of_nat j)"
  shows "regs (at_call c) 0 = h_ssr c
    \<and> (\<forall>r < 32. r \<noteq> 28 \<longrightarrow> regs (hrun helper MY_EVENT_HANDLE c) r = regs c r)
    \<and> sgp0 (hrun helper MY_EVENT_HANDLE c) = sgp0 c"
proof -
  let ?post = "[Add_sp (- 8)] @ map Pop (butlast (rev saved)) @ [Load 0, Crswap_sp_sgp0, Rte]"
  have "hrun helper MY_EVENT_HANDLE c = hrun helper ?post (helper (at_call c))"
    by (rule hrun_MY_EVENT_HANDLE)
  also have "\<dots> = (helper (at_call c))\<lparr>regs := (\<lambda>r. if r < 32 \<and> r \<noteq> 28 then regs c r
      else regs (helper (at_call c)) r), sgp0 := sgp0 c\<rparr>"
    using assms by (intro restore) (simp_all add: at_call_props)
  finally show ?thesis by (simp add: at_call_props)
qed

theorem event_handle_transparent_witness:
  "regs (hrun (\<lambda>c. c\<lparr>regs := (regs c)(5 := 77)\<rparr>) MY_EVENT_HANDLE
     \<lparr>regs = of_nat, sgp0 = 0x1000, h_ssr = 0x70, hmem = \<lambda>_. 0\<rparr>) 5 = 5"
proof -
  let ?h = "\<lambda>c. c\<lparr>regs := (regs c)(5 := 77)\<rparr>"
  let ?c = "\<lparr>regs = of_nat, sgp0 = 0x1000, h_ssr = 0x70, hmem = \<lambda>_. 0\<rparr>"
  have "regs (?h (at_call ?c)) SP = regs (at_call ?c) SP" "sgp0 (?h (at_call ?c)) = sgp0 (at_call ?c)"
    "\<forall>j < 15. hmem (?h (at_call ?c)) (sgp0 ?c + 8 * of_nat j) = hmem (at_call ?c) (sgp0 ?c + 8 * of_nat j)"
    by (simp_all add: SP_def)
  from event_handle_transparent [of ?h ?c, OF this] show ?thesis by simp
qed

text \<open>The saved registers lie below the helper's stack pointer.  A helper that saves a
  double word just below its entry stack pointer, as a frame allocation of a stack that
  grows downwards does, makes the handler return with that value in r31:30.\<close>

lemma event_handle_frame_clobbers:
  assumes "helper (at_call c) =
    (at_call c)\<lparr>hmem := (hmem (at_call c))(regs (at_call c) SP - 8 := frame)\<rparr>"
  shows "regs (hrun helper MY_EVENT_HANDLE c) 30 = ucast frame
    \<and> regs (hrun helper MY_EVENT_HANDLE c) 31 = ucast (drop_bit 32 frame)"
proof -
  define c' where "c' = c\<lparr>regs := (regs c)(30 := ucast frame, 31 := ucast (drop_bit 32 frame))\<rparr>"
  let ?d = "helper (at_call c)"
  let ?post = "[Add_sp (- 8)] @ map Pop (butlast (rev saved)) @ [Load 0, Crswap_sp_sgp0, Rte]"
  have frame: "pair c' 30 = frame"
    by (rule bit_word_eqI) (auto simp: pair_def c'_def bit_word_cat_iff bit_ucast_iff bit_drop_bit_eq)
  have "hmem ?d (sgp0 c' + 8 * of_nat j) = pair c' (saved ! j)" if "j < 15" for j
  proof (cases "j = 14")
    case True
    then show ?thesis using frame by (simp add: assms at_call_props c'_def saved_def)
  next
    case False
    with that have "j < 14" by simp
    have "saved ! j \<notin> {29, 30, 31}" using \<open>j < 14\<close>
      by (auto simp: saved_def less_Suc_eq numeral_eq_Suc)
    then have "pair c' (saved ! j) = pair c (saved ! j)" by (auto simp: pair_def c'_def)
    then show ?thesis using slot_neq [of j 14 "sgp0 c"] \<open>j < 14\<close> that at_call_props(4) [of j c]
      by (simp add: assms at_call_props(1) c'_def)
  qed
  moreover have "regs ?d SP = sgp0 c' + 120" "sgp0 ?d = regs c' SP"
    by (simp_all add: assms at_call_props c'_def) (simp add: SP_def)
  ultimately have "hrun helper ?post ?d = ?d\<lparr>regs := (\<lambda>r. if r < 32 \<and> r \<noteq> 28 then regs c' r
      else regs ?d r), sgp0 := sgp0 c'\<rparr>"
    by (intro restore)
  moreover have "hrun helper MY_EVENT_HANDLE c = hrun helper ?post ?d"
    by (rule hrun_MY_EVENT_HANDLE)
  ultimately show ?thesis by (simp add: c'_def)
qed

text \<open>A default handler jumps to the slot of the previous table that the new table gives to the same handler, except the floating-point one,
  whose offset names the slot before its own; with the table of the start code every event still comes to the handler it had there.  The value
  of \<open>r0\<close> at the event is lost.\<close>

lemma default_handle_slots:
  "(my_event_vectors ! (HANDLE_OFFSET h div 4) = h) = (h \<noteq> Handle_fperror)"
  "snd (DEFAULT_EVENT_HANDLE m h c) = old_evb m + 4 * of_nat (HANDLE_OFFSET h div 4)"
  "regs (fst (DEFAULT_EVENT_HANDLE m h c)) 0 = old_evb m + of_nat (HANDLE_OFFSET h)"
  by (cases h; simp add: my_event_vectors_def DEFAULT_EVENT_HANDLE_def nth_append)+

lemma default_handle_reaches:
  "n < 48 \<Longrightarrow> EventVectors ! (HANDLE_OFFSET (my_event_vectors ! n) div 4) = EventVectors ! n"
proof -
  have "\<forall>n \<in> set [0..<48]. EventVectors ! (HANDLE_OFFSET (my_event_vectors ! n) div 4) = EventVectors ! n"
    by code_simp
  then show "n < 48 \<Longrightarrow> EventVectors ! (HANDLE_OFFSET (my_event_vectors ! n) div 4) = EventVectors ! n" by simp
qed

end
