(* ===== verification/Hex_Test.thy ===== *)
theory Hex_Test
  imports Hex_Prelude
begin

text \<open>
  The checking functions of \<open>include/hex_test.h\<close>: each compares a result with what is
  expected, prints a message and counts an error in the program's \<open>err\<close> when it is
  wrong.  A message is recorded with the line and the values it prints.  Also its floating-point
  constants and the clearing of the status bits of the register \<open>USR\<close>.
\<close>

section \<open>Checks\<close>

datatype check_message =
    Not_equal32 int u32 u32 | Not_in_range int u32 u32 u32 | Not_equal64 int u64 u64
  | Error_return string int int | Not_equal_ptr int u32 u32 | Equal32 int u32 u32 | Equal64 int u64 u64

record checks =
  err :: int
  messages :: "check_message list"

definition report :: "check_message \<Rightarrow> checks \<Rightarrow> checks" where
  "report m st = st\<lparr>err := err st + 1, messages := messages st @ [m]\<rparr>"

definition check32 :: "int \<Rightarrow> u32 \<Rightarrow> u32 \<Rightarrow> checks \<Rightarrow> checks" where
  "check32 line val expect st =
     (if val \<noteq> expect then report (Not_equal32 line val expect) st else st)"

definition check32_range :: "int \<Rightarrow> u32 \<Rightarrow> u32 \<Rightarrow> u32 \<Rightarrow> checks \<Rightarrow> checks" where
  "check32_range line val mn mx st =
     (if val < mn \<or> val > mx then report (Not_in_range line val mn mx) st else st)"

definition check64 :: "int \<Rightarrow> u64 \<Rightarrow> u64 \<Rightarrow> checks \<Rightarrow> checks" where
  "check64 line val expect st =
     (if val \<noteq> expect then report (Not_equal64 line val expect) st else st)"

definition chk_error :: "string \<Rightarrow> int \<Rightarrow> int \<Rightarrow> checks \<Rightarrow> checks" where
  "chk_error filename line ret st =
     (if ret < 0 then report (Error_return filename line ret) st else st)"

definition checkp :: "int \<Rightarrow> u32 \<Rightarrow> u32 \<Rightarrow> checks \<Rightarrow> checks" where
  "checkp line p expect st =
     (if p \<noteq> expect then report (Not_equal_ptr line p expect) st else st)"

definition check32_ne :: "int \<Rightarrow> u32 \<Rightarrow> u32 \<Rightarrow> checks \<Rightarrow> checks" where
  "check32_ne line val expect st =
     (if val = expect then report (Equal32 line val expect) st else st)"

definition check64_ne :: "int \<Rightarrow> u64 \<Rightarrow> u64 \<Rightarrow> checks \<Rightarrow> checks" where
  "check64_ne line val expect st =
     (if val = expect then report (Equal64 line val expect) st else st)"

text \<open>The calls a test makes, and what it means that one passes.\<close>

datatype check_call =
    Check32 int u32 u32 | Check32_range int u32 u32 u32 | Check64 int u64 u64
  | Chk_error string int int | Checkp int u32 u32 | Check32_ne int u32 u32 | Check64_ne int u64 u64

fun run_check :: "check_call \<Rightarrow> checks \<Rightarrow> checks" where
  "run_check (Check32 l v e) = check32 l v e"
| "run_check (Check32_range l v a b) = check32_range l v a b"
| "run_check (Check64 l v e) = check64 l v e"
| "run_check (Chk_error f l r) = chk_error f l r"
| "run_check (Checkp l p e) = checkp l p e"
| "run_check (Check32_ne l v e) = check32_ne l v e"
| "run_check (Check64_ne l v e) = check64_ne l v e"

fun passes :: "check_call \<Rightarrow> bool" where
  "passes (Check32 l v e) \<longleftrightarrow> v = e"
| "passes (Check32_range l v a b) \<longleftrightarrow> a \<le> v \<and> v \<le> b"
| "passes (Check64 l v e) \<longleftrightarrow> v = e"
| "passes (Chk_error f l r) \<longleftrightarrow> 0 \<le> r"
| "passes (Checkp l p e) \<longleftrightarrow> p = e"
| "passes (Check32_ne l v e) \<longleftrightarrow> v \<noteq> e"
| "passes (Check64_ne l v e) \<longleftrightarrow> v \<noteq> e"

fun call_line :: "check_call \<Rightarrow> int" where
  "call_line (Check32 l v e) = l"
| "call_line (Check32_range l v a b) = l"
| "call_line (Check64 l v e) = l"
| "call_line (Chk_error f l r) = l"
| "call_line (Checkp l p e) = l"
| "call_line (Check32_ne l v e) = l"
| "call_line (Check64_ne l v e) = l"

fun message_line :: "check_message \<Rightarrow> int" where
  "message_line (Not_equal32 l v e) = l"
| "message_line (Not_in_range l v a b) = l"
| "message_line (Not_equal64 l v e) = l"
| "message_line (Error_return f l r) = l"
| "message_line (Not_equal_ptr l p e) = l"
| "message_line (Equal32 l v e) = l"
| "message_line (Equal64 l v e) = l"

lemmas check_defs = check32_def check32_range_def check64_def chk_error_def checkp_def
  check32_ne_def check64_ne_def report_def

lemma run_check_effect:
  "err (run_check c st) = err st + (if passes c then 0 else 1) \<and>
   map message_line (messages (run_check c st)) =
     map message_line (messages st) @ (if passes c then [] else [call_line c])"
  by (cases c) (auto simp: check_defs)

text \<open>The error count after a sequence of checks is the count before plus the number of checks
  that fail, whatever their kinds and order, and the messages printed name exactly the lines of the
  failing checks, in order; so a program that returns \<open>err\<close> returns 0 exactly when every check
  passes.\<close>

lemma checks_count_failures:
  "err (fold run_check cs st) = err st + int (length (filter (\<lambda>c. \<not> passes c) cs)) \<and>
   map message_line (messages (fold run_check cs st)) =
     map message_line (messages st) @ map call_line (filter (\<lambda>c. \<not> passes c) cs)"
proof (induction cs arbitrary: st)
  case (Cons c cs)
  then show ?case using run_check_effect [of c st] by simp
qed simp

section \<open>The USR register\<close>

datatype usr_bit = USR_OVF_BIT | USR_FPINVF_BIT | USR_FPDBZF_BIT | USR_FPOVFF_BIT | USR_FPUNFF_BIT | USR_FPINPF_BIT

fun usr_bit_number :: "usr_bit \<Rightarrow> nat" where
  "usr_bit_number USR_OVF_BIT = 0"
| "usr_bit_number USR_FPINVF_BIT = 1"
| "usr_bit_number USR_FPDBZF_BIT = 2"
| "usr_bit_number USR_FPOVFF_BIT = 3"
| "usr_bit_number USR_FPUNFF_BIT = 4"
| "usr_bit_number USR_FPINPF_BIT = 5"

definition usr_value :: "usr_bit \<Rightarrow> u32" where
  "usr_value b = push_bit (usr_bit_number b) 1"

definition CLEAR_USRBITS :: "u32 \<Rightarrow> u32" where
  "CLEAR_USRBITS usr = usr AND 0xffffffc0"

definition CLEAR_FPSTATUS :: "u32 \<Rightarrow> u32" where
  "CLEAR_FPSTATUS usr = usr AND 0xffffffc1"

lemma usr_masks: "(0xffffffc0 :: u32) = NOT (mask 6)" "(0xffffffc1 :: u32) = NOT (mask 6) OR 1"
  by (simp_all add: mask_eq_exp_minus_1)

lemma clear_usr_bits:
  "bit (CLEAR_USRBITS usr) n \<longleftrightarrow> bit usr n \<and> 6 \<le> n"
  "bit (CLEAR_FPSTATUS usr) n \<longleftrightarrow> bit usr n \<and> (6 \<le> n \<or> n = 0)"
  unfolding CLEAR_USRBITS_def CLEAR_FPSTATUS_def usr_masks
  by (auto simp: bit_and_iff bit_or_iff bit_not_iff bit_mask_iff bit_1_iff dest: bit_imp_le_length)

section \<open>Floating-point constants\<close>

definition SF_INF :: u32 where "SF_INF = 0x7f800000"
definition SF_QNaN :: u32 where "SF_QNaN = 0x7fc00000"
definition SF_QNaN_special :: u32 where "SF_QNaN_special = 0x7f800001"
definition SF_SNaN :: u32 where "SF_SNaN = 0x7fb00000"
definition SF_QNaN_neg :: u32 where "SF_QNaN_neg = 0xffc00000"
definition SF_SNaN_neg :: u32 where "SF_SNaN_neg = 0xffb00000"
definition SF_HEX_NaN :: u32 where "SF_HEX_NaN = 0xffffffff"
definition SF_zero :: u32 where "SF_zero = 0x00000000"
definition SF_zero_neg :: u32 where "SF_zero_neg = 0x80000000"
definition SF_one :: u32 where "SF_one = 0x3f800000"
definition SF_denorm :: u32 where "SF_denorm = 0x00000001"
definition DF_QNaN :: u64 where "DF_QNaN = 0x7ff8000000000000"
definition DF_SNaN :: u64 where "DF_SNaN = 0x7ff7000000000000"
definition DF_QNaN_neg :: u64 where "DF_QNaN_neg = 0xfff8000000000000"
definition DF_SNaN_neg :: u64 where "DF_SNaN_neg = 0xfff7000000000000"
definition DF_HEX_NaN :: u64 where "DF_HEX_NaN = 0xffffffffffffffff"
definition DF_zero :: u64 where "DF_zero = 0x0000000000000000"
definition DF_zero_neg :: u64 where "DF_zero_neg = 0x8000000000000000"
definition DF_one :: u64 where "DF_one = 0x3ff0000000000000"

lemmas sf_defs = SF_INF_def SF_QNaN_def SF_QNaN_special_def SF_SNaN_def SF_QNaN_neg_def SF_SNaN_neg_def
  SF_HEX_NaN_def SF_zero_def SF_zero_neg_def SF_one_def SF_denorm_def
lemmas df_defs = DF_QNaN_def DF_SNaN_def DF_QNaN_neg_def DF_SNaN_neg_def DF_HEX_NaN_def DF_zero_def
  DF_zero_neg_def DF_one_def

datatype fp_class = Zero | Subnormal | Normal | Infinite | Quiet_NaN | Signaling_NaN

text \<open>The IEEE 754 class of an encoding, from its exponent \<open>e\<close> and fraction \<open>f\<close> fields.\<close>

definition fp_classify :: "nat \<Rightarrow> nat \<Rightarrow> nat \<Rightarrow> fp_class" where
  "fp_classify ebits fbits x =
     (let e = x div 2 ^ fbits mod 2 ^ ebits; f = x mod 2 ^ fbits in
      if e = 0 then (if f = 0 then Zero else Subnormal)
      else if e = 2 ^ ebits - 1 then
        (if f = 0 then Infinite else if f div 2 ^ (fbits - 1) = 1 then Quiet_NaN else Signaling_NaN)
      else Normal)"

definition sf_class :: "u32 \<Rightarrow> fp_class" where "sf_class x = fp_classify 8 23 (unat x)"
definition df_class :: "u64 \<Rightarrow> fp_class" where "df_class x = fp_classify 11 52 (unat x)"

text \<open>The constants have the classes their names say, except that \<open>SF_QNaN_special\<close> encodes a
  signaling NaN.\<close>

lemma fp_constant_classes:
  "map sf_class [SF_INF, SF_QNaN, SF_SNaN, SF_QNaN_neg, SF_SNaN_neg, SF_HEX_NaN, SF_zero, SF_zero_neg, SF_one, SF_denorm] =
     [Infinite, Quiet_NaN, Signaling_NaN, Quiet_NaN, Signaling_NaN, Quiet_NaN, Zero, Zero, Normal, Subnormal]"
  "sf_class SF_QNaN_special = Signaling_NaN"
  "map df_class [DF_QNaN, DF_SNaN, DF_QNaN_neg, DF_SNaN_neg, DF_HEX_NaN, DF_zero, DF_zero_neg, DF_one] =
     [Quiet_NaN, Signaling_NaN, Quiet_NaN, Signaling_NaN, Quiet_NaN, Zero, Zero, Normal]"
  by (simp_all add: sf_class_def df_class_def fp_classify_def sf_defs df_defs)

end
