(* ===== verification/Mmu_Access.thy ===== *)
theory Mmu_Access
  imports Mmu Hex_Test "HOL-Library.Monad_Syntax"
begin

text \<open>
  Loads, stores and fetches through the TLB, for the programs that test it.  The hardware finds the
  entry of the address, checks its permissions and forms the physical address.  A missing permission raises
  an exception: the cause and the address are recorded, the installed handler runs and the access is
  repeated.  Which of two missing permissions is reported first is up to the hardware: the check is a
  parameter, and the locale \<open>access_check\<close> states what the causes of \<^verbatim>\<open>include/mmu.h\<close> mean.  The
  theory shows that the handler of \<^verbatim>\<open>include/mmu.h\<close> repairs every access.
\<close>

section \<open>Permissions and causes\<close>

datatype access = Fetch | Read | Write

fun access_field :: "access \<Rightarrow> reg_fields_enum" where
  "access_field Fetch = PTE_X"
| "access_field Read = PTE_R"
| "access_field Write = PTE_W"

fun access_cause :: "access \<Rightarrow> u32" where
  "access_cause Fetch = HEX_CAUSE_FETCH_NO_XPAGE"
| "access_cause Read = HEX_CAUSE_PRIV_NO_READ"
| "access_cause Write = HEX_CAUSE_PRIV_NO_WRITE"

fun user_cause :: "access \<Rightarrow> u32" where
  "user_cause Fetch = HEX_CAUSE_FETCH_NO_UPAGE"
| "user_cause Read = HEX_CAUSE_PRIV_NO_UREAD"
| "user_cause Write = HEX_CAUSE_PRIV_NO_UWRITE"

text \<open>The causes an access can raise on an entry, each with the permission that is missing.\<close>

definition missing_causes :: "access \<Rightarrow> bool \<Rightarrow> u64 \<Rightarrow> u32 set" where
  "missing_causes acc um e =
     (if GET_FIELD e (access_field acc) = 0 then {access_cause acc} else {}) \<union>
     (if um \<and> GET_FIELD e PTE_U = 0 then {user_cause acc} else {})"

type_synonym check_unit = "access \<Rightarrow> bool \<Rightarrow> u64 \<Rightarrow> u32 option"

section \<open>Accesses\<close>

text \<open>The physical address: the page of the entry and the offset in a page of its size.\<close>

definition tlb_translate :: "u64 \<Rightarrow> u32 \<Rightarrow> u64" where
  "tlb_translate e va =
     (let n = 12 + 2 * ctz e
      in (push_bit 12 (hex_tlb_phys_page_num e) AND NOT (mask n)) OR take_bit n (ucast va))"

definition current_asid :: "'d mmu \<Rightarrow> u32" where
  "current_asid m = ucast (GET_FIELD (getssr m) SSR_ASID)"

definition user_mode :: "'d mmu \<Rightarrow> bool" where
  "user_mode m \<longleftrightarrow> bit (getssr m) 16 \<and> \<not> bit (getssr m) 17"

text \<open>Taking an exception and returning from it.\<close>

definition take_exception :: "u32 \<Rightarrow> u32 \<Rightarrow> 'd mmu \<Rightarrow> 'd mmu" where
  "take_exception cause va m = setssr (m\<lparr>badva := va\<rparr>) (set_bit 17 (SET_FIELD (getssr m) SSR_CAUSE (ucast cause)))"

definition rte :: "'d mmu \<Rightarrow> 'd mmu" where
  "rte m = setssr m (unset_bit 17 (getssr m))"

text \<open>
  The error handler is the one of the event vector in use: that of the test when \<open>evb\<close> is its table, else the
  one of the runtime.  \<open>None\<close>: the address has no entry, and the refill of the runtime decides, or
  the handler does not return, or the access faults for ever.
\<close>

definition error_handler ::
  "'d tlb_ops \<Rightarrow> u32 \<Rightarrow> (u32 \<Rightarrow> 'd mmu \<Rightarrow> ('d mmu, 'd mmu) outcome) \<Rightarrow> 'd mmu \<Rightarrow> u32 \<Rightarrow> ('d mmu, 'd mmu) outcome" where
  "error_handler hw my_event_vectors runtime m =
     (\<lambda>ssr. if evb m = my_event_vectors then my_event_handle_error_helper hw ssr m else runtime ssr m)"

partial_function (option) mem_access ::
  "'d tlb_ops \<Rightarrow> check_unit \<Rightarrow> ('d mmu \<Rightarrow> u32 \<Rightarrow> ('d mmu, 'd mmu) outcome) \<Rightarrow> access \<Rightarrow> u32 \<Rightarrow> 'd mmu \<Rightarrow> ('d mmu \<times> u64) option" where
  "mem_access hw fault handler acc va m =
     (let i = tlbp hw m (current_asid m) va
      in if i = TLB_NOT_FOUND then None
         else let e = tlbr hw m i
         in case fault acc (user_mode m) e of
              None \<Rightarrow> Some (m, tlb_translate e va)
            | Some cause \<Rightarrow>
                let m = take_exception cause va m
                in case handler m (getssr m) of
                     Ok m \<Rightarrow> mem_access hw fault handler acc va (rte m)
                   | _ \<Rightarrow> None)"

section \<open>The check of the permissions\<close>

locale access_check =
  fixes fault :: check_unit
  assumes fault_None: "fault acc um e = None \<longleftrightarrow> missing_causes acc um e = {}"
    and fault_Some: "fault acc um e = Some c \<Longrightarrow> c \<in> missing_causes acc um e"

definition first_fault :: check_unit where
  "first_fault acc um e =
     (if GET_FIELD e (access_field acc) = 0 then Some (access_cause acc)
      else if um \<and> GET_FIELD e PTE_U = 0 then Some (user_cause acc) else None)"

interpretation first: access_check first_fault
  by unfold_locales (auto simp: first_fault_def missing_causes_def split: if_splits)

definition user_first_fault :: check_unit where
  "user_first_fault acc um e =
     (if um \<and> GET_FIELD e PTE_U = 0 then Some (user_cause acc)
      else if GET_FIELD e (access_field acc) = 0 then Some (access_cause acc) else None)"

interpretation user_first: access_check user_first_fault
  by unfold_locales (auto simp: user_first_fault_def missing_causes_def split: if_splits)

section \<open>The repair of an access\<close>

text \<open>Adding a permission is setting one bit.\<close>

definition perm_bit :: "reg_fields_enum \<Rightarrow> nat" where
  "perm_bit f = offset (reg_field_info f)"

lemma bit_SET_FIELD_1:
  assumes "width (reg_field_info f) = 1" "perm_bit f < 64"
  shows "bit (SET_FIELD (e :: u64) f 1) i \<longleftrightarrow> bit e i \<or> i = perm_bit f"
proof (cases "i = perm_bit f")
  case True
  then show ?thesis using assms by (simp add: SET_FIELD_def bit_fINSERT_BITS perm_bit_def)
next
  case False
  then show ?thesis using assms by (subst bit_SET_FIELD_outside) (auto simp: perm_bit_def)
qed

lemma GET_FIELD_perm: "width (reg_field_info f) = 1 \<Longrightarrow> GET_FIELD (e :: u64) f = 0 \<longleftrightarrow> \<not> bit e (perm_bit f)"
  by (auto simp: GET_FIELD_def bit_fEXTRACTU_BITS perm_bit_def bit_eq_iff [of "fEXTRACTU_BITS e _ _"] dest: spec [of _ 0])

lemma access_perm [simp]:
  "width (reg_field_info (access_field acc)) = 1" "perm_bit (access_field acc) \<in> {29..31}" "perm_bit PTE_U = 28"
  "perm_bit (access_field acc) < 64" "perm_bit (access_field acc) \<noteq> 28"
  by (cases acc; simp add: perm_bit_def)+

lemma missing_causes_bits:
  "missing_causes acc um e =
     (if bit e (perm_bit (access_field acc)) then {} else {access_cause acc}) \<union>
     (if um \<and> \<not> bit e 28 then {user_cause acc} else {})"
  by (simp add: missing_causes_def GET_FIELD_perm)

lemma perm_field_causes [simp]:
  "perm_field (access_cause acc) = Some (access_field acc)" "perm_field (user_cause acc) = Some PTE_U"
  "access_cause acc \<noteq> user_cause acc" "unat (access_cause acc) < 128" "unat (user_cause acc) < 128"
  by (cases acc; simp add: perm_field_def cause_defs)+

text \<open>An entry with the permissions of an access added.\<close>

definition grant :: "access \<Rightarrow> bool \<Rightarrow> u64 \<Rightarrow> u64" where
  "grant acc um e = set_bit (perm_bit (access_field acc)) (if um then set_bit 28 e else e)"

lemma bit_grant: "bit (grant acc um e) i \<longleftrightarrow> bit e i \<or> i = perm_bit (access_field acc) \<or> um \<and> i = 28"
  using access_perm(4) [of acc] by (auto simp: grant_def bit_set_bit_iff)

lemma grant_id: "missing_causes acc um e = {} \<Longrightarrow> grant acc um e = e"
  by (rule bit_word_eqI) (auto simp: bit_grant missing_causes_bits split: if_splits)

lemma missing_cause_step:
  assumes "c \<in> missing_causes acc um e"
  obtains f where "perm_field c = Some f" "grant acc um (SET_FIELD e f 1) = grant acc um e"
    "missing_causes acc um (SET_FIELD e f 1) = missing_causes acc um e - {c}" "perm_bit f \<in> {28..31}"
    "width (reg_field_info f) = 1"
proof -
  consider "c = access_cause acc" "\<not> bit e (perm_bit (access_field acc))"
    | "c = user_cause acc" um "\<not> bit e 28"
    using assms by (auto simp: missing_causes_bits split: if_splits)
  then show thesis
  proof cases
    case 1
    let ?e = "SET_FIELD e (access_field acc) 1"
    have b: "bit ?e i \<longleftrightarrow> bit e i \<or> i = perm_bit (access_field acc)" for i by (rule bit_SET_FIELD_1) simp_all
    have "grant acc um ?e = grant acc um e" by (rule bit_word_eqI) (auto simp: bit_grant b)
    moreover have "missing_causes acc um ?e = missing_causes acc um e - {c}"
      using 1 access_perm(5) [of acc] perm_field_causes(3) [of acc] by (simp add: missing_causes_bits b)
    moreover have "perm_bit (access_field acc) \<in> {28..31}" using access_perm(2) [of acc] by simp
    ultimately show thesis using that [of "access_field acc"] 1 by simp
  next
    case 2
    let ?e = "SET_FIELD e PTE_U 1"
    have b: "bit ?e i \<longleftrightarrow> bit e i \<or> i = 28" for i using bit_SET_FIELD_1 [of PTE_U e i] by simp
    have "grant acc um ?e = grant acc um e" using 2 by (intro bit_word_eqI) (auto simp: bit_grant b)
    moreover have "missing_causes acc um ?e = missing_causes acc um e - {c}"
      using 2 access_perm(5) [of acc] perm_field_causes(3) [of acc] by (auto simp: missing_causes_bits b)
    ultimately show thesis using that [of PTE_U] 2 by simp
  qed
qed

text \<open>An entry keeps its page when its permissions change.\<close>

lemma ctz_bits: "ctz w < LENGTH('a) \<Longrightarrow> bit (w :: 'a::len word) (ctz w) \<and> (\<forall>i < ctz w. \<not> bit w i)"
proof -
  let ?P = "\<lambda>i. \<not> bit w i"
  assume lt: "ctz w < LENGTH('a)"
  then have "\<not> ?P ([0..<LENGTH('a)] ! length (takeWhile ?P [0..<LENGTH('a)]))"
    by (intro nth_length_takeWhile) (simp add: ctz_def)
  moreover have "?P i" if "i < ctz w" for i
    using that lt set_takeWhileD [of i ?P "[0..<LENGTH('a)]"] takeWhile_nth [of i ?P "[0..<LENGTH('a)]"]
      nth_mem [of i "takeWhile ?P [0..<LENGTH('a)]"] by (simp add: ctz_def)
  ultimately show ?thesis using lt by (simp add: ctz_def)
qed

lemma ctz_cong:
  assumes "ctz (e :: u64) < 28" "\<And>i. i < 28 \<Longrightarrow> bit (e' :: u64) i = bit e i"
  shows "ctz e' = ctz e"
  using ctz_bits [of e] assms by (intro ctz_eqI) auto

lemma entry_cong:
  assumes "ctz (e :: u64) < 28" "\<And>i. i < 28 \<or> 32 \<le> i \<Longrightarrow> bit (e' :: u64) i = bit e i"
  shows "tlb_entry_matches x e' = tlb_entry_matches x e" "tlb_translate e' va = tlb_translate e va"
proof -
  have ctz: "ctz e' = ctz e" using assms by (intro ctz_cong) simp_all
  have "get_member e' ASID = get_member e ASID" "get_member e' VirtualPage = get_member e VirtualPage"
    by (rule bit_word_eqI; simp add: bit_get_member assms(2))+
  then show "tlb_entry_matches x e' = tlb_entry_matches x e" by (simp add: tlb_entry_matches_def ctz assms(2))
  have "hex_tlb_phys_page_num e' = hex_tlb_phys_page_num e"
    by (rule bit_word_eqI) (simp add: bit_phys_page_num assms(2) cong: conj_cong)
  then show "tlb_translate e' va = tlb_translate e va" by (simp add: tlb_translate_def ctz)
qed

section \<open>The exception of an access\<close>

text \<open>The state after the exception of a fault: the error handler of \<^verbatim>\<open>include/mmu.h\<close> and the return.\<close>

definition repair :: "'d tlb_ops \<Rightarrow> u32 \<Rightarrow> u32 \<Rightarrow> reg_fields_enum \<Rightarrow> 'd mmu \<Rightarrow> 'd mmu" where
  "repair hw va c f m =
     (let m = record_exception (take_exception c va m) c
      in rte (tlbw hw m (SET_FIELD (tlbr hw m (tlb_entry_num va)) f 1) (tlb_entry_num va)))"

lemma repair_frame:
  "evb (repair hw va c f m) = evb m" "old_evb (repair hw va c f m) = old_evb m" "badva (repair hw va c f m) = va"
  "dev (rt (repair hw va c f m)) = op_tlbw hw (dev (rt m)) (SET_FIELD (tlbr hw m (tlb_entry_num va)) f 1) (tlb_entry_num va)"
  "tlb_fixed_entries (rt (repair hw va c f m)) = tlb_fixed_entries (rt m)"
  "my_exceptions (repair hw va c f m) = set_exception_vector_bit (my_exceptions m) c"
  "getssr (repair hw va c f m) = unset_bit 17 (set_bit 17 (SET_FIELD (getssr m) SSR_CAUSE (ucast c)))"
  by (simp_all add: repair_def Let_def rte_def setssr_def getssr_def tlbw_def tlbr_def record_exception_def take_exception_def)

lemma bit_repair_ssr:
  "8 \<le> i \<Longrightarrow> i \<noteq> 17 \<Longrightarrow> bit (getssr (repair hw va c f m)) i = bit (getssr m) i"
  "\<not> bit (getssr (repair hw va c f m)) 17"
  by (cases "i < 32"; auto simp: repair_frame bit_unset_bit_iff bit_set_bit_iff SET_FIELD_def bit_fINSERT_BITS dest: bit_imp_le_length)+

lemma asid_cong:
  assumes "\<And>i. 8 \<le> i \<Longrightarrow> i < 15 \<Longrightarrow> bit (getssr m') i = bit (getssr m) i"
  shows "current_asid m' = current_asid m"
proof -
  have "GET_FIELD (getssr m') SSR_ASID = GET_FIELD (getssr m) SSR_ASID"
    using assms by (intro bit_word_eqI) (auto simp: GET_FIELD_def bit_fEXTRACTU_BITS)
  then show ?thesis by (simp add: current_asid_def)
qed

lemma repair_modes:
  "current_asid (repair hw va c f m) = current_asid m"
  "\<not> bit (getssr m) 17 \<Longrightarrow> user_mode (repair hw va c f m) = user_mode m"
  using bit_repair_ssr(1) [of _ hw va c f m] bit_repair_ssr(2) [of hw va c f m] by (auto simp: user_mode_def intro: asid_cong)

lemma ssr_cause_written:
  assumes "unat c < 256"
  shows "ucast (GET_FIELD (set_bit 17 (SET_FIELD (ssr :: u32) SSR_CAUSE (ucast (c :: u32)))) SSR_CAUSE) = c"
proof (rule bit_word_eqI)
  fix i :: nat assume "i < LENGTH(32)"
  moreover have "bit c i \<Longrightarrow> i < 8" using assms bit_beyond_unat [of c 8 i] by (cases "i < 8") auto
  ultimately show "bit (ucast (GET_FIELD (set_bit 17 (SET_FIELD ssr SSR_CAUSE (ucast c))) SSR_CAUSE) :: u32) i = bit c i"
    by (auto simp: bit_ucast_iff GET_FIELD_def bit_fEXTRACTU_BITS bit_set_bit_iff SET_FIELD_def bit_fINSERT_BITS)
qed

lemma error_handler_repairs:
  assumes "evb m = vec" "perm_field c = Some f" "unat c < 256"
  shows "\<exists>m'. error_handler hw vec runtime (take_exception c va m) (getssr (take_exception c va m)) = Ok m' \<and>
    rte m' = repair hw va c f m"
proof -
  let ?m = "take_exception c va m"
  have "ucast (GET_FIELD (getssr ?m) SSR_CAUSE) = c"
    using ssr_cause_written [OF assms(3)] by (simp add: take_exception_def getssr_def setssr_def)
  moreover have "badva ?m = va" "evb ?m = vec" using assms(1) by (simp_all add: take_exception_def setssr_def)
  ultimately show ?thesis using assms(2)
    by (simp add: error_handler_def error_helper_cases Let_def repair_def)
qed

lemma perm_field_cause: "perm_field c = Some f \<Longrightarrow> unat c < 128"
  by (rule perm_field_SomeD)

section \<open>Every access is repaired\<close>

text \<open>The one entry of an address is that of its megabyte, and it holds a page size.\<close>

definition own_entry :: "'d tlb_ops \<Rightarrow> ('d \<Rightarrow> u32 \<Rightarrow> bool) \<Rightarrow> u32 \<Rightarrow> 'd mmu \<Rightarrow> bool" where
  "own_entry hw ok va m \<longleftrightarrow>
     ok (dev (rt m)) (tlb_entry_num va) \<and> ctz (tlbr hw m (tlb_entry_num va)) < 24 \<and>
     (\<forall>j. ok (dev (rt m)) j \<longrightarrow>
        (tlb_entry_matches (mmu_key (current_asid m) va) (tlbr hw m j) \<longleftrightarrow> j = tlb_entry_num va))"

lemma tlb_entry_num_found: "tlb_entry_num va \<noteq> TLB_NOT_FOUND"
proof
  assume "tlb_entry_num va = TLB_NOT_FOUND"
  then have "bit (tlb_entry_num va) 31" by (simp add: TLB_NOT_FOUND_def)
  then show False using bit_imp_le_length [of va 51] by (auto simp: tlb_entry_num_def bit_drop_bit_eq)
qed

context tlb_device
begin

lemma own_entry_probe: "own_entry hw ok va m \<Longrightarrow> tlbp hw m (current_asid m) va = tlb_entry_num va"
  unfolding tlbp_def mmu_key_def [symmetric] by (rule probe_unique) (auto simp: own_entry_def tlbr_def)

lemma repair_entry:
  assumes "ok (dev (rt m)) (tlb_entry_num va)" "ok (dev (rt m)) j"
  shows "tlbr hw (repair hw va c f m) j =
    (if j = tlb_entry_num va then SET_FIELD (tlbr hw m j) f 1 else tlbr hw m j)"
  using assms by (auto simp: tlbr_def repair_frame rd_wr_same rd_wr_other)

lemma repair_own_entry:
  assumes own: "own_entry hw ok va m" and f: "perm_bit f \<in> {28..31}" "width (reg_field_info f) = 1"
  shows "own_entry hw ok va (repair hw va c f m)"
    "tlb_translate (tlbr hw (repair hw va c f m) (tlb_entry_num va)) va = tlb_translate (tlbr hw m (tlb_entry_num va)) va"
proof -
  let ?n = "tlb_entry_num va" and ?m = "repair hw va c f m"
  let ?e = "tlbr hw m ?n" and ?e' = "SET_FIELD (tlbr hw m ?n) f 1"
  have n: "ok (dev (rt m)) ?n" "ctz ?e < 24" using own by (simp_all add: own_entry_def)
  have ok: "ok (dev (rt ?m)) j = ok (dev (rt m)) j" for j by (simp add: repair_frame ok_wr)
  have b: "bit ?e' i = bit ?e i" if "i < 28 \<or> 32 \<le> i" for i using f that by (subst bit_SET_FIELD_1) auto
  have cong: "tlb_entry_matches x ?e' = tlb_entry_matches x ?e" "tlb_translate ?e' va = tlb_translate ?e va" for x
    by (rule entry_cong; use n(2) b in simp)+
  have ctz: "ctz ?e' = ctz ?e" using n(2) b by (intro ctz_cong) simp_all
  show "own_entry hw ok va ?m"
    using own by (auto simp: own_entry_def ok repair_entry [OF n(1)] cong ctz repair_modes)
  show "tlb_translate (tlbr hw ?m ?n) va = tlb_translate ?e va" by (simp add: repair_entry [OF n(1) n(1)] cong)
qed

end

text \<open>What an access leaves behind: its entry has the permissions, nothing else of the TLB has changed, and the causes of the
  missing permissions are recorded.\<close>

definition repaired :: "'d tlb_ops \<Rightarrow> ('d \<Rightarrow> u32 \<Rightarrow> bool) \<Rightarrow> access \<Rightarrow> u32 \<Rightarrow> 'd mmu \<Rightarrow> 'd mmu \<Rightarrow> bool" where
  "repaired hw ok acc va m m' \<longleftrightarrow>
     (\<forall>j. ok (dev (rt m')) j = ok (dev (rt m)) j) \<and>
     (\<forall>j. ok (dev (rt m)) j \<longrightarrow> tlbr hw m' j =
        (if j = tlb_entry_num va then grant acc (user_mode m) (tlbr hw m j) else tlbr hw m j)) \<and>
     excp_set (my_exceptions m') = excp_set (my_exceptions m) \<union> unat ` missing_causes acc (user_mode m) (tlbr hw m (tlb_entry_num va)) \<and>
     evb m' = evb m \<and> tlb_fixed_entries (rt m') = tlb_fixed_entries (rt m) \<and>
     current_asid m' = current_asid m \<and> \<not> bit (getssr m') 17 \<and> user_mode m' = user_mode m"

lemma repaired_step:
  assumes hw: "tlb_device hw ok" and own: "own_entry hw ok va m" and ex: "\<not> bit (getssr m) 17"
    and f: "perm_field c = Some f"
      "grant acc (user_mode m) (SET_FIELD e f 1) = grant acc (user_mode m) e"
      "missing_causes acc (user_mode m) (SET_FIELD e f 1) = missing_causes acc (user_mode m) e - {c}"
    and c: "c \<in> missing_causes acc (user_mode m) e" and e: "e = tlbr hw m (tlb_entry_num va)"
    and r: "repaired hw ok acc va (repair hw va c f m) m'"
  shows "repaired hw ok acc va m m'"
proof -
  let ?m = "repair hw va c f m" and ?n = "tlb_entry_num va"
  have n: "ok (dev (rt m)) ?n" using own by (simp add: own_entry_def)
  note rd = tlb_device.repair_entry [OF hw n]
  have ok: "ok (dev (rt ?m)) j = ok (dev (rt m)) j" for j
    by (simp add: repair_frame tlb_device.ok_wr [OF hw])
  have um: "user_mode ?m = user_mode m" using ex by (rule repair_modes)
  have "excp_set (my_exceptions m') = insert (unat c) (excp_set (my_exceptions m)) \<union>
      unat ` (missing_causes acc (user_mode m) e - {c})"
    using r f(1, 3) e rd [OF n] perm_field_cause [OF f(1)]
    by (simp add: repaired_def um repair_frame excp_set_insert)
  also have "\<dots> = excp_set (my_exceptions m) \<union> unat ` missing_causes acc (user_mode m) e" using c by auto
  finally have ex': "excp_set (my_exceptions m') = excp_set (my_exceptions m) \<union> unat ` missing_causes acc (user_mode m) e" .
  have "tlbr hw m' j = (if j = ?n then grant acc (user_mode m) (tlbr hw m j) else tlbr hw m j)" if "ok (dev (rt m)) j" for j
  proof -
    have "tlbr hw m' j = (if j = ?n then grant acc (user_mode ?m) (tlbr hw ?m j) else tlbr hw ?m j)"
      using r that ok unfolding repaired_def by blast
    then show ?thesis using rd [OF that] f(2) e by (cases "j = ?n") (simp_all add: um)
  qed
  moreover have "ok (dev (rt m')) j = ok (dev (rt m)) j" "evb m' = evb m" "tlb_fixed_entries (rt m') = tlb_fixed_entries (rt m)"
      "current_asid m' = current_asid m" "\<not> bit (getssr m') 17" "user_mode m' = user_mode m" for j
    using r by (simp_all add: repaired_def ok um repair_frame(1, 5) repair_modes(1))
  ultimately show ?thesis using ex' e by (simp add: repaired_def)
qed

lemma access_repaired:
  assumes hw: "tlb_device hw ok" and fault: "access_check fault"
    and "own_entry hw ok va m" "evb m = vec" "\<not> bit (getssr m) 17"
  shows "\<exists>m'. mem_access hw fault (error_handler hw vec runtime) acc va m =
      Some (m', tlb_translate (tlbr hw m (tlb_entry_num va)) va) \<and> repaired hw ok acc va m m'"
  using assms(3-5)
proof (induction "card (missing_causes acc (user_mode m) (tlbr hw m (tlb_entry_num va)))" arbitrary: m rule: less_induct)
  case less
  let ?n = "tlb_entry_num va" and ?um = "user_mode m"
  let ?e = "tlbr hw m ?n"
  have probe: "tlbp hw m (current_asid m) va = ?n" using tlb_device.own_entry_probe [OF hw less.prems(1)] .
  have fin: "finite (missing_causes acc ?um ?e)" by (simp add: missing_causes_def)
  show ?case
  proof (cases "fault acc ?um ?e")
    case None
    then have none: "missing_causes acc ?um ?e = {}" using access_check.fault_None [OF fault] by blast
    then have "repaired hw ok acc va m m" using less.prems(3) by (simp add: repaired_def grant_id)
    then show ?thesis using None probe
      by (subst mem_access.simps) (simp add: Let_def tlb_entry_num_found)
  next
    case (Some c)
    then have c: "c \<in> missing_causes acc ?um ?e" using access_check.fault_Some [OF fault] by blast
    obtain f where f: "perm_field c = Some f" "grant acc ?um (SET_FIELD ?e f 1) = grant acc ?um ?e"
        "missing_causes acc ?um (SET_FIELD ?e f 1) = missing_causes acc ?um ?e - {c}" "perm_bit f \<in> {28..31}"
        "width (reg_field_info f) = 1"
      using c by (rule missing_cause_step)
    let ?m = "repair hw va c f m"
    have own: "own_entry hw ok va ?m" and tr: "tlb_translate (tlbr hw ?m ?n) va = tlb_translate ?e va"
      using tlb_device.repair_own_entry [OF hw less.prems(1) f(4, 5)] by simp_all
    have rd: "tlbr hw ?m ?n = SET_FIELD ?e f 1"
      using less.prems(1) by (simp add: own_entry_def tlb_device.repair_entry [OF hw])
    have um: "user_mode ?m = ?um" using less.prems(3) by (rule repair_modes)
    have "card (missing_causes acc (user_mode ?m) (tlbr hw ?m ?n)) < card (missing_causes acc ?um ?e)"
      unfolding um rd f(3) using fin c by (rule card_Diff1_less)
    from less.hyps [OF this own] obtain m' where
      m': "mem_access hw fault (error_handler hw vec runtime) acc va ?m = Some (m', tlb_translate ?e va)"
      "repaired hw ok acc va ?m m'"
      using less.prems(2) bit_repair_ssr(2) [of hw va c f m] by (auto simp: repair_frame(1) tr)
    obtain m1 where "error_handler hw vec runtime (take_exception c va m) (getssr (take_exception c va m)) = Ok m1" "rte m1 = ?m"
      using error_handler_repairs [OF less.prems(2) f(1)] perm_field_cause [OF f(1)] by fastforce
    then have "mem_access hw fault (error_handler hw vec runtime) acc va m = Some (m', tlb_translate ?e va)"
      using m'(1) Some probe by (subst mem_access.simps) (simp add: Let_def tlb_entry_num_found)
    then show ?thesis using repaired_step [OF hw less.prems(1, 3) f(1-3) c refl m'(2)] by blast
  qed
qed

end
