(* ===== verification/Mmu_Tests.thy ===== *)
theory Mmu_Tests
  imports Mmu_Access
begin

text \<open>
  The programs \<^verbatim>\<open>src/mmu_page_size.c\<close> and \<^verbatim>\<open>src/mmu_permissions.c\<close>, composed of the helpers of
  \<^verbatim>\<open>include/mmu.h\<close>, the runtime and accesses through the TLB.  The record \<open>board\<close> holds what the
  programs run on: the TLB, the check of the permissions, the error handler of the runtime and the addresses of the
  symbols.  A program is a function in the option monad: \<open>None\<close> when it does not come to its end.
\<close>

section \<open>State\<close>

record 'd board =
  tlb :: "'d tlb_ops"
  perm_check :: check_unit
  runtime_error :: "u32 \<Rightarrow> 'd mmu \<Rightarrow> ('d mmu, 'd mmu) outcome"
  my_event_vectors :: u32
  arch_rev :: nat
  data :: u32
  func_return_pc :: u32

record 'd mtest =
  mmu :: "'d mmu"
  phys :: "u64 \<Rightarrow> u32"
  chk :: checks

definition TWO_MB :: u32 where "TWO_MB = 2 * ONE_MB"
definition THREE_MB :: u32 where "THREE_MB = 3 * ONE_MB"
definition FOUR_MB :: u32 where "FOUR_MB = 4 * ONE_MB"
definition FIVE_MB :: u32 where "FIVE_MB = 5 * ONE_MB"
definition TLB_U :: u8 where "TLB_U = push_bit 0 1"
definition TLB_R :: u8 where "TLB_R = push_bit 1 1"
definition TLB_W :: u8 where "TLB_W = push_bit 2 1"
definition TLB_X :: u8 where "TLB_X = push_bit 3 1"

section \<open>Steps of a test\<close>

definition access_va :: "'d board \<Rightarrow> access \<Rightarrow> u32 \<Rightarrow> 'd mtest \<Rightarrow> (u64 \<times> 'd mtest) option" where
  "access_va b acc va s =
     do { (m, pa) \<leftarrow> mem_access (tlb b) (perm_check b) (error_handler (tlb b) (my_event_vectors b) (runtime_error b)) acc va (mmu s);
          Some (pa, s\<lparr>mmu := m\<rparr>) }"

definition read_var :: "'d board \<Rightarrow> u32 \<Rightarrow> 'd mtest \<Rightarrow> (u32 \<times> 'd mtest) option" where
  "read_var b va s = do { (pa, s) \<leftarrow> access_va b Read va s; Some (phys s pa, s) }"

definition write_var :: "'d board \<Rightarrow> u32 \<Rightarrow> u32 \<Rightarrow> 'd mtest \<Rightarrow> 'd mtest option" where
  "write_var b va v s = do { (pa, s) \<leftarrow> access_va b Write va s; Some (s\<lparr>phys := (phys s)(pa := v)\<rparr>) }"

text \<open>A call of an address that \<open>func_return_pc\<close> is mapped at: its first instruction reads the program counter, its second
  returns.\<close>

definition call_func :: "'d board \<Rightarrow> u32 \<Rightarrow> 'd mtest \<Rightarrow> (u32 \<times> 'd mtest) option" where
  "call_func b va s =
     do { (pa, s) \<leftarrow> access_va b Fetch va s;
          (pa', s) \<leftarrow> access_va b Fetch (va + 4) s;
          if pa = ucast (func_return_pc b) \<and> pa' = ucast (func_return_pc b + 4) then Some (va, s) else None }"

definition map_page :: "'d board \<Rightarrow> u32 \<Rightarrow> u32 \<Rightarrow> u32 \<Rightarrow> u32 \<Rightarrow> u8 \<Rightarrow> 'd mtest \<Rightarrow> 'd mtest option" where
  "map_page b index va pa page_size xwru s =
     (case add_trans (arch_rev b) (tlb b) (mmu s) index va (ucast pa) page_size xwru 0 1 1 of
        Ok m \<Rightarrow> Some (s\<lparr>mmu := m\<rparr>) | _ \<Rightarrow> None)"

definition unmap_page :: "'d board \<Rightarrow> u32 \<Rightarrow> 'd mtest \<Rightarrow> 'd mtest" where
  "unmap_page b index s = s\<lparr>mmu := remove_trans (tlb b) (mmu s) index\<rparr>"

definition chk32 :: "int \<Rightarrow> u32 \<Rightarrow> u32 \<Rightarrow> 'd mtest \<Rightarrow> 'd mtest" where
  "chk32 line val expect s = s\<lparr>chk := check32 line val expect (chk s)\<rparr>"

definition chk_tlbp :: "int \<Rightarrow> 'd board \<Rightarrow> u32 \<Rightarrow> u32 \<Rightarrow> 'd mtest \<Rightarrow> 'd mtest" where
  "chk_tlbp line b va expect s = chk32 line (tlbp (tlb b) (mmu s) 0 va) expect s"

definition chk_read :: "int \<Rightarrow> 'd board \<Rightarrow> u32 \<Rightarrow> u32 \<Rightarrow> 'd mtest \<Rightarrow> 'd mtest option" where
  "chk_read line b va expect s = do { (v, s) \<leftarrow> read_var b va s; Some (chk32 line v expect s) }"

definition chk_call :: "int \<Rightarrow> 'd board \<Rightarrow> u32 \<Rightarrow> u32 \<Rightarrow> 'd mtest \<Rightarrow> 'd mtest option" where
  "chk_call line b va expect s = do { (v, s) \<leftarrow> call_func b va s; Some (chk32 line v expect s) }"

definition check_exception_vector :: "int \<Rightarrow> u64 \<times> u64 \<Rightarrow> u64 \<times> u64 \<Rightarrow> 'd mtest \<Rightarrow> 'd mtest" where
  "check_exception_vector line excp expect s =
     s\<lparr>chk := check64 line (snd excp) (snd expect) (check64 line (fst excp) (fst expect) (chk s))\<rparr>"

definition test_end :: "'d mtest \<Rightarrow> int \<times> string" where
  "test_end s = (err (chk s), if err (chk s) \<noteq> 0 then ''FAIL'' else ''PASS'')"

section \<open>The page size test\<close>

definition test_page_size :: "'d board \<Rightarrow> u32 \<Rightarrow> nat \<Rightarrow> 'd mtest \<Rightarrow> 'd mtest option" where
  "test_page_size b pgsize page_size_bits s =
     (let page_size = push_bit page_size_bits 1;
          addr = data b;
          page = page_start addr page_size_bits;
          offs = (if page_size \<le> ONE_MB then FIVE_MB else page_size);
          new_page = page + offs;
          new_addr = addr + offs;
          f = func_return_pc b
      in do {
        s \<leftarrow> write_var b (data b) 0xdeadbeef s;
        s \<leftarrow> map_page b 1 new_page page pgsize (TLB_X OR TLB_W OR TLB_R OR TLB_U) s;
        let s = chk_tlbp 56 b new_addr 1 s;
        s \<leftarrow> chk_read 59 b new_addr 0xdeadbeef s;
        s \<leftarrow> write_var b new_addr 0xcafebabe s;
        s \<leftarrow> chk_read 63 b (data b) 0xcafebabe s;
        let s = unmap_page b 1 s;
        let s = chk_tlbp 67 b new_addr TLB_NOT_FOUND s;
        let addr = f;
        let page = page_start addr page_size_bits;
        let offs = (if page_size \<le> ONE_MB then FIVE_MB else page_size);
        let new_page = page + offs;
        let new_addr = addr + offs;
        s \<leftarrow> map_page b 2 new_page page pgsize (TLB_X OR TLB_W OR TLB_R OR TLB_U) s;
        let s = chk_tlbp 85 b new_addr 2 s;
        s \<leftarrow> chk_call 92 b new_addr new_addr s;
        let s = unmap_page b 2 s;
        Some (chk_tlbp 96 b new_addr TLB_NOT_FOUND s)
      })"

definition mmu_page_size_main :: "'d board \<Rightarrow> 'd mtest \<Rightarrow> ((int \<times> string) \<times> 'd mtest) option" where
  "mmu_page_size_main b s =
     do {
       s \<leftarrow> test_page_size b (PageSize SHIFT_4K) 12 s;
       s \<leftarrow> test_page_size b (PageSize SHIFT_16K) 14 s;
       s \<leftarrow> test_page_size b (PageSize SHIFT_64K) 16 s;
       s \<leftarrow> test_page_size b (PageSize SHIFT_256K) 18 s;
       s \<leftarrow> test_page_size b (PageSize SHIFT_1M) 20 s;
       s \<leftarrow> test_page_size b (PageSize SHIFT_4M) 22 s;
       s \<leftarrow> test_page_size b (PageSize SHIFT_16M) 24 s;
       s \<leftarrow> test_page_size b (PageSize SHIFT_64M) 26 s;
       s \<leftarrow> test_page_size b (PageSize SHIFT_256M) 28 s;
       s \<leftarrow> test_page_size b (PageSize SHIFT_1G) 30 s;
       Some (test_end s, s)
     }"

section \<open>The permissions test\<close>

definition test_permissions :: "'d board \<Rightarrow> 'd mtest \<Rightarrow> 'd mtest option" where
  "test_permissions b s =
     (let data_addr = data b;
          data_page = page_start data_addr TARGET_PAGE_BITS;
          data_offset = ONE_MB;
          new_data_page = data_page + data_offset;
          read_data_addr = data_addr + data_offset;
          data_perm = TLB_X OR TLB_W OR TLB_U;
          func_addr = func_return_pc b;
          func_page = page_start func_addr TARGET_PAGE_BITS;
          func_offset = FIVE_MB;
          new_func_page = func_page + func_offset;
          exec_addr = func_addr + func_offset;
          func_perm = TLB_W OR TLB_R
      in do {
        let s = s\<lparr>mmu := (mmu s)\<lparr>my_exceptions := clear_exception_vector (my_exceptions (mmu s))\<rparr>\<rparr>;
        s \<leftarrow> write_var b (data b) 0xdeadbeef s;
        s \<leftarrow> map_page b 1 new_data_page data_page (PageSize SHIFT_4K) data_perm s;
        let s = chk_tlbp 56 b read_data_addr 1 s;
        let data_offset = TWO_MB;
        let new_data_page = data_page + data_offset;
        let read_user_data_addr = data_addr + data_offset;
        let data_perm = TLB_X OR TLB_W OR TLB_R;
        s \<leftarrow> map_page b 2 new_data_page data_page (PageSize SHIFT_4K) data_perm s;
        let s = chk_tlbp 64 b read_user_data_addr 2 s;
        let data_offset = THREE_MB;
        let new_data_page = data_page + data_offset;
        let write_data_addr = data_addr + data_offset;
        let data_perm = TLB_X OR TLB_R OR TLB_U;
        s \<leftarrow> map_page b 3 new_data_page data_page (PageSize SHIFT_4K) data_perm s;
        let s = chk_tlbp 72 b write_data_addr 3 s;
        let data_offset = FOUR_MB;
        let new_data_page = data_page + data_offset;
        let write_user_data_addr = data_addr + data_offset;
        let data_perm = TLB_X OR TLB_R OR TLB_W;
        s \<leftarrow> map_page b 4 new_data_page data_page (PageSize SHIFT_4K) data_perm s;
        let s = chk_tlbp 80 b write_user_data_addr 4 s;
        s \<leftarrow> map_page b 5 new_func_page func_page (PageSize SHIFT_4K) func_perm s;
        let s = chk_tlbp 84 b exec_addr 5 s;
        let s = s\<lparr>mmu := install_my_event_vectors (my_event_vectors b) (mmu s)\<rparr>;
        let s = s\<lparr>mmu := enter_user_mode (mmu s)\<rparr>;
        s \<leftarrow> chk_read 90 b read_data_addr 0xdeadbeef s;
        s \<leftarrow> chk_read 91 b read_user_data_addr 0xdeadbeef s;
        let p = write_data_addr;
        s \<leftarrow> write_var b p 0xc0ffee s;
        let p = p + 4;
        s \<leftarrow> chk_read 98 b (data b) 0xc0ffee s;
        let s = chk32 99 p (write_data_addr + 4) s;
        s \<leftarrow> write_var b write_user_data_addr 0xc0ffee s;
        s \<leftarrow> chk_read 102 b (data b) 0xc0ffee s;
        s \<leftarrow> chk_call 105 b exec_addr exec_addr s;
        let expected_exceptions = clear_exception_vector (0, 0);
        let expected_exceptions = set_exception_vector_bit expected_exceptions HEX_CAUSE_FETCH_NO_XPAGE;
        let expected_exceptions = set_exception_vector_bit expected_exceptions HEX_CAUSE_FETCH_NO_UPAGE;
        let expected_exceptions = set_exception_vector_bit expected_exceptions HEX_CAUSE_PRIV_NO_READ;
        let expected_exceptions = set_exception_vector_bit expected_exceptions HEX_CAUSE_PRIV_NO_WRITE;
        let expected_exceptions = set_exception_vector_bit expected_exceptions HEX_CAUSE_PRIV_NO_UREAD;
        let expected_exceptions = set_exception_vector_bit expected_exceptions HEX_CAUSE_PRIV_NO_UWRITE;
        Some (check_exception_vector 119 (my_exceptions (mmu s)) expected_exceptions s)
      })"

definition mmu_permissions_main :: "'d board \<Rightarrow> 'd mtest \<Rightarrow> ((int \<times> string) \<times> 'd mtest) option" where
  "mmu_permissions_main b s = do { s \<leftarrow> test_permissions b s; Some (test_end s, s) }"

section \<open>Pages of an entry\<close>

text \<open>An entry maps, in address space 0, exactly the page of \<open>2 ^ n\<close> bytes at \<open>vp\<close> to the one at \<open>pp\<close>.\<close>

definition page_map :: "u64 \<Rightarrow> nat \<Rightarrow> u32 \<Rightarrow> u64 \<Rightarrow> bool" where
  "page_map e n vp pp \<longleftrightarrow>
     ctz e < 24 \<and> (\<forall>va. tlb_entry_matches (mmu_key 0 va) e \<longleftrightarrow> drop_bit n va = drop_bit n vp) \<and>
     (\<forall>va. tlb_translate e va = pp OR take_bit n (ucast va))"

lemma mmu_key_page: "take_bit 20 (mmu_key asid va) = drop_bit 12 va"
  by (rule bit_word_eqI) (auto simp: bit_take_bit_iff bit_mmu_key bit_drop_bit_eq dest: bit_imp_le_length)

lemma drop_ucast_eq: "drop_bit n (ucast (drop_bit 12 va) :: u64) = drop_bit n (ucast (drop_bit 12 vb)) \<longleftrightarrow>
    drop_bit (12 + n) (va :: u32) = drop_bit (12 + n) vb"
proof
  assume "drop_bit n (ucast (drop_bit 12 va) :: u64) = drop_bit n (ucast (drop_bit 12 vb))"
  then have *: "bit (drop_bit n (ucast (drop_bit 12 va) :: u64)) i = bit (drop_bit n (ucast (drop_bit 12 vb) :: u64)) i" for i by simp
  have "bit va (12 + (n + i)) = bit vb (12 + (n + i))" if "i < 64 - n" for i
    using * [of i] less_diff_conv [THEN iffD1, OF that] by (simp add: bit_drop_bit_eq bit_ucast_iff add.commute [of i n])
  moreover have "64 - n \<le> i \<Longrightarrow> \<not> bit w (12 + (n + i))" for w :: u32 and i using bit_imp_le_length [of w "12 + (n + i)"] by auto
  ultimately have "bit va (12 + n + i) = bit vb (12 + n + i)" for i by (cases "i < 64 - n") (simp_all add: add.assoc)
  then show "drop_bit (12 + n) va = drop_bit (12 + n) vb" by (intro bit_word_eqI) (simp add: bit_drop_bit_eq)
next
  assume "drop_bit (12 + n) va = drop_bit (12 + n) vb"
  then have "drop_bit n (drop_bit 12 va) = drop_bit n (drop_bit 12 vb)" by (simp add: drop_bit_drop_bit add.commute)
  then have "bit (drop_bit n (drop_bit 12 va)) i = bit (drop_bit n (drop_bit 12 vb)) i" for i by simp
  then have "bit va (12 + (n + i)) = bit vb (12 + (n + i))" for i by (simp add: bit_drop_bit_eq ac_simps)
  then show "drop_bit n (ucast (drop_bit 12 va) :: u64) = drop_bit n (ucast (drop_bit 12 vb))"
    by (intro bit_word_eqI) (simp add: bit_drop_bit_eq bit_ucast_iff)
qed

lemma page_mapI:
  assumes "encodes_page e s pp" "page_aligned s pp" "unat pp < 2 ^ 36" "bit e 63" "bit e 62"
    "get_member e VirtualPage = ucast (drop_bit 12 vp)"
  shows "page_map e (12 + 2 * page_shift s) vp pp"
proof -
  have ctz: "ctz e = page_shift s" using assms(1, 2) by (rule encodes_page_ctz)
  have "push_bit 12 (hex_tlb_phys_page_num e) AND NOT (mask (12 + 2 * page_shift s)) = pp"
    using encodes_page_masked [OF assms(1) le_refl assms(3)] page_aligned_and_not_mask [OF assms(2)] by simp
  moreover have "page_shift s < 24" using page_shift_le [of s] by simp
  ultimately show ?thesis
    using assms(4-6) drop_ucast_eq
    by (auto simp: page_map_def ctz tlb_entry_matches_def tlb_translate_def Let_def mmu_key_page)
qed

lemma translation_entry_page_map:
  assumes "page_aligned s pa" "unat pa < 2 ^ 36" "bit vg 1" "bit vg 0"
  shows "page_map (translation_entry arch va pa (PageSize s) xwru cccc asid aa vg) (12 + 2 * page_shift s) va pa"
proof (rule page_mapI)
  have pa: "unat pa < 2 ^ 43" using assms(2) by simp
  show "encodes_page (translation_entry arch va pa (PageSize s) xwru cccc asid aa vg) s pa"
    using pa by (rule translation_entry_encodes_page)
  show "get_member (translation_entry arch va pa (PageSize s) xwru cccc asid aa vg) VirtualPage = ucast (drop_bit 12 va)"
    using pa by (rule translation_entry_vpn)
  show "bit (translation_entry arch va pa (PageSize s) xwru cccc asid aa vg) 63" "bit (translation_entry arch va pa (PageSize s) xwru cccc asid aa vg) 62"
    using assms(3, 4) by (simp_all add: bit_VG_member translation_entry_members bit_take_bit_iff bit_ucast_iff)
qed (use assms in simp_all)

lemma bit_translation_entry_perm:
  "28 \<le> i \<Longrightarrow> i < 32 \<Longrightarrow> bit (translation_entry arch va pa sz xwru cccc asid aa vg) i = bit xwru (i - 28)"
proof -
  assume i: "28 \<le> i" "i < 32"
  have "bit (get_member (translation_entry arch va pa sz xwru cccc asid aa vg) XWRU) (i - 28) = bit xwru (i - 28)"
    using i by (auto simp: translation_entry_members bit_take_bit_iff bit_ucast_iff)
  moreover have "i - 28 < 4" using i by simp
  ultimately show ?thesis using i by (simp add: bit_get_member)
qed

lemma page_map_cong:
  assumes "page_map e n vp pp" "\<And>i. i < 28 \<or> 32 \<le> i \<Longrightarrow> bit e' i = bit e i"
  shows "page_map e' n vp pp"
proof -
  have c: "ctz e < 28" using assms(1) by (simp add: page_map_def)
  then have "ctz e' = ctz e" using assms(2) by (intro ctz_cong) simp_all
  then show ?thesis using assms(1) entry_cong [OF c assms(2)] by (simp add: page_map_def)
qed

lemma page_map_grant: "page_map e n vp pp \<Longrightarrow> page_map (grant acc um e) n vp pp"
  using access_perm(2) [of acc] by (erule_tac page_map_cong) (auto simp: bit_grant)

section \<open>The entry of the program\<close>

text \<open>The fixed entry the start code of \<^verbatim>\<open>crt0/crt0_standalone.S\<close> writes for the megabyte of \<open>_start\<close>.\<close>

definition start_entry :: "u32 \<Rightarrow> u64" where
  "start_entry start =
     (let r2 = drop_bit 12 start;
          r1 = 0xc3f00000 OR r2;
          r0 = 0xf7000000 OR push_bit 1 r2;
          r0 = set_bit 4 r0;
          r0 = r0 AND NOT 0xf
      in push_bit 32 (ucast r1) OR ucast r0)"

lemma bit_start_entry_lo:
  assumes "start < 0x100000" "i < 32"
  shows "bit (start_entry start) i \<longleftrightarrow> i = 4 \<or> (4 \<le> i \<and> i < 9 \<and> bit start (i + 11)) \<or> i \<in> {24, 25, 26, 28, 29, 30, 31}"
proof -
  have c: "bit (0xf7000000 :: u32) i \<longleftrightarrow> i \<in> {24, 25, 26, 28, 29, 30, 31}"
  proof -
    have "\<forall>i \<in> set [0..<32]. bit (0xf7000000 :: u32) i \<longleftrightarrow> i \<in> {24, 25, 26, 28, 29, 30, 31}" by (simp add: upt_rec)
    then show ?thesis using assms(2) by simp
  qed
  have m: "(0xf :: u32) = mask 4" by (simp add: mask_eq_exp_minus_1)
  have s: "bit start j \<Longrightarrow> j < 20" for j
    using assms(1) bit_beyond_unat [of start 20 j] by (cases "j < 20") (auto simp: word_less_nat_alt)
  have s': "bit start (i + 11) \<Longrightarrow> i < 9" using s [of "i + 11"] by simp
  show ?thesis
    using assms(2) s' unfolding start_entry_def Let_def m bit_or_iff bit_push_bit_iff bit_ucast_iff bit_and_iff bit_not_iff
      bit_set_bit_iff bit_drop_bit_eq comp_apply c
    by (auto simp: bit_mask_iff add.commute [of i 11])
qed

lemma bit_start_entry_hi:
  assumes "start < 0x100000" "32 \<le> i" "i < 52 \<or> i = 61 \<or> i = 62 \<or> i = 63"
  shows "bit (start_entry start) i \<longleftrightarrow> (i < 40 \<and> bit start (i - 20)) \<or> i = 62 \<or> i = 63"
proof -
  have c: "bit (0xc3f00000 :: u32) (i - 32) \<longleftrightarrow> i - 32 \<in> {20..25} \<or> i - 32 = 30 \<or> i - 32 = 31" if "i - 32 < 32"
  proof -
    have "\<forall>i \<in> set [0..<32]. bit (0xc3f00000 :: u32) i \<longleftrightarrow> i \<in> {20..25} \<or> i = 30 \<or> i = 31" by (simp add: upt_rec)
    then show ?thesis using that by simp
  qed
  have s: "bit start j \<Longrightarrow> j < 20" for j
    using assms(1) bit_beyond_unat [of start 20 j] by (cases "j < 20") (auto simp: word_less_nat_alt)
  have "i - 32 < 32" "12 + (i - 32) = i - 20" using assms by auto
  then have *: "bit (start_entry start) i \<longleftrightarrow> bit (0xc3f00000 :: u32) (i - 32) \<or> bit start (i - 20)"
    using assms(2, 3) unfolding start_entry_def Let_def bit_or_iff bit_push_bit_iff bit_ucast_iff bit_drop_bit_eq comp_apply
    by (auto simp del: bit_numeral_word_iff dest: bit_imp_le_length)
  consider "i < 52" | "i = 61" | "i = 62" | "i = 63" using assms(3) by blast
  then show ?thesis
    by cases (use * c s [of "i - 20"] assms(2) in \<open>auto simp del: bit_numeral_word_iff\<close>)
qed

lemma start_entry_page_map:
  assumes "start < 0x100000"
  shows "page_map (start_entry start) 20 0 0"
proof -
  let ?e = "start_entry start"
  have ctz: "ctz ?e = 4" by (rule ctz_eqI) (simp_all add: bit_start_entry_lo [OF assms])
  have num: "\<not> bit (push_bit 12 (hex_tlb_phys_page_num ?e) AND NOT (mask 20)) i" for i
    using bit_start_entry_lo [OF assms, of "Suc (i - 12)"] bit_start_entry_hi [OF assms, of 61]
    unfolding bit_and_iff bit_push_bit_iff bit_not_iff bit_mask_iff bit_phys_page_num by auto
  have "push_bit 12 (hex_tlb_phys_page_num ?e) AND NOT (mask 20) = 0" by (rule bit_word_eqI, simp only: num, simp)
  then have tr: "tlb_translate ?e va = take_bit 20 (ucast va)" for va by (simp add: tlb_translate_def ctz del: mask_numeral)
  have "\<not> bit (drop_bit 8 (get_member ?e VirtualPage)) i" for i
    using bit_start_entry_hi [OF assms, of "40 + i"] by (auto simp: bit_drop_bit_eq bit_get_member)
  then have vp: "drop_bit 8 (get_member ?e VirtualPage) = 0" by (intro bit_word_eqI) simp
  have "tlb_entry_matches (mmu_key 0 va) ?e \<longleftrightarrow> drop_bit 20 va = 0" for va
    using drop_ucast_eq [of 8 0 va] bit_start_entry_hi [OF assms, of 62] bit_start_entry_hi [OF assms, of 63]
    by (auto simp: tlb_entry_matches_def ctz vp mmu_key_page)
  then show ?thesis by (simp add: page_map_def ctz tr)
qed

section \<open>What a test knows of the TLB\<close>

text \<open>
  The entries \<open>v\<close> are in the TLB, and no other entry maps an address below 2 GB in address space 0.
\<close>

definition tlb_view :: "'d tlb_ops \<Rightarrow> ('d \<Rightarrow> u32 \<Rightarrow> bool) \<Rightarrow> 'd \<Rightarrow> (u32 \<rightharpoonup> u64) \<Rightarrow> bool" where
  "tlb_view hw ok d v \<longleftrightarrow>
     (\<forall>i e. v i = Some e \<longrightarrow> ok d i \<and> op_tlbr hw d i = e) \<and>
     (\<forall>j va. ok d j \<longrightarrow> v j = None \<longrightarrow> va < 0x80000000 \<longrightarrow> \<not> tlb_entry_matches (mmu_key 0 va) (op_tlbr hw d j))"

definition none_maps :: "(u32 \<rightharpoonup> u64) \<Rightarrow> u32 \<Rightarrow> bool" where
  "none_maps v va \<longleftrightarrow> (\<forall>i e. v i = Some e \<longrightarrow> \<not> tlb_entry_matches (mmu_key 0 va) e)"

definition only_maps :: "(u32 \<rightharpoonup> u64) \<Rightarrow> u32 \<Rightarrow> u32 \<Rightarrow> bool" where
  "only_maps v va k \<longleftrightarrow> (\<exists>e. v k = Some e \<and> tlb_entry_matches (mmu_key 0 va) e) \<and>
     (\<forall>i e. v i = Some e \<longrightarrow> tlb_entry_matches (mmu_key 0 va) e \<longrightarrow> i = k)"

lemma tlb_view_drop: "tlb_view hw ok d (v(i \<mapsto> e)) \<Longrightarrow> v i = None \<Longrightarrow> (\<forall>x. \<not> tlb_entry_matches x e) \<Longrightarrow> tlb_view hw ok d v"
  unfolding tlb_view_def by (metis (no_types, lifting) fun_upd_apply option.distinct(1))

context tlb_device
begin

lemma view_write:
  "tlb_view hw ok d v \<Longrightarrow> ok d i \<Longrightarrow> tlb_view hw ok (op_tlbw hw d e i) (v(i \<mapsto> e))"
  by (auto simp: tlb_view_def ok_wr rd_wr_same rd_wr_other)

lemma view_probe:
  assumes "tlb_view hw ok d v" "va < 0x80000000" "only_maps v va k"
  shows "op_tlbp hw d (mmu_key 0 va) = k"
proof (rule probe_unique)
  obtain e where e: "v k = Some e" "tlb_entry_matches (mmu_key 0 va) e" using assms(3) by (auto simp: only_maps_def)
  then show "ok d k" "tlb_entry_matches (mmu_key 0 va) (op_tlbr hw d k)" using assms(1) by (auto simp: tlb_view_def)
  fix j assume "ok d j" "tlb_entry_matches (mmu_key 0 va) (op_tlbr hw d j)"
  then show "j = k" using assms unfolding tlb_view_def only_maps_def by (metis not_Some_eq)
qed

lemma view_probe_none:
  assumes "tlb_view hw ok d v" "va < 0x80000000" "none_maps v va"
  shows "op_tlbp hw d (mmu_key 0 va) = TLB_NOT_FOUND"
proof (rule ccontr)
  assume "op_tlbp hw d (mmu_key 0 va) \<noteq> TLB_NOT_FOUND"
  then have "ok d (op_tlbp hw d (mmu_key 0 va))" "tlb_entry_matches (mmu_key 0 va) (op_tlbr hw d (op_tlbp hw d (mmu_key 0 va)))"
    using probe_hit by blast+
  then show False using assms unfolding tlb_view_def none_maps_def by (metis not_Some_eq)
qed

end

lemma tlbp_key: "tlbp hw m asid va = op_tlbp hw (dev (rt m)) (mmu_key asid va)"
  by (simp add: tlbp_def mmu_key_def)

lemma probe_key_current: "probe_key (getssr m) va = mmu_key (current_asid m) va"
  by (rule bit_word_eqI)
     (auto simp: bit_probe_key bit_mmu_key current_asid_def bit_ucast_iff GET_FIELD_def bit_fEXTRACTU_BITS)

lemma access_hit:
  assumes hw: "tlb_device hw ok" and fault: "access_check fault" and view: "tlb_view hw ok (dev (rt m)) v"
    and va: "va < 0x80000000" "only_maps v va k" "v k = Some e" "page_map e n vp pp" and asid: "current_asid m = 0"
    and k: "k \<noteq> TLB_NOT_FOUND" and perm: "missing_causes acc (user_mode m) e = {}"
  shows "mem_access hw fault handler acc va m = Some (m, pp OR take_bit n (ucast va))"
proof -
  have "tlbp hw m 0 va = k" using tlb_device.view_probe [OF hw view va(1, 2)] by (simp add: tlbp_key)
  moreover have "tlbr hw m k = e" using view va(3) by (simp add: tlb_view_def tlbr_def)
  moreover have "fault acc (user_mode m) e = None" using access_check.fault_None [OF fault] perm by blast
  moreover have "tlb_translate e va = pp OR take_bit n (ucast va)" using va(4) by (simp add: page_map_def)
  ultimately show ?thesis using k by (subst mem_access.simps) (simp add: Let_def asid)
qed

text \<open>\<open>add_trans\<close> with an address nothing maps writes the entry and changes nothing else.\<close>

lemma add_trans_view:
  assumes hw: "tlb_device hw ok" and view: "tlb_view hw ok (dev (rt m)) v" and va: "va < 0x80000000" "none_maps v va"
    and asid: "current_asid m = 0" and i: "index \<in> {1..5}" "tlb_fixed_entries (rt m) = 6"
  shows "add_trans arch hw m index va pa sz xwru 0 1 1 =
    Ok (m\<lparr>rt := write_tlb_entry hw (rt m) (translation_entry arch va pa sz (ucast xwru) 0 0 0 3) index\<rparr>)"
proof -
  have nf: "op_tlbp hw (dev (rt m)) (mmu_key 0 va) = TLB_NOT_FOUND" using tlb_device.view_probe_none [OF hw view va] .
  then have "clear_overlapping_entry hw m 0 va = m" by (simp add: clear_overlapping_entry_def tlbp_key Let_def)
  moreover have "tlb_invalidate hw (rt m) va = rt m"
    using nf probe_key_current [of m va] by (simp add: tlb_invalidate_def tlb_probe_def get_ssr_def getssr_def asid Let_def)
  moreover have "index = 1 \<or> index = 2 \<or> index = 3 \<or> index = 4 \<or> index = 5"
  proof -
    have "unat index \<in> {1..5}" using i(1) by (simp add: word_le_nat_alt)
    then have "unat index = 1 \<or> unat index = 2 \<or> unat index = 3 \<or> unat index = 4 \<or> unat index = 5" by auto
    then show ?thesis by (auto simp: word_unat_eq_iff)
  qed
  then have "\<not> (sint index < 1 \<or> 5 < index)" by auto
  ultimately show ?thesis
    by (simp add: add_trans_def add_translation_extended_def get_tlb_fixed_entries_def i(2) Let_def)
qed

section \<open>Addresses\<close>

text \<open>An address of the first megabyte moved by a number of megabytes: the bits of both are apart.\<close>

definition mb_offset :: "nat \<Rightarrow> u32 \<Rightarrow> bool" where
  "mb_offset n offs \<longleftrightarrow> (\<forall>i. bit offs i \<longrightarrow> 20 \<le> i \<and> n \<le> i \<and> i < 31) \<and> drop_bit 20 offs \<noteq> 0"

lemma small_bit: "(a :: u32) < 0x100000 \<Longrightarrow> bit a i \<Longrightarrow> i < 20"
  using bit_beyond_unat [of a 20 i] by (cases "i < 20") (auto simp: word_less_nat_alt)

lemma page_start_small: "(a :: u32) < 0x100000 \<Longrightarrow> page_start a n < 0x100000"
  unfolding page_start_def Let_def by (rule order.strict_trans1 [OF word_and_le2])

lemma bit_moved: "mb_offset n offs \<Longrightarrow> a < 0x100000 \<Longrightarrow> bit (a + offs) i \<longleftrightarrow> bit a i \<or> bit offs i"
proof -
  assume "mb_offset n offs" "a < 0x100000"
  then have "\<not> bit a i \<or> \<not> bit offs i" for i using small_bit [of a i] by (auto simp: mb_offset_def)
  then have "a + offs = a OR offs" by (intro disjunctive_add_eq_or bit_eqI) (simp add: bit_and_iff)
  then show ?thesis by (simp add: bit_or_iff)
qed

lemma moved_page:
  assumes "mb_offset n offs" "a < 0x100000"
  shows "drop_bit n (a + offs) = drop_bit n (page_start a n + offs)"
  by (rule bit_word_eqI) (auto simp: bit_drop_bit_eq bit_moved [OF assms] bit_moved [OF assms(1) page_start_small [OF assms(2)]] bit_page_start)

lemma moved_below: "mb_offset n offs \<Longrightarrow> a < 0x100000 \<Longrightarrow> a + offs < 0x80000000"
proof -
  assume a: "mb_offset n offs" "a < 0x100000"
  have "bit (a + offs) i \<Longrightarrow> i < 31" for i using a small_bit [OF a(2), of i] by (auto simp: bit_moved [OF a] mb_offset_def)
  then have "unat (a + offs) < 2 ^ 31" by (intro unat_less_exp_iff_bits) force
  then show ?thesis by (simp add: word_less_nat_alt)
qed

lemma moved_outside:
  assumes "mb_offset n offs" "a < 0x100000"
  shows "drop_bit 20 (a + offs) = drop_bit 20 offs"
  by (rule bit_word_eqI) (use small_bit [OF assms(2)] in \<open>force simp: bit_drop_bit_eq bit_moved [OF assms]\<close>)

lemma moved_phys:
  assumes "mb_offset n offs" "a < 0x100000"
  shows "ucast (page_start a n) OR take_bit n (ucast (a + offs) :: u64) = ucast a"
proof (rule bit_word_eqI)
  fix i assume "i < LENGTH(64)"
  moreover have "bit offs i \<Longrightarrow> n \<le> i" using assms(1) by (simp add: mb_offset_def)
  ultimately show "bit (ucast (page_start a n) OR take_bit n (ucast (a + offs) :: u64)) i = bit (ucast a :: u64) i"
    by (auto simp: bit_or_iff bit_ucast_iff bit_take_bit_iff bit_page_start bit_moved [OF assms])
qed

lemma first_mb:
  assumes "(a :: u32) < 0x100000"
  shows "drop_bit 20 a = 0" "take_bit 20 (ucast a :: u64) = ucast a"
  by (rule bit_word_eqI; use small_bit [OF assms] in \<open>force simp: bit_drop_bit_eq bit_take_bit_iff bit_ucast_iff\<close>)+

lemma mb_offset_page:
  assumes "n \<in> {12, 14, 16, 18, 20, 22, 24, 26, 28, 30}"
  shows "mb_offset n (if (push_bit n 1 :: u32) \<le> ONE_MB then FIVE_MB else push_bit n 1)"
proof -
  have five: "bit FIVE_MB i \<longleftrightarrow> i = 20 \<or> i = 22" for i
  proof -
    have "\<forall>i \<in> set [0..<32]. bit (0x500000 :: u32) i \<longleftrightarrow> i = 20 \<or> i = 22" by (simp add: upt_rec)
    then show ?thesis using bit_imp_le_length [of "0x500000 :: u32" i] by (cases "i < 32") (auto simp: FIVE_MB_def ONE_MB_def)
  qed
  then have "mb_offset n FIVE_MB" if "n \<le> 20" using that by (auto simp: mb_offset_def FIVE_MB_def ONE_MB_def)
  moreover have "mb_offset n (push_bit n 1)" if "20 < n"
    using assms that by (auto simp: mb_offset_def bit_push_bit_iff bit_1_iff bit_exp_iff)
  ultimately show ?thesis using assms by (auto simp: ONE_MB_def)
qed

lemma mb_offset_mb:
  assumes "unat k \<in> {1..5}"
  shows "mb_offset 12 (k * ONE_MB)" "a < 0x100000 \<Longrightarrow> tlb_entry_num (a + k * ONE_MB) = k"
proof -
  have k: "k = 1 \<or> k = 2 \<or> k = 3 \<or> k = 4 \<or> k = 5" using assms by (auto simp: word_unat_eq_iff)
  have b: "bit (k * ONE_MB) i \<longleftrightarrow> 20 \<le> i \<and> bit k (i - 20)" if "i < 32" for i
    using that bit_push_bit_iff [of 20 k i] unfolding ONE_MB_def push_bit_eq_mult by simp
  have k3: "bit k j \<Longrightarrow> j < 3" for j using assms bit_beyond_unat [of k 3 j] by (cases "j < 3") auto
  have "drop_bit 20 (k * ONE_MB) = k"
    using k by (auto simp: ONE_MB_def)
  moreover have "20 \<le> i \<and> i < 31" if "bit (k * ONE_MB) i" for i
    using that b [of i] k3 [of "i - 20"] bit_imp_le_length [OF that] by auto
  moreover have "k \<noteq> 0" using assms by auto
  ultimately show off: "mb_offset 12 (k * ONE_MB)"
    unfolding mb_offset_def by fastforce
  show "tlb_entry_num (a + k * ONE_MB) = k" if "a < 0x100000"
    using moved_outside [OF off that] \<open>drop_bit 20 (k * ONE_MB) = k\<close> by (simp add: tlb_entry_num_def)
qed

section \<open>The page size test passes\<close>

text \<open>
  The state a test starts in: the fixed entry of the program is in the TLB, no other entry maps an address below 2 GB in
  address space 0, which is the current one; the program lies in the first megabyte.
\<close>

definition board_ok :: "'d board \<Rightarrow> ('d \<Rightarrow> u32 \<Rightarrow> bool) \<Rightarrow> bool" where
  "board_ok b ok \<longleftrightarrow> tlb_device (tlb b) ok \<and> access_check (perm_check b) \<and> data b < 0x100000 \<and> func_return_pc b < 0x100000 \<and>
     func_return_pc b + 4 < 0x100000 \<and> drop_bit 12 (func_return_pc b + 4) = drop_bit 12 (func_return_pc b)"

definition ready :: "'d board \<Rightarrow> ('d \<Rightarrow> u32 \<Rightarrow> bool) \<Rightarrow> (u32 \<rightharpoonup> u64) \<Rightarrow> 'd mtest \<Rightarrow> bool" where
  "ready b ok v s \<longleftrightarrow> tlb_view (tlb b) ok (dev (rt (mmu s))) v \<and> (\<forall>i \<in> {1..5}. ok (dev (rt (mmu s))) i) \<and>
     tlb_fixed_entries (rt (mmu s)) = 6 \<and> current_asid (mmu s) = 0"

definition start_view :: "u32 \<Rightarrow> u32 \<rightharpoonup> u64" where
  "start_view start = [0 \<mapsto> start_entry start]"

definition start_state :: "'d board \<Rightarrow> ('d \<Rightarrow> u32 \<Rightarrow> bool) \<Rightarrow> 'd mtest \<Rightarrow> bool" where
  "start_state b ok s \<longleftrightarrow> err (chk s) = 0 \<and> (\<exists>start < 0x100000. ready b ok (start_view start) s)"

lemma ready_update [simp]:
  "ready b ok v (s\<lparr>phys := p\<rparr>) = ready b ok v s" "ready b ok v (s\<lparr>chk := c\<rparr>) = ready b ok v s"
  by (simp_all add: ready_def)

lemma full_perm: "(\<And>i. i \<in> {28..31} \<Longrightarrow> bit e i) \<Longrightarrow> missing_causes acc um e = {}"
  using access_perm(2) [of acc] by (auto simp: missing_causes_bits)

lemma start_entry_full: "start < 0x100000 \<Longrightarrow> missing_causes acc um (start_entry start) = {}"
proof (rule full_perm)
  fix i :: nat assume "start < 0x100000" "i \<in> {28..31}"
  then show "bit (start_entry start) i" by (subst bit_start_entry_lo) auto
qed

lemma access_va_hit:
  assumes "board_ok b ok" "ready b ok v s" "va < 0x80000000" "only_maps v va k" "v k = Some e" "page_map e n vp pp"
    "k \<noteq> TLB_NOT_FOUND" "missing_causes acc (user_mode (mmu s)) e = {}"
  shows "access_va b acc va s = Some (pp OR take_bit n (ucast va), s)"
proof -
  have "mem_access (tlb b) (perm_check b) h acc va (mmu s) = Some (mmu s, pp OR take_bit n (ucast va))" for h
    by (rule access_hit [where ok = ok, OF _ _ _ assms(3-6) _ assms(7, 8)]) (use assms(1, 2) in \<open>simp_all add: board_ok_def ready_def\<close>)
  then show ?thesis by (simp add: access_va_def)
qed

lemma only_maps_other:
  "only_maps v va k \<Longrightarrow> i \<noteq> k \<Longrightarrow> \<not> tlb_entry_matches (mmu_key 0 va) e \<Longrightarrow> only_maps (v(i \<mapsto> e)) va k"
  by (auto simp: only_maps_def)

lemma start_view_maps:
  assumes "start < 0x100000"
  shows "only_maps (start_view start) va 0 \<longleftrightarrow> drop_bit 20 va = 0" "none_maps (start_view start) va \<longleftrightarrow> drop_bit 20 va \<noteq> 0"
  using start_entry_page_map [OF assms] by (auto simp: start_view_def only_maps_def none_maps_def page_map_def)

text \<open>The program's own variables.\<close>

lemma access_own:
  assumes "board_ok b ok" "ready b ok v s" "v 0 = Some (start_entry start)" "start < 0x100000" "only_maps v va 0" "va < 0x100000"
  shows "access_va b acc va s = Some (ucast va, s)"
proof -
  have "va < 0x80000000" using assms(6) by (simp add: word_less_nat_alt)
  then show ?thesis
    using access_va_hit [OF assms(1, 2) _ assms(5, 3) start_entry_page_map [OF assms(4)] _ start_entry_full [OF assms(4)]]
    by (simp add: TLB_NOT_FOUND_def first_mb [OF assms(6)])
qed

text \<open>The steps that map and unmap a page.\<close>

definition same_world :: "'d mtest \<Rightarrow> 'd mtest \<Rightarrow> bool" where
  "same_world s s' \<longleftrightarrow> phys s' = phys s \<and> chk s' = chk s \<and> getssr (mmu s') = getssr (mmu s) \<and>
     evb (mmu s') = evb (mmu s) \<and> my_exceptions (mmu s') = my_exceptions (mmu s)"

lemma same_world_modes:
  "same_world s s' \<Longrightarrow> current_asid (mmu s') = current_asid (mmu s)" "same_world s s' \<Longrightarrow> user_mode (mmu s') = user_mode (mmu s)"
  by (simp_all add: same_world_def current_asid_def user_mode_def)

abbreviation "page_entry b va pa sz xwru \<equiv> translation_entry (arch_rev b) va (ucast (pa :: u32)) sz (ucast (xwru :: u8)) 0 0 0 3"

lemma write_view:
  assumes "board_ok b ok" "ready b ok v s" "i \<in> {1..5}" "dev (rt m) = op_tlbw (tlb b) (dev (rt (mmu s))) e i"
    "tlb_fixed_entries (rt m) = 6" "current_asid m = 0"
  shows "ready b ok (v(i \<mapsto> e)) (s\<lparr>mmu := m\<rparr>)"
  using assms tlb_device.view_write [of "tlb b" ok _ v i e] tlb_device.ok_wr [of "tlb b" ok]
  by (auto simp: ready_def board_ok_def)

lemma map_page_ok:
  assumes "board_ok b ok" "ready b ok v s" "i \<in> {1..5}" "va < 0x80000000" "none_maps v va"
  shows "\<exists>s'. map_page b i va pa sz xwru s = Some s' \<and> ready b ok (v(i \<mapsto> page_entry b va pa sz xwru)) s' \<and> same_world s s'"
proof -
  let ?e = "page_entry b va pa sz xwru"
  let ?m = "(mmu s)\<lparr>rt := write_tlb_entry (tlb b) (rt (mmu s)) ?e i\<rparr>"
  have "add_trans (arch_rev b) (tlb b) (mmu s) i va (ucast pa) sz xwru 0 1 1 = Ok ?m"
    by (rule add_trans_view [where ok = ok, OF _ _ assms(4, 5) _ assms(3)]) (use assms(1, 2) in \<open>simp_all add: board_ok_def ready_def\<close>)
  moreover have ssr: "getssr ?m = getssr (mmu s)" by (simp add: getssr_def frame_simps)
  moreover have "ready b ok (v(i \<mapsto> ?e)) (s\<lparr>mmu := ?m\<rparr>)"
    by (rule write_view [OF assms(1-3)])
       (use assms(2) ssr in \<open>simp_all add: ready_def frame_simps current_asid_def, simp add: write_tlb_entry_def Let_def\<close>)
  ultimately show ?thesis by (simp add: map_page_def same_world_def)
qed

lemma unmap_page_ok:
  assumes "board_ok b ok" "ready b ok (v(i \<mapsto> e)) s" "i \<in> {1..5}" "v i = None"
  shows "ready b ok v (unmap_page b i s) \<and> same_world s (unmap_page b i s)"
proof -
  let ?e = "SET_FIELD e PTE_V 0"
  have "tlbr (tlb b) (mmu s) i = e" using assms(2) by (simp add: ready_def tlb_view_def tlbr_def)
  then have "ready b ok ((v(i \<mapsto> e))(i \<mapsto> ?e)) (unmap_page b i s)"
    unfolding unmap_page_def
    by (intro write_view [OF assms(1-3)])
       (use assms(2) in \<open>simp_all add: remove_trans_def Let_def tlbw_def ready_def current_asid_def getssr_def\<close>)
  then have "ready b ok v (unmap_page b i s)"
    using tlb_view_drop [of "tlb b" ok _ v i ?e] assms(4) not_matches_SET_V_0 by (auto simp: ready_def)
  then show ?thesis by (simp add: same_world_def unmap_page_def remove_trans_def Let_def tlbw_def getssr_def)
qed

text \<open>A page at an offset of whole megabytes maps the address to itself and no address of the first megabyte.\<close>

lemma page_entry_maps:
  assumes "a < 0x100000" "mb_offset n offs" "n = 12 + 2 * page_shift s"
  shows "page_map (page_entry b (page_start a n + offs) (page_start a n) (PageSize s) xwru) n
    (page_start a n + offs) (ucast (page_start a n))"
proof -
  have "page_aligned s (ucast (page_start a n))"
    unfolding page_aligned_def assms(3) by (rule bit_word_eqI) (auto simp: bit_take_bit_iff bit_ucast_iff bit_page_start)
  moreover have "unat (ucast (page_start a n) :: u64) < 2 ^ 36"
    by (rule unat_less_exp_iff_bits) (auto simp: bit_ucast_iff dest: bit_imp_le_length)
  ultimately show ?thesis unfolding assms(3) by (rule translation_entry_page_map) simp_all
qed

lemma moved_not_first_mb:
  assumes "mb_offset n offs" "a < 0x100000" "x < 0x100000"
  shows "drop_bit n x \<noteq> drop_bit n (a + offs)"
proof
  assume eq: "drop_bit n x = drop_bit n (a + offs)"
  obtain i where "bit (drop_bit 20 offs) i" using assms(1) bit_eq_iff [of "drop_bit 20 offs" 0] by (auto simp: mb_offset_def)
  then have i: "bit offs (20 + i)" by (simp add: bit_drop_bit_eq)
  then have n: "n \<le> 20 + i" using assms(1) by (simp add: mb_offset_def)
  have "bit (drop_bit n (a + offs)) (20 + i - n)" using i n by (simp add: bit_drop_bit_eq bit_moved [OF assms(1, 2)])
  then have "bit x (20 + i)" using n unfolding eq [symmetric] by (simp add: bit_drop_bit_eq)
  then show False using small_bit [OF assms(3)] by force
qed

lemma moved_view:
  assumes "a < 0x100000" "mb_offset n offs" "n = 12 + 2 * page_shift s" "start < 0x100000" "i \<noteq> 0" "x < 0x100000"
    "v = (start_view start)(i \<mapsto> page_entry b (page_start a n + offs) (page_start a n) (PageSize s) xwru)"
  shows "drop_bit n x = drop_bit n a \<Longrightarrow> only_maps v (x + offs) i" "only_maps v x 0"
proof -
  let ?e = "page_entry b (page_start a n + offs) (page_start a n) (PageSize s) xwru"
  have m: "tlb_entry_matches (mmu_key 0 va) ?e \<longleftrightarrow> drop_bit n va = drop_bit n (a + offs)" for va
    using page_entry_maps [OF assms(1-3)] moved_page [OF assms(2, 1)] by (auto simp: page_map_def)
  have "drop_bit 20 (x + offs) \<noteq> 0" using moved_outside [OF assms(2, 6)] assms(2) by (simp add: mb_offset_def)
  then have "\<not> only_maps (start_view start) (x + offs) 0" using start_view_maps [OF assms(4)] by simp
  then have none: "\<not> tlb_entry_matches (mmu_key 0 (x + offs)) (start_entry start)" by (auto simp: only_maps_def start_view_def)
  show "only_maps v (x + offs) i" if "drop_bit n x = drop_bit n a"
  proof -
    have "drop_bit n (x + offs) = drop_bit n (a + offs)"
    proof (rule bit_word_eqI)
      fix j :: nat
      have "bit (drop_bit n x) j = bit (drop_bit n a) j" using that by simp
      then show "bit (drop_bit n (x + offs)) j = bit (drop_bit n (a + offs)) j"
        by (simp add: bit_drop_bit_eq bit_moved [OF assms(2, 1)] bit_moved [OF assms(2, 6)])
    qed
    then show ?thesis using m none by (auto simp: only_maps_def assms(7) start_view_def)
  qed
  have "only_maps (start_view start) x 0" using start_view_maps [OF assms(4)] first_mb [OF assms(6)] by simp
  moreover have "\<not> tlb_entry_matches (mmu_key 0 x) ?e" using m moved_not_first_mb [OF assms(2, 1, 6)] by simp
  ultimately show "only_maps v x 0" unfolding assms(7) using assms(5) by (intro only_maps_other) simp_all
qed

lemma chk32_same [simp]: "chk32 line v v s = s"
  by (simp add: chk32_def check32_def)

lemma ready_probe:
  assumes "board_ok b ok" "ready b ok v s" "va < 0x80000000"
  shows "only_maps v va k \<Longrightarrow> tlbp (tlb b) (mmu s) 0 va = k" "none_maps v va \<Longrightarrow> tlbp (tlb b) (mmu s) 0 va = TLB_NOT_FOUND"
  using assms tlb_device.view_probe [of "tlb b" ok _ v va k] tlb_device.view_probe_none [of "tlb b" ok _ v va]
  by (simp_all add: tlbp_key ready_def board_ok_def)

abbreviation "full \<equiv> TLB_X OR TLB_W OR TLB_R OR TLB_U"

lemma page_entry_full: "missing_causes acc um (page_entry b va pa sz full) = {}"
proof (rule full_perm)
  fix i :: nat assume i: "i \<in> {28..31}"
  have "i - 28 = 0 \<or> i - 28 = 1 \<or> i - 28 = 2 \<or> i - 28 = 3" using i by auto
  then have "bit (ucast full :: u32) (i - 28)" by (auto simp: TLB_X_def TLB_W_def TLB_R_def TLB_U_def)
  then show "bit (page_entry b va pa sz full) i" using i by (simp add: bit_translation_entry_perm)
qed

lemma access_moved:
  assumes b: "board_ok b ok" and r: "ready b ok v s" and a: "a < 0x100000" "mb_offset n offs" "n = 12 + 2 * page_shift sz"
    "start < 0x100000" "i \<in> {1..5}" "x < 0x100000" "drop_bit n x = drop_bit n a" "page_start x n = page_start a n"
    and v: "v = (start_view start)(i \<mapsto> page_entry b (page_start a n + offs) (page_start a n) (PageSize sz) full)"
  shows "access_va b acc (x + offs) s = Some (ucast x, s)"
proof -
  have i: "i \<noteq> 0" "i \<noteq> TLB_NOT_FOUND" using a(5) by (auto simp: TLB_NOT_FOUND_def word_le_nat_alt)
  have only: "only_maps v (x + offs) i" using moved_view(1) [OF a(1-4) i(1) a(6) v a(7)] .
  have "access_va b acc (x + offs) s = Some (ucast (page_start a n) OR take_bit n (ucast (x + offs)), s)"
    by (rule access_va_hit [OF b r moved_below [OF a(2, 6)] only _ page_entry_maps [OF a(1-3)] i(2) page_entry_full])
       (simp add: v)
  then show ?thesis using moved_phys [OF a(2, 6)] a(8) by simp
qed

lemma page_start_cong: "drop_bit n x = drop_bit n y \<Longrightarrow> page_start x n = page_start y n"
proof (rule bit_word_eqI)
  fix i assume "drop_bit n x = drop_bit n y"
  then have "bit (drop_bit n x) (i - n) = bit (drop_bit n y) (i - n)" by simp
  then show "bit (page_start x n) i = bit (page_start y n) i" by (cases "n \<le> i") (simp_all add: bit_page_start bit_drop_bit_eq)
qed

text \<open>A page of the program is mapped at an offset: all that a test does with it.\<close>

definition mapped :: "'d board \<Rightarrow> ('d \<Rightarrow> u32 \<Rightarrow> bool) \<Rightarrow> u32 \<Rightarrow> u32 \<Rightarrow> nat \<Rightarrow> u32 \<Rightarrow> u32 \<Rightarrow> 'd mtest \<Rightarrow> bool" where
  "mapped b ok start a n offs i s \<longleftrightarrow> tlbp (tlb b) (mmu s) 0 (a + offs) = i \<and>
     (\<forall>p x acc. x < 0x100000 \<longrightarrow> drop_bit n x = drop_bit n a \<longrightarrow>
        access_va b acc (x + offs) (s\<lparr>phys := p\<rparr>) = Some (ucast x, s\<lparr>phys := p\<rparr>)) \<and>
     (\<forall>p x acc. x < 0x100000 \<longrightarrow> access_va b acc x (s\<lparr>phys := p\<rparr>) = Some (ucast x, s\<lparr>phys := p\<rparr>)) \<and>
     (\<forall>p. ready b ok (start_view start) (unmap_page b i (s\<lparr>phys := p\<rparr>)) \<and>
        same_world (s\<lparr>phys := p\<rparr>) (unmap_page b i (s\<lparr>phys := p\<rparr>)))"

lemma map_moved:
  assumes b: "board_ok b ok" and r: "ready b ok (start_view start) s" and a: "a < 0x100000" "mb_offset n offs"
    "n = 12 + 2 * page_shift sz" "start < 0x100000" "i \<in> {1..5}"
  shows "\<exists>s'. map_page b i (page_start a n + offs) (page_start a n) (PageSize sz) full s = Some s' \<and> same_world s s' \<and>
    mapped b ok start a n offs i s'"
proof -
  let ?e = "page_entry b (page_start a n + offs) (page_start a n) (PageSize sz) full"
  let ?v = "(start_view start)(i \<mapsto> ?e)"
  note page = page_start_small [OF a(1), of n]
  have i: "i \<noteq> 0" using a(5) by auto
  have "none_maps (start_view start) (page_start a n + offs)"
    using start_view_maps(2) [OF a(4)] moved_outside [OF a(2) page] a(2) by (simp add: mb_offset_def)
  from map_page_ok [OF b r a(5) moved_below [OF a(2) page] this]
  obtain s' where s': "map_page b i (page_start a n + offs) (page_start a n) (PageSize sz) full s = Some s'"
    "ready b ok ?v s'" "same_world s s'" by blast
  have r': "ready b ok ?v (s'\<lparr>phys := p\<rparr>)" for p using s'(2) by simp
  have "mapped b ok start a n offs i s'"
    unfolding mapped_def
  proof (intro conjI allI impI)
    show "tlbp (tlb b) (mmu s') 0 (a + offs) = i"
      using ready_probe(1) [OF b s'(2) moved_below [OF a(2, 1)]] moved_view(1) [OF a(1-4) i a(1) refl refl] .
    fix p x acc assume x: "x < (0x100000 :: u32)"
    show "access_va b acc x (s'\<lparr>phys := p\<rparr>) = Some (ucast x, s'\<lparr>phys := p\<rparr>)"
      by (rule access_own [OF b r' _ a(4) moved_view(2) [OF a(1-4) i x refl] x])
         (use i in \<open>simp add: start_view_def\<close>)
    assume eq: "drop_bit n x = drop_bit n a"
    show "access_va b acc (x + offs) (s'\<lparr>phys := p\<rparr>) = Some (ucast x, s'\<lparr>phys := p\<rparr>)"
      using access_moved [OF b r' a(1-5) x eq page_start_cong [OF eq] refl] .
  next
    fix p
    have "ready b ok (start_view start) (unmap_page b i (s'\<lparr>phys := p\<rparr>)) \<and> same_world (s'\<lparr>phys := p\<rparr>) (unmap_page b i (s'\<lparr>phys := p\<rparr>))"
      by (rule unmap_page_ok [OF b r' a(5)]) (use i in \<open>simp add: start_view_def\<close>)
    then show "ready b ok (start_view start) (unmap_page b i (s'\<lparr>phys := p\<rparr>))"
      "same_world (s'\<lparr>phys := p\<rparr>) (unmap_page b i (s'\<lparr>phys := p\<rparr>))" by simp_all
  qed
  then show ?thesis using s' by blast
qed

lemma mappedD:
  assumes "mapped b ok start a n offs i s"
  shows "tlbp (tlb b) (mmu s) 0 (a + offs) = i"
    "x < 0x100000 \<Longrightarrow> drop_bit n x = drop_bit n a \<Longrightarrow> access_va b acc (x + offs) (s\<lparr>phys := p\<rparr>) = Some (ucast x, s\<lparr>phys := p\<rparr>)"
    "x < 0x100000 \<Longrightarrow> access_va b acc x (s\<lparr>phys := p\<rparr>) = Some (ucast x, s\<lparr>phys := p\<rparr>)"
    "ready b ok (start_view start) (unmap_page b i (s\<lparr>phys := p\<rparr>))" "same_world (s\<lparr>phys := p\<rparr>) (unmap_page b i (s\<lparr>phys := p\<rparr>))"
  using assms by (simp_all add: mapped_def)

lemma add_right_swap: "(x :: u32) + y + 4 = x + 4 + y"
  by simp

lemma same_world_phys: "same_world s s' \<Longrightarrow> phys s' = phys s \<and> chk s' = chk s"
  by (simp add: same_world_def)

lemma test_page_size_ok:
  assumes b: "board_ok b ok" and r: "ready b ok (start_view start) s" and start: "start < 0x100000"
    and n: "n = 12 + 2 * page_shift sz" "n \<in> {12, 14, 16, 18, 20, 22, 24, 26, 28, 30}"
  shows "\<exists>s'. test_page_size b (PageSize sz) n s = Some s' \<and> ready b ok (start_view start) s' \<and> chk s' = chk s"
proof -
  define offs where "offs = (if (push_bit n 1 :: u32) \<le> ONE_MB then FIVE_MB else push_bit n 1)"
  have o: "mb_offset n offs" unfolding offs_def using n(2) by (rule mb_offset_page)
  have d: "data b < 0x100000" and f: "func_return_pc b < 0x100000" "func_return_pc b + 4 < 0x100000"
    and f4: "drop_bit n (func_return_pc b + 4) = drop_bit n (func_return_pc b)"
  proof -
    show "data b < 0x100000" "func_return_pc b < 0x100000" "func_return_pc b + 4 < 0x100000" using b by (simp_all add: board_ok_def)
    have "drop_bit (n - 12) (drop_bit 12 (func_return_pc b + 4)) = drop_bit (n - 12) (drop_bit 12 (func_return_pc b))"
      using b by (simp add: board_ok_def)
    then show "drop_bit n (func_return_pc b + 4) = drop_bit n (func_return_pc b)"
      unfolding drop_bit_drop_bit using n(1) by (simp add: add.commute)
  qed
  have none: "none_maps (start_view start) (x + offs)" if "x < 0x100000" for x
    using start_view_maps(2) [OF start] moved_outside [OF o that] o by (simp add: mb_offset_def)
  have nf: "tlbp (tlb b) (mmu t) 0 (x + offs) = TLB_NOT_FOUND" if "x < 0x100000" "ready b ok (start_view start) t" for x t
    using ready_probe(2) [OF b that(2) moved_below [OF o that(1)] none [OF that(1)]] .
  define s1 where "s1 = s\<lparr>phys := (phys s)(ucast (data b) := 0xdeadbeef)\<rparr>"
  have "access_va b Write (data b) s = Some (ucast (data b), s)"
    by (rule access_own [OF b r _ start _ d], simp add: start_view_def, simp add: start_view_maps(1) [OF start] first_mb [OF d])
  then have w1: "write_var b (data b) 0xdeadbeef s = Some s1" by (simp add: write_var_def s1_def)
  have r1: "ready b ok (start_view start) s1" using r by (simp add: s1_def)
  have one: "(1 :: u32) \<in> {1..5}" and two: "(2 :: u32) \<in> {1..5}" by simp_all
  obtain s2 where s2: "map_page b 1 (page_start (data b) n + offs) (page_start (data b) n) (PageSize sz) full s1 = Some s2"
      "same_world s1 s2" and m2: "mapped b ok start (data b) n offs 1 s2"
    using map_moved [OF b r1 d o n(1) start one] by blast
  define s3 where "s3 = s2\<lparr>phys := (phys s2)(ucast (data b) := 0xcafebabe)\<rparr>"
  define s4 where "s4 = unmap_page b 1 s3"
  have p2: "phys s2 (ucast (data b)) = 0xdeadbeef" "chk s2 = chk s" using s2(2) by (simp_all add: same_world_def s1_def)
  have rd2: "chk_read 59 b (data b + offs) 0xdeadbeef s2 = Some s2"
    using mappedD(2) [OF m2 d refl, of Read "phys s2"] p2 by (simp add: chk_read_def read_var_def)
  have wr2: "write_var b (data b + offs) 0xcafebabe s2 = Some s3"
    using mappedD(2) [OF m2 d refl, of Write "phys s2"] by (simp add: write_var_def s3_def)
  have rd3: "chk_read 63 b (data b) 0xcafebabe s3 = Some s3"
    using mappedD(3) [OF m2 d, of Read "phys s3"] by (simp add: chk_read_def read_var_def s3_def)
  have r4: "ready b ok (start_view start) s4" "same_world s3 s4" using mappedD(4, 5) [OF m2] by (simp_all add: s4_def s3_def)
  obtain s5 where s5: "map_page b 2 (page_start (func_return_pc b) n + offs) (page_start (func_return_pc b) n) (PageSize sz) full s4 = Some s5"
      "same_world s4 s5" and m5: "mapped b ok start (func_return_pc b) n offs 2 s5"
    using map_moved [OF b r4(1) f(1) o n(1) start two] by blast
  have c5: "chk_call 92 b (func_return_pc b + offs) (func_return_pc b + offs) s5 = Some s5"
    using mappedD(2) [OF m5 f(1) refl, of Fetch "phys s5"] mappedD(2) [OF m5 f(2) f4, of Fetch "phys s5"]
    by (simp add: chk_call_def call_func_def add_right_swap [of "func_return_pc b" offs])
  define s6 where "s6 = unmap_page b 2 s5"
  have r6: "ready b ok (start_view start) s6" "same_world s5 s6" using mappedD(4, 5) [OF m5, of "phys s5"] by (simp_all add: s6_def)
  have "test_page_size b (PageSize sz) n s = Some s6"
    unfolding test_page_size_def Let_def offs_def [symmetric]
    by (simp add: w1 s2(1) chk_tlbp_def mappedD(1) [OF m2] rd2 wr2 rd3 s4_def [symmetric] nf [OF d r4(1)] s5(1) mappedD(1) [OF m5] c5 s6_def [symmetric]
        nf [OF f(1) r6(1)])
  moreover have "chk s6 = chk s" using r6(2) s5(2) r4(2) p2(2) by (simp add: same_world_def s3_def)
  ultimately show ?thesis using r6(1) by blast
qed

text \<open>C6: The page size test passes.  For each of the ten page sizes the mapped address is found at the index it was mapped
  at, a load and a store through it reach the variable, a call through it runs the function, and after the removal the address is
  not found, whatever the check order of the hardware and the state of the runtime; the program prints \<open>PASS\<close> and returns 0.\<close>

theorem mmu_page_size_passes:
  assumes "board_ok b ok" "start_state b ok s"
  shows "\<exists>s'. mmu_page_size_main b s = Some ((0, ''PASS''), s') \<and> start_state b ok s'"
proof -
  obtain start where start: "start < 0x100000" "ready b ok (start_view start) s" "err (chk s) = 0"
    using assms(2) by (auto simp: start_state_def)
  note step = test_page_size_ok [OF assms(1) _ start(1)]
  obtain s1 where s1: "test_page_size b (PageSize SHIFT_4K) 12 s = Some s1" "ready b ok (start_view start) s1" "chk s1 = chk s"
    using step [OF start(2), of 12 SHIFT_4K] by auto
  obtain s2 where s2: "test_page_size b (PageSize SHIFT_16K) 14 s1 = Some s2" "ready b ok (start_view start) s2" "chk s2 = chk s"
    using step [OF s1(2), of 14 SHIFT_16K] s1(3) by auto
  obtain s3 where s3: "test_page_size b (PageSize SHIFT_64K) 16 s2 = Some s3" "ready b ok (start_view start) s3" "chk s3 = chk s"
    using step [OF s2(2), of 16 SHIFT_64K] s2(3) by auto
  obtain s4 where s4: "test_page_size b (PageSize SHIFT_256K) 18 s3 = Some s4" "ready b ok (start_view start) s4" "chk s4 = chk s"
    using step [OF s3(2), of 18 SHIFT_256K] s3(3) by auto
  obtain s5 where s5: "test_page_size b (PageSize SHIFT_1M) 20 s4 = Some s5" "ready b ok (start_view start) s5" "chk s5 = chk s"
    using step [OF s4(2), of 20 SHIFT_1M] s4(3) by auto
  obtain s6 where s6: "test_page_size b (PageSize SHIFT_4M) 22 s5 = Some s6" "ready b ok (start_view start) s6" "chk s6 = chk s"
    using step [OF s5(2), of 22 SHIFT_4M] s5(3) by auto
  obtain s7 where s7: "test_page_size b (PageSize SHIFT_16M) 24 s6 = Some s7" "ready b ok (start_view start) s7" "chk s7 = chk s"
    using step [OF s6(2), of 24 SHIFT_16M] s6(3) by auto
  obtain s8 where s8: "test_page_size b (PageSize SHIFT_64M) 26 s7 = Some s8" "ready b ok (start_view start) s8" "chk s8 = chk s"
    using step [OF s7(2), of 26 SHIFT_64M] s7(3) by auto
  obtain s9 where s9: "test_page_size b (PageSize SHIFT_256M) 28 s8 = Some s9" "ready b ok (start_view start) s9" "chk s9 = chk s"
    using step [OF s8(2), of 28 SHIFT_256M] s8(3) by auto
  obtain s10 where s10: "test_page_size b (PageSize SHIFT_1G) 30 s9 = Some s10" "ready b ok (start_view start) s10" "chk s10 = chk s"
    using step [OF s9(2), of 30 SHIFT_1G] s9(3) by auto
  have "mmu_page_size_main b s = Some (test_end s10, s10)"
    by (simp add: mmu_page_size_main_def s1(1) s2(1) s3(1) s4(1) s5(1) s6(1) s7(1) s8(1) s9(1) s10(1))
  then show ?thesis using s10 start by (auto simp: test_end_def start_state_def)
qed

text \<open>A board with an array of entries, for concrete instances.\<close>

definition sample_board :: "u64 list board" where
  "sample_board = \<lparr>tlb = arr_tlb, perm_check = first_fault, runtime_error = (\<lambda>ssr m. do_coredump m),
     my_event_vectors = 0x3000, arch_rev = 68, data = 0x4010, func_return_pc = 0x2000\<rparr>"

definition sample_test :: "u64 list mtest" where
  "sample_test = \<lparr>mmu = (sample_mmu 0)\<lparr>rt := (rt (sample_mmu 0))\<lparr>dev := start_entry 0x1000 # replicate 7 0\<rparr>\<rparr>,
     phys = (\<lambda>_. 0), chk = \<lparr>err = 0, messages = []\<rparr>\<rparr>"

lemma sample_board_ok: "board_ok sample_board arr_ok"
  using arr.tlb_device_axioms first.access_check_axioms by (simp add: board_ok_def sample_board_def)

lemma sample_test_start: "start_state sample_board arr_ok sample_test"
proof -
  let ?d = "dev (rt (mmu sample_test))"
  have d: "?d = start_entry 0x1000 # replicate 7 0" by (simp add: sample_test_def)
  have ok: "arr_ok ?d j \<longleftrightarrow> unat j < 8" for j by (simp add: d arr_ok_def)
  have rd: "op_tlbr arr_tlb ?d j = (if j = 0 then start_entry 0x1000 else 0)" if "unat j < 8" for j
  proof (cases "j = 0")
    case False
    then have "unat j \<noteq> 0" by (simp add: unat_eq_0)
    then obtain k where "unat j = Suc k" by (cases "unat j") auto
    then show ?thesis using that False by (simp add: arr_tlb_def d)
  qed (simp add: arr_tlb_def d)
  have "tlb_view arr_tlb arr_ok ?d (start_view 0x1000)"
    using rd unfolding tlb_view_def ok by (auto simp: start_view_def tlb_entry_matches_def split: if_splits)
  moreover have "\<forall>i \<in> {1..5}. arr_ok ?d i" by (auto simp: ok word_le_nat_alt)
  ultimately have "ready sample_board arr_ok (start_view 0x1000) sample_test"
    by (simp add: ready_def sample_board_def sample_test_def sample_mmu_def current_asid_def getssr_def GET_FIELD_def
        fEXTRACTU_BITS_def fZXTN_def)
  then show ?thesis unfolding start_state_def by (intro conjI exI [of _ "0x1000"]) (simp_all add: sample_test_def)
qed

theorem mmu_page_size_passes_witness: "\<exists>s'. mmu_page_size_main sample_board sample_test = Some ((0, ''PASS''), s')"
  using mmu_page_size_passes [OF sample_board_ok sample_test_start] by blast

section \<open>The permissions test passes\<close>

text \<open>Every entry maps addresses of the megabyte of its own number only.\<close>

definition mb_view :: "(u32 \<rightharpoonup> u64) \<Rightarrow> bool" where
  "mb_view v \<longleftrightarrow> (\<forall>i e. v i = Some e \<longrightarrow> ctz e < 24 \<and> (\<forall>va. tlb_entry_matches (mmu_key 0 va) e \<longrightarrow> tlb_entry_num va = i))"

lemma mb_view_start: "start < 0x100000 \<Longrightarrow> mb_view (start_view start)"
  using start_entry_page_map [of start] by (auto simp: mb_view_def start_view_def page_map_def tlb_entry_num_def)

lemma mb_view_upd:
  assumes "mb_view v" "page_map e 12 vp pp" "tlb_entry_num vp = k"
  shows "mb_view (v(k \<mapsto> e))"
proof -
  have "tlb_entry_num va = k" if "drop_bit 12 va = drop_bit 12 vp" for va
  proof -
    have "drop_bit 8 (drop_bit 12 va) = drop_bit 8 (drop_bit 12 vp)" using that by simp
    then show ?thesis using assms(3) by (simp add: tlb_entry_num_def drop_bit_drop_bit)
  qed
  then have "ctz e < 24 \<and> (\<forall>va. tlb_entry_matches (mmu_key 0 va) e \<longrightarrow> tlb_entry_num va = k)"
    using assms(2) by (simp add: page_map_def)
  then show ?thesis using assms(1) unfolding mb_view_def by simp
qed

lemma mb_view_only:
  "mb_view v \<Longrightarrow> v (tlb_entry_num va) = Some e \<Longrightarrow> tlb_entry_matches (mmu_key 0 va) e \<Longrightarrow> only_maps v va (tlb_entry_num va)"
  unfolding mb_view_def only_maps_def by metis

lemma mb_view_none: "mb_view v \<Longrightarrow> v (tlb_entry_num va) = None \<Longrightarrow> none_maps v va"
  unfolding mb_view_def none_maps_def by fastforce

text \<open>The state while the test runs in user mode with its own handlers, with the set of causes recorded.\<close>

definition in_test :: "'d board \<Rightarrow> ('d \<Rightarrow> u32 \<Rightarrow> bool) \<Rightarrow> (u32 \<rightharpoonup> u64) \<Rightarrow> nat set \<Rightarrow> 'd mtest \<Rightarrow> bool" where
  "in_test b ok v E s \<longleftrightarrow> ready b ok v s \<and> mb_view v \<and> (\<exists>start < 0x100000. v 0 = Some (start_entry start)) \<and>
     evb (mmu s) = my_event_vectors b \<and> user_mode (mmu s) \<and> excp_set (my_exceptions (mmu s)) = E"

lemma in_test_update [simp]:
  "in_test b ok v E (s\<lparr>phys := p\<rparr>) = in_test b ok v E s" "in_test b ok v E (s\<lparr>chk := c\<rparr>) = in_test b ok v E s"
  by (simp_all add: in_test_def)

lemma access_own_test:
  assumes "board_ok b ok" "in_test b ok v E s" "va < 0x100000"
  shows "access_va b acc va s = Some (ucast va, s)"
proof -
  obtain start where start: "start < 0x100000" "v 0 = Some (start_entry start)" using assms(2) by (auto simp: in_test_def)
  have n: "tlb_entry_num va = 0" using first_mb(1) [OF assms(3)] by (simp add: tlb_entry_num_def)
  have "tlb_entry_matches (mmu_key 0 va) (start_entry start)"
    using start_entry_page_map [OF start(1)] first_mb(1) [OF assms(3)] by (simp add: page_map_def)
  then have "only_maps v va 0" using mb_view_only [of v va] assms(2) start(2) n by (simp add: in_test_def)
  then show ?thesis using access_own [where v = v, OF assms(1) _ start(2, 1) _ assms(3)] assms(2) by (simp add: in_test_def)
qed

lemma ready_own_entry:
  assumes "ready b ok v s" "mb_view v" "v (tlb_entry_num va) = Some e" "tlb_entry_matches (mmu_key 0 va) e" "va < 0x80000000"
  shows "own_entry (tlb b) ok va (mmu s)" "tlbr (tlb b) (mmu s) (tlb_entry_num va) = e"
proof -
  have v: "tlb_view (tlb b) ok (dev (rt (mmu s))) v" "current_asid (mmu s) = 0" using assms(1) by (simp_all add: ready_def)
  then have e: "ok (dev (rt (mmu s))) (tlb_entry_num va)" "op_tlbr (tlb b) (dev (rt (mmu s))) (tlb_entry_num va) = e"
    using assms(3) by (auto simp: tlb_view_def)
  then show "tlbr (tlb b) (mmu s) (tlb_entry_num va) = e" by (simp add: tlbr_def)
  have "j = tlb_entry_num va" if "ok (dev (rt (mmu s))) j" "tlb_entry_matches (mmu_key 0 va) (op_tlbr (tlb b) (dev (rt (mmu s))) j)" for j
  proof (cases "v j")
    case None
    then show ?thesis using v(1) that assms(5) by (auto simp: tlb_view_def)
  next
    case (Some e')
    then have "tlb_entry_matches (mmu_key 0 va) e'" using v(1) that by (auto simp: tlb_view_def)
    then show ?thesis using assms(2) Some by (auto simp: mb_view_def)
  qed
  moreover have "ctz e < 24" using assms(2, 3) unfolding mb_view_def by blast
  ultimately show "own_entry (tlb b) ok va (mmu s)"
    using e assms(4) unfolding own_entry_def tlbr_def v(2) by blast
qed

lemma repaired_view:
  assumes "repaired hw ok acc va m m'" "tlb_view hw ok (dev (rt m)) v" "v (tlb_entry_num va) = Some e"
    "page_map e n vp pp"
  shows "tlb_view hw ok (dev (rt m')) (v(tlb_entry_num va \<mapsto> grant acc (user_mode m) e))"
proof -
  have ok: "ok (dev (rt m')) j = ok (dev (rt m)) j" for j using assms(1) by (simp add: repaired_def)
  have rd: "op_tlbr hw (dev (rt m')) j = (if j = tlb_entry_num va then grant acc (user_mode m) (op_tlbr hw (dev (rt m)) j)
      else op_tlbr hw (dev (rt m)) j)" if "ok (dev (rt m)) j" for j
    using assms(1) that unfolding repaired_def tlbr_def by blast
  have e: "ok (dev (rt m)) (tlb_entry_num va)" "op_tlbr hw (dev (rt m)) (tlb_entry_num va) = e"
    using assms(2, 3) by (auto simp: tlb_view_def)
  show ?thesis unfolding tlb_view_def
  proof (intro conjI allI impI)
    fix i f assume "(v(tlb_entry_num va \<mapsto> grant acc (user_mode m) e)) i = Some f"
    then show "ok (dev (rt m')) i" "op_tlbr hw (dev (rt m')) i = f"
      using assms(2) e rd by (auto simp: ok tlb_view_def split: if_splits)
  next
    fix j x assume j: "ok (dev (rt m')) j" "(v(tlb_entry_num va \<mapsto> grant acc (user_mode m) e)) j = None" "x < (0x80000000 :: u32)"
    then have "j \<noteq> tlb_entry_num va" "v j = None" by (auto split: if_splits)
    then show "\<not> tlb_entry_matches (mmu_key 0 x) (op_tlbr hw (dev (rt m')) j)"
      using j assms(2) rd by (auto simp: ok tlb_view_def)
  qed
qed

text \<open>An access to a page mapped in the megabyte of its entry: the permissions it lacks are added and their causes recorded.\<close>

lemma access_granted:
  assumes b: "board_ok b ok" and s: "in_test b ok v E s" and e: "v k = Some e"
    "page_map e 12 (page_start a 12 + k * ONE_MB) (ucast (page_start a 12))"
    and k: "unat k \<in> {1..5}" and a: "a < 0x100000" and x: "x < 0x100000" "drop_bit 12 x = drop_bit 12 a"
  shows "\<exists>s'. access_va b acc (x + k * ONE_MB) s = Some (ucast x, s') \<and> phys s' = phys s \<and> chk s' = chk s \<and>
    in_test b ok (v(k \<mapsto> grant acc True e)) (E \<union> unat ` missing_causes acc True e) s'"
proof -
  let ?va = "x + k * ONE_MB"
  note off = mb_offset_mb(1) [OF k]
  have n: "tlb_entry_num ?va = k" using mb_offset_mb(2) [OF k x(1)] .
  have page: "page_start x 12 = page_start a 12" using x(2) by (rule page_start_cong)
  have m: "tlb_entry_matches (mmu_key 0 ?va) e"
    using e(2) moved_page [OF off x(1)] by (simp add: page_map_def page)
  have pa: "tlb_translate e ?va = ucast x"
    using e(2) moved_phys [OF off x(1)] by (simp add: page_map_def page)
  have r: "ready b ok v s" "mb_view v" "user_mode (mmu s)" "evb (mmu s) = my_event_vectors b" "excp_set (my_exceptions (mmu s)) = E"
    using s by (simp_all add: in_test_def)
  have own: "own_entry (tlb b) ok ?va (mmu s)" "tlbr (tlb b) (mmu s) k = e"
    using ready_own_entry [OF r(1, 2) _ m moved_below [OF off x(1)]] e(1) by (simp_all add: n)
  have hw: "tlb_device (tlb b) ok" "access_check (perm_check b)" using b by (simp_all add: board_ok_def)
  have "\<not> bit (getssr (mmu s)) 17" using r(3) by (simp add: user_mode_def)
  from access_repaired [OF hw own(1) r(4) this] obtain m' where
    m': "mem_access (tlb b) (perm_check b) (error_handler (tlb b) (my_event_vectors b) (runtime_error b)) acc ?va (mmu s) = Some (m', ucast x)"
    "repaired (tlb b) ok acc ?va (mmu s) m'"
    by (auto simp: n own(2) pa)
  have pm: "page_map (grant acc True e) 12 (page_start a 12 + k * ONE_MB) (ucast (page_start a 12))"
    using e(2) by (rule page_map_grant)
  have "tlb_view (tlb b) ok (dev (rt m')) (v(k \<mapsto> grant acc True e))"
    using repaired_view [OF m'(2) _ _ e(2)] r(1, 3) e(1) by (simp add: ready_def n)
  moreover have "mb_view (v(k \<mapsto> grant acc True e))"
    by (rule mb_view_upd [OF r(2) pm]) (use mb_offset_mb(2) [OF k page_start_small [OF a]] in simp)
  moreover have "0 \<noteq> k" using k by auto
  ultimately have "in_test b ok (v(k \<mapsto> grant acc True e)) (E \<union> unat ` missing_causes acc True e) (s\<lparr>mmu := m'\<rparr>)"
    using m'(2) s r own(2) by (simp add: in_test_def ready_def repaired_def n)
  then show ?thesis using m'(1) by (simp add: access_va_def)
qed

lemma missing_granted: "missing_causes acc um (grant acc um e) = {}"
  by (simp add: missing_causes_bits bit_grant)

lemma excp_set_inj: "excp_set v = excp_set w \<Longrightarrow> v = w"
proof -
  assume eq: "excp_set v = excp_set w"
  have "bit (fst v) i = bit (fst w) i" if "i < 64" for i
  proof -
    have "(i \<in> excp_set v) = (i \<in> excp_set w)" using eq by simp
    then show ?thesis using that by (simp add: excp_set_def)
  qed
  moreover have "bit (snd v) i = bit (snd w) i" for i
  proof -
    have "(i + 64 \<in> excp_set v) = (i + 64 \<in> excp_set w)" using eq by simp
    then show ?thesis by (simp add: excp_set_def)
  qed
  ultimately have "fst v = fst w" "snd v = snd w" by (intro bit_word_eqI; simp)+
  then show ?thesis by (rule prod_eqI)
qed

text \<open>The permissions of the five pages, and what each access to them lacks in user mode.\<close>

lemma page_entry_missing:
  "missing_causes Read True (page_entry b va pa sz (TLB_X OR TLB_W OR TLB_U)) = {HEX_CAUSE_PRIV_NO_READ}"
  "missing_causes Read True (page_entry b va pa sz (TLB_X OR TLB_W OR TLB_R)) = {HEX_CAUSE_PRIV_NO_UREAD}"
  "missing_causes Write True (page_entry b va pa sz (TLB_X OR TLB_R OR TLB_U)) = {HEX_CAUSE_PRIV_NO_WRITE}"
  "missing_causes Write True (page_entry b va pa sz (TLB_X OR TLB_R OR TLB_W)) = {HEX_CAUSE_PRIV_NO_UWRITE}"
  "missing_causes Fetch True (page_entry b va pa sz (TLB_W OR TLB_R)) = {HEX_CAUSE_FETCH_NO_UPAGE, HEX_CAUSE_FETCH_NO_XPAGE}"
  by (simp_all add: missing_causes_bits bit_translation_entry_perm perm_bit_def TLB_X_def TLB_W_def TLB_R_def TLB_U_def)

lemma map_page_mb:
  assumes b: "board_ok b ok" and s: "ready b ok v s" "mb_view v" "v k = None" and k: "unat k \<in> {1..5}" "a < 0x100000"
    and e: "e = page_entry b (page_start a 12 + k * ONE_MB) (page_start a 12) (PageSize SHIFT_4K) perm"
  shows "\<exists>s'. map_page b k (page_start a 12 + k * ONE_MB) (page_start a 12) (PageSize SHIFT_4K) perm s = Some s' \<and>
    ready b ok (v(k \<mapsto> e)) s' \<and> mb_view (v(k \<mapsto> e)) \<and> same_world s s' \<and> tlbp (tlb b) (mmu s') 0 (a + k * ONE_MB) = k \<and>
    page_map e 12 (page_start a 12 + k * ONE_MB) (ucast (page_start a 12))"
proof -
  note off = mb_offset_mb(1) [OF k(1)]
  note page = page_start_small [OF k(2), of 12]
  have n: "tlb_entry_num (page_start a 12 + k * ONE_MB) = k" "tlb_entry_num (a + k * ONE_MB) = k"
    using mb_offset_mb(2) [OF k(1) page] mb_offset_mb(2) [OF k(1, 2)] by simp_all
  have none: "none_maps v (page_start a 12 + k * ONE_MB)" using mb_view_none [OF s(2)] s(3) n(1) by simp
  have i: "k \<in> {1..5}" using k(1) by (simp add: word_le_nat_alt)
  obtain s' where s': "map_page b k (page_start a 12 + k * ONE_MB) (page_start a 12) (PageSize SHIFT_4K) perm s = Some s'"
    "ready b ok (v(k \<mapsto> e)) s'" "same_world s s'"
    using map_page_ok [OF b s(1) i moved_below [OF off page] none] unfolding e by blast
  have pm: "page_map e 12 (page_start a 12 + k * ONE_MB) (ucast (page_start a 12))"
    unfolding e using page_entry_maps [OF k(2) off, of SHIFT_4K] by simp
  have mb: "mb_view (v(k \<mapsto> e))" using mb_view_upd [OF s(2) pm n(1)] .
  have "tlb_entry_matches (mmu_key 0 (a + k * ONE_MB)) e" using pm moved_page [OF off k(2)] by (simp add: page_map_def)
  then have "only_maps (v(k \<mapsto> e)) (a + k * ONE_MB) k" using mb_view_only [OF mb, of "a + k * ONE_MB" e] n(2) by simp
  then have "tlbp (tlb b) (mmu s') 0 (a + k * ONE_MB) = k" using ready_probe(1) [OF b s'(2) moved_below [OF off k(2)]] by simp
  then show ?thesis using s' mb pm by blast
qed

lemma user_mode_start:
  assumes "ready b ok v s" "mb_view v" "v 0 = Some (start_entry start)" "start < 0x100000" "excp_set (my_exceptions (mmu s)) = {}"
  shows "in_test b ok v {} (s\<lparr>mmu := enter_user_mode (install_my_event_vectors (my_event_vectors b) (mmu s))\<rparr>)"
proof -
  let ?m = "install_my_event_vectors (my_event_vectors b) (mmu s)"
  have m: "rt ?m = rt (mmu s)" "my_exceptions ?m = my_exceptions (mmu s)" "evb ?m = my_event_vectors b" "getssr ?m = getssr (mmu s)"
    by (simp_all add: install_my_event_vectors_def setevb_def Let_def getssr_def)
  have u: "dev (rt (enter_user_mode ?m)) = dev (rt (mmu s))" "tlb_fixed_entries (rt (enter_user_mode ?m)) = tlb_fixed_entries (rt (mmu s))"
    "evb (enter_user_mode ?m) = my_event_vectors b" "my_exceptions (enter_user_mode ?m) = my_exceptions (mmu s)"
    using m by (simp_all add: enter_user_mode_def setssr_def Let_def)
  have bits: "bit (getssr (enter_user_mode ?m)) i = (if i \<in> {17, 19} then False else i = 16 \<or> bit (getssr ?m) i)" for i
    using mode_switch_bits by blast
  have "current_asid (enter_user_mode ?m) = current_asid ?m" by (rule asid_cong) (simp add: bits)
  also have "\<dots> = 0" using assms(1) m(4) by (simp add: ready_def current_asid_def)
  finally show ?thesis using assms u by (auto simp: in_test_def ready_def user_mode_def bits)
qed

lemma read_granted:
  assumes "board_ok b ok" "in_test b ok v E s" "v k = Some e"
    "page_map e 12 (page_start (data b) 12 + k * ONE_MB) (ucast (page_start (data b) 12))" "unat k \<in> {1..5}"
    "missing_causes Read True e = C" "phys s (ucast (data b)) = w"
  shows "\<exists>s'. chk_read line b (data b + k * ONE_MB) w s = Some s' \<and> phys s' = phys s \<and> chk s' = chk s \<and>
    in_test b ok (v(k \<mapsto> grant Read True e)) (E \<union> unat ` C) s'"
proof -
  have d: "data b < 0x100000" using assms(1) by (simp add: board_ok_def)
  obtain s' where s': "access_va b Read (data b + k * ONE_MB) s = Some (ucast (data b), s')" "phys s' = phys s" "chk s' = chk s"
    "in_test b ok (v(k \<mapsto> grant Read True e)) (E \<union> unat ` C) s'"
    using access_granted [OF assms(1-5) d d refl, of Read] assms(6) by auto
  then show ?thesis using assms(7) by (simp add: chk_read_def read_var_def)
qed

lemma write_granted:
  assumes "board_ok b ok" "in_test b ok v E s" "v k = Some e"
    "page_map e 12 (page_start (data b) 12 + k * ONE_MB) (ucast (page_start (data b) 12))" "unat k \<in> {1..5}"
    "missing_causes Write True e = C"
  shows "\<exists>s'. write_var b (data b + k * ONE_MB) w s = Some s' \<and> phys s' (ucast (data b)) = w \<and> chk s' = chk s \<and>
    in_test b ok (v(k \<mapsto> grant Write True e)) (E \<union> unat ` C) s'"
proof -
  have d: "data b < 0x100000" using assms(1) by (simp add: board_ok_def)
  obtain s' where s': "access_va b Write (data b + k * ONE_MB) s = Some (ucast (data b), s')" "chk s' = chk s"
    "in_test b ok (v(k \<mapsto> grant Write True e)) (E \<union> unat ` C) s'"
    using access_granted [OF assms(1-5) d d refl, of Write] assms(6) by auto
  then show ?thesis by (simp add: write_var_def)
qed

lemma call_granted:
  assumes b: "board_ok b ok" and s: "in_test b ok v E s" and e: "v k = Some e"
    "page_map e 12 (page_start (func_return_pc b) 12 + k * ONE_MB) (ucast (page_start (func_return_pc b) 12))" and k: "unat k \<in> {1..5}"
    and C: "missing_causes Fetch True e = C"
  shows "\<exists>s' v'. chk_call line b (func_return_pc b + k * ONE_MB) (func_return_pc b + k * ONE_MB) s = Some s' \<and> chk s' = chk s \<and>
    in_test b ok v' (E \<union> unat ` C) s'"
proof -
  let ?f = "func_return_pc b"
  have f: "?f < 0x100000" "?f + 4 < 0x100000" "drop_bit 12 (?f + 4) = drop_bit 12 ?f" using b by (simp_all add: board_ok_def)
  obtain s1 where s1: "access_va b Fetch (?f + k * ONE_MB) s = Some (ucast ?f, s1)" "chk s1 = chk s"
    "in_test b ok (v(k \<mapsto> grant Fetch True e)) (E \<union> unat ` C) s1"
    using access_granted [OF b s e k f(1) f(1) refl, of Fetch] C by auto
  obtain s2 v' where s2: "access_va b Fetch (?f + 4 + k * ONE_MB) s1 = Some (ucast (?f + 4), s2)" "chk s2 = chk s1"
    "in_test b ok v' (E \<union> unat ` C) s2"
    using access_granted [OF b s1(3) _ page_map_grant [OF e(2)] k f(1, 2, 3), of Fetch True Fetch] by (auto simp: missing_granted)
  then show ?thesis using s1 by (auto simp: chk_call_def call_func_def add_right_swap [of ?f])
qed

lemma read_own:
  assumes "board_ok b ok" "in_test b ok v E s" "phys s (ucast (data b)) = w"
  shows "chk_read line b (data b) w s = Some s"
  using access_own_test [OF assms(1, 2)] assms(1, 3) by (simp add: chk_read_def read_var_def board_ok_def)

lemma excp_set_clear [simp]: "excp_set (clear_exception_vector v) = {}"
  by (simp add: clear_exception_vector_def excp_set_def)

lemma expected_exceptions:
  assumes "excp_set e = {0x11, 0x12, 0x22, 0x23, 0x24, 0x25}"
  shows "set_exception_vector_bit (set_exception_vector_bit (set_exception_vector_bit (set_exception_vector_bit
    (set_exception_vector_bit (set_exception_vector_bit (clear_exception_vector (0, 0)) HEX_CAUSE_FETCH_NO_XPAGE)
      HEX_CAUSE_FETCH_NO_UPAGE) HEX_CAUSE_PRIV_NO_READ) HEX_CAUSE_PRIV_NO_WRITE) HEX_CAUSE_PRIV_NO_UREAD) HEX_CAUSE_PRIV_NO_UWRITE = e"
  by (rule excp_set_inj) (auto simp: assms excp_set_insert cause_defs)

text \<open>Mapping the five pages.\<close>

lemma map_five:
  assumes b: "board_ok b ok" and r: "ready b ok (start_view start) s" and start: "start < 0x100000"
    and e: "e1 = page_entry b (page_start (data b) 12 + ONE_MB) (page_start (data b) 12) (PageSize SHIFT_4K) p1"
      "e2 = page_entry b (page_start (data b) 12 + TWO_MB) (page_start (data b) 12) (PageSize SHIFT_4K) p2"
      "e3 = page_entry b (page_start (data b) 12 + THREE_MB) (page_start (data b) 12) (PageSize SHIFT_4K) p3"
      "e4 = page_entry b (page_start (data b) 12 + FOUR_MB) (page_start (data b) 12) (PageSize SHIFT_4K) p4"
      "e5 = page_entry b (page_start (func_return_pc b) 12 + FIVE_MB) (page_start (func_return_pc b) 12) (PageSize SHIFT_4K) p5"
  obtains s1 s2 s3 s4 s5 where
    "map_page b 1 (page_start (data b) 12 + ONE_MB) (page_start (data b) 12) (PageSize SHIFT_4K) p1 s = Some s1"
    "map_page b 2 (page_start (data b) 12 + TWO_MB) (page_start (data b) 12) (PageSize SHIFT_4K) p2 s1 = Some s2"
    "map_page b 3 (page_start (data b) 12 + THREE_MB) (page_start (data b) 12) (PageSize SHIFT_4K) p3 s2 = Some s3"
    "map_page b 4 (page_start (data b) 12 + FOUR_MB) (page_start (data b) 12) (PageSize SHIFT_4K) p4 s3 = Some s4"
    "map_page b 5 (page_start (func_return_pc b) 12 + FIVE_MB) (page_start (func_return_pc b) 12) (PageSize SHIFT_4K) p5 s4 = Some s5"
    "tlbp (tlb b) (mmu s1) 0 (data b + ONE_MB) = 1" "tlbp (tlb b) (mmu s2) 0 (data b + TWO_MB) = 2"
    "tlbp (tlb b) (mmu s3) 0 (data b + THREE_MB) = 3" "tlbp (tlb b) (mmu s4) 0 (data b + FOUR_MB) = 4"
    "tlbp (tlb b) (mmu s5) 0 (func_return_pc b + FIVE_MB) = 5"
    "ready b ok ((start_view start)(1 \<mapsto> e1, 2 \<mapsto> e2, 3 \<mapsto> e3, 4 \<mapsto> e4, 5 \<mapsto> e5)) s5"
    "mb_view ((start_view start)(1 \<mapsto> e1, 2 \<mapsto> e2, 3 \<mapsto> e3, 4 \<mapsto> e4, 5 \<mapsto> e5))" "same_world s s5"
    "page_map e1 12 (page_start (data b) 12 + 1 * ONE_MB) (ucast (page_start (data b) 12))"
    "page_map e2 12 (page_start (data b) 12 + 2 * ONE_MB) (ucast (page_start (data b) 12))"
    "page_map e3 12 (page_start (data b) 12 + 3 * ONE_MB) (ucast (page_start (data b) 12))"
    "page_map e4 12 (page_start (data b) 12 + 4 * ONE_MB) (ucast (page_start (data b) 12))"
    "page_map e5 12 (page_start (func_return_pc b) 12 + 5 * ONE_MB) (ucast (page_start (func_return_pc b) 12))"
proof -
  have d: "data b < 0x100000" and f: "func_return_pc b < 0x100000" using b by (simp_all add: board_ok_def)
  note mbs = TWO_MB_def THREE_MB_def FOUR_MB_def FIVE_MB_def
  let ?v0 = "start_view start"
  have v0: "?v0 1 = None" "?v0 2 = None" "?v0 3 = None" "?v0 4 = None" "?v0 5 = None" by (simp_all add: start_view_def)
  obtain s1 where s1: "map_page b 1 (page_start (data b) 12 + ONE_MB) (page_start (data b) 12) (PageSize SHIFT_4K) p1 s = Some s1"
    "ready b ok (?v0(1 \<mapsto> e1)) s1" "mb_view (?v0(1 \<mapsto> e1))" "same_world s s1" "tlbp (tlb b) (mmu s1) 0 (data b + ONE_MB) = 1"
    "page_map e1 12 (page_start (data b) 12 + 1 * ONE_MB) (ucast (page_start (data b) 12))"
    using map_page_mb [OF b r mb_view_start [OF start] v0(1) _ d, of e1 p1] by (auto simp: e(1))
  obtain s2 where s2: "map_page b 2 (page_start (data b) 12 + TWO_MB) (page_start (data b) 12) (PageSize SHIFT_4K) p2 s1 = Some s2"
    "ready b ok (?v0(1 \<mapsto> e1, 2 \<mapsto> e2)) s2" "mb_view (?v0(1 \<mapsto> e1, 2 \<mapsto> e2))" "same_world s1 s2" "tlbp (tlb b) (mmu s2) 0 (data b + TWO_MB) = 2"
    "page_map e2 12 (page_start (data b) 12 + 2 * ONE_MB) (ucast (page_start (data b) 12))"
    using map_page_mb [OF b s1(2, 3) _ _ d, of 2 e2 p2] v0(2) by (auto simp: e(2) mbs)
  obtain s3 where s3: "map_page b 3 (page_start (data b) 12 + THREE_MB) (page_start (data b) 12) (PageSize SHIFT_4K) p3 s2 = Some s3"
    "ready b ok (?v0(1 \<mapsto> e1, 2 \<mapsto> e2, 3 \<mapsto> e3)) s3" "mb_view (?v0(1 \<mapsto> e1, 2 \<mapsto> e2, 3 \<mapsto> e3))" "same_world s2 s3"
    "tlbp (tlb b) (mmu s3) 0 (data b + THREE_MB) = 3"
    "page_map e3 12 (page_start (data b) 12 + 3 * ONE_MB) (ucast (page_start (data b) 12))"
    using map_page_mb [OF b s2(2, 3) _ _ d, of 3 e3 p3] v0(3) by (auto simp: e(3) mbs)
  obtain s4 where s4: "map_page b 4 (page_start (data b) 12 + FOUR_MB) (page_start (data b) 12) (PageSize SHIFT_4K) p4 s3 = Some s4"
    "ready b ok (?v0(1 \<mapsto> e1, 2 \<mapsto> e2, 3 \<mapsto> e3, 4 \<mapsto> e4)) s4" "mb_view (?v0(1 \<mapsto> e1, 2 \<mapsto> e2, 3 \<mapsto> e3, 4 \<mapsto> e4))" "same_world s3 s4"
    "tlbp (tlb b) (mmu s4) 0 (data b + FOUR_MB) = 4"
    "page_map e4 12 (page_start (data b) 12 + 4 * ONE_MB) (ucast (page_start (data b) 12))"
    using map_page_mb [OF b s3(2, 3) _ _ d, of 4 e4 p4] v0(4) by (auto simp: e(4) mbs)
  obtain s5 where s5: "map_page b 5 (page_start (func_return_pc b) 12 + FIVE_MB) (page_start (func_return_pc b) 12) (PageSize SHIFT_4K) p5 s4 = Some s5"
    "ready b ok (?v0(1 \<mapsto> e1, 2 \<mapsto> e2, 3 \<mapsto> e3, 4 \<mapsto> e4, 5 \<mapsto> e5)) s5"
    "mb_view (?v0(1 \<mapsto> e1, 2 \<mapsto> e2, 3 \<mapsto> e3, 4 \<mapsto> e4, 5 \<mapsto> e5))" "same_world s4 s5"
    "tlbp (tlb b) (mmu s5) 0 (func_return_pc b + FIVE_MB) = 5"
    "page_map e5 12 (page_start (func_return_pc b) 12 + 5 * ONE_MB) (ucast (page_start (func_return_pc b) 12))"
    using map_page_mb [OF b s4(2, 3) _ _ f, of 5 e5 p5] v0(5) by (auto simp: e(5) mbs)
  have "same_world s s5" using s1(4) s2(4) s3(4) s4(4) s5(4) by (simp add: same_world_def)
  then show thesis using that s1(1, 5, 6) s2(1, 5, 6) s3(1, 5, 6) s4(1, 5, 6) s5(1-3, 5, 6) by metis
qed

text \<open>The accesses in user mode.\<close>

lemma user_accesses:
  assumes b: "board_ok b ok" and s: "in_test b ok v {} s" and w: "phys s (ucast (data b)) = 0xdeadbeef"
    and v: "v 1 = Some e1" "v 2 = Some e2" "v 3 = Some e3" "v 4 = Some e4" "v 5 = Some e5"
    and pm: "page_map e1 12 (page_start (data b) 12 + 1 * ONE_MB) (ucast (page_start (data b) 12))"
      "page_map e2 12 (page_start (data b) 12 + 2 * ONE_MB) (ucast (page_start (data b) 12))"
      "page_map e3 12 (page_start (data b) 12 + 3 * ONE_MB) (ucast (page_start (data b) 12))"
      "page_map e4 12 (page_start (data b) 12 + 4 * ONE_MB) (ucast (page_start (data b) 12))"
      "page_map e5 12 (page_start (func_return_pc b) 12 + 5 * ONE_MB) (ucast (page_start (func_return_pc b) 12))"
    and miss: "missing_causes Read True e1 = {HEX_CAUSE_PRIV_NO_READ}" "missing_causes Read True e2 = {HEX_CAUSE_PRIV_NO_UREAD}"
      "missing_causes Write True e3 = {HEX_CAUSE_PRIV_NO_WRITE}" "missing_causes Write True e4 = {HEX_CAUSE_PRIV_NO_UWRITE}"
      "missing_causes Fetch True e5 = {HEX_CAUSE_FETCH_NO_UPAGE, HEX_CAUSE_FETCH_NO_XPAGE}"
  obtains s1 s2 s3 s4 s5 where
    "chk_read 90 b (data b + ONE_MB) 0xdeadbeef s = Some s1" "chk_read 91 b (data b + TWO_MB) 0xdeadbeef s1 = Some s2"
    "write_var b (data b + THREE_MB) 0xc0ffee s2 = Some s3" "chk_read 98 b (data b) 0xc0ffee s3 = Some s3"
    "write_var b (data b + FOUR_MB) 0xc0ffee s3 = Some s4" "chk_read 102 b (data b) 0xc0ffee s4 = Some s4"
    "chk_call 105 b (func_return_pc b + FIVE_MB) (func_return_pc b + FIVE_MB) s4 = Some s5"
    "chk s5 = chk s" "excp_set (my_exceptions (mmu s5)) = {0x11, 0x12, 0x22, 0x23, 0x24, 0x25}"
proof -
  note mbs = TWO_MB_def THREE_MB_def FOUR_MB_def FIVE_MB_def
  have k: "unat (1 :: u32) \<in> {1..5}" "unat (2 :: u32) \<in> {1..5}" "unat (3 :: u32) \<in> {1..5}" "unat (4 :: u32) \<in> {1..5}" "unat (5 :: u32) \<in> {1..5}"
    by simp_all
  obtain s1 where s1: "chk_read 90 b (data b + ONE_MB) 0xdeadbeef s = Some s1" "phys s1 = phys s" "chk s1 = chk s"
    "in_test b ok (v(1 \<mapsto> grant Read True e1)) {0x22} s1"
    using read_granted [OF b s v(1) pm(1) k(1) miss(1) w, of 90] by (auto simp: cause_defs)
  obtain s2 where s2: "chk_read 91 b (data b + TWO_MB) 0xdeadbeef s1 = Some s2" "phys s2 = phys s" "chk s2 = chk s"
    "in_test b ok (v(1 \<mapsto> grant Read True e1, 2 \<mapsto> grant Read True e2)) {0x22, 0x24} s2"
    using read_granted [OF b s1(4) _ pm(2) k(2) miss(2), of "0xdeadbeef" 91] v(2) w s1(2, 3)
    by (auto simp: cause_defs mbs insert_commute)
  obtain s3 where s3: "write_var b (data b + THREE_MB) 0xc0ffee s2 = Some s3" "phys s3 (ucast (data b)) = 0xc0ffee" "chk s3 = chk s"
    "in_test b ok (v(1 \<mapsto> grant Read True e1, 2 \<mapsto> grant Read True e2, 3 \<mapsto> grant Write True e3)) {0x22, 0x24, 0x23} s3"
    using write_granted [OF b s2(4) _ pm(3) k(3) miss(3), of "0xc0ffee"] v(3) s2(3) by (auto simp: cause_defs mbs insert_commute)
  obtain s4 where s4: "write_var b (data b + FOUR_MB) 0xc0ffee s3 = Some s4" "phys s4 (ucast (data b)) = 0xc0ffee" "chk s4 = chk s"
    "in_test b ok (v(1 \<mapsto> grant Read True e1, 2 \<mapsto> grant Read True e2, 3 \<mapsto> grant Write True e3, 4 \<mapsto> grant Write True e4))
       {0x22, 0x24, 0x23, 0x25} s4"
    using write_granted [OF b s3(4) _ pm(4) k(4) miss(4), of "0xc0ffee"] v(4) s3(3) by (auto simp: cause_defs mbs insert_commute)
  obtain s5 v' where s5: "chk_call 105 b (func_return_pc b + FIVE_MB) (func_return_pc b + FIVE_MB) s4 = Some s5" "chk s5 = chk s"
    "in_test b ok v' ({0x22, 0x24, 0x23, 0x25} \<union> {0x12, 0x11}) s5"
    using call_granted [OF b s4(4) _ pm(5) k(5) miss(5), of 105] v(5) s4(3) by (auto simp: cause_defs mbs)
  have "excp_set (my_exceptions (mmu s5)) = {0x11, 0x12, 0x22, 0x23, 0x24, 0x25}" using s5(3) by (auto simp: in_test_def)
  moreover have "chk_read 98 b (data b) 0xc0ffee s3 = Some s3" "chk_read 102 b (data b) 0xc0ffee s4 = Some s4"
    using read_own [OF b s3(4, 2)] read_own [OF b s4(4, 2)] by simp_all
  ultimately show thesis using that s1(1) s2(1) s3(1) s4(1) s5(1, 2) by blast
qed

text \<open>C5: The permissions test passes: every user-mode load, store and call through a page that lacks a permission faults, the
  handler adds exactly the missing permission, the access is repeated and reaches the variable or the function, the exceptions taken
  are exactly the six expected ones, and the program prints \<open>PASS\<close> and returns 0, whichever missing permission the hardware reports
  first.\<close>

theorem mmu_permissions_passes:
  assumes "board_ok b ok" "start_state b ok s"
  shows "\<exists>s'. mmu_permissions_main b s = Some ((0, ''PASS''), s') \<and>
    excp_set (my_exceptions (mmu s')) = {0x11, 0x12, 0x22, 0x23, 0x24, 0x25}"
proof -
  obtain start where start: "start < 0x100000" "ready b ok (start_view start) s" "err (chk s) = 0"
    using assms(2) by (auto simp: start_state_def)
  have d: "data b < 0x100000" using assms(1) by (simp add: board_ok_def)
  define s0 where "s0 = s\<lparr>mmu := (mmu s)\<lparr>my_exceptions := clear_exception_vector (my_exceptions (mmu s))\<rparr>\<rparr>"
  define t where "t = s0\<lparr>phys := (phys s0)(ucast (data b) := 0xdeadbeef)\<rparr>"
  have r0: "ready b ok (start_view start) s0" using start(2) by (simp add: ready_def s0_def current_asid_def getssr_def)
  then have r: "ready b ok (start_view start) t" by (simp add: t_def)
  have "access_va b Write (data b) s0 = Some (ucast (data b), s0)"
    by (rule access_own [OF assms(1) r0 _ start(1) _ d], simp add: start_view_def,
        simp add: start_view_maps(1) [OF start(1)] first_mb [OF d])
  then have w0: "write_var b (data b) 0xdeadbeef s0 = Some t" by (simp add: write_var_def t_def)
  let ?p = "page_start (data b) 12" and ?q = "page_start (func_return_pc b) 12"
  define e1 where "e1 = page_entry b (?p + ONE_MB) ?p (PageSize SHIFT_4K) (TLB_X OR TLB_W OR TLB_U)"
  define e2 where "e2 = page_entry b (?p + TWO_MB) ?p (PageSize SHIFT_4K) (TLB_X OR TLB_W OR TLB_R)"
  define e3 where "e3 = page_entry b (?p + THREE_MB) ?p (PageSize SHIFT_4K) (TLB_X OR TLB_R OR TLB_U)"
  define e4 where "e4 = page_entry b (?p + FOUR_MB) ?p (PageSize SHIFT_4K) (TLB_X OR TLB_R OR TLB_W)"
  define e5 where "e5 = page_entry b (?q + FIVE_MB) ?q (PageSize SHIFT_4K) (TLB_W OR TLB_R)"
  let ?v = "(start_view start)(1 \<mapsto> e1, 2 \<mapsto> e2, 3 \<mapsto> e3, 4 \<mapsto> e4, 5 \<mapsto> e5)"
  obtain s1 s2 s3 s4 s5 where m:
    "map_page b 1 (?p + ONE_MB) ?p (PageSize SHIFT_4K) (TLB_X OR TLB_W OR TLB_U) t = Some s1"
    "map_page b 2 (?p + TWO_MB) ?p (PageSize SHIFT_4K) (TLB_X OR TLB_W OR TLB_R) s1 = Some s2"
    "map_page b 3 (?p + THREE_MB) ?p (PageSize SHIFT_4K) (TLB_X OR TLB_R OR TLB_U) s2 = Some s3"
    "map_page b 4 (?p + FOUR_MB) ?p (PageSize SHIFT_4K) (TLB_X OR TLB_R OR TLB_W) s3 = Some s4"
    "map_page b 5 (?q + FIVE_MB) ?q (PageSize SHIFT_4K) (TLB_W OR TLB_R) s4 = Some s5"
    and p: "tlbp (tlb b) (mmu s1) 0 (data b + ONE_MB) = 1" "tlbp (tlb b) (mmu s2) 0 (data b + TWO_MB) = 2"
    "tlbp (tlb b) (mmu s3) 0 (data b + THREE_MB) = 3" "tlbp (tlb b) (mmu s4) 0 (data b + FOUR_MB) = 4"
    "tlbp (tlb b) (mmu s5) 0 (func_return_pc b + FIVE_MB) = 5"
    and v: "ready b ok ?v s5" "mb_view ?v" "same_world t s5"
    and pm: "page_map e1 12 (?p + 1 * ONE_MB) (ucast ?p)" "page_map e2 12 (?p + 2 * ONE_MB) (ucast ?p)"
    "page_map e3 12 (?p + 3 * ONE_MB) (ucast ?p)" "page_map e4 12 (?p + 4 * ONE_MB) (ucast ?p)"
    "page_map e5 12 (?q + 5 * ONE_MB) (ucast ?q)"
    by (rule map_five [OF assms(1) r start(1) e1_def e2_def e3_def e4_def e5_def])
  define u where "u = s5\<lparr>mmu := enter_user_mode (install_my_event_vectors (my_event_vectors b) (mmu s5))\<rparr>"
  have "excp_set (my_exceptions (mmu s5)) = {}" using v(3) by (simp add: same_world_def t_def s0_def)
  then have u: "in_test b ok ?v {} u"
    unfolding u_def by (intro user_mode_start [OF v(1, 2) _ start(1)]) (simp_all add: start_view_def)
  have w: "phys u (ucast (data b)) = 0xdeadbeef" "chk u = chk s"
    using v(3) by (simp_all add: same_world_def t_def s0_def u_def)
  obtain u1 u2 u3 u4 u5 where a:
    "chk_read 90 b (data b + ONE_MB) 0xdeadbeef u = Some u1" "chk_read 91 b (data b + TWO_MB) 0xdeadbeef u1 = Some u2"
    "write_var b (data b + THREE_MB) 0xc0ffee u2 = Some u3" "chk_read 98 b (data b) 0xc0ffee u3 = Some u3"
    "write_var b (data b + FOUR_MB) 0xc0ffee u3 = Some u4" "chk_read 102 b (data b) 0xc0ffee u4 = Some u4"
    "chk_call 105 b (func_return_pc b + FIVE_MB) (func_return_pc b + FIVE_MB) u4 = Some u5"
    "chk u5 = chk u" and ex: "excp_set (my_exceptions (mmu u5)) = {0x11, 0x12, 0x22, 0x23, 0x24, 0x25}"
    by (rule user_accesses [OF assms(1) u w(1) _ _ _ _ _ pm]) (simp_all add: e1_def e2_def e3_def e4_def e5_def page_entry_missing)
  have "test_permissions b s = Some u5"
    unfolding test_permissions_def Let_def TARGET_PAGE_BITS_def s0_def [symmetric]
    by (simp add: w0 m p chk_tlbp_def u_def [symmetric] a expected_exceptions [OF ex] check_exception_vector_def check64_def)
  then show ?thesis using ex a(8) w(2) start(3) by (simp add: mmu_permissions_main_def test_end_def)
qed

theorem mmu_permissions_passes_witness:
  "\<exists>s'. mmu_permissions_main sample_board sample_test = Some ((0, ''PASS''), s') \<and>
     excp_set (my_exceptions (mmu s')) = {0x11, 0x12, 0x22, 0x23, 0x24, 0x25}"
  using mmu_permissions_passes [OF sample_board_ok sample_test_start] .

end
