(* ===== verification/Mmu_Overlap.thy ===== *)
theory Mmu_Overlap
  imports Mmu_Tests
begin

text \<open>
  The programs \<^verbatim>\<open>src/mmu_overlap.c\<close> and \<^verbatim>\<open>src/mmu_multi_tlb.c\<close>: entries that
  overlap, the conditional write, entries of an address space and their invalidation, and a probe that several entries match.  The
  instructions are a second record of operations on the TLB, with their laws in the locale \<open>tlb_overlap\<close>.  Two entries overlap when some
  address of some address space matches both.
\<close>

section \<open>Operations\<close>

record 'd overlap_ops =
  op_tlboc :: "'d \<Rightarrow> u64 \<Rightarrow> u32"
  op_ctlbw :: "'d \<Rightarrow> u64 \<Rightarrow> u32 \<Rightarrow> u32 \<times> 'd"
  op_tlbinvasid :: "'d \<Rightarrow> u32 \<Rightarrow> 'd"
  op_multi :: "'d \<Rightarrow> u32 \<Rightarrow> bool"

definition tlboc :: "'d overlap_ops \<Rightarrow> 'd mmu \<Rightarrow> u64 \<Rightarrow> u32" where
  "tlboc ox m entry = op_tlboc ox (dev (rt m)) entry"

definition ctlbw :: "'d overlap_ops \<Rightarrow> 'd mmu \<Rightarrow> u64 \<Rightarrow> u32 \<Rightarrow> u32 \<times> 'd mmu" where
  "ctlbw ox m entry idx = (let (ret, d) = op_ctlbw ox (dev (rt m)) entry idx in (ret, m\<lparr>rt := (rt m)\<lparr>dev := d\<rparr>\<rparr>))"

definition tlbinvasid :: "'d overlap_ops \<Rightarrow> 'd mmu \<Rightarrow> u32 \<Rightarrow> 'd mmu" where
  "tlbinvasid ox m entry_hi = m\<lparr>rt := (rt m)\<lparr>dev := op_tlbinvasid ox (dev (rt m)) entry_hi\<rparr>\<rparr>"

section \<open>The overlap test\<close>

definition chk_tlboc :: "int \<Rightarrow> 'd overlap_ops \<Rightarrow> u64 \<Rightarrow> u32 \<Rightarrow> 'd mtest \<Rightarrow> 'd mtest" where
  "chk_tlboc line ox entry expect s = chk32 line (tlboc ox (mmu s) entry) expect s"

definition chk_ctlbw :: "int \<Rightarrow> 'd overlap_ops \<Rightarrow> u64 \<Rightarrow> u32 \<Rightarrow> u32 \<Rightarrow> 'd mtest \<Rightarrow> 'd mtest" where
  "chk_ctlbw line ox entry idx expect s =
     (let (ret, m) = ctlbw ox (mmu s) entry idx in chk32 line ret expect (s\<lparr>mmu := m\<rparr>))"

definition test_overlap :: "'d board \<Rightarrow> 'd overlap_ops \<Rightarrow> 'd mtest \<Rightarrow> 'd mtest option" where
  "test_overlap b ox s =
     (let addr = data b;
          page = page_start addr 20;
          offs = FIVE_MB;
          new_page = page + offs;
          new_addr = addr + offs;
          data_perm = TLB_X OR TLB_W OR TLB_R OR TLB_U
      in do {
        s \<leftarrow> map_page b 1 new_page page (PageSize SHIFT_1M) data_perm s;
        let s = chk_tlbp 28 b new_addr 1 s;
        let entry = create_mmu_entry 1 0 0 0 new_page 1 1 1 0 7 (ucast page) (PageSize SHIFT_4K);
        let s = chk_tlboc 33 ox entry 1 s;
        let s = chk_ctlbw 35 ox entry 2 1 s;
        let entry = create_mmu_entry 1 0 0 0 (new_page + ONE_MB) 1 1 1 0 7 (ucast page) (PageSize SHIFT_4K);
        let s = chk_tlboc 40 ox entry TLB_NOT_FOUND s;
        let s = chk_ctlbw 42 ox entry 2 TLB_NOT_FOUND s;
        let entry = create_mmu_entry 1 0 0 0 new_page 1 1 1 0 7 (ucast page) (PageSize SHIFT_4M);
        let s = chk_tlboc 47 ox entry 0xffffffff s;
        let s = unmap_page b 1 s;
        let s = chk_tlbp 51 b new_addr TLB_NOT_FOUND s;
        let s = unmap_page b 2 s;
        Some (chk_tlbp 53 b (new_addr + ONE_MB) TLB_NOT_FOUND s)
      })"

definition mmu_overlap_main :: "'d board \<Rightarrow> 'd overlap_ops \<Rightarrow> 'd mtest \<Rightarrow> ((int \<times> string) \<times> 'd mtest) option" where
  "mmu_overlap_main b ox s = do { s \<leftarrow> test_overlap b ox s; Some (test_end s, s) }"

section \<open>The test of multiple matches\<close>

text \<open>A probe that several entries match raises an imprecise exception, which the handler of \<^verbatim>\<open>include/mmu.h\<close> records.\<close>

definition chk_tlbp_nmi :: "int \<Rightarrow> 'd board \<Rightarrow> 'd overlap_ops \<Rightarrow> u32 \<Rightarrow> u32 \<Rightarrow> u32 \<Rightarrow> 'd mtest \<Rightarrow> 'd mtest option" where
  "chk_tlbp_nmi line b ox asid va expect s =
     (let ret = tlbp (tlb b) (mmu s) asid va;
          m = mmu s
      in do {
        m \<leftarrow> (if op_multi ox (dev (rt m)) (mmu_key asid va)
              then let m = setssr m (set_bit 17 (SET_FIELD (getssr m) SSR_CAUSE (ucast HEX_CAUSE_IMPRECISE_MULTI_TLB_MATCH)))
                   in case (if evb m = my_event_vectors b then my_event_handle_nmi_helper (getssr m) m else runtime_error b (getssr m) m) of
                        Ok m \<Rightarrow> Some (rte m) | _ \<Rightarrow> None
              else Some m);
        Some (chk32 line ret expect (s\<lparr>mmu := m\<rparr>))
      })"

definition test_multi_tlb :: "'d board \<Rightarrow> 'd overlap_ops \<Rightarrow> 'd mtest \<Rightarrow> 'd mtest option" where
  "test_multi_tlb b ox s =
     (let addr = data b;
          page = page_start addr TARGET_PAGE_BITS;
          offs = ONE_MB;
          new_addr = addr + offs;
          new_page = page + offs;
          entry = create_mmu_entry 0 0 0 1 new_page 1 1 1 0 7 (ucast page) (PageSize SHIFT_4K)
      in do {
        let s = s\<lparr>mmu := install_my_event_vectors (my_event_vectors b) (mmu s)\<rparr>;
        let s = s\<lparr>mmu := (mmu s)\<lparr>my_exceptions := clear_exception_vector (my_exceptions (mmu s))\<rparr>\<rparr>;
        let expected_exceptions = clear_exception_vector (0, 0);
        let expected_exceptions = set_exception_vector_bit expected_exceptions HEX_CAUSE_IMPRECISE_MULTI_TLB_MATCH;
        let s = s\<lparr>mmu := set_asid (mmu s) 1\<rparr>;
        let s = s\<lparr>mmu := tlbinvasid ox (mmu s) 1\<rparr>;
        let s = s\<lparr>mmu := tlbw (tlb b) (mmu s) entry 1\<rparr>;
        let s = chk_tlboc 54 ox entry 1 s;
        s \<leftarrow> chk_tlbp_nmi 55 b ox 1 new_addr 1 s;
        let s = s\<lparr>mmu := tlbw (tlb b) (mmu s) entry 2\<rparr>;
        let s = chk_tlboc 57 ox entry 0xffffffff s;
        s \<leftarrow> chk_tlbp_nmi 58 b ox 1 new_addr 1 s;
        let s = check_exception_vector 59 (my_exceptions (mmu s)) expected_exceptions s;
        let s = unmap_page b 1 s;
        Some (unmap_page b 2 s)
      })"

definition mmu_multi_tlb_main :: "'d board \<Rightarrow> 'd overlap_ops \<Rightarrow> 'd mtest \<Rightarrow> ((int \<times> string) \<times> 'd mtest) option" where
  "mmu_multi_tlb_main b ox s = do { s \<leftarrow> test_multi_tlb b ox s; Some (test_end s, s) }"

section \<open>Overlapping entries\<close>

definition overlaps :: "u64 \<Rightarrow> u64 \<Rightarrow> bool" where
  "overlaps e e' \<longleftrightarrow> (\<exists>asid va. tlb_entry_matches (mmu_key asid va) e \<and> tlb_entry_matches (mmu_key asid va) e')"

text \<open>An entry covers the page of \<open>2 ^ n\<close> bytes at \<open>vp\<close>, of one address space or of all.\<close>

definition covers :: "u64 \<Rightarrow> u32 option \<Rightarrow> nat \<Rightarrow> u32 \<Rightarrow> bool" where
  "covers e sp n vp \<longleftrightarrow>
     (\<forall>asid va. tlb_entry_matches (mmu_key asid va) e \<longleftrightarrow> (sp = None \<or> sp = Some (take_bit 7 asid)) \<and> drop_bit n va = drop_bit n vp)"

lemma drop_bit_mono: "drop_bit n (x :: u32) = drop_bit n y \<Longrightarrow> n \<le> m \<Longrightarrow> drop_bit m x = drop_bit m y"
  by (metis add.commute drop_bit_drop_bit le_add_diff_inverse)

definition meet :: "u32 option \<Rightarrow> u32 option \<Rightarrow> bool" where
  "meet sp sp' \<longleftrightarrow> sp = None \<or> sp' = None \<or> sp = sp'"

lemma overlaps_covers:
  assumes "covers e sp n vp" "covers e' sp' n' vp'" "\<And>a. sp = Some a \<Longrightarrow> take_bit 7 a = a" "\<And>a. sp' = Some a \<Longrightarrow> take_bit 7 a = a"
  shows "overlaps e e' \<longleftrightarrow> meet sp sp' \<and> drop_bit (max n n') vp = drop_bit (max n n') vp'"
proof
  assume "overlaps e e'"
  then obtain asid va where "(sp = None \<or> sp = Some (take_bit 7 asid)) \<and> drop_bit n va = drop_bit n vp"
    "(sp' = None \<or> sp' = Some (take_bit 7 asid)) \<and> drop_bit n' va = drop_bit n' vp'"
    using assms(1, 2) unfolding overlaps_def covers_def by blast
  then show "meet sp sp' \<and> drop_bit (max n n') vp = drop_bit (max n n') vp'"
    using drop_bit_mono [of n va vp "max n n'"] drop_bit_mono [of n' va vp' "max n n'"] by (auto simp: meet_def)
next
  assume m: "meet sp sp' \<and> drop_bit (max n n') vp = drop_bit (max n n') vp'"
  obtain asid where asid: "(sp = None \<or> sp = Some (take_bit 7 asid)) \<and> (sp' = None \<or> sp' = Some (take_bit 7 asid))"
    using m assms(3, 4) unfolding meet_def by (metis not_Some_eq)
  show "overlaps e e'"
  proof (cases "n \<le> n'")
    case True
    then have "tlb_entry_matches (mmu_key asid vp) e \<and> tlb_entry_matches (mmu_key asid vp) e'"
      using assms(1, 2) asid m unfolding covers_def by (simp add: max_def)
    then show ?thesis unfolding overlaps_def by blast
  next
    case False
    then have "tlb_entry_matches (mmu_key asid vp') e \<and> tlb_entry_matches (mmu_key asid vp') e'"
      using assms(1, 2) asid m unfolding covers_def by (simp add: max_def)
    then show ?thesis unfolding overlaps_def by blast
  qed
qed

lemma key_asid: "take_bit 7 (drop_bit 20 (mmu_key asid va)) = take_bit 7 asid"
  by (rule bit_word_eqI) (auto simp: bit_take_bit_iff bit_drop_bit_eq bit_mmu_key)

lemma coversI:
  assumes "encodes_page e s pp" "page_aligned s pp" "bit e 63" "get_member e VirtualPage = ucast (drop_bit 12 vp)"
    "get_member e ASID = ucast a" "take_bit 7 a = a"
  shows "covers e (if bit e 62 then None else Some a) (12 + 2 * page_shift s) vp"
proof -
  have ctz: "ctz e = page_shift s" using assms(1, 2) by (rule encodes_page_ctz)
  have asid: "(ucast a :: u64) = ucast (take_bit 7 asid :: u32) \<longleftrightarrow> a = take_bit 7 asid" for asid
  proof
    assume "(ucast a :: u64) = ucast (take_bit 7 asid :: u32)"
    then have eq: "bit (ucast a :: u64) i = bit (ucast (take_bit 7 asid :: u32) :: u64) i" for i by simp
    show "a = take_bit 7 asid"
    proof (rule bit_word_eqI)
      show "bit a i = bit (take_bit 7 asid) i" if "i < LENGTH(32)" for i using eq [of i] that by (simp add: bit_ucast_iff)
    qed
  qed simp
  have "tlb_entry_matches (mmu_key asid va) e \<longleftrightarrow>
      (bit e 62 \<or> a = take_bit 7 asid) \<and> drop_bit (12 + 2 * page_shift s) va = drop_bit (12 + 2 * page_shift s) vp" for asid va
    using drop_ucast_eq [of "2 * page_shift s" vp va] asid [of asid]
    by (auto simp: tlb_entry_matches_def ctz assms(3-5) mmu_key_page key_asid)
  then show ?thesis by (auto simp: covers_def)
qed

lemma create_mmu_entry_covers:
  assumes "page_aligned s PA" "unat PA < 2 ^ 35"
  shows "covers (create_mmu_entry G a0 a1 asid VA X W R U C PA (PageSize s))
    (if bit G 0 then None else Some (take_bit 7 (ucast asid))) (12 + 2 * page_shift s) VA"
proof -
  let ?e = "create_mmu_entry G a0 a1 asid VA X W R U C PA (PageSize s)"
  note field = create_mmu_entry_field [where G = G and ?a0.0 = a0 and ?a1.0 = a1 and asid = asid and VA = VA and X = X and W = W
      and R = R and U = U and C = C and PA = PA and s = s]
  have f: "GET_FIELD ?e PTE_V = 1" "GET_FIELD ?e PTE_G = take_bit 1 (ucast G)" "GET_FIELD ?e PTE_ASID = take_bit 7 (ucast asid)"
    "GET_FIELD ?e PTE_VPN = take_bit 20 (ucast (drop_bit 12 VA))"
    using field [of PTE_V] field [of PTE_G] field [of PTE_ASID] field [of PTE_VPN] by (simp_all add: mmu_entry_fields_def TARGET_PAGE_BITS_def)
  have "take_bit 35 PA = PA" using assms(2) by (rule take_bit_eq_self_unat)
  then have enc: "encodes_page ?e s PA" using create_mmu_entry_encodes_page [OF _ assms(1), of G a0 a1 asid VA X W R U C] assms(2) by simp
  have b: "bit (GET_FIELD ?e fl) i \<longleftrightarrow> i < width (reg_field_info fl) \<and> bit ?e (offset (reg_field_info fl) + i)" for fl i
    by (auto simp: GET_FIELD_def bit_fEXTRACTU_BITS dest: bit_imp_le_length)
  have v: "bit ?e 63" using b [of PTE_V 0] f(1) by simp
  have "bit (GET_FIELD ?e PTE_G) 0 = bit G 0" unfolding f(2) by (simp only: bit_take_bit_iff bit_ucast_iff) simp
  then have g: "bit ?e 62 = bit G 0" using b [of PTE_G 0] by simp
  have vp: "get_member ?e VirtualPage = ucast (drop_bit 12 VA)"
  proof (rule bit_word_eqI)
    fix i assume "i < LENGTH(64)"
    have "bit VA (12 + i) \<Longrightarrow> i < 20" using bit_imp_le_length [of VA "12 + i"] by simp
    moreover have "bit (GET_FIELD ?e PTE_VPN) i \<longleftrightarrow> i < 20 \<and> bit VA (12 + i)" using f(4) by (auto simp: bit_take_bit_iff bit_ucast_iff bit_drop_bit_eq)
    ultimately show "bit (get_member ?e VirtualPage) i = bit (ucast (drop_bit 12 VA) :: u64) i"
      using b [of PTE_VPN i] by (auto simp: bit_get_member bit_ucast_iff bit_drop_bit_eq)
  qed
  have asid: "get_member ?e ASID = ucast (take_bit 7 (ucast asid :: u32))"
  proof (rule bit_word_eqI)
    fix i assume "i < LENGTH(64)"
    have "bit (GET_FIELD ?e PTE_ASID) i \<longleftrightarrow> i < 7 \<and> bit asid i" using f(3) by (auto simp: bit_take_bit_iff bit_ucast_iff)
    then show "bit (get_member ?e ASID) i = bit (ucast (take_bit 7 (ucast asid :: u32)) :: u64) i"
      using b [of PTE_ASID i] by (auto simp: bit_get_member bit_ucast_iff bit_take_bit_iff)
  qed
  show ?thesis using coversI [OF enc assms(1) v vp asid] g by simp
qed

section \<open>The device\<close>

locale tlb_overlap = tlb_device hw ok for hw :: "'d tlb_ops" and ok :: "'d \<Rightarrow> u32 \<Rightarrow> bool" +
  fixes ox :: "'d overlap_ops"
  assumes oc_none: "(\<And>j. ok d j \<Longrightarrow> \<not> overlaps e (op_tlbr hw d j)) \<Longrightarrow> op_tlboc ox d e = TLB_NOT_FOUND"
    and oc_one: "ok d j \<Longrightarrow> overlaps e (op_tlbr hw d j) \<Longrightarrow> (\<And>k. ok d k \<Longrightarrow> overlaps e (op_tlbr hw d k) \<Longrightarrow> k = j) \<Longrightarrow>
      op_tlboc ox d e = j"
    and oc_many: "ok d i \<Longrightarrow> ok d j \<Longrightarrow> i \<noteq> j \<Longrightarrow> overlaps e (op_tlbr hw d i) \<Longrightarrow> overlaps e (op_tlbr hw d j) \<Longrightarrow>
      op_tlboc ox d e = 0xffffffff"
    and ctlbw_law: "op_ctlbw ox d e i = (op_tlboc ox d e, if op_tlboc ox d e = TLB_NOT_FOUND then op_tlbw hw d e i else d)"
    and invasid_ok: "ok (op_tlbinvasid ox d x) j = ok d j"
    and invasid_rd: "ok d j \<Longrightarrow> op_tlbr hw (op_tlbinvasid ox d x) j =
      (let e = op_tlbr hw d j in if \<not> bit e 62 \<and> get_member e ASID = ucast (take_bit 7 (drop_bit 20 x)) then unset_bit 63 e else e)"
    and multi: "op_multi ox d x \<longleftrightarrow> (\<exists>i j. ok d i \<and> ok d j \<and> i \<noteq> j \<and> tlb_entry_matches x (op_tlbr hw d i) \<and> tlb_entry_matches x (op_tlbr hw d j))"
    and probe_lowest: "ok d i \<Longrightarrow> tlb_entry_matches x (op_tlbr hw d i) \<Longrightarrow>
      (\<And>j. ok d j \<Longrightarrow> tlb_entry_matches x (op_tlbr hw d j) \<Longrightarrow> i \<le> j) \<Longrightarrow> op_tlbp hw d x = i"

text \<open>The entries \<open>v\<close> are in the TLB, and no other entry maps an address below 2 GB in any address space.\<close>

definition all_view :: "'d tlb_ops \<Rightarrow> ('d \<Rightarrow> u32 \<Rightarrow> bool) \<Rightarrow> 'd \<Rightarrow> (u32 \<rightharpoonup> u64) \<Rightarrow> bool" where
  "all_view hw ok d v \<longleftrightarrow>
     (\<forall>i e. v i = Some e \<longrightarrow> ok d i \<and> op_tlbr hw d i = e) \<and>
     (\<forall>j asid va. ok d j \<longrightarrow> v j = None \<longrightarrow> va < 0x80000000 \<longrightarrow> \<not> tlb_entry_matches (mmu_key asid va) (op_tlbr hw d j))"

lemma all_view_tlb_view: "all_view hw ok d v \<Longrightarrow> tlb_view hw ok d v"
  unfolding all_view_def tlb_view_def by blast

lemma all_view_drop: "all_view hw ok d (v(i \<mapsto> e)) \<Longrightarrow> v i = None \<Longrightarrow> (\<forall>x. \<not> tlb_entry_matches x e) \<Longrightarrow> all_view hw ok d v"
  unfolding all_view_def by (metis (no_types, lifting) fun_upd_apply option.distinct(1))

text \<open>An entry whose addresses are below 2 GB.\<close>

definition low_page :: "nat \<Rightarrow> u32 \<Rightarrow> bool" where
  "low_page n vp \<longleftrightarrow> (\<forall>va. drop_bit n va = drop_bit n vp \<longrightarrow> va < 0x80000000)"

lemma all_view_other:
  assumes "all_view hw ok d v" "ok d j" "v j = None" "covers e sp n vp" "low_page n vp"
  shows "\<not> overlaps e (op_tlbr hw d j)"
  using assms unfolding all_view_def overlaps_def covers_def low_page_def by blast

context tlb_overlap
begin

lemma all_view_write: "all_view hw ok d v \<Longrightarrow> ok d i \<Longrightarrow> all_view hw ok (op_tlbw hw d e i) (v(i \<mapsto> e))"
  by (auto simp: all_view_def ok_wr rd_wr_same rd_wr_other)

lemma view_tlboc_none:
  assumes "all_view hw ok d v" "covers e sp n vp" "low_page n vp" "\<And>i e'. v i = Some e' \<Longrightarrow> \<not> overlaps e e'"
  shows "op_tlboc ox d e = TLB_NOT_FOUND"
proof (rule oc_none)
  show "\<not> overlaps e (op_tlbr hw d j)" if "ok d j" for j
    using all_view_other [OF assms(1) that _ assms(2, 3)] assms(1, 4) unfolding all_view_def by (cases "v j") auto
qed

lemma view_tlboc_one:
  assumes "all_view hw ok d v" "covers e sp n vp" "low_page n vp" "v k = Some e0" "overlaps e e0"
    "\<And>i e'. v i = Some e' \<Longrightarrow> overlaps e e' \<Longrightarrow> i = k"
  shows "op_tlboc ox d e = k"
proof (rule oc_one)
  show "ok d k" "overlaps e (op_tlbr hw d k)" using assms(1, 4, 5) by (auto simp: all_view_def)
  show "j = k" if "ok d j" "overlaps e (op_tlbr hw d j)" for j
    using all_view_other [OF assms(1) that(1) _ assms(2, 3)] assms(1, 6) that unfolding all_view_def by (cases "v j") auto
qed

lemma view_tlboc_many:
  assumes "all_view hw ok d v" "v i = Some e1" "v j = Some e2" "i \<noteq> j" "overlaps e e1" "overlaps e e2"
  shows "op_tlboc ox d e = 0xffffffff"
  using assms oc_many [of d i j e] by (auto simp: all_view_def)

lemma all_view_invasid:
  assumes "all_view hw ok d v" "\<And>i e. v i = Some e \<Longrightarrow> bit e 62"
  shows "all_view hw ok (op_tlbinvasid ox d x) v"
proof -
  have "\<not> tlb_entry_matches key (unset_bit 63 e)" for key e by (simp add: tlb_entry_matches_def bit_unset_bit_iff)
  then show ?thesis using assms unfolding all_view_def by (auto simp: invasid_ok invasid_rd Let_def)
qed

end

section \<open>The overlap test passes\<close>

definition space_ready :: "'d board \<Rightarrow> ('d \<Rightarrow> u32 \<Rightarrow> bool) \<Rightarrow> (u32 \<rightharpoonup> u64) \<Rightarrow> 'd mtest \<Rightarrow> bool" where
  "space_ready b ok v s \<longleftrightarrow> ready b ok v s \<and> all_view (tlb b) ok (dev (rt (mmu s))) v"

definition space_start :: "'d board \<Rightarrow> ('d \<Rightarrow> u32 \<Rightarrow> bool) \<Rightarrow> 'd mtest \<Rightarrow> bool" where
  "space_start b ok s \<longleftrightarrow> err (chk s) = 0 \<and> (\<exists>start < 0x100000. space_ready b ok (start_view start) s)"

definition overlap_board :: "'d board \<Rightarrow> ('d \<Rightarrow> u32 \<Rightarrow> bool) \<Rightarrow> 'd overlap_ops \<Rightarrow> bool" where
  "overlap_board b ok ox \<longleftrightarrow> board_ok b ok \<and> tlb_overlap (tlb b) ok ox"

lemma space_write:
  assumes "overlap_board b ok ox" "space_ready b ok v s" "i \<in> {1..5}" "dev (rt m) = op_tlbw (tlb b) (dev (rt (mmu s))) e i"
    "tlb_fixed_entries (rt m) = 6" "current_asid m = 0"
  shows "space_ready b ok (v(i \<mapsto> e)) (s\<lparr>mmu := m\<rparr>)"
proof -
  have "ok (dev (rt (mmu s))) i" using assms(2, 3) by (simp add: space_ready_def ready_def)
  then have "all_view (tlb b) ok (dev (rt m)) (v(i \<mapsto> e))"
    using tlb_overlap.all_view_write [of "tlb b" ok ox] assms(1, 2) unfolding assms(4) overlap_board_def space_ready_def by blast
  moreover have "ready b ok (v(i \<mapsto> e)) (s\<lparr>mmu := m\<rparr>)"
    using assms by (intro write_view [OF _ _ assms(3-6)]) (simp_all add: overlap_board_def space_ready_def)
  ultimately show ?thesis by (simp add: space_ready_def)
qed

lemma space_map_page:
  assumes "overlap_board b ok ox" "space_ready b ok v s" "i \<in> {1..5}" "va < 0x80000000" "none_maps v va"
  shows "\<exists>s'. map_page b i va pa sz xwru s = Some s' \<and> space_ready b ok (v(i \<mapsto> page_entry b va pa sz xwru)) s' \<and> chk s' = chk s"
proof -
  let ?e = "page_entry b va pa sz xwru"
  let ?m = "(mmu s)\<lparr>rt := write_tlb_entry (tlb b) (rt (mmu s)) ?e i\<rparr>"
  have "add_trans (arch_rev b) (tlb b) (mmu s) i va (ucast pa) sz xwru 0 1 1 = Ok ?m"
    by (rule add_trans_view [where ok = ok, OF _ _ assms(4, 5) _ assms(3)])
       (use assms(1, 2) in \<open>simp_all add: overlap_board_def space_ready_def board_ok_def ready_def\<close>)
  moreover have "getssr ?m = getssr (mmu s)" by (simp add: getssr_def frame_simps)
  then have "space_ready b ok (v(i \<mapsto> ?e)) (s\<lparr>mmu := ?m\<rparr>)"
    by (intro space_write [OF assms(1-3)])
       (use assms(2) in \<open>simp_all add: space_ready_def ready_def frame_simps current_asid_def, simp add: write_tlb_entry_def Let_def\<close>)
  ultimately show ?thesis by (simp add: map_page_def)
qed

lemma space_unmap_page:
  assumes "overlap_board b ok ox" "space_ready b ok (v(i \<mapsto> e)) s" "i \<in> {1..5}" "v i = None"
  shows "space_ready b ok v (unmap_page b i s)"
proof -
  let ?e = "SET_FIELD e PTE_V 0"
  have "tlbr (tlb b) (mmu s) i = e" using assms(2) by (simp add: space_ready_def ready_def tlb_view_def tlbr_def)
  then have r: "space_ready b ok ((v(i \<mapsto> e))(i \<mapsto> ?e)) (unmap_page b i s)"
    unfolding unmap_page_def
    by (intro space_write [OF assms(1-3)])
       (use assms(2) in \<open>simp_all add: remove_trans_def Let_def tlbw_def space_ready_def ready_def current_asid_def getssr_def\<close>)
  then have "all_view (tlb b) ok (dev (rt (mmu (unmap_page b i s)))) v"
    using all_view_drop [of "tlb b" ok _ v i ?e] assms(4) not_matches_SET_V_0 by (auto simp: space_ready_def)
  then show ?thesis using r all_view_tlb_view by (auto simp: space_ready_def ready_def)
qed

lemma unmap_page_chk [simp]: "chk (unmap_page b i s) = chk s"
  by (simp add: unmap_page_def)

lemma space_probe:
  assumes "overlap_board b ok ox" "space_ready b ok v s" "va < 0x80000000"
  shows "only_maps v va k \<Longrightarrow> chk_tlbp line b va k s = s" "none_maps v va \<Longrightarrow> chk_tlbp line b va TLB_NOT_FOUND s = s"
  using ready_probe(1) [of b ok v s va k] ready_probe(2) [of b ok v s va] assms by (simp_all add: overlap_board_def space_ready_def chk_tlbp_def)

text \<open>The four entries of the test, all global.\<close>

lemma covers_probe: "covers e None n vp \<Longrightarrow> tlb_entry_matches (mmu_key asid va) e \<longleftrightarrow> drop_bit n va = drop_bit n vp"
  by (simp add: covers_def)

lemma page_map_covers: "page_map e n vp pp \<Longrightarrow> bit e 62 \<Longrightarrow> covers e None n vp"
proof -
  assume a: "page_map e n vp pp" "bit e 62"
  have "tlb_entry_matches (mmu_key asid va) e \<longleftrightarrow> tlb_entry_matches (mmu_key 0 va) e" for asid va
    using a(2) by (simp add: tlb_entry_matches_def mmu_key_page)
  then show ?thesis using a(1) by (simp add: covers_def page_map_def)
qed

lemma start_entry_covers: "start < 0x100000 \<Longrightarrow> covers (start_entry start) None 20 0"
  using page_map_covers [OF start_entry_page_map] by (simp add: bit_start_entry_hi)

lemma page_start_first_mb: "a < 0x100000 \<Longrightarrow> page_start a 20 = 0"
  by (rule bit_word_eqI) (use small_bit [of a] in \<open>force simp: bit_page_start\<close>)

lemma five_mb_covers: "covers (page_entry b FIVE_MB 0 (PageSize SHIFT_1M) xwru) None 20 FIVE_MB"
proof (rule page_map_covers)
  show "page_map (page_entry b FIVE_MB 0 (PageSize SHIFT_1M) xwru) 20 FIVE_MB 0"
    using translation_entry_page_map [of SHIFT_1M 0 3] by (simp add: page_aligned_def)
  show "bit (page_entry b FIVE_MB 0 (PageSize SHIFT_1M) xwru) 62"
    by (simp add: bit_VG_member translation_entry_members bit_take_bit_iff bit_ucast_iff)
qed

lemma created_covers:
  "covers (create_mmu_entry 1 0 0 0 VA 1 1 1 0 7 0 (PageSize SHIFT_4K)) None 12 VA"
  "covers (create_mmu_entry 1 0 0 0 VA 1 1 1 0 7 0 (PageSize SHIFT_4M)) None 22 VA"
  using create_mmu_entry_covers [of SHIFT_4K 0 1 0 0 0 VA 1 1 1 0 7] create_mmu_entry_covers [of SHIFT_4M 0 1 0 0 0 VA 1 1 1 0 7]
  by (simp_all add: page_aligned_def)

lemma overlaps_global: "covers e None n vp \<Longrightarrow> covers e' None n' vp' \<Longrightarrow> overlaps e e' \<longleftrightarrow> drop_bit (max n n') vp = drop_bit (max n n') vp'"
  using overlaps_covers [of e None n vp e' None n' vp'] by (simp add: meet_def)

lemma low_page_small:
  assumes "vp < 0x800000" "n \<le> 22"
  shows "low_page n vp"
  unfolding low_page_def
proof (intro allI impI)
  fix va :: u32 assume "drop_bit n va = drop_bit n vp"
  then have "drop_bit 23 va = drop_bit 23 vp" by (rule drop_bit_mono) (use assms(2) in linarith)
  moreover have "unat vp < 2 ^ 23" using assms(1) by (simp add: word_less_nat_alt)
  then have "\<not> bit vp (23 + i)" for i by (rule bit_beyond_unat) simp
  ultimately have "\<not> bit va (23 + i)" for i by (metis bit_drop_bit_eq comp_apply)
  then have "bit va i \<Longrightarrow> i < 23" for i by (metis le_add_diff_inverse not_le)
  then have "unat va < 2 ^ 23" by (intro unat_less_exp_iff_bits) force
  then show "va < 0x80000000" by (simp add: word_less_nat_alt)
qed

text \<open>The addresses of the test: the first megabyte moved to the sixth and the seventh.\<close>

lemma mb_pages:
  "drop_bit 20 (0 :: u32) = 0" "drop_bit 20 FIVE_MB = 5" "drop_bit 20 (FIVE_MB + ONE_MB) = 6"
  "drop_bit 22 (0 :: u32) = 0" "drop_bit 22 FIVE_MB = 1" "drop_bit 22 (FIVE_MB + ONE_MB) = 1"
  by (simp_all add: FIVE_MB_def ONE_MB_def)

lemma mb_offset_seven: "mb_offset 12 (FIVE_MB + ONE_MB)"
proof -
  have "bit (0x600000 :: u32) i \<longleftrightarrow> i = 21 \<or> i = 22" for i
  proof -
    have "\<forall>i \<in> set [0..<32]. bit (0x600000 :: u32) i \<longleftrightarrow> i = 21 \<or> i = 22" by (simp add: upt_rec)
    then show ?thesis using bit_imp_le_length [of "0x600000 :: u32" i] by (cases "i < 32") auto
  qed
  then show ?thesis using mb_pages(3) by (auto simp: mb_offset_def FIVE_MB_def ONE_MB_def)
qed

lemma moved_addresses:
  assumes "a < 0x100000"
  shows "drop_bit 20 (a + FIVE_MB) = 5" "drop_bit 20 (a + FIVE_MB + ONE_MB) = 6" "a + FIVE_MB < 0x80000000" "a + FIVE_MB + ONE_MB < 0x80000000"
proof -
  have five: "mb_offset 12 FIVE_MB" using mb_offset_mb(1) [of 5] by (simp add: FIVE_MB_def)
  show "drop_bit 20 (a + FIVE_MB) = 5" "a + FIVE_MB < 0x80000000"
    using moved_outside [OF five assms] moved_below [OF five assms] mb_pages(2) by simp_all
  show "drop_bit 20 (a + FIVE_MB + ONE_MB) = 6" "a + FIVE_MB + ONE_MB < 0x80000000"
    using moved_outside [OF mb_offset_seven assms] moved_below [OF mb_offset_seven assms] mb_pages(3)
    unfolding add.assoc by simp_all
qed

definition mb5_entry :: "'d board \<Rightarrow> u64" where
  "mb5_entry b = page_entry b FIVE_MB 0 (PageSize SHIFT_1M) full"

definition small_entry :: "u32 \<Rightarrow> u64" where
  "small_entry VA = create_mmu_entry 1 0 0 0 VA 1 1 1 0 7 0 (PageSize SHIFT_4K)"

definition large_entry :: u64 where
  "large_entry = create_mmu_entry 1 0 0 0 FIVE_MB 1 1 1 0 7 0 (PageSize SHIFT_4M)"

lemma entry_covers:
  "covers (mb5_entry b) None 20 FIVE_MB" "covers (small_entry VA) None 12 VA" "covers large_entry None 22 FIVE_MB"
  unfolding mb5_entry_def small_entry_def large_entry_def by (rule five_mb_covers created_covers)+

lemma entry_overlaps:
  assumes "start < 0x100000"
  shows "overlaps (small_entry FIVE_MB) (mb5_entry b)" "\<not> overlaps (small_entry FIVE_MB) (start_entry start)"
    "\<not> overlaps (small_entry (FIVE_MB + ONE_MB)) (mb5_entry b)" "\<not> overlaps (small_entry (FIVE_MB + ONE_MB)) (start_entry start)"
    "overlaps large_entry (mb5_entry b)" "overlaps large_entry (small_entry (FIVE_MB + ONE_MB))"
  using overlaps_global [OF entry_covers(2) [of FIVE_MB] entry_covers(1) [of b]]
    overlaps_global [OF entry_covers(2) [of FIVE_MB] start_entry_covers [OF assms]]
    overlaps_global [OF entry_covers(2) [of "FIVE_MB + ONE_MB"] entry_covers(1) [of b]]
    overlaps_global [OF entry_covers(2) [of "FIVE_MB + ONE_MB"] start_entry_covers [OF assms]]
    overlaps_global [OF entry_covers(3) entry_covers(1) [of b]]
    overlaps_global [OF entry_covers(3) entry_covers(2) [of "FIVE_MB + ONE_MB"]]
  by (simp_all add: mb_pages)

lemma probe_pages:
  assumes "start < 0x100000"
  shows "tlb_entry_matches (mmu_key 0 va) (start_entry start) \<longleftrightarrow> drop_bit 20 va = 0"
    "tlb_entry_matches (mmu_key 0 va) (mb5_entry b) \<longleftrightarrow> drop_bit 20 va = 5"
    "tlb_entry_matches (mmu_key 0 va) (small_entry (FIVE_MB + ONE_MB)) \<Longrightarrow> drop_bit 20 va = 6"
  using covers_probe [OF start_entry_covers [OF assms], of 0 va] covers_probe [OF entry_covers(1) [of b], of 0 va]
    covers_probe [OF entry_covers(2) [of "FIVE_MB + ONE_MB"], of 0 va] drop_bit_mono [of 12 va "FIVE_MB + ONE_MB" 20]
  by (simp_all add: mb_pages)

lemma chk_ctlbw_law:
  assumes "tlb_overlap (tlb b) ok ox"
  shows "op_tlboc ox (dev (rt (mmu s))) e = k \<Longrightarrow> k \<noteq> TLB_NOT_FOUND \<Longrightarrow> chk_ctlbw line ox e i k s = s"
    "op_tlboc ox (dev (rt (mmu s))) e = TLB_NOT_FOUND \<Longrightarrow> chk_ctlbw line ox e i TLB_NOT_FOUND s = s\<lparr>mmu := tlbw (tlb b) (mmu s) e i\<rparr>"
proof -
  have "(rt m)\<lparr>dev := dev (rt m)\<rparr> = rt m" "m\<lparr>rt := rt m\<rparr> = m" for m :: "'a mmu" by (cases "rt m", simp) (cases m, simp)
  moreover have "s\<lparr>mmu := mmu s\<rparr> = s" by (cases s) simp
  ultimately show "op_tlboc ox (dev (rt (mmu s))) e = k \<Longrightarrow> k \<noteq> TLB_NOT_FOUND \<Longrightarrow> chk_ctlbw line ox e i k s = s"
    using tlb_overlap.ctlbw_law [OF assms] by (simp add: chk_ctlbw_def ctlbw_def)
  show "op_tlboc ox (dev (rt (mmu s))) e = TLB_NOT_FOUND \<Longrightarrow> chk_ctlbw line ox e i TLB_NOT_FOUND s = s\<lparr>mmu := tlbw (tlb b) (mmu s) e i\<rparr>"
    using tlb_overlap.ctlbw_law [OF assms] by (simp add: chk_ctlbw_def ctlbw_def tlbw_def)
qed

lemma space_tlbw:
  assumes "overlap_board b ok ox" "space_ready b ok v s" "i \<in> {1..5}"
  shows "space_ready b ok (v(i \<mapsto> e)) (s\<lparr>mmu := tlbw (tlb b) (mmu s) e i\<rparr>)"
  by (rule space_write [OF assms]) (use assms(2) in \<open>simp_all add: tlbw_def space_ready_def ready_def current_asid_def getssr_def\<close>)

lemma test_overlap_ok:
  assumes b: "overlap_board b ok ox" and r: "space_ready b ok (start_view start) s" and start: "start < 0x100000"
  shows "\<exists>s'. test_overlap b ox s = Some s' \<and> space_ready b ok (start_view start) s' \<and> chk s' = chk s"
proof -
  let ?B = "small_entry (FIVE_MB + ONE_MB)"
  let ?v0 = "start_view start"
  let ?v1 = "?v0(1 \<mapsto> mb5_entry b)"
  let ?v2 = "?v1(2 \<mapsto> ?B)"
  have a: "data b < 0x100000" and dev: "tlb_overlap (tlb b) ok ox" using b by (simp_all add: overlap_board_def board_ok_def)
  note addr = moved_addresses [OF a] and page = page_start_first_mb [OF a] and over = entry_overlaps [OF start]
    and probe = probe_pages [OF start]
  have low: "FIVE_MB < 0x80000000" by (simp add: FIVE_MB_def ONE_MB_def)
  have none0: "none_maps ?v0 FIVE_MB" using probe(1) [of FIVE_MB] mb_pages(2) by (simp add: none_maps_def start_view_def)
  obtain s1 where s1: "map_page b 1 FIVE_MB 0 (PageSize SHIFT_1M) full s = Some s1" "space_ready b ok ?v1 s1" "chk s1 = chk s"
    using space_map_page [OF b r _ low none0, of 1 0 "PageSize SHIFT_1M" full] unfolding mb5_entry_def by auto
  have v1: "all_view (tlb b) ok (dev (rt (mmu s1))) ?v1" using s1(2) by (simp add: space_ready_def)
  have "only_maps ?v1 (data b + FIVE_MB) 1" using addr(1) probe by (auto simp: only_maps_def start_view_def)
  note tlbp1 = space_probe(1) [OF b s1(2) addr(3) this]
  have oc1: "op_tlboc ox (dev (rt (mmu s1))) (small_entry FIVE_MB) = 1"
    by (rule tlb_overlap.view_tlboc_one [OF dev v1 entry_covers(2) low_page_small, where ?e0.0 = "mb5_entry b"])
       (use over in \<open>auto simp: start_view_def FIVE_MB_def ONE_MB_def split: if_splits\<close>)
  have oc2: "op_tlboc ox (dev (rt (mmu s1))) ?B = TLB_NOT_FOUND"
    by (rule tlb_overlap.view_tlboc_none [OF dev v1 entry_covers(2) low_page_small])
       (use over in \<open>auto simp: start_view_def FIVE_MB_def ONE_MB_def split: if_splits\<close>)
  let ?s2 = "s1\<lparr>mmu := tlbw (tlb b) (mmu s1) ?B 2\<rparr>"
  let ?s3 = "unmap_page b 1 ?s2"
  let ?s4 = "unmap_page b 2 ?s3"
  have r2: "space_ready b ok ?v2 ?s2" using space_tlbw [OF b s1(2), of 2 ?B] by simp
  have oc3: "op_tlboc ox (dev (rt (mmu ?s2))) large_entry = 0xffffffff"
    by (rule tlb_overlap.view_tlboc_many [OF dev, of _ ?v2 1 "mb5_entry b" 2 ?B])
       (use r2 over in \<open>simp_all add: space_ready_def\<close>)
  have "?v2 = (?v0(2 \<mapsto> ?B))(1 \<mapsto> mb5_entry b)" by (simp add: fun_upd_twist)
  then have "space_ready b ok ((?v0(2 \<mapsto> ?B))(1 \<mapsto> mb5_entry b)) ?s2" using r2 by simp
  from space_unmap_page [OF b this] have r3: "space_ready b ok (?v0(2 \<mapsto> ?B)) ?s3" by (simp add: start_view_def)
  have r4: "space_ready b ok ?v0 ?s4" using space_unmap_page [OF b r3] by (simp add: start_view_def)
  have "none_maps (?v0(2 \<mapsto> ?B)) (data b + FIVE_MB)" using addr(1) probe by (auto simp: none_maps_def start_view_def)
  note tlbp3 = space_probe(2) [OF b r3 addr(3) this]
  have "none_maps ?v0 (data b + FIVE_MB + ONE_MB)" using addr(2) probe by (auto simp: none_maps_def start_view_def)
  note tlbp4 = space_probe(2) [OF b r4 addr(4) this]
  have "test_overlap b ox s = Some ?s4"
    unfolding test_overlap_def Let_def page
    using s1(1) tlbp1 oc1 oc2 oc3 tlbp3 tlbp4 chk_ctlbw_law(1) [OF dev oc1] chk_ctlbw_law(2) [OF dev oc2]
    by (simp add: chk_tlboc_def tlboc_def small_entry_def large_entry_def TLB_NOT_FOUND_def)
  then show ?thesis using r4 s1(3) by simp
qed

text \<open>C7: the overlap test passes on every TLB that meets its laws: an entry inside a mapped megabyte is found to overlap and is not
  written by the conditional write, one outside is written, and a larger entry overlaps both.\<close>

theorem mmu_overlap_passes:
  assumes "overlap_board b ok ox" "space_start b ok s"
  shows "\<exists>s'. mmu_overlap_main b ox s = Some ((0, ''PASS''), s') \<and> space_start b ok s'"
proof -
  obtain start where start: "start < 0x100000" "space_ready b ok (start_view start) s" "err (chk s) = 0"
    using assms(2) by (auto simp: space_start_def)
  obtain s' where "test_overlap b ox s = Some s'" "space_ready b ok (start_view start) s'" "chk s' = chk s"
    using test_overlap_ok [OF assms(1) start(2, 1)] by blast
  then show ?thesis using start by (auto simp: mmu_overlap_main_def test_end_def space_start_def)
qed

section \<open>The test of multiple matches passes\<close>

definition entries :: "'d board \<Rightarrow> ('d \<Rightarrow> u32 \<Rightarrow> bool) \<Rightarrow> (u32 \<rightharpoonup> u64) \<Rightarrow> 'd mmu \<Rightarrow> bool" where
  "entries b ok v m \<longleftrightarrow> all_view (tlb b) ok (dev (rt m)) v \<and> (\<forall>i \<in> {1..5}. ok (dev (rt m)) i)"

lemma entries_cong: "dev (rt m') = dev (rt m) \<Longrightarrow> entries b ok v m' = entries b ok v m"
  by (simp add: entries_def)

lemma entries_tlbw:
  assumes "tlb_overlap (tlb b) ok ox" "entries b ok v m" "i \<in> {1..5}"
  shows "entries b ok (v(i \<mapsto> e)) (tlbw (tlb b) m e i)"
  using assms tlb_overlap.all_view_write [OF assms(1), of "dev (rt m)" v i e] tlb_device.ok_wr [of "tlb b" ok]
  by (simp add: entries_def tlbw_def tlb_overlap_def)

lemma entries_unmap:
  assumes "tlb_overlap (tlb b) ok ox" "entries b ok (v(i \<mapsto> e)) (mmu s)" "i \<in> {1..5}" "v i = None"
  shows "entries b ok v (mmu (unmap_page b i s))"
proof -
  let ?m = "tlbw (tlb b) (mmu s) (SET_FIELD e PTE_V 0) i"
  have "tlbr (tlb b) (mmu s) i = e" using assms(2) by (simp add: entries_def all_view_def tlbr_def)
  then have "mmu (unmap_page b i s) = ?m" by (simp add: unmap_page_def remove_trans_def Let_def)
  moreover have "entries b ok ((v(i \<mapsto> e))(i \<mapsto> SET_FIELD e PTE_V 0)) ?m" using entries_tlbw [OF assms(1-3)] .
  then have "entries b ok v ?m"
    using all_view_drop [of "tlb b" ok _ v i "SET_FIELD e PTE_V 0"] assms(4) not_matches_SET_V_0 by (auto simp: entries_def)
  ultimately show ?thesis by simp
qed

text \<open>What a probe of an address finds: one entry, or several.\<close>

lemma entries_matches:
  assumes "entries b ok v m" "va < 0x80000000" "ok (dev (rt m)) j" "tlb_entry_matches (mmu_key asid va) (op_tlbr (tlb b) (dev (rt m)) j)"
  shows "\<exists>e. v j = Some e \<and> tlb_entry_matches (mmu_key asid va) e"
  using assms unfolding entries_def all_view_def by (cases "v j") auto

lemma probe_once:
  assumes "tlb_overlap (tlb b) ok ox" "entries b ok v m" "va < 0x80000000" "v k = Some e" "tlb_entry_matches (mmu_key asid va) e"
    "\<And>j e'. v j = Some e' \<Longrightarrow> tlb_entry_matches (mmu_key asid va) e' \<Longrightarrow> j = k"
  shows "tlbp (tlb b) m asid va = k" "\<not> op_multi ox (dev (rt m)) (mmu_key asid va)"
proof -
  have only: "j = k" if "ok (dev (rt m)) j" "tlb_entry_matches (mmu_key asid va) (op_tlbr (tlb b) (dev (rt m)) j)" for j
    using entries_matches [OF assms(2, 3) that] assms(6) by blast
  moreover have "ok (dev (rt m)) k" "op_tlbr (tlb b) (dev (rt m)) k = e" using assms(2, 4) by (auto simp: entries_def all_view_def)
  ultimately show "tlbp (tlb b) m asid va = k"
    unfolding tlbp_key using assms(1, 5) tlb_overlap.probe_lowest [of "tlb b" ok ox "dev (rt m)" k "mmu_key asid va"] by blast
  show "\<not> op_multi ox (dev (rt m)) (mmu_key asid va)" unfolding tlb_overlap.multi [OF assms(1)] using only by blast
qed

lemma probe_twice:
  assumes "tlb_overlap (tlb b) ok ox" "entries b ok v m" "va < 0x80000000" "v k = Some e" "v l = Some e" "k < l"
    "tlb_entry_matches (mmu_key asid va) e" "\<And>j e'. v j = Some e' \<Longrightarrow> tlb_entry_matches (mmu_key asid va) e' \<Longrightarrow> j = k \<or> j = l"
  shows "tlbp (tlb b) m asid va = k" "op_multi ox (dev (rt m)) (mmu_key asid va)"
proof -
  have kl: "ok (dev (rt m)) k" "op_tlbr (tlb b) (dev (rt m)) k = e" "ok (dev (rt m)) l" "op_tlbr (tlb b) (dev (rt m)) l = e"
    using assms(2, 4, 5) by (auto simp: entries_def all_view_def)
  show "op_multi ox (dev (rt m)) (mmu_key asid va)"
    unfolding tlb_overlap.multi [OF assms(1)] using kl assms(6, 7) by (intro exI [of _ k] exI [of _ l]) auto
  have "k \<le> j" if "ok (dev (rt m)) j" "tlb_entry_matches (mmu_key asid va) (op_tlbr (tlb b) (dev (rt m)) j)" for j
    using entries_matches [OF assms(2, 3) that] assms(6, 8) by (metis order.strict_implies_order order_refl)
  then show "tlbp (tlb b) m asid va = k"
    unfolding tlbp_key using kl(1, 2) assms(1, 7) tlb_overlap.probe_lowest [of "tlb b" ok ox "dev (rt m)" k "mmu_key asid va"] by blast
qed

lemma chk_tlbp_nmi_once:
  assumes "tlbp (tlb b) (mmu s) asid va = k" "\<not> op_multi ox (dev (rt (mmu s))) (mmu_key asid va)"
  shows "chk_tlbp_nmi line b ox asid va k s = Some s"
  using assms by (simp add: chk_tlbp_nmi_def Let_def)

lemma chk_tlbp_nmi_twice:
  assumes "tlbp (tlb b) (mmu s) asid va = k" "op_multi ox (dev (rt (mmu s))) (mmu_key asid va)" "evb (mmu s) = my_event_vectors b"
  shows "\<exists>m. chk_tlbp_nmi line b ox asid va k s = Some (s\<lparr>mmu := m\<rparr>) \<and> dev (rt m) = dev (rt (mmu s)) \<and>
    my_exceptions m = set_exception_vector_bit (my_exceptions (mmu s)) HEX_CAUSE_IMPRECISE_MULTI_TLB_MATCH"
proof -
  let ?c = HEX_CAUSE_IMPRECISE_MULTI_TLB_MATCH
  let ?m = "setssr (mmu s) (set_bit 17 (SET_FIELD (getssr (mmu s)) SSR_CAUSE (ucast ?c)))"
  have "ucast (GET_FIELD (getssr ?m) SSR_CAUSE) = ?c"
    using ssr_cause_written [of ?c "getssr (mmu s)"] by (simp add: getssr_def setssr_def HEX_CAUSE_IMPRECISE_MULTI_TLB_MATCH_def)
  then have "my_event_handle_nmi_helper (getssr ?m) ?m = Ok (record_exception ?m ?c)" by (simp add: my_event_handle_nmi_helper_def Let_def)
  moreover have "evb ?m = my_event_vectors b" using assms(3) by (simp add: setssr_def)
  ultimately have "chk_tlbp_nmi line b ox asid va k s = Some (s\<lparr>mmu := rte (record_exception ?m ?c)\<rparr>)"
    using assms(1, 2) by (simp add: chk_tlbp_nmi_def Let_def)
  then show ?thesis by (intro exI [of _ "rte (record_exception ?m ?c)"]) (simp add: rte_def record_exception_def setssr_def)
qed

lemma check_exception_vector_same [simp]: "check_exception_vector line v v s = s"
  by (simp add: check_exception_vector_def check64_def)

text \<open>The entry of address space 1.\<close>

definition asid_entry :: "u32 \<Rightarrow> u32 \<Rightarrow> u64" where
  "asid_entry vp pp = create_mmu_entry 0 0 0 1 vp 1 1 1 0 7 (ucast pp) (PageSize SHIFT_4K)"

lemma asid_entry_covers: "covers (asid_entry vp (page_start a 12)) (Some 1) 12 vp"
proof -
  have "page_aligned SHIFT_4K (ucast (page_start a 12))"
    unfolding page_aligned_def by (rule bit_word_eqI) (auto simp: bit_take_bit_iff bit_ucast_iff bit_page_start)
  moreover have "unat (ucast (page_start a 12) :: u64) < 2 ^ 35"
    by (rule unat_less_exp_iff_bits) (auto simp: bit_ucast_iff dest: bit_imp_le_length)
  ultimately show ?thesis using create_mmu_entry_covers [of SHIFT_4K "ucast (page_start a 12)" 0 0 0 1 vp 1 1 1 0 7] by (simp add: asid_entry_def)
qed

lemma asid_entry_facts:
  assumes "a < 0x100000" "unat k \<in> {1..5}" "start < 0x100000"
  defines "e \<equiv> asid_entry (page_start a 12 + k * ONE_MB) (page_start a 12)"
  shows "tlb_entry_matches (mmu_key asid (a + k * ONE_MB)) e \<longleftrightarrow> take_bit 7 asid = 1" "\<not> tlb_entry_matches (mmu_key asid (a + k * ONE_MB)) (start_entry start)"
    "overlaps e e" "\<not> overlaps e (start_entry start)" "low_page 12 (page_start a 12 + k * ONE_MB)" "a + k * ONE_MB < 0x80000000"
proof -
  note off = mb_offset_mb(1) [OF assms(2)] and page = page_start_small [OF assms(1), of 12]
  have cov: "covers e (Some 1) 12 (page_start a 12 + k * ONE_MB)" unfolding e_def by (rule asid_entry_covers)
  show "tlb_entry_matches (mmu_key asid (a + k * ONE_MB)) e \<longleftrightarrow> take_bit 7 asid = 1"
    using cov moved_page [OF off assms(1)] by (auto simp: covers_def)
  have out: "drop_bit 20 (a + k * ONE_MB) \<noteq> 0" "drop_bit 20 (page_start a 12 + k * ONE_MB) \<noteq> 0"
    using moved_outside [OF off assms(1)] moved_outside [OF off page] off by (simp_all add: mb_offset_def)
  then show "\<not> tlb_entry_matches (mmu_key asid (a + k * ONE_MB)) (start_entry start)"
    using covers_probe [OF start_entry_covers [OF assms(3)], of asid] by simp
  show "overlaps e e" using overlaps_covers [OF cov cov] by (simp add: meet_def)
  show "\<not> overlaps e (start_entry start)" using overlaps_covers [OF cov start_entry_covers [OF assms(3)]] out(2) by simp
  show "a + k * ONE_MB < 0x80000000" using moved_below [OF off assms(1)] .
  have "va < 0x80000000" if "drop_bit 12 va = drop_bit 12 (page_start a 12 + k * ONE_MB)" for va
  proof -
    have "\<not> bit va i" if "31 \<le> i" for i
    proof -
      have "bit (drop_bit 12 va) (i - 12) = bit (drop_bit 12 (page_start a 12 + k * ONE_MB)) (i - 12)"
        using \<open>drop_bit 12 va = _\<close> by simp
      then have "bit va i = bit (page_start a 12 + k * ONE_MB) i" using that by (simp add: bit_drop_bit_eq)
      also have "\<dots> \<longleftrightarrow> bit (page_start a 12) i \<or> bit (k * ONE_MB) i" by (rule bit_moved [OF off page])
      also have "\<not> \<dots>" using small_bit [OF page, of i] off that by (auto simp: mb_offset_def)
      finally show ?thesis .
    qed
    then have "unat va < 2 ^ 31" by (rule unat_less_exp_iff_bits)
    then show ?thesis by (simp add: word_less_nat_alt)
  qed
  then show "low_page 12 (page_start a 12 + k * ONE_MB)" by (simp add: low_page_def)
qed

lemma test_multi_tlb_ok:
  assumes b: "overlap_board b ok ox" and r: "entries b ok (start_view start) (mmu s)" and start: "start < 0x100000"
  shows "\<exists>s'. test_multi_tlb b ox s = Some s' \<and> entries b ok (start_view start) (mmu s') \<and> chk s' = chk s"
proof -
  let ?v0 = "start_view start" and ?a = "data b" and ?va = "data b + ONE_MB"
  let ?e = "asid_entry (page_start ?a 12 + ONE_MB) (page_start ?a 12)"
  have a: "?a < 0x100000" and dev: "tlb_overlap (tlb b) ok ox" using b by (simp_all add: overlap_board_def board_ok_def)
  have e: "tlb_entry_matches (mmu_key 1 ?va) ?e" "\<not> tlb_entry_matches (mmu_key 1 ?va) (start_entry start)" "overlaps ?e ?e"
    "\<not> overlaps ?e (start_entry start)" "low_page 12 (page_start ?a 12 + ONE_MB)" "?va < 0x80000000"
    using asid_entry_facts [OF a _ start, of 1] by simp_all
  define m0 where "m0 = tlbinvasid ox (set_asid ((install_my_event_vectors (my_event_vectors b) (mmu s))\<lparr>my_exceptions := (0, 0)\<rparr>) 1) 1"
  have d0: "dev (rt m0) = op_tlbinvasid ox (dev (rt (mmu s))) 1" "evb m0 = my_event_vectors b" "my_exceptions m0 = (0, 0)"
    by (simp_all add: m0_def tlbinvasid_def set_asid_def setssr_def install_my_event_vectors_def Let_def setevb_def)
  have "bit (start_entry start) 62" using bit_start_entry_hi [OF start, of 62] by simp
  then have "all_view (tlb b) ok (dev (rt m0)) ?v0"
    unfolding d0(1) using r by (intro tlb_overlap.all_view_invasid [OF dev]) (auto simp: entries_def start_view_def split: if_splits)
  then have r0: "entries b ok ?v0 m0" using r tlb_overlap.invasid_ok [OF dev] by (simp add: entries_def d0(1))
  let ?m1 = "tlbw (tlb b) m0 ?e 1" and ?m2 = "tlbw (tlb b) (tlbw (tlb b) m0 ?e 1) ?e 2"
  have r1: "entries b ok (?v0(1 \<mapsto> ?e)) ?m1" using entries_tlbw [OF dev r0] by simp
  have r2: "entries b ok (?v0(1 \<mapsto> ?e, 2 \<mapsto> ?e)) ?m2" using entries_tlbw [OF dev r1] by simp
  have oc1: "op_tlboc ox (dev (rt ?m1)) ?e = 1"
    by (rule tlb_overlap.view_tlboc_one [OF dev _ asid_entry_covers e(5), where v = "?v0(1 \<mapsto> ?e)" and ?e0.0 = ?e])
       (use r1 e(3, 4) in \<open>auto simp: entries_def start_view_def split: if_splits\<close>)
  have oc2: "op_tlboc ox (dev (rt ?m2)) ?e = 0xffffffff"
    by (rule tlb_overlap.view_tlboc_many [OF dev, of _ "?v0(1 \<mapsto> ?e, 2 \<mapsto> ?e)" 1 ?e 2 ?e])
       (use r2 e(3) in \<open>simp_all add: entries_def\<close>)
  have once: "tlbp (tlb b) ?m1 1 ?va = 1" "\<not> op_multi ox (dev (rt ?m1)) (mmu_key 1 ?va)"
    by (rule probe_once [OF dev r1 e(6), of 1 ?e]; use e in \<open>auto simp: start_view_def split: if_splits\<close>)+
  have twice: "tlbp (tlb b) ?m2 1 ?va = 1" "op_multi ox (dev (rt ?m2)) (mmu_key 1 ?va)"
    by (rule probe_twice [OF dev r2 e(6), of 1 ?e 2]; use e in \<open>auto simp: start_view_def split: if_splits\<close>)+
  have ev: "evb ?m2 = my_event_vectors b" "my_exceptions ?m2 = (0, 0)" by (simp_all add: tlbw_def d0)
  obtain m3 where m3: "chk_tlbp_nmi 58 b ox 1 ?va 1 (s\<lparr>mmu := ?m2\<rparr>) = Some (s\<lparr>mmu := m3\<rparr>)" "dev (rt m3) = dev (rt ?m2)"
    "my_exceptions m3 = set_exception_vector_bit (0, 0) HEX_CAUSE_IMPRECISE_MULTI_TLB_MATCH"
    using chk_tlbp_nmi_twice [of b "s\<lparr>mmu := ?m2\<rparr>" 1 ?va 1 ox 58] twice ev by auto
  let ?s4 = "unmap_page b 1 (s\<lparr>mmu := m3\<rparr>)"
  let ?s5 = "unmap_page b 2 ?s4"
  have "entries b ok ((?v0(2 \<mapsto> ?e))(1 \<mapsto> ?e)) (mmu (s\<lparr>mmu := m3\<rparr>))"
    using r2 entries_cong [OF m3(2)] by (simp add: fun_upd_twist)
  from entries_unmap [OF dev this] have "entries b ok (?v0(2 \<mapsto> ?e)) (mmu ?s4)" by (simp add: start_view_def)
  from entries_unmap [OF dev this] have r5: "entries b ok ?v0 (mmu ?s5)" by (simp add: start_view_def)
  have "test_multi_tlb b ox s = Some ?s5"
    using once oc1 oc2 m3(1, 3) chk_tlbp_nmi_once [of b "s\<lparr>mmu := ?m1\<rparr>" 1 ?va 1 ox 55]
    by (simp add: test_multi_tlb_def Let_def TARGET_PAGE_BITS_def clear_exception_vector_def chk_tlboc_def tlboc_def
        flip: asid_entry_def m0_def)
  then show ?thesis using r5 by auto
qed

definition entries_start :: "'d board \<Rightarrow> ('d \<Rightarrow> u32 \<Rightarrow> bool) \<Rightarrow> 'd mtest \<Rightarrow> bool" where
  "entries_start b ok s \<longleftrightarrow> err (chk s) = 0 \<and> (\<exists>start < 0x100000. entries b ok (start_view start) (mmu s))"

text \<open>C8: the test of multiple matches passes: one entry of address space 1 is found alone, a second one makes the probe raise exactly
  the exception of a multiple match, and both are gone at the end.\<close>

theorem mmu_multi_tlb_passes:
  assumes "overlap_board b ok ox" "entries_start b ok s"
  shows "\<exists>s'. mmu_multi_tlb_main b ox s = Some ((0, ''PASS''), s') \<and> entries_start b ok s'"
proof -
  obtain start where start: "start < 0x100000" "entries b ok (start_view start) (mmu s)" "err (chk s) = 0"
    using assms(2) by (auto simp: entries_start_def)
  obtain s' where "test_multi_tlb b ox s = Some s'" "entries b ok (start_view start) (mmu s')" "chk s' = chk s"
    using test_multi_tlb_ok [OF assms(1) start(2, 1)] by blast
  then show ?thesis using start by (auto simp: mmu_multi_tlb_main_def test_end_def entries_start_def)
qed

section \<open>An array of entries\<close>

definition arr_idx :: "u64 list \<Rightarrow> (u64 \<Rightarrow> bool) \<Rightarrow> nat list" where
  "arr_idx d P = filter (\<lambda>i. P (d ! i)) [0..<min (length d) (2 ^ 31)]"

definition arr_tlboc :: "u64 list \<Rightarrow> u64 \<Rightarrow> u32" where
  "arr_tlboc d e = (case arr_idx d (overlaps e) of [] \<Rightarrow> TLB_NOT_FOUND | [i] \<Rightarrow> of_nat i | _ \<Rightarrow> 0xffffffff)"

definition arr_overlap :: "u64 list overlap_ops" where
  "arr_overlap = \<lparr>op_tlboc = arr_tlboc,
     op_ctlbw = (\<lambda>d e i. (arr_tlboc d e, if arr_tlboc d e = TLB_NOT_FOUND then op_tlbw arr_tlb d e i else d)),
     op_tlbinvasid = (\<lambda>d x. map (\<lambda>e. if \<not> bit e 62 \<and> get_member e ASID = ucast (take_bit 7 (drop_bit 20 x)) then unset_bit 63 e else e) d),
     op_multi = (\<lambda>d x. 2 \<le> length (arr_idx d (tlb_entry_matches x)))\<rparr>"

lemma arr_idx_iff: "unat i \<in> set (arr_idx d P) \<longleftrightarrow> arr_ok d i \<and> P (op_tlbr arr_tlb d i)"
  by (auto simp: arr_idx_def arr_ok_def arr_tlb_def)

lemma arr_idx_word: "n \<in> set (arr_idx d P) \<Longrightarrow> \<exists>i :: u32. n = unat i"
  by (rule exI [of _ "of_nat n"]) (simp add: arr_idx_def unsigned_of_nat take_bit_nat_eq_self)

lemma arr_idx_two: "2 \<le> length (arr_idx d P) \<longleftrightarrow> (\<exists>i j. arr_ok d i \<and> arr_ok d j \<and> i \<noteq> j \<and> P (op_tlbr arr_tlb d i) \<and> P (op_tlbr arr_tlb d j))"
proof -
  have dist: "distinct (arr_idx d P)" by (simp add: arr_idx_def)
  show ?thesis
  proof
    assume "2 \<le> length (arr_idx d P)"
    then obtain m n ns where mn: "arr_idx d P = m # n # ns" by (cases "arr_idx d P" rule: remdups_adj.cases) auto
    obtain i j :: u32 where ij: "m = unat i" "n = unat j" using arr_idx_word [of m d P] arr_idx_word [of n d P] mn by auto
    then show "\<exists>i j. arr_ok d i \<and> arr_ok d j \<and> i \<noteq> j \<and> P (op_tlbr arr_tlb d i) \<and> P (op_tlbr arr_tlb d j)"
      using arr_idx_iff [of i d P] arr_idx_iff [of j d P] dist mn by auto
  next
    assume "\<exists>i j. arr_ok d i \<and> arr_ok d j \<and> i \<noteq> j \<and> P (op_tlbr arr_tlb d i) \<and> P (op_tlbr arr_tlb d j)"
    then obtain i j :: u32 where ij: "i \<noteq> j" "unat i \<in> set (arr_idx d P)" "unat j \<in> set (arr_idx d P)" unfolding arr_idx_iff by blast
    then have "card {unat i, unat j} \<le> card (set (arr_idx d P))" by (intro card_mono) auto
    then show "2 \<le> length (arr_idx d P)" using ij(1) card_length [of "arr_idx d P"] by (simp add: word_unat_eq_iff)
  qed
qed

interpretation arr_over: tlb_overlap arr_tlb arr_ok arr_overlap
proof
  fix d e j
  show "op_tlboc arr_overlap d e = TLB_NOT_FOUND" if "\<And>j. arr_ok d j \<Longrightarrow> \<not> overlaps e (op_tlbr arr_tlb d j)"
  proof -
    have "n \<notin> set (arr_idx d (overlaps e))" for n
      using that arr_idx_iff [of _ d "overlaps e"] arr_idx_word [of n d "overlaps e"] by blast
    then have "arr_idx d (overlaps e) = []" by (cases "arr_idx d (overlaps e)") auto
    then show ?thesis by (simp add: arr_overlap_def arr_tlboc_def)
  qed
  show "op_tlboc arr_overlap d e = j" if "arr_ok d j" "overlaps e (op_tlbr arr_tlb d j)"
    "\<And>k. arr_ok d k \<Longrightarrow> overlaps e (op_tlbr arr_tlb d k) \<Longrightarrow> k = j"
  proof -
    have mem: "unat j \<in> set (arr_idx d (overlaps e))" using that(1, 2) arr_idx_iff by blast
    moreover have "\<not> 2 \<le> length (arr_idx d (overlaps e))" unfolding arr_idx_two using that(3) by blast
    ultimately have "arr_idx d (overlaps e) = [unat j]" by (cases "arr_idx d (overlaps e)" rule: remdups_adj.cases) auto
    then show ?thesis by (simp add: arr_overlap_def arr_tlboc_def)
  qed
  show "op_tlboc arr_overlap d e = 0xffffffff" if "arr_ok d i" "arr_ok d j" "i \<noteq> j" "overlaps e (op_tlbr arr_tlb d i)" "overlaps e (op_tlbr arr_tlb d j)" for i
  proof -
    have "2 \<le> length (arr_idx d (overlaps e))" unfolding arr_idx_two using that by blast
    then show ?thesis by (cases "arr_idx d (overlaps e)" rule: remdups_adj.cases) (simp_all add: arr_overlap_def arr_tlboc_def)
  qed
  show "op_tlbp arr_tlb d x = i" if "arr_ok d i" "tlb_entry_matches x (op_tlbr arr_tlb d i)"
    "\<And>j. arr_ok d j \<Longrightarrow> tlb_entry_matches x (op_tlbr arr_tlb d j) \<Longrightarrow> i \<le> j" for i x
  proof -
    let ?P = "\<lambda>i. tlb_entry_matches x (d ! i)" and ?N = "min (length d) (2 ^ 31)"
    have i: "unat i < ?N" "?P (unat i)" using that(1, 2) by (simp_all add: arr_ok_def arr_tlb_def)
    then obtain n where n: "find ?P [0..<?N] = Some n" using find_upt_None_iff [of ?P ?N] by (cases "find ?P [0..<?N]") auto
    then have min: "n < ?N" "?P n" "\<forall>j < n. \<not> ?P j" by (auto simp: find_Some_iff)
    have "n \<le> unat i" using i(2) min(3) by (meson not_le)
    moreover have un: "unat (of_nat n :: u32) = n" using min(1) by (simp add: unat_of_nat_small)
    then have "i \<le> of_nat n" using that(3) [of "of_nat n"] min(1, 2) by (simp add: arr_ok_def arr_tlb_def)
    then have "unat i \<le> n" using un by (simp add: word_le_nat_alt)
    ultimately have "of_nat n = i" using un by (simp add: word_unat_eq_iff)
    then show ?thesis using n by (simp add: arr_tlb_def arr_tlbp_def)
  qed
qed (simp_all add: arr_overlap_def arr_ok_def arr_tlb_def Let_def arr_idx_two [unfolded arr_tlb_def arr_ok_def])

lemma sample_overlap_board: "overlap_board sample_board arr_ok arr_overlap"
  using sample_board_ok arr_over.tlb_overlap_axioms by (simp add: overlap_board_def sample_board_def)

lemma sample_entries: "entries sample_board arr_ok (start_view 0x1000) (mmu sample_test)"
proof -
  let ?d = "dev (rt (mmu sample_test))"
  have d: "?d = start_entry 0x1000 # replicate 7 0" by (simp add: sample_test_def)
  have ok: "arr_ok ?d j \<longleftrightarrow> unat j < 8" for j by (simp add: d arr_ok_def)
  have rd: "op_tlbr arr_tlb ?d j = (if j = 0 then start_entry 0x1000 else 0)" if "unat j < 8" for j
  proof (cases "j = 0")
    case False
    then have "unat j \<noteq> 0" by (simp add: unat_eq_0)
    then obtain k where "unat j = Suc k" by (cases "unat j") auto
    then show ?thesis using that False by (simp add: arr_tlb_def d)
  qed (simp add: arr_tlb_def d)
  have "all_view arr_tlb arr_ok ?d (start_view 0x1000)"
    using rd unfolding all_view_def ok by (auto simp: start_view_def tlb_entry_matches_def split: if_splits)
  then show ?thesis by (auto simp: entries_def sample_board_def ok word_le_nat_alt)
qed

theorem mmu_overlap_passes_witness: "\<exists>s'. mmu_overlap_main sample_board arr_overlap sample_test = Some ((0, ''PASS''), s')"
proof -
  have "ready sample_board arr_ok (start_view 0x1000) sample_test"
    using sample_entries all_view_tlb_view [of arr_tlb arr_ok _ "start_view 0x1000"]
    by (simp add: ready_def entries_def sample_board_def sample_test_def sample_mmu_def current_asid_def getssr_def GET_FIELD_def
        fEXTRACTU_BITS_def fZXTN_def)
  then have "space_start sample_board arr_ok sample_test"
    using sample_entries unfolding space_start_def space_ready_def entries_def
    by (intro conjI exI [of _ "0x1000"]) (simp_all add: sample_test_def)
  then show ?thesis using mmu_overlap_passes [OF sample_overlap_board] by blast
qed

theorem mmu_multi_tlb_passes_witness: "\<exists>s'. mmu_multi_tlb_main sample_board arr_overlap sample_test = Some ((0, ''PASS''), s')"
proof -
  have "entries_start sample_board arr_ok sample_test"
    using sample_entries unfolding entries_start_def by (intro conjI exI [of _ "0x1000"]) (simp_all add: sample_test_def)
  then show ?thesis using mmu_multi_tlb_passes [OF sample_overlap_board] by blast
qed

end
