(* ===== verification/Min_Libc.thy ===== *)
theory Min_Libc
  imports Hex_Prelude "HOL-Library.Char_ord" "HOL-Library.List_Lexorder"
begin

text \<open>
  The bare-metal C library of \<open>crt0/min_libc.c\<close>.

  The byte and string functions read and write a flat memory, a total map from
  32-bit addresses to characters (plain \<open>char\<close> is unsigned on Hexagon).  A
  loop that scans for a terminating NUL is a partial function: \<open>None\<close> stands
  for a scan that never ends or whose \<open>int\<close> index overflows.

  The console functions record the semihosting requests they make, in order;
  \<open>console\<close> is the text that these requests ask the host to print.
  The strings they handle are character lists, without the terminating NUL.
\<close>

section \<open>Memory and strings\<close>

type_synonym mem = "u32 \<Rightarrow> char"

abbreviation NUL :: char where "NUL \<equiv> CHR 0x00"

definition memset :: "u32 \<Rightarrow> u32 \<Rightarrow> u32 \<Rightarrow> mem \<Rightarrow> mem" where
  "memset b c len m =
     fold (\<lambda>i m. m(b + of_nat i := char_of (unat (take_bit 8 c)))) [0..<unat len] m"

fun memcmp_loop :: "mem \<Rightarrow> u32 \<Rightarrow> u32 \<Rightarrow> nat \<Rightarrow> int" where
  "memcmp_loop m s1 s2 0 = 0"
| "memcmp_loop m s1 s2 (Suc n) =
     (if m s1 = m s2 then memcmp_loop m (s1 + 1) (s2 + 1) n
      else of_char (m s1) - of_char (m s2))"

definition memcmp :: "mem \<Rightarrow> u32 \<Rightarrow> u32 \<Rightarrow> u32 \<Rightarrow> int" where
  "memcmp m p1 p2 n = memcmp_loop m p1 p2 (unat n)"

partial_function (option) strlen_loop :: "mem \<Rightarrow> u32 \<Rightarrow> u32 \<Rightarrow> u32 option" where
  "strlen_loop m s len = (if m s = NUL then Some len else strlen_loop m (s + 1) (len + 1))"

definition strlen :: "mem \<Rightarrow> u32 \<Rightarrow> u32 option" where
  "strlen m s = strlen_loop m s 0"

partial_function (option) strcpy_loop :: "u32 \<Rightarrow> u32 \<Rightarrow> nat \<Rightarrow> mem \<Rightarrow> mem option" where
  "strcpy_loop dst src i m =
     (if m (src + of_nat i) = NUL then Some (m(dst + of_nat i := NUL))
      else if i = 2 ^ 31 - 1 then None
      else strcpy_loop dst src (i + 1) (m(dst + of_nat i := m (src + of_nat i))))"

definition strcpy :: "u32 \<Rightarrow> u32 \<Rightarrow> mem \<Rightarrow> mem option" where
  "strcpy dst src m = strcpy_loop dst src 0 m"

partial_function (option) strcmp :: "mem \<Rightarrow> u32 \<Rightarrow> u32 \<Rightarrow> int option" where
  "strcmp m s1 s2 =
     (if m s1 \<noteq> NUL \<and> m s1 = m s2 then strcmp m (s1 + 1) (s2 + 1)
      else Some (of_char (m s1) - of_char (m s2)))"

text \<open>\<open>strrchr_loop m s c k\<close> runs the loop of \<open>strrchr\<close> from \<open>i = k - 1\<close> down to 0.\<close>

fun strrchr_loop :: "mem \<Rightarrow> u32 \<Rightarrow> int \<Rightarrow> nat \<Rightarrow> u32" where
  "strrchr_loop m s c 0 = 0"
| "strrchr_loop m s c (Suc i) =
     (if of_char (m (s + of_nat i)) = c then s + of_nat i else strrchr_loop m s c i)"

definition strrchr :: "mem \<Rightarrow> u32 \<Rightarrow> int \<Rightarrow> u32 option" where
  "strrchr m s c =
     map_option (\<lambda>len. strrchr_loop m s c (nat (sint (len - 1) + 1))) (strlen m s)"

text \<open>The C string \<open>s\<close> is stored at \<open>p\<close>.\<close>

fun cstr :: "mem \<Rightarrow> u32 \<Rightarrow> string \<Rightarrow> bool" where
  "cstr m p [] \<longleftrightarrow> m p = NUL"
| "cstr m p (c # s) \<longleftrightarrow> m p = c \<and> c \<noteq> NUL \<and> cstr m (p + 1) s"

lemma cstr_nth:
  "cstr m p s \<Longrightarrow> i < length s \<Longrightarrow> m (p + of_nat i) = s ! i \<and> s ! i \<noteq> NUL"
proof (induction m p s arbitrary: i rule: cstr.induct)
  case (2 m p c s)
  then show ?case by (cases i) (auto simp: ac_simps)
qed simp

lemma cstr_end: "cstr m p s \<Longrightarrow> m (p + of_nat (length s)) = NUL"
  by (induction m p s rule: cstr.induct) (auto simp: ac_simps)

lemma cstr_cong:
  "cstr m p s \<Longrightarrow> (\<And>i. i \<le> length s \<Longrightarrow> m' (q + of_nat i) = m (p + of_nat i)) \<Longrightarrow> cstr m' q s"
proof (induction m p s arbitrary: q rule: cstr.induct)
  case (1 m p)
  from "1.prems"(2) [of 0] "1.prems"(1) show ?case by simp
next
  case (2 m p c s)
  have "cstr m' (q + 1) s"
  proof (rule "2.IH")
    show "cstr m (p + 1) s" using "2.prems"(1) by simp
    show "m' (q + 1 + of_nat i) = m (p + 1 + of_nat i)" if "i \<le> length s" for i
      using "2.prems"(2) [of "Suc i"] that by (simp add: ac_simps)
  qed
  with "2.prems"(2) [of 0] "2.prems"(1) show ?case by simp
qed

text \<open>The stored string is unique.\<close>

lemma cstr_inject: "cstr m p s \<Longrightarrow> cstr m p t \<Longrightarrow> s = t"
proof (induction m p s arbitrary: t rule: cstr.induct)
  case (1 m p) then show ?case by (cases t) auto
next
  case (2 m p c s) then show ?case by (cases t) auto
qed

lemma unat_of_nat_u32: "n < 2 ^ 32 \<Longrightarrow> unat (of_nat n :: u32) = n"
  by (rule unat_of_nat_small) simp

lemma unat_u32_less: "unat (x::u32) < 2 ^ 32"
  using unsigned_less [of x] by simp

lemma of_char_less_int: "(of_char c :: int) < of_char d \<longleftrightarrow> c < d"
  by (metis less_char_def of_nat_less_iff of_nat_of_char)

lemma of_char_eq_0_int: "of_char c = (0::int) \<longleftrightarrow> c = NUL"
  using of_char_eq_iff [of c NUL, where 'a = int] by simp

lemma of_char_pos_int: "(0::int) < of_char c \<longleftrightarrow> c \<noteq> NUL"
  using of_char_eq_0_int [of c] of_nat_0_le_iff [of "of_char c", where 'a = int]
  unfolding of_nat_of_char by linarith

lemma of_char_nonneg_int: "\<not> of_char c < (0::int)"
  using of_nat_0_le_iff [of "of_char c", where 'a = int] unfolding of_nat_of_char by linarith

lemma of_nat_add_inject:
  "i < 2 ^ 32 \<Longrightarrow> j < 2 ^ 32 \<Longrightarrow> (b::u32) + of_nat i = b + of_nat j \<longleftrightarrow> i = j"
  by (metis add_left_cancel unat_of_nat_u32)

lemma memset_fold:
  "n \<le> 2 ^ 32 \<Longrightarrow>
   fold (\<lambda>i m. m((b::u32) + of_nat i := c)) [0..<n] m a =
     (if \<exists>i<n. a = b + of_nat i then c else m a)"
  by (induction n) (auto simp: less_Suc_eq)

text \<open>\<open>memset\<close> sets exactly the \<open>len\<close> bytes that start at \<open>b\<close>, to the low byte
  of \<open>c\<close>, and changes nothing else.\<close>

lemma memset_spec:
  "memset b c len m a =
     (if unat (a - b) < unat len then char_of (unat (take_bit 8 c)) else m a)"
proof -
  have "(\<exists>i<unat len. a = b + of_nat i) \<longleftrightarrow> unat (a - b) < unat len"
  proof
    assume "\<exists>i<unat len. a = b + of_nat i"
    then obtain i where i: "i < unat len" "a = b + of_nat i" by blast
    have "i < 2 ^ 32" using i(1) unat_u32_less [of len] by simp
    then have "unat (a - b) = i" by (simp add: i(2) unat_of_nat_small)
    with i(1) show "unat (a - b) < unat len" by simp
  next
    assume "unat (a - b) < unat len"
    then show "\<exists>i<unat len. a = b + of_nat i"
      by (intro exI [of _ "unat (a - b)"]) simp
  qed
  then show ?thesis
    unfolding memset_def
    using memset_fold [of "unat len" b "char_of (unat (take_bit 8 c))" m a] unat_u32_less [of len]
    by (simp only: less_imp_le if_True)
qed

text \<open>The bytes of a buffer.\<close>

definition bytes_at :: "mem \<Rightarrow> u32 \<Rightarrow> nat \<Rightarrow> string" where
  "bytes_at m p n = map (\<lambda>i. m (p + of_nat i)) [0..<n]"

lemma bytes_at_0 [simp]: "bytes_at m p 0 = []"
  by (simp add: bytes_at_def)

lemma bytes_at_Suc [simp]: "bytes_at m p (Suc n) = m p # bytes_at m (p + 1) n"
proof -
  have "[0..<Suc n] = 0 # map Suc [0..<n]" by (simp add: map_Suc_upt upt_conv_Cons)
  then show ?thesis by (simp add: bytes_at_def ac_simps comp_def)
qed

lemma memcmp_loop_sgn:
  "(memcmp_loop m p q n < 0 \<longleftrightarrow> bytes_at m p n < bytes_at m q n) \<and>
   (memcmp_loop m p q n = 0 \<longleftrightarrow> bytes_at m p n = bytes_at m q n)"
  by (induction m p q n rule: memcmp_loop.induct) (auto simp: of_char_less_int)

text \<open>\<open>memcmp\<close> compares the two buffers as sequences of unsigned bytes: its result is
  negative, zero or positive as the first is lexicographically smaller than, equal to or greater
  than the second.\<close>

lemma memcmp_spec:
  "sgn (memcmp m p q n) =
     (if bytes_at m p (unat n) < bytes_at m q (unat n) then - 1
      else if bytes_at m p (unat n) = bytes_at m q (unat n) then 0 else 1)"
  using memcmp_loop_sgn [of m p q "unat n"] unfolding memcmp_def by (auto simp: sgn_if)

lemma strlen_loop_cstr:
  "cstr m p s \<Longrightarrow> strlen_loop m p k = Some (k + of_nat (length s))"
proof (induction m p s arbitrary: k rule: cstr.induct)
  case (1 m p) then show ?case by (simp add: strlen_loop.simps)
next
  case (2 m p c s) then show ?case
    by (subst strlen_loop.simps) (auto simp: ac_simps)
qed

lemma strlen_cstr: "cstr m p s \<Longrightarrow> strlen m p = Some (of_nat (length s))"
  by (simp add: strlen_def strlen_loop_cstr)

lemma strcmp_cstr:
  "cstr m p s \<Longrightarrow> cstr m q t \<Longrightarrow>
   \<exists>r. strcmp m p q = Some r \<and> (r < 0 \<longleftrightarrow> s < t) \<and> (r = 0 \<longleftrightarrow> s = t)"
proof (induction m p s arbitrary: q t rule: cstr.induct)
  case (1 m p)
  then show ?case by (subst strcmp.simps) (cases t; auto simp: of_char_pos_int of_char_eq_0_int of_char_nonneg_int)
next
  case (2 m p c s)
  show ?case
  proof (cases t)
    case Nil
    with 2 show ?thesis by (subst strcmp.simps) (auto simp: of_char_pos_int of_char_eq_0_int of_char_nonneg_int)
  next
    case (Cons d t')
    show ?thesis
    proof (cases "c = d")
      case True
      with 2 Cons show ?thesis by (subst strcmp.simps) auto
    next
      case False
      with 2 Cons show ?thesis by (subst strcmp.simps) (auto simp: of_char_less_int)
    qed
  qed
qed

text \<open>On two stored strings \<open>strcmp\<close> returns, and the sign of its result is that of the
  lexicographic order of the strings as sequences of unsigned characters.\<close>

lemma strcmp_spec:
  assumes "cstr m p s" and "cstr m q t"
  shows "map_option sgn (strcmp m p q) =
         Some (if s < t then - 1 else if s = t then 0 else 1)"
proof -
  obtain r where "strcmp m p q = Some r" "r < 0 \<longleftrightarrow> s < t" "r = 0 \<longleftrightarrow> s = t"
    using strcmp_cstr [OF assms] by blast
  then show ?thesis by (cases r "0::int" rule: linorder_cases) (auto simp: sgn_if)
qed

definition sample_mem :: mem where
  "sample_mem = (\<lambda>a. if a = 0x100 then CHR ''a'' else if a = 0x101 then CHR ''b''
                     else if a = 0x200 then CHR ''a'' else NUL)"

lemma strcpy_loop_cstr:
  assumes "cstr m0 src s" and "length s < 2 ^ 31"
    and apart: "\<And>i j. i \<le> length s \<Longrightarrow> j \<le> length s \<Longrightarrow> dst + of_nat i \<noteq> src + of_nat j"
    and "k \<le> length s"
    and "\<And>i. k \<le> i \<Longrightarrow> i \<le> length s \<Longrightarrow> m (src + of_nat i) = m0 (src + of_nat i)"
  shows "\<exists>m'. strcpy_loop dst src k m = Some m' \<and>
    (\<forall>a. m' a = (if \<exists>i. k \<le> i \<and> i \<le> length s \<and> a = dst + of_nat i
                 then m0 (src + (a - dst)) else m a))"
  using assms(4,5)
proof (induction "length s - k" arbitrary: k m)
  case 0
  then have k: "k = length s" by simp
  then have "m (src + of_nat k) = NUL"
    using 0 cstr_end [OF assms(1)] by simp
  then show ?case using k 0(3) [of k] by (subst strcpy_loop.simps) auto
next
  case (Suc n)
  then have k: "k < length s" by simp
  have nz: "m (src + of_nat k) = m0 (src + of_nat k)" "m (src + of_nat k) \<noteq> NUL"
    using Suc(4) [of k] cstr_nth [OF assms(1) k] k by auto
  let ?m = "m(dst + of_nat k := m (src + of_nat k))"
  have "?m (src + of_nat i) = m0 (src + of_nat i)" if "Suc k \<le> i" "i \<le> length s" for i
    using Suc(4) [of i] apart [of k i] that k by auto
  moreover have n: "n = length s - Suc k" and k': "Suc k \<le> length s" using Suc(2) k by simp_all
  ultimately obtain m' where
    m': "strcpy_loop dst src (Suc k) ?m = Some m'"
    "\<forall>a. m' a = (if \<exists>i. Suc k \<le> i \<and> i \<le> length s \<and> a = dst + of_nat i
                 then m0 (src + (a - dst)) else ?m a)"
    using Suc(1) [OF n k', of ?m] by blast
  have "strcpy_loop dst src k m = Some m'"
    using m'(1) nz k assms(2) by (subst strcpy_loop.simps) auto
  moreover have "m' a = (if \<exists>i. k \<le> i \<and> i \<le> length s \<and> a = dst + of_nat i
                 then m0 (src + (a - dst)) else m a)" for a
  proof (cases "a = dst + of_nat k")
    case True
    have "\<exists>i\<ge>k. i \<le> length s \<and> a = dst + of_nat i" using True k by auto
    moreover have "m' a = m0 (src + (a - dst))" using m'(2) nz True by auto
    ultimately show ?thesis by simp
  next
    case False
    then have "(\<exists>i. k \<le> i \<and> i \<le> length s \<and> a = dst + of_nat i) \<longleftrightarrow>
               (\<exists>i. Suc k \<le> i \<and> i \<le> length s \<and> a = dst + of_nat i)"
      by (metis Suc_leD le_antisym not_less_eq_eq)
    with False m'(2) show ?thesis by (metis (no_types, lifting) fun_upd_apply)
  qed
  ultimately show ?case by blast
qed

text \<open>Copying a stored string to a buffer that does not overlap it returns, the copy is the
  same string, the source is kept, and no byte outside the \<open>length s + 1\<close> bytes of the
  destination changes.\<close>

lemma strcpy_spec:
  assumes "cstr m src s" and "length s < 2 ^ 31"
    and "\<And>i j. i \<le> length s \<Longrightarrow> j \<le> length s \<Longrightarrow> dst + of_nat i \<noteq> src + of_nat j"
  shows "\<exists>m'. strcpy dst src m = Some m' \<and> cstr m' dst s \<and> cstr m' src s \<and>
    strlen m' dst = Some (of_nat (length s)) \<and>
    (\<forall>a. unat (a - dst) > length s \<longrightarrow> m' a = m a)"
proof -
  obtain m' where m': "strcpy_loop dst src 0 m = Some m'"
    "\<And>a. m' a = (if \<exists>i. 0 \<le> i \<and> i \<le> length s \<and> a = dst + of_nat i
                 then m (src + (a - dst)) else m a)"
    using strcpy_loop_cstr [OF assms, of 0 m] by blast
  have d: "cstr m' dst s"
    by (rule cstr_cong [OF assms(1)]) (auto simp: m'(2))
  have src: "cstr m' src s"
    by (rule cstr_cong [OF assms(1)]) (use assms(3) in \<open>fastforce simp: m'(2)\<close>)
  have "m' a = m a" if "unat (a - dst) > length s" for a
  proof -
    have "a \<noteq> dst + of_nat i" if "i \<le> length s" for i
    proof
      assume "a = dst + of_nat i"
      then have "unat (a - dst) = i" using that assms(2) by (simp add: unat_of_nat_small)
      with that \<open>unat (a - dst) > length s\<close> show False by simp
    qed
    then show ?thesis by (auto simp: m'(2))
  qed
  then show ?thesis using m'(1) d src strlen_cstr [OF d] by (auto simp: strcpy_def)
qed

lemma strrchr_loop_cstr:
  "cstr m p s \<Longrightarrow> n \<le> length s \<Longrightarrow>
   strrchr_loop m p (of_char c) n =
     (if c \<in> set (take n s) then p + of_nat (GREATEST i. i < n \<and> s ! i = c) else 0)"
proof (induction n)
  case (Suc n)
  then have n: "n < length s" by simp
  show ?case
  proof (cases "s ! n = c")
    case True
    have "(GREATEST i. i < Suc n \<and> s ! i = c) = n"
      by (rule Greatest_equality) (use True in auto)
    with True show ?thesis
      using cstr_nth [OF Suc.prems(1) n] n by (auto simp: take_Suc_conv_app_nth)
  next
    case False
    have "(\<lambda>i. i < Suc n \<and> s ! i = c) = (\<lambda>i. i < n \<and> s ! i = c)"
      using False by (auto simp: less_Suc_eq)
    with False show ?thesis
      using cstr_nth [OF Suc.prems(1) n] Suc.IH Suc.prems n
      by (auto simp: take_Suc_conv_app_nth)
  qed
qed simp

lemma strrchr_index:
  "length s < 2 ^ 31 \<Longrightarrow> nat (sint (of_nat (length s) - 1 :: u32) + 1) = length s"
proof -
  assume l: "length s < 2 ^ 31"
  have "(of_nat (length s) - 1 :: u32) = word_of_int (int (length s) - 1)" by simp
  moreover have "signed_take_bit 31 (int (length s) - 1) = int (length s) - 1"
    using l by (intro signed_take_bit_int_eq_self) auto
  moreover have "sint (word_of_int (int (length s) - 1) :: u32)
      = signed_take_bit 31 (int (length s) - 1)"
    by (simp only: sint_sbintrunc') simp
  ultimately have "sint (of_nat (length s) - 1 :: u32) = int (length s) - 1"
    by metis
  then show ?thesis by simp
qed

text \<open>On a stored string \<open>strrchr\<close> returns the address of the last occurrence of the
  character, and \<open>NULL\<close> when the string does not contain it.\<close>

lemma strrchr_spec:
  assumes "cstr m p s" and "length s < 2 ^ 31"
  shows "strrchr m p (of_char c) =
    Some (if c \<in> set s then p + of_nat (GREATEST i. i < length s \<and> s ! i = c) else 0)"
  unfolding strrchr_def using strlen_cstr [OF assms(1)] strrchr_loop_cstr [OF assms(1), of "length s" c]
  by (simp add: strrchr_index [OF assms(2)])

section \<open>Console\<close>

text \<open>The semihosting requests of the library, with what their arguments point to.\<close>

datatype swi_request = WRITEC char | WRITE0 string | GET_CMDLINE u32

type_synonym libc = "swi_request list"

text \<open>\<open>DIRECT_SWI\<close>: one trap, whose results these callers ignore.\<close>

definition direct_swi :: "swi_request \<Rightarrow> libc \<Rightarrow> libc" where
  "direct_swi req st = st @ [req]"

fun request_text :: "swi_request \<Rightarrow> string" where
  "request_text (WRITEC c) = [c]"
| "request_text (WRITE0 s) = s"
| "request_text (GET_CMDLINE n) = []"

definition console :: "libc \<Rightarrow> string" where
  "console st = concat (map request_text st)"

lemma console_direct_swi [simp]: "console (direct_swi r st) = console st @ request_text r"
  by (simp add: console_def direct_swi_def)

type_synonym 'a libc_call = "libc \<Rightarrow> (libc, 'a \<times> libc) outcome"

definition stdout_handle :: u32 where "stdout_handle = 1"

definition exit :: "int \<Rightarrow> 'a libc_call" where
  "exit code st = Stop (Exit_code code) st"

definition puts :: "string \<Rightarrow> int libc_call" where
  "puts str st = Ok (0, direct_swi (WRITE0 [CHR 0x0A]) (direct_swi (WRITE0 str) st))"

definition fputs :: "string \<Rightarrow> u32 \<Rightarrow> int libc_call" where
  "fputs str f st =
     (if f = stdout_handle then Ok (0, direct_swi (WRITE0 str) st) else Stop Assert_failed st)"

definition fwrite :: "string \<Rightarrow> u32 \<Rightarrow> u32 \<Rightarrow> u32 \<Rightarrow> u32 libc_call" where
  "fwrite ptr sz nitems f st =
     (if f \<noteq> stdout_handle then Stop Assert_failed st
      else if unat (sz * nitems) > length ptr then Undef
      else Ok (sz * nitems,
               fold (\<lambda>i. direct_swi (WRITEC (ptr ! i))) [0..<unat (sz * nitems)] st))"

definition putchar :: "u32 \<Rightarrow> u32 libc_call" where
  "putchar c st = Ok (c, direct_swi (WRITEC (char_of (unat (take_bit 8 c)))) st)"

section \<open>Numbers to text\<close>

definition digit_char :: "u32 \<Rightarrow> char" where
  "digit_char digit =
     (if digit \<ge> 10 then char_of (of_char CHR ''a'' + unat (digit - 10))
      else char_of (of_char CHR ''0'' + unat digit))"

partial_function (option) divider_loop :: "u64 \<Rightarrow> u64 \<Rightarrow> u64 \<Rightarrow> u64 option" where
  "divider_loop base n divider =
     (if n \<ge> base then divider_loop base (n div base) (divider * base) else Some divider)"

partial_function (option) zeros_loop ::
  "u64 \<Rightarrow> u64 \<Rightarrow> u64 \<Rightarrow> string \<Rightarrow> (u64 \<times> string) option" where
  "zeros_loop base num divider out =
     (if num < divider then zeros_loop base num (divider div base) (out @ ''0'')
      else Some (divider, out))"

text \<open>A division by zero has no result either.\<close>

partial_function (option) digits_loop ::
  "u64 \<Rightarrow> u64 \<Rightarrow> u64 \<Rightarrow> string \<Rightarrow> string option" where
  "digits_loop base num divider out =
     (if num = 0 then Some out
      else if divider = 0 then None
      else let digit = ucast (num div divider) in
        if digit \<noteq> 0 then
          Option.bind (zeros_loop base (num mod divider) (divider div base) (out @ [digit_char digit]))
            (\<lambda>(divider', out'). digits_loop base (num mod divider) divider' out')
        else digits_loop base num (divider div base) out)"

definition num_to_s :: "u64 \<Rightarrow> u64 \<Rightarrow> libc \<Rightarrow> (libc, string) outcome" where
  "num_to_s signed_num base st =
     (if base = 16 \<or> base = 10 then
        let (num, out) =
          (if base = 16 then (signed_num, [])
           else if signed_num < 0 then (signed_num * - 1, ''-'') else (signed_num, [])) in
        if num = 0 then Ok ''0''
        else case Option.bind (divider_loop base num 1) (\<lambda>divider. digits_loop base num divider out) of
          None \<Rightarrow> Undef
        | Some s \<Rightarrow> if length s < 1024 then Ok s else Undef
      else bind_outcome (puts ''fatal: num_to_s expects base 16 or 10'' st)
             (\<lambda>(_, st). bind_outcome (exit 1 st) (\<lambda>(u::unit, _). Undef)))"

text \<open>The usual expansion of a number in a base.\<close>

fun nat_digits :: "nat \<Rightarrow> nat \<Rightarrow> string" where
  "nat_digits b n =
     (if n < b \<or> b < 2 then [digit_char (of_nat n)]
      else nat_digits b (n div b) @ [digit_char (of_nat (n mod b))])"

declare nat_digits.simps [simp del]

text \<open>The \<open>k\<close> lowest digits of a number, with leading zeros.\<close>

fun fixed_digits :: "nat \<Rightarrow> nat \<Rightarrow> nat \<Rightarrow> string" where
  "fixed_digits b 0 n = []"
| "fixed_digits b (Suc k) n = digit_char (of_nat (n div b ^ k)) # fixed_digits b k (n mod b ^ k)"

lemma length_fixed_digits [simp]: "length (fixed_digits b k n) = k"
  by (induction k arbitrary: n) auto

lemma digit_char_0 [simp]: "digit_char 0 = CHR ''0''"
  by (simp add: digit_char_def char_of_def bit_0)

text \<open>The divider that belongs to \<open>j\<close> remaining digits: \<open>b ^ (j - 1)\<close>, and 0 for none.\<close>

definition divider_of :: "nat \<Rightarrow> nat \<Rightarrow> nat" where
  "divider_of b j = b ^ j div b"

lemma divider_of_0 [simp]: "b \<ge> 2 \<Longrightarrow> divider_of b 0 = 0"
  by (simp add: divider_of_def)

lemma divider_of_Suc [simp]: "b \<ge> 2 \<Longrightarrow> divider_of b (Suc k) = b ^ k"
  by (simp add: divider_of_def)

lemma fixed_digits_strip:
  "n < b ^ j' \<Longrightarrow> j' \<le> j \<Longrightarrow> b \<ge> 2 \<Longrightarrow>
   fixed_digits b j n = replicate (j - j') CHR ''0'' @ fixed_digits b j' n"
proof (induction j)
  case (Suc j)
  show ?case
  proof (cases "j' = Suc j")
    case False
    with Suc have "j' \<le> j" by simp
    moreover then have "n < b ^ j"
      using Suc.prems(1,3) power_increasing [of j' j b] by linarith
    ultimately show ?thesis using Suc by (simp add: Suc_diff_le)
  qed simp
qed simp

lemma zeros_loop_spec:
  assumes "b \<ge> 2" and "unat base = b"
  shows "unat divider = divider_of b j \<Longrightarrow> unat num < b ^ j \<Longrightarrow>
    \<exists>d' j'. zeros_loop base num divider out = Some (d', out @ replicate (j - j') CHR ''0'') \<and>
      unat d' = divider_of b j' \<and> j' \<le> j \<and> unat num < b ^ j' \<and> divider_of b j' \<le> unat num"
proof (induction j arbitrary: divider out)
  case 0
  then show ?case using assms by (subst zeros_loop.simps) (auto simp: word_less_nat_alt intro: exI [of _ 0])
next
  case (Suc k)
  show ?case
  proof (cases "num < divider")
    case False
    with Suc.prems show ?thesis using assms
      by (subst zeros_loop.simps) (auto simp: word_less_nat_alt intro!: exI [of _ "Suc k"])
  next
    case True
    have "unat (divider div base) = divider_of b k"
      using Suc.prems assms by (simp add: unat_div divider_of_def)
    moreover have "unat num < b ^ k"
      using True Suc.prems(1) assms by (simp add: word_less_nat_alt)
    ultimately obtain d' j' where *:
      "zeros_loop base num (divider div base) (out @ ''0'')
         = Some (d', (out @ ''0'') @ replicate (k - j') CHR ''0'')"
      "unat d' = divider_of b j'" "j' \<le> k" "unat num < b ^ j'" "divider_of b j' \<le> unat num"
      using Suc.IH [of "divider div base" "out @ ''0''"] by blast
    have "zeros_loop base num divider out = Some (d', out @ replicate (Suc k - j') CHR ''0'')"
      using True * by (subst zeros_loop.simps) (simp add: Suc_diff_le)
    with * show ?thesis using le_SucI by blast
  qed
qed

lemma digits_loop_spec:
  assumes "b \<ge> 2" and "b \<le> 16" and "unat base = b"
  shows "unat divider = divider_of b j \<Longrightarrow> unat num < b ^ j \<Longrightarrow> divider_of b j \<le> unat num \<Longrightarrow>
    digits_loop base num divider out = Some (out @ fixed_digits b j (unat num))"
proof (induction j arbitrary: divider num out rule: less_induct)
  case (less j)
  show ?case
  proof (cases j)
    case 0
    with less.prems show ?thesis using assms
      by (subst digits_loop.simps) (simp add: unat_eq_zero)
  next
    case (Suc k)
    have d: "unat divider = b ^ k" using less.prems(1) Suc assms by simp
    have nz: "num \<noteq> 0" "divider \<noteq> 0"
      using less.prems(3) d Suc assms by auto
    let ?q = "unat num div b ^ k"
    have q: "1 \<le> ?q" "?q < b"
      using less.prems d Suc assms
      by (simp_all add: div_greater_zero_iff less_mult_imp_div_less Suc_le_eq)
    have "unat (num div divider) = ?q" by (simp add: unat_div d)
    then have digit: "(ucast (num div divider) :: u32) = of_nat ?q"
      by (metis of_nat_unat)
    have "unat (of_nat ?q :: u32) = ?q"
      using q assms(2) by (intro unat_of_nat_small) simp
    then have "(of_nat ?q :: u32) \<noteq> 0" using q by (metis not_one_le_zero unat_0)
    have r: "unat (num mod divider) = unat num mod b ^ k" by (simp add: unat_mod d)
    have "unat (divider div base) = divider_of b k"
      using d assms by (simp add: unat_div divider_of_def)
    moreover have "unat (num mod divider) < b ^ k" using r assms by simp
    ultimately obtain d' j' where *:
      "zeros_loop base (num mod divider) (divider div base) (out @ [digit_char (of_nat ?q)])
         = Some (d', (out @ [digit_char (of_nat ?q)]) @ replicate (k - j') CHR ''0'')"
      "unat d' = divider_of b j'" "j' \<le> k"
      "unat (num mod divider) < b ^ j'" "divider_of b j' \<le> unat (num mod divider)"
      using zeros_loop_spec [OF assms(1,3), of "divider div base" k "num mod divider"
          "out @ [digit_char (of_nat ?q)]"] by blast
    have "digits_loop base (num mod divider) d'
            ((out @ [digit_char (of_nat ?q)]) @ replicate (k - j') CHR ''0'') =
          Some (((out @ [digit_char (of_nat ?q)]) @ replicate (k - j') CHR ''0'')
                 @ fixed_digits b j' (unat (num mod divider)))"
      using less.IH [of j'] * Suc by simp
    moreover have "fixed_digits b j (unat num) =
      digit_char (of_nat ?q) # replicate (k - j') CHR ''0'' @ fixed_digits b j' (unat (num mod divider))"
      using fixed_digits_strip [of "unat num mod b ^ k" b j' k] * r assms Suc by simp
    ultimately show ?thesis
      using * nz digit \<open>(of_nat ?q :: u32) \<noteq> 0\<close>
      by (subst digits_loop.simps) (simp add: Let_def)
  qed
qed

lemma divider_loop_spec:
  assumes "b \<ge> 2" and "unat base = b" and "unat (num::u64) > 0"
  shows "unat divider = b ^ k \<Longrightarrow> unat n = unat num div b ^ k \<Longrightarrow> unat n > 0 \<Longrightarrow>
    \<exists>d k'. divider_loop base n divider = Some d \<and> unat d = b ^ k' \<and>
      b ^ k' \<le> unat num \<and> unat num < b ^ Suc k'"
proof (induction "unat n" arbitrary: n divider k rule: less_induct)
  case less
  have le: "b ^ k \<le> unat num"
    using less.prems(2,3) by (metis div_greater_zero_iff)
  show ?case
  proof (cases "n \<ge> base")
    case False
    then have "unat num div b ^ k < b"
      using less.prems assms by (simp add: word_le_nat_alt)
    then have "unat num < b ^ Suc k"
      using assms(1) by (simp add: div_less_iff_less_mult)
    then show ?thesis using False less.prems le
      by (subst divider_loop.simps) auto
  next
    case True
    have n': "unat (n div base) = unat num div b ^ Suc k"
      using less.prems assms by (simp only: unat_div power_Suc2 div_mult2_eq)
    have pos: "unat (n div base) > 0"
      using True assms by (simp add: unat_div word_le_nat_alt div_greater_zero_iff)
    have "b ^ Suc k \<le> unat num"
      using n' pos by (metis div_greater_zero_iff)
    moreover have "unat num < 2 ^ 64" using unsigned_less [of num, where 'a = nat] by simp
    moreover have "unat divider * unat base = b ^ Suc k"
      using less.prems(1) assms(2) by (simp add: mult.commute)
    ultimately have "unat divider * unat base < 2 ^ 64" by linarith
    then have d': "unat (divider * base) = b ^ Suc k"
      using less.prems(1) assms(2) by (simp add: unat_word_ariths mult.commute)
    have "unat (n div base) < unat n"
      using less.prems(3) assms by (simp add: unat_div)
    from less.hyps [OF this d' n' pos] show ?thesis
      using True by (subst divider_loop.simps) simp
  qed
qed

lemma fixed_digits_snoc:
  "b \<ge> 2 \<Longrightarrow> n < b ^ Suc k \<Longrightarrow>
   fixed_digits b (Suc k) n = fixed_digits b k (n div b) @ [digit_char (of_nat (n mod b))]"
proof (induction k arbitrary: n)
  case (Suc k)
  have "n mod b ^ Suc k < b ^ Suc k" using Suc.prems by simp
  then have "fixed_digits b (Suc k) (n mod b ^ Suc k) =
    fixed_digits b k (n mod b ^ Suc k div b) @ [digit_char (of_nat (n mod b ^ Suc k mod b))]"
    using Suc by blast
  moreover have "n mod b ^ Suc k mod b = n mod b" by (simp add: mod_mod_cancel)
  moreover have "n mod b ^ Suc k div b = n div b mod b ^ k"
  proof -
    have "n mod (b * b ^ k) = b * (n div b mod b ^ k) + n mod b" by (rule mod_mult2_eq)
    then show ?thesis using Suc.prems(1) by simp
  qed
  moreover have "n div b ^ Suc k = n div b div b ^ k" by (simp add: div_mult2_eq)
  ultimately show ?case by simp
qed simp

lemma fixed_digits_eq_nat_digits:
  "b \<ge> 2 \<Longrightarrow> b ^ k \<le> n \<Longrightarrow> n < b ^ Suc k \<Longrightarrow> fixed_digits b (Suc k) n = nat_digits b n"
proof (induction k arbitrary: n)
  case 0
  then show ?case by (subst nat_digits.simps) simp
next
  case (Suc k)
  have "b ^ k \<le> n div b"
    using Suc.prems by (simp add: less_eq_div_iff_mult_less_eq mult.commute)
  moreover have "n div b < b ^ Suc k"
    using Suc.prems by (simp add: div_less_iff_less_mult mult.commute)
  ultimately have "fixed_digits b (Suc k) (n div b) = nat_digits b (n div b)"
    using Suc by blast
  moreover have "\<not> n < b"
  proof -
    have "b ^ 1 \<le> b ^ Suc k" using Suc.prems(1) by (intro power_increasing) auto
    with Suc.prems(2) have "b \<le> n" by (simp only: power_one_right le_trans)
    then show ?thesis by simp
  qed
  ultimately show ?case
    using fixed_digits_snoc [of b n "Suc k"] Suc.prems
    by (subst nat_digits.simps) simp
qed

lemma num_to_s_digits:
  assumes "base = 10 \<or> base = 16"
  shows "num_to_s num base st = Ok (nat_digits (unat base) (unat num)) \<and>
         length (nat_digits (unat base) (unat num)) \<le> 20"
proof (cases "num = 0")
  case True
  then show ?thesis using assms
    by (subst (1 2) nat_digits.simps) (auto simp: num_to_s_def)
next
  case False
  let ?b = "unat base"
  have b: "?b \<ge> 2" "?b \<le> 16" "?b \<ge> 10" using assms by auto
  have pos: "unat num > 0" using False by (simp add: unat_gt_0)
  obtain d k where d: "divider_loop base num 1 = Some d" "unat d = ?b ^ k"
    "?b ^ k \<le> unat num" "unat num < ?b ^ Suc k"
    using divider_loop_spec [OF b(1) refl pos, of 1 0 num] pos by auto
  have "digits_loop base num d [] = Some (fixed_digits ?b (Suc k) (unat num))"
    using digits_loop_spec [OF b(1,2) refl, of d "Suc k" num "[]"] d b by simp
  then have dl: "digits_loop base num d [] = Some (nat_digits ?b (unat num))"
    using fixed_digits_eq_nat_digits [OF b(1) d(3,4)] by simp
  have "k < 20"
  proof (rule ccontr)
    assume "\<not> k < 20"
    then have "(10::nat) ^ 20 \<le> 10 ^ k" by (intro power_increasing) auto
    also have "\<dots> \<le> ?b ^ k" using b by (intro power_mono) auto
    also have "\<dots> \<le> unat num" by (rule d(3))
    finally show False using unsigned_less [of num, where 'a = nat] by simp
  qed
  moreover have "length (nat_digits ?b (unat num)) = Suc k"
    using fixed_digits_eq_nat_digits [OF b(1) d(3,4)] length_fixed_digits by metis
  ultimately show ?thesis using assms False d(1) dl
    by (auto simp: num_to_s_def)
qed

text \<open>C31: for base 10 and base 16 the three nested loops of \<open>num_to_s\<close> terminate without
  dividing by zero, and the text is the usual expansion of the 64-bit number in that base, of at
  most 20 characters, far below the 1024 of the buffer.  Any other base prints a message and exits
  with status 1.\<close>

theorem num_to_s_spec:
  "num_to_s num base st =
     (if base = 10 \<or> base = 16 then Ok (nat_digits (unat base) (unat num))
      else Stop (Exit_code 1)
        (st @ [WRITE0 ''fatal: num_to_s expects base 16 or 10'', WRITE0 [CHR 0x0A]])) \<and>
   length (nat_digits 10 (unat num)) \<le> 20 \<and> length (nat_digits 16 (unat num)) \<le> 20"
proof -
  have "length (nat_digits 10 (unat num)) \<le> 20" "length (nat_digits 16 (unat num)) \<le> 20"
    using num_to_s_digits [of 10 num st] num_to_s_digits [of 16 num st] by simp_all
  moreover have "num_to_s num base st = Stop (Exit_code 1)
      (st @ [WRITE0 ''fatal: num_to_s expects base 16 or 10'', WRITE0 [CHR 0x0A]])"
    if "\<not> (base = 10 \<or> base = 16)"
    using that unfolding num_to_s_def puts_def exit_def direct_swi_def by simp
  ultimately show ?thesis using num_to_s_digits [of base num st] by presburger
qed

section \<open>printf\<close>

text \<open>\<open>advance_prefix\<close> returns by how many characters it moves the pointer: to the last
  character of the prefix, because of its \<open>str--\<close>.\<close>

fun prefix_match :: "string \<Rightarrow> string \<Rightarrow> nat" where
  "prefix_match (c # str) (p # prefix) = (if c = p then Suc (prefix_match str prefix) else 0)"
| "prefix_match str prefix = 0"

definition advance_prefix :: "string \<Rightarrow> string \<Rightarrow> int option" where
  "advance_prefix str prefix =
     (let k = prefix_match str prefix in
      if k = length prefix then Some (int k - 1) else None)"

definition pad0 :: "string \<Rightarrow> int \<Rightarrow> libc \<Rightarrow> (libc, string) outcome" where
  "pad0 str n st =
     (let len = int (length str) in
      if \<not> n < 1024 then Stop Assert_failed st
      else if nat (n - len) + length str < 1024
      then Ok (replicate (nat (n - len)) CHR ''0'' @ str)
      else Undef)"

text \<open>A variable argument: a word, a 64-bit value or a pointer to a string.\<close>

datatype va_arg = VInt u32 | VU64 u64 | VStr string

definition unknown_modifier :: "u32 \<Rightarrow> libc \<Rightarrow> (libc, int \<times> libc) outcome" where
  "unknown_modifier c st =
     bind_outcome (fputs (''fatal: unknown printf modifier '' @ [CHR 0x27]) stdout_handle st) (\<lambda>(_, st).
     bind_outcome (putchar c st) (\<lambda>(_, st).
     bind_outcome (puts [CHR 0x27] st) (\<lambda>(_, st). exit 1 st)))"

definition print_text :: "(libc, string) outcome \<Rightarrow> libc \<Rightarrow> (libc, int \<times> libc) outcome" where
  "print_text t st = bind_outcome t (\<lambda>s. fputs s stdout_handle st)"

text \<open>\<open>printf_loop fmt args st\<close>: the loop of \<open>printf\<close> with \<open>ptr\<close> at the text
  \<open>fmt\<close>, which ends at its first NUL or at the end of the list.  An argument of another kind than the directive reads is undefined.\<close>

function printf_loop :: "string \<Rightarrow> va_arg list \<Rightarrow> libc \<Rightarrow> (libc, int \<times> libc) outcome" where
  "printf_loop [] ap st = Ok (1, st)"
| "printf_loop (c # cs) ap st =
     (if c = NUL then Ok (1, st)
      else if c \<noteq> CHR ''%'' then
        bind_outcome (putchar (of_char c) st) (\<lambda>(_, st). printf_loop cs ap st)
      else case cs of
        [] \<Rightarrow> unknown_modifier 0 st
      | d # rest \<Rightarrow>
        if d = CHR ''d'' \<or> d = CHR ''x'' \<or> d = CHR ''p'' then
          (case ap of
             VInt num # ap' \<Rightarrow>
               bind_outcome (print_text (num_to_s (scast num) (if d = CHR ''d'' then 10 else 16) st) st)
                 (\<lambda>(_, st). printf_loop rest ap' st)
           | _ \<Rightarrow> Undef)
        else if d = CHR ''s'' then
          (case ap of
             VStr s # ap' \<Rightarrow>
               bind_outcome (fputs s stdout_handle st) (\<lambda>(_, st). printf_loop rest ap' st)
           | _ \<Rightarrow> Undef)
        else if d = CHR ''c'' then
          (case ap of
             VInt w # ap' \<Rightarrow> bind_outcome (putchar w st) (\<lambda>(_, st). printf_loop rest ap' st)
           | _ \<Rightarrow> Undef)
        else if d = CHR ''%'' then
          bind_outcome (putchar (of_char CHR ''%'') st) (\<lambda>(_, st). printf_loop rest ap st)
        else if d = CHR ''0'' then
          (case advance_prefix cs ''016llx'' of
             Some k \<Rightarrow>
               (case ap of
                  VU64 num # ap' \<Rightarrow>
                    bind_outcome
                      (print_text (bind_outcome (num_to_s num 16 st) (\<lambda>s. pad0 s 16 st)) st)
                      (\<lambda>(_, st). printf_loop (drop (nat (k + 1)) cs) ap' st)
                | _ \<Rightarrow> Undef)
           | None \<Rightarrow> unknown_modifier (of_char d) st)
        else unknown_modifier (of_char d) st)"
  by pat_completeness auto
termination by (relation "measure (\<lambda>(fmt, _, _). length fmt)") auto

declare printf_loop.simps [simp del]

definition printf :: "string \<Rightarrow> va_arg list \<Rightarrow> int libc_call" where
  "printf format args st = printf_loop format args st"

definition assert_fail :: "string \<Rightarrow> string \<Rightarrow> u32 \<Rightarrow> string \<Rightarrow> unit libc_call" where
  "assert_fail assertion file line func st =
     bind_outcome
       (printf (''ASSERT fail '' @ [CHR 0x27] @ ''%s'' @ [CHR 0x27] @ '' at file '' @ [CHR 0x27] @
                ''%s'' @ [CHR 0x27] @ '' line %d function %s'' @ [CHR 0x0A])
          [VStr assertion, VStr file, VInt line, VStr func] st)
       (\<lambda>(_, st). exit 1 st)"

text \<open>What a format means, independently of how \<open>printf\<close> scans it: \<open>%d\<close> is the signed
  decimal number, \<open>%x\<close> and \<open>%p\<close> are the hexadecimal digits of the 32-bit word.\<close>

datatype directive = Lit char | Dec | Hex | Ptr | Str | Chr | Percent | Hex16

fun directive_text :: "directive \<Rightarrow> string" where
  "directive_text (Lit c) = [c]"
| "directive_text Dec = ''%d''"
| "directive_text Hex = ''%x''"
| "directive_text Ptr = ''%p''"
| "directive_text Str = ''%s''"
| "directive_text Chr = ''%c''"
| "directive_text Percent = ''%%''"
| "directive_text Hex16 = ''%016llx''"

definition format_of :: "directive list \<Rightarrow> string" where
  "format_of ds = concat (map directive_text ds)"

definition signed_text :: "int \<Rightarrow> string" where
  "signed_text i = (if i < 0 then CHR ''-'' # nat_digits 10 (nat (- i)) else nat_digits 10 (nat i))"

definition plain_char :: "char \<Rightarrow> bool" where
  "plain_char c \<longleftrightarrow> c \<noteq> CHR ''%'' \<and> c \<noteq> NUL"

text \<open>The shape that both readings of a format share, with the texts of the numbers as parameters.\<close>

fun render_with :: "(u32 \<Rightarrow> string) \<Rightarrow> (u32 \<Rightarrow> string) \<Rightarrow> directive list \<Rightarrow> va_arg list \<Rightarrow> string option" where
  "render_with D X [] args = Some []"
| "render_with D X (Lit c # ds) args = (if plain_char c then map_option (Cons c) (render_with D X ds args) else None)"
| "render_with D X (Percent # ds) args = map_option (Cons CHR ''%'') (render_with D X ds args)"
| "render_with D X (Dec # ds) (VInt w # args) = map_option ((@) (D w)) (render_with D X ds args)"
| "render_with D X (Hex # ds) (VInt w # args) = map_option ((@) (X w)) (render_with D X ds args)"
| "render_with D X (Ptr # ds) (VInt w # args) = map_option ((@) (X w)) (render_with D X ds args)"
| "render_with D X (Chr # ds) (VInt w # args) =
     map_option (Cons (char_of (unat (take_bit 8 w)))) (render_with D X ds args)"
| "render_with D X (Str # ds) (VStr s # args) = (if NUL \<in> set s then None else map_option ((@) s) (render_with D X ds args))"
| "render_with D X (Hex16 # ds) (VU64 w # args) =
     map_option ((@) (fixed_digits 16 16 (unat w))) (render_with D X ds args)"
| "render_with D X _ _ = None"

definition render :: "directive list \<Rightarrow> va_arg list \<Rightarrow> string option" where
  "render = render_with (\<lambda>w. signed_text (sint w)) (\<lambda>w. nat_digits 16 (unat w))"

text \<open>The value that an \<open>int\<close> argument has as a \<open>uint64_t\<close>, and the text with these values, which is what the code sends.\<close>

definition widened :: "u32 \<Rightarrow> nat" where
  "widened w = nat (sint w mod 2 ^ 64)"

definition render_widened :: "directive list \<Rightarrow> va_arg list \<Rightarrow> string option" where
  "render_widened = render_with (\<lambda>w. nat_digits 10 (widened w)) (\<lambda>w. nat_digits 16 (widened w))"

text \<open>The arguments of the directives \<open>%d\<close>, \<open>%x\<close> and \<open>%p\<close>.\<close>

fun number_args :: "directive list \<Rightarrow> va_arg list \<Rightarrow> u32 list" where
  "number_args (Lit c # ds) args = number_args ds args"
| "number_args (Percent # ds) args = number_args ds args"
| "number_args (d # ds) (VInt w # args) = (if d = Chr then number_args ds args else w # number_args ds args)"
| "number_args (d # ds) (a # args) = number_args ds args"
| "number_args _ _ = []"

lemma unat_scast: "unat (scast (w::u32) :: u64) = widened w"
proof -
  have "(scast w :: u64) = word_of_int (sint w)" by simp
  then have "uint (scast w :: u64) = sint w mod 2 ^ 64"
    by (simp only: uint_word_of_int) simp
  then show ?thesis by (simp add: widened_def unat_eq_nat_uint)
qed

lemma of_char_u32_bound: "(of_char c :: nat) < 2 ^ 32"
  by (rule less_trans [of _ 256]) simp_all

lemma char_low_byte: "char_of (unat (take_bit 8 (of_char c :: u32))) = c"
proof -
  have "(of_char c :: u32) = of_nat (of_char c)" by (simp add: of_nat_of_char)
  moreover have "(of_char c :: nat) < 256" by simp
  ultimately have "unat (of_char c :: u32) = of_char c"
    by (metis unat_of_nat_u32 of_char_u32_bound)
  then have "unat (take_bit 8 (of_char c :: u32)) = of_char c"
    by (simp add: unsigned_take_bit_eq take_bit_nat_eq_self)
  then show ?thesis by simp
qed

lemma printf_lit:
  "plain_char c \<Longrightarrow> printf_loop (c # cs) ap st = printf_loop cs ap (direct_swi (WRITEC c) st)"
  by (simp add: printf_loop.simps putchar_def char_low_byte plain_char_def)

lemma printf_percent:
  "printf_loop (CHR ''%'' # CHR ''%'' # cs) ap st = printf_loop cs ap (direct_swi (WRITEC CHR ''%'') st)"
  by (subst printf_loop.simps) (simp add: putchar_def del: of_char_Char, simp only: char_low_byte)

lemma printf_str:
  "printf_loop (CHR ''%'' # CHR ''s'' # cs) (VStr s # ap) st = printf_loop cs ap (direct_swi (WRITE0 s) st)"
  by (subst printf_loop.simps) (simp add: fputs_def)

lemma printf_chr:
  "printf_loop (CHR ''%'' # CHR ''c'' # cs) (VInt w # ap) st =
   printf_loop cs ap (direct_swi (WRITEC (char_of (unat (take_bit 8 w)))) st)"
  by (subst printf_loop.simps) (simp add: putchar_def)

lemma printf_dec:
  "printf_loop (CHR ''%'' # CHR ''d'' # cs) (VInt w # ap) st =
   printf_loop cs ap (direct_swi (WRITE0 (nat_digits 10 (widened w))) st)"
  using num_to_s_digits [of 10 "scast w" st]
  by (subst printf_loop.simps) (simp add: fputs_def print_text_def unat_scast)

lemma printf_hex:
  "d = CHR ''x'' \<or> d = CHR ''p'' \<Longrightarrow> printf_loop (CHR ''%'' # d # cs) (VInt w # ap) st =
   printf_loop cs ap (direct_swi (WRITE0 (nat_digits 16 (widened w))) st)"
  using num_to_s_digits [of 16 "scast w" st]
  by (subst printf_loop.simps) (auto simp add: fputs_def print_text_def unat_scast)

lemma nat_digits_16_u64:
  "length (nat_digits 16 (unat (w::u64))) \<le> 16 \<and>
   fixed_digits 16 16 (unat w) =
     replicate (16 - length (nat_digits 16 (unat w))) CHR ''0'' @ nat_digits 16 (unat w)"
proof (cases "w = 0")
  case True
  have "nat_digits 16 0 = ''0''" by (subst nat_digits.simps) simp
  moreover have "fixed_digits 16 16 0 = replicate 16 CHR ''0''"
    using fixed_digits_strip [of 0 16 0 16] by simp
  moreover have "replicate 16 CHR ''0'' = replicate 15 CHR ''0'' @ ''0''"
    using replicate_add [of 15 1 "CHR ''0''"] by simp
  ultimately show ?thesis using True by simp
next
  case False
  then have pos: "unat w > 0" by (simp add: unat_gt_0)
  obtain d k where d: "16 ^ k \<le> unat w" "unat w < 16 ^ Suc k"
    using divider_loop_spec [of 16 16 w 1 0 w] pos by auto
  have lt: "unat w < 16 ^ 16" using unsigned_less [of w, where 'a = nat] by simp
  have "k < 16"
  proof (rule ccontr)
    assume "\<not> k < 16"
    then have "(16::nat) ^ 16 \<le> 16 ^ k" by (intro power_increasing) auto
    with d(1) lt show False by linarith
  qed
  moreover have nd: "fixed_digits 16 (Suc k) (unat w) = nat_digits 16 (unat w)"
    by (rule fixed_digits_eq_nat_digits [OF _ d]) simp
  moreover have len: "length (nat_digits 16 (unat w)) = Suc k"
    using nd length_fixed_digits by metis
  moreover have "fixed_digits 16 16 (unat w) =
     replicate (16 - Suc k) CHR ''0'' @ fixed_digits 16 (Suc k) (unat w)"
    by (rule fixed_digits_strip [OF d(2)]) (use \<open>k < 16\<close> in simp_all)
  ultimately show ?thesis by simp
qed

lemma printf_hex16:
  "printf_loop (''%016llx'' @ cs) (VU64 w # ap) st =
   printf_loop cs ap (direct_swi (WRITE0 (fixed_digits 16 16 (unat w))) st)"
proof -
  have "advance_prefix (''016llx'' @ cs) ''016llx'' = Some 5"
    by (simp add: advance_prefix_def)
  moreover have "pad0 (nat_digits 16 (unat w)) 16 st = Ok (fixed_digits 16 16 (unat w))"
    using nat_digits_16_u64 [of w] by (simp add: pad0_def Let_def nat_diff_distrib)
  moreover have "drop (nat (5 + 1)) (''016llx'' @ cs) = cs" by (simp add: drop_Cons')
  moreover have "num_to_s w 16 st = Ok (nat_digits 16 (unat w))"
    using num_to_s_digits [of 16 w st] by simp
  ultimately show ?thesis
    by (subst append_Cons, subst printf_loop.simps) (simp add: fputs_def print_text_def)
qed

lemma printf_loop_render:
  "render_widened ds args = Some out \<Longrightarrow>
   \<exists>st' args'. printf_loop (format_of ds @ more) args st = printf_loop more args' st' \<and>
     console st' = console st @ out"
  unfolding render_widened_def
proof (induction "\<lambda>w. nat_digits 10 (widened w)" "\<lambda>w. nat_digits 16 (widened w)" ds args arbitrary: out st rule: render_with.induct)
  case (1 args)
  then show ?case by (auto simp: format_of_def)
next
  case (2 c ds args)
  then show ?case
    by (fastforce simp: format_of_def printf_lit split: if_splits)
next
  case (3 ds args)
  then show ?case by (fastforce simp: format_of_def printf_percent)
next
  case (4 ds w args)
  then show ?case by (fastforce simp: format_of_def printf_dec)
next
  case (5 ds w args)
  then show ?case by (fastforce simp: format_of_def printf_hex)
next
  case (6 ds w args)
  then show ?case by (fastforce simp: format_of_def printf_hex)
next
  case (7 ds w args)
  then show ?case by (fastforce simp: format_of_def printf_chr)
next
  case (8 ds s args)
  then show ?case by (fastforce simp: format_of_def printf_str split: if_splits)
next
  case (9 ds w args)
  then obtain o' where o': "render_with (\<lambda>w. nat_digits 10 (widened w)) (\<lambda>w. nat_digits 16 (widened w)) ds args = Some o'"
    "out = fixed_digits 16 16 (unat w) @ o'"
    by auto
  have "format_of (Hex16 # ds) @ more = ''%016llx'' @ (format_of ds @ more)"
    by (simp add: format_of_def)
  with "9.hyps" [OF o'(1)] o'(2) show ?case
    by (fastforce simp only: printf_hex16 console_direct_swi request_text.simps append_assoc)
qed simp_all

lemma digit_char_decimal:
  "digit_char 1 = CHR ''1''" "digit_char 2 = CHR ''2''" "digit_char 3 = CHR ''3''"
  "digit_char 4 = CHR ''4''" "digit_char 5 = CHR ''5''" "digit_char 6 = CHR ''6''"
  "digit_char 7 = CHR ''7''" "digit_char 8 = CHR ''8''" "digit_char 9 = CHR ''9''"
  by (simp_all add: digit_char_def char_of_eq_iff word_le_nat_alt)

text \<open>A number has as many digits as its size says, so a widened negative number is longer than what it should read.\<close>

lemma nat_digits_length_le: "2 \<le> b \<Longrightarrow> n < b ^ Suc k \<Longrightarrow> length (nat_digits b n) \<le> Suc k"
proof (induction k arbitrary: n)
  case 0
  then show ?case by (subst nat_digits.simps) simp
next
  case (Suc k)
  then have "n div b < b ^ Suc k" by (simp add: div_less_iff_less_mult mult.commute)
  then show ?case using Suc by (subst nat_digits.simps) auto
qed

lemma nat_digits_length_ge: "2 \<le> b \<Longrightarrow> b ^ k \<le> n \<Longrightarrow> Suc k \<le> length (nat_digits b n)"
proof (induction k arbitrary: n)
  case 0
  then show ?case by (subst nat_digits.simps) simp
next
  case (Suc k)
  have "b ^ k \<le> n div b" using Suc.prems by (simp add: less_eq_div_iff_mult_less_eq mult.commute)
  moreover have "b * 1 \<le> b * b ^ k" using Suc.prems(1) by (intro mult_le_mono) simp_all
  then have "b \<le> n" using Suc.prems(2) unfolding power_Suc mult_1_right by (rule le_trans)
  then have "\<not> n < b" by simp
  ultimately show ?case using Suc.IH [of "n div b"] Suc.prems(1) by (subst nat_digits.simps) simp
qed

lemma widened_nonneg: "0 \<le> sint w \<Longrightarrow> widened w = nat (sint w) \<and> unat w = nat (sint w)"
proof -
  assume a: "0 \<le> sint w"
  have b: "sint w < 2 ^ 31" using sint_lt [of w] by simp
  have "sint w = uint w - 2 ^ 32 * of_bool (bit w 31)"
    using uint_lt2p [of w] by (simp add: sint_uint signed_take_bit_eq_take_bit_minus bit_uint_iff take_bit_int_eq_self)
  then have "uint w = sint w" using a uint_lt2p [of w] by (cases "bit w 31") simp_all
  then show ?thesis using a b by (simp add: widened_def unat_eq_nat_uint)
qed

lemma widened_negative: "sint w < 0 \<Longrightarrow> 10 ^ 18 \<le> widened w \<and> 16 ^ 15 \<le> widened w"
proof -
  assume a: "sint w < 0"
  have b: "- (2 ^ 31) \<le> sint w" using sint_ge [of w] by simp
  have "sint w mod 2 ^ 64 = (sint w + 2 ^ 64) mod 2 ^ 64" by simp
  also have "\<dots> = sint w + 2 ^ 64" using a b by (intro mod_pos_pos_trivial) simp_all
  finally have "widened w = nat (sint w + 2 ^ 64)" by (simp add: widened_def)
  then show ?thesis using b by (auto simp: le_nat_iff)
qed

lemma number_texts:
  "0 \<le> sint w \<Longrightarrow> nat_digits 10 (widened w) = signed_text (sint w) \<and> nat_digits 16 (widened w) = nat_digits 16 (unat w)"
  "sint w < 0 \<Longrightarrow> length (signed_text (sint w)) < length (nat_digits 10 (widened w)) \<and>
     length (nat_digits 16 (unat w)) < length (nat_digits 16 (widened w))"
proof -
  show "nat_digits 10 (widened w) = signed_text (sint w) \<and> nat_digits 16 (widened w) = nat_digits 16 (unat w)" if "0 \<le> sint w"
    using that widened_nonneg [OF that] by (simp add: signed_text_def)
  assume neg: "sint w < 0"
  have "nat (- sint w) < 10 ^ Suc 9" using sint_ge [of w] by simp
  then have "length (nat_digits 10 (nat (- sint w))) \<le> Suc 9" by (intro nat_digits_length_le) simp_all
  moreover have "Suc 18 \<le> length (nat_digits 10 (widened w))" using widened_negative [OF neg] by (intro nat_digits_length_ge) simp_all
  moreover have "unat w < 16 ^ Suc 7" using unat_u32_less [of w] by simp
  then have "length (nat_digits 16 (unat w)) \<le> Suc 7" by (intro nat_digits_length_le) simp_all
  moreover have "Suc 15 \<le> length (nat_digits 16 (widened w))" using widened_negative [OF neg] by (intro nat_digits_length_ge) simp_all
  ultimately show "length (signed_text (sint w)) < length (nat_digits 10 (widened w)) \<and>
      length (nat_digits 16 (unat w)) < length (nat_digits 16 (widened w))"
    using neg by (simp add: signed_text_def)
qed

definition as_meant :: "directive list \<Rightarrow> va_arg list \<Rightarrow> string \<Rightarrow> string \<Rightarrow> bool" where
  "as_meant ds args out out' \<longleftrightarrow>
     (if \<forall>w \<in> set (number_args ds args). 0 \<le> sint w then out' = out else length out < length out')"

lemma as_meant_number:
  assumes "as_meant ds args out out'" "number_args ds' args' = w # number_args ds args"
    "0 \<le> sint w \<Longrightarrow> t' = t" "sint w < 0 \<Longrightarrow> length t < length t'"
  shows "as_meant ds' args' (t @ out) (t' @ out')"
  using assms by (cases "0 \<le> sint w") (auto simp: as_meant_def not_le split: if_splits)

lemma as_meant_text:
  "as_meant ds args out out' \<Longrightarrow> number_args ds' args' = number_args ds args \<Longrightarrow> as_meant ds' args' (t @ out) (t @ out')"
  by (simp add: as_meant_def split: if_splits)

lemma render_widens:
  "render ds args = Some out \<Longrightarrow> \<exists>out'. render_widened ds args = Some out' \<and> as_meant ds args out out'"
  unfolding render_def render_widened_def
proof (induction "\<lambda>w. signed_text (sint (w :: u32))" "\<lambda>w. nat_digits 16 (unat (w :: u32))" ds args arbitrary: out rule: render_with.induct)
  case (1 args)
  then show ?case by (simp add: as_meant_def)
next
  case (2 c ds args)
  then show ?case using as_meant_text [of ds args _ _ "Lit c # ds" args "[c]"] by (fastforce split: if_splits)
next
  case (3 ds args)
  then show ?case using as_meant_text [of ds args _ _ "Percent # ds" args "''%''"] by fastforce
next
  case (4 ds w args)
  then show ?case using as_meant_number [of ds args _ _ "Dec # ds" "VInt w # args" w] number_texts [of w] by fastforce
next
  case (5 ds w args)
  then show ?case using as_meant_number [of ds args _ _ "Hex # ds" "VInt w # args" w] number_texts [of w] by fastforce
next
  case (6 ds w args)
  then show ?case using as_meant_number [of ds args _ _ "Ptr # ds" "VInt w # args" w] number_texts [of w] by fastforce
next
  case (7 ds w args)
  then show ?case using as_meant_text [of ds args _ _ "Chr # ds" "VInt w # args" "[char_of (unat (take_bit 8 w))]"] by fastforce
next
  case (8 ds s args)
  then show ?case using as_meant_text [of ds args _ _ "Str # ds" "VStr s # args" s] by (fastforce split: if_splits)
next
  case (9 ds w args)
  then show ?case using as_meant_text [of ds args _ _ "Hex16 # ds" "VU64 w # args" "fixed_digits 16 16 (unat w)"] by fastforce
qed simp_all

text \<open>C32: \<open>printf\<close> returns 1 for every format made of ordinary characters and the directives
  it supports, with arguments of the matching kinds.  The text it sends to the console is the
  meaning of the format - signed decimal digits for \<open>%d\<close>, the hexadecimal digits of the 32-bit word
  for \<open>%x\<close> and \<open>%p\<close>, 16 digits for \<open>%016llx\<close> - if and only if no number printed
  by \<open>%d\<close>, \<open>%x\<close> or \<open>%p\<close> is negative as an \<open>int\<close>: a negative one is
  printed as the 64-bit unsigned number it widens to.\<close>

theorem printf_renders:
  assumes "render ds args = Some out"
  shows "\<exists>st'. printf (format_of ds) args st = Ok (1, st') \<and>
    (console st' = console st @ out \<longleftrightarrow> (\<forall>w \<in> set (number_args ds args). 0 \<le> sint w))"
proof -
  obtain out' where out': "render_widened ds args = Some out'" "as_meant ds args out out'" using render_widens [OF assms] by blast
  then have "out' = out \<longleftrightarrow> (\<forall>w \<in> set (number_args ds args). 0 \<le> sint w)" by (auto simp: as_meant_def split: if_splits)
  then show ?thesis using printf_loop_render [OF out'(1), of "[]" st] by (auto simp: printf_def printf_loop.simps)
qed

theorem printf_renders_witness:
  "\<exists>st'. printf (format_of [Lit CHR ''i'', Percent, Str, Chr, Dec]) [VStr ''ab'', VInt 0x63, VInt 7] [] = Ok (1, st') \<and>
     console st' = ''i%abc7''"
proof -
  have "nat_digits 10 7 = ''7''" by (subst nat_digits.simps) (simp add: digit_char_decimal)
  then show ?thesis
    using printf_renders [of "[Lit CHR ''i'', Percent, Str, Chr, Dec]" "[VStr ''ab'', VInt 0x63, VInt 7]" "''i%abc7''" "[]"]
    by (simp add: console_def char_of_def bit_simps render_def plain_char_def signed_text_def)
qed

text \<open>A directive that \<open>printf\<close> does not know ends the program with status 1 after the text
  before it and a message that names the character.\<close>

lemma printf_unknown_directive:
  assumes "render_widened ds args = Some out" and "d \<notin> set ''dxpsc%0''"
  shows "\<exists>st'. printf (format_of ds @ CHR ''%'' # d # rest) args st = Stop (Exit_code 1) st' \<and>
    console st' = console st @ out @ ''fatal: unknown printf modifier '' @ [CHR 0x27, d, CHR 0x27, CHR 0x0A]"
proof -
  obtain st1 args' where
    p: "printf_loop (format_of ds @ CHR ''%'' # d # rest) args st =
        printf_loop (CHR ''%'' # d # rest) args' st1"
    and c: "console st1 = console st @ out"
    using printf_loop_render [OF assms(1)] by blast
  have "printf_loop (CHR ''%'' # d # rest) args' st1 = unknown_modifier (of_char d) st1"
    using assms(2) by (subst printf_loop.simps) simp
  then show ?thesis
    using p c by (simp add: printf_def unknown_modifier_def fputs_def putchar_def puts_def
        exit_def char_low_byte)
qed

text \<open>The comparison \<open>signed_num < 0\<close> of an unsigned number is never true, so a negative
  \<open>int\<close> is printed as a large positive number.\<close>

lemma printf_negative_decimal:
  "\<exists>st'. printf ''%d'' [VInt (- 1)] [] = Ok (1, st') \<and> console st' = ''18446744073709551615''"
proof -
  have "nat_digits 10 18446744073709551615 = ''18446744073709551615''"
    by (simp add: nat_digits.simps digit_char_decimal)
  then show ?thesis
    using printf_loop_render [of "[Dec]" "[VInt (- 1)]" "''18446744073709551615''" "[]" "[]"]
    by (simp add: format_of_def widened_def printf_def printf_loop.simps console_def render_widened_def)
qed

section \<open>Command line\<close>

definition MAX_ARGS :: nat where "MAX_ARGS = 15"

text \<open>The host answers \<open>HEX_SYS_GET_CMDLINE\<close> with a result code and the bytes it leaves in
  the buffer; \<open>buf\<close> is the whole buffer of 4096 characters.  Leaving the buffer is undefined.\<close>

fun count_loop :: "string \<Rightarrow> nat \<Rightarrow> nat option" where
  "count_loop [] n = None"
| "count_loop (c # cs) n =
     (if c = NUL then Some n
      else case cs of
        [] \<Rightarrow> None
      | d # _ \<Rightarrow> count_loop cs (if c = CHR '' '' \<and> d \<noteq> NUL then n + 1 else n))"

text \<open>\<open>split_loop argc cs i args\<close>: \<open>c\<close> is at offset \<open>i\<close> of the buffer, where the text is
  \<open>cs\<close>; \<open>args\<close> are the offsets stored so far.  The new text from \<open>i\<close> on and the
  argument offsets are returned.\<close>

fun split_loop :: "nat \<Rightarrow> string \<Rightarrow> nat \<Rightarrow> nat list \<Rightarrow> (string \<times> nat list) option" where
  "split_loop argc [] i args = None"
| "split_loop argc (c # cs) i args =
     (if c = NUL then Some (c # cs, args)
      else map_option (\<lambda>(cs', args'). ((if c = CHR '' '' then NUL else c) # cs', args'))
        (split_loop argc cs (i + 1)
          (if c = CHR '' '' \<and> length args < argc then args @ [i + 1] else args)))"

definition getcmdline :: "u32 \<times> string \<Rightarrow> libc \<Rightarrow> (libc, (nat \<times> nat list \<times> string) \<times> libc) outcome" where
  "getcmdline host st =
     (let st = direct_swi (GET_CMDLINE 4096) st; (ret, buf) = host in
      if ret \<noteq> 0 then Stop Assert_failed st
      else case count_loop buf 1 of
        None \<Rightarrow> Undef
      | Some argc \<Rightarrow>
          if \<not> argc \<le> MAX_ARGS then Stop Assert_failed st
          else if argc = 0 then Ok ((argc, [], buf), st)
          else case split_loop argc buf 0 [0] of
            None \<Rightarrow> Undef
          | Some (buf, args) \<Rightarrow> Ok ((argc, args, buf), st))"

text \<open>\<open>argv\<close> as \<open>main\<close> receives it: the strings at the offsets.\<close>

definition string_at :: "string \<Rightarrow> nat \<Rightarrow> string" where
  "string_at buf off = takeWhile (\<lambda>c. c \<noteq> NUL) (drop off buf)"

definition start_main ::
  "(nat \<Rightarrow> string list \<Rightarrow> int libc_call) \<Rightarrow> u32 \<times> string \<Rightarrow> unit libc_call" where
  "start_main main host st =
     bind_outcome (getcmdline host st) (\<lambda>((argc, args, buf), st).
     bind_outcome (main argc (map (string_at buf) args) st) (\<lambda>(code, st). exit code st))"

text \<open>The words of a command line: split at every blank, one trailing blank ignored.\<close>

fun split_blank :: "string \<Rightarrow> string list" where
  "split_blank [] = [[]]"
| "split_blank (c # cs) =
     (if c = CHR '' '' then (if cs = [] then [[]] else [] # split_blank cs)
      else (c # hd (split_blank cs)) # tl (split_blank cs))"

lemma split_blank_nonempty [simp]: "split_blank s \<noteq> []"
  by (cases s) auto

lemma count_loop_words:
  "NUL \<notin> set line \<Longrightarrow> count_loop (line @ NUL # rest) n = Some (n + length (split_blank line) - 1)"
proof (induction line arbitrary: n)
  case (Cons c line)
  then show ?case
    by (cases line) (auto simp: Suc_diff_le)
qed simp

lemma split_loop_words:
  "NUL \<notin> set line \<Longrightarrow> length args + length (split_blank line) = Suc argc \<Longrightarrow> args \<noteq> [] \<Longrightarrow>
   \<exists>buf offs. split_loop argc (line @ NUL # rest) i args = Some (buf, args @ offs) \<and>
     length buf = length (line @ NUL # rest) \<and>
     takeWhile (\<lambda>c. c \<noteq> NUL) buf = hd (split_blank line) \<and>
     (\<forall>pre. length pre = i \<longrightarrow> map (string_at (pre @ buf)) offs = tl (split_blank line))"
proof (induction line arbitrary: i args)
  case Nil
  then show ?case by simp
next
  case (Cons c line)
  have nz: "c \<noteq> NUL" "NUL \<notin> set line" using Cons.prems by auto
  let ?c = "if c = CHR '' '' then NUL else c"
  let ?args = "if c = CHR '' '' \<and> length args < argc then args @ [i + 1] else args"
  have "length ?args + length (split_blank line) = Suc argc"
    using Cons.prems by (cases line) (auto split: if_splits)
  moreover have "?args \<noteq> []" using Cons.prems by simp
  ultimately obtain buf offs where IH:
    "split_loop argc (line @ NUL # rest) (i + 1) ?args = Some (buf, ?args @ offs)"
    "length buf = length (line @ NUL # rest)"
    "takeWhile (\<lambda>c. c \<noteq> NUL) buf = hd (split_blank line)"
    "\<And>pre. length pre = i + 1 \<Longrightarrow> map (string_at (pre @ buf)) offs = tl (split_blank line)"
    using Cons.IH [OF nz(2)] by blast
  have shift: "map (string_at (pre @ ?c # buf)) offs = tl (split_blank line)" if "length pre = i" for pre
    using IH(4) [of "pre @ [?c]"] that by simp
  show ?case
  proof (cases "c = CHR '' ''")
    case False
    then show ?thesis using IH shift nz by (auto simp: map_tl)
  next
    case blank: True
    show ?thesis
    proof (cases line)
      case Nil
      then show ?thesis using IH shift nz blank Cons.prems by auto
    next
      case (Cons d line')
      have "length (split_blank (c # line)) = Suc (length (split_blank line))"
        using blank Cons by simp
      moreover have "length (split_blank line) > 0" by simp
      ultimately have "length args < argc"
        using Cons.prems(2) by linarith
      moreover have "string_at (pre @ NUL # buf) (Suc i) = hd (split_blank line)"
        if "length pre = i" for pre
        using IH(3) that by (simp add: string_at_def)
      ultimately have "split_loop argc ((c # line) @ NUL # rest) i args
          = Some (NUL # buf, args @ Suc i # offs)"
        using IH(1) blank nz by simp
      moreover have "split_blank (c # line) = [] # split_blank line"
        using blank Cons by simp
      moreover have "map (string_at (pre @ NUL # buf)) (Suc i # offs) = split_blank line"
        if "length pre = i" for pre
        using shift [OF that] blank IH(3) that by (simp add: string_at_def)
      ultimately show ?thesis using IH(2)
        by (intro exI [of _ "NUL # buf"] exI [of _ "Suc i # offs"]) simp
    qed
  qed
qed

text \<open>The startup code hands \<open>main\<close> the words of the command line, split at every blank with
  one trailing blank ignored, and their number, and exits with the status that \<open>main\<close>
  returns; a command line of more than 15 words, or a host that refuses the request, fails an
  assertion.\<close>

lemma start_main_args:
  assumes "NUL \<notin> set line"
  shows "start_main main (ret, line @ NUL # rest) st =
    (let st = direct_swi (GET_CMDLINE 4096) st; words = split_blank line in
     if ret \<noteq> 0 \<or> length words > 15 then Stop Assert_failed st
     else bind_outcome (main (length words) words st) (\<lambda>(code, st). Stop (Exit_code code) st))"
proof -
  let ?n = "length (split_blank line)"
  have n: "?n \<ge> 1" by (cases "split_blank line") auto
  obtain buf offs where sp: "split_loop ?n (line @ NUL # rest) 0 [0] = Some (buf, [0] @ offs)"
    "takeWhile (\<lambda>c. c \<noteq> NUL) buf = hd (split_blank line)"
    "map (string_at buf) offs = tl (split_blank line)"
    using split_loop_words [OF assms, of "[0]" ?n rest 0] by auto
  have "map (string_at buf) (0 # offs) = split_blank line"
    using sp(2,3) by (simp add: string_at_def)
  moreover have "count_loop (line @ NUL # rest) 1 = Some ?n"
    using count_loop_words [OF assms] by simp
  moreover have "?n \<noteq> 0" using n by simp
  ultimately show ?thesis using sp(1)
    by (simp add: start_main_def getcmdline_def MAX_ARGS_def exit_def Let_def del: list.map)
qed

end
