(* ===== verification/Strutils.thy ===== *)
theory Strutils
  imports Min_Libc "HOL-Library.Multiset"
begin

text \<open>
  \<open>sort_str_arr\<close> of \<open>include/strutils.h\<close>: a bubble sort of an array of string
  pointers by \<open>strcmp\<close>.  The array is the list of the pointers, \<open>m\<close> the memory with the
  strings; an access outside the array and a comparison without result give \<open>None\<close>.  The
  loop bounds are computed in \<open>size_t\<close>, as in the source.
\<close>

function sort_inner :: "mem \<Rightarrow> nat \<Rightarrow> nat \<Rightarrow> u32 list \<Rightarrow> u32 list option" where
  "sort_inner m bound j arr =
     (if j < bound then
        (if j + 1 < length arr then
           Option.bind (strcmp m (arr ! j) (arr ! (j + 1))) (\<lambda>r.
             sort_inner m bound (j + 1)
               (if r > 0 then arr[j := arr ! (j + 1), j + 1 := arr ! j] else arr))
         else None)
      else Some arr)"
  by pat_completeness auto
termination by (relation "measure (\<lambda>(m, bound, j, arr). bound - j)") auto

function sort_outer :: "mem \<Rightarrow> u32 \<Rightarrow> nat \<Rightarrow> u32 list \<Rightarrow> u32 list option" where
  "sort_outer m n i arr =
     (if i < unat (n - 1) then
        Option.bind (sort_inner m (unat (n - of_nat i - 1)) 0 arr) (\<lambda>arr. sort_outer m n (i + 1) arr)
      else Some arr)"
  by pat_completeness auto
termination by (relation "measure (\<lambda>(m, n, i, arr). unat (n - 1) - i)") auto

declare sort_inner.simps [simp del] sort_outer.simps [simp del]

definition sort_str_arr :: "mem \<Rightarrow> u32 list \<Rightarrow> u32 \<Rightarrow> u32 list option" where
  "sort_str_arr m arr n = sort_outer m n 0 arr"

text \<open>One step of the inner loop leaves the larger string at \<open>j + 1\<close>.\<close>

lemma swap_props:
  assumes "Suc j < length arr"
  shows "mset (arr[j := arr ! Suc j, Suc j := arr ! j]) = mset arr"
    and "length (arr[j := arr ! Suc j, Suc j := arr ! j]) = length arr"
  using assms by (simp_all add: mset_swap)

lemma sort_inner_spec:
  assumes str: "\<And>p. p \<in> set arr0 \<Longrightarrow> cstr m p (f p)" and "bound < length arr0"
  shows "mset arr = mset arr0 \<Longrightarrow> j \<le> bound \<Longrightarrow> (\<forall>i<j. f (arr ! i) \<le> f (arr ! j)) \<Longrightarrow>
    \<exists>arr'. sort_inner m bound j arr = Some arr' \<and> mset arr' = mset arr \<and>
      (\<forall>i. bound < i \<and> i < length arr \<longrightarrow> arr' ! i = arr ! i) \<and>
      (\<forall>i\<le>bound. \<exists>i'\<le>bound. arr' ! i = arr ! i') \<and>
      (\<forall>i\<le>bound. f (arr' ! i) \<le> f (arr' ! bound))"
proof (induction "bound - j" arbitrary: j arr)
  case 0
  then have "j = bound" by simp
  with 0 show ?case by (subst sort_inner.simps) (auto simp: order_le_less)
next
  case (Suc d)
  have len: "length arr = length arr0" using Suc.prems(1) by (metis size_mset)
  have j: "j < bound" "Suc j < length arr" using Suc.hyps(2) len assms(2) by auto
  have in_set: "arr ! j \<in> set arr0" "arr ! Suc j \<in> set arr0"
    using Suc.prems(1) j by (metis Suc_lessD nth_mem set_mset_mset)+
  obtain r where r: "strcmp m (arr ! j) (arr ! Suc j) = Some r"
    "r < 0 \<longleftrightarrow> f (arr ! j) < f (arr ! Suc j)" "r = 0 \<longleftrightarrow> f (arr ! j) = f (arr ! Suc j)"
    using strcmp_cstr [OF str [OF in_set(1)] str [OF in_set(2)]] by blast
  let ?a = "if r > 0 then arr[j := arr ! Suc j, Suc j := arr ! j] else arr"
  have a: "mset ?a = mset arr" "length ?a = length arr" using swap_props [OF j(2)] by auto
  have max: "\<forall>i<Suc j. f (?a ! i) \<le> f (?a ! Suc j)"
  proof (intro allI impI)
    fix i assume "i < Suc j"
    then have "i < j \<or> i = j" by auto
    then show "f (?a ! i) \<le> f (?a ! Suc j)"
      using Suc.prems(3) j r by (cases "r > 0") (auto simp: nth_list_update intro: order_trans)
  qed
  have "d = bound - Suc j" "Suc j \<le> bound" using Suc.hyps(2) j by auto
  then obtain arr' where arr': "sort_inner m bound (Suc j) ?a = Some arr'" "mset arr' = mset ?a"
    "\<forall>i. bound < i \<and> i < length ?a \<longrightarrow> arr' ! i = ?a ! i"
    "\<forall>i\<le>bound. \<exists>i'\<le>bound. arr' ! i = ?a ! i'"
    "\<forall>i\<le>bound. f (arr' ! i) \<le> f (arr' ! bound)"
    using Suc.hyps(1) [of "Suc j" ?a] a Suc.prems(1) max by metis
  have "\<exists>i'\<le>bound. ?a ! i = arr ! i'" if "i \<le> bound" for i
    using that j by (auto simp: nth_list_update intro: exI [of _ j] exI [of _ "Suc j"])
  then have "\<forall>i\<le>bound. \<exists>i'\<le>bound. arr' ! i = arr ! i'"
    using arr'(4) by metis
  moreover have "arr' ! i = arr ! i" if "bound < i" "i < length arr" for i
    using arr'(3) a j that by (simp add: nth_list_update)
  moreover have "sort_inner m bound j arr = Some arr'"
    using arr'(1) r(1) j by (subst sort_inner.simps) (simp split: if_splits)
  ultimately show ?case using arr'(2,5) a(1) by auto
qed

lemma sort_outer_spec:
  assumes str: "\<And>p. p \<in> set arr0 \<Longrightarrow> cstr m p (f p)"
    and n: "unat n = length arr0" "0 < length arr0"
  shows "mset arr = mset arr0 \<Longrightarrow> i < length arr0 \<Longrightarrow>
    (\<forall>p q. p < q \<and> length arr0 - i \<le> q \<and> q < length arr0 \<longrightarrow> f (arr ! p) \<le> f (arr ! q)) \<Longrightarrow>
    \<exists>arr'. sort_outer m n i arr = Some arr' \<and> mset arr' = mset arr0 \<and>
      (\<forall>p q. p < q \<and> q < length arr0 \<longrightarrow> f (arr' ! p) \<le> f (arr' ! q))"
proof (induction "length arr0 - i" arbitrary: i arr)
  case 0
  then show ?case by simp
next
  case (Suc d)
  have n1: "unat (n - 1) = length arr0 - 1"
    using n by (simp add: unat_sub_if_size word_le_nat_alt Suc_le_eq)
  show ?case
  proof (cases "i < unat (n - 1)")
    case False
    then have "length arr0 - i = 1" using n1 Suc.prems(2) by simp
    then show ?thesis using False Suc.prems
      by (subst sort_outer.simps) (auto dest: spec)
  next
    case True
    let ?b = "length arr0 - i - 1"
    have i: "i < length arr0 - 1" using True n1 by simp
    have "i < 2 ^ 32" using Suc.prems(2) n(1) unat_u32_less [of n] by simp
    then have "unat (of_nat i :: u32) = i" by (rule unat_of_nat_u32)
    then have "unat (n - of_nat i - 1) = ?b"
      using n i by (simp add: unat_sub_if_size word_le_nat_alt)
    moreover have "?b < length arr0" using n by simp
    ultimately obtain arr1 where arr1: "sort_inner m (unat (n - of_nat i - 1)) 0 arr = Some arr1"
      "mset arr1 = mset arr"
      "\<And>k. ?b < k \<Longrightarrow> k < length arr \<Longrightarrow> arr1 ! k = arr ! k"
      "\<And>k. k \<le> ?b \<Longrightarrow> \<exists>k'\<le>?b. arr1 ! k = arr ! k'"
      "\<And>k. k \<le> ?b \<Longrightarrow> f (arr1 ! k) \<le> f (arr1 ! ?b)"
      using sort_inner_spec [of arr0 m f ?b arr 0, OF str] Suc.prems(1) by auto
    have len: "length arr = length arr0" using Suc.prems(1) by (metis size_mset)
    have "f (arr1 ! p) \<le> f (arr1 ! q)"
      if "p < q" "length arr0 - Suc i \<le> q" "q < length arr0" for p q
    proof (cases "q = ?b")
      case True
      then show ?thesis using arr1(5) that by simp
    next
      case False
      then have q: "?b < q" using that by simp
      have "\<exists>p'<q. arr1 ! p = arr ! p'"
      proof (cases "p \<le> ?b")
        case True
        then show ?thesis using arr1(4) q by (meson le_less_trans)
      next
        case False
        then show ?thesis using arr1(3) that len by auto
      qed
      then show ?thesis using Suc.prems(3) arr1(3) q that len by fastforce
    qed
    moreover have "d = length arr0 - Suc i" "Suc i < length arr0" using Suc.hyps(2) i by auto
    moreover have "mset arr1 = mset arr0" using Suc.prems(1) arr1(2) by simp
    ultimately obtain arr' where "sort_outer m n (Suc i) arr1 = Some arr'" "mset arr' = mset arr0"
      "\<forall>p q. p < q \<and> q < length arr0 \<longrightarrow> f (arr' ! p) \<le> f (arr' ! q)"
      using Suc.hyps(1) [of "Suc i" arr1] by blast
    then show ?thesis using True arr1(1) by (subst sort_outer.simps) simp
  qed
qed

text \<open>C33: \<open>sort_str_arr\<close> on an array of at least one pointer to stored strings returns, the
  pointers are permuted, and the strings they point to are in ascending lexicographic order.\<close>

theorem sort_str_arr_sorts:
  assumes "unat n = length arr" and "arr \<noteq> []" and "\<And>p. p \<in> set arr \<Longrightarrow> cstr m p (f p)"
  shows "\<exists>arr'. sort_str_arr m arr n = Some arr' \<and> mset arr' = mset arr \<and> sorted (map f arr')"
proof -
  obtain arr' where "sort_outer m n 0 arr = Some arr'" "mset arr' = mset arr"
    "\<forall>p q. p < q \<and> q < length arr \<longrightarrow> f (arr' ! p) \<le> f (arr' ! q)"
    using sort_outer_spec [OF assms(3) assms(1), where arr = arr and i = 0] assms(2)
    by (metis diff_zero length_greater_0_conv not_less)
  moreover then have "length arr' = length arr" by (metis size_mset)
  ultimately show ?thesis by (auto simp: sort_str_arr_def sorted_iff_nth_mono_less)
qed

theorem sort_str_arr_sorts_witness:
  "\<exists>arr'. sort_str_arr sample_mem [0x100, 0x200] 2 = Some arr' \<and> mset arr' = {#0x100, 0x200#} \<and>
     sorted (map (\<lambda>p. if p = 0x100 then ''ab'' else ''a'') arr')"
proof -
  have "cstr sample_mem p (if p = 0x100 then ''ab'' else ''a'')" if "p \<in> set [0x100, 0x200]" for p
    using that by (auto simp: sample_mem_def)
  then show ?thesis
    using sort_str_arr_sorts [of 2 "[0x100, 0x200]" sample_mem "\<lambda>p. if p = 0x100 then ''ab'' else ''a''"]
    by (simp add: add_mset_commute)
qed

text \<open>With no element the bound \<open>n - 1\<close> wraps around and the first comparison is outside the array.\<close>

lemma sort_str_arr_empty: "sort_str_arr m [] 0 = None"
  proof -
  have "(0::u32) - 1 = 4294967295" by simp
  then have "unat ((0::u32) - 1) = 4294967295" by (simp only: unat_numeral) simp
  then show ?thesis by (simp add: sort_str_arr_def sort_outer.simps sort_inner.simps)
qed

end
