(* ===== verification/File_Mem.thy ===== *)
theory File_Mem
  imports Min_Libc
begin

text \<open>
  The in-memory files of \<open>src/util.c\<close> and \<open>include/util.h\<close>: a table of four
  descriptors over buffers in memory.  A \<open>FILE_MEM *\<close> is the index of a descriptor, or
  \<open>None\<close> for a null pointer.  Signed overflow, an access through a wild pointer and an
  overlapping \<open>memcpy\<close> are undefined and give \<open>None\<close>.
\<close>

section \<open>State\<close>

record FILE_MEM =
  is_open :: bool
  buf_allocated :: bool
  buf :: u32
  mode :: u32
  buf_maxsize :: int
  crnt_filesize :: int
  pos :: int

record file_state =
  desc :: "FILE_MEM list"
  fmem :: mem
  freed :: "u32 list"

definition MAX_DESC :: nat where "MAX_DESC = 4"

definition READ_OK :: u32 where "READ_OK = 1"

definition WRITE_OK :: u32 where "WRITE_OK = 2"

datatype xfer_type = DO_READ | DO_WRITE

type_synonym fp = "nat option"

definition zero_desc :: FILE_MEM where
  "zero_desc = \<lparr>is_open = False, buf_allocated = False, buf = 0, mode = 0,
     buf_maxsize = 0, crnt_filesize = 0, pos = 0\<rparr>"

text \<open>The static table before the first call.\<close>

definition init_files :: "mem \<Rightarrow> file_state" where
  "init_files m = \<lparr>desc = replicate MAX_DESC zero_desc, fmem = m, freed = []\<rparr>"

fun VALID_FP :: "fp \<Rightarrow> bool" where
  "VALID_FP None = False"
| "VALID_FP (Some i) = (i < MAX_DESC)"

definition usable :: "fp \<Rightarrow> file_state \<Rightarrow> bool" where
  "usable fp st \<longleftrightarrow> VALID_FP fp \<and> is_open (desc st ! the fp)"

section \<open>Operations\<close>

definition find_free :: "file_state \<Rightarrow> int" where
  "find_free st =
     (case List.find (\<lambda>i. \<not> is_open (desc st ! i)) [0..<MAX_DESC] of Some i \<Rightarrow> int i | None \<Rightarrow> - 1)"

definition parse_mode_char :: "int \<Rightarrow> char \<Rightarrow> FILE_MEM \<Rightarrow> FILE_MEM" where
  "parse_mode_char mx c f =
     (if c = CHR ''+'' then f\<lparr>mode := READ_OK OR WRITE_OK\<rparr>
      else if c = CHR ''r'' \<or> c = CHR ''R'' then f\<lparr>mode := mode f OR READ_OK, crnt_filesize := mx\<rparr>
      else if c = CHR ''w'' \<or> c = CHR ''W'' then f\<lparr>mode := mode f OR WRITE_OK, crnt_filesize := 0\<rparr>
      else f)"

definition parse_mode :: "int \<Rightarrow> string \<Rightarrow> FILE_MEM \<Rightarrow> FILE_MEM" where
  "parse_mode mx m f = fold (parse_mode_char mx) m (f\<lparr>mode := 0\<rparr>)"

text \<open>\<open>alloc\<close> is the address that \<open>malloc(max)\<close> returns when it is called.\<close>

definition fmemopen_mem :: "u32 \<Rightarrow> u32 \<Rightarrow> int \<Rightarrow> string \<Rightarrow> file_state \<Rightarrow> fp \<times> file_state" where
  "fmemopen_mem alloc b mx m st =
     (let entry = find_free st in
      if entry < 0 then (None, st)
      else let f = (desc st ! nat entry)\<lparr>is_open := True\<rparr>;
               f = (if b \<noteq> 0 then f\<lparr>buf_allocated := False, buf := b\<rparr>
                    else f\<lparr>buf_allocated := True, buf := alloc\<rparr>);
               f = parse_mode mx m (f\<lparr>buf_maxsize := mx\<rparr>);
               f = f\<lparr>pos := 0\<rparr>
           in (Some (nat entry), st\<lparr>desc := (desc st)[nat entry := f]\<rparr>))"

definition fclose_mem :: "fp \<Rightarrow> file_state \<Rightarrow> int \<times> file_state" where
  "fclose_mem fp st =
     (if \<not> usable fp st then (- 1, st)
      else let f = desc st ! the fp;
               st = (if buf_allocated f \<and> buf f \<noteq> 0 then st\<lparr>freed := freed st @ [buf f]\<rparr> else st)
           in (0, st\<lparr>desc := (desc st)[the fp := zero_desc]\<rparr>))"

text \<open>\<open>memcpy\<close> of the C library; overlapping buffers are undefined.\<close>

definition memcpy :: "u32 \<Rightarrow> u32 \<Rightarrow> nat \<Rightarrow> mem \<Rightarrow> mem option" where
  "memcpy dst src n m =
     (if unat (src - dst) < n \<or> unat (dst - src) < n then None
      else Some (\<lambda>a. if unat (a - dst) < n then m (src + (a - dst)) else m a))"

definition in_int :: "int \<Rightarrow> bool" where
  "in_int x \<longleftrightarrow> - (2 ^ 31) \<le> x \<and> x < 2 ^ 31"

definition do_xfer ::
  "u32 \<Rightarrow> u32 \<Rightarrow> int \<Rightarrow> nat \<Rightarrow> xfer_type \<Rightarrow> file_state \<Rightarrow> (int \<times> file_state) option" where
  "do_xfer dst src xferbytes i type st =
     (let f = desc st ! i;
          checkmax = (if type = DO_READ then crnt_filesize f else buf_maxsize f) in
      if \<not> in_int (pos f + xferbytes) then None
      else
        let xferbytes = (if pos f + xferbytes > checkmax then checkmax - pos f else xferbytes) in
        if xferbytes > 0 then
          map_option (\<lambda>m. (xferbytes,
              st\<lparr>fmem := m, desc := (desc st)[i := f\<lparr>pos := pos f + xferbytes\<rparr>]\<rparr>))
            (memcpy dst src (nat xferbytes) (fmem st))
        else Some (0, st))"

definition fgetc_mem :: "fp \<Rightarrow> file_state \<Rightarrow> int \<times> file_state" where
  "fgetc_mem fp st =
     (if \<not> usable fp st then (0, st)
      else let f = desc st ! the fp in
        if mode f AND READ_OK = 0 then (0, st)
        else if pos f < crnt_filesize f
        then (of_char (fmem st (buf f + word_of_int (pos f))),
              st\<lparr>desc := (desc st)[the fp := f\<lparr>pos := pos f + 1\<rparr>]\<rparr>)
        else (- 1, st))"

definition fread_mem :: "u32 \<Rightarrow> int \<Rightarrow> int \<Rightarrow> fp \<Rightarrow> file_state \<Rightarrow> (int \<times> file_state) option" where
  "fread_mem ptr mx nmemb fp st =
     (if \<not> usable fp st then Some (0, st)
      else let f = desc st ! the fp in
        if mode f AND READ_OK = 0 then Some (0, st)
        else if \<not> in_int (mx * nmemb) then None
        else do_xfer ptr (buf f + word_of_int (pos f)) (mx * nmemb) (the fp) DO_READ st)"

definition fwrite_mem :: "u32 \<Rightarrow> int \<Rightarrow> int \<Rightarrow> fp \<Rightarrow> file_state \<Rightarrow> (int \<times> file_state) option" where
  "fwrite_mem ptr mx nmemb fp st =
     (if \<not> usable fp st then Some (0, st)
      else let f = desc st ! the fp in
        if mode f AND WRITE_OK = 0 then Some (0, st)
        else if \<not> in_int (mx * nmemb) then None
        else map_option (\<lambda>(rval, st).
            let f = desc st ! the fp in
            (rval, if pos f > crnt_filesize f
                   then st\<lparr>desc := (desc st)[the fp := f\<lparr>crnt_filesize := pos f\<rparr>]\<rparr> else st))
          (do_xfer (buf f + word_of_int (pos f)) ptr (mx * nmemb) (the fp) DO_WRITE st))"

definition frewind_mem :: "fp \<Rightarrow> file_state \<Rightarrow> int \<times> file_state" where
  "frewind_mem fp st =
     (if \<not> usable fp st then (- 1, st)
      else (0, st\<lparr>desc := (desc st)[the fp := (desc st ! the fp)\<lparr>pos := 0\<rparr>]\<rparr>))"

definition fsize_mem :: "fp \<Rightarrow> file_state \<Rightarrow> int" where
  "fsize_mem fp st = (if \<not> usable fp st then - 1 else crnt_filesize (desc st ! the fp))"

text \<open>\<open>rd k\<close> is what the \<open>k\<close>-th read of the cycle counter inside the loop returns;
  the result is the number of iterations before the last.\<close>

partial_function (option) pause_loop :: "(nat \<Rightarrow> u64) \<Rightarrow> u64 \<Rightarrow> nat \<Rightarrow> nat option" where
  "pause_loop rd limit k = (if rd k < limit then pause_loop rd limit (k + 1) else Some k)"

definition pcycle_pause :: "u64 \<Rightarrow> (nat \<Rightarrow> u64) \<Rightarrow> u64 \<Rightarrow> nat option" where
  "pcycle_pause pcycle_start rd pcycle_wait = pause_loop rd (pcycle_start + pcycle_wait) 0"

section \<open>The invariant\<close>

text \<open>An open file has its position within the current size and its size within the buffer,
  and a closed descriptor is all zero.\<close>

definition desc_ok :: "FILE_MEM \<Rightarrow> bool" where
  "desc_ok f \<longleftrightarrow>
     (if is_open f then 0 \<le> pos f \<and> pos f \<le> crnt_filesize f \<and>
        crnt_filesize f \<le> buf_maxsize f \<and> buf_maxsize f < 2 ^ 31
      else f = zero_desc)"

definition files_ok :: "file_state \<Rightarrow> bool" where
  "files_ok st \<longleftrightarrow> length (desc st) = MAX_DESC \<and> list_all desc_ok (desc st)"

lemma files_ok_nth: "files_ok st \<Longrightarrow> i < MAX_DESC \<Longrightarrow> desc_ok (desc st ! i)"
  by (simp add: files_ok_def list_all_length)

lemma files_ok_update:
  "files_ok st \<Longrightarrow> desc_ok f \<Longrightarrow> files_ok (st\<lparr>desc := (desc st)[i := f]\<rparr>)"
  by (cases "i < length (desc st)") (auto simp: files_ok_def list_all_length nth_list_update)

lemma usable_index: "usable fp st \<Longrightarrow> \<exists>i. fp = Some i \<and> i < MAX_DESC \<and> is_open (desc st ! i)"
  by (cases fp) (auto simp: usable_def)

lemma find_free_some:
  "find_free st = int i \<longleftrightarrow>
     i < MAX_DESC \<and> \<not> is_open (desc st ! i) \<and> (\<forall>j<i. is_open (desc st ! j))"
proof
  assume "find_free st = int i"
  then have "List.find (\<lambda>i. \<not> is_open (desc st ! i)) [0..<MAX_DESC] = Some i"
    by (auto simp: find_free_def split: option.splits)
  then show "i < MAX_DESC \<and> \<not> is_open (desc st ! i) \<and> (\<forall>j<i. is_open (desc st ! j))"
    by (auto simp: find_Some_iff)
next
  assume "i < MAX_DESC \<and> \<not> is_open (desc st ! i) \<and> (\<forall>j<i. is_open (desc st ! j))"
  then have "List.find (\<lambda>i. \<not> is_open (desc st ! i)) [0..<MAX_DESC] = Some i"
    by (auto simp: find_Some_iff)
  then show "find_free st = int i" by (simp add: find_free_def)
qed

lemma find_free_none: "find_free st < 0 \<longleftrightarrow> (\<forall>i<MAX_DESC. is_open (desc st ! i))"
  by (auto simp: find_free_def find_None_iff find_Some_iff split: option.splits)

lemma parse_mode_chars:
  "crnt_filesize f \<in> {0, mx} \<Longrightarrow>
   crnt_filesize (fold (parse_mode_char mx) m f) \<in> {0, mx} \<and>
   is_open (fold (parse_mode_char mx) m f) = is_open f \<and>
   buf (fold (parse_mode_char mx) m f) = buf f \<and>
   buf_allocated (fold (parse_mode_char mx) m f) = buf_allocated f \<and>
   buf_maxsize (fold (parse_mode_char mx) m f) = buf_maxsize f"
proof (induction m arbitrary: f)
  case (Cons c m)
  from Cons.IH [of "parse_mode_char mx c f"] Cons.prems show ?case
    by (auto simp: parse_mode_char_def split: if_splits)
qed auto

lemma desc_ok_opened:
  assumes "is_open f" "crnt_filesize f = 0" "buf_maxsize f = mx" "0 \<le> mx" "mx < 2 ^ 31"
  shows "desc_ok (parse_mode mx m f\<lparr>pos := 0\<rparr>)"
  using parse_mode_chars [of "f\<lparr>mode := 0\<rparr>" mx m] assms
  by (auto simp: parse_mode_def desc_ok_def)

lemma fmemopen_ok:
  assumes "files_ok st" and "0 \<le> mx" and "mx < 2 ^ 31"
  shows "files_ok (snd (fmemopen_mem alloc b mx m st))"
proof (cases "find_free st < 0")
  case True
  then show ?thesis using assms by (simp add: fmemopen_mem_def Let_def)
next
  case False
  then obtain i where i: "find_free st = int i" by (metis nonneg_int_cases not_less)
  then have "i < MAX_DESC" "\<not> is_open (desc st ! i)" using find_free_some by blast+
  then have z: "desc st ! i = zero_desc"
    using files_ok_nth [OF assms(1)] by (simp add: desc_ok_def)
  show ?thesis
    using i assms unfolding fmemopen_mem_def Let_def
    by (auto simp: z zero_desc_def intro!: files_ok_update desc_ok_opened)
qed

lemma zero_desc_ok: "desc_ok zero_desc"
  by (simp add: desc_ok_def zero_desc_def)

lemma fclose_ok: "files_ok st \<Longrightarrow> files_ok (snd (fclose_mem fp st))"
  using files_ok_update [OF _ zero_desc_ok, of st "the fp"]
    files_ok_update [OF _ zero_desc_ok, of "st\<lparr>freed := freed st @ [buf (desc st ! the fp)]\<rparr>" "the fp"]
  by (simp add: fclose_mem_def Let_def files_ok_def)

lemma files_ok_fmem [simp]: "files_ok (st\<lparr>fmem := m\<rparr>) = files_ok st"
  by (simp add: files_ok_def)

lemma usable_ok: "files_ok st \<Longrightarrow> usable fp st \<Longrightarrow> desc_ok (desc st ! the fp) \<and> is_open (desc st ! the fp)"
  using usable_index [of fp st] files_ok_nth by auto

lemma do_xfer_ok:
  assumes "do_xfer dst src n i type st = Some (r, st')" and "files_ok st" and "i < MAX_DESC"
    and "is_open (desc st ! i)"
  shows "length (desc st') = MAX_DESC \<and> (\<forall>j<MAX_DESC. j \<noteq> i \<longrightarrow> desc st' ! j = desc st ! j) \<and>
    (\<exists>p. desc st' ! i = (desc st ! i)\<lparr>pos := p\<rparr> \<and> 0 \<le> p \<and>
      p \<le> (if type = DO_READ then crnt_filesize (desc st ! i) else buf_maxsize (desc st ! i)))"
proof -
  have ok: "desc_ok (desc st ! i)" "length (desc st) = MAX_DESC"
    using files_ok_nth assms(2,3) by (auto simp: files_ok_def)
  show ?thesis
    using assms(1,3,4) ok unfolding do_xfer_def Let_def
    by (auto simp: desc_ok_def split: if_splits intro: exI [of _ "pos (desc st ! i)"])
qed

lemma files_okI:
  assumes "files_ok st" "length (desc st') = MAX_DESC"
    "\<forall>j<MAX_DESC. j \<noteq> i \<longrightarrow> desc st' ! j = desc st ! j" "desc_ok (desc st' ! i)"
  shows "files_ok st'"
  using assms by (auto simp: files_ok_def list_all_length)

lemma fread_ok:
  assumes "files_ok st" and "fread_mem ptr mx nmemb fp st = Some (r, st')"
  shows "files_ok st'"
proof (cases "usable fp st \<and> mode (desc st ! the fp) AND READ_OK \<noteq> 0 \<and> in_int (mx * nmemb)")
  case False
  then show ?thesis using assms by (auto simp: fread_mem_def Let_def split: if_splits)
next
  case True
  then obtain i where i: "fp = Some i" "i < MAX_DESC" "is_open (desc st ! i)"
    using usable_index by blast
  from True assms(2) have "do_xfer ptr (buf (desc st ! i) + word_of_int (pos (desc st ! i)))
      (mx * nmemb) i DO_READ st = Some (r, st')"
    by (simp add: fread_mem_def Let_def i)
  from do_xfer_ok [OF this assms(1) i(2,3)] files_ok_nth [OF assms(1) i(2)] i(3)
  show ?thesis by (intro files_okI [OF assms(1), of st' i]) (auto simp: desc_ok_def)
qed

lemma fwrite_ok:
  assumes "files_ok st" and "fwrite_mem ptr mx nmemb fp st = Some (r, st')"
  shows "files_ok st'"
proof (cases "usable fp st \<and> mode (desc st ! the fp) AND WRITE_OK \<noteq> 0 \<and> in_int (mx * nmemb)")
  case False
  then show ?thesis using assms by (auto simp: fwrite_mem_def Let_def split: if_splits)
next
  case True
  then obtain i where i: "fp = Some i" "i < MAX_DESC" "is_open (desc st ! i)"
    using usable_index by blast
  from True assms(2) obtain st1 where
    x: "do_xfer (buf (desc st ! i) + word_of_int (pos (desc st ! i))) ptr
      (mx * nmemb) i DO_WRITE st = Some (r, st1)"
    and st': "st' = (if pos (desc st1 ! i) > crnt_filesize (desc st1 ! i)
      then st1\<lparr>desc := (desc st1)[i := (desc st1 ! i)\<lparr>crnt_filesize := pos (desc st1 ! i)\<rparr>]\<rparr> else st1)"
    by (auto simp: fwrite_mem_def Let_def i)
  from do_xfer_ok [OF x assms(1) i(2,3)] files_ok_nth [OF assms(1) i(2)] i(2,3)
  show ?thesis unfolding st' by (intro files_okI [OF assms(1), of _ i]) (auto simp: desc_ok_def)
qed

lemma fgetc_ok:
  assumes "files_ok st"
  shows "files_ok (snd (fgetc_mem fp st))"
  using assms usable_ok [OF assms, of fp]
  by (auto simp: fgetc_mem_def Let_def desc_ok_def intro!: files_ok_update)

lemma frewind_ok:
  assumes "files_ok st"
  shows "files_ok (snd (frewind_mem fp st))"
  using assms usable_ok [OF assms, of fp]
  by (auto simp: frewind_mem_def desc_ok_def intro!: files_ok_update)

lemma init_files_ok: "files_ok (init_files m)"
  by (simp add: init_files_def files_ok_def zero_desc_ok list_all_length)

text \<open>C35: the table of in-memory files starts consistent, and every operation keeps it consistent:
  the position of an open file never passes its size, its size never passes its buffer, and a
  closed descriptor is cleared.\<close>

theorem files_ok_preserved:
  assumes "files_ok st" and "0 \<le> mx" and "mx < 2 ^ 31"
  shows "files_ok (init_files m) \<and>
    files_ok (snd (fmemopen_mem alloc b mx md st)) \<and> files_ok (snd (fclose_mem fp st)) \<and>
    files_ok (snd (fgetc_mem fp st)) \<and> files_ok (snd (frewind_mem fp st)) \<and>
    (\<forall>r st'. fread_mem ptr n k fp st = Some (r, st') \<longrightarrow> files_ok st') \<and>
    (\<forall>r st'. fwrite_mem ptr n k fp st = Some (r, st') \<longrightarrow> files_ok st')"
  using init_files_ok [of m] fmemopen_ok [OF assms, of alloc b md] fclose_ok [OF assms(1), of fp]
    fgetc_ok [OF assms(1), of fp] frewind_ok [OF assms(1), of fp]
    fread_ok [OF assms(1)] fwrite_ok [OF assms(1)]
  by blast

theorem files_ok_preserved_witness:
  "files_ok (snd (fmemopen_mem 0 0x1000 64 ''w+'' (init_files sample_mem)))"
  using files_ok_preserved [OF init_files_ok, of 64] by simp

section \<open>Contents\<close>

definition contents :: "file_state \<Rightarrow> nat \<Rightarrow> string" where
  "contents st i = bytes_at (fmem st) (buf (desc st ! i)) (nat (crnt_filesize (desc st ! i)))"

text \<open>The \<open>n\<close> bytes at \<open>p\<close> and the \<open>k\<close> bytes at \<open>q\<close> do not overlap.\<close>

definition apart :: "u32 \<Rightarrow> nat \<Rightarrow> u32 \<Rightarrow> nat \<Rightarrow> bool" where
  "apart p n q k \<longleftrightarrow> unat (q - p) \<ge> n \<and> unat (p - q) \<ge> k"

lemma length_bytes_at [simp]: "length (bytes_at m p n) = n"
  by (simp add: bytes_at_def)

lemma nth_bytes_at [simp]: "i < n \<Longrightarrow> bytes_at m p n ! i = m (p + of_nat i)"
  by (simp add: bytes_at_def)

lemma apart_not_in:
  assumes "apart p n q k" and "i < k" and "k < 2 ^ 31" and "n < 2 ^ 31"
  shows "\<not> unat (q + of_nat i - p) < n"
proof
  assume lt: "unat (q + of_nat i - p) < n"
  define d where "d = q - p"
  have d: "unat d \<ge> n" "unat (- d) \<ge> k" using assms(1) by (simp_all add: apart_def d_def)
  have i: "unat (of_nat i :: u32) = i" using assms(2,3) by (intro unat_of_nat_u32) simp
  have "unat (d + of_nat i) = (unat d + i) mod 2 ^ 32"
    by (simp add: unat_word_ariths i)
  moreover have "d + of_nat i = q + of_nat i - p" by (simp add: d_def)
  ultimately have m: "(unat d + i) mod 2 ^ 32 < n" using lt by simp
  show False
  proof (cases "unat d + i < 2 ^ 32")
    case True
    with m d show False by simp
  next
    case False
    have "d \<noteq> 0" using False i assms(2,3) by auto
    then have "unat (- d) = 2 ^ 32 - unat d"
      using unat_sub_if_size [of 0 d] by (simp add: word_size unat_eq_0)
    with d False assms(2) show False by simp
  qed
qed

lemma memcpy_bytes:
  assumes "apart dst n src n" and "n < 2 ^ 31"
  shows "\<exists>m'. memcpy dst src n m = Some m' \<and> bytes_at m' dst n = bytes_at m src n \<and>
    (\<forall>q k. apart dst n q k \<longrightarrow> k < 2 ^ 31 \<longrightarrow> bytes_at m' q k = bytes_at m q k)"
proof -
  let ?m = "\<lambda>a. if unat (a - dst) < n then m (src + (a - dst)) else m a"
  have "memcpy dst src n m = Some ?m" using assms(1) by (simp add: memcpy_def apart_def)
  moreover have "bytes_at ?m dst n = bytes_at m src n"
    by (rule nth_equalityI) (use assms(2) in \<open>auto simp: unat_of_nat_u32\<close>)
  moreover have "bytes_at ?m q k = bytes_at m q k" if "apart dst n q k" "k < 2 ^ 31" for q k
    by (rule nth_equalityI) (use apart_not_in [OF that(1) _ that(2) assms(2)] in auto)
  ultimately show ?thesis by blast
qed

lemma bytes_at_add: "bytes_at m p (i + n) = bytes_at m p i @ bytes_at m (p + of_nat i) n"
  by (induction i arbitrary: p) (simp_all add: ac_simps)

lemma fread_refines:
  assumes "files_ok st" and "i < MAX_DESC" and "is_open (desc st ! i)"
    and "mode (desc st ! i) AND READ_OK \<noteq> 0" and "0 \<le> n" and "in_int n"
    and "in_int (pos (desc st ! i) + n)"
    and p: "p = nat (pos (desc st ! i))"
    and k: "k = min (nat n) (length (contents st i) - p)"
    and ap: "apart ptr k (buf (desc st ! i) + of_nat p) k"
  shows "\<exists>st'. fread_mem ptr 1 n (Some i) st = Some (int k, st') \<and>
    bytes_at (fmem st') ptr k = take k (drop p (contents st i)) \<and>
    desc st' = (desc st)[i := (desc st ! i)\<lparr>pos := pos (desc st ! i) + int k\<rparr>]"
proof -
  let ?f = "desc st ! i"
  have ok: "0 \<le> pos ?f" "pos ?f \<le> crnt_filesize ?f" "crnt_filesize ?f < 2 ^ 31"
    using files_ok_nth [OF assms(1,2)] assms(3) by (auto simp: desc_ok_def)
  have len: "length (contents st i) = nat (crnt_filesize ?f)" by (simp add: contents_def)
  have w: "word_of_int (pos ?f) = (of_nat p :: u32)" using ok p by simp
  have x: "(if pos ?f + n > crnt_filesize ?f then crnt_filesize ?f - pos ?f else n) = int k"
    using ok assms(5) p k len by auto
  have kp: "k + p \<le> nat (crnt_filesize ?f)" using ok p k len by linarith
  have src: "bytes_at (fmem st) (buf ?f + of_nat p) k = take k (drop p (contents st i))"
    by (rule nth_equalityI) (use kp in \<open>auto simp: contents_def ac_simps\<close>)
  show ?thesis
  proof (cases "k = 0")
    case True
    then show ?thesis using assms x
      by (auto simp: fread_mem_def usable_def do_xfer_def Let_def)
  next
    case False
    have "k < 2 ^ 31" using kp ok by simp
    from memcpy_bytes [OF ap this] obtain m' where
      m': "memcpy ptr (buf ?f + of_nat p) k (fmem st) = Some m'"
      "bytes_at m' ptr k = bytes_at (fmem st) (buf ?f + of_nat p) k" by blast
    have "fread_mem ptr 1 n (Some i) st = Some (int k,
        st\<lparr>fmem := m', desc := (desc st)[i := ?f\<lparr>pos := pos ?f + int k\<rparr>]\<rparr>)"
      using assms(2,3,4,6,7) x m'(1) w False
      by (simp add: fread_mem_def usable_def do_xfer_def Let_def)
    then show ?thesis using m'(2) src by simp
  qed
qed

lemma unat_of_nat_diff_less:
  assumes "j < 2 ^ 31" and "p + k < 2 ^ 31"
  shows "unat (of_nat j - of_nat p :: u32) < k \<longleftrightarrow> p \<le> j \<and> j < p + k"
proof -
  have "unat (of_nat j :: u32) = j" "unat (of_nat p :: u32) = p"
    using assms by (simp_all add: unat_of_nat_u32)
  then have "unat (of_nat j - of_nat p :: u32) = (if p \<le> j then j - p else j + 2 ^ 32 - p)"
    by (simp add: unat_sub_if_size word_size)
  with assms show ?thesis by auto
qed

lemma bytes_at_patch:
  assumes "p \<le> c" and "\<And>j. j < max c (p + k) \<Longrightarrow> m' (b + of_nat j) =
      (if p \<le> j \<and> j < p + k then m (q + of_nat (j - p)) else m (b + of_nat j))"
  shows "bytes_at m' b (max c (p + k)) =
    take p (bytes_at m b c) @ bytes_at m q k @ drop (p + k) (bytes_at m b c)"
proof (rule nth_equalityI)
  show "length (bytes_at m' b (max c (p + k))) =
    length (take p (bytes_at m b c) @ bytes_at m q k @ drop (p + k) (bytes_at m b c))"
    using assms(1) by auto
  fix j assume "j < length (bytes_at m' b (max c (p + k)))"
  then have j: "j < max c (p + k)" by simp
  consider "j < p" | "p \<le> j" "j < p + k" | "p + k \<le> j" "j < c" using j by linarith
  then show "bytes_at m' b (max c (p + k)) ! j =
    (take p (bytes_at m b c) @ bytes_at m q k @ drop (p + k) (bytes_at m b c)) ! j"
    using assms(1) assms(2) [OF j] j by cases (auto simp: nth_append)
qed

lemma fwrite_refines:
  assumes "files_ok st" and "i < MAX_DESC" and "is_open (desc st ! i)"
    and "mode (desc st ! i) AND WRITE_OK \<noteq> 0" and "0 \<le> n" and "in_int n"
    and "in_int (pos (desc st ! i) + n)"
    and p: "p = nat (pos (desc st ! i))"
    and k: "k = min (nat n) (nat (buf_maxsize (desc st ! i)) - p)"
    and ap: "apart (buf (desc st ! i) + of_nat p) k ptr k"
  shows "\<exists>st'. fwrite_mem ptr 1 n (Some i) st = Some (int k, st') \<and>
    contents st' i = take p (contents st i) @ bytes_at (fmem st) ptr k @ drop (p + k) (contents st i) \<and>
    (\<exists>s. desc st' = (desc st)[i := (desc st ! i)\<lparr>pos := int (p + k), crnt_filesize := s\<rparr>])"
proof -
  let ?f = "desc st ! i"
  have ok: "0 \<le> pos ?f" "pos ?f \<le> crnt_filesize ?f" "crnt_filesize ?f \<le> buf_maxsize ?f"
    "buf_maxsize ?f < 2 ^ 31" "length (desc st) = MAX_DESC"
    using files_ok_nth [OF assms(1,2)] assms(1,3) by (auto simp: desc_ok_def files_ok_def)
  let ?s = "max (crnt_filesize ?f) (pos ?f + int k)"
  have w: "word_of_int (pos ?f) = (of_nat p :: u32)" using ok p by simp
  have x: "(if pos ?f + n > buf_maxsize ?f then buf_maxsize ?f - pos ?f else n) = int k"
    using ok assms(5) p k by auto
  have kp: "int (k + p) \<le> buf_maxsize ?f" using ok p k by linarith
  have k31: "k < 2 ^ 31" "p + k < 2 ^ 31" using kp ok(4) by simp_all
  define m' where "m' = (\<lambda>a. if unat (a - (buf ?f + of_nat p)) < k
    then fmem st (ptr + (a - (buf ?f + of_nat p))) else fmem st a)"
  have m': "memcpy (buf ?f + of_nat p) ptr k (fmem st) = Some m'"
    using ap by (simp add: memcpy_def apart_def m'_def)
  have m'_at: "m' (buf ?f + of_nat j) =
      (if p \<le> j \<and> j < p + k then fmem st (ptr + of_nat (j - p)) else fmem st (buf ?f + of_nat j))"
    if "j < 2 ^ 31" for j
  proof -
    have "buf ?f + of_nat j - (buf ?f + of_nat p) = (of_nat j - of_nat p :: u32)" by simp
    with that k31 show ?thesis
      by (simp add: m'_def unat_of_nat_diff_less of_nat_diff)
  qed
  let ?st = "st\<lparr>fmem := m', desc := (desc st)[i := ?f\<lparr>pos := pos ?f + int k, crnt_filesize := ?s\<rparr>]\<rparr>"
  have c: "contents ?st i =
      take p (contents st i) @ bytes_at (fmem st) ptr k @ drop (p + k) (contents st i)"
  proof -
    have "nat ?s = max (nat (crnt_filesize ?f)) (p + k)" using ok p by auto
    moreover have "p \<le> nat (crnt_filesize ?f)" using ok p by simp
    moreover have "max (nat (crnt_filesize ?f)) (p + k) < 2 ^ 31" using ok k31 by auto
    moreover have "bytes_at m' (buf ?f) (max (nat (crnt_filesize ?f)) (p + k)) =
        take p (bytes_at (fmem st) (buf ?f) (nat (crnt_filesize ?f))) @ bytes_at (fmem st) ptr k @
        drop (p + k) (bytes_at (fmem st) (buf ?f) (nat (crnt_filesize ?f)))"
      using calculation(2,3) by (intro bytes_at_patch m'_at) auto
    ultimately show ?thesis using ok(5) assms(2) by (simp add: contents_def)
  qed
  show ?thesis
  proof (cases "k = 0")
    case True
    have "fwrite_mem ptr 1 n (Some i) st = Some (int k, st)"
      using True assms(2,3,4,6,7) x ok
      by (auto simp add: fwrite_mem_def usable_def do_xfer_def Let_def)
    moreover have "desc st = (desc st)[i := ?f\<lparr>pos := int (p + k), crnt_filesize := crnt_filesize ?f\<rparr>]"
      using True ok p by simp
    moreover have "contents st i =
        take p (contents st i) @ bytes_at (fmem st) ptr k @ drop (p + k) (contents st i)"
      using True by simp
    ultimately show ?thesis by (intro exI [of _ st] conjI exI [of _ "crnt_filesize ?f"])
  next
    case False
    have "fwrite_mem ptr 1 n (Some i) st = Some (int k, ?st)"
      using assms(2,3,4,6,7) x m' w False ok
      by (auto simp add: fwrite_mem_def usable_def do_xfer_def Let_def)
    moreover have "pos ?f + int k = int (p + k)" using ok p by simp
    ultimately show ?thesis using c by (intro exI [of _ ?st]) auto
  qed
qed

text \<open>C34: what is written to an in-memory file opened for both directions is what a read after a
  rewind returns: \<open>fwrite_mem\<close> at the start of the file transfers as many of the \<open>n\<close>
  bytes as the buffer holds, and after \<open>frewind_mem\<close> a read of the same length returns the same
  number and the same bytes.\<close>

theorem fwrite_rewind_fread:
  assumes "files_ok st" and "i < MAX_DESC" and "is_open (desc st ! i)" and "pos (desc st ! i) = 0"
    and "mode (desc st ! i) AND WRITE_OK \<noteq> 0" and "mode (desc st ! i) AND READ_OK \<noteq> 0"
    and "0 \<le> n" and "n < 2 ^ 31"
    and k: "k = nat (min n (buf_maxsize (desc st ! i)))"
    and "apart (buf (desc st ! i)) k ptr k" and "apart dst k (buf (desc st ! i)) k"
  shows "\<exists>st1 st2 st3. fwrite_mem ptr 1 n (Some i) st = Some (int k, st1) \<and>
    frewind_mem (Some i) st1 = (0, st2) \<and>
    fread_mem dst 1 (int k) (Some i) st2 = Some (int k, st3) \<and>
    bytes_at (fmem st3) dst k = bytes_at (fmem st) ptr k"
proof -
  let ?f = "desc st ! i"
  have len: "length (desc st) = MAX_DESC" using assms(1) by (simp add: files_ok_def)
  have "buf_maxsize ?f \<ge> 0" using files_ok_nth [OF assms(1,2)] assms(3) by (auto simp: desc_ok_def)
  then have k': "k = min (nat n) (nat (buf_maxsize ?f) - 0)" using k by auto
  have in_n: "in_int n" "in_int (pos ?f + n)" using assms(4,7,8) by (simp_all add: in_int_def)
  obtain st1 s where st1: "fwrite_mem ptr 1 n (Some i) st = Some (int k, st1)"
    "contents st1 i = bytes_at (fmem st) ptr k @ drop k (contents st i)"
    "desc st1 = (desc st)[i := ?f\<lparr>pos := int k, crnt_filesize := s\<rparr>]"
    using fwrite_refines [OF assms(1,2,3,5,7) in_n, of 0 k ptr] assms(4,10) k' by auto
  have ok1: "files_ok st1" by (rule fwrite_ok [OF assms(1) st1(1)])
  have f1: "desc st1 ! i = ?f\<lparr>pos := int k, crnt_filesize := s\<rparr>"
    using st1(3) assms(2) len by simp
  let ?st2 = "st1\<lparr>desc := (desc st1)[i := (desc st1 ! i)\<lparr>pos := 0\<rparr>]\<rparr>"
  have st2: "frewind_mem (Some i) st1 = (0, ?st2)"
    using assms(2,3) f1 by (simp add: frewind_mem_def usable_def)
  then have ok2: "files_ok ?st2" using frewind_ok [OF ok1, of "Some i"] by simp
  have f2: "desc ?st2 ! i = ?f\<lparr>pos := 0, crnt_filesize := s\<rparr>"
    using assms(2) len f1 st1(3) by simp
  have c2: "contents ?st2 i = contents st1 i" using f1 f2 by (simp add: contents_def)
  have "int k < 2 ^ 31" using k assms(7,8) by auto
  then have in_k: "in_int (int k)" "in_int (pos (desc ?st2 ! i) + int k)"
    using f2 by (simp_all add: in_int_def)
  have "k = min (nat (int k)) (length (contents ?st2 i) - 0)" using c2 st1(2) by simp
  then obtain st3 where "fread_mem dst 1 (int k) (Some i) ?st2 = Some (int k, st3)"
    "bytes_at (fmem st3) dst k = take k (drop 0 (contents ?st2 i))"
    using fread_refines [OF ok2 assms(2) _ _ _ in_k, of 0 k dst] assms(3,6,11) f2 by auto
  then show ?thesis using st1 st2 c2 by auto
qed

theorem fwrite_rewind_fread_witness:
  "\<exists>st1 st2 st3. let st = snd (fmemopen_mem 0 0x1000 64 ''w+'' (init_files sample_mem)) in
    fwrite_mem 0x100 1 2 (Some 0) st = Some (2, st1) \<and>
    frewind_mem (Some 0) st1 = (0, st2) \<and> fread_mem 0x300 1 2 (Some 0) st2 = Some (2, st3) \<and>
    bytes_at (fmem st3) 0x300 2 = ''ab''"
proof -
  let ?st = "snd (fmemopen_mem 0 0x1000 64 ''w+'' (init_files sample_mem))"
  let ?f = "\<lparr>is_open = True, buf_allocated = False, buf = 0x1000, mode = 3,
     buf_maxsize = 64, crnt_filesize = 0, pos = 0\<rparr>"
  have "replicate MAX_DESC zero_desc = [zero_desc, zero_desc, zero_desc, zero_desc]"
    by (simp add: MAX_DESC_def numeral_eq_Suc)
  then have d: "desc ?st ! 0 = ?f" "fmem ?st = sample_mem"
    by (simp_all add: fmemopen_mem_def init_files_def find_free_def zero_desc_def Let_def
        parse_mode_def parse_mode_char_def READ_OK_def WRITE_OK_def upt_rec MAX_DESC_def)
  have "files_ok ?st" by (intro fmemopen_ok init_files_ok) auto
  moreover have "apart 0x1000 2 0x100 2" "apart 0x300 2 0x1000 2" by (simp_all add: apart_def)
  moreover have "bytes_at sample_mem 0x100 2 = ''ab''"
    by (simp add: bytes_at_def sample_mem_def upt_rec)
  ultimately have "\<exists>st1 st2 st3. fwrite_mem 0x100 1 2 (Some 0) ?st = Some (int 2, st1) \<and>
    frewind_mem (Some 0) st1 = (0, st2) \<and>
    fread_mem 0x300 1 (int 2) (Some 0) st2 = Some (int 2, st3) \<and>
    bytes_at (fmem st3) 0x300 2 = bytes_at (fmem ?st) 0x100 2"
    by (intro fwrite_rewind_fread)
      (simp_all only: d FILE_MEM.simps MAX_DESC_def READ_OK_def WRITE_OK_def, simp_all)
  then show ?thesis
    unfolding Let_def d \<open>bytes_at sample_mem 0x100 2 = ''ab''\<close> by simp
qed

lemma parse_mode_frame:
  "is_open (parse_mode mx m f) = is_open f" "buf (parse_mode mx m f) = buf f"
  "buf_maxsize (parse_mode mx m f) = buf_maxsize f"
proof -
  have "is_open (fold (parse_mode_char mx) m f) = is_open f \<and>
    buf (fold (parse_mode_char mx) m f) = buf f \<and>
    buf_maxsize (fold (parse_mode_char mx) m f) = buf_maxsize f" for f
    by (induction m arbitrary: f) (auto simp: parse_mode_char_def)
  then show "is_open (parse_mode mx m f) = is_open f" "buf (parse_mode mx m f) = buf f"
    "buf_maxsize (parse_mode mx m f) = buf_maxsize f" by (simp_all add: parse_mode_def)
qed

lemma fmemopen_opens:
  assumes "length (desc st) = MAX_DESC" and "fst (fmemopen_mem alloc b mx md st) = Some i"
  shows "i < MAX_DESC \<and> \<not> is_open (desc st ! i) \<and> (\<forall>j<i. is_open (desc st ! j)) \<and>
       usable (Some i) (snd (fmemopen_mem alloc b mx md st)) \<and>
       (let f = desc (snd (fmemopen_mem alloc b mx md st)) ! i in
        buf f = (if b = 0 then alloc else b) \<and> pos f = 0 \<and> buf_maxsize f = mx) \<and>
       (\<forall>j. j \<noteq> i \<longrightarrow> desc (snd (fmemopen_mem alloc b mx md st)) ! j = desc st ! j)"
proof -
  have i: "find_free st = int i"
    using assms(2) by (auto simp: fmemopen_mem_def Let_def split: if_splits)
  then have "i < MAX_DESC \<and> \<not> is_open (desc st ! i) \<and> (\<forall>j<i. is_open (desc st ! j))"
    using find_free_some by blast
  then show ?thesis using i assms(1)
    by (auto simp: fmemopen_mem_def Let_def usable_def parse_mode_frame)
qed

text \<open>\<open>fmemopen_mem\<close> returns a null pointer exactly when all four descriptors are open, and
  otherwise opens the lowest closed one over the given buffer, at position 0, leaving the others
  alone; closing a file makes its descriptor available again and releases a buffer that was
  allocated; and every operation on a pointer that is not an open descriptor is refused without
  effect.\<close>

lemma file_descriptor_table:
  assumes "files_ok st"
  shows "(fst (fmemopen_mem alloc b mx md st) = None \<longleftrightarrow> (\<forall>i<4. is_open (desc st ! i))) \<and>
    (\<forall>i. fst (fmemopen_mem alloc b mx md st) = Some i \<longrightarrow>
       i < 4 \<and> \<not> is_open (desc st ! i) \<and> (\<forall>j<i. is_open (desc st ! j)) \<and>
       usable (Some i) (snd (fmemopen_mem alloc b mx md st)) \<and>
       (let f = desc (snd (fmemopen_mem alloc b mx md st)) ! i in
        buf f = (if b = 0 then alloc else b) \<and> pos f = 0 \<and> buf_maxsize f = mx) \<and>
       (\<forall>j. j \<noteq> i \<longrightarrow> desc (snd (fmemopen_mem alloc b mx md st)) ! j = desc st ! j)) \<and>
    (if usable fp st
     then fst (fclose_mem fp st) = 0 \<and> \<not> usable fp (snd (fclose_mem fp st)) \<and>
       freed (snd (fclose_mem fp st)) = freed st @
         (if buf_allocated (desc st ! the fp) \<and> buf (desc st ! the fp) \<noteq> 0 then [buf (desc st ! the fp)] else [])
     else fclose_mem fp st = (- 1, st) \<and> fgetc_mem fp st = (0, st) \<and>
       fread_mem ptr n k fp st = Some (0, st) \<and> fwrite_mem ptr n k fp st = Some (0, st) \<and>
       frewind_mem fp st = (- 1, st) \<and> fsize_mem fp st = - 1)"
proof (intro conjI)
  have len: "length (desc st) = 4" using assms by (simp add: files_ok_def MAX_DESC_def)
  show "fst (fmemopen_mem alloc b mx md st) = None \<longleftrightarrow> (\<forall>i<4. is_open (desc st ! i))"
    using find_free_none [of st] by (simp add: fmemopen_mem_def Let_def MAX_DESC_def)
  show "\<forall>i. fst (fmemopen_mem alloc b mx md st) = Some i \<longrightarrow>
       i < 4 \<and> \<not> is_open (desc st ! i) \<and> (\<forall>j<i. is_open (desc st ! j)) \<and>
       usable (Some i) (snd (fmemopen_mem alloc b mx md st)) \<and>
       (let f = desc (snd (fmemopen_mem alloc b mx md st)) ! i in
        buf f = (if b = 0 then alloc else b) \<and> pos f = 0 \<and> buf_maxsize f = mx) \<and>
       (\<forall>j. j \<noteq> i \<longrightarrow> desc (snd (fmemopen_mem alloc b mx md st)) ! j = desc st ! j)"
    using fmemopen_opens [OF len [folded MAX_DESC_def]] unfolding MAX_DESC_def by blast
  show "if usable fp st
     then fst (fclose_mem fp st) = 0 \<and> \<not> usable fp (snd (fclose_mem fp st)) \<and>
       freed (snd (fclose_mem fp st)) = freed st @
         (if buf_allocated (desc st ! the fp) \<and> buf (desc st ! the fp) \<noteq> 0 then [buf (desc st ! the fp)] else [])
     else fclose_mem fp st = (- 1, st) \<and> fgetc_mem fp st = (0, st) \<and>
       fread_mem ptr n k fp st = Some (0, st) \<and> fwrite_mem ptr n k fp st = Some (0, st) \<and>
       frewind_mem fp st = (- 1, st) \<and> fsize_mem fp st = - 1"
    using usable_index [of fp st] len
    by (auto simp: fclose_mem_def usable_def Let_def zero_desc_def MAX_DESC_def fgetc_mem_def
        fread_mem_def fwrite_mem_def frewind_mem_def fsize_mem_def)
qed

text \<open>The busy wait ends at the first read of the counter that has reached the limit.\<close>

lemma pcycle_pause_returns:
  assumes "rd n \<ge> start + wait" and "\<And>k. k < n \<Longrightarrow> rd k < start + wait"
  shows "pcycle_pause start rd wait = Some n"
proof -
  have "pause_loop rd (start + wait) (n - d) = Some n" if "d \<le> n" for d
    using that
  proof (induction d)
    case 0
    then show ?case using assms(1) by (subst pause_loop.simps) (simp add: leD)
  next
    case (Suc d)
    then have "rd (n - Suc d) < start + wait" "Suc (n - Suc d) = n - d" using assms(2) by simp_all
    then show ?case using Suc by (subst pause_loop.simps) simp
  qed
  from this [of n] show ?thesis by (simp add: pcycle_pause_def)
qed

end
