(* ===== verification/Hvx.thy ===== *)
theory Hvx
  imports Hex_Prelude
begin

text \<open>
  The vector side of the tests: byte memory with 16 and 32 bit accesses, the
  lanes of an HVX vector, and the interface of the scatter/gather intrinsics.

  The intrinsics come from the toolchain and run on the coprocessor, so they
  are a parameter, the record \<open>hvx_ops\<close>; the locale \<open>hvx_unit\<close> states what
  the architecture documents of them, each on the aligned, uniformly predicated
  operands that the tests use.  \<open>hvx_model\<close> is an instance written
  directly from that documentation.

  The locale \<open>elem_access\<close> is the contract of an element access (load what was
  stored, leave the other bytes alone); arrays in memory and loops of element
  updates are handled once, inside it.
\<close>

section \<open>Bytes and elements\<close>

type_synonym vmem = "u32 \<Rightarrow> u8"

definition bytes16 :: "u16 \<Rightarrow> u8 list" where
  "bytes16 v = [ucast v, ucast (drop_bit 8 v)]"

definition bytes32 :: "u32 \<Rightarrow> u8 list" where
  "bytes32 v = [ucast v, ucast (drop_bit 8 v), ucast (drop_bit 16 v), ucast (drop_bit 24 v)]"

definition of_bytes16 :: "u8 \<Rightarrow> u8 \<Rightarrow> u16" where
  "of_bytes16 a b = ucast a OR push_bit 8 (ucast b)"

definition of_bytes32 :: "u8 \<Rightarrow> u8 \<Rightarrow> u8 \<Rightarrow> u8 \<Rightarrow> u32" where
  "of_bytes32 a b c d =
     ucast a OR push_bit 8 (ucast b) OR push_bit 16 (ucast c) OR push_bit 24 (ucast d)"

definition load16 :: "vmem \<Rightarrow> u32 \<Rightarrow> u16" where
  "load16 m a = of_bytes16 (m a) (m (a + 1))"

definition store16 :: "u32 \<Rightarrow> u16 \<Rightarrow> vmem \<Rightarrow> vmem" where
  "store16 a v m = m(a := ucast v, a + 1 := ucast (drop_bit 8 v))"

definition load32 :: "vmem \<Rightarrow> u32 \<Rightarrow> u32" where
  "load32 m a = of_bytes32 (m a) (m (a + 1)) (m (a + 2)) (m (a + 3))"

definition store32 :: "u32 \<Rightarrow> u32 \<Rightarrow> vmem \<Rightarrow> vmem" where
  "store32 a v m =
     m(a := ucast v, a + 1 := ucast (drop_bit 8 v), a + 2 := ucast (drop_bit 16 v),
       a + 3 := ucast (drop_bit 24 v))"

lemma of_bytes16_bytes: "of_bytes16 (ucast v) (ucast (drop_bit 8 v)) = v"
  unfolding of_bytes16_def
  by (rule bit_word_eqI) (auto simp: bit_or_iff bit_push_bit_iff bit_ucast_iff bit_drop_bit_eq)

lemma of_bytes32_bytes:
  "of_bytes32 (ucast v) (ucast (drop_bit 8 v)) (ucast (drop_bit 16 v)) (ucast (drop_bit 24 v)) = v"
proof (rule bit_word_eqI)
  fix n assume "n < LENGTH(32)"
  then consider "n < 8" | "8 \<le> n" "n < 16" | "16 \<le> n" "n < 24" | "24 \<le> n" "n < 32" by fastforce
  then show "bit (of_bytes32 (ucast v) (ucast (drop_bit 8 v)) (ucast (drop_bit 16 v))
      (ucast (drop_bit 24 v))) n = bit v n"
    unfolding of_bytes32_def
    by cases (auto simp: bit_or_iff bit_push_bit_iff bit_ucast_iff bit_drop_bit_eq)
qed

lemma bytes_of_bytes16:
  "ucast (of_bytes16 a b) = a" "ucast (drop_bit 8 (of_bytes16 a b)) = b"
  unfolding of_bytes16_def
  by (rule bit_word_eqI, auto simp: bit_or_iff bit_push_bit_iff bit_ucast_iff bit_drop_bit_eq
      dest: bit_imp_le_length)+

lemma bytes_of_bytes32:
  "ucast (of_bytes32 a b c d) = a" "ucast (drop_bit 8 (of_bytes32 a b c d)) = b"
  "ucast (drop_bit 16 (of_bytes32 a b c d)) = c" "ucast (drop_bit 24 (of_bytes32 a b c d)) = d"
  unfolding of_bytes32_def
  by (rule bit_word_eqI, auto simp: bit_or_iff bit_push_bit_iff bit_ucast_iff bit_drop_bit_eq
      dest: bit_imp_le_length)+

section \<open>Element accesses\<close>

locale elem_access =
  fixes ld :: "vmem \<Rightarrow> u32 \<Rightarrow> 'a" and st :: "u32 \<Rightarrow> 'a \<Rightarrow> vmem \<Rightarrow> vmem"
    and bytes :: "'a \<Rightarrow> u8 list" and w :: nat
  assumes w_pos: "0 < w" "w \<le> 4"
    and ld_st: "ld (st p v m) p = v"
    and st_outside: "(\<And>k. k < w \<Longrightarrow> a \<noteq> p + of_nat k) \<Longrightarrow> st p v m a = m a"
    and ld_cong: "(\<And>k. k < w \<Longrightarrow> m (p + of_nat k) = m' (q + of_nat k)) \<Longrightarrow> ld m p = ld m' q"
    and ld_bytes: "bytes (ld m p) = map (\<lambda>k. m (p + of_nat k)) [0..<w]"
begin

definition region :: "vmem \<Rightarrow> u32 \<Rightarrow> nat \<Rightarrow> 'a list" where
  "region m p n = map (\<lambda>i. ld m (p + of_nat (w * i))) [0..<n]"

lemma length_region [simp]: "length (region m p n) = n"
  by (simp add: region_def)

lemma nth_region [simp]: "i < n \<Longrightarrow> region m p n ! i = ld m (p + of_nat (w * i))"
  by (simp add: region_def)

lemma region_cong:
  assumes "\<And>k. k < w * n \<Longrightarrow> m' (p + of_nat k) = m (p + of_nat k)"
  shows "region m' p n = region m p n"
proof (rule nth_equalityI)
  fix i assume "i < length (region m' p n)"
  then have i: "i < n" by simp
  have "ld m' (p + of_nat (w * i)) = ld m (p + of_nat (w * i))"
  proof (rule ld_cong)
    fix k assume "k < w"
    moreover have "w * i + w \<le> w * n" using i by (metis Suc_leI add.commute mult_Suc_right mult_le_mono2)
    ultimately have "w * i + k < w * n" by linarith
    from assms [OF this] show "m' (p + of_nat (w * i) + of_nat k) = m (p + of_nat (w * i) + of_nat k)"
      by (simp add: ac_simps)
  qed
  with i show "region m' p n ! i = region m p n ! i" by simp
qed simp

lemma offset_inj:
  assumes "i < 2 ^ 32" "j < 2 ^ 32" "p + of_nat i = (p::u32) + of_nat j"
  shows "i = j"
proof -
  have "unat (of_nat i :: u32) = unat (of_nat j :: u32)" using assms(3) by simp
  moreover have "unat (of_nat i :: u32) = i" "unat (of_nat j :: u32) = j"
    using assms(1,2) by (simp_all add: unsigned_of_nat take_bit_nat_eq_self)
  ultimately show ?thesis by simp
qed

text \<open>An element store changes only the bytes of that element.\<close>

lemma st_frame:
  assumes "k < 2 ^ 32" "w * i + w \<le> 2 ^ 32" "\<not> (w * i \<le> k \<and> k < w * i + w)"
  shows "st (p + of_nat (w * i)) v m (p + of_nat k) = m (p + of_nat k)"
proof (rule st_outside)
  fix l assume l: "l < w"
  show "p + of_nat k \<noteq> p + of_nat (w * i) + of_nat l"
  proof
    assume "p + of_nat k = p + of_nat (w * i) + of_nat l"
    then have "p + of_nat k = p + of_nat (w * i + l)" by (simp add: ac_simps)
    then have "k = w * i + l" using offset_inj assms(1,2) l by fastforce
    with assms(3) l show False by simp
  qed
qed

lemma region_st:
  assumes "i < n" "w * n \<le> 2 ^ 32"
  shows "region (st (p + of_nat (w * i)) v m) p n = (region m p n)[i := v]"
proof (rule nth_equalityI)
  fix j assume "j < length (region (st (p + of_nat (w * i)) v m) p n)"
  then have j: "j < n" by simp
  show "region (st (p + of_nat (w * i)) v m) p n ! j = (region m p n)[i := v] ! j"
  proof (cases "i = j")
    case True
    then show ?thesis using j by (simp add: ld_st)
  next
    case False
    have wi: "w * i + w \<le> 2 ^ 32" "w * j + w \<le> 2 ^ 32"
      using assms j by (metis Suc_leI add.commute mult_Suc_right mult_le_mono2 order_trans)+
    have "ld (st (p + of_nat (w * i)) v m) (p + of_nat (w * j)) = ld m (p + of_nat (w * j))"
    proof (rule ld_cong)
      fix k assume k: "k < w"
      have "\<not> (w * i \<le> w * j + k \<and> w * j + k < w * i + w)"
      proof
        assume "w * i \<le> w * j + k \<and> w * j + k < w * i + w"
        then have "w * i < w * Suc j" "w * j < w * Suc i" using k by simp_all
        then have "i < Suc j" "j < Suc i" by (simp_all del: mult_Suc_right)
        with False show False by simp
      qed
      then have "st (p + of_nat (w * i)) v m (p + of_nat (w * j + k)) = m (p + of_nat (w * j + k))"
        using k wi by (intro st_frame) simp_all
      then show "st (p + of_nat (w * i)) v m (p + of_nat (w * j) + of_nat k)
          = m (p + of_nat (w * j) + of_nat k)" by (simp add: ac_simps)
    qed
    with False j show ?thesis by simp
  qed
qed simp

text \<open>The bytes of an array in memory.\<close>

lemma region_bytes:
  "concat (map bytes (region m p n)) = map (\<lambda>k. m (p + of_nat k)) [0..<w * n]"
proof (induction n)
  case (Suc n)
  have "region m p (Suc n) = region m p n @ [ld m (p + of_nat (w * n))]" by (simp add: region_def)
  moreover have "[0..<w * Suc n] = [0..<w * n] @ map (\<lambda>k. w * n + k) [0..<w]"
    by (rule nth_equalityI) (auto simp: nth_append)
  ultimately show ?case using Suc by (simp add: ld_bytes ac_simps comp_def)
qed (simp add: region_def)

text \<open>A loop of element updates in memory is the same loop on the array.\<close>

definition update_loop :: "u32 \<Rightarrow> (nat \<Rightarrow> bool) \<Rightarrow> (nat \<Rightarrow> nat) \<Rightarrow> (nat \<Rightarrow> 'a \<Rightarrow> 'a) \<Rightarrow> nat list \<Rightarrow> vmem \<Rightarrow> vmem" where
  "update_loop p en idx f is m =
     fold (\<lambda>i m. if en i
       then st (p + of_nat (w * idx i)) (f i (ld m (p + of_nat (w * idx i)))) m else m) is m"

lemma region_update_loop:
  assumes "\<And>i. i \<in> set is \<Longrightarrow> en i \<Longrightarrow> idx i < n" and "w * n \<le> 2 ^ 32"
  shows "region (update_loop p en idx f is m) p n =
     fold (\<lambda>i xs. if en i then xs[idx i := f i (xs ! idx i)] else xs) is (region m p n)"
  using assms(1)
proof (induction "is" arbitrary: m)
  case (Cons i "is")
  have "region (if en i then st (p + of_nat (w * idx i)) (f i (ld m (p + of_nat (w * idx i)))) m else m) p n =
    (if en i then (region m p n)[idx i := f i (region m p n ! idx i)] else region m p n)"
    using Cons.prems assms(2) by (simp add: region_st del: of_nat_mult)
  with Cons show ?case by (simp add: update_loop_def)
qed (simp add: update_loop_def)

lemma update_loop_frame:
  assumes "\<And>i. i \<in> set is \<Longrightarrow> en i \<Longrightarrow> idx i < n" and "w * n \<le> 2 ^ 32"
    and "\<And>k. k < w * n \<Longrightarrow> a \<noteq> p + of_nat k"
  shows "update_loop p en idx f is m a = m a"
  using assms(1)
proof (induction "is" arbitrary: m)
  case (Cons i "is")
  have "st (p + of_nat (w * idx i)) v m a = m a" if "en i" for v
  proof (rule st_outside)
    fix k assume k: "k < w"
    have "idx i < n" using Cons.prems that by simp
    then have "w * idx i + w \<le> w * n" by (metis Suc_leI add.commute mult_Suc_right mult_le_mono2)
    then have "w * idx i + k < w * n" using k by linarith
    from assms(3) [OF this] show "a \<noteq> p + of_nat (w * idx i) + of_nat k" by (simp add: ac_simps)
  qed
  with Cons show ?case by (simp add: update_loop_def)
qed (simp add: update_loop_def)

end

lemma load16_bytes: "bytes16 (load16 m p) = map (\<lambda>k. m (p + of_nat k)) [0..<2]"
  by (simp add: bytes16_def load16_def bytes_of_bytes16 upt_rec)

lemma load32_bytes: "bytes32 (load32 m p) = map (\<lambda>k. m (p + of_nat k)) [0..<4]"
  by (simp add: bytes32_def load32_def bytes_of_bytes32 upt_rec)

interpretation e16: elem_access load16 store16 bytes16 2
proof unfold_locales
  show "store16 p v m a = m a" if "\<And>k. k < 2 \<Longrightarrow> a \<noteq> p + of_nat k" for p v m a
    using that [of 0] that [of 1] by (simp add: store16_def)
  show "load16 m p = load16 m' q" if "\<And>k. k < 2 \<Longrightarrow> m (p + of_nat k) = m' (q + of_nat k)" for m p m' q
    using that [of 0] that [of 1] by (simp add: load16_def)
qed (simp_all add: load16_def store16_def of_bytes16_bytes load16_bytes [unfolded load16_def])

interpretation e32: elem_access load32 store32 bytes32 4
proof unfold_locales
  show "store32 p v m a = m a" if "\<And>k. k < 4 \<Longrightarrow> a \<noteq> p + of_nat k" for p v m a
    using that [of 0] that [of 1] that [of 2] that [of 3] by (simp add: store32_def)
  show "load32 m p = load32 m' q" if "\<And>k. k < 4 \<Longrightarrow> m (p + of_nat k) = m' (q + of_nat k)" for m p m' q
    using that [of 0] that [of 1] that [of 2] that [of 3] by (simp add: load32_def)
qed (simp_all add: load32_def store32_def of_bytes32_bytes load32_bytes [unfolded load32_def])

section \<open>Vectors\<close>

text \<open>A vector is its 128 bytes; \<open>hlane\<close> and \<open>wlane\<close> are its half word and word lanes.\<close>

type_synonym HVX_Vector = "u8 list"
type_synonym HVX_VectorPair = "HVX_Vector \<times> HVX_Vector"
type_synonym HVX_VectorPred = "bool list"

definition hlane :: "HVX_Vector \<Rightarrow> nat \<Rightarrow> u16" where
  "hlane v i = of_bytes16 (v ! (2 * i)) (v ! (2 * i + 1))"

definition wlane :: "HVX_Vector \<Rightarrow> nat \<Rightarrow> u32" where
  "wlane v i = of_bytes32 (v ! (4 * i)) (v ! (4 * i + 1)) (v ! (4 * i + 2)) (v ! (4 * i + 3))"

definition vec_of_halves :: "u16 list \<Rightarrow> HVX_Vector" where
  "vec_of_halves xs = concat (map bytes16 xs)"

definition vec_of_words :: "u32 list \<Rightarrow> HVX_Vector" where
  "vec_of_words xs = concat (map bytes32 xs)"

text \<open>Loads and stores of a whole vector.\<close>

definition load_vec :: "vmem \<Rightarrow> u32 \<Rightarrow> HVX_Vector" where
  "load_vec m a = map (\<lambda>i. m (a + of_nat i)) [0..<128]"

definition store_vec :: "u32 \<Rightarrow> HVX_Vector \<Rightarrow> vmem \<Rightarrow> vmem" where
  "store_vec a v m = (\<lambda>x. if unat (x - a) < length v then v ! unat (x - a) else m x)"

lemma length_bytes16 [simp]: "length (bytes16 v) = 2"
  by (simp add: bytes16_def)

lemma length_bytes32 [simp]: "length (bytes32 v) = 4"
  by (simp add: bytes32_def)

lemma nth_concat_uniform:
  "(\<And>x. length (f x) = w) \<Longrightarrow> i < length xs \<Longrightarrow> k < w \<Longrightarrow>
   concat (map f xs) ! (w * i + k) = f (xs ! i) ! k"
proof (induction xs arbitrary: i)
  case (Cons x xs)
  then show ?case by (cases i) (auto simp: nth_append)
qed simp

lemma length_concat_uniform: "(\<And>x. length (f x) = w) \<Longrightarrow> length (concat (map f xs)) = w * length xs"
  by (induction xs) auto

lemma length_vec_of_halves [simp]: "length (vec_of_halves xs) = 2 * length xs"
  unfolding vec_of_halves_def by (rule length_concat_uniform) simp

lemma length_vec_of_words [simp]: "length (vec_of_words xs) = 4 * length xs"
  unfolding vec_of_words_def by (rule length_concat_uniform) simp

lemma vec_of_halves_nth:
  assumes "i < length xs"
  shows "vec_of_halves xs ! (2 * i) = ucast (xs ! i)"
    "vec_of_halves xs ! Suc (2 * i) = ucast (drop_bit 8 (xs ! i))"
  using nth_concat_uniform [of bytes16 2 i xs 0] nth_concat_uniform [of bytes16 2 i xs 1] assms
  by (simp_all add: vec_of_halves_def bytes16_def)

lemma hlane_vec_of_halves [simp]: "i < length xs \<Longrightarrow> hlane (vec_of_halves xs) i = xs ! i"
  by (simp add: hlane_def vec_of_halves_nth of_bytes16_bytes)

lemma wlane_vec_of_words [simp]:
  assumes "i < length xs"
  shows "wlane (vec_of_words xs) i = xs ! i"
  using nth_concat_uniform [of bytes32 4 i xs 0] nth_concat_uniform [of bytes32 4 i xs 1]
    nth_concat_uniform [of bytes32 4 i xs 2] nth_concat_uniform [of bytes32 4 i xs 3] assms
  by (simp add: wlane_def vec_of_words_def bytes32_def of_bytes32_bytes)

section \<open>The scatter/gather intrinsics\<close>

text \<open>
  What a scatter does: for each enabled lane whose offset is within the region length, update the
  element at base plus offset.  What a gather does: for each such lane, copy the element at base
  plus offset to the lane's place in the destination vector, all reads before all writes.
\<close>

definition scatter_sem ::
  "(u32 \<Rightarrow> 'a \<Rightarrow> vmem \<Rightarrow> vmem) \<Rightarrow> (vmem \<Rightarrow> u32 \<Rightarrow> 'a) \<Rightarrow> u32 \<Rightarrow> u32 \<Rightarrow> (nat \<Rightarrow> u32) \<Rightarrow> (nat \<Rightarrow> bool) \<Rightarrow>
   (nat \<Rightarrow> 'a \<Rightarrow> 'a) \<Rightarrow> nat \<Rightarrow> vmem \<Rightarrow> vmem" where
  "scatter_sem st ld b len offs en f n m =
     fold (\<lambda>i m. if en i \<and> offs i \<le> len then st (b + offs i) (f i (ld m (b + offs i))) m else m) [0..<n] m"

definition gather_sem ::
  "(u32 \<Rightarrow> 'a \<Rightarrow> vmem \<Rightarrow> vmem) \<Rightarrow> (vmem \<Rightarrow> u32 \<Rightarrow> 'a) \<Rightarrow> nat \<Rightarrow> u32 \<Rightarrow> u32 \<Rightarrow> u32 \<Rightarrow> (nat \<Rightarrow> u32) \<Rightarrow>
   (nat \<Rightarrow> bool) \<Rightarrow> nat \<Rightarrow> vmem \<Rightarrow> vmem" where
  "gather_sem st ld w dst b len offs en n m =
     fold (\<lambda>i m'. if en i \<and> offs i \<le> len then st (dst + of_nat (w * i)) (ld m (b + offs i)) m' else m') [0..<n] m"

text \<open>Lane \<open>k\<close> of the forms with a pair of word offset vectors takes its offset from the vector
  \<open>k mod 2\<close>.\<close>

definition pair_offset :: "HVX_VectorPair \<Rightarrow> nat \<Rightarrow> u32" where
  "pair_offset ov k = wlane (if even k then fst ov else snd ov) (k div 2)"

record hvx_ops =
  vscatter_RMVhV :: "u32 \<Rightarrow> u32 \<Rightarrow> HVX_Vector \<Rightarrow> HVX_Vector \<Rightarrow> vmem \<Rightarrow> vmem"
  vscatteracc_RMVhV :: "u32 \<Rightarrow> u32 \<Rightarrow> HVX_Vector \<Rightarrow> HVX_Vector \<Rightarrow> vmem \<Rightarrow> vmem"
  vscatter_QRMVhV :: "HVX_VectorPred \<Rightarrow> u32 \<Rightarrow> u32 \<Rightarrow> HVX_Vector \<Rightarrow> HVX_Vector \<Rightarrow> vmem \<Rightarrow> vmem"
  vscatter_RMVwV :: "u32 \<Rightarrow> u32 \<Rightarrow> HVX_Vector \<Rightarrow> HVX_Vector \<Rightarrow> vmem \<Rightarrow> vmem"
  vscatteracc_RMVwV :: "u32 \<Rightarrow> u32 \<Rightarrow> HVX_Vector \<Rightarrow> HVX_Vector \<Rightarrow> vmem \<Rightarrow> vmem"
  vscatter_QRMVwV :: "HVX_VectorPred \<Rightarrow> u32 \<Rightarrow> u32 \<Rightarrow> HVX_Vector \<Rightarrow> HVX_Vector \<Rightarrow> vmem \<Rightarrow> vmem"
  vscatter_RMWwV :: "u32 \<Rightarrow> u32 \<Rightarrow> HVX_VectorPair \<Rightarrow> HVX_Vector \<Rightarrow> vmem \<Rightarrow> vmem"
  vscatteracc_RMWwV :: "u32 \<Rightarrow> u32 \<Rightarrow> HVX_VectorPair \<Rightarrow> HVX_Vector \<Rightarrow> vmem \<Rightarrow> vmem"
  vscatter_QRMWwV :: "HVX_VectorPred \<Rightarrow> u32 \<Rightarrow> u32 \<Rightarrow> HVX_VectorPair \<Rightarrow> HVX_Vector \<Rightarrow> vmem \<Rightarrow> vmem"
  vgather_ARMVh :: "u32 \<Rightarrow> u32 \<Rightarrow> u32 \<Rightarrow> HVX_Vector \<Rightarrow> vmem \<Rightarrow> vmem"
  vgather_AQRMVh :: "u32 \<Rightarrow> HVX_VectorPred \<Rightarrow> u32 \<Rightarrow> u32 \<Rightarrow> HVX_Vector \<Rightarrow> vmem \<Rightarrow> vmem"
  vgather_ARMVw :: "u32 \<Rightarrow> u32 \<Rightarrow> u32 \<Rightarrow> HVX_Vector \<Rightarrow> vmem \<Rightarrow> vmem"
  vgather_AQRMVw :: "u32 \<Rightarrow> HVX_VectorPred \<Rightarrow> u32 \<Rightarrow> u32 \<Rightarrow> HVX_Vector \<Rightarrow> vmem \<Rightarrow> vmem"
  vgather_ARMWw :: "u32 \<Rightarrow> u32 \<Rightarrow> u32 \<Rightarrow> HVX_VectorPair \<Rightarrow> vmem \<Rightarrow> vmem"
  vgather_AQRMWw :: "u32 \<Rightarrow> HVX_VectorPred \<Rightarrow> u32 \<Rightarrow> u32 \<Rightarrow> HVX_VectorPair \<Rightarrow> vmem \<Rightarrow> vmem"
  vand_VR :: "HVX_Vector \<Rightarrow> u32 \<Rightarrow> HVX_VectorPred"
  vshuff_Vh :: "HVX_Vector \<Rightarrow> HVX_Vector"
  vdeal_Vh :: "HVX_Vector \<Rightarrow> HVX_Vector"
  vsplat_R :: "u32 \<Rightarrow> HVX_Vector"
  scatter_release :: "u32 \<Rightarrow> vmem \<Rightarrow> vmem"

text \<open>The conditions under which the documented behaviour is relied on.\<close>

definition vec_ok :: "HVX_Vector \<Rightarrow> bool" where
  "vec_ok v \<longleftrightarrow> length v = 128"

definition aligned :: "nat \<Rightarrow> u32 \<Rightarrow> bool" where
  "aligned w a \<longleftrightarrow> unat a mod w = 0"

definition offsets_ok :: "nat \<Rightarrow> nat \<Rightarrow> (nat \<Rightarrow> u32) \<Rightarrow> bool" where
  "offsets_ok w n offs \<longleftrightarrow> (\<forall>i<n. aligned w (offs i))"

text \<open>All bytes of a lane carry the same predicate.\<close>

definition uniform_pred :: "nat \<Rightarrow> HVX_VectorPred \<Rightarrow> bool" where
  "uniform_pred w q \<longleftrightarrow> length q = 128 \<and> (\<forall>k<128. q ! k = q ! (w * (k div w)))"

abbreviation hoffs :: "HVX_Vector \<Rightarrow> nat \<Rightarrow> u32" where
  "hoffs ov i \<equiv> ucast (hlane ov i)"

locale hvx_unit =
  fixes ops :: hvx_ops
  assumes scatter_h:
    "aligned 2 b \<Longrightarrow> vec_ok v \<Longrightarrow> vec_ok ov \<Longrightarrow> offsets_ok 2 64 (hoffs ov) \<Longrightarrow>
     vscatter_RMVhV ops b len ov v m =
       scatter_sem store16 load16 b len (hoffs ov) (\<lambda>_. True) (\<lambda>i _. hlane v i) 64 m"
  and scatteracc_h:
    "aligned 2 b \<Longrightarrow> vec_ok v \<Longrightarrow> vec_ok ov \<Longrightarrow> offsets_ok 2 64 (hoffs ov) \<Longrightarrow>
     vscatteracc_RMVhV ops b len ov v m =
       scatter_sem store16 load16 b len (hoffs ov) (\<lambda>_. True) (\<lambda>i x. x + hlane v i) 64 m"
  and scatter_q_h:
    "aligned 2 b \<Longrightarrow> vec_ok v \<Longrightarrow> vec_ok ov \<Longrightarrow> offsets_ok 2 64 (hoffs ov) \<Longrightarrow> uniform_pred 2 q \<Longrightarrow>
     vscatter_QRMVhV ops q b len ov v m =
       scatter_sem store16 load16 b len (hoffs ov) (\<lambda>i. q ! (2 * i)) (\<lambda>i _. hlane v i) 64 m"
  and scatter_w:
    "aligned 4 b \<Longrightarrow> vec_ok v \<Longrightarrow> vec_ok ov \<Longrightarrow> offsets_ok 4 32 (wlane ov) \<Longrightarrow>
     vscatter_RMVwV ops b len ov v m =
       scatter_sem store32 load32 b len (wlane ov) (\<lambda>_. True) (\<lambda>i _. wlane v i) 32 m"
  and scatteracc_w:
    "aligned 4 b \<Longrightarrow> vec_ok v \<Longrightarrow> vec_ok ov \<Longrightarrow> offsets_ok 4 32 (wlane ov) \<Longrightarrow>
     vscatteracc_RMVwV ops b len ov v m =
       scatter_sem store32 load32 b len (wlane ov) (\<lambda>_. True) (\<lambda>i x. x + wlane v i) 32 m"
  and scatter_q_w:
    "aligned 4 b \<Longrightarrow> vec_ok v \<Longrightarrow> vec_ok ov \<Longrightarrow> offsets_ok 4 32 (wlane ov) \<Longrightarrow> uniform_pred 4 q \<Longrightarrow>
     vscatter_QRMVwV ops q b len ov v m =
       scatter_sem store32 load32 b len (wlane ov) (\<lambda>i. q ! (4 * i)) (\<lambda>i _. wlane v i) 32 m"
  and scatter_ww:
    "aligned 2 b \<Longrightarrow> vec_ok v \<Longrightarrow> vec_ok (fst p) \<Longrightarrow> vec_ok (snd p) \<Longrightarrow> offsets_ok 2 64 (pair_offset p) \<Longrightarrow>
     vscatter_RMWwV ops b len p v m =
       scatter_sem store16 load16 b len (pair_offset p) (\<lambda>_. True) (\<lambda>i _. hlane v i) 64 m"
  and scatteracc_ww:
    "aligned 2 b \<Longrightarrow> vec_ok v \<Longrightarrow> vec_ok (fst p) \<Longrightarrow> vec_ok (snd p) \<Longrightarrow> offsets_ok 2 64 (pair_offset p) \<Longrightarrow>
     vscatteracc_RMWwV ops b len p v m =
       scatter_sem store16 load16 b len (pair_offset p) (\<lambda>_. True) (\<lambda>i x. x + hlane v i) 64 m"
  and scatter_q_ww:
    "aligned 2 b \<Longrightarrow> vec_ok v \<Longrightarrow> vec_ok (fst p) \<Longrightarrow> vec_ok (snd p) \<Longrightarrow> offsets_ok 2 64 (pair_offset p) \<Longrightarrow>
     uniform_pred 2 q \<Longrightarrow>
     vscatter_QRMWwV ops q b len p v m =
       scatter_sem store16 load16 b len (pair_offset p) (\<lambda>i. q ! (2 * i)) (\<lambda>i _. hlane v i) 64 m"
  and gather_h:
    "aligned 128 d \<Longrightarrow> aligned 2 b \<Longrightarrow> vec_ok ov \<Longrightarrow> offsets_ok 2 64 (hoffs ov) \<Longrightarrow>
     vgather_ARMVh ops d b len ov m = gather_sem store16 load16 2 d b len (hoffs ov) (\<lambda>_. True) 64 m"
  and gather_q_h:
    "aligned 128 d \<Longrightarrow> aligned 2 b \<Longrightarrow> vec_ok ov \<Longrightarrow> offsets_ok 2 64 (hoffs ov) \<Longrightarrow> uniform_pred 2 q \<Longrightarrow>
     vgather_AQRMVh ops d q b len ov m =
       gather_sem store16 load16 2 d b len (hoffs ov) (\<lambda>i. q ! (2 * i)) 64 m"
  and gather_w:
    "aligned 128 d \<Longrightarrow> aligned 4 b \<Longrightarrow> vec_ok ov \<Longrightarrow> offsets_ok 4 32 (wlane ov) \<Longrightarrow>
     vgather_ARMVw ops d b len ov m = gather_sem store32 load32 4 d b len (wlane ov) (\<lambda>_. True) 32 m"
  and gather_q_w:
    "aligned 128 d \<Longrightarrow> aligned 4 b \<Longrightarrow> vec_ok ov \<Longrightarrow> offsets_ok 4 32 (wlane ov) \<Longrightarrow> uniform_pred 4 q \<Longrightarrow>
     vgather_AQRMVw ops d q b len ov m =
       gather_sem store32 load32 4 d b len (wlane ov) (\<lambda>i. q ! (4 * i)) 32 m"
  and gather_ww:
    "aligned 128 d \<Longrightarrow> aligned 2 b \<Longrightarrow> vec_ok (fst p) \<Longrightarrow> vec_ok (snd p) \<Longrightarrow> offsets_ok 2 64 (pair_offset p) \<Longrightarrow>
     vgather_ARMWw ops d b len p m =
       gather_sem store16 load16 2 d b len (pair_offset p) (\<lambda>_. True) 64 m"
  and gather_q_ww:
    "aligned 128 d \<Longrightarrow> aligned 2 b \<Longrightarrow> vec_ok (fst p) \<Longrightarrow> vec_ok (snd p) \<Longrightarrow> offsets_ok 2 64 (pair_offset p) \<Longrightarrow>
     uniform_pred 2 q \<Longrightarrow>
     vgather_AQRMWw ops d q b len p m =
       gather_sem store16 load16 2 d b len (pair_offset p) (\<lambda>i. q ! (2 * i)) 64 m"
  and vand:
    "vec_ok v \<Longrightarrow> vand_VR ops v r = map (\<lambda>i. v ! i AND bytes32 r ! (i mod 4) \<noteq> 0) [0..<128]"
  and vshuff:
    "vec_ok v \<Longrightarrow> vshuff_Vh ops v =
       vec_of_halves (map (\<lambda>k. hlane v (k div 2 + 32 * (k mod 2))) [0..<64])"
  and vdeal:
    "vec_ok v \<Longrightarrow> vdeal_Vh ops v =
       vec_of_halves (map (\<lambda>k. hlane v (if k < 32 then 2 * k else 2 * (k - 32) + 1)) [0..<64])"
  and vsplat: "vsplat_R ops r = vec_of_halves (replicate 64 (ucast r))"
  and release: "scatter_release ops a m = m"
begin

text \<open>Dealing undoes shuffling.\<close>

lemma deal_shuff:
  assumes "vec_ok v" and "k < 64"
  shows "hlane (vdeal_Vh ops (vshuff_Vh ops v)) k = hlane v k"
proof -
  have "vec_ok (vshuff_Vh ops v)" by (simp add: vshuff [OF assms(1)] vec_ok_def)
  then have "hlane (vdeal_Vh ops (vshuff_Vh ops v)) k =
      hlane (vshuff_Vh ops v) (if k < 32 then 2 * k else 2 * (k - 32) + 1)"
    using assms(2) by (simp add: vdeal)
  also have "\<dots> = hlane v k"
    using assms by (auto simp: vshuff)
  finally show ?thesis .
qed

text \<open>A predicate made from lanes that are all ones or all zeros.\<close>

lemma bytes32_ones: "bytes32 (- 1) ! (k mod 4) = - 1"
proof -
  have "k mod 4 \<in> {0, 1, 2, 3}" by auto
  moreover have "(ucast (- 1 :: u32) :: u8) = - 1" "(ucast (drop_bit 8 (- 1 :: u32)) :: u8) = - 1"
    "(ucast (drop_bit 16 (- 1 :: u32)) :: u8) = - 1" "(ucast (drop_bit 24 (- 1 :: u32)) :: u8) = - 1"
    by (rule bit_word_eqI, simp add: bit_ucast_iff bit_drop_bit_eq bit_mask_iff)+
  ultimately show ?thesis by (auto simp: bytes32_def)
qed

lemma vand_halves:
  assumes "length xs = 64" and "set xs \<subseteq> {0, - 1}"
  shows "uniform_pred 2 (vand_VR ops (vec_of_halves xs) (- 1))"
    and "i < 64 \<Longrightarrow> vand_VR ops (vec_of_halves xs) (- 1) ! (2 * i) = (xs ! i \<noteq> 0)"
proof -
  have ok: "vec_ok (vec_of_halves xs)" using assms(1) by (simp add: vec_ok_def)
  have byte: "vec_of_halves xs ! k \<noteq> 0 \<longleftrightarrow> xs ! (k div 2) \<noteq> 0" if "k < 128" for k
  proof -
    have i: "k div 2 < length xs" using that assms(1) by simp
    have "k mod 2 < 2" by simp
    from nth_concat_uniform [of bytes16 2, OF length_bytes16 i this]
    have "vec_of_halves xs ! k = bytes16 (xs ! (k div 2)) ! (k mod 2)"
      by (simp add: vec_of_halves_def)
    moreover have "xs ! (k div 2) \<in> {0, - 1}" using assms(2) i nth_mem by blast
    moreover have "(ucast (- 1 :: u16) :: u8) = - 1" "(ucast (drop_bit 8 (- 1 :: u16)) :: u8) = - 1"
      by (rule bit_word_eqI, simp add: bit_ucast_iff bit_drop_bit_eq bit_mask_iff)+
    ultimately show ?thesis by (auto simp: bytes16_def nth_Cons' )
  qed
  have q: "vand_VR ops (vec_of_halves xs) (- 1) ! k = (xs ! (k div 2) \<noteq> 0)" if "k < 128" for k
    using that byte [OF that] by (simp add: vand [OF ok] bytes32_ones)
  show "uniform_pred 2 (vand_VR ops (vec_of_halves xs) (- 1))"
    using q by (auto simp: uniform_pred_def vand [OF ok])
  show "vand_VR ops (vec_of_halves xs) (- 1) ! (2 * i) = (xs ! i \<noteq> 0)" if "i < 64"
    using that q [of "2 * i"] by simp
qed

lemma vand_words:
  assumes "length xs = 32" and "set xs \<subseteq> {0, - 1}"
  shows "uniform_pred 4 (vand_VR ops (vec_of_words xs) (- 1))"
    and "i < 32 \<Longrightarrow> vand_VR ops (vec_of_words xs) (- 1) ! (4 * i) = (xs ! i \<noteq> 0)"
proof -
  have ok: "vec_ok (vec_of_words xs)" using assms(1) by (simp add: vec_ok_def)
  have byte: "vec_of_words xs ! k \<noteq> 0 \<longleftrightarrow> xs ! (k div 4) \<noteq> 0" if "k < 128" for k
  proof -
    have i: "k div 4 < length xs" using that assms(1) by simp
    have "k mod 4 < 4" by simp
    from nth_concat_uniform [of bytes32 4, OF length_bytes32 i this]
    have "vec_of_words xs ! k = bytes32 (xs ! (k div 4)) ! (k mod 4)"
      by (simp add: vec_of_words_def)
    moreover have "xs ! (k div 4) \<in> {0, - 1}" using assms(2) i nth_mem by blast
    moreover have "bytes32 0 ! (k mod 4) = 0"
    proof -
      have "k mod 4 \<in> {0, 1, 2, 3}" by auto
      then show ?thesis by (auto simp: bytes32_def)
    qed
    ultimately show ?thesis using bytes32_ones [of k] by auto
  qed
  have q: "vand_VR ops (vec_of_words xs) (- 1) ! k = (xs ! (k div 4) \<noteq> 0)" if "k < 128" for k
    using that byte [OF that] by (simp add: vand [OF ok] bytes32_ones)
  show "uniform_pred 4 (vand_VR ops (vec_of_words xs) (- 1))"
    using q by (auto simp: uniform_pred_def vand [OF ok])
  show "vand_VR ops (vec_of_words xs) (- 1) ! (4 * i) = (xs ! i \<noteq> 0)" if "i < 32"
    using that q [of "4 * i"] by simp
qed

end

text \<open>The documented behaviour as functions.\<close>

definition hvx_model :: hvx_ops where
  "hvx_model = \<lparr>
     vscatter_RMVhV = (\<lambda>b len ov v.
       scatter_sem store16 load16 b len (hoffs ov) (\<lambda>_. True) (\<lambda>i _. hlane v i) 64),
     vscatteracc_RMVhV = (\<lambda>b len ov v.
       scatter_sem store16 load16 b len (hoffs ov) (\<lambda>_. True) (\<lambda>i x. x + hlane v i) 64),
     vscatter_QRMVhV = (\<lambda>q b len ov v.
       scatter_sem store16 load16 b len (hoffs ov) (\<lambda>i. q ! (2 * i)) (\<lambda>i _. hlane v i) 64),
     vscatter_RMVwV = (\<lambda>b len ov v.
       scatter_sem store32 load32 b len (wlane ov) (\<lambda>_. True) (\<lambda>i _. wlane v i) 32),
     vscatteracc_RMVwV = (\<lambda>b len ov v.
       scatter_sem store32 load32 b len (wlane ov) (\<lambda>_. True) (\<lambda>i x. x + wlane v i) 32),
     vscatter_QRMVwV = (\<lambda>q b len ov v.
       scatter_sem store32 load32 b len (wlane ov) (\<lambda>i. q ! (4 * i)) (\<lambda>i _. wlane v i) 32),
     vscatter_RMWwV = (\<lambda>b len p v.
       scatter_sem store16 load16 b len (pair_offset p) (\<lambda>_. True) (\<lambda>i _. hlane v i) 64),
     vscatteracc_RMWwV = (\<lambda>b len p v.
       scatter_sem store16 load16 b len (pair_offset p) (\<lambda>_. True) (\<lambda>i x. x + hlane v i) 64),
     vscatter_QRMWwV = (\<lambda>q b len p v.
       scatter_sem store16 load16 b len (pair_offset p) (\<lambda>i. q ! (2 * i)) (\<lambda>i _. hlane v i) 64),
     vgather_ARMVh = (\<lambda>d b len ov. gather_sem store16 load16 2 d b len (hoffs ov) (\<lambda>_. True) 64),
     vgather_AQRMVh = (\<lambda>d q b len ov.
       gather_sem store16 load16 2 d b len (hoffs ov) (\<lambda>i. q ! (2 * i)) 64),
     vgather_ARMVw = (\<lambda>d b len ov. gather_sem store32 load32 4 d b len (wlane ov) (\<lambda>_. True) 32),
     vgather_AQRMVw = (\<lambda>d q b len ov.
       gather_sem store32 load32 4 d b len (wlane ov) (\<lambda>i. q ! (4 * i)) 32),
     vgather_ARMWw = (\<lambda>d b len p. gather_sem store16 load16 2 d b len (pair_offset p) (\<lambda>_. True) 64),
     vgather_AQRMWw = (\<lambda>d q b len p.
       gather_sem store16 load16 2 d b len (pair_offset p) (\<lambda>i. q ! (2 * i)) 64),
     vand_VR = (\<lambda>v r. map (\<lambda>i. v ! i AND bytes32 r ! (i mod 4) \<noteq> 0) [0..<128]),
     vshuff_Vh = (\<lambda>v. vec_of_halves (map (\<lambda>k. hlane v (k div 2 + 32 * (k mod 2))) [0..<64])),
     vdeal_Vh = (\<lambda>v. vec_of_halves
       (map (\<lambda>k. hlane v (if k < 32 then 2 * k else 2 * (k - 32) + 1)) [0..<64])),
     vsplat_R = (\<lambda>r. vec_of_halves (replicate 64 (ucast r))),
     scatter_release = (\<lambda>a m. m) \<rparr>"

interpretation hvx: hvx_unit hvx_model
  by unfold_locales (simp_all add: hvx_model_def)

end
