(* ===== verification/Cfgtable.thy ===== *)
theory Cfgtable
  imports Hex_Prelude
begin

text \<open>The reads of the configuration table, \<^verbatim>\<open>include/cfgtable.h\<close>: the register \<open>cfgbase\<close> and the physical word load \<open>memw_phys\<close>.\<close>

record cfgtable =
  cfgbase :: u32
  memw_phys :: "u32 \<Rightarrow> u32 \<Rightarrow> u32"

definition read_cfgtable_field :: "cfgtable \<Rightarrow> u32 \<Rightarrow> u32" where
  "read_cfgtable_field cfg off = memw_phys cfg off (push_bit 5 (cfgbase cfg))"

definition get_vtcm_base :: "cfgtable \<Rightarrow> u32" where
  "get_vtcm_base cfg = push_bit 16 (read_cfgtable_field cfg 0x38)"

definition GET_SUBSYSTEM_BASE :: "cfgtable \<Rightarrow> u32" where
  "GET_SUBSYSTEM_BASE cfg = push_bit 16 (read_cfgtable_field cfg 0x8)"

definition GET_FASTL2VIC_BASE :: "cfgtable \<Rightarrow> u32" where
  "GET_FASTL2VIC_BASE cfg = push_bit 16 (read_cfgtable_field cfg 0x28)"

end
