(* ===== verification/Scatter_Gather.thy ===== *)
theory Scatter_Gather
  imports Hvx Tlb_Runtime Min_Libc Cfgtable
begin

text \<open>
  \<open>src/standalone_vec.c\<close>: scatters and gathers through the vector unit are compared
  with scalar loops.  The record \<open>sg\<close> holds the program's static variables, the
  addresses computed by \<open>setup_tcm\<close>, the memory \<open>vm\<close> that contains the VTCM, and
  the state of the TLB runtime.  A store or load of an array element outside the
  array is undefined (\<open>None\<close>).  The messages of \<open>check_buffer\<close> and the final
  verdict are recorded in \<open>out\<close>.  The build is the standalone one:
  \<open>__hexagon__\<close> without \<open>__linux__\<close>, architecture 66 or later,
  \<open>SYNC_VECTOR\<close> 1, \<open>PRINT_CYCLE_COUNTS\<close> 0 and \<open>PRINT_DATA\<close> undefined.
\<close>

section \<open>State\<close>

datatype sg_message = Mismatch string nat u8 u8 | Verdict string

definition MATRIX_SIZE :: nat where "MATRIX_SIZE = 64"
definition SCATTER_BUFFER_SIZE :: nat where "SCATTER_BUFFER_SIZE = MATRIX_SIZE * MATRIX_SIZE"
definition SCATTER16_BUF_SIZE :: nat where "SCATTER16_BUF_SIZE = 2 * SCATTER_BUFFER_SIZE"
definition SCATTER32_BUF_SIZE :: nat where "SCATTER32_BUF_SIZE = 4 * SCATTER_BUFFER_SIZE"
definition GATHER16_BUF_SIZE :: nat where "GATHER16_BUF_SIZE = 2 * MATRIX_SIZE"
definition GATHER32_BUF_SIZE :: nat where "GATHER32_BUF_SIZE = 4 * MATRIX_SIZE"
definition SCRATCH_SIZE :: nat where "SCRATCH_SIZE = 0x8800"
definition FILL_CHAR :: u8 where "FILL_CHAR = 0x2e"
definition region_len :: u32 where "region_len = of_nat (4 * SCATTER_BUFFER_SIZE - 1)"

lemmas size_defs = MATRIX_SIZE_def SCATTER_BUFFER_SIZE_def SCATTER16_BUF_SIZE_def
  SCATTER32_BUF_SIZE_def GATHER16_BUF_SIZE_def GATHER32_BUF_SIZE_def SCRATCH_SIZE_def

record 'd sg =
  err :: int
  VTCM_BASE_ADDRESS :: u32
  VTCM_SCATTER16_ADDRESS :: u32
  VTCM_GATHER16_ADDRESS :: u32
  VTCM_SCATTER32_ADDRESS :: u32
  VTCM_GATHER32_ADDRESS :: u32
  VTCM_SCATTER16_32_ADDRESS :: u32
  VTCM_GATHER16_32_ADDRESS :: u32
  vscatter16_ref :: "u16 list"
  vgather16_ref :: "u16 list"
  vscatter32_ref :: "u32 list"
  vgather32_ref :: "u32 list"
  vscatter16_32_ref :: "u16 list"
  vgather16_32_ref :: "u16 list"
  half_offsets :: "u16 list"
  word_offsets :: "u32 list"
  half_values :: "u16 list"
  half_acc_values :: "u16 list"
  half_q_values :: "u16 list"
  word_values :: "u32 list"
  word_acc_values :: "u32 list"
  word_q_values :: "u32 list"
  half_predicates :: "u16 list"
  word_predicates :: "u32 list"
  vm :: vmem
  tlb :: "'d tlb_rt"
  out :: "sg_message list"

text \<open>The pointers \<open>vscatter16\<close>, \<open>vgather16\<close> and so on are set by \<open>setup_tcm\<close> to the
  addresses and never change.\<close>

abbreviation vscatter16 :: "'d sg \<Rightarrow> u32" where "vscatter16 \<equiv> VTCM_SCATTER16_ADDRESS"
abbreviation vgather16 :: "'d sg \<Rightarrow> u32" where "vgather16 \<equiv> VTCM_GATHER16_ADDRESS"
abbreviation vscatter32 :: "'d sg \<Rightarrow> u32" where "vscatter32 \<equiv> VTCM_SCATTER32_ADDRESS"
abbreviation vgather32 :: "'d sg \<Rightarrow> u32" where "vgather32 \<equiv> VTCM_GATHER32_ADDRESS"
abbreviation vscatter16_32 :: "'d sg \<Rightarrow> u32" where "vscatter16_32 \<equiv> VTCM_SCATTER16_32_ADDRESS"
abbreviation vgather16_32 :: "'d sg \<Rightarrow> u32" where "vgather16_32 \<equiv> VTCM_GATHER16_32_ADDRESS"

section \<open>Loops and arrays\<close>

text \<open>\<open>for (i = 0; i < n; i++) body\<close>\<close>

fun for_loop :: "nat \<Rightarrow> (nat \<Rightarrow> 's \<Rightarrow> 's option) \<Rightarrow> 's \<Rightarrow> 's option" where
  "for_loop 0 body s = Some s"
| "for_loop (Suc n) body s = Option.bind (for_loop n body s) (body n)"

definition set_elem :: "nat \<Rightarrow> 'a \<Rightarrow> 'a list \<Rightarrow> 'a list option" where
  "set_elem i v xs = (if i < length xs then Some (xs[i := v]) else None)"

definition get_elem :: "nat \<Rightarrow> 'a list \<Rightarrow> 'a option" where
  "get_elem i xs = (if i < length xs then Some (xs ! i) else None)"

text \<open>\<open>memset\<close> of an array of half words or words: every byte becomes the low byte of \<open>c\<close>.\<close>

definition fill16 :: "u32 \<Rightarrow> nat \<Rightarrow> u16 list" where
  "fill16 c n = replicate n (of_bytes16 (ucast c) (ucast c))"

definition fill32 :: "u32 \<Rightarrow> nat \<Rightarrow> u32 list" where
  "fill32 c n = replicate n (of_bytes32 (ucast c) (ucast c) (ucast c) (ucast c))"

section \<open>Inputs\<close>

definition prefill_vtcm_scratch :: "'d sg \<Rightarrow> 'd sg" where
  "prefill_vtcm_scratch s =
     s\<lparr>vm := (\<lambda>a. if unat (a - VTCM_BASE_ADDRESS s) < SCRATCH_SIZE then FILL_CHAR else vm s a)\<rparr>"

text \<open>\<open>for (j = 0; j < n; j++) element |= letter << j * 8\<close>\<close>

definition repeat_letter :: "nat \<Rightarrow> u32 \<Rightarrow> u32" where
  "repeat_letter n letter = fold (\<lambda>j e. e OR push_bit (j * 8) letter) [0..<n] 0"

definition create_offsets_and_values_16 :: "'d sg \<Rightarrow> 'd sg" where
  "create_offsets_and_values_16 s = fst (fold (\<lambda>i (s, letter).
     (s\<lparr>half_offsets := (half_offsets s)[i := of_nat (i * (2 * MATRIX_SIZE + 2))],
        half_values := (half_values s)[i := ucast (repeat_letter 2 letter)],
        half_acc_values := (half_acc_values s)[i := of_nat ((i mod 10) * 256 + i mod 10)],
        half_q_values := (half_q_values s)[i := ucast (repeat_letter 2 0x40)]\<rparr>,
      if letter + 1 = 0x4d then 0x41 else letter + 1)) [0..<MATRIX_SIZE] (s, 0x41))"

definition create_preds_16 :: "'d sg \<Rightarrow> 'd sg" where
  "create_preds_16 s = fold (\<lambda>i s.
     s\<lparr>half_predicates := (half_predicates s)[i := if i mod 3 = 0 \<or> i mod 5 = 0 then - 1 else 0]\<rparr>)
     [0..<MATRIX_SIZE] s"

definition create_offsets_and_values_32 :: "'d sg \<Rightarrow> 'd sg" where
  "create_offsets_and_values_32 s = fst (fold (\<lambda>i (s, letter).
     (s\<lparr>word_offsets := (word_offsets s)[i := of_nat (i * (4 * MATRIX_SIZE + 4))],
        word_values := (word_values s)[i := repeat_letter 4 letter],
        word_acc_values := (word_acc_values s)[i := of_nat ((i mod 10) * 256 + i mod 10)],
        word_q_values := (word_q_values s)[i := repeat_letter 4 0x26]\<rparr>,
      if letter + 1 = 0x4d then 0x41 else letter + 1)) [0..<MATRIX_SIZE] (s, 0x41))"

definition create_preds_32 :: "'d sg \<Rightarrow> 'd sg" where
  "create_preds_32 s = fold (\<lambda>i s.
     s\<lparr>word_predicates := (word_predicates s)[i := if i mod 4 = 0 \<or> i mod 7 = 0 then - 1 else 0]\<rparr>)
     [0..<MATRIX_SIZE] s"

definition create_offsets_and_values_16_32 :: "'d sg \<Rightarrow> 'd sg" where
  "create_offsets_and_values_16_32 s = fst (fold (\<lambda>i (s, letter).
     (s\<lparr>word_offsets := (word_offsets s)[i := of_nat (i * (2 * MATRIX_SIZE + 2))],
        half_values := (half_values s)[i := ucast (repeat_letter 2 letter)],
        half_acc_values := (half_acc_values s)[i := of_nat ((i mod 10) * 256 + i mod 10)],
        half_q_values := (half_q_values s)[i := ucast (repeat_letter 2 0x24)]\<rparr>,
      if letter + 1 = 0x50 then 0x44 else letter + 1)) [0..<MATRIX_SIZE] (s, 0x44))"

definition create_preds_16_32 :: "'d sg \<Rightarrow> 'd sg" where
  "create_preds_16_32 s = fold (\<lambda>i s.
     s\<lparr>half_predicates := (half_predicates s)[i := if i mod 2 = 0 \<or> i mod 13 = 0 then - 1 else 0]\<rparr>)
     [0..<MATRIX_SIZE] s"

section \<open>Vector versions\<close>

text \<open>\<open>*(HVX_Vector *)a\<close> for an array of 64 half words; for an array of 64 words the low and
  the high vector.\<close>

definition words_lo :: "u32 list \<Rightarrow> HVX_Vector" where
  "words_lo xs = vec_of_words (take (MATRIX_SIZE div 2) xs)"

definition words_hi :: "u32 list \<Rightarrow> HVX_Vector" where
  "words_hi xs = vec_of_words (drop (MATRIX_SIZE div 2) xs)"

definition words_pair :: "u32 list \<Rightarrow> HVX_VectorPair" where
  "words_pair xs = (words_lo xs, words_hi xs)"

definition vector_scatter_16 :: "hvx_ops \<Rightarrow> 'd sg \<Rightarrow> 'd sg" where
  "vector_scatter_16 ops s =
     (let offsets = vec_of_halves (half_offsets s);
          vals = vec_of_halves (half_values s);
          m = vscatter_RMVhV ops (VTCM_SCATTER16_ADDRESS s) region_len offsets vals (vm s);
          m = scatter_release ops (vscatter16 s) m
      in s\<lparr>vm := m\<rparr>)"

definition vector_scatter_acc_16 :: "hvx_ops \<Rightarrow> 'd sg \<Rightarrow> 'd sg" where
  "vector_scatter_acc_16 ops s =
     (let offsets = vec_of_halves (half_offsets s);
          vals = vec_of_halves (half_acc_values s);
          m = vscatteracc_RMVhV ops (VTCM_SCATTER16_ADDRESS s) region_len offsets vals (vm s);
          m = scatter_release ops (vscatter16 s) m
      in s\<lparr>vm := m\<rparr>)"

definition vector_scatter_q_16 :: "hvx_ops \<Rightarrow> 'd sg \<Rightarrow> 'd sg" where
  "vector_scatter_q_16 ops s =
     (let offsets = vec_of_halves (half_offsets s);
          vals = vec_of_halves (half_q_values s);
          pred_reg = vec_of_halves (half_predicates s);
          preds = vand_VR ops pred_reg (- 1);
          m = vscatter_QRMVhV ops preds (VTCM_SCATTER16_ADDRESS s) region_len offsets vals (vm s);
          m = scatter_release ops (vscatter16 s) m
      in s\<lparr>vm := m\<rparr>)"

definition vector_scatter_32 :: "hvx_ops \<Rightarrow> 'd sg \<Rightarrow> 'd sg" where
  "vector_scatter_32 ops s =
     (let m = vscatter_RMVwV ops (VTCM_SCATTER32_ADDRESS s) region_len
                (words_lo (word_offsets s)) (words_lo (word_values s)) (vm s);
          m = vscatter_RMVwV ops (VTCM_SCATTER32_ADDRESS s) region_len
                (words_hi (word_offsets s)) (words_hi (word_values s)) m;
          m = scatter_release ops (vscatter32 s) m
      in s\<lparr>vm := m\<rparr>)"

definition vector_scatter_acc_32 :: "hvx_ops \<Rightarrow> 'd sg \<Rightarrow> 'd sg" where
  "vector_scatter_acc_32 ops s =
     (let m = vscatteracc_RMVwV ops (VTCM_SCATTER32_ADDRESS s) region_len
                (words_lo (word_offsets s)) (words_lo (word_acc_values s)) (vm s);
          m = vscatteracc_RMVwV ops (VTCM_SCATTER32_ADDRESS s) region_len
                (words_hi (word_offsets s)) (words_hi (word_acc_values s)) m;
          m = scatter_release ops (vscatter32 s) m
      in s\<lparr>vm := m\<rparr>)"

text \<open>The release of the 32 bit scatter under predicate names the 16 bit buffer, as in the source.\<close>

definition vector_scatter_q_32 :: "hvx_ops \<Rightarrow> 'd sg \<Rightarrow> 'd sg" where
  "vector_scatter_q_32 ops s =
     (let predslo = vand_VR ops (words_lo (word_predicates s)) (- 1);
          predshi = vand_VR ops (words_hi (word_predicates s)) (- 1);
          m = vscatter_QRMVwV ops predslo (VTCM_SCATTER32_ADDRESS s) region_len
                (words_lo (word_offsets s)) (words_lo (word_q_values s)) (vm s);
          m = vscatter_QRMVwV ops predshi (VTCM_SCATTER32_ADDRESS s) region_len
                (words_hi (word_offsets s)) (words_hi (word_q_values s)) m;
          m = scatter_release ops (vscatter16 s) m
      in s\<lparr>vm := m\<rparr>)"

definition vector_scatter_16_32 :: "hvx_ops \<Rightarrow> 'd sg \<Rightarrow> 'd sg" where
  "vector_scatter_16_32 ops s =
     (let offsets = words_pair (word_offsets s);
          vals = vshuff_Vh ops (vec_of_halves (half_values s));
          m = vscatter_RMWwV ops (VTCM_SCATTER16_32_ADDRESS s) region_len offsets vals (vm s);
          m = scatter_release ops (vscatter16_32 s) m
      in s\<lparr>vm := m\<rparr>)"

definition vector_scatter_acc_16_32 :: "hvx_ops \<Rightarrow> 'd sg \<Rightarrow> 'd sg" where
  "vector_scatter_acc_16_32 ops s =
     (let offsets = words_pair (word_offsets s);
          vals = vshuff_Vh ops (vec_of_halves (half_acc_values s));
          m = vscatteracc_RMWwV ops (VTCM_SCATTER16_32_ADDRESS s) region_len offsets vals (vm s);
          m = scatter_release ops (vscatter16_32 s) m
      in s\<lparr>vm := m\<rparr>)"

definition vector_scatter_q_16_32 :: "hvx_ops \<Rightarrow> 'd sg \<Rightarrow> 'd sg" where
  "vector_scatter_q_16_32 ops s =
     (let offsets = words_pair (word_offsets s);
          vals = vshuff_Vh ops (vec_of_halves (half_q_values s));
          pred_reg = vshuff_Vh ops (vec_of_halves (half_predicates s));
          preds = vand_VR ops pred_reg (- 1);
          m = vscatter_QRMWwV ops preds (VTCM_SCATTER16_32_ADDRESS s) region_len offsets vals (vm s);
          m = scatter_release ops (vscatter16_32 s) m
      in s\<lparr>vm := m\<rparr>)"

definition vector_gather_16 :: "hvx_ops \<Rightarrow> 'd sg \<Rightarrow> 'd sg" where
  "vector_gather_16 ops s =
     (let vgather = VTCM_GATHER16_ADDRESS s;
          offsets = vec_of_halves (half_offsets s)
      in s\<lparr>vm := vgather_ARMVh ops vgather (VTCM_SCATTER16_ADDRESS s) region_len offsets (vm s)\<rparr>)"

definition gather_q_16_init :: u16 where
  "gather_q_16_init = (let letter = 0x3f in letter OR push_bit 8 letter)"

definition vector_gather_q_16 :: "hvx_ops \<Rightarrow> 'd sg \<Rightarrow> 'd sg" where
  "vector_gather_q_16 ops s =
     (let vgather = VTCM_GATHER16_ADDRESS s;
          offsets = vec_of_halves (half_offsets s);
          pred_reg = vec_of_halves (half_predicates s);
          preds = vand_VR ops pred_reg (- 1);
          m = store_vec vgather (vsplat_R ops (ucast gather_q_16_init)) (vm s)
      in s\<lparr>vm := vgather_AQRMVh ops vgather preds (VTCM_SCATTER16_ADDRESS s) region_len offsets m\<rparr>)"

definition vector_gather_32 :: "hvx_ops \<Rightarrow> 'd sg \<Rightarrow> 'd sg" where
  "vector_gather_32 ops s =
     (let vgatherlo = VTCM_GATHER32_ADDRESS s;
          vgatherhi = VTCM_GATHER32_ADDRESS s + of_nat (MATRIX_SIZE * 2);
          m = vgather_ARMVw ops vgatherlo (VTCM_SCATTER32_ADDRESS s) region_len
                (words_lo (word_offsets s)) (vm s);
          m = vgather_ARMVw ops vgatherhi (VTCM_SCATTER32_ADDRESS s) region_len
                (words_hi (word_offsets s)) m
      in s\<lparr>vm := m\<rparr>)"

definition gather_q_32_init :: u32 where
  "gather_q_32_init = (let letter = 0x3f in
     letter OR push_bit 8 letter OR push_bit 16 letter OR push_bit 24 letter)"

definition vector_gather_q_32 :: "hvx_ops \<Rightarrow> 'd sg \<Rightarrow> 'd sg" where
  "vector_gather_q_32 ops s =
     (let vgatherlo = VTCM_GATHER32_ADDRESS s;
          vgatherhi = VTCM_GATHER32_ADDRESS s + of_nat (MATRIX_SIZE * 2);
          predslo = vand_VR ops (words_lo (word_predicates s)) (- 1);
          predshi = vand_VR ops (words_hi (word_predicates s)) (- 1);
          m = store_vec vgatherlo (vsplat_R ops gather_q_32_init) (vm s);
          m = store_vec vgatherhi (vsplat_R ops gather_q_32_init) m;
          m = vgather_AQRMVw ops vgatherlo predslo (VTCM_SCATTER32_ADDRESS s) region_len
                (words_lo (word_offsets s)) m;
          m = vgather_AQRMVw ops vgatherhi predshi (VTCM_SCATTER32_ADDRESS s) region_len
                (words_hi (word_offsets s)) m
      in s\<lparr>vm := m\<rparr>)"

definition vector_gather_16_32 :: "hvx_ops \<Rightarrow> 'd sg \<Rightarrow> 'd sg" where
  "vector_gather_16_32 ops s =
     (let vgather = VTCM_GATHER16_32_ADDRESS s;
          offsets = words_pair (word_offsets s);
          m = vgather_ARMWw ops vgather (VTCM_SCATTER16_32_ADDRESS s) region_len offsets (vm s);
          vals = load_vec m vgather;
          vals = vdeal_Vh ops vals
      in s\<lparr>vm := store_vec vgather vals m\<rparr>)"

definition vector_gather_q_16_32 :: "hvx_ops \<Rightarrow> 'd sg \<Rightarrow> 'd sg" where
  "vector_gather_q_16_32 ops s =
     (let vgather = VTCM_GATHER16_32_ADDRESS s;
          offsets = words_pair (word_offsets s);
          pred_reg = vshuff_Vh ops (vec_of_halves (half_predicates s));
          preds = vand_VR ops pred_reg (- 1);
          m = store_vec vgather (vsplat_R ops (ucast gather_q_16_init)) (vm s);
          m = vgather_AQRMWw ops vgather preds (VTCM_SCATTER16_32_ADDRESS s) region_len offsets m;
          vals = load_vec m vgather;
          vals = vdeal_Vh ops vals
      in s\<lparr>vm := store_vec vgather vals m\<rparr>)"

section \<open>Scalar versions and checks\<close>

text \<open>\<open>check_buffer\<close> compares the bytes at \<open>c\<close> with the bytes of the reference array.\<close>

definition check_buffer :: "string \<Rightarrow> u32 \<Rightarrow> u8 list \<Rightarrow> nat \<Rightarrow> 'd sg \<Rightarrow> 'd sg" where
  "check_buffer name c r size' s =
     fold (\<lambda>i s. if vm s (c + of_nat i) \<noteq> r ! i
       then s\<lparr>err := err s + 1, out := out s @ [Mismatch name i (vm s (c + of_nat i)) (r ! i)]\<rparr>
       else s) [0..<size'] s"

definition scalar_scatter_16 :: "'d sg \<Rightarrow> u16 list \<Rightarrow> u16 list option" where
  "scalar_scatter_16 s = for_loop MATRIX_SIZE (\<lambda>i a.
     set_elem (unat (half_offsets s ! i) div 2) (half_values s ! i) a)"

definition scalar_scatter_acc_16 :: "'d sg \<Rightarrow> u16 list \<Rightarrow> u16 list option" where
  "scalar_scatter_acc_16 s = for_loop MATRIX_SIZE (\<lambda>i a.
     let k = unat (half_offsets s ! i) div 2 in
     Option.bind (get_elem k a) (\<lambda>x. set_elem k (x + half_acc_values s ! i) a))"

definition scalar_scatter_q_16 :: "'d sg \<Rightarrow> u16 list \<Rightarrow> u16 list option" where
  "scalar_scatter_q_16 s = for_loop MATRIX_SIZE (\<lambda>i a.
     if half_predicates s ! i \<noteq> 0
     then set_elem (unat (half_offsets s ! i) div 2) (half_q_values s ! i) a else Some a)"

definition check_scatter_16 :: "'d sg \<Rightarrow> 'd sg option" where
  "check_scatter_16 s =
     Option.bind (scalar_scatter_16 s (fill16 (ucast FILL_CHAR) SCATTER_BUFFER_SIZE)) (\<lambda>r.
     Some (check_buffer ''check_scatter_16'' (vscatter16 s) (concat (map bytes16 r))
             (SCATTER_BUFFER_SIZE * 2) (s\<lparr>vscatter16_ref := r\<rparr>)))"

definition check_scatter_acc_16 :: "'d sg \<Rightarrow> 'd sg option" where
  "check_scatter_acc_16 s =
     Option.bind (scalar_scatter_16 s (fill16 (ucast FILL_CHAR) SCATTER_BUFFER_SIZE)) (\<lambda>r.
     Option.bind (scalar_scatter_acc_16 s r) (\<lambda>r.
     Some (check_buffer ''check_scatter_acc_16'' (vscatter16 s) (concat (map bytes16 r))
             (SCATTER_BUFFER_SIZE * 2) (s\<lparr>vscatter16_ref := r\<rparr>))))"

definition check_scatter_q_16 :: "'d sg \<Rightarrow> 'd sg option" where
  "check_scatter_q_16 s =
     Option.bind (scalar_scatter_16 s (fill16 (ucast FILL_CHAR) SCATTER_BUFFER_SIZE)) (\<lambda>r.
     Option.bind (scalar_scatter_acc_16 s r) (\<lambda>r.
     Option.bind (scalar_scatter_q_16 s r) (\<lambda>r.
     Some (check_buffer ''check_scatter_q_16'' (vscatter16 s) (concat (map bytes16 r))
             (SCATTER_BUFFER_SIZE * 2) (s\<lparr>vscatter16_ref := r\<rparr>)))))"

definition scalar_scatter_32 :: "'d sg \<Rightarrow> u32 list \<Rightarrow> u32 list option" where
  "scalar_scatter_32 s = for_loop MATRIX_SIZE (\<lambda>i a.
     set_elem (unat (word_offsets s ! i) div 4) (word_values s ! i) a)"

definition scalar_scatter_acc_32 :: "'d sg \<Rightarrow> u32 list \<Rightarrow> u32 list option" where
  "scalar_scatter_acc_32 s = for_loop MATRIX_SIZE (\<lambda>i a.
     let k = unat (word_offsets s ! i) div 4 in
     Option.bind (get_elem k a) (\<lambda>x. set_elem k (x + word_acc_values s ! i) a))"

definition scalar_scatter_q_32 :: "'d sg \<Rightarrow> u32 list \<Rightarrow> u32 list option" where
  "scalar_scatter_q_32 s = for_loop MATRIX_SIZE (\<lambda>i a.
     if word_predicates s ! i \<noteq> 0
     then set_elem (unat (word_offsets s ! i) div 4) (word_q_values s ! i) a else Some a)"

definition check_scatter_32 :: "'d sg \<Rightarrow> 'd sg option" where
  "check_scatter_32 s =
     Option.bind (scalar_scatter_32 s (fill32 (ucast FILL_CHAR) SCATTER_BUFFER_SIZE)) (\<lambda>r.
     Some (check_buffer ''check_scatter_32'' (vscatter32 s) (concat (map bytes32 r))
             (SCATTER_BUFFER_SIZE * 4) (s\<lparr>vscatter32_ref := r\<rparr>)))"

definition check_scatter_acc_32 :: "'d sg \<Rightarrow> 'd sg option" where
  "check_scatter_acc_32 s =
     Option.bind (scalar_scatter_32 s (fill32 (ucast FILL_CHAR) SCATTER_BUFFER_SIZE)) (\<lambda>r.
     Option.bind (scalar_scatter_acc_32 s r) (\<lambda>r.
     Some (check_buffer ''check_scatter_acc_32'' (vscatter32 s) (concat (map bytes32 r))
             (SCATTER_BUFFER_SIZE * 4) (s\<lparr>vscatter32_ref := r\<rparr>))))"

definition check_scatter_q_32 :: "'d sg \<Rightarrow> 'd sg option" where
  "check_scatter_q_32 s =
     Option.bind (scalar_scatter_32 s (fill32 (ucast FILL_CHAR) SCATTER_BUFFER_SIZE)) (\<lambda>r.
     Option.bind (scalar_scatter_acc_32 s r) (\<lambda>r.
     Option.bind (scalar_scatter_q_32 s r) (\<lambda>r.
     Some (check_buffer ''check_scatter_q_32'' (vscatter32 s) (concat (map bytes32 r))
             (SCATTER_BUFFER_SIZE * 4) (s\<lparr>vscatter32_ref := r\<rparr>)))))"

definition scalar_scatter_16_32 :: "'d sg \<Rightarrow> u16 list \<Rightarrow> u16 list option" where
  "scalar_scatter_16_32 s = for_loop MATRIX_SIZE (\<lambda>i a.
     set_elem (unat (word_offsets s ! i) div 2) (half_values s ! i) a)"

definition scalar_scatteracc_16_32 :: "'d sg \<Rightarrow> u16 list \<Rightarrow> u16 list option" where
  "scalar_scatteracc_16_32 s = for_loop MATRIX_SIZE (\<lambda>i a.
     let k = unat (word_offsets s ! i) div 2 in
     Option.bind (get_elem k a) (\<lambda>x. set_elem k (x + half_acc_values s ! i) a))"

definition scalar_scatter_q_16_32 :: "'d sg \<Rightarrow> u16 list \<Rightarrow> u16 list option" where
  "scalar_scatter_q_16_32 s = for_loop MATRIX_SIZE (\<lambda>i a.
     if half_predicates s ! i \<noteq> 0
     then set_elem (unat (word_offsets s ! i) div 2) (half_q_values s ! i) a else Some a)"

definition check_scatter_16_32 :: "'d sg \<Rightarrow> 'd sg option" where
  "check_scatter_16_32 s =
     Option.bind (scalar_scatter_16_32 s (fill16 (ucast FILL_CHAR) SCATTER_BUFFER_SIZE)) (\<lambda>r.
     Some (check_buffer ''check_scatter_16_32'' (vscatter16_32 s) (concat (map bytes16 r))
             (SCATTER_BUFFER_SIZE * 2) (s\<lparr>vscatter16_32_ref := r\<rparr>)))"

definition check_scatter_acc_16_32 :: "'d sg \<Rightarrow> 'd sg option" where
  "check_scatter_acc_16_32 s =
     Option.bind (scalar_scatter_16_32 s (fill16 (ucast FILL_CHAR) SCATTER_BUFFER_SIZE)) (\<lambda>r.
     Option.bind (scalar_scatteracc_16_32 s r) (\<lambda>r.
     Some (check_buffer ''check_scatter_acc_16_32'' (vscatter16_32 s) (concat (map bytes16 r))
             (SCATTER_BUFFER_SIZE * 2) (s\<lparr>vscatter16_32_ref := r\<rparr>))))"

definition check_scatter_q_16_32 :: "'d sg \<Rightarrow> 'd sg option" where
  "check_scatter_q_16_32 s =
     Option.bind (scalar_scatter_16_32 s (fill16 (ucast FILL_CHAR) SCATTER_BUFFER_SIZE)) (\<lambda>r.
     Option.bind (scalar_scatteracc_16_32 s r) (\<lambda>r.
     Option.bind (scalar_scatter_q_16_32 s r) (\<lambda>r.
     Some (check_buffer ''check_scatter_q_16_32'' (vscatter16_32 s) (concat (map bytes16 r))
             (SCATTER_BUFFER_SIZE * 2) (s\<lparr>vscatter16_32_ref := r\<rparr>)))))"

text \<open>The scalar gathers read the scatter buffer in the VTCM.\<close>

definition scalar_gather_16 :: "'d sg \<Rightarrow> u16 list \<Rightarrow> u16 list option" where
  "scalar_gather_16 s = for_loop MATRIX_SIZE (\<lambda>i a.
     set_elem i (load16 (vm s) (vscatter16 s + of_nat (2 * (unat (half_offsets s ! i) div 2)))) a)"

definition scalar_gather_q_16 :: "'d sg \<Rightarrow> u16 list \<Rightarrow> u16 list option" where
  "scalar_gather_q_16 s = for_loop MATRIX_SIZE (\<lambda>i a.
     if half_predicates s ! i \<noteq> 0
     then set_elem i (load16 (vm s) (vscatter16 s + of_nat (2 * (unat (half_offsets s ! i) div 2)))) a
     else Some a)"

definition check_gather_16 :: "'d sg \<Rightarrow> 'd sg option" where
  "check_gather_16 s =
     Option.bind (scalar_gather_16 s (fill16 0 MATRIX_SIZE)) (\<lambda>r.
     Some (check_buffer ''check_gather_16'' (vgather16 s) (concat (map bytes16 r))
             (MATRIX_SIZE * 2) (s\<lparr>vgather16_ref := r\<rparr>)))"

definition check_gather_q_16 :: "'d sg \<Rightarrow> 'd sg option" where
  "check_gather_q_16 s =
     Option.bind (scalar_gather_q_16 s (fill16 (ucast gather_q_16_init) MATRIX_SIZE)) (\<lambda>r.
     Some (check_buffer ''check_gather_q_16'' (vgather16 s) (concat (map bytes16 r))
             (MATRIX_SIZE * 2) (s\<lparr>vgather16_ref := r\<rparr>)))"

definition scalar_gather_32 :: "'d sg \<Rightarrow> u32 list \<Rightarrow> u32 list option" where
  "scalar_gather_32 s = for_loop MATRIX_SIZE (\<lambda>i a.
     set_elem i (load32 (vm s) (vscatter32 s + of_nat (4 * (unat (word_offsets s ! i) div 4)))) a)"

definition scalar_gather_q_32 :: "'d sg \<Rightarrow> u32 list \<Rightarrow> u32 list option" where
  "scalar_gather_q_32 s = for_loop MATRIX_SIZE (\<lambda>i a.
     if word_predicates s ! i \<noteq> 0
     then set_elem i (load32 (vm s) (vscatter32 s + of_nat (4 * (unat (word_offsets s ! i) div 4)))) a
     else Some a)"

definition check_gather_32 :: "'d sg \<Rightarrow> 'd sg option" where
  "check_gather_32 s =
     Option.bind (scalar_gather_32 s (fill32 0 MATRIX_SIZE)) (\<lambda>r.
     Some (check_buffer ''check_gather_32'' (vgather32 s) (concat (map bytes32 r))
             (MATRIX_SIZE * 4) (s\<lparr>vgather32_ref := r\<rparr>)))"

definition check_gather_q_32 :: "'d sg \<Rightarrow> 'd sg option" where
  "check_gather_q_32 s =
     Option.bind (scalar_gather_q_32 s (fill32 gather_q_32_init MATRIX_SIZE)) (\<lambda>r.
     Some (check_buffer ''check_gather_q_32'' (vgather32 s) (concat (map bytes32 r))
             (MATRIX_SIZE * 4) (s\<lparr>vgather32_ref := r\<rparr>)))"

definition scalar_gather_16_32 :: "'d sg \<Rightarrow> u16 list \<Rightarrow> u16 list option" where
  "scalar_gather_16_32 s = for_loop MATRIX_SIZE (\<lambda>i a.
     set_elem i (load16 (vm s) (vscatter16_32 s + of_nat (2 * (unat (word_offsets s ! i) div 2)))) a)"

definition scalar_gather_q_16_32 :: "'d sg \<Rightarrow> u16 list \<Rightarrow> u16 list option" where
  "scalar_gather_q_16_32 s = for_loop MATRIX_SIZE (\<lambda>i a.
     if half_predicates s ! i \<noteq> 0
     then set_elem i (load16 (vm s) (vscatter16_32 s + of_nat (2 * (unat (word_offsets s ! i) div 2)))) a
     else Some a)"

definition check_gather_16_32 :: "'d sg \<Rightarrow> 'd sg option" where
  "check_gather_16_32 s =
     Option.bind (scalar_gather_16_32 s (fill16 0 MATRIX_SIZE)) (\<lambda>r.
     Some (check_buffer ''check_gather_16_32'' (vgather16_32 s) (concat (map bytes16 r))
             (MATRIX_SIZE * 2) (s\<lparr>vgather16_32_ref := r\<rparr>)))"

definition check_gather_q_16_32 :: "'d sg \<Rightarrow> 'd sg option" where
  "check_gather_q_16_32 s =
     Option.bind (scalar_gather_q_16_32 s (fill16 (ucast gather_q_16_init) MATRIX_SIZE)) (\<lambda>r.
     Some (check_buffer ''check_gather_q_16_32'' (vgather16_32 s) (concat (map bytes16 r))
             (MATRIX_SIZE * 2) (s\<lparr>vgather16_32_ref := r\<rparr>)))"

section \<open>Printing\<close>

text \<open>The text that the print functions send to the console.  \<open>cell\<close> is the inner loop
  over the bytes of an element, lowest first.\<close>

definition newline :: string where "newline = [CHR 0x0A]"

definition cell :: "nat \<Rightarrow> u32 \<Rightarrow> string" where
  "cell n x = map (\<lambda>j. char_of (unat (drop_bit (j * 8) x AND 0xff))) [0..<n] @ '' ''"

text \<open>Rows of \<open>MATRIX_SIZE\<close> cells.\<close>

definition matrix_text :: "nat \<Rightarrow> (nat \<Rightarrow> u32) \<Rightarrow> nat \<Rightarrow> string" where
  "matrix_text w elem n =
     concat (map (\<lambda>i. (if i mod MATRIX_SIZE = 0 then newline else []) @ cell w (elem i)) [0..<n])"

definition row_text :: "nat \<Rightarrow> (nat \<Rightarrow> u32) \<Rightarrow> nat \<Rightarrow> string" where
  "row_text w elem n = concat (map (\<lambda>i. cell w (elem i)) [0..<n])"

definition half_at :: "'d sg \<Rightarrow> u32 \<Rightarrow> nat \<Rightarrow> u32" where
  "half_at s a i = ucast (load16 (vm s) (a + of_nat (2 * i)))"

definition word_at :: "'d sg \<Rightarrow> u32 \<Rightarrow> nat \<Rightarrow> u32" where
  "word_at s a i = load32 (vm s) (a + of_nat (4 * i))"

definition print_vtcm_scratch_16 :: "'d sg \<Rightarrow> string" where
  "print_vtcm_scratch_16 s = newline @ newline @ ''Printing the vtcm scratch in half words'' @
     matrix_text 2 (half_at s (VTCM_BASE_ADDRESS s)) SCRATCH_SIZE"

definition print_vtcm_scratch_32 :: "'d sg \<Rightarrow> string" where
  "print_vtcm_scratch_32 s = newline @ newline @ ''Printing the vtcm scratch in words'' @
     matrix_text 4 (word_at s (VTCM_BASE_ADDRESS s)) SCRATCH_SIZE"

text \<open>\<open>%4.4x\<close>: at least four hexadecimal digits.\<close>

definition hex4 :: "u32 \<Rightarrow> string" where
  "hex4 x = (let d = nat_digits 16 (unat x) in replicate (4 - length d) CHR ''0'' @ d)"

definition dump_buf :: "string \<Rightarrow> u32 \<Rightarrow> nat \<Rightarrow> nat \<Rightarrow> 'd sg \<Rightarrow> string option" where
  "dump_buf str addr element_size byte_len s =
     (if element_size = 0 then None
      else Some (newline @ newline @ ''Buffer: '' @ str @ newline @
        concat (map (\<lambda>i. (if i \<noteq> 0 \<and> i mod 16 = 0 then newline else []) @
          (if element_size = 2 then [char_of (unat (half_at s addr i AND 0xff))] @ '' ''
           else if element_size = 4 then hex4 (word_at s addr i) @ '' ''
           else [])) [0..<byte_len div element_size])))"

definition bytes_text :: "vmem \<Rightarrow> u32 \<Rightarrow> nat \<Rightarrow> string" where
  "bytes_text m v n = concat (map (\<lambda>i. (if i \<noteq> 0 \<and> i mod 16 = 0 then newline else []) @
     [char_of (unat (m (v + of_nat i)))] @ '' '') [0..<n])"

text \<open>\<open>print_vector\<close> prints four times the size of a vector, as in the source.\<close>

definition print_vector :: "string \<Rightarrow> u32 \<Rightarrow> 'd sg \<Rightarrow> string" where
  "print_vector str v s = newline @ newline @ ''Vector: '' @ str @ newline @
     bytes_text (vm s) v (128 * 4) @ newline"

definition print_vectorpair :: "string \<Rightarrow> u32 \<Rightarrow> 'd sg \<Rightarrow> string" where
  "print_vectorpair str v s = newline @ newline @ ''VectorPair: '' @ str @ newline @
     bytes_text (vm s) v 256 @ newline"

definition print_scatter16_buffer :: "'d sg \<Rightarrow> string" where
  "print_scatter16_buffer s = newline @ newline @ ''Printing the 16 bit scatter buffer'' @
     matrix_text 2 (half_at s (vscatter16 s)) SCATTER_BUFFER_SIZE @ newline"

definition print_gather_result_16 :: "'d sg \<Rightarrow> string" where
  "print_gather_result_16 s = newline @ newline @ ''Printing the 16 bit gather result'' @ newline @
     row_text 2 (half_at s (vgather16 s)) MATRIX_SIZE @ newline"

definition print_scatter32_buffer :: "'d sg \<Rightarrow> string" where
  "print_scatter32_buffer s = newline @ newline @ ''Printing the 32 bit scatter buffer'' @
     matrix_text 4 (word_at s (vscatter32 s)) SCATTER_BUFFER_SIZE @ newline"

definition print_gather_result_32 :: "'d sg \<Rightarrow> string" where
  "print_gather_result_32 s = newline @ newline @ ''Printing the 32 bit gather result'' @ newline @
     row_text 4 (word_at s (vgather32 s)) MATRIX_SIZE @ newline"

definition print_scatter16_32_buffer :: "'d sg \<Rightarrow> string" where
  "print_scatter16_32_buffer s = newline @ newline @ ''Printing the 16_32 bit scatter buffer'' @
     matrix_text 2 (half_at s (vscatter16_32 s)) SCATTER_BUFFER_SIZE @ newline"

definition print_gather_result_16_32 :: "'d sg \<Rightarrow> string" where
  "print_gather_result_16_32 s = newline @ newline @ ''Printing the 16_32 bit gather result'' @ newline @
     row_text 2 (half_at s (vgather16_32 s)) MATRIX_SIZE @ newline"

section \<open>Setup and main\<close>

definition setup_tcm :: "nat \<Rightarrow> 'd tlb_ops \<Rightarrow> cfgtable \<Rightarrow> 'd sg \<Rightarrow> 'd sg" where
  "setup_tcm arch hw cfg s =
     (let base = get_vtcm_base cfg;
          s = s\<lparr>VTCM_BASE_ADDRESS := base,
                tlb := fst (add_translation_extended arch hw (tlb s) 1 base (ucast base) 8 15 7 0 0 3)\<rparr>;
          s = s\<lparr>VTCM_SCATTER16_ADDRESS := base\<rparr>;
          s = s\<lparr>VTCM_GATHER16_ADDRESS := VTCM_BASE_ADDRESS s + of_nat SCATTER16_BUF_SIZE\<rparr>;
          s = s\<lparr>VTCM_SCATTER32_ADDRESS := VTCM_GATHER16_ADDRESS s + of_nat GATHER16_BUF_SIZE\<rparr>;
          s = s\<lparr>VTCM_GATHER32_ADDRESS := VTCM_SCATTER32_ADDRESS s + of_nat SCATTER32_BUF_SIZE\<rparr>;
          s = s\<lparr>VTCM_SCATTER16_32_ADDRESS := VTCM_GATHER32_ADDRESS s + of_nat GATHER32_BUF_SIZE\<rparr>
      in s\<lparr>VTCM_GATHER16_32_ADDRESS := VTCM_SCATTER16_32_ADDRESS s + of_nat SCATTER16_BUF_SIZE\<rparr>)"

definition main_16 :: "hvx_ops \<Rightarrow> 'd sg \<Rightarrow> 'd sg option" where
  "main_16 ops s =
     (let s = create_preds_16 (create_offsets_and_values_16 s) in
      Option.bind (check_scatter_16 (vector_scatter_16 ops s)) (\<lambda>s.
      Option.bind (check_gather_16 (vector_gather_16 ops s)) (\<lambda>s.
      Option.bind (check_gather_q_16 (vector_gather_q_16 ops s)) (\<lambda>s.
      Option.bind (check_scatter_acc_16 (vector_scatter_acc_16 ops s)) (\<lambda>s.
      check_scatter_q_16 (vector_scatter_q_16 ops s))))))"

definition main_32 :: "hvx_ops \<Rightarrow> 'd sg \<Rightarrow> 'd sg option" where
  "main_32 ops s =
     (let s = create_preds_32 (create_offsets_and_values_32 s) in
      Option.bind (check_scatter_32 (vector_scatter_32 ops s)) (\<lambda>s.
      Option.bind (check_gather_32 (vector_gather_32 ops s)) (\<lambda>s.
      Option.bind (check_gather_q_32 (vector_gather_q_32 ops s)) (\<lambda>s.
      Option.bind (check_scatter_acc_32 (vector_scatter_acc_32 ops s)) (\<lambda>s.
      check_scatter_q_32 (vector_scatter_q_32 ops s))))))"

definition main_16_32 :: "hvx_ops \<Rightarrow> 'd sg \<Rightarrow> 'd sg option" where
  "main_16_32 ops s =
     (let s = create_preds_16_32 (create_offsets_and_values_16_32 s) in
      Option.bind (check_scatter_16_32 (vector_scatter_16_32 ops s)) (\<lambda>s.
      Option.bind (check_gather_16_32 (vector_gather_16_32 ops s)) (\<lambda>s.
      Option.bind (check_gather_q_16_32 (vector_gather_q_16_32 ops s)) (\<lambda>s.
      Option.bind (check_scatter_acc_16_32 (vector_scatter_acc_16_32 ops s)) (\<lambda>s.
      check_scatter_q_16_32 (vector_scatter_q_16_32 ops s))))))"

definition standalone_vec_main ::
  "nat \<Rightarrow> 'd tlb_ops \<Rightarrow> cfgtable \<Rightarrow> hvx_ops \<Rightarrow> 'd sg \<Rightarrow> (int \<times> 'd sg) option" where
  "standalone_vec_main arch hw cfg ops s =
     (let s = prefill_vtcm_scratch (setup_tcm arch hw cfg s) in
      Option.bind (main_16 ops s) (\<lambda>s.
      Option.bind (main_32 ops s) (\<lambda>s.
      Option.bind (main_16_32 ops s) (\<lambda>s.
      let s = s\<lparr>out := out s @ [Verdict (if err s \<noteq> 0 then ''FAIL'' else ''PASS'')]\<rparr> in
      Some (err s, s)))))"

text \<open>The static arrays have 64 elements.\<close>

definition arrays_ok :: "'d sg \<Rightarrow> bool" where
  "arrays_ok s \<longleftrightarrow>
     length (half_offsets s) = MATRIX_SIZE \<and> length (word_offsets s) = MATRIX_SIZE \<and>
     length (half_values s) = MATRIX_SIZE \<and> length (half_acc_values s) = MATRIX_SIZE \<and>
     length (half_q_values s) = MATRIX_SIZE \<and> length (word_values s) = MATRIX_SIZE \<and>
     length (word_acc_values s) = MATRIX_SIZE \<and> length (word_q_values s) = MATRIX_SIZE \<and>
     length (half_predicates s) = MATRIX_SIZE \<and> length (word_predicates s) = MATRIX_SIZE"

end
