(* ===== verification/Scatter_Equiv.thy ===== *)
theory Scatter_Equiv
  imports Scatter_Gather
begin

text \<open>
  The vector code of \<open>src/standalone_vec.c\<close> computes what its scalar loops compute:
  per operation for every content of the arrays with offsets inside the buffer, and for the whole
  program, which ends with the verdict \<open>PASS\<close>.
\<close>

section \<open>Element update loops\<close>

definition upd_fold ::
  "(nat \<Rightarrow> bool) \<Rightarrow> (nat \<Rightarrow> nat) \<Rightarrow> (nat \<Rightarrow> 'a \<Rightarrow> 'a) \<Rightarrow> nat list \<Rightarrow> 'a list \<Rightarrow> 'a list" where
  "upd_fold en idx f is xs = fold (\<lambda>i xs. if en i then xs[idx i := f i (xs ! idx i)] else xs) is xs"

lemma upd_fold_Nil [simp]: "upd_fold en idx f [] xs = xs"
  by (simp add: upd_fold_def)

lemma upd_fold_Cons:
  "upd_fold en idx f (i # is) xs =
     upd_fold en idx f is (if en i then xs[idx i := f i (xs ! idx i)] else xs)"
  by (simp add: upd_fold_def)

lemma length_upd_fold [simp]: "length (upd_fold en idx f is xs) = length xs"
  by (induction "is" arbitrary: xs) (simp_all add: upd_fold_Cons)

lemma upd_fold_append: "upd_fold en idx f (is @ js) xs = upd_fold en idx f js (upd_fold en idx f is xs)"
  by (simp add: upd_fold_def)

lemma upd_fold_map:
  "upd_fold en idx f (map g is) xs = upd_fold (\<lambda>i. en (g i)) (\<lambda>i. idx (g i)) (\<lambda>i. f (g i)) is xs"
  by (simp add: upd_fold_def fold_map comp_def)

lemma upd_fold_cong:
  assumes "\<And>i. i \<in> set is \<Longrightarrow> en i = en' i"
    and "\<And>i. i \<in> set is \<Longrightarrow> en i \<Longrightarrow> idx i = idx' i" and "\<And>i. i \<in> set is \<Longrightarrow> en i \<Longrightarrow> f i = f' i"
  shows "upd_fold en idx f is xs = upd_fold en' idx' f' is xs"
  using assms by (induction "is" arbitrary: xs) (auto simp: upd_fold_Cons)

lemma upd_fold_halves:
  "upd_fold en idx f [0..<64] xs =
     upd_fold (\<lambda>i. en (32 + i)) (\<lambda>i. idx (32 + i)) (\<lambda>i. f (32 + i)) [0..<32]
       (upd_fold en idx f [0..<32] xs)"
proof -
  have "[0..<64] = [0..<32] @ map (\<lambda>i. 32 + i) [0..<32]"
    by (rule nth_equalityI) (auto simp: nth_append)
  then show ?thesis by (simp only: upd_fold_append upd_fold_map)
qed

text \<open>With distinct targets the order of the updates does not matter.\<close>

lemma upd_fold_nth:
  assumes "distinct is" and "inj_on idx {i \<in> set is. en i}" and "k < length xs"
  shows "(\<forall>i\<in>set is. en i \<longrightarrow> idx i \<noteq> k) \<Longrightarrow> upd_fold en idx f is xs ! k = xs ! k"
    and "i \<in> set is \<Longrightarrow> en i \<Longrightarrow> idx i = k \<Longrightarrow> upd_fold en idx f is xs ! k = f i (xs ! k)"
proof -
  have keep: "upd_fold en idx f is xs ! k = xs ! k"
    if "\<forall>i\<in>set is. en i \<longrightarrow> idx i \<noteq> k" "k < length xs" for "is" xs
    using that by (induction "is" arbitrary: xs) (auto simp: upd_fold_Cons)
  then show "(\<forall>i\<in>set is. en i \<longrightarrow> idx i \<noteq> k) \<Longrightarrow> upd_fold en idx f is xs ! k = xs ! k"
    using assms(3) by blast
  show "i \<in> set is \<Longrightarrow> en i \<Longrightarrow> idx i = k \<Longrightarrow> upd_fold en idx f is xs ! k = f i (xs ! k)"
    using assms
  proof (induction "is" arbitrary: xs)
    case (Cons j "is")
    show ?case
    proof (cases "i = j")
      case True
      have "\<forall>l\<in>set is. en l \<longrightarrow> idx l \<noteq> k"
      proof (intro ballI impI notI)
        fix l assume l: "l \<in> set is" "en l" "idx l = k"
        have "l = i" using Cons.prems(5) l Cons.prems(1,2,3)
          by (auto simp: inj_on_def)
        with l(1) True Cons.prems(4) show False by simp
      qed
      then show ?thesis using Cons.prems True by (simp add: upd_fold_Cons keep)
    next
      case False
      then have i: "i \<in> set is" using Cons.prems by simp
      have "en j \<longrightarrow> idx j \<noteq> k"
        using Cons.prems False i by (auto simp: inj_on_def)
      moreover have "inj_on idx {i \<in> set is. en i}"
        using Cons.prems(5) by (rule inj_on_subset) auto
      ultimately show ?thesis
        using Cons.IH [of "if en j then xs[idx j := f j (xs ! idx j)] else xs"] Cons.prems i
        by (auto simp: upd_fold_Cons)
    qed
  qed simp
qed

lemma upd_fold_perm:
  assumes "distinct is" "distinct js" "set is = set js" "inj_on idx {i \<in> set is. en i}"
  shows "upd_fold en idx f is xs = upd_fold en idx f js xs"
proof (rule nth_equalityI)
  fix k assume "k < length (upd_fold en idx f is xs)"
  then have k: "k < length xs" by simp
  show "upd_fold en idx f is xs ! k = upd_fold en idx f js xs ! k"
  proof (cases "\<exists>i\<in>set is. en i \<and> idx i = k")
    case True
    then obtain i where "i \<in> set is" "en i" "idx i = k" by blast
    with assms show ?thesis
      using upd_fold_nth(2) [OF assms(1,4) k, of i f] upd_fold_nth(2) [of js idx en k xs i f] k by simp
  next
    case False
    with assms show ?thesis
      using upd_fold_nth(1) [OF assms(1,4) k, of f] upd_fold_nth(1) [of js idx en k xs f] k by auto
  qed
qed simp

text \<open>The lane order of the forms with word offset pairs.\<close>

definition shuffled :: "nat \<Rightarrow> nat" where
  "shuffled k = k div 2 + 32 * (k mod 2)"

lemma shuffled_perm:
  "distinct (map shuffled [0..<64])" "set (map shuffled [0..<64]) = set [0..<64]"
proof -
  have inj: "inj_on shuffled {0..<64}"
  proof (rule inj_onI)
    fix j k assume *: "j \<in> {0..<64}" "k \<in> {0..<64}" "shuffled j = shuffled k"
    have "j div 2 < 32" "k div 2 < 32" using * by auto
    moreover have "j mod 2 = 0 \<or> j mod 2 = 1" "k mod 2 = 0 \<or> k mod 2 = 1" by auto
    ultimately have "j div 2 = k div 2 \<and> j mod 2 = k mod 2"
      using *(3) unfolding shuffled_def by auto
    then show "j = k" by (metis div_mult_mod_eq)
  qed
  then show "distinct (map shuffled [0..<64])" by (simp add: distinct_map)
  have "shuffled ` {0..<64} \<subseteq> {0..<64}" by (auto simp: shuffled_def)
  with inj show "set (map shuffled [0..<64]) = set [0..<64]"
    using endo_inj_surj [of "{0..<64}" shuffled] by simp
qed

lemma upd_fold_shuffled:
  assumes "inj_on idx {0..<64}"
  shows "upd_fold (\<lambda>k. en (shuffled k)) (\<lambda>k. idx (shuffled k)) (\<lambda>k. f (shuffled k)) [0..<64] xs =
    upd_fold en idx f [0..<64] xs"
proof -
  have "inj_on idx {i \<in> set (map shuffled [0..<64]). en i}"
    using assms unfolding shuffled_perm(2) by (rule inj_on_subset) auto
  then show ?thesis
    using upd_fold_perm [of "map shuffled [0..<64]" "[0..<64]" idx en f xs] shuffled_perm
    by (simp add: upd_fold_map)
qed

section \<open>Scalar loops\<close>

lemma for_loop_upd:
  assumes "\<And>i a. i < n \<Longrightarrow> length a = length xs \<Longrightarrow>
      body i a = Some (if en i then a[idx i := f i (a ! idx i)] else a)"
  shows "for_loop n body xs = Some (upd_fold en idx f [0..<n] xs)"
  using assms
proof (induction n)
  case (Suc n)
  then have "for_loop n body xs = Some (upd_fold en idx f [0..<n] xs)" by simp
  then show ?case using Suc.prems [of n "upd_fold en idx f [0..<n] xs"]
    by (simp add: upd_fold_append upd_fold_Cons)
qed simp

section \<open>Scatters and gathers on arrays in memory\<close>

context elem_access
begin

text \<open>\<open>m'\<close> is \<open>m\<close> with the \<open>n\<close> elements at \<open>p\<close> replaced by \<open>xs\<close>.\<close>

definition rewritten :: "u32 \<Rightarrow> nat \<Rightarrow> 'a list \<Rightarrow> vmem \<Rightarrow> vmem \<Rightarrow> bool" where
  "rewritten p n xs m m' \<longleftrightarrow> region m' p n = xs \<and>
     (\<forall>a. (\<forall>k<w * n. a \<noteq> p + of_nat k) \<longrightarrow> m' a = m a)"

lemma rewrittenD:
  "rewritten p n xs m m' \<Longrightarrow> region m' p n = xs"
  "rewritten p n xs m m' \<Longrightarrow> (\<And>k. k < w * n \<Longrightarrow> a \<noteq> p + of_nat k) \<Longrightarrow> m' a = m a"
  by (auto simp: rewritten_def)

lemma rewritten_trans:
  "rewritten p n xs m m' \<Longrightarrow> rewritten p n ys m' m'' \<Longrightarrow> rewritten p n ys m m''"
  by (auto simp: rewritten_def)

lemma update_loop_rewritten:
  assumes "\<And>i. i \<in> set is \<Longrightarrow> en i \<Longrightarrow> idx i < n" and "w * n \<le> 2 ^ 32"
  shows "rewritten p n (upd_fold en idx f is (region m p n)) m (update_loop p en idx f is m)"
  using region_update_loop [of "is" en idx n p f m] update_loop_frame [of "is" en idx n _ p f m] assms
  by (auto simp: rewritten_def upd_fold_def)

lemma offset_elem: "aligned w x \<Longrightarrow> (of_nat (w * (unat x div w)) :: u32) = x"
  unfolding aligned_def by (metis add.right_neutral mult_div_mod_eq of_nat_unat ucast_id)

lemma scatter_sem_rewritten:
  assumes "\<And>i. i < k \<Longrightarrow> aligned w (offs i) \<and> offs i \<le> len \<and> unat (offs i) div w < n" and "w * n \<le> 2 ^ 32"
  shows "rewritten p n (upd_fold en (\<lambda>i. unat (offs i) div w) f [0..<k] (region m p n)) m
    (scatter_sem st ld p len offs en f k m)"
proof -
  have "scatter_sem st ld p len offs en f k m =
      update_loop p en (\<lambda>i. unat (offs i) div w) f [0..<k] m"
    unfolding scatter_sem_def update_loop_def
    by (rule fold_cong) (auto simp: offset_elem assms(1) simp del: of_nat_mult)
  then show ?thesis
    using update_loop_rewritten [of "[0..<k]" en "\<lambda>i. unat (offs i) div w" n p f m] assms by auto
qed

lemma gather_sem_rewritten:
  assumes "\<And>i. i < k \<Longrightarrow> offs i \<le> len" and "k \<le> n" and "w * n \<le> 2 ^ 32"
  shows "rewritten d n (upd_fold en (\<lambda>i. i) (\<lambda>i _. ld m (b + offs i)) [0..<k] (region m d n)) m
    (gather_sem st ld w d b len offs en k m)"
proof -
  have "gather_sem st ld w d b len offs en k m =
      update_loop d en (\<lambda>i. i) (\<lambda>i _. ld m (b + offs i)) [0..<k] m"
    unfolding gather_sem_def update_loop_def
    by (rule fold_cong) (auto simp: assms(1) simp del: of_nat_mult)
  then show ?thesis
    using update_loop_rewritten [of "[0..<k]" en "\<lambda>i. i" n d "\<lambda>i _. ld m (b + offs i)" m] assms by auto
qed

end

section \<open>The operations\<close>

text \<open>Element offsets that are aligned and inside the buffer.\<close>

definition offs16_ok :: "'d sg \<Rightarrow> bool" where
  "offs16_ok s \<longleftrightarrow> (\<forall>i<64. unat (half_offsets s ! i) mod 2 = 0 \<and> unat (half_offsets s ! i) < 8192)"

definition offs32_ok :: "'d sg \<Rightarrow> bool" where
  "offs32_ok s \<longleftrightarrow> (\<forall>i<64. unat (word_offsets s ! i) mod 4 = 0 \<and> unat (word_offsets s ! i) < 16384)"

definition offs16_32_ok :: "'d sg \<Rightarrow> bool" where
  "offs16_32_ok s \<longleftrightarrow> distinct (word_offsets s) \<and>
     (\<forall>i<64. unat (word_offsets s ! i) mod 2 = 0 \<and> unat (word_offsets s ! i) < 8192)"

definition preds_ok :: "'d sg \<Rightarrow> bool" where
  "preds_ok s \<longleftrightarrow> set (half_predicates s) \<subseteq> {0, - 1} \<and> set (word_predicates s) \<subseteq> {0, - 1}"

definition idx16 :: "'d sg \<Rightarrow> nat \<Rightarrow> nat" where
  "idx16 s i = unat (half_offsets s ! i) div 2"

definition idx32 :: "'d sg \<Rightarrow> nat \<Rightarrow> nat" where
  "idx32 s i = unat (word_offsets s ! i) div 4"

definition idx16_32 :: "'d sg \<Rightarrow> nat \<Rightarrow> nat" where
  "idx16_32 s i = unat (word_offsets s ! i) div 2"

lemma unat_ucast_u16: "unat (ucast (x::u16) :: u32) = unat x"
proof -
  have "unat x < 2 ^ 16" using unsigned_less [of x, where 'a = nat] by simp
  then have "take_bit 32 (unat x) = unat x" by (intro take_bit_nat_eq_self) simp
  then show ?thesis by (simp add: unsigned_ucast_eq)
qed

lemma region_len_val: "unat region_len = 16383"
  by (simp add: region_len_def size_defs)

lemma arrays_okD:
  "arrays_ok s \<Longrightarrow> length (half_offsets s) = 64" "arrays_ok s \<Longrightarrow> length (word_offsets s) = 64"
  "arrays_ok s \<Longrightarrow> length (half_values s) = 64" "arrays_ok s \<Longrightarrow> length (half_acc_values s) = 64"
  "arrays_ok s \<Longrightarrow> length (half_q_values s) = 64" "arrays_ok s \<Longrightarrow> length (word_values s) = 64"
  "arrays_ok s \<Longrightarrow> length (word_acc_values s) = 64" "arrays_ok s \<Longrightarrow> length (word_q_values s) = 64"
  "arrays_ok s \<Longrightarrow> length (half_predicates s) = 64" "arrays_ok s \<Longrightarrow> length (word_predicates s) = 64"
  by (simp_all add: arrays_ok_def MATRIX_SIZE_def)

lemma vec_ok_halves: "length xs = 64 \<Longrightarrow> vec_ok (vec_of_halves xs)"
  by (simp add: vec_ok_def)

subsection \<open>16 bit elements, 16 bit offsets\<close>

lemma hoffs_half_offsets:
  assumes "arrays_ok s" and "offs16_ok s" and "i < 64"
  shows "hoffs (vec_of_halves (half_offsets s)) i = ucast (half_offsets s ! i)"
    and "aligned 2 (ucast (half_offsets s ! i))"
    and "ucast (half_offsets s ! i) \<le> region_len" and "idx16 s i < 4096"
    and "unat (hoffs (vec_of_halves (half_offsets s)) i) div 2 = idx16 s i"
proof -
  show *: "hoffs (vec_of_halves (half_offsets s)) i = ucast (half_offsets s ! i)"
    using assms(3) by (simp add: arrays_okD [OF assms(1)])
  have o: "unat (half_offsets s ! i) mod 2 = 0" "unat (half_offsets s ! i) < 8192"
    using assms by (simp_all add: offs16_ok_def)
  show "aligned 2 (ucast (half_offsets s ! i))" using o by (simp add: aligned_def unat_ucast_u16)
  show "ucast (half_offsets s ! i) \<le> region_len"
    using o by (simp add: word_le_nat_alt region_len_val unat_ucast_u16)
  show "idx16 s i < 4096" using o by (simp add: idx16_def)
  show "unat (hoffs (vec_of_halves (half_offsets s)) i) div 2 = idx16 s i"
    unfolding * by (simp add: idx16_def unat_ucast_u16)
qed

lemma offsets_ok_16:
  "arrays_ok s \<Longrightarrow> offs16_ok s \<Longrightarrow> offsets_ok 2 64 (hoffs (vec_of_halves (half_offsets s)))"
  by (simp add: offsets_ok_def hoffs_half_offsets(1,2) del: hlane_vec_of_halves)

lemma scatter_sem_16:
  assumes "arrays_ok s" and "offs16_ok s"
  shows "e16.rewritten p 4096 (upd_fold en (idx16 s) f [0..<64] (e16.region m p 4096)) m
    (scatter_sem store16 load16 p region_len (hoffs (vec_of_halves (half_offsets s))) en f 64 m)"
proof -
  have "e16.rewritten p 4096
    (upd_fold en (\<lambda>i. unat (hoffs (vec_of_halves (half_offsets s)) i) div 2) f [0..<64] (e16.region m p 4096)) m
    (scatter_sem store16 load16 p region_len (hoffs (vec_of_halves (half_offsets s))) en f 64 m)"
    by (rule e16.scatter_sem_rewritten)
      (use hoffs_half_offsets [OF assms] in \<open>auto simp del: hlane_vec_of_halves\<close>)
  moreover have "upd_fold en (\<lambda>i. unat (hoffs (vec_of_halves (half_offsets s)) i) div 2) f [0..<64] xs =
    upd_fold en (idx16 s) f [0..<64] xs" for xs
    by (rule upd_fold_cong) (use hoffs_half_offsets(5) [OF assms] in \<open>auto simp del: hlane_vec_of_halves\<close>)
  ultimately show ?thesis by simp
qed

text \<open>Two buffers without a common byte.\<close>

definition bufs_apart :: "u32 \<Rightarrow> nat \<Rightarrow> u32 \<Rightarrow> nat \<Rightarrow> bool" where
  "bufs_apart p n q k \<longleftrightarrow> (\<forall>i<n. \<forall>j<k. p + of_nat i \<noteq> q + of_nat j)"

lemma store_vec_16:
  assumes "length xs = 64"
  shows "e16.rewritten p 64 xs m (store_vec p (vec_of_halves xs) m)"
proof -
  have byte: "store_vec p (vec_of_halves xs) m (p + of_nat k) = vec_of_halves xs ! k" if "k < 128" for k
    using that assms by (simp add: store_vec_def unsigned_of_nat take_bit_nat_eq_self)
  have "e16.region (store_vec p (vec_of_halves xs) m) p 64 = xs"
  proof (rule nth_equalityI)
    fix i assume "i < length (e16.region (store_vec p (vec_of_halves xs) m) p 64)"
    then have i: "i < 64" by simp
    have "p + of_nat (2 * i) + 1 = p + of_nat (2 * i + 1)" by simp
    then have "load16 (store_vec p (vec_of_halves xs) m) (p + of_nat (2 * i)) = hlane (vec_of_halves xs) i"
      using byte [of "2 * i"] byte [of "2 * i + 1"] i
      by (simp only: load16_def hlane_def)
    then show "e16.region (store_vec p (vec_of_halves xs) m) p 64 ! i = xs ! i" using i assms
      by (simp del: of_nat_mult)
  qed (simp add: assms)
  moreover have "store_vec p (vec_of_halves xs) m a = m a" if "\<forall>k<2 * 64. a \<noteq> p + of_nat k" for a
  proof -
    have "\<not> unat (a - p) < 128" using that [rule_format, of "unat (a - p)"] by auto
    then show ?thesis using assms by (simp add: store_vec_def)
  qed
  ultimately show ?thesis by (simp add: e16.rewritten_def)
qed

lemma rewritten_load16:
  assumes "e16.rewritten d 64 xs m m'" and "bufs_apart d 128 b n" and "2 * k + 2 \<le> n"
  shows "load16 m' (b + of_nat (2 * k)) = load16 m (b + of_nat (2 * k))"
proof (rule e16.ld_cong)
  fix l :: nat assume "l < 2"
  then have "d + of_nat j \<noteq> b + of_nat (2 * k + l)" if "j < 128" for j
    using assms(2,3) that by (simp add: bufs_apart_def del: of_nat_add of_nat_mult)
  then have "m' (b + of_nat (2 * k + l)) = m (b + of_nat (2 * k + l))"
    using e16.rewrittenD(2) [OF assms(1), of "b + of_nat (2 * k + l)"] by (metis mult_2 numeral_Bit0)
  then show "m' (b + of_nat (2 * k) + of_nat l) = m (b + of_nat (2 * k) + of_nat l)"
    by (simp add: ac_simps)
qed

lemma gather_sem_16:
  assumes "arrays_ok s" and "offs16_ok s"
  shows "e16.rewritten d 64
    (upd_fold en (\<lambda>i. i) (\<lambda>i _. load16 m (b + of_nat (2 * idx16 s i))) [0..<64] (e16.region m d 64)) m
    (gather_sem store16 load16 2 d b region_len (hoffs (vec_of_halves (half_offsets s))) en 64 m)"
proof -
  let ?o = "hoffs (vec_of_halves (half_offsets s))"
  have "e16.rewritten d 64 (upd_fold en (\<lambda>i. i) (\<lambda>i _. load16 m (b + ?o i)) [0..<64] (e16.region m d 64)) m
    (gather_sem store16 load16 2 d b region_len ?o en 64 m)"
    by (rule e16.gather_sem_rewritten)
      (use hoffs_half_offsets [OF assms] in \<open>auto simp del: hlane_vec_of_halves\<close>)
  moreover have "of_nat (2 * idx16 s i) = ?o i" if "i < 64" for i
    using e16.offset_elem [of "?o i"] hoffs_half_offsets [OF assms that]
    by (simp del: hlane_vec_of_halves of_nat_mult)
  then have "upd_fold en (\<lambda>i. i) (\<lambda>i _. load16 m (b + ?o i)) [0..<64] xs =
    upd_fold en (\<lambda>i. i) (\<lambda>i _. load16 m (b + of_nat (2 * idx16 s i))) [0..<64] xs" for xs
    by (intro upd_fold_cong) (auto simp del: hlane_vec_of_halves of_nat_mult)
  ultimately show ?thesis by simp
qed

text \<open>What the 16 bit operations leave in the buffers, as a loop over the lanes.\<close>

context hvx_unit
begin

lemma vector_scatter_16_effect:
  assumes ok: "arrays_ok s" "offs16_ok s" and al: "aligned 2 (vscatter16 s)"
  shows "e16.rewritten (vscatter16 s) 4096
      (upd_fold (\<lambda>_. True) (idx16 s) (\<lambda>i _. half_values s ! i) [0..<64]
        (e16.region (vm s) (vscatter16 s) 4096)) (vm s) (vm (vector_scatter_16 ops s))"
proof -
  have "upd_fold (\<lambda>_. True) (idx16 s) (\<lambda>i _. hlane (vec_of_halves (half_values s)) i) [0..<64] xs =
    upd_fold (\<lambda>_. True) (idx16 s) (\<lambda>i _. half_values s ! i) [0..<64] xs" for xs
    by (rule upd_fold_cong) (auto simp: arrays_okD [OF ok(1)])
  then show ?thesis
    using scatter_sem_16 [OF ok, of "vscatter16 s" "\<lambda>_. True" "\<lambda>i _. hlane (vec_of_halves (half_values s)) i" "vm s"]
    by (simp add: vector_scatter_16_def Let_def release
        scatter_h [OF al vec_ok_halves vec_ok_halves offsets_ok_16 [OF ok]] arrays_okD [OF ok(1)])
qed

lemma vector_scatter_acc_16_effect:
  assumes ok: "arrays_ok s" "offs16_ok s" and al: "aligned 2 (vscatter16 s)"
  shows "e16.rewritten (vscatter16 s) 4096
      (upd_fold (\<lambda>_. True) (idx16 s) (\<lambda>i x. x + half_acc_values s ! i) [0..<64]
        (e16.region (vm s) (vscatter16 s) 4096)) (vm s) (vm (vector_scatter_acc_16 ops s))"
proof -
  have "upd_fold (\<lambda>_. True) (idx16 s) (\<lambda>i x. x + hlane (vec_of_halves (half_acc_values s)) i) [0..<64] xs =
    upd_fold (\<lambda>_. True) (idx16 s) (\<lambda>i x. x + half_acc_values s ! i) [0..<64] xs" for xs
    by (rule upd_fold_cong) (auto simp: arrays_okD [OF ok(1)])
  then show ?thesis
    using scatter_sem_16 [OF ok, of "vscatter16 s" "\<lambda>_. True" "\<lambda>i x. x + hlane (vec_of_halves (half_acc_values s)) i" "vm s"]
    by (simp add: vector_scatter_acc_16_def Let_def release
        scatteracc_h [OF al vec_ok_halves vec_ok_halves offsets_ok_16 [OF ok]] arrays_okD [OF ok(1)])
qed

lemma vector_scatter_q_16_effect:
  assumes ok: "arrays_ok s" "offs16_ok s" and al: "aligned 2 (vscatter16 s)" and q: "preds_ok s"
  shows "e16.rewritten (vscatter16 s) 4096
      (upd_fold (\<lambda>i. half_predicates s ! i \<noteq> 0) (idx16 s) (\<lambda>i _. half_q_values s ! i) [0..<64]
        (e16.region (vm s) (vscatter16 s) 4096)) (vm s) (vm (vector_scatter_q_16 ops s))"
proof -
  let ?q = "vand_VR ops (vec_of_halves (half_predicates s)) (- 1)"
  have q2: "uniform_pred 2 ?q" "\<And>i. i < 64 \<Longrightarrow> ?q ! (2 * i) = (half_predicates s ! i \<noteq> 0)"
    using vand_halves [of "half_predicates s"] q arrays_okD [OF ok(1)] by (auto simp: preds_ok_def)
  have "upd_fold (\<lambda>i. ?q ! (2 * i)) (idx16 s) (\<lambda>i _. hlane (vec_of_halves (half_q_values s)) i) [0..<64] xs =
    upd_fold (\<lambda>i. half_predicates s ! i \<noteq> 0) (idx16 s) (\<lambda>i _. half_q_values s ! i) [0..<64] xs" for xs
    by (rule upd_fold_cong) (auto simp: arrays_okD [OF ok(1)] q2)
  then show ?thesis
    using scatter_sem_16 [OF ok, of "vscatter16 s" "\<lambda>i. ?q ! (2 * i)" "\<lambda>i _. hlane (vec_of_halves (half_q_values s)) i" "vm s"]
    by (simp add: vector_scatter_q_16_def Let_def release
        scatter_q_h [OF al vec_ok_halves vec_ok_halves offsets_ok_16 [OF ok] q2(1)] arrays_okD [OF ok(1)])
qed

lemma vector_gather_16_effect:
  assumes ok: "arrays_ok s" "offs16_ok s" and al: "aligned 2 (vscatter16 s)" "aligned 128 (vgather16 s)"
  shows "e16.rewritten (vgather16 s) 64
      (upd_fold (\<lambda>_. True) (\<lambda>i. i) (\<lambda>i _. load16 (vm s) (vscatter16 s + of_nat (2 * idx16 s i))) [0..<64]
        (e16.region (vm s) (vgather16 s) 64)) (vm s) (vm (vector_gather_16 ops s))"
  using gather_sem_16 [OF ok, of "vgather16 s" "\<lambda>_. True" "vm s" "vscatter16 s"]
  by (simp add: vector_gather_16_def Let_def arrays_okD [OF ok(1)]
      gather_h [OF al(2,1) vec_ok_halves offsets_ok_16 [OF ok]] del: of_nat_mult)

lemma vector_gather_q_16_effect:
  assumes ok: "arrays_ok s" "offs16_ok s" and al: "aligned 2 (vscatter16 s)" "aligned 128 (vgather16 s)"
    and q: "preds_ok s" and ap: "bufs_apart (vgather16 s) 128 (vscatter16 s) 8192"
  shows "e16.rewritten (vgather16 s) 64
      (upd_fold (\<lambda>i. half_predicates s ! i \<noteq> 0) (\<lambda>i. i)
        (\<lambda>i _. load16 (vm s) (vscatter16 s + of_nat (2 * idx16 s i))) [0..<64]
        (replicate 64 gather_q_16_init)) (vm s) (vm (vector_gather_q_16 ops s))"
proof -
  let ?q = "vand_VR ops (vec_of_halves (half_predicates s)) (- 1)"
  let ?m = "store_vec (vgather16 s) (vec_of_halves (replicate 64 gather_q_16_init)) (vm s)"
  have q2: "uniform_pred 2 ?q" "\<And>i. i < 64 \<Longrightarrow> ?q ! (2 * i) = (half_predicates s ! i \<noteq> 0)"
    using vand_halves [of "half_predicates s"] q arrays_okD [OF ok(1)] by (auto simp: preds_ok_def)
  have m: "e16.rewritten (vgather16 s) 64 (replicate 64 gather_q_16_init) (vm s) ?m"
    by (rule store_vec_16) simp
  have "2 * idx16 s i + 2 \<le> 8192" if "i < 64" for i
    using hoffs_half_offsets(4) [OF ok that] by simp
  then have "upd_fold (\<lambda>i. ?q ! (2 * i)) (\<lambda>i. i) (\<lambda>i _. load16 ?m (vscatter16 s + of_nat (2 * idx16 s i))) [0..<64] xs =
    upd_fold (\<lambda>i. half_predicates s ! i \<noteq> 0) (\<lambda>i. i)
      (\<lambda>i _. load16 (vm s) (vscatter16 s + of_nat (2 * idx16 s i))) [0..<64] xs" for xs
    by (intro upd_fold_cong) (auto simp: q2 rewritten_load16 [OF m ap] simp del: of_nat_mult)
  moreover have "vsplat_R ops (ucast gather_q_16_init) = vec_of_halves (replicate 64 gather_q_16_init)"
    by (simp add: vsplat gather_q_16_init_def)
  ultimately show ?thesis
    using gather_sem_16 [OF ok, of "vgather16 s" "\<lambda>i. ?q ! (2 * i)" ?m "vscatter16 s"]
      e16.rewritten_trans [OF m] e16.rewrittenD(1) [OF m]
    by (simp add: vector_gather_q_16_def Let_def arrays_okD [OF ok(1)]
        gather_q_h [OF al(2,1) vec_ok_halves offsets_ok_16 [OF ok] q2(1)] del: of_nat_mult)
qed

end

subsection \<open>32 bit elements, 32 bit offsets\<close>

lemma words_lanes:
  assumes "length xs = 64" and "i < 32"
  shows "wlane (words_lo xs) i = xs ! i" "wlane (words_hi xs) i = xs ! (32 + i)"
  using assms by (simp_all add: words_lo_def words_hi_def MATRIX_SIZE_def)

lemma vec_ok_words: "length xs = 64 \<Longrightarrow> vec_ok (words_lo xs)" "length xs = 64 \<Longrightarrow> vec_ok (words_hi xs)"
  by (simp_all add: vec_ok_def words_lo_def words_hi_def MATRIX_SIZE_def)

lemma word_offset_32:
  assumes "offs32_ok s" and "i < 64"
  shows "aligned 4 (word_offsets s ! i) \<and> word_offsets s ! i \<le> region_len \<and>
    unat (word_offsets s ! i) div 4 < 4096"
  using assms by (auto simp: offs32_ok_def aligned_def word_le_nat_alt region_len_val)

lemma offsets_ok_32:
  assumes "arrays_ok s" and "offs32_ok s"
  shows "offsets_ok 4 32 (wlane (words_lo (word_offsets s)))" "offsets_ok 4 32 (wlane (words_hi (word_offsets s)))"
  using word_offset_32 [OF assms(2)] words_lanes [OF arrays_okD(2) [OF assms(1)]]
  by (auto simp: offsets_ok_def)

text \<open>The low and the high scatter together are one loop over the 64 elements.\<close>

lemma scatter_sem_32:
  assumes ok: "arrays_ok s" "offs32_ok s"
    and en: "\<And>i. i < 32 \<Longrightarrow> en_lo i = en i \<and> en_hi i = en (32 + i)"
    and f: "\<And>i. i < 32 \<Longrightarrow> f_lo i = f i \<and> f_hi i = f (32 + i)"
  shows "e32.rewritten p 4096 (upd_fold en (idx32 s) f [0..<64] (e32.region m p 4096)) m
    (scatter_sem store32 load32 p region_len (wlane (words_hi (word_offsets s))) en_hi f_hi 32
      (scatter_sem store32 load32 p region_len (wlane (words_lo (word_offsets s))) en_lo f_lo 32 m))"
proof -
  let ?lo = "wlane (words_lo (word_offsets s))" and ?hi = "wlane (words_hi (word_offsets s))"
  let ?m = "scatter_sem store32 load32 p region_len ?lo en_lo f_lo 32 m"
  note lane = words_lanes [OF arrays_okD(2) [OF ok(1)]]
  have 1: "e32.rewritten p 4096 (upd_fold en_lo (\<lambda>i. unat (?lo i) div 4) f_lo [0..<32] (e32.region m p 4096)) m ?m"
    using word_offset_32 [OF ok(2)] by (intro e32.scatter_sem_rewritten) (auto simp: lane)
  have 2: "e32.rewritten p 4096 (upd_fold en_hi (\<lambda>i. unat (?hi i) div 4) f_hi [0..<32] (e32.region ?m p 4096)) ?m
      (scatter_sem store32 load32 p region_len ?hi en_hi f_hi 32 ?m)"
    using word_offset_32 [OF ok(2)] by (intro e32.scatter_sem_rewritten) (auto simp: lane)
  have lo: "upd_fold en_lo (\<lambda>i. unat (?lo i) div 4) f_lo [0..<32] xs = upd_fold en (idx32 s) f [0..<32] xs" for xs
    by (rule upd_fold_cong) (auto simp: lane en f idx32_def)
  have hi: "upd_fold en_hi (\<lambda>i. unat (?hi i) div 4) f_hi [0..<32] xs =
      upd_fold (\<lambda>i. en (32 + i)) (\<lambda>i. idx32 s (32 + i)) (\<lambda>i. f (32 + i)) [0..<32] xs" for xs
    by (rule upd_fold_cong) (auto simp: lane en f idx32_def)
  show ?thesis
    using e32.rewritten_trans [OF 1 2] unfolding e32.rewrittenD(1) [OF 1] lo hi upd_fold_halves [of en] .
qed

lemma rewritten_load32:
  assumes "e32.rewritten d 64 xs m m'" and "bufs_apart d 256 b n" and "4 * k + 4 \<le> n"
  shows "load32 m' (b + of_nat (4 * k)) = load32 m (b + of_nat (4 * k))"
proof (rule e32.ld_cong)
  fix l :: nat assume "l < 4"
  then have "d + of_nat j \<noteq> b + of_nat (4 * k + l)" if "j < 4 * 64" for j
    using assms(2,3) that by (simp add: bufs_apart_def del: of_nat_add of_nat_mult)
  then have "m' (b + of_nat (4 * k + l)) = m (b + of_nat (4 * k + l))"
    using e32.rewrittenD(2) [OF assms(1), of "b + of_nat (4 * k + l)"] by metis
  then show "m' (b + of_nat (4 * k) + of_nat l) = m (b + of_nat (4 * k) + of_nat l)"
    by (simp add: ac_simps)
qed

text \<open>The two gathers together; the second one still reads the original scatter buffer.\<close>

lemma gather_sem_32:
  assumes ok: "arrays_ok s" "offs32_ok s" and ap: "bufs_apart d 256 b 16384"
    and en: "\<And>i. i < 32 \<Longrightarrow> en_lo i = en i \<and> en_hi i = en (32 + i)"
  shows "e32.rewritten d 64
    (upd_fold en (\<lambda>i. i) (\<lambda>i _. load32 m (b + of_nat (4 * idx32 s i))) [0..<64] (e32.region m d 64)) m
    (gather_sem store32 load32 4 (d + of_nat (MATRIX_SIZE * 2)) b region_len (wlane (words_hi (word_offsets s))) en_hi 32
      (gather_sem store32 load32 4 d b region_len (wlane (words_lo (word_offsets s))) en_lo 32 m))"
proof -
  let ?lo = "wlane (words_lo (word_offsets s))" and ?hi = "wlane (words_hi (word_offsets s))"
  let ?m = "gather_sem store32 load32 4 d b region_len ?lo en_lo 32 m"
  note lane = words_lanes [OF arrays_okD(2) [OF ok(1)]]
  have off: "of_nat (4 * idx32 s i) = word_offsets s ! i" "4 * idx32 s i + 4 \<le> 16384" if "i < 64" for i
    using e32.offset_elem [of "word_offsets s ! i"] word_offset_32 [OF ok(2) that] by (simp_all add: idx32_def)
  have 1: "e32.rewritten d 64 (upd_fold en_lo (\<lambda>i. i) (\<lambda>i _. load32 m (b + ?lo i)) [0..<32] (e32.region m d 64)) m ?m"
    using word_offset_32 [OF ok(2)] by (intro e32.gather_sem_rewritten) (auto simp: lane)
  have "gather_sem store32 load32 4 (d + of_nat (MATRIX_SIZE * 2)) b region_len ?hi en_hi 32 ?m =
      e32.update_loop d en_hi (\<lambda>i. 32 + i) (\<lambda>i _. load32 ?m (b + ?hi i)) [0..<32] ?m"
    unfolding gather_sem_def e32.update_loop_def
    by (rule fold_cong) (use word_offset_32 [OF ok(2)] in \<open>auto simp: lane MATRIX_SIZE_def ac_simps\<close>)
  then have 2: "e32.rewritten d 64
      (upd_fold en_hi (\<lambda>i. 32 + i) (\<lambda>i _. load32 ?m (b + ?hi i)) [0..<32] (e32.region ?m d 64)) ?m
      (gather_sem store32 load32 4 (d + of_nat (MATRIX_SIZE * 2)) b region_len ?hi en_hi 32 ?m)"
    using e32.update_loop_rewritten [of "[0..<32]" en_hi "\<lambda>i. 32 + i" 64] by simp
  have lo: "upd_fold en_lo (\<lambda>i. i) (\<lambda>i _. load32 m (b + ?lo i)) [0..<32] xs =
      upd_fold en (\<lambda>i. i) (\<lambda>i _. load32 m (b + of_nat (4 * idx32 s i))) [0..<32] xs" for xs
    by (rule upd_fold_cong) (auto simp: lane en off simp del: of_nat_mult)
  have "load32 ?m (b + ?hi i) = load32 m (b + of_nat (4 * idx32 s (32 + i)))" if "i < 32" for i
    using rewritten_load32 [OF 1 ap off(2), of "32 + i"] that
    by (simp add: lane off(1) [symmetric] del: of_nat_mult)
  then have hi: "upd_fold en_hi (\<lambda>i. 32 + i) (\<lambda>i _. load32 ?m (b + ?hi i)) [0..<32] xs =
      upd_fold (\<lambda>i. en (32 + i)) (\<lambda>i. 32 + i) (\<lambda>i _. load32 m (b + of_nat (4 * idx32 s (32 + i)))) [0..<32] xs" for xs
    by (intro upd_fold_cong) (auto simp: en simp del: of_nat_mult)
  show ?thesis
    using e32.rewritten_trans [OF 1 2] unfolding e32.rewrittenD(1) [OF 1] lo hi upd_fold_halves [of en] .
qed

lemma vec_of_halves_replicate:
  "bytes16 v = [c, c] \<Longrightarrow> vec_of_halves (replicate n v) = replicate (2 * n) c"
  by (induction n) (simp_all add: vec_of_halves_def)

lemma store_vec_splat:
  "store_vec a (replicate 128 c) m x = (if unat (x - a) < 128 then c else m x)"
  by (simp add: store_vec_def)

text \<open>The prefill of the word gather buffer by two splat stores.\<close>

lemma store_splat_32:
  "e32.rewritten d 64 (replicate 64 gather_q_32_init) m
    (store_vec (d + of_nat (MATRIX_SIZE * 2)) (replicate 128 0x3f) (store_vec d (replicate 128 0x3f) m))"
proof -
  let ?m = "store_vec (d + of_nat (MATRIX_SIZE * 2)) (replicate 128 0x3f) (store_vec d (replicate 128 0x3f) m)"
  have dist: "unat (d + of_nat k - d) = k" if "k < 256" for k
    using that by (simp add: unsigned_of_nat take_bit_nat_eq_self)
  have dist2: "unat (d + of_nat k - (d + of_nat (MATRIX_SIZE * 2))) = k - 128" if "k < 256" "128 \<le> k" for k
  proof -
    have "d + of_nat k - (d + of_nat (MATRIX_SIZE * 2)) = (of_nat (k - 128) :: u32)"
      using that by (simp add: MATRIX_SIZE_def of_nat_diff)
    then show ?thesis using that by (simp only: unsigned_of_nat) (simp add: take_bit_nat_eq_self)
  qed
  have byte: "?m (d + of_nat k) = 0x3f" if "k < 256" for k
  proof (cases "k < 128")
    case True
    then show ?thesis using dist [of k] by (simp add: store_vec_splat)
  next
    case False
    then have "unat (d + of_nat k - (d + of_nat (MATRIX_SIZE * 2))) < 128"
      using dist2 [of k] that by linarith
    then show ?thesis by (simp only: store_vec_splat if_True)
  qed
  have "e32.region ?m d 64 = replicate 64 gather_q_32_init"
  proof (rule nth_equalityI)
    fix i assume "i < length (e32.region ?m d 64)"
    then have i: "i < 64" by simp
    have "d + of_nat (4 * i) + 1 = d + of_nat (4 * i + 1)" "d + of_nat (4 * i) + 2 = d + of_nat (4 * i + 2)"
      "d + of_nat (4 * i) + 3 = d + of_nat (4 * i + 3)" by simp_all
    then have "load32 ?m (d + of_nat (4 * i)) = of_bytes32 0x3f 0x3f 0x3f 0x3f"
      using byte [of "4 * i"] byte [of "4 * i + 1"] byte [of "4 * i + 2"] byte [of "4 * i + 3"] i
      by (simp only: load32_def)
    then show "e32.region ?m d 64 ! i = replicate 64 gather_q_32_init ! i"
      using i by (simp add: of_bytes32_def gather_q_32_init_def del: of_nat_mult)
  qed simp
  moreover have "?m a = m a" if "\<forall>k<4 * 64. a \<noteq> d + of_nat k" for a
  proof -
    have "\<not> unat (a - d) < 128" using that [rule_format, of "unat (a - d)"] by auto
    moreover have "\<not> unat (a - (d + of_nat (MATRIX_SIZE * 2))) < 128"
      using that [rule_format, of "128 + unat (a - (d + of_nat (MATRIX_SIZE * 2)))"]
      by (auto simp: MATRIX_SIZE_def)
    ultimately show ?thesis by (simp add: store_vec_splat)
  qed
  ultimately show ?thesis by (simp add: e32.rewritten_def)
qed

lemma preds_words:
  assumes "arrays_ok s" "preds_ok s"
  shows "length (take 32 (word_predicates s)) = 32" "set (take 32 (word_predicates s)) \<subseteq> {0, - 1}"
    "length (drop 32 (word_predicates s)) = 32" "set (drop 32 (word_predicates s)) \<subseteq> {0, - 1}"
  using assms set_take_subset [of 32 "word_predicates s"] set_drop_subset [of 32 "word_predicates s"]
  by (auto simp: preds_ok_def arrays_okD [OF assms(1)])

context hvx_unit
begin

lemma vector_scatter_32_effect:
  assumes ok: "arrays_ok s" "offs32_ok s" and al: "aligned 4 (vscatter32 s)"
  shows "e32.rewritten (vscatter32 s) 4096
      (upd_fold (\<lambda>_. True) (idx32 s) (\<lambda>i _. word_values s ! i) [0..<64]
        (e32.region (vm s) (vscatter32 s) 4096)) (vm s) (vm (vector_scatter_32 ops s))"
  unfolding vector_scatter_32_def Let_def
  by (simp add: release scatter_w [OF al vec_ok_words(1) vec_ok_words(1) offsets_ok_32(1) [OF ok]]
      scatter_w [OF al vec_ok_words(2) vec_ok_words(2) offsets_ok_32(2) [OF ok]] arrays_okD [OF ok(1)])
    (rule scatter_sem_32 [OF ok], simp_all add: words_lanes arrays_okD [OF ok(1)])

lemma vector_scatter_acc_32_effect:
  assumes ok: "arrays_ok s" "offs32_ok s" and al: "aligned 4 (vscatter32 s)"
  shows "e32.rewritten (vscatter32 s) 4096
      (upd_fold (\<lambda>_. True) (idx32 s) (\<lambda>i x. x + word_acc_values s ! i) [0..<64]
        (e32.region (vm s) (vscatter32 s) 4096)) (vm s) (vm (vector_scatter_acc_32 ops s))"
  unfolding vector_scatter_acc_32_def Let_def
  by (simp add: release scatteracc_w [OF al vec_ok_words(1) vec_ok_words(1) offsets_ok_32(1) [OF ok]]
      scatteracc_w [OF al vec_ok_words(2) vec_ok_words(2) offsets_ok_32(2) [OF ok]] arrays_okD [OF ok(1)])
    (rule scatter_sem_32 [OF ok], simp_all add: words_lanes arrays_okD [OF ok(1)])

lemma vand_word_preds:
  assumes "arrays_ok s" "preds_ok s"
  shows "uniform_pred 4 (vand_VR ops (words_lo (word_predicates s)) (- 1))"
    "uniform_pred 4 (vand_VR ops (words_hi (word_predicates s)) (- 1))"
    "i < 32 \<Longrightarrow> vand_VR ops (words_lo (word_predicates s)) (- 1) ! (4 * i) = (word_predicates s ! i \<noteq> 0)"
    "i < 32 \<Longrightarrow> vand_VR ops (words_hi (word_predicates s)) (- 1) ! (4 * i) = (word_predicates s ! (32 + i) \<noteq> 0)"
  using vand_words [OF preds_words(1,2) [OF assms]] vand_words [OF preds_words(3,4) [OF assms]]
  by (simp_all add: words_lo_def words_hi_def MATRIX_SIZE_def arrays_okD [OF assms(1)])

lemma vector_scatter_q_32_effect:
  assumes ok: "arrays_ok s" "offs32_ok s" and al: "aligned 4 (vscatter32 s)" and q: "preds_ok s"
  shows "e32.rewritten (vscatter32 s) 4096
      (upd_fold (\<lambda>i. word_predicates s ! i \<noteq> 0) (idx32 s) (\<lambda>i _. word_q_values s ! i) [0..<64]
        (e32.region (vm s) (vscatter32 s) 4096)) (vm s) (vm (vector_scatter_q_32 ops s))"
  unfolding vector_scatter_q_32_def Let_def
  by (simp add: release arrays_okD [OF ok(1)]
      scatter_q_w [OF al vec_ok_words(1) vec_ok_words(1) offsets_ok_32(1) [OF ok] vand_word_preds(1) [OF ok(1) q]]
      scatter_q_w [OF al vec_ok_words(2) vec_ok_words(2) offsets_ok_32(2) [OF ok] vand_word_preds(2) [OF ok(1) q]])
    (rule scatter_sem_32 [OF ok], simp_all add: words_lanes vand_word_preds(3,4) [OF ok(1) q] arrays_okD [OF ok(1)])

lemma vector_gather_32_effect:
  assumes ok: "arrays_ok s" "offs32_ok s" and al: "aligned 4 (vscatter32 s)" "aligned 128 (vgather32 s)"
    "aligned 128 (vgather32 s + of_nat (MATRIX_SIZE * 2))"
    and ap: "bufs_apart (vgather32 s) 256 (vscatter32 s) 16384"
  shows "e32.rewritten (vgather32 s) 64
      (upd_fold (\<lambda>_. True) (\<lambda>i. i) (\<lambda>i _. load32 (vm s) (vscatter32 s + of_nat (4 * idx32 s i))) [0..<64]
        (e32.region (vm s) (vgather32 s) 64)) (vm s) (vm (vector_gather_32 ops s))"
  using gather_sem_32 [OF ok ap, of "\<lambda>_. True" "\<lambda>_. True" "\<lambda>_. True" "vm s"]
  unfolding vector_gather_32_def Let_def
  by (simp add: gather_w [OF al(2,1) vec_ok_words(1) offsets_ok_32(1) [OF ok]]
      gather_w [OF al(3,1) vec_ok_words(2) offsets_ok_32(2) [OF ok]] arrays_okD [OF ok(1)] del: of_nat_mult)

lemma vector_gather_q_32_effect:
  assumes ok: "arrays_ok s" "offs32_ok s" and al: "aligned 4 (vscatter32 s)" "aligned 128 (vgather32 s)"
    "aligned 128 (vgather32 s + of_nat (MATRIX_SIZE * 2))"
    and q: "preds_ok s" and ap: "bufs_apart (vgather32 s) 256 (vscatter32 s) 16384"
  shows "e32.rewritten (vgather32 s) 64
      (upd_fold (\<lambda>i. word_predicates s ! i \<noteq> 0) (\<lambda>i. i)
        (\<lambda>i _. load32 (vm s) (vscatter32 s + of_nat (4 * idx32 s i))) [0..<64]
        (replicate 64 gather_q_32_init)) (vm s) (vm (vector_gather_q_32 ops s))"
proof -
  let ?m = "store_vec (vgather32 s + of_nat (MATRIX_SIZE * 2)) (replicate 128 0x3f)
    (store_vec (vgather32 s) (replicate 128 0x3f) (vm s))"
  have "bytes16 (ucast gather_q_32_init) = [0x3f, 0x3f]"
    by (simp add: bytes16_def gather_q_32_init_def)
  from vec_of_halves_replicate [OF this, of 64]
  have splat: "vsplat_R ops gather_q_32_init = replicate 128 0x3f" by (simp add: vsplat)
  have m: "e32.rewritten (vgather32 s) 64 (replicate 64 gather_q_32_init) (vm s) ?m"
    by (rule store_splat_32)
  have "4 * idx32 s i + 4 \<le> 16384" if "i < 64" for i
    using word_offset_32 [OF ok(2) that] by (simp add: idx32_def)
  then have ld: "upd_fold en (\<lambda>i. i) (\<lambda>i _. load32 ?m (vscatter32 s + of_nat (4 * idx32 s i))) [0..<64] xs =
      upd_fold en (\<lambda>i. i) (\<lambda>i _. load32 (vm s) (vscatter32 s + of_nat (4 * idx32 s i))) [0..<64] xs" for en xs
    by (intro upd_fold_cong) (auto simp: rewritten_load32 [OF m ap] simp del: of_nat_mult)
  let ?lo = "\<lambda>i. vand_VR ops (words_lo (word_predicates s)) (- 1) ! (4 * i)"
  let ?hi = "\<lambda>i. vand_VR ops (words_hi (word_predicates s)) (- 1) ! (4 * i)"
  have "e32.rewritten (vgather32 s) 64
      (upd_fold (\<lambda>i. word_predicates s ! i \<noteq> 0) (\<lambda>i. i)
        (\<lambda>i _. load32 ?m (vscatter32 s + of_nat (4 * idx32 s i))) [0..<64]
        (e32.region ?m (vgather32 s) 64)) ?m (vm (vector_gather_q_32 ops s))"
    using gather_sem_32 [OF ok ap, of ?lo "\<lambda>i. word_predicates s ! i \<noteq> 0" ?hi ?m]
    unfolding vector_gather_q_32_def Let_def splat
    by (simp add: vand_word_preds(3,4) [OF ok(1) q] arrays_okD [OF ok(1)]
        gather_q_w [OF al(2,1) vec_ok_words(1) offsets_ok_32(1) [OF ok] vand_word_preds(1) [OF ok(1) q]]
        gather_q_w [OF al(3,1) vec_ok_words(2) offsets_ok_32(2) [OF ok] vand_word_preds(2) [OF ok(1) q]]
        del: of_nat_mult)
  from e32.rewritten_trans [OF m this] show ?thesis
    by (simp only: e32.rewrittenD(1) [OF m] ld)
qed

end

subsection \<open>16 bit elements, 32 bit offsets\<close>

lemma pair_offset_words:
  assumes "length xs = 64" and "k < 64"
  shows "pair_offset (words_pair xs) k = xs ! shuffled k"
proof -
  have k: "k div 2 < 32" using assms(2) by simp
  show ?thesis
    using words_lanes [OF assms(1) k]
    by (cases "even k") (auto simp: pair_offset_def words_pair_def shuffled_def mod2_eq_if add.commute)
qed

lemma shuffled_less: "k < 64 \<Longrightarrow> shuffled k < 64"
  by (auto simp: shuffled_def mod2_eq_if)

lemma word_offset_16_32:
  assumes "offs16_32_ok s" and "i < 64"
  shows "aligned 2 (word_offsets s ! i) \<and> word_offsets s ! i \<le> region_len \<and>
    unat (word_offsets s ! i) div 2 < 4096"
  using assms by (auto simp: offs16_32_ok_def aligned_def word_le_nat_alt region_len_val)

lemma offsets_ok_16_32:
  assumes "arrays_ok s" and "offs16_32_ok s"
  shows "offsets_ok 2 64 (pair_offset (words_pair (word_offsets s)))"
  using word_offset_16_32 [OF assms(2)] shuffled_less
  by (simp add: offsets_ok_def pair_offset_words [OF arrays_okD(2) [OF assms(1)]])

lemma idx16_32_inj:
  assumes "arrays_ok s" and "offs16_32_ok s"
  shows "inj_on (idx16_32 s) {0..<64}"
proof (rule inj_onI)
  fix i j assume *: "i \<in> {0..<64}" "j \<in> {0..<64}" "idx16_32 s i = idx16_32 s j"
  have "unat (word_offsets s ! i) mod 2 = 0" "unat (word_offsets s ! j) mod 2 = 0"
    using assms(2) * by (simp_all add: offs16_32_ok_def)
  with *(3) have "unat (word_offsets s ! i) = unat (word_offsets s ! j)"
    unfolding idx16_32_def by (metis div_mult_mod_eq)
  then have "word_offsets s ! i = word_offsets s ! j" by (simp only: word_unat_eq_iff)
  then show "i = j"
    using * assms by (simp add: offs16_32_ok_def nth_eq_iff_index_eq arrays_okD)
qed

lemma scatter_sem_16_32:
  assumes ok: "arrays_ok s" "offs16_32_ok s"
    and en: "\<And>k. k < 64 \<Longrightarrow> en' k = en (shuffled k)" and f: "\<And>k. k < 64 \<Longrightarrow> f' k = f (shuffled k)"
  shows "e16.rewritten p 4096 (upd_fold en (idx16_32 s) f [0..<64] (e16.region m p 4096)) m
    (scatter_sem store16 load16 p region_len (pair_offset (words_pair (word_offsets s))) en' f' 64 m)"
proof -
  let ?o = "pair_offset (words_pair (word_offsets s))"
  note off = pair_offset_words [OF arrays_okD(2) [OF ok(1)]]
  have 1: "e16.rewritten p 4096 (upd_fold en' (\<lambda>i. unat (?o i) div 2) f' [0..<64] (e16.region m p 4096)) m
    (scatter_sem store16 load16 p region_len ?o en' f' 64 m)"
    by (rule e16.scatter_sem_rewritten)
      (use word_offset_16_32 [OF ok(2)] shuffled_less in \<open>auto simp: off\<close>)
  have "upd_fold en' (\<lambda>i. unat (?o i) div 2) f' [0..<64] xs =
      upd_fold (\<lambda>k. en (shuffled k)) (\<lambda>k. idx16_32 s (shuffled k)) (\<lambda>k. f (shuffled k)) [0..<64] xs" for xs
    by (rule upd_fold_cong) (auto simp: off en f idx16_32_def)
  with 1 show ?thesis by (simp only: upd_fold_shuffled [OF idx16_32_inj [OF ok]])
qed

context hvx_unit
begin

lemma hlane_shuff:
  assumes "length xs = 64" and "k < 64"
  shows "hlane (vshuff_Vh ops (vec_of_halves xs)) k = xs ! shuffled k"
proof -
  have "shuffled k < 64" using assms(2) by (rule shuffled_less)
  then have "hlane (vec_of_halves xs) (k div 2 + 32 * (k mod 2)) = xs ! shuffled k"
    using assms(1) by (simp add: shuffled_def)
  then show ?thesis
    using assms by (simp add: vshuff [OF vec_ok_halves [OF assms(1)]] del: hlane_vec_of_halves(1)
        add: hlane_vec_of_halves [of _ "map _ _"])
qed

lemma vec_ok_shuff: "length xs = 64 \<Longrightarrow> vec_ok (vshuff_Vh ops (vec_of_halves xs))"
  by (simp add: vshuff vec_ok_def)

lemma vec_ok_pair: "length xs = 64 \<Longrightarrow> vec_ok (fst (words_pair xs))" "length xs = 64 \<Longrightarrow> vec_ok (snd (words_pair xs))"
  by (simp_all add: words_pair_def vec_ok_words)

lemma vector_scatter_16_32_effect:
  assumes ok: "arrays_ok s" "offs16_32_ok s" and al: "aligned 2 (vscatter16_32 s)"
  shows "e16.rewritten (vscatter16_32 s) 4096
      (upd_fold (\<lambda>_. True) (idx16_32 s) (\<lambda>i _. half_values s ! i) [0..<64]
        (e16.region (vm s) (vscatter16_32 s) 4096)) (vm s) (vm (vector_scatter_16_32 ops s))"
  unfolding vector_scatter_16_32_def Let_def
  by (simp add: release arrays_okD [OF ok(1)]
      scatter_ww [OF al vec_ok_shuff vec_ok_pair offsets_ok_16_32 [OF ok]])
    (rule scatter_sem_16_32 [OF ok], simp_all add: hlane_shuff arrays_okD [OF ok(1)])

lemma vector_scatter_acc_16_32_effect:
  assumes ok: "arrays_ok s" "offs16_32_ok s" and al: "aligned 2 (vscatter16_32 s)"
  shows "e16.rewritten (vscatter16_32 s) 4096
      (upd_fold (\<lambda>_. True) (idx16_32 s) (\<lambda>i x. x + half_acc_values s ! i) [0..<64]
        (e16.region (vm s) (vscatter16_32 s) 4096)) (vm s) (vm (vector_scatter_acc_16_32 ops s))"
  unfolding vector_scatter_acc_16_32_def Let_def
  by (simp add: release arrays_okD [OF ok(1)]
      scatteracc_ww [OF al vec_ok_shuff vec_ok_pair offsets_ok_16_32 [OF ok]])
    (rule scatter_sem_16_32 [OF ok], simp_all add: hlane_shuff arrays_okD [OF ok(1)])

text \<open>The shuffled predicate selects the shuffled lanes.\<close>

lemma vand_shuff:
  assumes "arrays_ok s" "preds_ok s"
  shows "uniform_pred 2 (vand_VR ops (vshuff_Vh ops (vec_of_halves (half_predicates s))) (- 1))"
    and "k < 64 \<Longrightarrow> vand_VR ops (vshuff_Vh ops (vec_of_halves (half_predicates s))) (- 1) ! (2 * k) =
      (half_predicates s ! shuffled k \<noteq> 0)"
proof -
  let ?xs = "map (\<lambda>k. hlane (vec_of_halves (half_predicates s)) (k div 2 + 32 * (k mod 2))) [0..<64]"
  have len: "length (half_predicates s) = 64" by (simp add: arrays_okD [OF assms(1)])
  have nth: "?xs ! k = half_predicates s ! shuffled k" if "k < 64" for k
    using that shuffled_less [OF that] len by (simp add: shuffled_def)
  have set_xs: "set ?xs \<subseteq> {0, - 1}"
  proof
    fix x assume "x \<in> set ?xs"
    then obtain k where "k < 64" "x = ?xs ! k" by (auto simp: in_set_conv_nth)
    then have "x = half_predicates s ! shuffled k" "shuffled k < length (half_predicates s)"
      using nth shuffled_less len by auto
    then have "x \<in> set (half_predicates s)" using nth_mem by blast
    then show "x \<in> {0, - 1}" using assms(2) by (auto simp: preds_ok_def)
  qed
  have sh: "vshuff_Vh ops (vec_of_halves (half_predicates s)) = vec_of_halves ?xs"
    by (rule vshuff [OF vec_ok_halves [OF len]])
  show "uniform_pred 2 (vand_VR ops (vshuff_Vh ops (vec_of_halves (half_predicates s))) (- 1))"
    unfolding sh by (rule vand_halves(1) [OF _ set_xs]) simp
  show "vand_VR ops (vshuff_Vh ops (vec_of_halves (half_predicates s))) (- 1) ! (2 * k) =
      (half_predicates s ! shuffled k \<noteq> 0)" if "k < 64"
    unfolding sh using vand_halves(2) [OF _ set_xs that] nth [OF that] by simp
qed

lemma vector_scatter_q_16_32_effect:
  assumes ok: "arrays_ok s" "offs16_32_ok s" and al: "aligned 2 (vscatter16_32 s)" and q: "preds_ok s"
  shows "e16.rewritten (vscatter16_32 s) 4096
      (upd_fold (\<lambda>i. half_predicates s ! i \<noteq> 0) (idx16_32 s) (\<lambda>i _. half_q_values s ! i) [0..<64]
        (e16.region (vm s) (vscatter16_32 s) 4096)) (vm s) (vm (vector_scatter_q_16_32 ops s))"
  unfolding vector_scatter_q_16_32_def Let_def
  by (simp add: release arrays_okD [OF ok(1)]
      scatter_q_ww [OF al vec_ok_shuff vec_ok_pair offsets_ok_16_32 [OF ok] vand_shuff(1) [OF ok(1) q]])
    (rule scatter_sem_16_32 [OF ok], simp_all add: hlane_shuff vand_shuff(2) [OF ok(1) q] arrays_okD [OF ok(1)])

text \<open>Gather, read back, deal, write: lane \<open>i\<close> of the result is element \<open>i\<close>.\<close>

lemma gather_deal_16_32:
  assumes ok: "arrays_ok s" "offs16_32_ok s"
    and en: "\<And>k. k < 64 \<Longrightarrow> en' k = en (shuffled k)"
    and X: "length X = 64" "\<And>i. i < 64 \<Longrightarrow> \<not> en i \<Longrightarrow> X ! i = e16.region m d 64 ! (if i < 32 then 2 * i else 2 * (i - 32) + 1)"
    and m': "m' = gather_sem store16 load16 2 d b region_len (pair_offset (words_pair (word_offsets s))) en' 64 m"
  shows "e16.rewritten d 64
    (upd_fold en (\<lambda>i. i) (\<lambda>i _. load16 m (b + of_nat (2 * idx16_32 s i))) [0..<64] X) m
    (store_vec d (vdeal_Vh ops (load_vec m' d)) m')"
proof -
  let ?o = "pair_offset (words_pair (word_offsets s))"
  let ?un = "\<lambda>i::nat. if i < 32 then 2 * i else 2 * (i - 32) + 1"
  let ?r = "upd_fold en (\<lambda>i. i) (\<lambda>i _. load16 m (b + of_nat (2 * idx16_32 s i))) [0..<64] X"
  note off = pair_offset_words [OF arrays_okD(2) [OF ok(1)]]
  have addr: "of_nat (2 * idx16_32 s i) = word_offsets s ! i" if "i < 64" for i
    using e16.offset_elem [of "word_offsets s ! i"] word_offset_16_32 [OF ok(2) that] by (simp add: idx16_32_def)
  have 1: "e16.rewritten d 64 (upd_fold en' (\<lambda>i. i) (\<lambda>i _. load16 m (b + ?o i)) [0..<64] (e16.region m d 64)) m m'"
    unfolding m' by (rule e16.gather_sem_rewritten)
      (use word_offset_16_32 [OF ok(2)] shuffled_less in \<open>auto simp: off\<close>)
  have lane: "hlane (load_vec m' d) k = e16.region m' d 64 ! k" if "k < 64" for k
    using that by (simp add: hlane_def load_vec_def load16_def ac_simps)
  have un: "?un i < 64" "shuffled (?un i) = i" if "i < 64" for i
    using that by (auto simp: shuffled_def)
  have r: "e16.region m' d 64 ! ?un i = ?r ! i" if "i < 64" for i
  proof (cases "en i")
    case True
    then have "e16.region m' d 64 ! ?un i = load16 m (b + ?o (?un i))"
      unfolding e16.rewrittenD(1) [OF 1]
      using upd_fold_nth(2) [of "[0..<64]" "\<lambda>i. i" en' "?un i" "e16.region m d 64" "?un i"] un [OF that] en
      by (simp add: inj_on_def)
    moreover have "?r ! i = load16 m (b + of_nat (2 * idx16_32 s i))"
      using upd_fold_nth(2) [of "[0..<64]" "\<lambda>i. i" en i X i] X(1) that True by (simp add: inj_on_def del: of_nat_mult)
    ultimately show ?thesis using un [OF that] addr [OF that] by (simp add: off del: of_nat_mult)
  next
    case False
    obtain j where j: "j = ?un i" by blast
    then have "j < 64" "\<not> en' j" using un [OF that] en [of j] False by simp_all
    then have "upd_fold en' (\<lambda>i. i) f [0..<64] (e16.region m d 64) ! j = e16.region m d 64 ! j" for f
      by (intro upd_fold_nth(1)) (auto simp: inj_on_def simp del: e16.nth_region)
    then have "e16.region m' d 64 ! ?un i = e16.region m d 64 ! ?un i"
      unfolding e16.rewrittenD(1) [OF 1] j [symmetric] .
    moreover have "?r ! i = X ! i"
      using upd_fold_nth(1) [of "[0..<64]" "\<lambda>i. i" en i X] X(1) that False by (auto simp add: inj_on_def)
    ultimately show ?thesis using X(2) [OF that False] by simp
  qed
  have "vec_ok (load_vec m' d)" by (simp add: vec_ok_def load_vec_def)
  then have "vdeal_Vh ops (load_vec m' d) = vec_of_halves (map (\<lambda>k. hlane (load_vec m' d) (?un k)) [0..<64])"
    by (rule vdeal)
  also have "map (\<lambda>k. hlane (load_vec m' d) (?un k)) [0..<64] = ?r"
  proof (rule nth_equalityI)
    fix i assume "i < length (map (\<lambda>k. hlane (load_vec m' d) (?un k)) [0..<64])"
    then have i: "i < 64" by simp
    then have "map (\<lambda>k. hlane (load_vec m' d) (?un k)) [0..<64] ! i = hlane (load_vec m' d) (?un i)"
      by (simp only: nth_map length_upt nth_upt diff_zero add_0)
    also have "\<dots> = ?r ! i" using lane [OF un(1) [OF i]] r [OF i] by (rule trans)
    finally show "map (\<lambda>k. hlane (load_vec m' d) (?un k)) [0..<64] ! i = ?r ! i" .
  qed (simp add: X(1))
  finally have "vdeal_Vh ops (load_vec m' d) = vec_of_halves ?r" .
  moreover have "e16.rewritten d 64 ?r m' (store_vec d (vec_of_halves ?r) m')"
    by (rule store_vec_16) (simp add: X(1))
  ultimately show ?thesis using e16.rewritten_trans [OF 1] by metis
qed

lemma vector_gather_16_32_effect:
  assumes ok: "arrays_ok s" "offs16_32_ok s" and al: "aligned 2 (vscatter16_32 s)" "aligned 128 (vgather16_32 s)"
  shows "e16.rewritten (vgather16_32 s) 64
      (upd_fold (\<lambda>_. True) (\<lambda>i. i) (\<lambda>i _. load16 (vm s) (vscatter16_32 s + of_nat (2 * idx16_32 s i))) [0..<64]
        (e16.region (vm s) (vgather16_32 s) 64)) (vm s) (vm (vector_gather_16_32 ops s))"
  unfolding vector_gather_16_32_def Let_def
  by (simp add: arrays_okD [OF ok(1)] gather_ww [OF al(2,1) vec_ok_pair offsets_ok_16_32 [OF ok]] del: of_nat_mult)
    (rule gather_deal_16_32 [OF ok _ _ _ refl], simp_all)

lemma vector_gather_q_16_32_effect:
  assumes ok: "arrays_ok s" "offs16_32_ok s" and al: "aligned 2 (vscatter16_32 s)" "aligned 128 (vgather16_32 s)"
    and q: "preds_ok s" and ap: "bufs_apart (vgather16_32 s) 128 (vscatter16_32 s) 8192"
  shows "e16.rewritten (vgather16_32 s) 64
      (upd_fold (\<lambda>i. half_predicates s ! i \<noteq> 0) (\<lambda>i. i)
        (\<lambda>i _. load16 (vm s) (vscatter16_32 s + of_nat (2 * idx16_32 s i))) [0..<64]
        (replicate 64 gather_q_16_init)) (vm s) (vm (vector_gather_q_16_32 ops s))"
proof -
  let ?d = "vgather16_32 s" and ?b = "vscatter16_32 s"
  let ?q = "vand_VR ops (vshuff_Vh ops (vec_of_halves (half_predicates s))) (- 1)"
  let ?m = "store_vec ?d (vec_of_halves (replicate 64 gather_q_16_init)) (vm s)"
  have m: "e16.rewritten ?d 64 (replicate 64 gather_q_16_init) (vm s) ?m"
    by (rule store_vec_16) simp
  have splat: "vsplat_R ops (ucast gather_q_16_init) = vec_of_halves (replicate 64 gather_q_16_init)"
    by (simp add: vsplat gather_q_16_init_def)
  have "2 * idx16_32 s i + 2 \<le> 8192" if "i < 64" for i
    using word_offset_16_32 [OF ok(2) that] by (simp add: idx16_32_def)
  then have ld: "upd_fold en (\<lambda>i. i) (\<lambda>i _. load16 ?m (?b + of_nat (2 * idx16_32 s i))) [0..<64] xs =
      upd_fold en (\<lambda>i. i) (\<lambda>i _. load16 (vm s) (?b + of_nat (2 * idx16_32 s i))) [0..<64] xs" for en xs
    by (intro upd_fold_cong) (auto simp: rewritten_load16 [OF m ap] simp del: of_nat_mult)
  have "e16.rewritten ?d 64
      (upd_fold (\<lambda>i. half_predicates s ! i \<noteq> 0) (\<lambda>i. i) (\<lambda>i _. load16 ?m (?b + of_nat (2 * idx16_32 s i))) [0..<64]
        (replicate 64 gather_q_16_init)) ?m (vm (vector_gather_q_16_32 ops s))"
    unfolding vector_gather_q_16_32_def Let_def splat
    by (simp add: arrays_okD [OF ok(1)] del: of_nat_mult
        add: gather_q_ww [OF al(2,1) vec_ok_pair offsets_ok_16_32 [OF ok] vand_shuff(1) [OF ok(1) q]])
      (rule gather_deal_16_32 [OF ok _ _ _ refl],
       simp_all add: vand_shuff(2) [OF ok(1) q] e16.rewrittenD(1) [OF m] del: e16.nth_region)
  from e16.rewritten_trans [OF m this] show ?thesis by (simp only: ld)
qed

end

end
