(* ===== verification/Scatter_Main.thy ===== *)
theory Scatter_Main
  imports Scatter_Equiv
begin

text \<open>
  The program \<open>src/standalone_vec.c\<close> as a whole: every vector operation agrees with its
  scalar loop, every check passes, and \<open>main\<close> returns 0 on a vector unit that behaves as
  documented.
\<close>

section \<open>The scalar loops\<close>

lemma set_elem_Some: "i < length xs \<Longrightarrow> set_elem i v xs = Some (xs[i := v])"
  by (simp add: set_elem_def)

lemma get_elem_Some: "i < length xs \<Longrightarrow> get_elem i xs = Some (xs ! i)"
  by (simp add: get_elem_def)

lemma idx32_less: "offs32_ok s \<Longrightarrow> i < 64 \<Longrightarrow> idx32 s i < 4096"
  using word_offset_32 by (auto simp: idx32_def)

lemma idx16_32_less: "offs16_32_ok s \<Longrightarrow> i < 64 \<Longrightarrow> idx16_32 s i < 4096"
  using word_offset_16_32 by (auto simp: idx16_32_def)

lemma scalar_16_loops:
  assumes ok: "arrays_ok s" "offs16_ok s" and n: "length xs = 4096"
  shows "scalar_scatter_16 s xs =
      Some (upd_fold (\<lambda>_. True) (idx16 s) (\<lambda>i _. half_values s ! i) [0..<64] xs)"
    and "scalar_scatter_acc_16 s xs =
      Some (upd_fold (\<lambda>_. True) (idx16 s) (\<lambda>i x. x + half_acc_values s ! i) [0..<64] xs)"
    and "scalar_scatter_q_16 s xs =
      Some (upd_fold (\<lambda>i. half_predicates s ! i \<noteq> 0) (idx16 s) (\<lambda>i _. half_q_values s ! i) [0..<64] xs)"
  unfolding scalar_scatter_16_def scalar_scatter_acc_16_def scalar_scatter_q_16_def MATRIX_SIZE_def
    idx16_def [symmetric]
  by (rule for_loop_upd,
      use hoffs_half_offsets(4) [OF ok] n in \<open>simp add: set_elem_Some get_elem_Some Let_def\<close>)+

lemma scalar_gather_16_loops:
  assumes n: "length xs = 64"
  shows "scalar_gather_16 s xs = Some (upd_fold (\<lambda>_. True) (\<lambda>i. i)
      (\<lambda>i _. load16 (vm s) (vscatter16 s + of_nat (2 * idx16 s i))) [0..<64] xs)"
    and "scalar_gather_q_16 s xs = Some (upd_fold (\<lambda>i. half_predicates s ! i \<noteq> 0) (\<lambda>i. i)
      (\<lambda>i _. load16 (vm s) (vscatter16 s + of_nat (2 * idx16 s i))) [0..<64] xs)"
  unfolding scalar_gather_16_def scalar_gather_q_16_def MATRIX_SIZE_def idx16_def
  by (rule for_loop_upd, use n in \<open>simp add: set_elem_Some del: of_nat_mult\<close>)+

lemma scalar_32_loops:
  assumes ok: "arrays_ok s" "offs32_ok s" and n: "length xs = 4096"
  shows "scalar_scatter_32 s xs =
      Some (upd_fold (\<lambda>_. True) (idx32 s) (\<lambda>i _. word_values s ! i) [0..<64] xs)"
    and "scalar_scatter_acc_32 s xs =
      Some (upd_fold (\<lambda>_. True) (idx32 s) (\<lambda>i x. x + word_acc_values s ! i) [0..<64] xs)"
    and "scalar_scatter_q_32 s xs =
      Some (upd_fold (\<lambda>i. word_predicates s ! i \<noteq> 0) (idx32 s) (\<lambda>i _. word_q_values s ! i) [0..<64] xs)"
  unfolding scalar_scatter_32_def scalar_scatter_acc_32_def scalar_scatter_q_32_def MATRIX_SIZE_def
    idx32_def [symmetric]
  by (rule for_loop_upd,
      use idx32_less [OF ok(2)] n in \<open>simp add: set_elem_Some get_elem_Some Let_def\<close>)+

lemma scalar_gather_32_loops:
  assumes n: "length xs = 64"
  shows "scalar_gather_32 s xs = Some (upd_fold (\<lambda>_. True) (\<lambda>i. i)
      (\<lambda>i _. load32 (vm s) (vscatter32 s + of_nat (4 * idx32 s i))) [0..<64] xs)"
    and "scalar_gather_q_32 s xs = Some (upd_fold (\<lambda>i. word_predicates s ! i \<noteq> 0) (\<lambda>i. i)
      (\<lambda>i _. load32 (vm s) (vscatter32 s + of_nat (4 * idx32 s i))) [0..<64] xs)"
  unfolding scalar_gather_32_def scalar_gather_q_32_def MATRIX_SIZE_def idx32_def
  by (rule for_loop_upd, use n in \<open>simp add: set_elem_Some del: of_nat_mult\<close>)+

lemma scalar_16_32_loops:
  assumes ok: "arrays_ok s" "offs16_32_ok s" and n: "length xs = 4096"
  shows "scalar_scatter_16_32 s xs =
      Some (upd_fold (\<lambda>_. True) (idx16_32 s) (\<lambda>i _. half_values s ! i) [0..<64] xs)"
    and "scalar_scatteracc_16_32 s xs =
      Some (upd_fold (\<lambda>_. True) (idx16_32 s) (\<lambda>i x. x + half_acc_values s ! i) [0..<64] xs)"
    and "scalar_scatter_q_16_32 s xs =
      Some (upd_fold (\<lambda>i. half_predicates s ! i \<noteq> 0) (idx16_32 s) (\<lambda>i _. half_q_values s ! i) [0..<64] xs)"
  unfolding scalar_scatter_16_32_def scalar_scatteracc_16_32_def scalar_scatter_q_16_32_def MATRIX_SIZE_def
    idx16_32_def [symmetric]
  by (rule for_loop_upd,
      use idx16_32_less [OF ok(2)] n in \<open>simp add: set_elem_Some get_elem_Some Let_def\<close>)+

lemma scalar_gather_16_32_loops:
  assumes n: "length xs = 64"
  shows "scalar_gather_16_32 s xs = Some (upd_fold (\<lambda>_. True) (\<lambda>i. i)
      (\<lambda>i _. load16 (vm s) (vscatter16_32 s + of_nat (2 * idx16_32 s i))) [0..<64] xs)"
    and "scalar_gather_q_16_32 s xs = Some (upd_fold (\<lambda>i. half_predicates s ! i \<noteq> 0) (\<lambda>i. i)
      (\<lambda>i _. load16 (vm s) (vscatter16_32 s + of_nat (2 * idx16_32 s i))) [0..<64] xs)"
  unfolding scalar_gather_16_32_def scalar_gather_q_16_32_def MATRIX_SIZE_def idx16_32_def
  by (rule for_loop_upd, use n in \<open>simp add: set_elem_Some del: of_nat_mult\<close>)+

section \<open>Buffers and checks\<close>

lemma check_buffer_same:
  assumes "\<And>i. i < n \<Longrightarrow> vm s (c + of_nat i) = r ! i"
  shows "check_buffer name c r n s = s"
  using assms unfolding check_buffer_def by (induction n) simp_all

lemma e16_check_buffer:
  "e16.region (vm s) c n = r \<Longrightarrow> check_buffer name c (concat (map bytes16 r)) (n * 2) s = s"
  by (rule check_buffer_same) (auto simp: e16.region_bytes)

lemma e32_check_buffer:
  "e32.region (vm s) c n = r \<Longrightarrow> check_buffer name c (concat (map bytes32 r)) (n * 4) s = s"
  by (rule check_buffer_same) (auto simp: e32.region_bytes)

text \<open>The addresses that \<open>setup_tcm\<close> computes.\<close>

definition layout :: "'d sg \<Rightarrow> bool" where
  "layout s \<longleftrightarrow> aligned 128 (VTCM_BASE_ADDRESS s) \<and>
     vscatter16 s = VTCM_BASE_ADDRESS s \<and> vgather16 s = VTCM_BASE_ADDRESS s + 8192 \<and>
     vscatter32 s = VTCM_BASE_ADDRESS s + 8320 \<and> vgather32 s = VTCM_BASE_ADDRESS s + 24704 \<and>
     vscatter16_32 s = VTCM_BASE_ADDRESS s + 24960 \<and> vgather16_32 s = VTCM_BASE_ADDRESS s + 33152"

lemma aligned_add:
  assumes "aligned 128 a" and "k mod 128 = 0" and "k < 2 ^ 32"
  shows "aligned 128 (a + of_nat k)"
proof -
  have "unat (a + of_nat k) = (unat a + k) mod 2 ^ 32"
    using assms(3) by (simp add: unat_word_ariths unsigned_of_nat take_bit_nat_eq_self)
  moreover have "(unat a + k) mod 2 ^ 32 mod 128 = (unat a + k) mod 128"
    by (rule mod_mod_cancel) simp
  moreover have "(unat a + k) mod 128 = 0" using assms(1,2) unfolding aligned_def by presburger
  ultimately show ?thesis by (simp only: aligned_def)
qed

lemma aligned_weaken:
  assumes "aligned 128 a"
  shows "aligned 2 a" "aligned 4 a"
proof -
  obtain q where "unat a = 128 * q" using assms by (auto simp: aligned_def)
  then have "unat a = 2 * (64 * q)" "unat a = 4 * (32 * q)" by simp_all
  then show "aligned 2 a" "aligned 4 a" unfolding aligned_def by (metis mod_mult_self1_is_0)+
qed

lemma bufs_apart_offset:
  assumes "x + n \<le> y \<or> y + k \<le> x" and "x + n \<le> 2 ^ 32" and "y + k \<le> 2 ^ 32"
  shows "bufs_apart (b + of_nat x) n (b + of_nat y) k"
  unfolding bufs_apart_def
proof (intro allI impI notI)
  fix i j assume *: "i < n" "j < k" "b + of_nat x + of_nat i = b + of_nat y + of_nat j"
  then have "b + of_nat (x + i) = b + of_nat (y + j)" by (simp add: ac_simps)
  then have "x + i = y + j" by (rule e16.offset_inj [rotated 2]) (use * assms in auto)
  with * assms show False by linarith
qed

lemma layoutD:
  assumes "layout s"
  shows "aligned 128 (vscatter16 s)" "aligned 128 (vgather16 s)" "aligned 128 (vscatter32 s)"
    "aligned 128 (vgather32 s)" "aligned 128 (vgather32 s + of_nat (MATRIX_SIZE * 2))"
    "aligned 128 (vscatter16_32 s)" "aligned 128 (vgather16_32 s)"
    "bufs_apart (vgather16 s) 128 (vscatter16 s) 8192" "bufs_apart (vgather32 s) 256 (vscatter32 s) 16384"
    "bufs_apart (vgather16_32 s) 128 (vscatter16_32 s) 8192"
proof -
  let ?b = "VTCM_BASE_ADDRESS s"
  have b: "aligned 128 ?b" using assms by (simp add: layout_def)
  have ad: "vscatter16 s = ?b + of_nat 0" "vgather16 s = ?b + of_nat 8192" "vscatter32 s = ?b + of_nat 8320"
    "vgather32 s = ?b + of_nat 24704" "vscatter16_32 s = ?b + of_nat 24960" "vgather16_32 s = ?b + of_nat 33152"
    "vgather32 s + of_nat (MATRIX_SIZE * 2) = ?b + of_nat 24832"
    using assms by (simp_all add: layout_def MATRIX_SIZE_def)
  show "aligned 128 (vscatter16 s)" "aligned 128 (vgather16 s)" "aligned 128 (vscatter32 s)"
    "aligned 128 (vgather32 s)" "aligned 128 (vgather32 s + of_nat (MATRIX_SIZE * 2))"
    "aligned 128 (vscatter16_32 s)" "aligned 128 (vgather16_32 s)"
    unfolding ad(7) unfolding ad by (rule aligned_add [OF b]; simp)+
  show "bufs_apart (vgather16 s) 128 (vscatter16 s) 8192" "bufs_apart (vgather32 s) 256 (vscatter32 s) 16384"
    "bufs_apart (vgather16_32 s) 128 (vscatter16_32 s) 8192"
    unfolding ad by (rule bufs_apart_offset; simp)+
qed

text \<open>A rewrite of one buffer keeps an array that lies apart from it.\<close>

lemma e16_region_apart:
  assumes "e16.rewritten d k xs m m'" and "bufs_apart d (2 * k) b (2 * n)"
  shows "e16.region m' b n = e16.region m b n"
  by (rule e16.region_cong, rule e16.rewrittenD(2) [OF assms(1)]) (use assms(2) in \<open>unfold bufs_apart_def, metis\<close>)

lemma e32_region_apart:
  assumes "e32.rewritten d k xs m m'" and "bufs_apart d (4 * k) b (4 * n)"
  shows "e32.region m' b n = e32.region m b n"
  by (rule e32.region_cong, rule e32.rewrittenD(2) [OF assms(1)]) (use assms(2) in \<open>unfold bufs_apart_def, metis\<close>)

lemma upd_fold_all:
  assumes "length xs = 64" "length ys = 64"
  shows "upd_fold (\<lambda>_. True) (\<lambda>i. i) (\<lambda>i _. g i) [0..<64] xs = upd_fold (\<lambda>_. True) (\<lambda>i. i) (\<lambda>i _. g i) [0..<64] ys"
proof (rule nth_equalityI)
  fix i assume "i < length (upd_fold (\<lambda>_. True) (\<lambda>i. i) (\<lambda>i _. g i) [0..<64] xs)"
  then have "i < 64" using assms by simp
  then show "upd_fold (\<lambda>_. True) (\<lambda>i. i) (\<lambda>i _. g i) [0..<64] xs ! i =
      upd_fold (\<lambda>_. True) (\<lambda>i. i) (\<lambda>i _. g i) [0..<64] ys ! i"
    using upd_fold_nth(2) [of "[0..<64]" "\<lambda>i. i" "\<lambda>_. True" i xs i]
      upd_fold_nth(2) [of "[0..<64]" "\<lambda>i. i" "\<lambda>_. True" i ys i] assms
    by (simp add: inj_on_def)
qed (simp add: assms)

lemma gather_init_fill:
  "fill16 (ucast gather_q_16_init) 64 = replicate 64 gather_q_16_init"
  "fill32 gather_q_32_init 64 = replicate 64 gather_q_32_init"
  by (simp_all add: fill16_def fill32_def gather_q_16_init_def gather_q_32_init_def of_bytes16_def of_bytes32_def)

lemma length_fill [simp]: "length (fill16 c n) = n" "length (fill32 c n) = n"
  by (simp_all add: fill16_def fill32_def)

section \<open>Operations with their checks\<close>

definition good :: "'d sg \<Rightarrow> bool" where
  "good s \<longleftrightarrow> arrays_ok s \<and> preds_ok s \<and> layout s"

lemma goodD: "good s \<Longrightarrow> arrays_ok s" "good s \<Longrightarrow> preds_ok s" "good s \<Longrightarrow> layout s"
  by (simp_all add: good_def)

text \<open>Nothing was reported between the two states.\<close>

definition quiet :: "'d sg \<Rightarrow> 'd sg \<Rightarrow> bool" where
  "quiet s s' \<longleftrightarrow> good s' \<and> err s' = err s \<and> out s' = out s \<and> VTCM_BASE_ADDRESS s' = VTCM_BASE_ADDRESS s"

text \<open>The properties of a state do not depend on the memory and the reference arrays.\<close>

lemma good_update [simp]:
  "good (s\<lparr>vm := m\<rparr>) = good s" "good (s\<lparr>vscatter16_ref := r\<rparr>) = good s" "good (s\<lparr>vgather16_ref := r\<rparr>) = good s"
  "good (s\<lparr>vscatter32_ref := q\<rparr>) = good s" "good (s\<lparr>vgather32_ref := q\<rparr>) = good s"
  "good (s\<lparr>vscatter16_32_ref := r\<rparr>) = good s" "good (s\<lparr>vgather16_32_ref := r\<rparr>) = good s"
  by (simp_all add: good_def arrays_ok_def preds_ok_def layout_def)

lemma family_16_update [simp]:
  "offs16_ok (s\<lparr>vm := m\<rparr>) = offs16_ok s" "offs16_ok (s\<lparr>vscatter16_ref := r\<rparr>) = offs16_ok s" "offs16_ok (s\<lparr>vgather16_ref := r\<rparr>) = offs16_ok s"
  "scalar_scatter_16 (s\<lparr>vm := m\<rparr>) = scalar_scatter_16 s" "scalar_scatter_16 (s\<lparr>vscatter16_ref := r\<rparr>) = scalar_scatter_16 s"
  "scalar_scatter_16 (s\<lparr>vgather16_ref := r\<rparr>) = scalar_scatter_16 s"
  "scalar_scatter_acc_16 (s\<lparr>vm := m\<rparr>) = scalar_scatter_acc_16 s" "scalar_scatter_acc_16 (s\<lparr>vscatter16_ref := r\<rparr>) = scalar_scatter_acc_16 s" "scalar_scatter_acc_16 (s\<lparr>vgather16_ref := r\<rparr>) = scalar_scatter_acc_16 s"
  "scalar_scatter_q_16 (s\<lparr>vm := m\<rparr>) = scalar_scatter_q_16 s"
  by (simp_all add: offs16_ok_def scalar_scatter_16_def scalar_scatter_acc_16_def scalar_scatter_q_16_def cong: if_cong)

lemma family_32_update [simp]:
  "offs32_ok (s\<lparr>vm := m\<rparr>) = offs32_ok s" "offs32_ok (s\<lparr>vscatter32_ref := r\<rparr>) = offs32_ok s" "offs32_ok (s\<lparr>vgather32_ref := r\<rparr>) = offs32_ok s"
  "scalar_scatter_32 (s\<lparr>vm := m\<rparr>) = scalar_scatter_32 s" "scalar_scatter_32 (s\<lparr>vscatter32_ref := r\<rparr>) = scalar_scatter_32 s"
  "scalar_scatter_32 (s\<lparr>vgather32_ref := r\<rparr>) = scalar_scatter_32 s"
  "scalar_scatter_acc_32 (s\<lparr>vm := m\<rparr>) = scalar_scatter_acc_32 s" "scalar_scatter_acc_32 (s\<lparr>vscatter32_ref := r\<rparr>) = scalar_scatter_acc_32 s" "scalar_scatter_acc_32 (s\<lparr>vgather32_ref := r\<rparr>) = scalar_scatter_acc_32 s"
  "scalar_scatter_q_32 (s\<lparr>vm := m\<rparr>) = scalar_scatter_q_32 s"
  by (simp_all add: offs32_ok_def scalar_scatter_32_def scalar_scatter_acc_32_def scalar_scatter_q_32_def cong: if_cong)

lemma family_16_32_update [simp]:
  "offs16_32_ok (s\<lparr>vm := m\<rparr>) = offs16_32_ok s" "offs16_32_ok (s\<lparr>vscatter16_32_ref := r\<rparr>) = offs16_32_ok s" "offs16_32_ok (s\<lparr>vgather16_32_ref := r\<rparr>) = offs16_32_ok s"
  "scalar_scatter_16_32 (s\<lparr>vm := m\<rparr>) = scalar_scatter_16_32 s" "scalar_scatter_16_32 (s\<lparr>vscatter16_32_ref := r\<rparr>) = scalar_scatter_16_32 s"
  "scalar_scatter_16_32 (s\<lparr>vgather16_32_ref := r\<rparr>) = scalar_scatter_16_32 s"
  "scalar_scatteracc_16_32 (s\<lparr>vm := m\<rparr>) = scalar_scatteracc_16_32 s" "scalar_scatteracc_16_32 (s\<lparr>vscatter16_32_ref := r\<rparr>) = scalar_scatteracc_16_32 s" "scalar_scatteracc_16_32 (s\<lparr>vgather16_32_ref := r\<rparr>) = scalar_scatteracc_16_32 s"
  "scalar_scatter_q_16_32 (s\<lparr>vm := m\<rparr>) = scalar_scatter_q_16_32 s"
  by (simp_all add: offs16_32_ok_def scalar_scatter_16_32_def scalar_scatteracc_16_32_def scalar_scatter_q_16_32_def cong: if_cong)

context hvx_unit
begin

lemma gather_step_16:
  assumes g: "good s" "offs16_ok s"
  shows "\<exists>m r. check_gather_16 (vector_gather_16 ops s) = Some (s\<lparr>vm := m, vgather16_ref := r\<rparr>) \<and>
    e16.rewritten (vgather16 s) 64 r (vm s) m"
proof -
  note ok = goodD(1) [OF g(1)] g(2) and lay = layoutD [OF goodD(3) [OF g(1)]]
  define m where "m = vm (vector_gather_16 ops s)"
  define r where "r = upd_fold (\<lambda>_. True) (\<lambda>i. i) (\<lambda>i _. load16 (vm s) (vscatter16 s + of_nat (2 * idx16 s i)))
    [0..<64] (e16.region (vm s) (vgather16 s) 64)"
  have rw: "e16.rewritten (vgather16 s) 64 r (vm s) m"
    unfolding m_def r_def by (rule vector_gather_16_effect [OF ok]) (use lay in \<open>simp_all add: aligned_weaken\<close>)
  have s': "vector_gather_16 ops s = s\<lparr>vm := m\<rparr>" by (simp add: m_def vector_gather_16_def Let_def)
  have "2 * idx16 s i + 2 \<le> 8192" if "i < 64" for i
    using hoffs_half_offsets(4) [OF ok] that by fastforce
  then have ld: "load16 m (vscatter16 s + of_nat (2 * idx16 s i)) = load16 (vm s) (vscatter16 s + of_nat (2 * idx16 s i))"
    if "i < 64" for i using rewritten_load16 [OF rw lay(8)] that by blast
  have "upd_fold (\<lambda>_. True) (\<lambda>i. i) (\<lambda>i _. load16 m (vscatter16 s + of_nat (2 * idx16 s i))) [0..<64] xs = r"
    if "length xs = 64" for xs
  proof -
    have "upd_fold (\<lambda>_. True) (\<lambda>i. i) (\<lambda>i _. load16 m (vscatter16 s + of_nat (2 * idx16 s i))) [0..<64] xs =
      upd_fold (\<lambda>_. True) (\<lambda>i. i) (\<lambda>i _. load16 (vm s) (vscatter16 s + of_nat (2 * idx16 s i))) [0..<64] xs"
      by (rule upd_fold_cong) (auto simp only: ld set_upt atLeastLessThan_iff)
    also have "\<dots> = r" unfolding r_def by (rule upd_fold_all) (simp_all add: that)
    finally show ?thesis .
  qed
  then have "scalar_gather_16 (s\<lparr>vm := m\<rparr>) (fill16 0 64) = Some r"
    using scalar_gather_16_loops(1) [of "fill16 0 64" "s\<lparr>vm := m\<rparr>"] by (simp add: idx16_def)
  then have "check_gather_16 (s\<lparr>vm := m\<rparr>) = Some (s\<lparr>vm := m, vgather16_ref := r\<rparr>)"
    using e16_check_buffer [of "s\<lparr>vm := m, vgather16_ref := r\<rparr>" "vgather16 s" 64 r] e16.rewrittenD(1) [OF rw]
    by (simp add: check_gather_16_def MATRIX_SIZE_def)
  with rw s' show ?thesis by auto
qed

lemma gather_q_step_16:
  assumes g: "good s" "offs16_ok s"
  shows "\<exists>m r. check_gather_q_16 (vector_gather_q_16 ops s) = Some (s\<lparr>vm := m, vgather16_ref := r\<rparr>) \<and>
    e16.rewritten (vgather16 s) 64 r (vm s) m"
proof -
  note ok = goodD(1) [OF g(1)] g(2) and lay = layoutD [OF goodD(3) [OF g(1)]]
  define m where "m = vm (vector_gather_q_16 ops s)"
  define r where "r = upd_fold (\<lambda>i. half_predicates s ! i \<noteq> 0) (\<lambda>i. i)
    (\<lambda>i _. load16 (vm s) (vscatter16 s + of_nat (2 * idx16 s i))) [0..<64] (replicate 64 gather_q_16_init)"
  have rw: "e16.rewritten (vgather16 s) 64 r (vm s) m"
    unfolding m_def r_def
    by (rule vector_gather_q_16_effect [OF ok]) (use lay goodD(2) [OF g(1)] in \<open>simp_all add: aligned_weaken\<close>)
  have s': "vector_gather_q_16 ops s = s\<lparr>vm := m\<rparr>" by (simp add: m_def vector_gather_q_16_def Let_def)
  have "2 * idx16 s i + 2 \<le> 8192" if "i < 64" for i
    using hoffs_half_offsets(4) [OF ok] that by fastforce
  then have ld: "load16 m (vscatter16 s + of_nat (2 * idx16 s i)) = load16 (vm s) (vscatter16 s + of_nat (2 * idx16 s i))"
    if "i < 64" for i using rewritten_load16 [OF rw lay(8)] that by blast
  have "upd_fold (\<lambda>i. half_predicates s ! i \<noteq> 0) (\<lambda>i. i) (\<lambda>i _. load16 m (vscatter16 s + of_nat (2 * idx16 s i))) [0..<64]
      (replicate 64 gather_q_16_init) = r"
    unfolding r_def by (rule upd_fold_cong) (auto simp only: ld set_upt atLeastLessThan_iff)
  then have "scalar_gather_q_16 (s\<lparr>vm := m\<rparr>) (fill16 (ucast gather_q_16_init) 64) = Some r"
    using scalar_gather_16_loops(2) [of "fill16 (ucast gather_q_16_init) 64" "s\<lparr>vm := m\<rparr>"]
    by (simp add: idx16_def gather_init_fill)
  then have "check_gather_q_16 (s\<lparr>vm := m\<rparr>) = Some (s\<lparr>vm := m, vgather16_ref := r\<rparr>)"
    using e16_check_buffer [of "s\<lparr>vm := m, vgather16_ref := r\<rparr>" "vgather16 s" 64 r] e16.rewrittenD(1) [OF rw]
    by (simp add: check_gather_q_16_def MATRIX_SIZE_def)
  with rw s' show ?thesis by auto
qed

lemma scatter_step_16:
  assumes g: "good s" "offs16_ok s" and x: "e16.region (vm s) (vscatter16 s) 4096 = fill16 (ucast FILL_CHAR) SCATTER_BUFFER_SIZE"
  shows "\<exists>m r. scalar_scatter_16 s (fill16 (ucast FILL_CHAR) SCATTER_BUFFER_SIZE) = Some r \<and>
    check_scatter_16 (vector_scatter_16 ops s) = Some (s\<lparr>vm := m, vscatter16_ref := r\<rparr>) \<and>
    e16.rewritten (vscatter16 s) 4096 r (vm s) m"
proof -
  note ok = goodD(1) [OF g(1)] g(2) and lay = layoutD [OF goodD(3) [OF g(1)]]
  define m where "m = vm (vector_scatter_16 ops s)"
  obtain r where r: "scalar_scatter_16 s (e16.region (vm s) (vscatter16 s) 4096) = Some r"
    and rw: "e16.rewritten (vscatter16 s) 4096 r (vm s) m"
    using scalar_16_loops(1) [OF ok, of "e16.region (vm s) (vscatter16 s) 4096"] vector_scatter_16_effect [OF ok] lay
    by (simp add: aligned_weaken m_def)
  have "vector_scatter_16 ops s = s\<lparr>vm := m\<rparr>" by (simp add: m_def vector_scatter_16_def Let_def)
  moreover have "check_scatter_16 (s\<lparr>vm := m\<rparr>) = Some (s\<lparr>vm := m, vscatter16_ref := r\<rparr>)"
    using e16_check_buffer [of "s\<lparr>vm := m, vscatter16_ref := r\<rparr>" "vscatter16 s" 4096 r] e16.rewrittenD(1) [OF rw] r
    by (simp add: check_scatter_16_def x) (simp add: SCATTER_BUFFER_SIZE_def MATRIX_SIZE_def)
  ultimately show ?thesis using r rw unfolding x by auto
qed

lemma scatter_acc_step_16:
  assumes g: "good s" "offs16_ok s"
    and x: "scalar_scatter_16 s (fill16 (ucast FILL_CHAR) SCATTER_BUFFER_SIZE) = Some x" "e16.region (vm s) (vscatter16 s) 4096 = x"
  shows "\<exists>m r. scalar_scatter_acc_16 s x = Some r \<and>
    check_scatter_acc_16 (vector_scatter_acc_16 ops s) = Some (s\<lparr>vm := m, vscatter16_ref := r\<rparr>) \<and>
    e16.rewritten (vscatter16 s) 4096 r (vm s) m"
proof -
  note ok = goodD(1) [OF g(1)] g(2) and lay = layoutD [OF goodD(3) [OF g(1)]]
  define m where "m = vm (vector_scatter_acc_16 ops s)"
  obtain r where r: "scalar_scatter_acc_16 s (e16.region (vm s) (vscatter16 s) 4096) = Some r"
    and rw: "e16.rewritten (vscatter16 s) 4096 r (vm s) m"
    using scalar_16_loops(2) [OF ok, of "e16.region (vm s) (vscatter16 s) 4096"] vector_scatter_acc_16_effect [OF ok] lay
    by (simp add: aligned_weaken m_def)
  have "vector_scatter_acc_16 ops s = s\<lparr>vm := m\<rparr>" by (simp add: m_def vector_scatter_acc_16_def Let_def)
  moreover have "check_scatter_acc_16 (s\<lparr>vm := m\<rparr>) = Some (s\<lparr>vm := m, vscatter16_ref := r\<rparr>)"
    using e16_check_buffer [of "s\<lparr>vm := m, vscatter16_ref := r\<rparr>" "vscatter16 s" 4096 r] e16.rewrittenD(1) [OF rw] r x
    by (simp add: check_scatter_acc_16_def) (simp add: SCATTER_BUFFER_SIZE_def MATRIX_SIZE_def)
  ultimately show ?thesis using r rw unfolding x(2) by auto
qed

lemma scatter_q_step_16:
  assumes g: "good s" "offs16_ok s"
    and x: "scalar_scatter_16 s (fill16 (ucast FILL_CHAR) SCATTER_BUFFER_SIZE) = Some x" "scalar_scatter_acc_16 s x = Some y"
      "e16.region (vm s) (vscatter16 s) 4096 = y"
  shows "\<exists>m r. check_scatter_q_16 (vector_scatter_q_16 ops s) = Some (s\<lparr>vm := m, vscatter16_ref := r\<rparr>) \<and>
    e16.rewritten (vscatter16 s) 4096 r (vm s) m"
proof -
  note ok = goodD(1) [OF g(1)] g(2) and lay = layoutD [OF goodD(3) [OF g(1)]]
  define m where "m = vm (vector_scatter_q_16 ops s)"
  obtain r where r: "scalar_scatter_q_16 s (e16.region (vm s) (vscatter16 s) 4096) = Some r"
    and rw: "e16.rewritten (vscatter16 s) 4096 r (vm s) m"
    using scalar_16_loops(3) [OF ok, of "e16.region (vm s) (vscatter16 s) 4096"] vector_scatter_q_16_effect [OF ok] lay goodD(2) [OF g(1)]
    by (simp add: aligned_weaken m_def)
  have "vector_scatter_q_16 ops s = s\<lparr>vm := m\<rparr>" by (simp add: m_def vector_scatter_q_16_def Let_def)
  moreover have "check_scatter_q_16 (s\<lparr>vm := m\<rparr>) = Some (s\<lparr>vm := m, vscatter16_ref := r\<rparr>)"
    using e16_check_buffer [of "s\<lparr>vm := m, vscatter16_ref := r\<rparr>" "vscatter16 s" 4096 r] e16.rewrittenD(1) [OF rw] r x
    by (simp add: check_scatter_q_16_def) (simp add: SCATTER_BUFFER_SIZE_def MATRIX_SIZE_def)
  ultimately show ?thesis using rw by auto
qed

text \<open>The sequence of \<open>main\<close> for this element width: every check passes, and only the two
  buffers change.\<close>

lemma family_16_run:
  assumes g: "good s" "offs16_ok s" and x: "e16.region (vm s) (vscatter16 s) 4096 = fill16 (ucast FILL_CHAR) SCATTER_BUFFER_SIZE"
  shows "\<exists>s'. Option.bind (check_scatter_16 (vector_scatter_16 ops s)) (\<lambda>s.
      Option.bind (check_gather_16 (vector_gather_16 ops s)) (\<lambda>s.
      Option.bind (check_gather_q_16 (vector_gather_q_16 ops s)) (\<lambda>s.
      Option.bind (check_scatter_acc_16 (vector_scatter_acc_16 ops s)) (\<lambda>s.
      check_scatter_q_16 (vector_scatter_q_16 ops s))))) = Some s' \<and> quiet s s' \<and>
    (\<forall>a. (\<forall>k<8192. a \<noteq> vscatter16 s + of_nat k) \<longrightarrow> (\<forall>k<128. a \<noteq> vgather16 s + of_nat k) \<longrightarrow> vm s' a = vm s a)"
proof -
  note ap = layoutD(8) [OF goodD(3) [OF g(1)]]
  obtain m1 r1 where 1: "scalar_scatter_16 s (fill16 (ucast FILL_CHAR) SCATTER_BUFFER_SIZE) = Some r1"
    "check_scatter_16 (vector_scatter_16 ops s) = Some (s\<lparr>vm := m1, vscatter16_ref := r1\<rparr>)"
    "e16.rewritten (vscatter16 s) 4096 r1 (vm s) m1"
    using scatter_step_16 [OF g x] by blast
  define s1 where "s1 = s\<lparr>vm := m1, vscatter16_ref := r1\<rparr>"
  have s1: "good s1" "offs16_ok s1" using g by (simp_all add: s1_def)
  obtain m2 d2 where 2: "check_gather_16 (vector_gather_16 ops s1) = Some (s1\<lparr>vm := m2, vgather16_ref := d2\<rparr>)"
    "e16.rewritten (vgather16 s1) 64 d2 (vm s1) m2"
    using gather_step_16 [OF s1] by blast
  define s2 where "s2 = s1\<lparr>vm := m2, vgather16_ref := d2\<rparr>"
  have s2: "good s2" "offs16_ok s2" using s1 by (simp_all add: s2_def)
  obtain m3 d3 where 3: "check_gather_q_16 (vector_gather_q_16 ops s2) = Some (s2\<lparr>vm := m3, vgather16_ref := d3\<rparr>)"
    "e16.rewritten (vgather16 s2) 64 d3 (vm s2) m3"
    using gather_q_step_16 [OF s2] by blast
  define s3 where "s3 = s2\<lparr>vm := m3, vgather16_ref := d3\<rparr>"
  have s3: "good s3" "offs16_ok s3" using s2 by (simp_all add: s3_def)
  have sc3: "scalar_scatter_16 s3 = scalar_scatter_16 s" by (simp add: s3_def s2_def s1_def)
  have "e16.region (vm s3) (vscatter16 s3) 4096 = r1"
    using e16_region_apart [OF 2(2), of "vscatter16 s" 4096] e16_region_apart [OF 3(2), of "vscatter16 s" 4096] ap
      e16.rewrittenD(1) [OF 1(3)] by (simp add: s3_def s2_def s1_def)
  then obtain m4 r4 where 4: "scalar_scatter_acc_16 s3 r1 = Some r4"
    "check_scatter_acc_16 (vector_scatter_acc_16 ops s3) = Some (s3\<lparr>vm := m4, vscatter16_ref := r4\<rparr>)"
    "e16.rewritten (vscatter16 s3) 4096 r4 (vm s3) m4"
    using scatter_acc_step_16 [OF s3, of r1] 1(1) sc3 by auto
  define s4 where "s4 = s3\<lparr>vm := m4, vscatter16_ref := r4\<rparr>"
  have s4: "good s4" "offs16_ok s4" using s3 by (simp_all add: s4_def)
  have "e16.region (vm s4) (vscatter16 s4) 4096 = r4" "scalar_scatter_16 s4 = scalar_scatter_16 s" "scalar_scatter_acc_16 s4 = scalar_scatter_acc_16 s3"
    using e16.rewrittenD(1) [OF 4(3)] sc3 by (simp_all add: s4_def)
  then obtain m5 r5 where 5: "check_scatter_q_16 (vector_scatter_q_16 ops s4) = Some (s4\<lparr>vm := m5, vscatter16_ref := r5\<rparr>)"
    "e16.rewritten (vscatter16 s4) 4096 r5 (vm s4) m5"
    using scatter_q_step_16 [OF s4, of r1 r4] 1(1) 4(1) by auto
  note defs = s4_def s3_def s2_def s1_def
  have "m5 a = vm s a" if "\<forall>k<8192. a \<noteq> vscatter16 s + of_nat k" "\<forall>k<128. a \<noteq> vgather16 s + of_nat k" for a
    using that e16.rewrittenD(2) [OF 5(2), of a] e16.rewrittenD(2) [OF 4(3), of a] e16.rewrittenD(2) [OF 3(2), of a]
      e16.rewrittenD(2) [OF 2(2), of a] e16.rewrittenD(2) [OF 1(3), of a] by (simp add: defs)
  moreover have "quiet s (s4\<lparr>vm := m5, vscatter16_ref := r5\<rparr>)"
    using s4(1) by (simp add: quiet_def) (simp add: defs)
  ultimately show ?thesis
    using 1(2) [folded s1_def] 2(1) [folded s2_def] 3(1) [folded s3_def] 4(2) [folded s4_def] 5(1) by simp
qed

lemma gather_step_32:
  assumes g: "good s" "offs32_ok s"
  shows "\<exists>m r. check_gather_32 (vector_gather_32 ops s) = Some (s\<lparr>vm := m, vgather32_ref := r\<rparr>) \<and>
    e32.rewritten (vgather32 s) 64 r (vm s) m"
proof -
  note ok = goodD(1) [OF g(1)] g(2) and lay = layoutD [OF goodD(3) [OF g(1)]]
  define m where "m = vm (vector_gather_32 ops s)"
  define r where "r = upd_fold (\<lambda>_. True) (\<lambda>i. i) (\<lambda>i _. load32 (vm s) (vscatter32 s + of_nat (4 * idx32 s i)))
    [0..<64] (e32.region (vm s) (vgather32 s) 64)"
  have rw: "e32.rewritten (vgather32 s) 64 r (vm s) m"
    unfolding m_def r_def by (rule vector_gather_32_effect [OF ok]) (use lay in \<open>simp_all add: aligned_weaken\<close>)
  have s': "vector_gather_32 ops s = s\<lparr>vm := m\<rparr>" by (simp add: m_def vector_gather_32_def Let_def)
  have "4 * idx32 s i + 4 \<le> 16384" if "i < 64" for i
    using idx32_less [OF ok(2)] that by fastforce
  then have ld: "load32 m (vscatter32 s + of_nat (4 * idx32 s i)) = load32 (vm s) (vscatter32 s + of_nat (4 * idx32 s i))"
    if "i < 64" for i using rewritten_load32 [OF rw lay(9)] that by blast
  have "upd_fold (\<lambda>_. True) (\<lambda>i. i) (\<lambda>i _. load32 m (vscatter32 s + of_nat (4 * idx32 s i))) [0..<64] xs = r"
    if "length xs = 64" for xs
  proof -
    have "upd_fold (\<lambda>_. True) (\<lambda>i. i) (\<lambda>i _. load32 m (vscatter32 s + of_nat (4 * idx32 s i))) [0..<64] xs =
      upd_fold (\<lambda>_. True) (\<lambda>i. i) (\<lambda>i _. load32 (vm s) (vscatter32 s + of_nat (4 * idx32 s i))) [0..<64] xs"
      by (rule upd_fold_cong) (auto simp only: ld set_upt atLeastLessThan_iff)
    also have "\<dots> = r" unfolding r_def by (rule upd_fold_all) (simp_all add: that)
    finally show ?thesis .
  qed
  then have "scalar_gather_32 (s\<lparr>vm := m\<rparr>) (fill32 0 64) = Some r"
    using scalar_gather_32_loops(1) [of "fill32 0 64" "s\<lparr>vm := m\<rparr>"] by (simp add: idx32_def)
  then have "check_gather_32 (s\<lparr>vm := m\<rparr>) = Some (s\<lparr>vm := m, vgather32_ref := r\<rparr>)"
    using e32_check_buffer [of "s\<lparr>vm := m, vgather32_ref := r\<rparr>" "vgather32 s" 64 r] e32.rewrittenD(1) [OF rw]
    by (simp add: check_gather_32_def MATRIX_SIZE_def)
  with rw s' show ?thesis by auto
qed

lemma gather_q_step_32:
  assumes g: "good s" "offs32_ok s"
  shows "\<exists>m r. check_gather_q_32 (vector_gather_q_32 ops s) = Some (s\<lparr>vm := m, vgather32_ref := r\<rparr>) \<and>
    e32.rewritten (vgather32 s) 64 r (vm s) m"
proof -
  note ok = goodD(1) [OF g(1)] g(2) and lay = layoutD [OF goodD(3) [OF g(1)]]
  define m where "m = vm (vector_gather_q_32 ops s)"
  define r where "r = upd_fold (\<lambda>i. word_predicates s ! i \<noteq> 0) (\<lambda>i. i)
    (\<lambda>i _. load32 (vm s) (vscatter32 s + of_nat (4 * idx32 s i))) [0..<64] (replicate 64 gather_q_32_init)"
  have rw: "e32.rewritten (vgather32 s) 64 r (vm s) m"
    unfolding m_def r_def
    by (rule vector_gather_q_32_effect [OF ok]) (use lay goodD(2) [OF g(1)] in \<open>simp_all add: aligned_weaken\<close>)
  have s': "vector_gather_q_32 ops s = s\<lparr>vm := m\<rparr>" by (simp add: m_def vector_gather_q_32_def Let_def)
  have "4 * idx32 s i + 4 \<le> 16384" if "i < 64" for i
    using idx32_less [OF ok(2)] that by fastforce
  then have ld: "load32 m (vscatter32 s + of_nat (4 * idx32 s i)) = load32 (vm s) (vscatter32 s + of_nat (4 * idx32 s i))"
    if "i < 64" for i using rewritten_load32 [OF rw lay(9)] that by blast
  have "upd_fold (\<lambda>i. word_predicates s ! i \<noteq> 0) (\<lambda>i. i) (\<lambda>i _. load32 m (vscatter32 s + of_nat (4 * idx32 s i))) [0..<64]
      (replicate 64 gather_q_32_init) = r"
    unfolding r_def by (rule upd_fold_cong) (auto simp only: ld set_upt atLeastLessThan_iff)
  then have "scalar_gather_q_32 (s\<lparr>vm := m\<rparr>) (fill32 gather_q_32_init 64) = Some r"
    using scalar_gather_32_loops(2) [of "fill32 gather_q_32_init 64" "s\<lparr>vm := m\<rparr>"]
    by (simp add: idx32_def gather_init_fill)
  then have "check_gather_q_32 (s\<lparr>vm := m\<rparr>) = Some (s\<lparr>vm := m, vgather32_ref := r\<rparr>)"
    using e32_check_buffer [of "s\<lparr>vm := m, vgather32_ref := r\<rparr>" "vgather32 s" 64 r] e32.rewrittenD(1) [OF rw]
    by (simp add: check_gather_q_32_def MATRIX_SIZE_def)
  with rw s' show ?thesis by auto
qed

lemma scatter_step_32:
  assumes g: "good s" "offs32_ok s" and x: "e32.region (vm s) (vscatter32 s) 4096 = fill32 (ucast FILL_CHAR) SCATTER_BUFFER_SIZE"
  shows "\<exists>m r. scalar_scatter_32 s (fill32 (ucast FILL_CHAR) SCATTER_BUFFER_SIZE) = Some r \<and>
    check_scatter_32 (vector_scatter_32 ops s) = Some (s\<lparr>vm := m, vscatter32_ref := r\<rparr>) \<and>
    e32.rewritten (vscatter32 s) 4096 r (vm s) m"
proof -
  note ok = goodD(1) [OF g(1)] g(2) and lay = layoutD [OF goodD(3) [OF g(1)]]
  define m where "m = vm (vector_scatter_32 ops s)"
  obtain r where r: "scalar_scatter_32 s (e32.region (vm s) (vscatter32 s) 4096) = Some r"
    and rw: "e32.rewritten (vscatter32 s) 4096 r (vm s) m"
    using scalar_32_loops(1) [OF ok, of "e32.region (vm s) (vscatter32 s) 4096"] vector_scatter_32_effect [OF ok] lay
    by (simp add: aligned_weaken m_def)
  have "vector_scatter_32 ops s = s\<lparr>vm := m\<rparr>" by (simp add: m_def vector_scatter_32_def Let_def)
  moreover have "check_scatter_32 (s\<lparr>vm := m\<rparr>) = Some (s\<lparr>vm := m, vscatter32_ref := r\<rparr>)"
    using e32_check_buffer [of "s\<lparr>vm := m, vscatter32_ref := r\<rparr>" "vscatter32 s" 4096 r] e32.rewrittenD(1) [OF rw] r
    by (simp add: check_scatter_32_def x) (simp add: SCATTER_BUFFER_SIZE_def MATRIX_SIZE_def)
  ultimately show ?thesis using r rw unfolding x by auto
qed

lemma scatter_acc_step_32:
  assumes g: "good s" "offs32_ok s"
    and x: "scalar_scatter_32 s (fill32 (ucast FILL_CHAR) SCATTER_BUFFER_SIZE) = Some x" "e32.region (vm s) (vscatter32 s) 4096 = x"
  shows "\<exists>m r. scalar_scatter_acc_32 s x = Some r \<and>
    check_scatter_acc_32 (vector_scatter_acc_32 ops s) = Some (s\<lparr>vm := m, vscatter32_ref := r\<rparr>) \<and>
    e32.rewritten (vscatter32 s) 4096 r (vm s) m"
proof -
  note ok = goodD(1) [OF g(1)] g(2) and lay = layoutD [OF goodD(3) [OF g(1)]]
  define m where "m = vm (vector_scatter_acc_32 ops s)"
  obtain r where r: "scalar_scatter_acc_32 s (e32.region (vm s) (vscatter32 s) 4096) = Some r"
    and rw: "e32.rewritten (vscatter32 s) 4096 r (vm s) m"
    using scalar_32_loops(2) [OF ok, of "e32.region (vm s) (vscatter32 s) 4096"] vector_scatter_acc_32_effect [OF ok] lay
    by (simp add: aligned_weaken m_def)
  have "vector_scatter_acc_32 ops s = s\<lparr>vm := m\<rparr>" by (simp add: m_def vector_scatter_acc_32_def Let_def)
  moreover have "check_scatter_acc_32 (s\<lparr>vm := m\<rparr>) = Some (s\<lparr>vm := m, vscatter32_ref := r\<rparr>)"
    using e32_check_buffer [of "s\<lparr>vm := m, vscatter32_ref := r\<rparr>" "vscatter32 s" 4096 r] e32.rewrittenD(1) [OF rw] r x
    by (simp add: check_scatter_acc_32_def) (simp add: SCATTER_BUFFER_SIZE_def MATRIX_SIZE_def)
  ultimately show ?thesis using r rw unfolding x(2) by auto
qed

lemma scatter_q_step_32:
  assumes g: "good s" "offs32_ok s"
    and x: "scalar_scatter_32 s (fill32 (ucast FILL_CHAR) SCATTER_BUFFER_SIZE) = Some x" "scalar_scatter_acc_32 s x = Some y"
      "e32.region (vm s) (vscatter32 s) 4096 = y"
  shows "\<exists>m r. check_scatter_q_32 (vector_scatter_q_32 ops s) = Some (s\<lparr>vm := m, vscatter32_ref := r\<rparr>) \<and>
    e32.rewritten (vscatter32 s) 4096 r (vm s) m"
proof -
  note ok = goodD(1) [OF g(1)] g(2) and lay = layoutD [OF goodD(3) [OF g(1)]]
  define m where "m = vm (vector_scatter_q_32 ops s)"
  obtain r where r: "scalar_scatter_q_32 s (e32.region (vm s) (vscatter32 s) 4096) = Some r"
    and rw: "e32.rewritten (vscatter32 s) 4096 r (vm s) m"
    using scalar_32_loops(3) [OF ok, of "e32.region (vm s) (vscatter32 s) 4096"] vector_scatter_q_32_effect [OF ok] lay goodD(2) [OF g(1)]
    by (simp add: aligned_weaken m_def)
  have "vector_scatter_q_32 ops s = s\<lparr>vm := m\<rparr>" by (simp add: m_def vector_scatter_q_32_def Let_def)
  moreover have "check_scatter_q_32 (s\<lparr>vm := m\<rparr>) = Some (s\<lparr>vm := m, vscatter32_ref := r\<rparr>)"
    using e32_check_buffer [of "s\<lparr>vm := m, vscatter32_ref := r\<rparr>" "vscatter32 s" 4096 r] e32.rewrittenD(1) [OF rw] r x
    by (simp add: check_scatter_q_32_def) (simp add: SCATTER_BUFFER_SIZE_def MATRIX_SIZE_def)
  ultimately show ?thesis using rw by auto
qed

text \<open>The sequence of \<open>main\<close> for this element width: every check passes, and only the two
  buffers change.\<close>

lemma family_32_run:
  assumes g: "good s" "offs32_ok s" and x: "e32.region (vm s) (vscatter32 s) 4096 = fill32 (ucast FILL_CHAR) SCATTER_BUFFER_SIZE"
  shows "\<exists>s'. Option.bind (check_scatter_32 (vector_scatter_32 ops s)) (\<lambda>s.
      Option.bind (check_gather_32 (vector_gather_32 ops s)) (\<lambda>s.
      Option.bind (check_gather_q_32 (vector_gather_q_32 ops s)) (\<lambda>s.
      Option.bind (check_scatter_acc_32 (vector_scatter_acc_32 ops s)) (\<lambda>s.
      check_scatter_q_32 (vector_scatter_q_32 ops s))))) = Some s' \<and> quiet s s' \<and>
    (\<forall>a. (\<forall>k<16384. a \<noteq> vscatter32 s + of_nat k) \<longrightarrow> (\<forall>k<256. a \<noteq> vgather32 s + of_nat k) \<longrightarrow> vm s' a = vm s a)"
proof -
  note ap = layoutD(9) [OF goodD(3) [OF g(1)]]
  obtain m1 r1 where 1: "scalar_scatter_32 s (fill32 (ucast FILL_CHAR) SCATTER_BUFFER_SIZE) = Some r1"
    "check_scatter_32 (vector_scatter_32 ops s) = Some (s\<lparr>vm := m1, vscatter32_ref := r1\<rparr>)"
    "e32.rewritten (vscatter32 s) 4096 r1 (vm s) m1"
    using scatter_step_32 [OF g x] by blast
  define s1 where "s1 = s\<lparr>vm := m1, vscatter32_ref := r1\<rparr>"
  have s1: "good s1" "offs32_ok s1" using g by (simp_all add: s1_def)
  obtain m2 d2 where 2: "check_gather_32 (vector_gather_32 ops s1) = Some (s1\<lparr>vm := m2, vgather32_ref := d2\<rparr>)"
    "e32.rewritten (vgather32 s1) 64 d2 (vm s1) m2"
    using gather_step_32 [OF s1] by blast
  define s2 where "s2 = s1\<lparr>vm := m2, vgather32_ref := d2\<rparr>"
  have s2: "good s2" "offs32_ok s2" using s1 by (simp_all add: s2_def)
  obtain m3 d3 where 3: "check_gather_q_32 (vector_gather_q_32 ops s2) = Some (s2\<lparr>vm := m3, vgather32_ref := d3\<rparr>)"
    "e32.rewritten (vgather32 s2) 64 d3 (vm s2) m3"
    using gather_q_step_32 [OF s2] by blast
  define s3 where "s3 = s2\<lparr>vm := m3, vgather32_ref := d3\<rparr>"
  have s3: "good s3" "offs32_ok s3" using s2 by (simp_all add: s3_def)
  have sc3: "scalar_scatter_32 s3 = scalar_scatter_32 s" by (simp add: s3_def s2_def s1_def)
  have "e32.region (vm s3) (vscatter32 s3) 4096 = r1"
    using e32_region_apart [OF 2(2), of "vscatter32 s" 4096] e32_region_apart [OF 3(2), of "vscatter32 s" 4096] ap
      e32.rewrittenD(1) [OF 1(3)] by (simp add: s3_def s2_def s1_def)
  then obtain m4 r4 where 4: "scalar_scatter_acc_32 s3 r1 = Some r4"
    "check_scatter_acc_32 (vector_scatter_acc_32 ops s3) = Some (s3\<lparr>vm := m4, vscatter32_ref := r4\<rparr>)"
    "e32.rewritten (vscatter32 s3) 4096 r4 (vm s3) m4"
    using scatter_acc_step_32 [OF s3, of r1] 1(1) sc3 by auto
  define s4 where "s4 = s3\<lparr>vm := m4, vscatter32_ref := r4\<rparr>"
  have s4: "good s4" "offs32_ok s4" using s3 by (simp_all add: s4_def)
  have "e32.region (vm s4) (vscatter32 s4) 4096 = r4" "scalar_scatter_32 s4 = scalar_scatter_32 s" "scalar_scatter_acc_32 s4 = scalar_scatter_acc_32 s3"
    using e32.rewrittenD(1) [OF 4(3)] sc3 by (simp_all add: s4_def)
  then obtain m5 r5 where 5: "check_scatter_q_32 (vector_scatter_q_32 ops s4) = Some (s4\<lparr>vm := m5, vscatter32_ref := r5\<rparr>)"
    "e32.rewritten (vscatter32 s4) 4096 r5 (vm s4) m5"
    using scatter_q_step_32 [OF s4, of r1 r4] 1(1) 4(1) by auto
  note defs = s4_def s3_def s2_def s1_def
  have "m5 a = vm s a" if "\<forall>k<16384. a \<noteq> vscatter32 s + of_nat k" "\<forall>k<256. a \<noteq> vgather32 s + of_nat k" for a
    using that e32.rewrittenD(2) [OF 5(2), of a] e32.rewrittenD(2) [OF 4(3), of a] e32.rewrittenD(2) [OF 3(2), of a]
      e32.rewrittenD(2) [OF 2(2), of a] e32.rewrittenD(2) [OF 1(3), of a] by (simp add: defs)
  moreover have "quiet s (s4\<lparr>vm := m5, vscatter32_ref := r5\<rparr>)"
    using s4(1) by (simp add: quiet_def) (simp add: defs)
  ultimately show ?thesis
    using 1(2) [folded s1_def] 2(1) [folded s2_def] 3(1) [folded s3_def] 4(2) [folded s4_def] 5(1) by simp
qed

lemma gather_step_16_32:
  assumes g: "good s" "offs16_32_ok s"
  shows "\<exists>m r. check_gather_16_32 (vector_gather_16_32 ops s) = Some (s\<lparr>vm := m, vgather16_32_ref := r\<rparr>) \<and>
    e16.rewritten (vgather16_32 s) 64 r (vm s) m"
proof -
  note ok = goodD(1) [OF g(1)] g(2) and lay = layoutD [OF goodD(3) [OF g(1)]]
  define m where "m = vm (vector_gather_16_32 ops s)"
  define r where "r = upd_fold (\<lambda>_. True) (\<lambda>i. i) (\<lambda>i _. load16 (vm s) (vscatter16_32 s + of_nat (2 * idx16_32 s i)))
    [0..<64] (e16.region (vm s) (vgather16_32 s) 64)"
  have rw: "e16.rewritten (vgather16_32 s) 64 r (vm s) m"
    unfolding m_def r_def by (rule vector_gather_16_32_effect [OF ok]) (use lay in \<open>simp_all add: aligned_weaken\<close>)
  have s': "vector_gather_16_32 ops s = s\<lparr>vm := m\<rparr>" by (simp add: m_def vector_gather_16_32_def Let_def)
  have "2 * idx16_32 s i + 2 \<le> 8192" if "i < 64" for i
    using idx16_32_less [OF ok(2)] that by fastforce
  then have ld: "load16 m (vscatter16_32 s + of_nat (2 * idx16_32 s i)) = load16 (vm s) (vscatter16_32 s + of_nat (2 * idx16_32 s i))"
    if "i < 64" for i using rewritten_load16 [OF rw lay(10)] that by blast
  have "upd_fold (\<lambda>_. True) (\<lambda>i. i) (\<lambda>i _. load16 m (vscatter16_32 s + of_nat (2 * idx16_32 s i))) [0..<64] xs = r"
    if "length xs = 64" for xs
  proof -
    have "upd_fold (\<lambda>_. True) (\<lambda>i. i) (\<lambda>i _. load16 m (vscatter16_32 s + of_nat (2 * idx16_32 s i))) [0..<64] xs =
      upd_fold (\<lambda>_. True) (\<lambda>i. i) (\<lambda>i _. load16 (vm s) (vscatter16_32 s + of_nat (2 * idx16_32 s i))) [0..<64] xs"
      by (rule upd_fold_cong) (auto simp only: ld set_upt atLeastLessThan_iff)
    also have "\<dots> = r" unfolding r_def by (rule upd_fold_all) (simp_all add: that)
    finally show ?thesis .
  qed
  then have "scalar_gather_16_32 (s\<lparr>vm := m\<rparr>) (fill16 0 64) = Some r"
    using scalar_gather_16_32_loops(1) [of "fill16 0 64" "s\<lparr>vm := m\<rparr>"] by (simp add: idx16_32_def)
  then have "check_gather_16_32 (s\<lparr>vm := m\<rparr>) = Some (s\<lparr>vm := m, vgather16_32_ref := r\<rparr>)"
    using e16_check_buffer [of "s\<lparr>vm := m, vgather16_32_ref := r\<rparr>" "vgather16_32 s" 64 r] e16.rewrittenD(1) [OF rw]
    by (simp add: check_gather_16_32_def MATRIX_SIZE_def)
  with rw s' show ?thesis by auto
qed

lemma gather_q_step_16_32:
  assumes g: "good s" "offs16_32_ok s"
  shows "\<exists>m r. check_gather_q_16_32 (vector_gather_q_16_32 ops s) = Some (s\<lparr>vm := m, vgather16_32_ref := r\<rparr>) \<and>
    e16.rewritten (vgather16_32 s) 64 r (vm s) m"
proof -
  note ok = goodD(1) [OF g(1)] g(2) and lay = layoutD [OF goodD(3) [OF g(1)]]
  define m where "m = vm (vector_gather_q_16_32 ops s)"
  define r where "r = upd_fold (\<lambda>i. half_predicates s ! i \<noteq> 0) (\<lambda>i. i)
    (\<lambda>i _. load16 (vm s) (vscatter16_32 s + of_nat (2 * idx16_32 s i))) [0..<64] (replicate 64 gather_q_16_init)"
  have rw: "e16.rewritten (vgather16_32 s) 64 r (vm s) m"
    unfolding m_def r_def
    by (rule vector_gather_q_16_32_effect [OF ok]) (use lay goodD(2) [OF g(1)] in \<open>simp_all add: aligned_weaken\<close>)
  have s': "vector_gather_q_16_32 ops s = s\<lparr>vm := m\<rparr>" by (simp add: m_def vector_gather_q_16_32_def Let_def)
  have "2 * idx16_32 s i + 2 \<le> 8192" if "i < 64" for i
    using idx16_32_less [OF ok(2)] that by fastforce
  then have ld: "load16 m (vscatter16_32 s + of_nat (2 * idx16_32 s i)) = load16 (vm s) (vscatter16_32 s + of_nat (2 * idx16_32 s i))"
    if "i < 64" for i using rewritten_load16 [OF rw lay(10)] that by blast
  have "upd_fold (\<lambda>i. half_predicates s ! i \<noteq> 0) (\<lambda>i. i) (\<lambda>i _. load16 m (vscatter16_32 s + of_nat (2 * idx16_32 s i))) [0..<64]
      (replicate 64 gather_q_16_init) = r"
    unfolding r_def by (rule upd_fold_cong) (auto simp only: ld set_upt atLeastLessThan_iff)
  then have "scalar_gather_q_16_32 (s\<lparr>vm := m\<rparr>) (fill16 (ucast gather_q_16_init) 64) = Some r"
    using scalar_gather_16_32_loops(2) [of "fill16 (ucast gather_q_16_init) 64" "s\<lparr>vm := m\<rparr>"]
    by (simp add: idx16_32_def gather_init_fill)
  then have "check_gather_q_16_32 (s\<lparr>vm := m\<rparr>) = Some (s\<lparr>vm := m, vgather16_32_ref := r\<rparr>)"
    using e16_check_buffer [of "s\<lparr>vm := m, vgather16_32_ref := r\<rparr>" "vgather16_32 s" 64 r] e16.rewrittenD(1) [OF rw]
    by (simp add: check_gather_q_16_32_def MATRIX_SIZE_def)
  with rw s' show ?thesis by auto
qed

lemma scatter_step_16_32:
  assumes g: "good s" "offs16_32_ok s" and x: "e16.region (vm s) (vscatter16_32 s) 4096 = fill16 (ucast FILL_CHAR) SCATTER_BUFFER_SIZE"
  shows "\<exists>m r. scalar_scatter_16_32 s (fill16 (ucast FILL_CHAR) SCATTER_BUFFER_SIZE) = Some r \<and>
    check_scatter_16_32 (vector_scatter_16_32 ops s) = Some (s\<lparr>vm := m, vscatter16_32_ref := r\<rparr>) \<and>
    e16.rewritten (vscatter16_32 s) 4096 r (vm s) m"
proof -
  note ok = goodD(1) [OF g(1)] g(2) and lay = layoutD [OF goodD(3) [OF g(1)]]
  define m where "m = vm (vector_scatter_16_32 ops s)"
  obtain r where r: "scalar_scatter_16_32 s (e16.region (vm s) (vscatter16_32 s) 4096) = Some r"
    and rw: "e16.rewritten (vscatter16_32 s) 4096 r (vm s) m"
    using scalar_16_32_loops(1) [OF ok, of "e16.region (vm s) (vscatter16_32 s) 4096"] vector_scatter_16_32_effect [OF ok] lay
    by (simp add: aligned_weaken m_def)
  have "vector_scatter_16_32 ops s = s\<lparr>vm := m\<rparr>" by (simp add: m_def vector_scatter_16_32_def Let_def)
  moreover have "check_scatter_16_32 (s\<lparr>vm := m\<rparr>) = Some (s\<lparr>vm := m, vscatter16_32_ref := r\<rparr>)"
    using e16_check_buffer [of "s\<lparr>vm := m, vscatter16_32_ref := r\<rparr>" "vscatter16_32 s" 4096 r] e16.rewrittenD(1) [OF rw] r
    by (simp add: check_scatter_16_32_def x) (simp add: SCATTER_BUFFER_SIZE_def MATRIX_SIZE_def)
  ultimately show ?thesis using r rw unfolding x by auto
qed

lemma scatter_acc_step_16_32:
  assumes g: "good s" "offs16_32_ok s"
    and x: "scalar_scatter_16_32 s (fill16 (ucast FILL_CHAR) SCATTER_BUFFER_SIZE) = Some x" "e16.region (vm s) (vscatter16_32 s) 4096 = x"
  shows "\<exists>m r. scalar_scatteracc_16_32 s x = Some r \<and>
    check_scatter_acc_16_32 (vector_scatter_acc_16_32 ops s) = Some (s\<lparr>vm := m, vscatter16_32_ref := r\<rparr>) \<and>
    e16.rewritten (vscatter16_32 s) 4096 r (vm s) m"
proof -
  note ok = goodD(1) [OF g(1)] g(2) and lay = layoutD [OF goodD(3) [OF g(1)]]
  define m where "m = vm (vector_scatter_acc_16_32 ops s)"
  obtain r where r: "scalar_scatteracc_16_32 s (e16.region (vm s) (vscatter16_32 s) 4096) = Some r"
    and rw: "e16.rewritten (vscatter16_32 s) 4096 r (vm s) m"
    using scalar_16_32_loops(2) [OF ok, of "e16.region (vm s) (vscatter16_32 s) 4096"] vector_scatter_acc_16_32_effect [OF ok] lay
    by (simp add: aligned_weaken m_def)
  have "vector_scatter_acc_16_32 ops s = s\<lparr>vm := m\<rparr>" by (simp add: m_def vector_scatter_acc_16_32_def Let_def)
  moreover have "check_scatter_acc_16_32 (s\<lparr>vm := m\<rparr>) = Some (s\<lparr>vm := m, vscatter16_32_ref := r\<rparr>)"
    using e16_check_buffer [of "s\<lparr>vm := m, vscatter16_32_ref := r\<rparr>" "vscatter16_32 s" 4096 r] e16.rewrittenD(1) [OF rw] r x
    by (simp add: check_scatter_acc_16_32_def) (simp add: SCATTER_BUFFER_SIZE_def MATRIX_SIZE_def)
  ultimately show ?thesis using r rw unfolding x(2) by auto
qed

lemma scatter_q_step_16_32:
  assumes g: "good s" "offs16_32_ok s"
    and x: "scalar_scatter_16_32 s (fill16 (ucast FILL_CHAR) SCATTER_BUFFER_SIZE) = Some x" "scalar_scatteracc_16_32 s x = Some y"
      "e16.region (vm s) (vscatter16_32 s) 4096 = y"
  shows "\<exists>m r. check_scatter_q_16_32 (vector_scatter_q_16_32 ops s) = Some (s\<lparr>vm := m, vscatter16_32_ref := r\<rparr>) \<and>
    e16.rewritten (vscatter16_32 s) 4096 r (vm s) m"
proof -
  note ok = goodD(1) [OF g(1)] g(2) and lay = layoutD [OF goodD(3) [OF g(1)]]
  define m where "m = vm (vector_scatter_q_16_32 ops s)"
  obtain r where r: "scalar_scatter_q_16_32 s (e16.region (vm s) (vscatter16_32 s) 4096) = Some r"
    and rw: "e16.rewritten (vscatter16_32 s) 4096 r (vm s) m"
    using scalar_16_32_loops(3) [OF ok, of "e16.region (vm s) (vscatter16_32 s) 4096"] vector_scatter_q_16_32_effect [OF ok] lay goodD(2) [OF g(1)]
    by (simp add: aligned_weaken m_def)
  have "vector_scatter_q_16_32 ops s = s\<lparr>vm := m\<rparr>" by (simp add: m_def vector_scatter_q_16_32_def Let_def)
  moreover have "check_scatter_q_16_32 (s\<lparr>vm := m\<rparr>) = Some (s\<lparr>vm := m, vscatter16_32_ref := r\<rparr>)"
    using e16_check_buffer [of "s\<lparr>vm := m, vscatter16_32_ref := r\<rparr>" "vscatter16_32 s" 4096 r] e16.rewrittenD(1) [OF rw] r x
    by (simp add: check_scatter_q_16_32_def) (simp add: SCATTER_BUFFER_SIZE_def MATRIX_SIZE_def)
  ultimately show ?thesis using rw by auto
qed

text \<open>The sequence of \<open>main\<close> for this element width: every check passes, and only the two
  buffers change.\<close>

lemma family_16_32_run:
  assumes g: "good s" "offs16_32_ok s" and x: "e16.region (vm s) (vscatter16_32 s) 4096 = fill16 (ucast FILL_CHAR) SCATTER_BUFFER_SIZE"
  shows "\<exists>s'. Option.bind (check_scatter_16_32 (vector_scatter_16_32 ops s)) (\<lambda>s.
      Option.bind (check_gather_16_32 (vector_gather_16_32 ops s)) (\<lambda>s.
      Option.bind (check_gather_q_16_32 (vector_gather_q_16_32 ops s)) (\<lambda>s.
      Option.bind (check_scatter_acc_16_32 (vector_scatter_acc_16_32 ops s)) (\<lambda>s.
      check_scatter_q_16_32 (vector_scatter_q_16_32 ops s))))) = Some s' \<and> quiet s s' \<and>
    (\<forall>a. (\<forall>k<8192. a \<noteq> vscatter16_32 s + of_nat k) \<longrightarrow> (\<forall>k<128. a \<noteq> vgather16_32 s + of_nat k) \<longrightarrow> vm s' a = vm s a)"
proof -
  note ap = layoutD(10) [OF goodD(3) [OF g(1)]]
  obtain m1 r1 where 1: "scalar_scatter_16_32 s (fill16 (ucast FILL_CHAR) SCATTER_BUFFER_SIZE) = Some r1"
    "check_scatter_16_32 (vector_scatter_16_32 ops s) = Some (s\<lparr>vm := m1, vscatter16_32_ref := r1\<rparr>)"
    "e16.rewritten (vscatter16_32 s) 4096 r1 (vm s) m1"
    using scatter_step_16_32 [OF g x] by blast
  define s1 where "s1 = s\<lparr>vm := m1, vscatter16_32_ref := r1\<rparr>"
  have s1: "good s1" "offs16_32_ok s1" using g by (simp_all add: s1_def)
  obtain m2 d2 where 2: "check_gather_16_32 (vector_gather_16_32 ops s1) = Some (s1\<lparr>vm := m2, vgather16_32_ref := d2\<rparr>)"
    "e16.rewritten (vgather16_32 s1) 64 d2 (vm s1) m2"
    using gather_step_16_32 [OF s1] by blast
  define s2 where "s2 = s1\<lparr>vm := m2, vgather16_32_ref := d2\<rparr>"
  have s2: "good s2" "offs16_32_ok s2" using s1 by (simp_all add: s2_def)
  obtain m3 d3 where 3: "check_gather_q_16_32 (vector_gather_q_16_32 ops s2) = Some (s2\<lparr>vm := m3, vgather16_32_ref := d3\<rparr>)"
    "e16.rewritten (vgather16_32 s2) 64 d3 (vm s2) m3"
    using gather_q_step_16_32 [OF s2] by blast
  define s3 where "s3 = s2\<lparr>vm := m3, vgather16_32_ref := d3\<rparr>"
  have s3: "good s3" "offs16_32_ok s3" using s2 by (simp_all add: s3_def)
  have sc3: "scalar_scatter_16_32 s3 = scalar_scatter_16_32 s" by (simp add: s3_def s2_def s1_def)
  have "e16.region (vm s3) (vscatter16_32 s3) 4096 = r1"
    using e16_region_apart [OF 2(2), of "vscatter16_32 s" 4096] e16_region_apart [OF 3(2), of "vscatter16_32 s" 4096] ap
      e16.rewrittenD(1) [OF 1(3)] by (simp add: s3_def s2_def s1_def)
  then obtain m4 r4 where 4: "scalar_scatteracc_16_32 s3 r1 = Some r4"
    "check_scatter_acc_16_32 (vector_scatter_acc_16_32 ops s3) = Some (s3\<lparr>vm := m4, vscatter16_32_ref := r4\<rparr>)"
    "e16.rewritten (vscatter16_32 s3) 4096 r4 (vm s3) m4"
    using scatter_acc_step_16_32 [OF s3, of r1] 1(1) sc3 by auto
  define s4 where "s4 = s3\<lparr>vm := m4, vscatter16_32_ref := r4\<rparr>"
  have s4: "good s4" "offs16_32_ok s4" using s3 by (simp_all add: s4_def)
  have "e16.region (vm s4) (vscatter16_32 s4) 4096 = r4" "scalar_scatter_16_32 s4 = scalar_scatter_16_32 s" "scalar_scatteracc_16_32 s4 = scalar_scatteracc_16_32 s3"
    using e16.rewrittenD(1) [OF 4(3)] sc3 by (simp_all add: s4_def)
  then obtain m5 r5 where 5: "check_scatter_q_16_32 (vector_scatter_q_16_32 ops s4) = Some (s4\<lparr>vm := m5, vscatter16_32_ref := r5\<rparr>)"
    "e16.rewritten (vscatter16_32 s4) 4096 r5 (vm s4) m5"
    using scatter_q_step_16_32 [OF s4, of r1 r4] 1(1) 4(1) by auto
  note defs = s4_def s3_def s2_def s1_def
  have "m5 a = vm s a" if "\<forall>k<8192. a \<noteq> vscatter16_32 s + of_nat k" "\<forall>k<128. a \<noteq> vgather16_32 s + of_nat k" for a
    using that e16.rewrittenD(2) [OF 5(2), of a] e16.rewrittenD(2) [OF 4(3), of a] e16.rewrittenD(2) [OF 3(2), of a]
      e16.rewrittenD(2) [OF 2(2), of a] e16.rewrittenD(2) [OF 1(3), of a] by (simp add: defs)
  moreover have "quiet s (s4\<lparr>vm := m5, vscatter16_32_ref := r5\<rparr>)"
    using s4(1) by (simp add: quiet_def) (simp add: defs)
  ultimately show ?thesis
    using 1(2) [folded s1_def] 2(1) [folded s2_def] 3(1) [folded s3_def] 4(2) [folded s4_def] 5(1) by simp
qed

end

section \<open>Inputs\<close>

lemma fold_upt_inv:
  assumes "I 0 s" and "\<And>i s. i < n \<Longrightarrow> I i s \<Longrightarrow> I (Suc i) (f i s)"
  shows "I n (fold f [0..<n] s)"
  using assms by (induction n) auto

text \<open>The arrays were filled and nothing else happened.\<close>

definition prepared :: "'d sg \<Rightarrow> 'd sg \<Rightarrow> bool" where
  "prepared s s' \<longleftrightarrow> quiet s s' \<and> vm s' = vm s"

lemma prepared_refl: "good s \<Longrightarrow> prepared s s"
  by (simp add: prepared_def quiet_def)

lemma prepared_trans: "prepared s s' \<Longrightarrow> prepared s' s'' \<Longrightarrow> prepared s s''"
  by (simp add: prepared_def quiet_def)

lemma layout_arrays [simp]:
  "layout (t\<lparr>half_offsets := a\<rparr>) = layout t" "layout (t\<lparr>half_values := a\<rparr>) = layout t"
  "layout (t\<lparr>half_acc_values := a\<rparr>) = layout t" "layout (t\<lparr>half_q_values := a\<rparr>) = layout t"
  "layout (t\<lparr>word_offsets := b\<rparr>) = layout t" "layout (t\<lparr>word_values := b\<rparr>) = layout t"
  "layout (t\<lparr>word_acc_values := b\<rparr>) = layout t" "layout (t\<lparr>word_q_values := b\<rparr>) = layout t"
  "layout (t\<lparr>half_predicates := a\<rparr>) = layout t" "layout (t\<lparr>word_predicates := b\<rparr>) = layout t"
  by (simp_all add: layout_def)

lemma prepared_values:
  "prepared s t \<Longrightarrow> prepared s (t\<lparr>half_offsets := (half_offsets t)[i := a], half_values := (half_values t)[i := b],
      half_acc_values := (half_acc_values t)[i := c], half_q_values := (half_q_values t)[i := d]\<rparr>)"
  "prepared s t \<Longrightarrow> prepared s (t\<lparr>word_offsets := (word_offsets t)[i := x], half_values := (half_values t)[i := b],
      half_acc_values := (half_acc_values t)[i := c], half_q_values := (half_q_values t)[i := d]\<rparr>)"
  "prepared s t \<Longrightarrow> prepared s (t\<lparr>word_offsets := (word_offsets t)[i := x], word_values := (word_values t)[i := y],
      word_acc_values := (word_acc_values t)[i := z], word_q_values := (word_q_values t)[i := u]\<rparr>)"
  by (simp_all add: prepared_def quiet_def good_def arrays_ok_def preds_ok_def)

lemma prepared_preds:
  "prepared s t \<Longrightarrow> b \<in> {0, - 1} \<Longrightarrow> prepared s (t\<lparr>half_predicates := (half_predicates t)[i := b]\<rparr>)"
  "prepared s t \<Longrightarrow> c \<in> {0, - 1} \<Longrightarrow> prepared s (t\<lparr>word_predicates := (word_predicates t)[i := c]\<rparr>)"
  using set_update_subset_insert [of "half_predicates t" i b] set_update_subset_insert [of "word_predicates t" i c]
  by (auto simp add: prepared_def quiet_def good_def arrays_ok_def preds_ok_def)

lemma prepared_lengths:
  assumes "prepared s t"
  shows "length (half_offsets t) = 64" "length (word_offsets t) = 64"
  using assms by (simp_all add: prepared_def quiet_def good_def arrays_okD)

lemma create_16:
  assumes "good s"
  shows "prepared s (create_offsets_and_values_16 s)"
    and "i < 64 \<Longrightarrow> half_offsets (create_offsets_and_values_16 s) ! i = of_nat (i * 130)"
proof -
  have "prepared s (create_offsets_and_values_16 s) \<and>
      (\<forall>i<MATRIX_SIZE. half_offsets (create_offsets_and_values_16 s) ! i = of_nat (i * 130))"
    unfolding create_offsets_and_values_16_def
    by (rule fold_upt_inv [where I = "\<lambda>n p. prepared s (fst p) \<and> (\<forall>j<n. half_offsets (fst p) ! j = of_nat (j * 130))"])
      (auto simp: assms prepared_refl prepared_values prepared_lengths MATRIX_SIZE_def nth_list_update less_Suc_eq
        simp del: of_nat_mult split: prod.split)
  then show "prepared s (create_offsets_and_values_16 s)"
    "i < 64 \<Longrightarrow> half_offsets (create_offsets_and_values_16 s) ! i = of_nat (i * 130)"
    by (simp_all add: MATRIX_SIZE_def)
qed

lemma create_preds_16:
  assumes "good s"
  shows "prepared s (create_preds_16 s)" "half_offsets (create_preds_16 s) = half_offsets s"
    "word_offsets (create_preds_16 s) = word_offsets s"
proof -
  have "prepared s (create_preds_16 s) \<and> half_offsets (create_preds_16 s) = half_offsets s \<and>
      word_offsets (create_preds_16 s) = word_offsets s"
    unfolding create_preds_16_def
    by (rule fold_upt_inv [where I = "\<lambda>n t. prepared s t \<and> half_offsets t = half_offsets s \<and> word_offsets t = word_offsets s"])
      (auto simp: assms prepared_refl prepared_preds)
  then show "prepared s (create_preds_16 s)" "half_offsets (create_preds_16 s) = half_offsets s"
    "word_offsets (create_preds_16 s) = word_offsets s" by simp_all
qed

lemma create_32:
  assumes "good s"
  shows "prepared s (create_offsets_and_values_32 s)"
    and "i < 64 \<Longrightarrow> word_offsets (create_offsets_and_values_32 s) ! i = of_nat (i * 260)"
proof -
  have "prepared s (create_offsets_and_values_32 s) \<and>
      (\<forall>i<MATRIX_SIZE. word_offsets (create_offsets_and_values_32 s) ! i = of_nat (i * 260))"
    unfolding create_offsets_and_values_32_def
    by (rule fold_upt_inv [where I = "\<lambda>n p. prepared s (fst p) \<and> (\<forall>j<n. word_offsets (fst p) ! j = of_nat (j * 260))"])
      (auto simp: assms prepared_refl prepared_values prepared_lengths MATRIX_SIZE_def nth_list_update less_Suc_eq
        simp del: of_nat_mult split: prod.split)
  then show "prepared s (create_offsets_and_values_32 s)"
    "i < 64 \<Longrightarrow> word_offsets (create_offsets_and_values_32 s) ! i = of_nat (i * 260)"
    by (simp_all add: MATRIX_SIZE_def)
qed

lemma create_preds_32:
  assumes "good s"
  shows "prepared s (create_preds_32 s)" "half_offsets (create_preds_32 s) = half_offsets s"
    "word_offsets (create_preds_32 s) = word_offsets s"
proof -
  have "prepared s (create_preds_32 s) \<and> half_offsets (create_preds_32 s) = half_offsets s \<and>
      word_offsets (create_preds_32 s) = word_offsets s"
    unfolding create_preds_32_def
    by (rule fold_upt_inv [where I = "\<lambda>n t. prepared s t \<and> half_offsets t = half_offsets s \<and> word_offsets t = word_offsets s"])
      (auto simp: assms prepared_refl prepared_preds)
  then show "prepared s (create_preds_32 s)" "half_offsets (create_preds_32 s) = half_offsets s"
    "word_offsets (create_preds_32 s) = word_offsets s" by simp_all
qed

lemma create_16_32:
  assumes "good s"
  shows "prepared s (create_offsets_and_values_16_32 s)"
    and "i < 64 \<Longrightarrow> word_offsets (create_offsets_and_values_16_32 s) ! i = of_nat (i * 130)"
proof -
  have "prepared s (create_offsets_and_values_16_32 s) \<and>
      (\<forall>i<MATRIX_SIZE. word_offsets (create_offsets_and_values_16_32 s) ! i = of_nat (i * 130))"
    unfolding create_offsets_and_values_16_32_def
    by (rule fold_upt_inv [where I = "\<lambda>n p. prepared s (fst p) \<and> (\<forall>j<n. word_offsets (fst p) ! j = of_nat (j * 130))"])
      (auto simp: assms prepared_refl prepared_values prepared_lengths MATRIX_SIZE_def nth_list_update less_Suc_eq
        simp del: of_nat_mult split: prod.split)
  then show "prepared s (create_offsets_and_values_16_32 s)"
    "i < 64 \<Longrightarrow> word_offsets (create_offsets_and_values_16_32 s) ! i = of_nat (i * 130)"
    by (simp_all add: MATRIX_SIZE_def)
qed

lemma create_preds_16_32:
  assumes "good s"
  shows "prepared s (create_preds_16_32 s)" "half_offsets (create_preds_16_32 s) = half_offsets s"
    "word_offsets (create_preds_16_32 s) = word_offsets s"
proof -
  have "prepared s (create_preds_16_32 s) \<and> half_offsets (create_preds_16_32 s) = half_offsets s \<and>
      word_offsets (create_preds_16_32 s) = word_offsets s"
    unfolding create_preds_16_32_def
    by (rule fold_upt_inv [where I = "\<lambda>n t. prepared s t \<and> half_offsets t = half_offsets s \<and> word_offsets t = word_offsets s"])
      (auto simp: assms prepared_refl prepared_preds)
  then show "prepared s (create_preds_16_32 s)" "half_offsets (create_preds_16_32 s) = half_offsets s"
    "word_offsets (create_preds_16_32 s) = word_offsets s" by simp_all
qed

text \<open>The offsets are aligned, inside the buffers and distinct.\<close>

lemma unat_offset_u16: "i < 64 \<Longrightarrow> unat (of_nat (i * 130) :: u16) = i * 130"
  by (simp only: unsigned_of_nat) (simp add: take_bit_nat_eq_self)

lemma unat_offset_u32: "i < 64 \<Longrightarrow> k \<le> 260 \<Longrightarrow> unat (of_nat (i * k) :: u32) = i * k"
proof -
  assume "i < 64" "k \<le> 260"
  then have "i * k \<le> 63 * 260" by (intro mult_le_mono) auto
  then show ?thesis by (simp only: unsigned_of_nat) (simp add: take_bit_nat_eq_self)
qed

lemma prepared_16:
  assumes "good s"
  shows "prepared s (create_preds_16 (create_offsets_and_values_16 s))"
    "offs16_ok (create_preds_16 (create_offsets_and_values_16 s))"
proof -
  have g: "good (create_offsets_and_values_16 s)"
    using create_16(1) [OF assms] by (simp add: prepared_def quiet_def)
  show "prepared s (create_preds_16 (create_offsets_and_values_16 s))"
    using create_16(1) [OF assms] create_preds_16(1) [OF g] by (rule prepared_trans)
  show "offs16_ok (create_preds_16 (create_offsets_and_values_16 s))"
    unfolding offs16_ok_def create_preds_16(2) [OF g]
    using create_16(2) [OF assms] unat_offset_u16 by (simp del: of_nat_mult)
qed

lemma prepared_32:
  assumes "good s"
  shows "prepared s (create_preds_32 (create_offsets_and_values_32 s))"
    "offs32_ok (create_preds_32 (create_offsets_and_values_32 s))"
proof -
  have g: "good (create_offsets_and_values_32 s)"
    using create_32(1) [OF assms] by (simp add: prepared_def quiet_def)
  show "prepared s (create_preds_32 (create_offsets_and_values_32 s))"
    using create_32(1) [OF assms] create_preds_32(1) [OF g] by (rule prepared_trans)
  have "i * 260 mod 4 = 0" for i :: nat
    using mod_mult_self2_is_0 [of "i * 65" 4] by (simp add: mult.assoc)
  then show "offs32_ok (create_preds_32 (create_offsets_and_values_32 s))"
    unfolding offs32_ok_def create_preds_32(3) [OF g]
    using create_32(2) [OF assms] unat_offset_u32 [of _ 260] by (simp del: of_nat_mult)
qed

lemma prepared_16_32:
  assumes "good s"
  shows "prepared s (create_preds_16_32 (create_offsets_and_values_16_32 s))"
    "offs16_32_ok (create_preds_16_32 (create_offsets_and_values_16_32 s))"
proof -
  let ?s = "create_offsets_and_values_16_32 s"
  have p: "prepared s ?s" by (rule create_16_32(1) [OF assms])
  then have g: "good ?s" by (simp add: prepared_def quiet_def)
  show "prepared s (create_preds_16_32 ?s)"
    using p create_preds_16_32(1) [OF g] by (rule prepared_trans)
  have u: "unat (word_offsets ?s ! i) = i * 130" if "i < 64" for i
    using create_16_32(2) [OF assms that] unat_offset_u32 [OF that, of 130] by (simp del: of_nat_mult)
  have "distinct (word_offsets ?s)"
    unfolding distinct_conv_nth prepared_lengths(2) [OF p]
  proof (intro allI impI notI)
    fix i j assume *: "i < 64" "j < 64" "i \<noteq> j" "word_offsets ?s ! i = word_offsets ?s ! j"
    then have "i * 130 = j * 130" using u [of i] u [of j] by simp
    with *(3) show False by simp
  qed
  then show "offs16_32_ok (create_preds_16_32 ?s)"
    unfolding offs16_32_ok_def create_preds_16_32(3) [OF g] using u by simp
qed

section \<open>The whole program\<close>

text \<open>The scratch area from offset \<open>k0\<close> on still has the fill character.\<close>

definition filled_from :: "nat \<Rightarrow> 'd sg \<Rightarrow> bool" where
  "filled_from k0 s \<longleftrightarrow> (\<forall>k. k0 \<le> k \<and> k < SCRATCH_SIZE \<longrightarrow> vm s (VTCM_BASE_ADDRESS s + of_nat k) = FILL_CHAR)"

lemma fill_char_cast: "ucast (ucast FILL_CHAR :: u32) = FILL_CHAR"
  by (simp add: FILL_CHAR_def)

lemma e16_region_filled:
  assumes "filled_from k0 s" "k0 \<le> o'" "o' + 2 * n \<le> SCRATCH_SIZE"
  shows "e16.region (vm s) (VTCM_BASE_ADDRESS s + of_nat o') n = fill16 (ucast FILL_CHAR) n"
proof (rule nth_equalityI)
  let ?b = "VTCM_BASE_ADDRESS s"
  fix i assume "i < length (e16.region (vm s) (?b + of_nat o') n)"
  then have i: "i < n" by simp
  have "vm s (?b + of_nat (o' + 2 * i)) = FILL_CHAR" "vm s (?b + of_nat (o' + 2 * i + 1)) = FILL_CHAR"
    using assms i by (simp_all add: filled_from_def del: of_nat_add of_nat_mult of_nat_Suc)
  then show "e16.region (vm s) (?b + of_nat o') n ! i = fill16 (ucast FILL_CHAR) n ! i"
    using i by (simp add: load16_def fill16_def fill_char_cast ac_simps)
qed simp

lemma e32_region_filled:
  assumes "filled_from k0 s" "k0 \<le> o'" "o' + 4 * n \<le> SCRATCH_SIZE"
  shows "e32.region (vm s) (VTCM_BASE_ADDRESS s + of_nat o') n = fill32 (ucast FILL_CHAR) n"
proof (rule nth_equalityI)
  let ?b = "VTCM_BASE_ADDRESS s"
  fix i assume "i < length (e32.region (vm s) (?b + of_nat o') n)"
  then have i: "i < n" by simp
  have "vm s (?b + of_nat (o' + 4 * i)) = FILL_CHAR" "vm s (?b + of_nat (o' + 4 * i + 1)) = FILL_CHAR"
    "vm s (?b + of_nat (o' + 4 * i + 2)) = FILL_CHAR" "vm s (?b + of_nat (o' + 4 * i + 3)) = FILL_CHAR"
    using assms i by (simp_all add: filled_from_def del: of_nat_add of_nat_mult of_nat_Suc)
  then show "e32.region (vm s) (?b + of_nat o') n ! i = fill32 (ucast FILL_CHAR) n ! i"
    using i by (simp add: load32_def fill32_def fill_char_cast ac_simps)
qed simp

text \<open>A run that changes only the bytes below \<open>k1\<close> keeps the fill above it.\<close>

lemma filled_from_frame:
  assumes f: "filled_from k0 s" and q: "quiet s s'" and k: "k0 \<le> k1" "x + n \<le> k1" "y + l \<le> k1"
    and fr: "\<And>a. (\<forall>k<n. a \<noteq> VTCM_BASE_ADDRESS s + of_nat x + of_nat k) \<Longrightarrow>
      (\<forall>k<l. a \<noteq> VTCM_BASE_ADDRESS s + of_nat y + of_nat k) \<Longrightarrow> vm s' a = vm s a"
  shows "filled_from k1 s'"
  unfolding filled_from_def
proof (intro allI impI)
  let ?b = "VTCM_BASE_ADDRESS s"
  fix j assume j: "k1 \<le> j \<and> j < SCRATCH_SIZE"
  have out: "?b + of_nat j \<noteq> ?b + of_nat z + of_nat i" if "i < c" "z + c \<le> k1" for z c i
  proof
    assume "?b + of_nat j = ?b + of_nat z + of_nat i"
    then have "?b + of_nat j = ?b + of_nat (z + i)" by (simp add: ac_simps)
    then have "j = z + i" by (rule e16.offset_inj [rotated 2]) (use j that in \<open>auto simp: SCRATCH_SIZE_def\<close>)
    with that j show False by simp
  qed
  have "vm s' (?b + of_nat j) = vm s (?b + of_nat j)"
    by (rule fr) (use out k in blast)+
  then show "vm s' (VTCM_BASE_ADDRESS s' + of_nat j) = FILL_CHAR"
    using f q j k(1) by (simp add: filled_from_def quiet_def)
qed

lemma quiet_trans: "quiet s s' \<Longrightarrow> quiet s' s'' \<Longrightarrow> quiet s s''"
  by (simp add: quiet_def)

lemma prepared_filled: "prepared s t \<Longrightarrow> filled_from k s \<Longrightarrow> filled_from k t"
  by (simp add: prepared_def quiet_def filled_from_def)

lemma good_addresses:
  assumes "good s"
  shows "vscatter16 s = VTCM_BASE_ADDRESS s + of_nat 0" "vgather16 s = VTCM_BASE_ADDRESS s + of_nat 8192"
    "vscatter32 s = VTCM_BASE_ADDRESS s + of_nat 8320" "vgather32 s = VTCM_BASE_ADDRESS s + of_nat 24704"
    "vscatter16_32 s = VTCM_BASE_ADDRESS s + of_nat 24960" "vgather16_32 s = VTCM_BASE_ADDRESS s + of_nat 33152"
  using assms by (simp_all add: good_def layout_def)

context hvx_unit
begin

lemma main_16_quiet:
  assumes "good s" "filled_from 0 s"
  shows "\<exists>s'. main_16 ops s = Some s' \<and> quiet s s' \<and> filled_from 8320 s'"
proof -
  let ?t = "create_preds_16 (create_offsets_and_values_16 s)"
  have t: "prepared s ?t" "offs16_ok ?t" by (rule prepared_16 [OF assms(1)])+
  have g: "good ?t" using t(1) by (simp add: prepared_def quiet_def)
  have f: "filled_from 0 ?t" by (rule prepared_filled [OF t(1) assms(2)])
  have "e16.region (vm ?t) (vscatter16 ?t) 4096 = fill16 (ucast FILL_CHAR) SCATTER_BUFFER_SIZE"
    unfolding good_addresses [OF g] using e16_region_filled [OF f, of 0 4096]
    by (simp add: SCRATCH_SIZE_def SCATTER_BUFFER_SIZE_def MATRIX_SIZE_def)
  from family_16_run [OF g t(2) this] obtain s' where s': "main_16 ops s = Some s'" "quiet ?t s'"
    "\<And>a. (\<forall>k<8192. a \<noteq> vscatter16 ?t + of_nat k) \<Longrightarrow> (\<forall>k<128. a \<noteq> vgather16 ?t + of_nat k) \<Longrightarrow> vm s' a = vm ?t a"
    unfolding main_16_def Let_def by blast
  have "filled_from 8320 s'"
    by (rule filled_from_frame [OF f s'(2), of 8320 0 8192 8192 128]) (use s'(3) good_addresses [OF g] in simp_all)
  moreover have "quiet s s'" using t(1) s'(2) by (auto simp: prepared_def intro: quiet_trans)
  ultimately show ?thesis using s'(1) by blast
qed

lemma main_32_quiet:
  assumes "good s" "filled_from 8320 s"
  shows "\<exists>s'. main_32 ops s = Some s' \<and> quiet s s' \<and> filled_from 24960 s'"
proof -
  let ?t = "create_preds_32 (create_offsets_and_values_32 s)"
  have t: "prepared s ?t" "offs32_ok ?t" by (rule prepared_32 [OF assms(1)])+
  have g: "good ?t" using t(1) by (simp add: prepared_def quiet_def)
  have f: "filled_from 8320 ?t" by (rule prepared_filled [OF t(1) assms(2)])
  have "e32.region (vm ?t) (vscatter32 ?t) 4096 = fill32 (ucast FILL_CHAR) SCATTER_BUFFER_SIZE"
    unfolding good_addresses [OF g] using e32_region_filled [OF f, of 8320 4096]
    by (simp add: SCRATCH_SIZE_def SCATTER_BUFFER_SIZE_def MATRIX_SIZE_def)
  from family_32_run [OF g t(2) this] obtain s' where s': "main_32 ops s = Some s'" "quiet ?t s'"
    "\<And>a. (\<forall>k<16384. a \<noteq> vscatter32 ?t + of_nat k) \<Longrightarrow> (\<forall>k<256. a \<noteq> vgather32 ?t + of_nat k) \<Longrightarrow> vm s' a = vm ?t a"
    unfolding main_32_def Let_def by blast
  have "filled_from 24960 s'"
    by (rule filled_from_frame [OF f s'(2), of 24960 8320 16384 24704 256]) (use s'(3) good_addresses [OF g] in simp_all)
  moreover have "quiet s s'" using t(1) s'(2) by (auto simp: prepared_def intro: quiet_trans)
  ultimately show ?thesis using s'(1) by blast
qed

lemma main_16_32_quiet:
  assumes "good s" "filled_from 24960 s"
  shows "\<exists>s'. main_16_32 ops s = Some s' \<and> quiet s s'"
proof -
  let ?t = "create_preds_16_32 (create_offsets_and_values_16_32 s)"
  have t: "prepared s ?t" "offs16_32_ok ?t" by (rule prepared_16_32 [OF assms(1)])+
  have g: "good ?t" using t(1) by (simp add: prepared_def quiet_def)
  have f: "filled_from 24960 ?t" by (rule prepared_filled [OF t(1) assms(2)])
  have "e16.region (vm ?t) (vscatter16_32 ?t) 4096 = fill16 (ucast FILL_CHAR) SCATTER_BUFFER_SIZE"
    unfolding good_addresses [OF g] using e16_region_filled [OF f, of 24960 4096]
    by (simp add: SCRATCH_SIZE_def SCATTER_BUFFER_SIZE_def MATRIX_SIZE_def)
  from family_16_32_run [OF g t(2) this] obtain s' where "main_16_32 ops s = Some s'" "quiet ?t s'"
    unfolding main_16_32_def Let_def by blast
  then show ?thesis using t(1) by (auto simp: prepared_def intro: quiet_trans)
qed

end

context hvx_unit
begin

lemma scatter_equiv_16:
  assumes g: "good s" "offs16_ok s"
  shows "(\<exists>r. scalar_scatter_16 s (e16.region (vm s) (vscatter16 s) 4096) = Some r \<and>
        e16.rewritten (vscatter16 s) 4096 r (vm s) (vm (vector_scatter_16 ops s))) \<and>
      (\<exists>r. scalar_scatter_acc_16 s (e16.region (vm s) (vscatter16 s) 4096) = Some r \<and>
        e16.rewritten (vscatter16 s) 4096 r (vm s) (vm (vector_scatter_acc_16 ops s))) \<and>
      (\<exists>r. scalar_scatter_q_16 s (e16.region (vm s) (vscatter16 s) 4096) = Some r \<and>
        e16.rewritten (vscatter16 s) 4096 r (vm s) (vm (vector_scatter_q_16 ops s)))"
proof -
  note ok = goodD(1) [OF g(1)] g(2) and al = aligned_weaken [OF layoutD(1) [OF goodD(3) [OF g(1)]]]
  show ?thesis
    using scalar_16_loops [OF ok, of "e16.region (vm s) (vscatter16 s) 4096"] vector_scatter_16_effect [OF ok]
      vector_scatter_acc_16_effect [OF ok] vector_scatter_q_16_effect [OF ok _ goodD(2) [OF g(1)]] al
    by auto
qed

lemma gather_equiv_16:
  assumes g: "good s" "offs16_ok s"
  shows "(\<exists>r. scalar_gather_16 s (fill16 0 64) = Some r \<and>
        e16.rewritten (vgather16 s) 64 r (vm s) (vm (vector_gather_16 ops s))) \<and>
      (\<exists>r. scalar_gather_q_16 s (fill16 (ucast gather_q_16_init) 64) = Some r \<and>
        e16.rewritten (vgather16 s) 64 r (vm s) (vm (vector_gather_q_16 ops s)))"
proof -
  note ok = goodD(1) [OF g(1)] g(2) and lay = layoutD [OF goodD(3) [OF g(1)]]
  have "e16.rewritten (vgather16 s) 64 (upd_fold (\<lambda>_. True) (\<lambda>i. i)
      (\<lambda>i _. load16 (vm s) (vscatter16 s + of_nat (2 * idx16 s i))) [0..<64] (fill16 0 64)) (vm s) (vm (vector_gather_16 ops s))"
    using vector_gather_16_effect [OF ok] lay
    by (subst upd_fold_all [of _ "e16.region (vm s) (vgather16 s) 64"]) (simp_all add: aligned_weaken)
  moreover note vector_gather_q_16_effect [OF ok] lay goodD(2) [OF g(1)]
  ultimately show ?thesis
    using scalar_gather_16_loops [of "fill16 0 64" s] scalar_gather_16_loops [of "fill16 (ucast gather_q_16_init) 64" s]
    by (simp add: aligned_weaken gather_init_fill)
qed

lemma scatter_equiv_32:
  assumes g: "good s" "offs32_ok s"
  shows "(\<exists>r. scalar_scatter_32 s (e32.region (vm s) (vscatter32 s) 4096) = Some r \<and>
        e32.rewritten (vscatter32 s) 4096 r (vm s) (vm (vector_scatter_32 ops s))) \<and>
      (\<exists>r. scalar_scatter_acc_32 s (e32.region (vm s) (vscatter32 s) 4096) = Some r \<and>
        e32.rewritten (vscatter32 s) 4096 r (vm s) (vm (vector_scatter_acc_32 ops s))) \<and>
      (\<exists>r. scalar_scatter_q_32 s (e32.region (vm s) (vscatter32 s) 4096) = Some r \<and>
        e32.rewritten (vscatter32 s) 4096 r (vm s) (vm (vector_scatter_q_32 ops s)))"
proof -
  note ok = goodD(1) [OF g(1)] g(2) and al = aligned_weaken [OF layoutD(3) [OF goodD(3) [OF g(1)]]]
  show ?thesis
    using scalar_32_loops [OF ok, of "e32.region (vm s) (vscatter32 s) 4096"] vector_scatter_32_effect [OF ok]
      vector_scatter_acc_32_effect [OF ok] vector_scatter_q_32_effect [OF ok _ goodD(2) [OF g(1)]] al
    by auto
qed

lemma gather_equiv_32:
  assumes g: "good s" "offs32_ok s"
  shows "(\<exists>r. scalar_gather_32 s (fill32 0 64) = Some r \<and>
        e32.rewritten (vgather32 s) 64 r (vm s) (vm (vector_gather_32 ops s))) \<and>
      (\<exists>r. scalar_gather_q_32 s (fill32 gather_q_32_init 64) = Some r \<and>
        e32.rewritten (vgather32 s) 64 r (vm s) (vm (vector_gather_q_32 ops s)))"
proof -
  note ok = goodD(1) [OF g(1)] g(2) and lay = layoutD [OF goodD(3) [OF g(1)]]
  have "e32.rewritten (vgather32 s) 64 (upd_fold (\<lambda>_. True) (\<lambda>i. i)
      (\<lambda>i _. load32 (vm s) (vscatter32 s + of_nat (4 * idx32 s i))) [0..<64] (fill32 0 64)) (vm s) (vm (vector_gather_32 ops s))"
    using vector_gather_32_effect [OF ok] lay
    by (subst upd_fold_all [of _ "e32.region (vm s) (vgather32 s) 64"]) (simp_all add: aligned_weaken)
  moreover note vector_gather_q_32_effect [OF ok] lay goodD(2) [OF g(1)]
  ultimately show ?thesis
    using scalar_gather_32_loops [of "fill32 0 64" s] scalar_gather_32_loops [of "fill32 gather_q_32_init 64" s]
    by (simp add: aligned_weaken gather_init_fill)
qed

lemma scatter_equiv_16_32:
  assumes g: "good s" "offs16_32_ok s"
  shows "(\<exists>r. scalar_scatter_16_32 s (e16.region (vm s) (vscatter16_32 s) 4096) = Some r \<and>
        e16.rewritten (vscatter16_32 s) 4096 r (vm s) (vm (vector_scatter_16_32 ops s))) \<and>
      (\<exists>r. scalar_scatteracc_16_32 s (e16.region (vm s) (vscatter16_32 s) 4096) = Some r \<and>
        e16.rewritten (vscatter16_32 s) 4096 r (vm s) (vm (vector_scatter_acc_16_32 ops s))) \<and>
      (\<exists>r. scalar_scatter_q_16_32 s (e16.region (vm s) (vscatter16_32 s) 4096) = Some r \<and>
        e16.rewritten (vscatter16_32 s) 4096 r (vm s) (vm (vector_scatter_q_16_32 ops s)))"
proof -
  note ok = goodD(1) [OF g(1)] g(2) and al = aligned_weaken [OF layoutD(6) [OF goodD(3) [OF g(1)]]]
  show ?thesis
    using scalar_16_32_loops [OF ok, of "e16.region (vm s) (vscatter16_32 s) 4096"] vector_scatter_16_32_effect [OF ok]
      vector_scatter_acc_16_32_effect [OF ok] vector_scatter_q_16_32_effect [OF ok _ goodD(2) [OF g(1)]] al
    by auto
qed

lemma gather_equiv_16_32:
  assumes g: "good s" "offs16_32_ok s"
  shows "(\<exists>r. scalar_gather_16_32 s (fill16 0 64) = Some r \<and>
        e16.rewritten (vgather16_32 s) 64 r (vm s) (vm (vector_gather_16_32 ops s))) \<and>
      (\<exists>r. scalar_gather_q_16_32 s (fill16 (ucast gather_q_16_init) 64) = Some r \<and>
        e16.rewritten (vgather16_32 s) 64 r (vm s) (vm (vector_gather_q_16_32 ops s)))"
proof -
  note ok = goodD(1) [OF g(1)] g(2) and lay = layoutD [OF goodD(3) [OF g(1)]]
  have "e16.rewritten (vgather16_32 s) 64 (upd_fold (\<lambda>_. True) (\<lambda>i. i)
      (\<lambda>i _. load16 (vm s) (vscatter16_32 s + of_nat (2 * idx16_32 s i))) [0..<64] (fill16 0 64)) (vm s) (vm (vector_gather_16_32 ops s))"
    using vector_gather_16_32_effect [OF ok] lay
    by (subst upd_fold_all [of _ "e16.region (vm s) (vgather16_32 s) 64"]) (simp_all add: aligned_weaken)
  moreover note vector_gather_q_16_32_effect [OF ok] lay goodD(2) [OF g(1)]
  ultimately show ?thesis
    using scalar_gather_16_32_loops [of "fill16 0 64" s] scalar_gather_16_32_loops [of "fill16 (ucast gather_q_16_init) 64" s]
    by (simp add: aligned_weaken gather_init_fill)
qed

end

text \<open>The static variables before \<open>main\<close>.\<close>

definition sg_init :: "vmem \<Rightarrow> 'd tlb_rt \<Rightarrow> 'd sg" where
  "sg_init m t = \<lparr>err = 0, VTCM_BASE_ADDRESS = 0, VTCM_SCATTER16_ADDRESS = 0, VTCM_GATHER16_ADDRESS = 0,
     VTCM_SCATTER32_ADDRESS = 0, VTCM_GATHER32_ADDRESS = 0, VTCM_SCATTER16_32_ADDRESS = 0,
     VTCM_GATHER16_32_ADDRESS = 0, vscatter16_ref = replicate 4096 0, vgather16_ref = replicate 64 0,
     vscatter32_ref = replicate 4096 0, vgather32_ref = replicate 64 0, vscatter16_32_ref = replicate 4096 0,
     vgather16_32_ref = replicate 64 0, half_offsets = replicate 64 0, word_offsets = replicate 64 0,
     half_values = replicate 64 0, half_acc_values = replicate 64 0, half_q_values = replicate 64 0,
     word_values = replicate 64 0, word_acc_values = replicate 64 0, word_q_values = replicate 64 0,
     half_predicates = replicate 64 0, word_predicates = replicate 64 0, vm = m, tlb = t, out = []\<rparr>"

lemma vtcm_base_aligned: "aligned 128 (get_vtcm_base cfg)"
proof -
  have "unat (push_bit 16 x :: u32) mod 128 = 0" for x :: u32
  proof -
    have "unat (push_bit 16 x) = (unat x * 2 ^ 16) mod 2 ^ 32"
      by (simp add: push_bit_eq_mult unat_word_ariths)
    moreover have "(unat x * 2 ^ 16) mod 2 ^ 32 mod 128 = (unat x * 2 ^ 16) mod 128"
      by (rule mod_mod_cancel) simp
    moreover have "(unat x * 2 ^ 16) mod 128 = 0"
      using mod_mult_self2_is_0 [of "unat x * 2 ^ 9" 128] by (simp add: mult.assoc)
    ultimately show ?thesis by simp
  qed
  then show ?thesis by (simp add: aligned_def get_vtcm_base_def)
qed

lemma setup_good: "good (prefill_vtcm_scratch (setup_tcm arch hw cfg (sg_init m t)))"
  using vtcm_base_aligned [of cfg]
  by (simp add: good_def arrays_ok_def preds_ok_def layout_def prefill_vtcm_scratch_def setup_tcm_def sg_init_def
      Let_def size_defs)

lemma setup_filled: "filled_from 0 (prefill_vtcm_scratch s)"
  by (auto simp: filled_from_def prefill_vtcm_scratch_def SCRATCH_SIZE_def unsigned_of_nat take_bit_nat_eq_self)

text \<open>C9: on a vector unit that behaves as documented, the whole scatter/gather program returns 0 and
  prints \<open>PASS\<close>: none of its fifteen checks reports a mismatch, and no array is accessed out of
  bounds, whatever the memory and the TLB contain before and wherever the VTCM is.\<close>

theorem standalone_vec_passes:
  assumes "hvx_unit ops"
  shows "\<exists>s'. standalone_vec_main arch hw cfg ops (sg_init m t) = Some (0, s') \<and> out s' = [Verdict ''PASS'']"
proof -
  let ?s = "prefill_vtcm_scratch (setup_tcm arch hw cfg (sg_init m t))"
  obtain s1 where s1: "main_16 ops ?s = Some s1" "quiet ?s s1" "filled_from 8320 s1"
    using hvx_unit.main_16_quiet [OF assms setup_good setup_filled] by blast
  then obtain s2 where s2: "main_32 ops s1 = Some s2" "quiet s1 s2" "filled_from 24960 s2"
    using hvx_unit.main_32_quiet [OF assms, of s1] by (auto simp: quiet_def)
  then obtain s3 where s3: "main_16_32 ops s2 = Some s3" "quiet s2 s3"
    using hvx_unit.main_16_32_quiet [OF assms, of s2] by (auto simp: quiet_def)
  have "err s3 = 0" "out s3 = []"
    using s1(2) s2(2) s3(2)
    by (simp_all add: quiet_def prefill_vtcm_scratch_def setup_tcm_def sg_init_def Let_def)
  then show ?thesis using s1(1) s2(1) s3(1) by (simp add: standalone_vec_main_def Let_def)
qed

theorem standalone_vec_passes_witness:
  "\<exists>s'. standalone_vec_main 68 arr_tlb \<lparr>cfgbase = 0xde00, memw_phys = (\<lambda>_ _. 0xd820)\<rparr> hvx_model
      (sg_init (\<lambda>_. 0) \<lparr>dev = replicate 8 0, ssr_reg = 0, syscfg_TL = False, tlb_fixed_entries = 6, upte = \<lambda>_. 0\<rparr>)
    = Some (0, s') \<and> out s' = [Verdict ''PASS'']"
  by (rule standalone_vec_passes [OF hvx.hvx_unit_axioms])

text \<open>C10: each of the nine vector scatters (store, accumulate and store under a predicate, for the three
  element and offset widths) leaves in its buffer exactly what the scalar loop computes from the previous content,
  and changes no byte outside the buffer, for every content of the input arrays whose offsets are aligned and
  inside the buffer (and distinct for the 16 bit elements with 32 bit offsets, whose lanes are shuffled).\<close>

theorem vector_scatter_equals_scalar:
  assumes "hvx_unit ops" and "good s"
  shows "(offs16_ok s \<longrightarrow>
      (\<exists>r. scalar_scatter_16 s (e16.region (vm s) (vscatter16 s) 4096) = Some r \<and>
        e16.rewritten (vscatter16 s) 4096 r (vm s) (vm (vector_scatter_16 ops s))) \<and>
      (\<exists>r. scalar_scatter_acc_16 s (e16.region (vm s) (vscatter16 s) 4096) = Some r \<and>
        e16.rewritten (vscatter16 s) 4096 r (vm s) (vm (vector_scatter_acc_16 ops s))) \<and>
      (\<exists>r. scalar_scatter_q_16 s (e16.region (vm s) (vscatter16 s) 4096) = Some r \<and>
        e16.rewritten (vscatter16 s) 4096 r (vm s) (vm (vector_scatter_q_16 ops s)))) \<and>
    (offs32_ok s \<longrightarrow>
      (\<exists>r. scalar_scatter_32 s (e32.region (vm s) (vscatter32 s) 4096) = Some r \<and>
        e32.rewritten (vscatter32 s) 4096 r (vm s) (vm (vector_scatter_32 ops s))) \<and>
      (\<exists>r. scalar_scatter_acc_32 s (e32.region (vm s) (vscatter32 s) 4096) = Some r \<and>
        e32.rewritten (vscatter32 s) 4096 r (vm s) (vm (vector_scatter_acc_32 ops s))) \<and>
      (\<exists>r. scalar_scatter_q_32 s (e32.region (vm s) (vscatter32 s) 4096) = Some r \<and>
        e32.rewritten (vscatter32 s) 4096 r (vm s) (vm (vector_scatter_q_32 ops s)))) \<and>
    (offs16_32_ok s \<longrightarrow>
      (\<exists>r. scalar_scatter_16_32 s (e16.region (vm s) (vscatter16_32 s) 4096) = Some r \<and>
        e16.rewritten (vscatter16_32 s) 4096 r (vm s) (vm (vector_scatter_16_32 ops s))) \<and>
      (\<exists>r. scalar_scatteracc_16_32 s (e16.region (vm s) (vscatter16_32 s) 4096) = Some r \<and>
        e16.rewritten (vscatter16_32 s) 4096 r (vm s) (vm (vector_scatter_acc_16_32 ops s))) \<and>
      (\<exists>r. scalar_scatter_q_16_32 s (e16.region (vm s) (vscatter16_32 s) 4096) = Some r \<and>
        e16.rewritten (vscatter16_32 s) 4096 r (vm s) (vm (vector_scatter_q_16_32 ops s))))"
  using hvx_unit.scatter_equiv_16 [OF assms] hvx_unit.scatter_equiv_32 [OF assms] hvx_unit.scatter_equiv_16_32 [OF assms]
  by blast

text \<open>C11: each of the six vector gathers fills its buffer with exactly what the scalar loop computes, the
  masked ones keeping the fill pattern in the lanes that are not selected, and changes no other byte.\<close>

theorem vector_gather_equals_scalar:
  assumes "hvx_unit ops" and "good s"
  shows "(offs16_ok s \<longrightarrow>
      (\<exists>r. scalar_gather_16 s (fill16 0 64) = Some r \<and>
        e16.rewritten (vgather16 s) 64 r (vm s) (vm (vector_gather_16 ops s))) \<and>
      (\<exists>r. scalar_gather_q_16 s (fill16 (ucast gather_q_16_init) 64) = Some r \<and>
        e16.rewritten (vgather16 s) 64 r (vm s) (vm (vector_gather_q_16 ops s)))) \<and>
    (offs32_ok s \<longrightarrow>
      (\<exists>r. scalar_gather_32 s (fill32 0 64) = Some r \<and>
        e32.rewritten (vgather32 s) 64 r (vm s) (vm (vector_gather_32 ops s))) \<and>
      (\<exists>r. scalar_gather_q_32 s (fill32 gather_q_32_init 64) = Some r \<and>
        e32.rewritten (vgather32 s) 64 r (vm s) (vm (vector_gather_q_32 ops s)))) \<and>
    (offs16_32_ok s \<longrightarrow>
      (\<exists>r. scalar_gather_16_32 s (fill16 0 64) = Some r \<and>
        e16.rewritten (vgather16_32 s) 64 r (vm s) (vm (vector_gather_16_32 ops s))) \<and>
      (\<exists>r. scalar_gather_q_16_32 s (fill16 (ucast gather_q_16_init) 64) = Some r \<and>
        e16.rewritten (vgather16_32 s) 64 r (vm s) (vm (vector_gather_q_16_32 ops s))))"
  using hvx_unit.gather_equiv_16 [OF assms] hvx_unit.gather_equiv_32 [OF assms] hvx_unit.gather_equiv_16_32 [OF assms]
  by blast

definition sample_sg :: "u64 list sg" where
  "sample_sg = create_preds_16 (create_offsets_and_values_16
     (prefill_vtcm_scratch (setup_tcm 68 arr_tlb \<lparr>cfgbase = 0xde00, memw_phys = (\<lambda>_ _. 0xd820)\<rparr>
       (sg_init (\<lambda>_. 0) \<lparr>dev = replicate 8 0, ssr_reg = 0, syscfg_TL = False, tlb_fixed_entries = 6, upte = \<lambda>_. 0\<rparr>))))"

lemma sample_sg_ok: "good sample_sg" "offs16_ok sample_sg"
proof -
  show "good sample_sg"
    using prepared_16(1) [OF setup_good] unfolding sample_sg_def prepared_def quiet_def by blast
  show "offs16_ok sample_sg"
    unfolding sample_sg_def by (rule prepared_16(2) [OF setup_good])
qed

theorem vector_scatter_equals_scalar_witness:
  "\<exists>r. scalar_scatter_16 sample_sg (e16.region (vm sample_sg) (vscatter16 sample_sg) 4096) = Some r \<and>
     e16.rewritten (vscatter16 sample_sg) 4096 r (vm sample_sg) (vm (vector_scatter_16 hvx_model sample_sg))"
  using vector_scatter_equals_scalar [OF hvx.hvx_unit_axioms sample_sg_ok(1)] sample_sg_ok(2) by blast

theorem vector_gather_equals_scalar_witness:
  "\<exists>r. scalar_gather_16 sample_sg (fill16 0 64) = Some r \<and>
     e16.rewritten (vgather16 sample_sg) 64 r (vm sample_sg) (vm (vector_gather_16 hvx_model sample_sg))"
  using vector_gather_equals_scalar [OF hvx.hvx_unit_axioms sample_sg_ok(1)] sample_sg_ok(2) by blast

end
