(* ===== verification/Hw_Threads.thy ===== *)
theory Hw_Threads
  imports Hex_Test
begin

text \<open>
  The hardware threads of the standalone tests and the start protocol of
  \<open>src/thread_common.c\<close> and \<open>include/thread_common.h\<close>.  Every thread has a program,
  the list of the actions it has still to perform on the shared memory and registers; the loops of
  the sources, whose bounds are constants, are unrolled into it.  A step performs the first action
  of some thread, so the runs are all interleavings.  A spin loop
  \<open>while (thread_semaphore[tid] != state) pause\<close> is one action whose step leaves the loop, so it is
  enabled when the condition of the loop is false; the rounds of the loop before that change nothing and
  are the turns of \<open>turn\<close> in which the machine stays as it is, so that an execution in the sense of
  \<open>fair_execution\<close> can spin for ever.  A stalled \<open>k0lock\<close> is treated alike.  An interrupt runs its handler on top of the
  program of the thread that takes it.
\<close>

section \<open>Actions and the machine\<close>

text \<open>The two hardware locks, with their bit of \<open>syscfg\<close>.\<close>

datatype lock = K0 | TLB

fun lock_bit :: "lock \<Rightarrow> nat" where
  "lock_bit TLB = 11"
| "lock_bit K0 = 12"

datatype isr_var = Isr_count | Isr_kl_set_count | Isr_tl_set_count

datatype print_arg = Const u32 | Counter lock | Isr isr_var

datatype action =
    Sem_store nat int | Sem_await nat int
  | Malloc_work | Free_work
  | Thread_create nat "action list" | Thread_join u32
  | Lock lock | Unlock lock
  | Load lock | Store lock | Reset lock
  | Delay nat
  | Swi u32 | Set_imask u32 | Iassignw nat u32 | Register_interrupt nat "action list"
  | Isr_clear isr_var | Isr_syscfg | Isr_load isr_var | Isr_store isr_var
  | Check_syscfg int lock u32 | Check_counter int lock u32 | Check_isr_ne int isr_var u32
  | Printf string "print_arg list"

record machine =
  thread_semaphore :: "nat \<Rightarrow> int"
  syscfg :: u32
  counter :: "lock \<Rightarrow> u32"
  temp :: "nat \<Rightarrow> u32"
  prog :: "nat \<Rightarrow> action list"
  handler :: "nat \<Rightarrow> action list"
  heap_free :: nat
  aborted :: bool
  ipend :: u32
  imask :: "nat \<Rightarrow> u32"
  iassign :: "nat \<Rightarrow> u32"
  isr_of :: "nat \<Rightarrow> action list"
  isr_cnt :: "isr_var \<Rightarrow> u32"
  isr_syscfg :: "nat \<Rightarrow> u32"
  isr_temp :: "nat \<Rightarrow> u32"
  results :: checks
  console :: "(string \<times> u32 list) list"

definition lock_held :: "lock \<Rightarrow> machine \<Rightarrow> bool" where
  "lock_held l m = (drop_bit (lock_bit l) (syscfg m) AND 1 \<noteq> 0)"

fun isr_guard :: "isr_var \<Rightarrow> u32 \<Rightarrow> bool" where
  "isr_guard Isr_count cfg = True"
| "isr_guard Isr_kl_set_count cfg = (drop_bit (lock_bit K0) cfg AND 1 \<noteq> 0)"
| "isr_guard Isr_tl_set_count cfg = (drop_bit (lock_bit TLB) cfg AND 1 \<noteq> 0)"

fun arg_value :: "machine \<Rightarrow> print_arg \<Rightarrow> u32" where
  "arg_value m (Const c) = c"
| "arg_value m (Counter l) = counter m l"
| "arg_value m (Isr v) = isr_cnt m v"

definition running :: "machine \<Rightarrow> nat \<Rightarrow> bool" where
  "running m t = (prog m t \<noteq> [] \<or> handler m t \<noteq> [])"

text \<open>
  One action of thread \<open>t\<close>; \<open>None\<close> when it is blocked.  A new thread starts with its
  interrupts unmasked, as the reset handler of the start code leaves them, and stops when its
  function returns.  A failed \<open>assert\<close> stops the machine.
\<close>

fun act :: "nat \<Rightarrow> action \<Rightarrow> machine \<Rightarrow> machine option" where
  "act t (Sem_store i v) m = Some (m\<lparr>thread_semaphore := (thread_semaphore m)(i := v)\<rparr>)"
| "act t (Sem_await i v) m = (if thread_semaphore m i = v then Some m else None)"
| "act t Malloc_work m =
     (if heap_free m = 0 then Some (m\<lparr>aborted := True\<rparr>) else Some (m\<lparr>heap_free := heap_free m - 1\<rparr>))"
| "act t Free_work m = Some (m\<lparr>heap_free := heap_free m + 1\<rparr>)"
| "act t (Thread_create i p) m =
     Some (m\<lparr>prog := (prog m)(i := p), handler := (handler m)(i := []), imask := (imask m)(i := 0)\<rparr>)"
| "act t (Thread_join msk) m =
     (if \<forall>i \<in> set [0..<32]. msk AND push_bit i 1 \<noteq> 0 \<longrightarrow> \<not> running m i then Some m else None)"
| "act t (Lock l) m =
     (if lock_held l m then None else Some (m\<lparr>syscfg := set_bit (lock_bit l) (syscfg m)\<rparr>))"
| "act t (Unlock l) m = Some (m\<lparr>syscfg := unset_bit (lock_bit l) (syscfg m)\<rparr>)"
| "act t (Load l) m = Some (m\<lparr>temp := (temp m)(t := counter m l)\<rparr>)"
| "act t (Store l) m = Some (m\<lparr>counter := (counter m)(l := temp m t + 1)\<rparr>)"
| "act t (Reset l) m = Some (m\<lparr>counter := (counter m)(l := 0)\<rparr>)"
| "act t (Delay n) m = Some m"
| "act t (Swi w) m = Some (m\<lparr>ipend := ipend m OR w\<rparr>)"
| "act t (Set_imask w) m = Some (m\<lparr>imask := (imask m)(t := w)\<rparr>)"
| "act t (Iassignw n w) m = Some (m\<lparr>iassign := (iassign m)(n := w AND 0xff)\<rparr>)"
| "act t (Register_interrupt n h) m = Some (m\<lparr>isr_of := (isr_of m)(n := h)\<rparr>)"
| "act t (Isr_clear v) m = Some (m\<lparr>isr_cnt := (isr_cnt m)(v := 0)\<rparr>)"
| "act t Isr_syscfg m = Some (m\<lparr>isr_syscfg := (isr_syscfg m)(t := syscfg m)\<rparr>)"
| "act t (Isr_load v) m = Some (m\<lparr>isr_temp := (isr_temp m)(t := isr_cnt m v)\<rparr>)"
| "act t (Isr_store v) m =
     Some (if isr_guard v (isr_syscfg m t) then m\<lparr>isr_cnt := (isr_cnt m)(v := isr_temp m t + 1)\<rparr> else m)"
| "act t (Check_syscfg line l v) m =
     Some (m\<lparr>results := check32 line (drop_bit (lock_bit l) (syscfg m) AND 1) v (results m)\<rparr>)"
| "act t (Check_counter line l v) m = Some (m\<lparr>results := check32 line (counter m l) v (results m)\<rparr>)"
| "act t (Check_isr_ne line v w) m = Some (m\<lparr>results := check32_ne line (isr_cnt m v) w (results m)\<rparr>)"
| "act t (Printf fmt args) m = Some (m\<lparr>console := console m @ [(fmt, map (arg_value m) args)]\<rparr>)"

text \<open>A step of thread \<open>t\<close>: the first action of its interrupt handler, or else of its program.\<close>

definition exec :: "nat \<Rightarrow> machine \<Rightarrow> machine option" where
  "exec t m =
     (if aborted m then None
      else case handler m t of
        a # h \<Rightarrow> act t a (m\<lparr>handler := (handler m)(t := h)\<rparr>)
      | [] \<Rightarrow> (case prog m t of
                 a # p \<Rightarrow> act t a (m\<lparr>prog := (prog m)(t := p)\<rparr>)
               | [] \<Rightarrow> None))"

text \<open>
  A thread stalled on a lock takes no interrupt.  Otherwise a running thread that is not in a
  handler, does not mask the interrupt and is not excluded from it may take it.
\<close>

definition stalled :: "nat \<Rightarrow> machine \<Rightarrow> bool" where
  "stalled t m = (case prog m t of Lock l # _ \<Rightarrow> lock_held l m | _ \<Rightarrow> False)"

definition take_interrupt :: "nat \<Rightarrow> nat \<Rightarrow> machine \<Rightarrow> machine option" where
  "take_interrupt n t m =
     (if \<not> aborted m \<and> bit (ipend m) n \<and> \<not> bit (imask m t) n \<and> \<not> bit (iassign m n) t \<and>
         prog m t \<noteq> [] \<and> handler m t = [] \<and> \<not> stalled t m
      then Some (m\<lparr>ipend := unset_bit n (ipend m), handler := (handler m)(t := isr_of m n)\<rparr>)
      else None)"

inductive step :: "machine \<Rightarrow> machine \<Rightarrow> bool" where
  thread: "t < 32 \<Longrightarrow> exec t m = Some m' \<Longrightarrow> step m m'"
| interrupt: "t < 32 \<Longrightarrow> n < 32 \<Longrightarrow> take_interrupt n t m = Some m' \<Longrightarrow> step m m'"

inductive_cases stepE: "step m m'"

text \<open>
  A turn of thread \<open>t\<close> under a scheduler: it performs a step, or it stays where it is because its action is blocked -
  a round of a spin loop whose condition does not hold, a stalled lock, a thread that has stopped.  An execution goes on for ever, spins
  included; it is fair when every thread gets its turn again and again.
\<close>

definition turn :: "nat \<Rightarrow> machine \<Rightarrow> machine \<Rightarrow> bool" where
  "turn t m m' \<longleftrightarrow> exec t m = Some m' \<or> (\<exists>n < 32. take_interrupt n t m = Some m') \<or> exec t m = None \<and> m' = m"

definition fair_execution :: "(nat \<Rightarrow> nat) \<Rightarrow> (nat \<Rightarrow> machine) \<Rightarrow> bool" where
  "fair_execution sched f \<longleftrightarrow>
     (\<forall>i. sched i < 32 \<and> turn (sched i) (f i) (f (Suc i))) \<and> (\<forall>t < 32. \<forall>i. \<exists>j \<ge> i. sched j = t)"

text \<open>The execution that gives the threads their turns in a circle and delivers no interrupt.\<close>

fun round_robin :: "machine \<Rightarrow> nat \<Rightarrow> machine" where
  "round_robin m 0 = m"
| "round_robin m (Suc i) = (case exec (i mod 32) (round_robin m i) of Some m' \<Rightarrow> m' | None \<Rightarrow> round_robin m i)"

lemma round_robin_fair: "fair_execution (\<lambda>i. i mod 32) (round_robin m)"
  unfolding fair_execution_def
proof (intro conjI allI impI)
  show "turn (i mod 32) (round_robin m i) (round_robin m (Suc i))" for i
    by (cases "exec (i mod 32) (round_robin m i)") (simp_all add: turn_def)
  show "\<exists>j \<ge> i. j mod 32 = t" if "t < 32" for t i :: nat
    using that by (intro exI [of _ "32 * i + t"]) simp
qed simp

section \<open>The start protocol\<close>

definition THREAD_SEMAPHORE_OFF :: int where "THREAD_SEMAPHORE_OFF = 0"
definition THREAD_SEMAPHORE_ON_WAIT :: int where "THREAD_SEMAPHORE_ON_WAIT = 1"
definition THREAD_SEMAPHORE_GO :: int where "THREAD_SEMAPHORE_GO = 2"

lemmas semaphore_states = THREAD_SEMAPHORE_OFF_def THREAD_SEMAPHORE_ON_WAIT_def THREAD_SEMAPHORE_GO_def

definition remove_myself :: "nat \<Rightarrow> u32 \<Rightarrow> u32" where
  "remove_myself htid msk = msk AND NOT (push_bit htid 1)"

definition wait_on_semaphore :: "nat \<Rightarrow> action list" where
  "wait_on_semaphore htid =
     [Sem_store htid THREAD_SEMAPHORE_ON_WAIT, Sem_await htid THREAD_SEMAPHORE_GO]"

definition thread_wrapper :: "action list \<Rightarrow> nat \<Rightarrow> action list" where
  "thread_wrapper func htid = wait_on_semaphore htid @ func @ [Free_work]"

definition create_waiting_thread :: "action list \<Rightarrow> nat \<Rightarrow> action list" where
  "create_waiting_thread func tid =
     [Malloc_work, Sem_store tid THREAD_SEMAPHORE_OFF, Thread_create tid (thread_wrapper func tid)]"

definition mask_tids :: "u32 \<Rightarrow> nat list" where
  "mask_tids msk = filter (\<lambda>tid. msk AND push_bit tid 1 \<noteq> 0) [0..<32]"

definition wait_semaphore_state :: "nat \<Rightarrow> u32 \<Rightarrow> int \<Rightarrow> action list" where
  "wait_semaphore_state htid msk state =
     (let msk = remove_myself htid msk in map (\<lambda>tid. Sem_await tid state) (mask_tids msk))"

definition set_semaphore_state :: "u32 \<Rightarrow> int \<Rightarrow> action list" where
  "set_semaphore_state msk state = map (\<lambda>tid. Sem_store tid state) (mask_tids msk)"

definition start_waiting_threads :: "nat \<Rightarrow> u32 \<Rightarrow> action list" where
  "start_waiting_threads htid msk =
     wait_semaphore_state htid msk THREAD_SEMAPHORE_ON_WAIT @
     set_semaphore_state msk THREAD_SEMAPHORE_GO"

definition thread_create_blocked :: "nat \<Rightarrow> action list \<Rightarrow> nat \<Rightarrow> action list" where
  "thread_create_blocked htid func tid =
     create_waiting_thread func tid @ start_waiting_threads htid (push_bit tid 1)"

definition thread_run_blocked :: "nat \<Rightarrow> action list \<Rightarrow> nat \<Rightarrow> action list" where
  "thread_run_blocked htid func tid =
     thread_create_blocked htid func tid @ [Thread_join (push_bit tid 1)]"


section \<open>Programs of the protocol\<close>

text \<open>
  Actions of an interrupt handler, actions of a thread function that works with the locks, and
  actions that neither block nor touch semaphores, locks, counters or threads.
\<close>

fun is_isr :: "action \<Rightarrow> bool" where
  "is_isr Isr_syscfg = True"
| "is_isr (Isr_load v) = True"
| "is_isr (Isr_store v) = True"
| "is_isr _ = False"

fun is_func :: "action \<Rightarrow> bool" where
  "is_func (Lock l) = True"
| "is_func (Unlock l) = True"
| "is_func (Load l) = True"
| "is_func (Store l) = True"
| "is_func (Delay n) = True"
| "is_func _ = False"

fun is_plain :: "action \<Rightarrow> bool" where
  "is_plain (Delay n) = True"
| "is_plain (Swi w) = True"
| "is_plain (Set_imask w) = True"
| "is_plain (Iassignw n w) = True"
| "is_plain (Register_interrupt n h) = list_all is_isr h"
| "is_plain (Isr_clear v) = True"
| "is_plain (Check_counter line l v) = True"
| "is_plain (Check_isr_ne line v w) = True"
| "is_plain (Printf fmt args) = True"
| "is_plain _ = False"

abbreviation awaits :: "nat \<Rightarrow> action" where
  "awaits t \<equiv> Sem_await t THREAD_SEMAPHORE_ON_WAIT"

abbreviation releases :: "nat \<Rightarrow> action" where
  "releases t \<equiv> Sem_store t THREAD_SEMAPHORE_GO"

definition all_created :: "action list \<Rightarrow> bool" where
  "all_created P = (\<forall>u q. Thread_create u q \<notin> set P)"

definition all_arrived :: "action list \<Rightarrow> bool" where
  "all_arrived P = (all_created P \<and> (\<forall>u v. Sem_await u v \<notin> set P))"

text \<open>The order of the protocol actions in the program of the main thread.\<close>

fun ordered :: "nat set \<Rightarrow> action \<Rightarrow> action list \<Rightarrow> bool" where
  "ordered T (Thread_create t q) P =
     (t \<in> T \<and> awaits t \<in> set P \<and> (\<forall>q. Thread_create t q \<notin> set P) \<and> (\<forall>l. Reset l \<notin> set P))"
| "ordered T (Sem_await t v) P =
     (t \<in> T \<and> v = THREAD_SEMAPHORE_ON_WAIT \<and> all_created P \<and> awaits t \<notin> set P \<and> releases t \<in> set P \<and>
      Malloc_work \<notin> set P)"
| "ordered T (Sem_store t v) P =
     (if v = THREAD_SEMAPHORE_OFF then \<exists>q. Thread_create t q \<in> set P
      else v = THREAD_SEMAPHORE_GO \<and> all_arrived P \<and> releases t \<notin> set P)"
| "ordered T (Thread_join w) P = (list_all is_plain P \<and> set (mask_tids w) = T)"
| "ordered T Malloc_work P = True"
| "ordered T (Reset l) P = True"
| "ordered T a P = is_plain a"

fun main_ok :: "nat set \<Rightarrow> action list \<Rightarrow> bool" where
  "main_ok T [] = True"
| "main_ok T (a # P) = (ordered T a P \<and> main_ok T P)"

text \<open>Where a worker thread stands, against what the main thread has still to do.\<close>

definition fresh :: "nat \<Rightarrow> action list \<Rightarrow> machine \<Rightarrow> bool" where
  "fresh t f m \<longleftrightarrow> Thread_create t (thread_wrapper f t) \<in> set (prog m 0) \<and> prog m t = [] \<and>
     (Sem_store t THREAD_SEMAPHORE_OFF \<in> set (prog m 0) \<or> thread_semaphore m t = THREAD_SEMAPHORE_OFF)"

definition entered :: "nat \<Rightarrow> action list \<Rightarrow> machine \<Rightarrow> bool" where
  "entered t f m \<longleftrightarrow> (\<forall>q. Thread_create t q \<notin> set (prog m 0)) \<and> awaits t \<in> set (prog m 0) \<and>
     prog m t = thread_wrapper f t \<and> thread_semaphore m t = THREAD_SEMAPHORE_OFF"

definition waiting :: "nat \<Rightarrow> action list \<Rightarrow> machine \<Rightarrow> bool" where
  "waiting t f m \<longleftrightarrow> (\<forall>q. Thread_create t q \<notin> set (prog m 0)) \<and> releases t \<in> set (prog m 0) \<and>
     prog m t = tl (thread_wrapper f t) \<and> thread_semaphore m t = THREAD_SEMAPHORE_ON_WAIT"

definition released :: "nat \<Rightarrow> action list \<Rightarrow> machine \<Rightarrow> bool" where
  "released t f m \<longleftrightarrow> all_arrived (prog m 0) \<and> releases t \<notin> set (prog m 0) \<and>
     prog m t = tl (thread_wrapper f t) \<and> thread_semaphore m t = THREAD_SEMAPHORE_GO"

definition in_func :: "nat \<Rightarrow> action list \<Rightarrow> machine \<Rightarrow> bool" where
  "in_func t f m \<longleftrightarrow> all_arrived (prog m 0) \<and> releases t \<notin> set (prog m 0) \<and>
     (\<exists>k. prog m t = drop k (f @ [Free_work]))"

definition worker_ok :: "nat \<Rightarrow> action list \<Rightarrow> machine \<Rightarrow> bool" where
  "worker_ok t f m \<longleftrightarrow>
     fresh t f m \<or> entered t f m \<or> waiting t f m \<or> released t f m \<or> in_func t f m"

lemmas worker_stages = fresh_def entered_def waiting_def released_def in_func_def

definition protocol :: "(nat \<times> action list) list \<Rightarrow> machine \<Rightarrow> bool" where
  "protocol works m =
     (main_ok (fst ` set works) (prog m 0) \<and>
      (\<forall>(t, f) \<in> set works. worker_ok t f m) \<and>
      (\<forall>t. t \<noteq> 0 \<and> t \<notin> fst ` set works \<longrightarrow> prog m t = []))"

definition interrupts_ok :: "machine \<Rightarrow> bool" where
  "interrupts_ok m =
     ((\<forall>t. list_all is_isr (handler m t) \<and> (prog m t = [] \<longrightarrow> handler m t = [])) \<and>
      (\<forall>n. list_all is_isr (isr_of m n)))"

definition heap_ok :: "machine \<Rightarrow> bool" where
  "heap_ok m = (\<not> aborted m \<and> length (filter (\<lambda>a. a = Malloc_work) (prog m 0)) \<le> heap_free m)"

definition works_ok :: "(nat \<times> action list) list \<Rightarrow> bool" where
  "works_ok works =
     (distinct (map fst works) \<and> (\<forall>(t, f) \<in> set works. 0 < t \<and> t < 32 \<and> list_all is_func f))"

subsection \<open>Frames\<close>

text \<open>What a handler action and the delivery of an interrupt leave unchanged.\<close>

lemma isr_act:
  assumes "is_isr a" "act t a m = Some m'"
  shows "thread_semaphore m' = thread_semaphore m \<and> syscfg m' = syscfg m \<and> counter m' = counter m \<and>
    temp m' = temp m \<and> prog m' = prog m \<and> handler m' = handler m \<and> heap_free m' = heap_free m \<and>
    aborted m' = aborted m \<and> isr_of m' = isr_of m \<and> results m' = results m \<and> ipend m' = ipend m"
  using assms by (cases a) (auto split: if_splits)

lemma isr_act_Some: "is_isr a \<Longrightarrow> \<exists>m'. act t a m = Some m'"
  by (cases a) auto

lemma func_act:
  assumes "is_func a" "act t a m = Some m'"
  shows "thread_semaphore m' = thread_semaphore m \<and> prog m' = prog m \<and> handler m' = handler m \<and>
    heap_free m' = heap_free m \<and> aborted m' = aborted m \<and> isr_of m' = isr_of m \<and>
    results m' = results m \<and> ipend m' = ipend m"
  using assms by (cases a) (auto split: if_splits)

lemma plain_act:
  assumes "is_plain a" "act t a m = Some m'"
  shows "thread_semaphore m' = thread_semaphore m \<and> syscfg m' = syscfg m \<and> counter m' = counter m \<and>
    temp m' = temp m \<and> prog m' = prog m \<and> handler m' = handler m \<and> heap_free m' = heap_free m \<and>
    aborted m' = aborted m"
  using assms by (cases a) auto

lemma plain_act_Some: "is_plain a \<Longrightarrow> \<exists>m'. act t a m = Some m'"
  by (cases a) auto

text \<open>The four kinds of step, for a machine whose handlers are interrupt handlers.\<close>

definition same_core :: "machine \<Rightarrow> machine \<Rightarrow> bool" where
  "same_core m m' \<longleftrightarrow> thread_semaphore m' = thread_semaphore m \<and> syscfg m' = syscfg m \<and>
    counter m' = counter m \<and> temp m' = temp m \<and> prog m' = prog m \<and> heap_free m' = heap_free m \<and>
    aborted m' = aborted m \<and> isr_of m' = isr_of m \<and> results m' = results m"

lemma step_kinds:
  assumes "step m m'" "interrupts_ok m"
  obtains (quiet) "same_core m m'" "interrupts_ok m'" "\<not> aborted m"
  | (main) a P where "prog m 0 = a # P" "handler m 0 = []" "\<not> aborted m"
      "act 0 a (m\<lparr>prog := (prog m)(0 := P)\<rparr>) = Some m'"
  | (worker) t a p where "0 < t" "t < 32" "prog m t = a # p" "handler m t = []" "\<not> aborted m"
      "act t a (m\<lparr>prog := (prog m)(t := p)\<rparr>) = Some m'"
  using assms(1)
proof (cases rule: step.cases)
  case (thread t)
  show ?thesis
  proof (cases "handler m t")
    case Nil
    with thread obtain a p where "prog m t = a # p" "\<not> aborted m"
      "act t a (m\<lparr>prog := (prog m)(t := p)\<rparr>) = Some m'"
      by (auto simp: exec_def split: if_splits list.splits)
    with main worker Nil thread show ?thesis by (cases "t = 0") auto
  next
    case (Cons a h)
    with assms(2) have a: "is_isr a" "list_all is_isr h" "prog m t \<noteq> []"
      by (auto simp: interrupts_ok_def list_all_iff dest!: spec [of _ t])
    from thread Cons have ac: "act t a (m\<lparr>handler := (handler m)(t := h)\<rparr>) = Some m'" "\<not> aborted m"
      by (auto simp: exec_def split: if_splits)
    from isr_act [OF a(1) ac(1)] a assms(2) have "same_core m m'" "interrupts_ok m'"
      by (auto simp: same_core_def interrupts_ok_def)
    with quiet ac(2) show ?thesis by blast
  qed
next
  case (interrupt t n)
  with assms(2) have "same_core m m'" "interrupts_ok m'" "\<not> aborted m"
    by (auto simp: take_interrupt_def same_core_def interrupts_ok_def split: if_splits)
  with quiet show ?thesis by blast
qed

lemma protocol_core:
  "same_core m m' \<Longrightarrow> protocol works m' = protocol works m"
  "same_core m m' \<Longrightarrow> heap_ok m' = heap_ok m"
  by (auto simp: same_core_def protocol_def heap_ok_def worker_ok_def worker_stages)

subsection \<open>Order of the actions of the main thread\<close>

lemma main_ok_await_release:
  "main_ok T P \<Longrightarrow> Sem_await t v \<in> set P \<Longrightarrow> v = THREAD_SEMAPHORE_ON_WAIT \<and> releases t \<in> set P"
  by (induction P) (auto simp: semaphore_states)

lemma main_ok_off_create:
  "main_ok T P \<Longrightarrow> Sem_store t THREAD_SEMAPHORE_OFF \<in> set P \<Longrightarrow> \<exists>q. Thread_create t q \<in> set P"
  by (induction P) (auto simp: semaphore_states)

lemma main_ok_reset_create:
  "main_ok T (Thread_create t q # P) \<Longrightarrow> Reset l \<notin> set P"
  by simp


subsection \<open>Every step keeps the protocol\<close>

lemma tl_wrapper: "tl (thread_wrapper f t) = Sem_await t THREAD_SEMAPHORE_GO # f @ [Free_work]"
  by (simp add: thread_wrapper_def wait_on_semaphore_def)

lemma wrapper_Cons:
  "thread_wrapper f t = Sem_store t THREAD_SEMAPHORE_ON_WAIT # Sem_await t THREAD_SEMAPHORE_GO # f @ [Free_work]"
  by (simp add: thread_wrapper_def wait_on_semaphore_def)

lemma drop_Cons_next:
  assumes "drop k xs = a # p"
  shows "a \<in> set xs" "p = drop (Suc k) xs"
proof -
  from assms show "a \<in> set xs" by (metis in_set_dropD list.set_intros(1))
  from assms have "drop 1 (drop k xs) = p" by simp
  thus "p = drop (Suc k) xs" by simp
qed

text \<open>A worker: its next action, and where it stands after it.\<close>

lemma worker_step:
  assumes w: "worker_ok t f m" and f: "list_all is_func f" and t: "0 < t"
    and mo: "main_ok T (prog m 0)"
    and p: "prog m t = a # p" and ac: "act t a (m\<lparr>prog := (prog m)(t := p)\<rparr>) = Some m'"
  shows "worker_ok t f m' \<and> prog m' = (prog m)(t := p) \<and> heap_free m \<le> heap_free m' \<and>
    (\<forall>u. u \<noteq> t \<longrightarrow> thread_semaphore m' u = thread_semaphore m u) \<and>
    aborted m' = aborted m \<and> handler m' = handler m \<and> isr_of m' = isr_of m \<and> results m' = results m"
  using w [unfolded worker_ok_def]
proof (elim disjE)
  assume "fresh t f m"
  with p show ?thesis by (simp add: fresh_def)
next
  assume h: "entered t f m"
  with p have "a = Sem_store t THREAD_SEMAPHORE_ON_WAIT" "p = tl (thread_wrapper f t)"
    by (auto simp: wrapper_Cons entered_def)
  moreover from h have "releases t \<in> set (prog m 0)"
    using main_ok_await_release [OF mo] by (auto simp: entered_def)
  ultimately have "waiting t f m'" "m' = m\<lparr>prog := (prog m)(t := p),
      thread_semaphore := (thread_semaphore m)(t := THREAD_SEMAPHORE_ON_WAIT)\<rparr>"
    using ac h t by (auto simp: waiting_def entered_def)
  thus ?thesis by (simp add: worker_ok_def)
next
  assume h: "waiting t f m"
  with p ac show ?thesis by (auto simp: tl_wrapper semaphore_states waiting_def split: if_splits)
next
  assume h: "released t f m"
  with p have a: "a = Sem_await t THREAD_SEMAPHORE_GO" "p = f @ [Free_work]"
    by (auto simp: tl_wrapper released_def)
  hence "\<exists>k. p = drop k (f @ [Free_work])" by (intro exI [of _ 0]) simp
  with a have "in_func t f m'" "m' = m\<lparr>prog := (prog m)(t := p)\<rparr>"
    using ac h t by (auto simp: in_func_def released_def simp del: drop_append split: if_splits)
  thus ?thesis by (simp add: worker_ok_def)
next
  assume h: "in_func t f m"
  then obtain k where k: "drop k (f @ [Free_work]) = a # p" using p by (metis in_func_def)
  note d = drop_Cons_next [OF k]
  show ?thesis
  proof (cases "a = Free_work")
    case True
    with ac have "m' = m\<lparr>prog := (prog m)(t := p), heap_free := heap_free m + 1\<rparr>" by simp
    with h t d(2) show ?thesis
      by (auto simp: worker_ok_def in_func_def simp del: drop_append)
  next
    case False
    with d(1) f have "is_func a" by (auto simp: list_all_iff)
    note fr = func_act [OF this ac]
    with h t d(2) have "in_func t f m'" by (auto simp: in_func_def simp del: drop_append)
    with fr show ?thesis by (simp add: worker_ok_def)
  qed
qed

text \<open>A step of the main thread, seen from one worker.\<close>

lemma all_arrived_Cons: "all_arrived (a # P) \<Longrightarrow> all_arrived P"
  by (auto simp: all_arrived_def all_created_def)

lemma ordered_cases:
  assumes "ordered T a P"
  obtains (create) t q where "a = Thread_create t q"
  | (await) t where "a = awaits t"
  | (off) t where "a = Sem_store t THREAD_SEMAPHORE_OFF"
  | (release) t where "a = releases t"
  | (join) w where "a = Thread_join w" "list_all is_plain P" "set (mask_tids w) = T"
  | (malloc) "a = Malloc_work"
  | (reset) l where "a = Reset l"
  | (plain) "is_plain a"
  using assms by (cases a) (auto split: if_splits)

lemma worker_ok_skip:
  assumes w: "worker_ok u f m" and u: "u \<noteq> 0" and p: "prog m 0 = a # P"
    and p': "prog m' 0 = P" "prog m' u = prog m u"
    and s: "thread_semaphore m' u = thread_semaphore m u"
    and a: "\<forall>q. a \<noteq> Thread_create u q" "a \<noteq> awaits u" "a \<noteq> releases u" "a \<noteq> Sem_store u THREAD_SEMAPHORE_OFF"
  shows "worker_ok u f m'"
proof -
  have mem: "(x \<in> set (prog m 0)) = (x \<in> set P)" if "x \<noteq> a" for x using that p by simp
  from w consider "fresh u f m" | "entered u f m" | "waiting u f m" | "released u f m" | "in_func u f m"
    by (auto simp: worker_ok_def)
  thus ?thesis
  proof cases
    case 1 thus ?thesis using a p' s by (simp add: worker_ok_def fresh_def mem not_sym)
  next
    case 2 thus ?thesis using a p' s by (simp add: worker_ok_def entered_def mem not_sym)
  next
    case 3 thus ?thesis using a p' s by (simp add: worker_ok_def waiting_def mem not_sym)
  next
    case 4 thus ?thesis using a p p' s all_arrived_Cons by (auto simp: worker_ok_def released_def)
  next
    case 5 thus ?thesis using a p p' s all_arrived_Cons by (auto simp: worker_ok_def in_func_def)
  qed
qed

lemma main_step_worker:
  assumes w: "worker_ok u f m" and u: "0 < u" and p: "prog m 0 = a # P" and mo: "main_ok T (a # P)"
    and T: "0 \<notin> T"
    and ac: "act 0 a (m\<lparr>prog := (prog m)(0 := P)\<rparr>) = Some m'"
  shows "worker_ok u f m'"
proof -
  note skip = worker_ok_skip [OF w _ p]
  from mo have o: "ordered T a P" and mP: "main_ok T P" by simp_all
  from o show ?thesis
  proof (cases rule: ordered_cases)
    case (create t q)
    with o have "t \<in> T" by simp
    with T have t: "t \<noteq> 0" by metis
    show ?thesis
    proof (cases "t = u")
      case True
      with w p create have "fresh u f m"
        by (auto simp: worker_ok_def entered_def waiting_def released_def in_func_def
          all_arrived_def all_created_def)
      with True o create p main_ok_off_create [OF mP, of u] have "q = thread_wrapper f u"
        "thread_semaphore m u = THREAD_SEMAPHORE_OFF" by (auto simp: fresh_def)
      with True create o ac t have "entered u f m'" by (auto simp: entered_def)
      thus ?thesis by (simp add: worker_ok_def)
    next
      case False
      with create ac t u show ?thesis by (intro skip) auto
    qed
  next
    case (await t)
    with ac have m': "m' = m\<lparr>prog := (prog m)(0 := P)\<rparr>"
      "thread_semaphore m t = THREAD_SEMAPHORE_ON_WAIT" by (auto split: if_splits)
    show ?thesis
    proof (cases "t = u")
      case True
      with w p await o m'(2) have "waiting u f m"
        by (auto simp: worker_ok_def fresh_def entered_def released_def in_func_def
          all_arrived_def all_created_def semaphore_states)
      with m' await p u have "waiting u f m'" by (simp add: waiting_def)
      thus ?thesis by (simp add: worker_ok_def)
    next
      case False
      with await m' u show ?thesis by (intro skip) auto
    qed
  next
    case (off t)
    show ?thesis
    proof (cases "t = u")
      case True
      with o off obtain q where q: "Thread_create u q \<in> set P" by auto
      with w p have "fresh u f m"
        by (auto simp: worker_ok_def entered_def waiting_def released_def in_func_def
          all_arrived_def all_created_def)
      with ac off True p u have "fresh u f m'" by (auto simp: fresh_def)
      thus ?thesis by (simp add: worker_ok_def)
    next
      case False
      with off ac u show ?thesis by (intro skip) (auto simp: semaphore_states)
    qed
  next
    case (release t)
    from o release have ar: "all_arrived P" "releases t \<notin> set P" by (auto simp: semaphore_states)
    show ?thesis
    proof (cases "t = u")
      case True
      with w p release ar have "waiting u f m"
        by (auto simp: worker_ok_def fresh_def entered_def released_def in_func_def
          all_arrived_def all_created_def)
      with ac release True ar u have "released u f m'" by (auto simp: released_def waiting_def)
      thus ?thesis by (simp add: worker_ok_def)
    next
      case False
      with release ac u show ?thesis by (intro skip) (auto simp: semaphore_states)
    qed
  next
    case (join w')
    with ac u show ?thesis by (intro skip) (auto split: if_splits)
  next
    case malloc
    with ac u show ?thesis by (intro skip) (auto split: if_splits)
  next
    case (reset l)
    with ac u show ?thesis by (intro skip) auto
  next
    case plain
    with plain_act [OF plain ac] u show ?thesis by (intro skip) auto
  qed
qed

lemma main_step_frame:
  assumes p: "prog m 0 = a # P" and o: "ordered T a P" and T: "0 \<notin> T"
    and ac: "act 0 a (m\<lparr>prog := (prog m)(0 := P)\<rparr>) = Some m'"
  shows "prog m' 0 = P" "\<And>t. t \<notin> T \<Longrightarrow> t \<noteq> 0 \<Longrightarrow> prog m' t = prog m t"
    and "heap_ok m \<Longrightarrow> heap_ok m'" and "interrupts_ok m \<Longrightarrow> handler m 0 = [] \<Longrightarrow> interrupts_ok m'"
proof -
  have all: "prog m' 0 = P \<and> (\<forall>t. t \<notin> T \<longrightarrow> t \<noteq> 0 \<longrightarrow> prog m' t = prog m t) \<and>
    (heap_ok m \<longrightarrow> heap_ok m') \<and> (interrupts_ok m \<longrightarrow> handler m 0 = [] \<longrightarrow> interrupts_ok m')"
    using o
  proof (cases rule: ordered_cases)
    case plain
    from plain have "interrupts_ok m \<longrightarrow> handler m 0 = [] \<longrightarrow> interrupts_ok m'"
      using ac by (cases a) (auto simp: interrupts_ok_def split: if_splits)
    with plain_act [OF plain ac] p plain show ?thesis by (auto simp: heap_ok_def)
  qed (use o ac p T in \<open>auto simp: heap_ok_def interrupts_ok_def split: if_splits\<close>)
  thus "prog m' 0 = P" "\<And>t. t \<notin> T \<Longrightarrow> t \<noteq> 0 \<Longrightarrow> prog m' t = prog m t"
    "heap_ok m \<Longrightarrow> heap_ok m'" "interrupts_ok m \<Longrightarrow> handler m 0 = [] \<Longrightarrow> interrupts_ok m'"
    by blast+
qed

definition protocol_inv :: "(nat \<times> action list) list \<Rightarrow> machine \<Rightarrow> bool" where
  "protocol_inv works m \<longleftrightarrow> protocol works m \<and> interrupts_ok m \<and> heap_ok m"

lemma works_okD:
  assumes "works_ok works"
  shows "0 \<notin> fst ` set works" "(t, f) \<in> set works \<Longrightarrow> 0 < t \<and> t < 32 \<and> list_all is_func f"
    and "(t, f) \<in> set works \<Longrightarrow> (t, g) \<in> set works \<Longrightarrow> f = g"
proof -
  show "0 \<notin> fst ` set works" "(t, f) \<in> set works \<Longrightarrow> 0 < t \<and> t < 32 \<and> list_all is_func f"
    using assms by (auto simp: works_ok_def)
  show "(t, f) \<in> set works \<Longrightarrow> (t, g) \<in> set works \<Longrightarrow> f = g"
    using assms unfolding works_ok_def by (metis eq_key_imp_eq_value)
qed

lemma protocol_worker:
  assumes "protocol works m" "prog m t \<noteq> []" "0 < t"
  obtains f where "(t, f) \<in> set works" "worker_ok t f m"
proof -
  from assms have "t \<in> fst ` set works" by (auto simp: protocol_def)
  then obtain f where f: "(t, f) \<in> set works" by force
  with assms(1) have "worker_ok t f m" by (auto simp: protocol_def)
  with f that show thesis by blast
qed

lemma protocol_main_step:
  assumes ok: "works_ok works" and pr: "protocol works m" and p: "prog m 0 = a # P"
    and ac: "act 0 a (m\<lparr>prog := (prog m)(0 := P)\<rparr>) = Some m'"
  shows "protocol works m'"
proof -
  note wo = works_okD [OF ok]
  from pr p have mo: "main_ok (fst ` set works) (a # P)" by (simp add: protocol_def)
  note fr = main_step_frame [OF p _ wo(1) ac]
  show ?thesis unfolding protocol_def
  proof (intro conjI ballI allI impI)
    show "main_ok (fst ` set works) (prog m' 0)" using fr(1) mo by simp
  next
    fix x assume x: "x \<in> set works"
    obtain t f where [simp]: "x = (t, f)" by (cases x)
    have "worker_ok t f m'"
      using pr x wo(2) [of t f] by (intro main_step_worker [OF _ _ p mo wo(1) ac]) (auto simp: protocol_def)
    thus "case x of (t, f) \<Rightarrow> worker_ok t f m'" by simp
  next
    fix t assume "t \<noteq> 0 \<and> t \<notin> fst ` set works"
    thus "prog m' t = []" using fr(2) [of t] mo pr by (simp add: protocol_def)
  qed
qed

lemma worker_ok_other:
  assumes "worker_ok u f m" "prog m' = (prog m)(t := p)" "u \<noteq> t" "0 < t"
    "thread_semaphore m' u = thread_semaphore m u"
  shows "worker_ok u f m'"
  using assms by (simp add: worker_ok_def worker_stages)

lemma protocol_worker_step:
  assumes ok: "works_ok works" and pr: "protocol works m" and t: "0 < t" and p: "prog m t = a # p"
    and ac: "act t a (m\<lparr>prog := (prog m)(t := p)\<rparr>) = Some m'"
  shows "protocol works m' \<and> prog m' = (prog m)(t := p) \<and> heap_free m \<le> heap_free m' \<and>
    aborted m' = aborted m \<and> handler m' = handler m \<and> isr_of m' = isr_of m \<and> results m' = results m"
proof -
  note wo = works_okD [OF ok]
  from p have "prog m t \<noteq> []" by simp
  from protocol_worker [OF pr this t] obtain f where f: "(t, f) \<in> set works" "worker_ok t f m" .
  have mo: "main_ok (fst ` set works) (prog m 0)" using pr by (simp add: protocol_def)
  have ff: "list_all is_func f" using wo(2) [OF f(1)] by simp
  note st = worker_step [OF f(2) ff t mo p ac]
  have "worker_ok u g m'" if "(u, g) \<in> set works" for u g
  proof (cases "u = t")
    case True
    with wo(3) [OF f(1), of g] that st show ?thesis by simp
  next
    case False
    with that pr have w: "worker_ok u g m" by (auto simp: protocol_def)
    from False st show ?thesis by (intro worker_ok_other [OF w _ False t]) auto
  qed
  moreover have "prog m' u = []" if "u \<noteq> 0" "u \<notin> fst ` set works" for u
  proof -
    have "u \<noteq> t" using that(2) f(1) by force
    with st pr that show ?thesis by (simp add: protocol_def)
  qed
  moreover have "prog m' 0 = prog m 0" using st t by simp
  ultimately have "protocol works m'" using mo by (auto simp: protocol_def)
  with st show ?thesis by blast
qed

lemma protocol_step:
  assumes ok: "works_ok works" and inv: "protocol_inv works m" and st: "step m m'"
  shows "protocol_inv works m'"
proof -
  from inv have pr: "protocol works m" and io: "interrupts_ok m" and h: "heap_ok m"
    by (simp_all add: protocol_inv_def)
  from st io show ?thesis
  proof (cases rule: step_kinds)
    case quiet
    with pr h protocol_core [OF quiet(1)] show ?thesis by (simp add: protocol_inv_def)
  next
    case (main a P)
    have "ordered (fst ` set works) a P" using pr main by (simp add: protocol_def)
    note fr = main_step_frame [OF main(1) this works_okD(1) [OF ok] main(4)]
    from protocol_main_step [OF ok pr main(1,4)] fr(3,4) h io main(2) show ?thesis
      by (simp add: protocol_inv_def)
  next
    case (worker t a p)
    note w = protocol_worker_step [OF ok pr worker(1,3,6)]
    from w io worker have "interrupts_ok m'" by (auto simp: interrupts_ok_def)
    moreover from w h worker have "heap_ok m'" by (auto simp: heap_ok_def)
    ultimately show ?thesis using w by (simp add: protocol_inv_def)
  qed
qed

end
