(* ===== verification/Hw_Runs.thy ===== *)
theory Hw_Runs
  imports Hw_Threads
begin

text \<open>
  Runs of the hardware threads whose functions use one lock in the discipline
  \<open>lock; load; store; unlock\<close>: mutual exclusion, the value of the protected counter, the
  balance of the heap, the absence of deadlock and the end of every run.
\<close>

section \<open>Quantities of the remaining programs\<close>

fun inner :: "action \<Rightarrow> action list" where
  "inner (Thread_create t q) = q"
| "inner _ = []"

lemma size_inner: "size_list size (inner a) < Suc (size a)"
  by (cases a) simp_all

function weight :: "(action \<Rightarrow> nat) \<Rightarrow> action list \<Rightarrow> nat" where
  "weight w [] = 0"
| "weight w (a # p) = w a + weight w (inner a) + weight w p"
  by pat_completeness auto
termination
proof (relation "measure (\<lambda>(w, p). size_list size p)")
  fix w :: "action \<Rightarrow> nat" and a p
  show "((w, inner a), (w, a # p)) \<in> measure (\<lambda>(w, p). size_list size p)"
    using size_inner [of a] by simp
qed simp_all

lemma weight_append [simp]: "weight w (p @ q) = weight w p + weight w q"
  by (induction p) simp_all

definition total_weight :: "(action \<Rightarrow> nat) \<Rightarrow> machine \<Rightarrow> nat" where
  "total_weight w m = (\<Sum>t<32. weight w (prog m t))"

lemma act_prog:
  "act t a m = Some m' \<Longrightarrow> prog m' = (case a of Thread_create i q \<Rightarrow> (prog m)(i := q) | _ \<Rightarrow> prog m)"
  by (cases a) (auto split: if_splits)

lemma sum_upd:
  fixes g :: "'a \<Rightarrow> nat"
  assumes "t < (n::nat)"
  shows "(\<Sum>u<n. g ((f(t := p)) u)) + g (f t) = (\<Sum>u<n. g (f u)) + g p"
proof -
  have "(\<Sum>u<n. g ((f(t := p)) u)) = g p + (\<Sum>u\<in>{..<n} - {t}. g ((f(t := p)) u))"
    using assms by (subst sum.remove [of _ t]) auto
  moreover have "(\<Sum>u\<in>{..<n} - {t}. g ((f(t := p)) u)) = (\<Sum>u\<in>{..<n} - {t}. g (f u))"
    by (rule sum.cong) auto
  moreover have "(\<Sum>u<n. g (f u)) = g (f t) + (\<Sum>u\<in>{..<n} - {t}. g (f u))"
    using assms by (subst sum.remove [of _ t]) auto
  ultimately show ?thesis by simp
qed

lemma total_act:
  assumes t: "t < 32" and p: "prog m t = a # p"
    and ac: "act t a (m\<lparr>prog := (prog m)(t := p)\<rparr>) = Some m'"
    and cr: "\<And>i q. a = Thread_create i q \<Longrightarrow> i < 32 \<and> i \<noteq> t \<and> prog m i = []"
  shows "total_weight w m' + w a = total_weight w m"
proof -
  have 1: "(\<Sum>u<32. weight w (((prog m)(t := p)) u)) + weight w (a # p) = total_weight w m + weight w p"
    using sum_upd [OF t, of "weight w" "prog m" p] p by (simp add: total_weight_def)
  show ?thesis
  proof (cases "\<exists>i q. a = Thread_create i q")
    case True
    then obtain i q where a: "a = Thread_create i q" by blast
    note i = cr [OF a]
    have "prog m' = (prog m)(t := p, i := q)" using act_prog [OF ac] a by simp
    moreover have "(\<Sum>u<32. weight w (((prog m)(t := p, i := q)) u)) + weight w ([]) =
        (\<Sum>u<32. weight w (((prog m)(t := p)) u)) + weight w q"
      using sum_upd [of i 32 "weight w" "(prog m)(t := p)" q] i by (simp add: fun_upd_apply)
    ultimately show ?thesis using 1 a by (simp add: total_weight_def)
  next
    case False
    hence "prog m' = (prog m)(t := p)" "inner a = []"
      using act_prog [OF ac] by (cases a; simp)+
    thus ?thesis using 1 by (simp add: total_weight_def)
  qed
qed

lemma total_core: "same_core m m' \<Longrightarrow> total_weight w m' = total_weight w m"
  by (simp add: same_core_def total_weight_def)

lemma create_target:
  assumes ok: "works_ok works" and pr: "protocol works m" and p: "prog m 0 = Thread_create i q # P"
  shows "i < 32 \<and> 0 < i \<and> prog m i = [] \<and> (\<exists>f. (i, f) \<in> set works \<and> q = thread_wrapper f i)"
proof -
  from pr p have o: "ordered (fst ` set works) (Thread_create i q) P" by (simp add: protocol_def)
  then obtain f where f: "(i, f) \<in> set works" by auto
  with pr have "worker_ok i f m" by (auto simp: protocol_def)
  with p have "fresh i f m"
    by (auto simp: worker_ok_def entered_def waiting_def released_def in_func_def
      all_arrived_def all_created_def)
  with o p f works_okD(2) [OF ok f] show ?thesis by (auto simp: fresh_def)
qed

lemma worker_head:
  assumes ok: "works_ok works" and pr: "protocol works m" and t: "0 < t" and p: "prog m t = a # p"
  shows "is_func a \<or> a = Free_work \<or> a = Sem_store t THREAD_SEMAPHORE_ON_WAIT \<or>
    a = Sem_await t THREAD_SEMAPHORE_GO"
proof -
  from p have "prog m t \<noteq> []" by simp
  from protocol_worker [OF pr this t] obtain f where f: "(t, f) \<in> set works" "worker_ok t f m" .
  show ?thesis
  proof (cases "in_func t f m")
    case True
    then obtain k where "drop k (f @ [Free_work]) = a # p" using p by (metis in_func_def)
    from drop_Cons_next(1) [OF this] works_okD(2) [OF ok f(1)] show ?thesis by (auto simp: list_all_iff)
  next
    case False
    with f(2) p show ?thesis
      by (auto simp: worker_ok_def fresh_def entered_def waiting_def released_def wrapper_Cons)
  qed
qed

text \<open>A step performs one action of a program, or none.\<close>

lemma total_step:
  assumes ok: "works_ok works" and inv: "protocol_inv works m" and st: "step m m'"
  obtains (quiet) "same_core m m'" "interrupts_ok m'" "\<not> aborted m"
  | (act) t a p where "t < 32" "prog m t = a # p" "handler m t = []"
      "act t a (m\<lparr>prog := (prog m)(t := p)\<rparr>) = Some m'"
      "\<And>w. total_weight w m' + w a = total_weight w m"
      "if t = 0 then ordered (fst ` set works) a p
       else is_func a \<or> a = Free_work \<or> a = Sem_store t THREAD_SEMAPHORE_ON_WAIT \<or>
            a = Sem_await t THREAD_SEMAPHORE_GO"
proof -
  from inv have pr: "protocol works m" and io: "interrupts_ok m" by (simp_all add: protocol_inv_def)
  from st io show thesis
  proof (cases rule: step_kinds)
    case quiet
    with that show ?thesis by blast
  next
    case (main a P)
    from total_act [OF _ main(1,4)] create_target [OF ok pr] main(1)
    have "\<And>w. total_weight w m' + w a = total_weight w m" by simp
    moreover have "ordered (fst ` set works) a P" using pr main(1) by (simp add: protocol_def)
    ultimately show ?thesis using main by (intro that(2) [of 0 a P]) simp_all
  next
    case (worker t a p)
    note worker_head [OF ok pr worker(1,3)]
    moreover from this have "\<And>i q. a \<noteq> Thread_create i q" by auto
    with total_act [OF worker(2,3,6)] have "\<And>w. total_weight w m' + w a = total_weight w m" by simp
    ultimately show ?thesis using worker by (intro that(2) [of t a p]) simp_all
  qed
qed

section \<open>Lock discipline\<close>

datatype phase = Out | Locked | Loaded | Stored

text \<open>Where in the critical section a thread with the remaining program \<open>p\<close> is.\<close>

fun phase_of :: "lock \<Rightarrow> action list \<Rightarrow> phase" where
  "phase_of l [] = Out"
| "phase_of l (Lock _ # p) = Out"
| "phase_of l (Load _ # p) = Locked"
| "phase_of l (Store _ # p) = Loaded"
| "phase_of l (Unlock _ # p) = Stored"
| "phase_of l (a # p) = phase_of l p"

fun follows :: "lock \<Rightarrow> action \<Rightarrow> phase \<Rightarrow> bool" where
  "follows l (Lock l') ph = (l' = l \<and> ph = Locked)"
| "follows l (Load l') ph = (l' = l \<and> ph = Loaded)"
| "follows l (Store l') ph = (l' = l \<and> ph = Stored)"
| "follows l (Unlock l') ph = (l' = l \<and> ph = Out)"
| "follows l (Delay n) ph = True"
| "follows l _ ph = (ph = Out)"

fun disciplined :: "lock \<Rightarrow> action list \<Rightarrow> bool" where
  "disciplined l [] = True"
| "disciplined l (a # p) = (follows l a (phase_of l p) \<and> disciplined l p)"

definition programs_ok :: "lock \<Rightarrow> machine \<Rightarrow> bool" where
  "programs_ok l m \<longleftrightarrow>
     (\<forall>t > 0. disciplined l (prog m t)) \<and>
     (\<forall>i q. Thread_create i q \<in> set (prog m 0) \<longrightarrow> disciplined l q \<and> phase_of l q = Out) \<and>
     ((\<exists>l. Reset l \<in> set (prog m 0)) \<longrightarrow> (\<forall>t > 0. prog m t = []))"

text \<open>
  The lock bit is set exactly while a thread is in its critical section, at most one thread is, and
  the value it has loaded is still the value of the counter.
\<close>

definition lock_ok :: "lock \<Rightarrow> machine \<Rightarrow> bool" where
  "lock_ok l m \<longleftrightarrow>
     (lock_held l m \<longleftrightarrow> (\<exists>t > 0. phase_of l (prog m t) \<noteq> Out)) \<and>
     (\<forall>t > 0. \<forall>u > 0. phase_of l (prog m t) \<noteq> Out \<longrightarrow> phase_of l (prog m u) \<noteq> Out \<longrightarrow> t = u) \<and>
     (\<forall>t > 0. phase_of l (prog m t) = Loaded \<longrightarrow> temp m t = counter m l)"

definition exclusive :: "lock \<Rightarrow> machine \<Rightarrow> bool" where
  "exclusive l m \<longleftrightarrow> programs_ok l m \<and> lock_ok l m"

lemma lock_ok_cong:
  assumes "lock_ok l m" "\<And>u. 0 < u \<Longrightarrow> phase_of l (prog m' u) = phase_of l (prog m u)"
    "syscfg m' = syscfg m" "counter m' = counter m" "temp m' = temp m"
  shows "lock_ok l m'"
  using assms by (simp add: lock_ok_def lock_held_def cong: conj_cong)

lemma lock_held_bit: "lock_held l m \<longleftrightarrow> bit (syscfg m) (lock_bit l)"
  by (cases l) (simp_all add: lock_held_def bit_iff_odd_drop_bit and_one_eq odd_iff_mod_2_eq_one)

lemma lock_bit_inj: "lock_bit l < 32" "lock_bit l = lock_bit l' \<longleftrightarrow> l = l'"
  by (cases l; cases l'; simp)+

lemma lock_held_upd [simp]:
  "lock_held l (m\<lparr>syscfg := set_bit (lock_bit l) (syscfg m)\<rparr>)"
  "\<not> lock_held l (m\<lparr>syscfg := unset_bit (lock_bit l) (syscfg m)\<rparr>)"
  by (simp_all add: lock_held_bit bit_set_bit_iff bit_unset_bit_iff lock_bit_inj)

lemma phase_Cons_not_Out:
  "disciplined l (a # p) \<Longrightarrow> phase_of l (a # p) \<noteq> Out \<Longrightarrow>
     (\<exists>l'. a = Load l') \<or> (\<exists>l'. a = Store l') \<or> (\<exists>l'. a = Unlock l') \<or> (\<exists>n. a = Delay n)"
  by (cases a) simp_all

lemma exclusive_core: "same_core m m' \<Longrightarrow> exclusive l m' = exclusive l m"
  by (simp add: same_core_def exclusive_def programs_ok_def lock_ok_def lock_held_def)

text \<open>A step of a worker.\<close>

lemma programs_ok_worker:
  assumes "programs_ok l m" "0 < t" "prog m t = a # p" "prog m' = (prog m)(t := p)"
  shows "programs_ok l m' \<and> follows l a (phase_of l p)"
proof -
  from assms have d: "disciplined l (a # p)" unfolding programs_ok_def by metis
  have "\<not> (\<exists>l. Reset l \<in> set (prog m 0))" using assms unfolding programs_ok_def by auto
  with assms d show ?thesis unfolding programs_ok_def by (simp add: fun_upd_apply)
qed

lemma lock_ok_worker:
  assumes lo: "lock_ok l m" and t: "0 < t" and p: "prog m t = a # p" and d: "follows l a (phase_of l p)"
    and ac: "act t a (m\<lparr>prog := (prog m)(t := p)\<rparr>) = Some m'"
    and a: "is_func a \<or> a = Free_work \<or> a = Sem_store t v \<or> a = Sem_await t v'"
  shows "lock_ok l m'"
proof -
  have ph: "phase_of l (prog m t) = phase_of l (a # p)" using p by simp
  have P: "prog m' = (prog m)(t := p)" using act_prog [OF ac] a by (cases a) auto
  have uniq: "phase_of l (prog m u) = Out" if "phase_of l (a # p) \<noteq> Out" "u \<noteq> t" "0 < u" for u
    using lo t that ph unfolding lock_ok_def by metis
  have held: "lock_held l m \<longleftrightarrow> (\<exists>u > 0. phase_of l (prog m u) \<noteq> Out)"
    using lo by (simp add: lock_ok_def)
  have other: ?thesis if "phase_of l (a # p) = phase_of l p" "syscfg m' = syscfg m"
    "counter m' = counter m" "temp m' = temp m"
    by (rule lock_ok_cong [OF lo]) (use that ph P in simp_all)
  show ?thesis
  proof (cases a)
    case (Lock l')
    with d have l: "l' = l" "phase_of l p = Locked" by auto
    with Lock ac have nh: "\<not> lock_held l m"
      and m': "m' = m\<lparr>prog := (prog m)(t := p), syscfg := set_bit (lock_bit l) (syscfg m)\<rparr>"
      by (auto simp: lock_held_def split: if_splits)
    from nh held have o: "\<And>u. 0 < u \<Longrightarrow> phase_of l (prog m u) = Out" by blast
    have "lock_held l m'" using m' by (simp add: lock_held_bit bit_set_bit_iff lock_bit_inj)
    with o l m' t show ?thesis by (auto simp: lock_ok_def)
  next
    case (Load l')
    with d have l: "l' = l" "phase_of l p = Loaded" by auto
    with Load ac have m': "m' = m\<lparr>prog := (prog m)(t := p), temp := (temp m)(t := counter m l)\<rparr>" by simp
    have o: "\<And>u. u \<noteq> t \<Longrightarrow> 0 < u \<Longrightarrow> phase_of l (prog m u) = Out" using uniq Load by simp
    have "lock_held l m" using held ph Load t by auto
    with o l m' t show ?thesis by (auto simp: lock_ok_def lock_held_def)
  next
    case (Store l')
    with d have l: "l' = l" "phase_of l p = Stored" by auto
    with Store ac have m': "m' = m\<lparr>prog := (prog m)(t := p), counter := (counter m)(l := temp m t + 1)\<rparr>" by simp
    have o: "\<And>u. u \<noteq> t \<Longrightarrow> 0 < u \<Longrightarrow> phase_of l (prog m u) = Out" using uniq Store by simp
    have "lock_held l m" using held ph Store t by auto
    with o l m' t show ?thesis by (auto simp: lock_ok_def lock_held_def)
  next
    case (Unlock l')
    with d have l: "l' = l" "phase_of l p = Out" by auto
    with Unlock ac have m': "m' = m\<lparr>prog := (prog m)(t := p), syscfg := unset_bit (lock_bit l) (syscfg m)\<rparr>" by simp
    have o: "\<And>u. u \<noteq> t \<Longrightarrow> 0 < u \<Longrightarrow> phase_of l (prog m u) = Out" using uniq Unlock by simp
    have "\<not> lock_held l m'" using m' by (simp add: lock_held_bit bit_unset_bit_iff)
    with o l m' t show ?thesis by (auto simp: lock_ok_def)
  qed (rule other; use a ac in \<open>auto split: if_splits\<close>)+
qed

lemma exclusive_worker:
  assumes ex: "exclusive l m" and t: "0 < t" and p: "prog m t = a # p"
    and ac: "act t a (m\<lparr>prog := (prog m)(t := p)\<rparr>) = Some m'"
    and a: "is_func a \<or> a = Free_work \<or> a = Sem_store t v \<or> a = Sem_await t v'"
  shows "exclusive l m'"
proof -
  have P: "prog m' = (prog m)(t := p)" using act_prog [OF ac] a by (cases a) auto
  from ex have pl: "programs_ok l m" "lock_ok l m" by (simp_all add: exclusive_def)
  note po = programs_ok_worker [OF pl(1) t p P]
  with lock_ok_worker [OF pl(2) t p conjunct2 [OF po] ac a] show ?thesis by (simp add: exclusive_def)
qed

text \<open>A step of the main thread.\<close>

lemma exclusive_main:
  assumes ex: "exclusive l m" and p: "prog m 0 = a # P" and o: "ordered T a P"
    and ac: "act 0 a (m\<lparr>prog := (prog m)(0 := P)\<rparr>) = Some m'"
    and cr: "\<And>i q. a = Thread_create i q \<Longrightarrow> 0 < i \<and> prog m i = []"
  shows "exclusive l m'"
proof -
  from ex have po: "programs_ok l m" and lo: "lock_ok l m" by (simp_all add: exclusive_def)
  have po': "programs_ok l m'" if "prog m' = (prog m)(0 := P)"
    using po that p unfolding programs_ok_def by auto
  have core: ?thesis if "prog m' = (prog m)(0 := P)" "syscfg m' = syscfg m"
    "counter m' = counter m" "temp m' = temp m"
    using lock_ok_cong [OF lo, of m'] po' that by (simp add: exclusive_def)
  show ?thesis using o
  proof (cases rule: ordered_cases)
    case (create i q)
    note i = cr [OF create]
    from create ac have m': "prog m' = (prog m)(0 := P, i := q)" "syscfg m' = syscfg m"
      "counter m' = counter m" "temp m' = temp m" by auto
    from po p create have q: "disciplined l q" "phase_of l q = Out" by (auto simp: programs_ok_def)
    from o create have "\<And>l. Reset l \<notin> set P" by simp
    hence "programs_ok l m'" using po p m'(1) q i unfolding programs_ok_def by simp
    moreover have "lock_ok l m'" by (rule lock_ok_cong [OF lo]) (use m' i q in simp_all)
    ultimately show ?thesis by (simp add: exclusive_def)
  next
    case (reset l')
    with po p have n: "\<And>t. 0 < t \<Longrightarrow> prog m t = []" unfolding programs_ok_def by (metis list.set_intros(1))
    from reset ac have m': "prog m' = (prog m)(0 := P)" "syscfg m' = syscfg m" by auto
    from n have "\<And>t. 0 < t \<Longrightarrow> phase_of l (prog m t) = Out" by simp
    with m' lo have "lock_ok l m'" by (auto simp: lock_ok_def lock_held_def)
    with po' m' show ?thesis by (simp add: exclusive_def)
  next
    case plain
    from plain_act [OF this ac] show ?thesis by (intro core) auto
  qed (rule core; use ac in \<open>auto split: if_splits\<close>)+
qed

lemma exclusive_step:
  assumes ok: "works_ok works" and inv: "protocol_inv works m" and ex: "exclusive l m" and st: "step m m'"
  shows "exclusive l m'"
  using ok inv st
proof (cases rule: total_step)
  case quiet
  with ex exclusive_core show ?thesis by blast
next
  case (act t a p)
  show ?thesis
  proof (cases "t = 0")
    case True
    have pr: "protocol works m" using inv by (simp add: protocol_inv_def)
    from act True create_target [OF ok pr] show ?thesis
      by (intro exclusive_main [OF ex, of a p]) auto
  next
    case False
    with act show ?thesis by (intro exclusive_worker [OF ex, of t a p]) auto
  qed
qed

section \<open>Counting\<close>

definition stores :: "lock \<Rightarrow> action \<Rightarrow> nat" where
  "stores l a = (if a = Store l then 1 else 0)"

definition counted :: "lock \<Rightarrow> nat \<Rightarrow> machine \<Rightarrow> bool" where
  "counted l N m \<longleftrightarrow>
     (if Reset l \<in> set (prog m 0) then total_weight (stores l) m = N
      else counter m l + of_nat (total_weight (stores l) m) = of_nat N)"

lemma act_counter:
  "act t a m = Some m' \<Longrightarrow> counter m' = (case a of Store l' \<Rightarrow> (counter m)(l' := temp m t + 1)
     | Reset l' \<Rightarrow> (counter m)(l' := 0) | _ \<Rightarrow> counter m)"
  by (cases a) (auto split: if_splits)

lemma counted_step:
  assumes ok: "works_ok works" and inv: "protocol_inv works m" and ex: "exclusive l m"
    and c: "counted l N m" and st: "step m m'"
  shows "counted l N m'"
  using ok inv st
proof (cases rule: total_step)
  case quiet
  with c total_core [OF quiet(1)] show ?thesis by (simp add: counted_def same_core_def)
next
  case (act t a p)
  note tot = act(5) [of "stores l"]
  note cn = act_counter [OF act(4)]
  from ex have po: "programs_ok l m" and lo: "lock_ok l m" by (simp_all add: exclusive_def)
  show ?thesis
  proof (cases "t = 0")
    case True
    with act have o: "ordered (fst ` set works) a p" and p: "prog m 0 = a # p" by auto
    have P: "prog m' 0 = p"
      by (rule main_step_frame(1) [OF p o works_okD(1) [OF ok]]) (use act True in simp)
    from o have ns: "stores l a = 0" by (cases a) (simp_all add: stores_def)
    show ?thesis
    proof (cases "a = Reset l")
      case True
      have "total_weight (stores l) m = N" using c p True by (simp add: counted_def)
      with tot ns have N: "total_weight (stores l) m' = N" by simp
      have "counter m' l = 0" using cn True by simp
      with N show ?thesis by (simp add: counted_def)
    next
      case False
      hence "counter m' l = counter m l" using cn o by (cases a) (auto split: if_splits)
      with False P p tot ns c show ?thesis by (simp add: counted_def)
    qed
  next
    case False
    hence t: "0 < t" by simp
    have nr: "Reset l \<notin> set (prog m 0)" using po act(2) t unfolding programs_ok_def by auto
    have P: "prog m' 0 = prog m 0" using act_prog [OF act(4)] act(6) False by (cases a) auto
    show ?thesis
    proof (cases "a = Store l")
      case True
      with act(2) have "phase_of l (prog m t) = Loaded" by simp
      with lo t have "temp m t = counter m l" by (simp add: lock_ok_def)
      with cn True have "counter m' l = counter m l + 1" by simp
      moreover have "total_weight (stores l) m = Suc (total_weight (stores l) m')" using tot True by (simp add: stores_def)
      ultimately show ?thesis using c nr P by (simp add: counted_def algebra_simps)
    next
      case False
      have "follows l a (phase_of l p)"
        using po act(2) t unfolding programs_ok_def by (metis disciplined.simps(2))
      with cn False act(6) t have "counter m' l = counter m l" by (cases a) auto
      moreover have "total_weight (stores l) m' = total_weight (stores l) m" using tot False by (simp add: stores_def)
      ultimately show ?thesis using c nr P by (simp add: counted_def)
    qed
  qed
qed

section \<open>The heap\<close>

definition frees :: "action \<Rightarrow> nat" where "frees a = (if a = Free_work then 1 else 0)"
definition mallocs :: "action \<Rightarrow> nat" where "mallocs a = (if a = Malloc_work then 1 else 0)"

definition balanced :: "nat \<Rightarrow> machine \<Rightarrow> bool" where
  "balanced H m \<longleftrightarrow> heap_free m + total_weight frees m = H + total_weight mallocs m"

lemma act_heap:
  "act t a m = Some m' \<Longrightarrow> heap_free m' = (case a of Free_work \<Rightarrow> heap_free m + 1
     | Malloc_work \<Rightarrow> heap_free m - 1 | _ \<Rightarrow> heap_free m)"
  by (cases a) (auto split: if_splits)

lemma balanced_step:
  assumes ok: "works_ok works" and inv: "protocol_inv works m" and b: "balanced H m" and st: "step m m'"
  shows "balanced H m'"
  using ok inv st
proof (cases rule: total_step)
  case quiet
  with b total_core [OF quiet(1)] show ?thesis by (simp add: balanced_def same_core_def)
next
  case (act t a p)
  note tot = act(5) [of frees] act(5) [of mallocs]
  note hp = act_heap [OF act(4)]
  show ?thesis
  proof (cases "a = Malloc_work")
    case True
    with act(6) have "t = 0" by (auto split: if_splits)
    with inv act(2) True have "0 < heap_free m" by (simp add: protocol_inv_def heap_ok_def)
    with True tot hp b show ?thesis by (simp add: balanced_def frees_def mallocs_def)
  next
    case False
    with tot hp b show ?thesis by (cases a) (simp_all add: balanced_def frees_def mallocs_def)
  qed
qed

section \<open>The end of the run\<close>

text \<open>After \<open>thread_join\<close> every worker has stopped and only plain actions remain.\<close>

definition joined :: "machine \<Rightarrow> bool" where
  "joined m \<longleftrightarrow> (\<forall>w. Thread_join w \<notin> set (prog m 0)) \<longrightarrow>
     (\<forall>t > 0. prog m t = []) \<and> list_all is_plain (prog m 0)"

lemma joined_step:
  assumes ok: "works_ok works" and inv: "protocol_inv works m" and j: "joined m" and st: "step m m'"
  shows "joined m'"
  using ok inv st
proof (cases rule: total_step)
  case quiet
  with j show ?thesis by (simp add: joined_def same_core_def)
next
  case (act t a p)
  show ?thesis
  proof (cases "t = 0")
    case True
    with act have o: "ordered (fst ` set works) a p" and p: "prog m 0 = a # p" by auto
    have P: "prog m' 0 = p" and oth: "\<And>u. u \<notin> fst ` set works \<Longrightarrow> u \<noteq> 0 \<Longrightarrow> prog m' u = prog m u"
      by (rule main_step_frame(1,2) [OF p o works_okD(1) [OF ok]], use act True in simp)+
    show ?thesis
    proof (cases "\<exists>w. a = Thread_join w")
      case True
      then obtain w where a: "a = Thread_join w" by blast
      with o have pl: "list_all is_plain p" "set (mask_tids w) = fst ` set works" by auto
      from act(4) a \<open>t = 0\<close> have m': "m' = m\<lparr>prog := (prog m)(0 := p)\<rparr>"
        and r: "\<forall>i<32. w AND push_bit i 1 \<noteq> 0 \<longrightarrow> \<not> running (m\<lparr>prog := (prog m)(0 := p)\<rparr>) i"
        by (auto split: if_splits)
      have "prog m' u = []" if "0 < u" for u
      proof (cases "u \<in> fst ` set works")
        case True
        with pl(2) have "u < 32 \<and> w AND push_bit u 1 \<noteq> 0" unfolding mask_tids_def by auto
        with r have "\<not> running (m\<lparr>prog := (prog m)(0 := p)\<rparr>) u" by blast
        with that m' show ?thesis by (simp add: running_def)
      next
        case False
        with inv that oth [of u] show ?thesis by (simp add: protocol_inv_def protocol_def)
      qed
      with pl P show ?thesis by (simp add: joined_def)
    next
      case False
      show ?thesis
      proof (cases "\<exists>w. Thread_join w \<in> set p")
        case True
        thus ?thesis using P by (auto simp: joined_def)
      next
        case nj: False
        with False p j have w: "\<forall>t > 0. prog m t = []" "list_all is_plain (a # p)"
          by (auto simp: joined_def)
        hence "prog m' = (prog m)(0 := p)" using plain_act act(4) \<open>t = 0\<close> by auto
        with w show ?thesis by (simp add: joined_def)
      qed
    qed
  next
    case False
    hence P: "prog m' 0 = prog m 0" using act_prog [OF act(4)] act(6) by (cases a) auto
    from False act(2) j have "\<exists>w. Thread_join w \<in> set (prog m 0)" by (auto simp: joined_def)
    with P show ?thesis by (auto simp: joined_def)
  qed
qed


text \<open>
  The checks that may report a failure: only those of the interrupt counts.
\<close>

fun checks_last :: "lock \<Rightarrow> nat \<Rightarrow> action list \<Rightarrow> bool" where
  "checks_last l N [] = True"
| "checks_last l N (a # P) =
     ((case a of Check_counter line l' v \<Rightarrow> l' = l \<and> v = of_nat N \<and> (\<forall>w. Thread_join w \<notin> set P)
       | _ \<Rightarrow> True) \<and> checks_last l N P)"

fun isr_checks :: "action \<Rightarrow> nat" where
  "isr_checks (Check_isr_ne line v w) = 1"
| "isr_checks _ = 0"

definition reported :: "checks \<Rightarrow> nat \<Rightarrow> machine \<Rightarrow> bool" where
  "reported r K m \<longleftrightarrow> (\<exists>es. messages (results m) = messages r @ es \<and>
     err (results m) = err r + int (length es) \<and> (\<forall>e \<in> set es. \<exists>line a b. e = Equal32 line a b) \<and>
     length es + total_weight isr_checks m \<le> K)"

lemma act_results:
  "act t a m = Some m' \<Longrightarrow> results m' = (case a of
      Check_syscfg line l v \<Rightarrow> check32 line (drop_bit (lock_bit l) (syscfg m) AND 1) v (results m)
    | Check_counter line l v \<Rightarrow> check32 line (counter m l) v (results m)
    | Check_isr_ne line v w \<Rightarrow> check32_ne line (isr_cnt m v) w (results m)
    | _ \<Rightarrow> results m)"
  by (cases a) (auto split: if_splits)

lemma stopped_weight:
  "(\<forall>t > 0. prog m t = []) \<Longrightarrow> total_weight w m = weight w (prog m 0)"
proof -
  assume "\<forall>t > 0. prog m t = []"
  hence "total_weight w m = (\<Sum>t<(32::nat). if t = 0 then weight w (prog m 0) else 0)"
    unfolding total_weight_def by (intro sum.cong) auto
  thus ?thesis by simp
qed

lemma plain_no_stores: "list_all is_plain P \<Longrightarrow> weight (stores l) P = 0"
proof (induction P)
  case (Cons a P)
  hence "inner a = []" "stores l a = 0" by (cases a; simp add: stores_def)+
  with Cons show ?case by simp
qed simp

lemma counted_stopped:
  assumes "counted l N m" "\<forall>t > 0. prog m t = []" "list_all is_plain (prog m 0)"
  shows "counter m l = of_nat N"
proof -
  have "Reset l \<notin> set (prog m 0)" using assms(3) by (auto simp: list_all_iff)
  with assms stopped_weight [of m "stores l"] plain_no_stores [of "prog m 0" l] show ?thesis
    by (simp add: counted_def)
qed

lemma reported_step:
  assumes ok: "works_ok works" and inv: "protocol_inv works m" and j: "joined m"
    and c: "counted l N m" and cl: "checks_last l N (prog m 0)" and r: "reported r K m" and st: "step m m'"
  shows "reported r K m' \<and> checks_last l N (prog m' 0)"
  using ok inv st
proof (cases rule: total_step)
  case quiet
  with r cl total_core [OF quiet(1)] show ?thesis by (simp add: reported_def same_core_def)
next
  case (act t a p)
  note tot = act(5) [of isr_checks]
  note res = act_results [OF act(4)]
  from r obtain es where es: "messages (results m) = messages r @ es"
     "err (results m) = err r + int (length es)" "\<forall>e \<in> set es. \<exists>line a b. e = Equal32 line a b"
     "length es + total_weight isr_checks m \<le> K" by (auto simp: reported_def)
  have same: "reported r K m'" if "results m' = results m"
    unfolding reported_def using that es tot by (intro exI [of _ es]) simp
  show ?thesis
  proof (cases "t = 0")
    case True
    with act have o: "ordered (fst ` set works) a p" and p: "prog m 0 = a # p" by auto
    have P: "prog m' 0 = p"
      by (rule main_step_frame(1) [OF p o works_okD(1) [OF ok]]) (use act True in simp)
    have "reported r K m'"
    proof (cases a)
      case (Check_counter line l' v)
      with cl p have v: "l' = l" "v = of_nat N" "\<forall>w. Thread_join w \<notin> set (a # p)" by auto
      with j p have "(\<forall>t > 0. prog m t = []) \<and> list_all is_plain (prog m 0)" by (simp add: joined_def)
      with counted_stopped [OF c] have "counter m l = of_nat N" by blast
      with res Check_counter v show ?thesis by (intro same) (simp add: check32_def)
    next
      case (Check_isr_ne line v w)
      show ?thesis
      proof (cases "isr_cnt m v = w")
        case True
        with res Check_isr_ne have "results m' = report (Equal32 line w w) (results m)"
          by (simp add: check32_ne_def)
        thus ?thesis unfolding reported_def using es tot Check_isr_ne
          by (intro exI [of _ "es @ [Equal32 line w w]"]) (simp add: report_def)
      next
        case False
        with res Check_isr_ne show ?thesis by (intro same) (simp add: check32_ne_def)
      qed
    qed (use o res in \<open>simp_all add: same\<close>)
    with cl p P show ?thesis by simp
  next
    case False
    with act(6) res have "results m' = results m" by (cases a) auto
    moreover have "prog m' 0 = prog m 0" using act_prog [OF act(4)] act(6) False by (cases a) auto
    ultimately show ?thesis using same cl by simp
  qed
qed


section \<open>Progress\<close>

text \<open>A machine of the protocol in which every thread is blocked or has stopped has finished.\<close>

lemma stuck_act:
  assumes "\<forall>t < 32. exec t m = None" "\<not> aborted m" "interrupts_ok m" "t < 32"
  shows "handler m t = []" "prog m t = a # p \<Longrightarrow> act t a (m\<lparr>prog := (prog m)(t := p)\<rparr>) = None"
proof -
  have ex: "exec t m = None" using assms(1,4) by blast
  show h: "handler m t = []"
  proof (cases "handler m t")
    case (Cons a h)
    with assms(3) have "is_isr a" by (auto simp: interrupts_ok_def list_all_iff dest!: spec [of _ t])
    from isr_act_Some [OF this, of t "m\<lparr>handler := (handler m)(t := h)\<rparr>"] Cons ex assms(2)
    show ?thesis by (auto simp: exec_def)
  qed
  show "act t a (m\<lparr>prog := (prog m)(t := p)\<rparr>) = None" if "prog m t = a # p"
    using ex h assms(2) that by (simp add: exec_def)
qed

lemma stuck_no_lock:
  assumes stuck: "\<forall>t < 32. exec t m = None" and ab: "\<not> aborted m" and io: "interrupts_ok m"
    and pr: "protocol works m" and ok: "works_ok works" and ex: "exclusive l m"
  shows "\<not> lock_held l m"
proof
  assume "lock_held l m"
  with ex obtain u where u: "0 < u" "phase_of l (prog m u) \<noteq> Out" by (auto simp: exclusive_def lock_ok_def)
  then obtain a p where p: "prog m u = a # p" by (cases "prog m u") auto
  hence "prog m u \<noteq> []" by simp
  from protocol_worker [OF pr this u(1)] works_okD(2) [OF ok] have u32: "u < 32" by blast
  have "disciplined l (a # p)" using ex u(1) p unfolding exclusive_def programs_ok_def by metis
  with u p phase_Cons_not_Out [of l a p]
  have "\<exists>m'. act u a (m\<lparr>prog := (prog m)(u := p)\<rparr>) = Some m'" by auto
  with stuck_act(2) [OF stuck ab io u32 p] show False by simp
qed

lemma stuck_worker:
  assumes stuck: "\<forall>t < 32. exec t m = None" and ab: "\<not> aborted m" and io: "interrupts_ok m"
    and pr: "protocol works m" and ok: "works_ok works" and ex: "exclusive l m"
    and t: "0 < t" "prog m t \<noteq> []"
  obtains f where "waiting t f m"
proof -
  from protocol_worker [OF pr t(2,1)] obtain f where f: "(t, f) \<in> set works" "worker_ok t f m" .
  note t32 = works_okD(2) [OF ok f(1)]
  from t(2) obtain a p where p: "prog m t = a # p" by (cases "prog m t") auto
  have none: "act t a (m\<lparr>prog := (prog m)(t := p)\<rparr>) = None"
    by (rule stuck_act(2) [OF stuck ab io _ p]) (use t32 in simp)
  have nl: "\<not> lock_held l m" by (rule stuck_no_lock [OF stuck ab io pr ok ex])
  have "follows l a (phase_of l p)"
    using ex p t(1) unfolding exclusive_def programs_ok_def by (metis disciplined.simps(2))
  hence nf: "\<not> is_func a" using none nl by (cases a) (auto simp: lock_held_def)
  have "\<not> in_func t f m"
  proof
    assume "in_func t f m"
    then obtain k where "drop k (f @ [Free_work]) = a # p" using p by (metis in_func_def)
    from drop_Cons_next(1) [OF this] t32 nf have "a = Free_work" by (auto simp: list_all_iff)
    with none show False by simp
  qed
  moreover have "\<not> entered t f m" using p none by (auto simp: entered_def wrapper_Cons)
  moreover have "\<not> released t f m" using p none by (auto simp: released_def tl_wrapper)
  moreover have "\<not> fresh t f m" using t(2) by (auto simp: fresh_def)
  ultimately show thesis using f(2) that by (auto simp: worker_ok_def)
qed

lemma progress:
  assumes ok: "works_ok works" and inv: "protocol_inv works m" and ex: "exclusive l m"
    and stuck: "\<forall>t < 32. exec t m = None"
  shows "prog m t = []"
proof -
  from inv have pr: "protocol works m" and io: "interrupts_ok m" and ab: "\<not> aborted m"
    by (simp_all add: protocol_inv_def heap_ok_def)
  note sw = stuck_worker [OF stuck ab io pr ok ex]
  have main: "prog m 0 = []"
  proof (cases "prog m 0")
    case (Cons a P)
    have none: "act 0 a (m\<lparr>prog := (prog m)(0 := P)\<rparr>) = None"
      by (rule stuck_act(2) [OF stuck ab io _ Cons]) simp
    from pr Cons have o: "ordered (fst ` set works) a P" by (simp add: protocol_def)
    from o have False
    proof (cases rule: ordered_cases)
      case (await u)
      with o obtain f where f: "(u, f) \<in> set works" by auto
      with pr have w: "worker_ok u f m" by (auto simp: protocol_def)
      from none await have s: "thread_semaphore m u \<noteq> THREAD_SEMAPHORE_ON_WAIT" by (auto split: if_splits)
      have u: "0 < u" using works_okD(2) [OF ok f] by simp
      have e: "prog m u = []" using sw [OF u] s by (auto simp: waiting_def)
      with w s have "fresh u f m \<or> in_func u f m"
        by (auto simp: worker_ok_def entered_def waiting_def released_def wrapper_Cons)
      with Cons await o show False by (auto simp: fresh_def in_func_def all_arrived_def all_created_def)
    next
      case (join w)
      from none join obtain i where i: "i < 32" "w AND push_bit i 1 \<noteq> 0"
        "running (m\<lparr>prog := (prog m)(0 := P)\<rparr>) i"
        by (auto split: if_splits)
      from i(1,2) have "i \<in> set (mask_tids w)" by (simp add: mask_tids_def)
      with join(3) have "i \<in> fst ` set works" by simp
      with works_okD(1) [OF ok] have i0: "0 < i" by (cases i) auto
      with i(3) stuck_act(1) [OF stuck ab io i(1)] have "prog m i \<noteq> []" by (simp add: running_def)
      from sw [OF i0 this] obtain f where "waiting i f m" .
      with Cons join show False by (auto simp: waiting_def list_all_iff)
    next
      case plain
      with plain_act_Some none show False by (metis option.distinct(1))
    qed (use none in \<open>auto split: if_splits\<close>)
    thus ?thesis ..
  qed
  show ?thesis
  proof (cases "t = 0")
    case False
    show ?thesis
    proof (rule ccontr)
      assume "prog m t \<noteq> []"
      with sw False obtain f where "waiting t f m" by blast
      with main show False by (simp add: waiting_def)
    qed
  qed (use main in simp)
qed


section \<open>Termination\<close>

text \<open>
  Every action counts one, an action \<open>swi\<close> also for the handlers of the interrupts it raises; \<open>K\<close> bounds
  the length of a handler.
\<close>

definition pending :: "u32 \<Rightarrow> nat" where
  "pending w = card {n. n < 32 \<and> bit w n}"

fun cost :: "nat \<Rightarrow> action \<Rightarrow> nat" where
  "cost K (Swi w) = Suc (Suc K * pending w)"
| "cost K _ = 1"

definition fuel :: "nat \<Rightarrow> machine \<Rightarrow> nat" where
  "fuel K m = total_weight (cost K) m + (\<Sum>t<32. length (handler m t)) + Suc K * pending (ipend m)"

definition handlers_short :: "nat \<Rightarrow> machine \<Rightarrow> bool" where
  "handlers_short K m \<longleftrightarrow> (\<forall>n. length (isr_of m n) \<le> K) \<and>
     (\<forall>n h. Register_interrupt n h \<in> set (prog m 0) \<longrightarrow> length h \<le> K)"

lemma pending_or: "pending (v OR w) \<le> pending v + pending w"
proof -
  have "{n. n < 32 \<and> bit (v OR w) n} = {n. n < 32 \<and> bit v n} \<union> {n. n < 32 \<and> bit w n}"
    by (auto simp: bit_or_iff)
  thus ?thesis by (simp add: pending_def card_Un_le)
qed

lemma pending_unset: "n < 32 \<Longrightarrow> bit w n \<Longrightarrow> Suc (pending (unset_bit n w)) = pending w"
proof -
  assume n: "n < 32" "bit w n"
  have "{k. k < 32 \<and> bit w k} = insert n {k. k < 32 \<and> bit (unset_bit n w) k}"
    using n by (auto simp: bit_unset_bit_iff)
  moreover have "n \<notin> {k. k < 32 \<and> bit (unset_bit n w) k}" by (simp add: bit_unset_bit_iff)
  ultimately show ?thesis by (simp add: pending_def)
qed

lemma act_ipend: "act t a m = Some m' \<Longrightarrow> ipend m' = (case a of Swi w \<Rightarrow> ipend m OR w | _ \<Rightarrow> ipend m)"
  by (cases a) (auto split: if_splits)

lemma act_handler: "act t a m = Some m' \<Longrightarrow>
    handler m' = (case a of Thread_create i q \<Rightarrow> (handler m)(i := []) | _ \<Rightarrow> handler m)"
  by (cases a) (auto split: if_splits)

lemma act_isr_of: "act t a m = Some m' \<Longrightarrow>
    isr_of m' = (case a of Register_interrupt n h \<Rightarrow> (isr_of m)(n := h) | _ \<Rightarrow> isr_of m)"
  by (cases a) (auto split: if_splits)

lemma handlers_short_step:
  assumes ok: "works_ok works" and inv: "protocol_inv works m" and h: "handlers_short K m" and st: "step m m'"
  shows "handlers_short K m'"
  using ok inv st
proof (cases rule: total_step)
  case quiet
  with h show ?thesis by (simp add: handlers_short_def same_core_def)
next
  case (act t a p)
  note ih = act_isr_of [OF act(4)]
  show ?thesis
  proof (cases "t = 0")
    case True
    with act have o: "ordered (fst ` set works) a p" and p: "prog m 0 = a # p" by auto
    have "prog m' 0 = p"
      by (rule main_step_frame(1) [OF p o works_okD(1) [OF ok]]) (use act True in simp)
    with h p ih show ?thesis by (cases a) (auto simp: handlers_short_def)
  next
    case False
    hence "prog m' 0 = prog m 0" "isr_of m' = isr_of m"
      using act_prog [OF act(4)] act(6) ih by (cases a; auto)+
    with h show ?thesis by (simp add: handlers_short_def)
  qed
qed

lemma sum_length_upd:
  "t < (32::nat) \<Longrightarrow> (\<Sum>u<32. length ((f(t := h)) u)) + length (f t) = (\<Sum>u<32. length (f u)) + length h"
  by (rule sum_upd)

lemma fuel_step:
  assumes ok: "works_ok works" and inv: "protocol_inv works m" and h: "handlers_short K m" and st: "step m m'"
  shows "fuel K m' < fuel K m"
  using st
proof (cases rule: step.cases)
  case (interrupt t n)
  then have b: "bit (ipend m) n" and m': "m' = m\<lparr>ipend := unset_bit n (ipend m), handler := (handler m)(t := isr_of m n)\<rparr>"
    and e: "handler m t = []" by (auto simp: take_interrupt_def split: if_splits)
  have "length (isr_of m n) \<le> K" using h by (simp add: handlers_short_def)
  moreover have "(\<Sum>u<32. length (handler m' u)) = (\<Sum>u<32. length (handler m u)) + length (isr_of m n)"
    using sum_length_upd [OF interrupt(1), of "handler m" "isr_of m n"] e m' by simp
  moreover have "pending (ipend m) = Suc (pending (ipend m'))"
    using pending_unset [OF interrupt(2) b] m' by simp
  moreover have "total_weight (cost K) m' = total_weight (cost K) m" using m' by (simp add: total_weight_def)
  ultimately show ?thesis by (simp add: fuel_def)
next
  case (thread t)
  show ?thesis
  proof (cases "handler m t")
    case (Cons a g)
    from inv Cons have a: "is_isr a"
      by (auto simp: protocol_inv_def interrupts_ok_def list_all_iff dest!: spec [of _ t])
    from thread Cons have "act t a (m\<lparr>handler := (handler m)(t := g)\<rparr>) = Some m'"
      by (auto simp: exec_def split: if_splits)
    from isr_act [OF a this] have m': "prog m' = prog m" "handler m' = (handler m)(t := g)" "ipend m' = ipend m"
      by auto
    have "Suc (\<Sum>u<32. length (handler m' u)) = (\<Sum>u<32. length (handler m u))"
      using sum_length_upd [OF thread(1), of "handler m" g] Cons m' by simp
    with m' show ?thesis by (simp add: fuel_def total_weight_def)
  next
    case Nil
    from thread Nil obtain a p where p: "prog m t = a # p"
      and ac: "act t a (m\<lparr>prog := (prog m)(t := p)\<rparr>) = Some m'"
      by (auto simp: exec_def split: if_splits list.splits)
    have pr: "protocol works m" and io: "interrupts_ok m" using inv by (simp_all add: protocol_inv_def)
    have cr: "i < 32 \<and> i \<noteq> t \<and> prog m i = []" if "a = Thread_create i q" for i q
    proof (cases "t = 0")
      case True
      with create_target [OF ok pr, of i q p] p that show ?thesis by simp
    next
      case False
      with worker_head [OF ok pr _ p] have "a \<noteq> Thread_create i q" by auto
      with that show ?thesis by simp
    qed
    have tot: "total_weight (cost K) m' + cost K a = total_weight (cost K) m"
      by (rule total_act [OF thread(1) p ac cr])
    have hd: "handler m' = handler m"
    proof (cases a)
      case (Thread_create i q)
      with cr io have "handler m i = []" by (auto simp: interrupts_ok_def)
      with act_handler [OF ac] Thread_create show ?thesis by auto
    qed (use act_handler [OF ac] in simp_all)
    show ?thesis
    proof (cases a)
      case (Swi w)
      with act_ipend [OF ac] have "pending (ipend m') \<le> pending (ipend m) + pending w" by (simp add: pending_or)
      hence "Suc K * pending (ipend m') \<le> Suc K * pending (ipend m) + Suc K * pending w"
        by (metis distrib_left mult_le_mono2)
      with tot hd Swi show ?thesis by (simp add: fuel_def)
    qed (use tot hd act_ipend [OF ac] in \<open>simp_all add: fuel_def\<close>)
  qed
qed


section \<open>Fork and join\<close>

text \<open>
  The shape of a test: plain actions and resets of the counters, the creation of the threads, their
  start, plain actions while they run, the join, and plain actions after it.
\<close>

definition spawn :: "(nat \<times> action list) list \<Rightarrow> action list" where
  "spawn works = concat (map (\<lambda>(t, f). create_waiting_thread f t) works)"

definition fork_join ::
  "action list \<Rightarrow> (nat \<times> action list) list \<Rightarrow> u32 \<Rightarrow> action list \<Rightarrow> action list \<Rightarrow> action list" where
  "fork_join pre works msk mid post =
     pre @ spawn works @ start_waiting_threads 0 msk @ mid @ [Thread_join msk] @ post"

definition fork_join_ok ::
  "lock \<Rightarrow> nat \<Rightarrow> action list \<Rightarrow> (nat \<times> action list) list \<Rightarrow> u32 \<Rightarrow> action list \<Rightarrow> action list \<Rightarrow> bool" where
  "fork_join_ok l N pre works msk mid post \<longleftrightarrow>
     works_ok works \<and> (\<forall>(t, f) \<in> set works. disciplined l f \<and> phase_of l f = Out) \<and>
     set (mask_tids msk) = fst ` set works \<and>
     (\<forall>a \<in> set pre. (is_plain a \<or> a = Reset l) \<and> (\<forall>line l' v. a \<noteq> Check_counter line l' v)) \<and>
     Reset l \<in> set pre \<and>
     list_all is_plain mid \<and> (\<forall>line l' v. Check_counter line l' v \<notin> set mid) \<and>
     list_all is_plain post \<and> (\<forall>line l' v. Check_counter line l' v \<in> set post \<longrightarrow> l' = l \<and> v = of_nat N) \<and>
     (\<Sum>(t, f)\<leftarrow>works. weight (stores l) f) = N"

lemma spawn_Cons: "spawn ((t, f) # ws) = create_waiting_thread f t @ spawn ws"
  by (simp add: spawn_def)

lemma mask_tids_distinct: "distinct (mask_tids w)"
  by (simp add: mask_tids_def)

lemma mask_tids_remove_myself:
  "0 \<notin> set (mask_tids w) \<Longrightarrow> mask_tids (remove_myself 0 w) = mask_tids w"
proof -
  assume "0 \<notin> set (mask_tids w)"
  hence "w AND 1 = 0" by (simp add: mask_tids_def)
  hence "\<not> bit w 0" by (simp add: and_one_eq bit_0 even_iff_mod_2_eq_zero)
  hence "w AND NOT 1 = w"
    by (intro bit_word_eqI) (auto simp: bit_and_iff bit_not_iff bit_1_iff intro!: Nat.gr0I)
  thus ?thesis by (simp add: remove_myself_def)
qed

lemma main_ok_releases:
  assumes "distinct xs" "main_ok T Q" "all_arrived Q" "\<forall>t. releases t \<notin> set Q"
  shows "main_ok T (map releases xs @ Q)"
  using assms by (induction xs) (auto simp: semaphore_states all_arrived_def all_created_def)

lemma main_ok_awaits:
  assumes "distinct xs" "set xs \<subseteq> T" "main_ok T R" "all_arrived R" "\<forall>t \<in> set xs. releases t \<in> set R"
    "Malloc_work \<notin> set R"
  shows "main_ok T (map awaits xs @ R)"
  using assms by (induction xs) (auto simp: all_arrived_def all_created_def)

lemma spawn_creates: "Thread_create t q \<in> set (spawn ws) \<longleftrightarrow> (\<exists>f. (t, f) \<in> set ws \<and> q = thread_wrapper f t)"
  by (auto simp: spawn_def create_waiting_thread_def)

lemma main_ok_spawn:
  assumes "distinct (map fst ws)" "fst ` set ws \<subseteq> T" "main_ok T R" "all_created R"
    "\<forall>t \<in> fst ` set ws. awaits t \<in> set R" "\<forall>l. Reset l \<notin> set R"
  shows "main_ok T (spawn ws @ R)"
  using assms
proof (induction ws)
  case (Cons x ws)
  obtain t f where x: "x = (t, f)" by (cases x)
  have "\<forall>q. Thread_create t q \<notin> set (spawn ws)" using Cons.prems(1) x by (force simp: spawn_creates)
  moreover have "\<forall>l. Reset l \<notin> set (spawn ws)" by (auto simp: spawn_def create_waiting_thread_def)
  ultimately show ?case
    using Cons x by (auto simp: spawn_Cons create_waiting_thread_def all_created_def)
qed (simp add: spawn_def)

lemma plain_not: "is_plain a \<Longrightarrow> a \<noteq> Thread_create i q \<and> a \<noteq> Sem_await t v \<and> a \<noteq> Sem_store t v \<and>
    a \<noteq> Malloc_work \<and> a \<noteq> Reset l \<and> a \<noteq> Thread_join w \<and> a \<noteq> Free_work \<and> a \<noteq> Store l"
  by auto

lemma main_ok_plain: "(\<forall>a \<in> set P. is_plain a \<or> (\<exists>l. a = Reset l)) \<Longrightarrow> main_ok T Q \<Longrightarrow> main_ok T (P @ Q)"
proof (induction P)
  case (Cons a P)
  thus ?case by (cases a) auto
qed simp

lemma start_waiting_threads_eq:
  assumes "0 \<notin> set (mask_tids w)"
  shows "start_waiting_threads 0 w = map awaits (mask_tids w) @ map releases (mask_tids w)"
  using mask_tids_remove_myself [OF assms]
  by (simp add: start_waiting_threads_def wait_semaphore_state_def set_semaphore_state_def)

lemma fork_join_main_ok:
  assumes "fork_join_ok l N pre works msk mid post"
  shows "main_ok (fst ` set works) (fork_join pre works msk mid post)"
proof -
  let ?T = "fst ` set works" and ?Q = "mid @ [Thread_join msk] @ post"
  note a = assms [unfolded fork_join_ok_def]
  from a have wo: "works_ok works" and T2: "set (mask_tids msk) = ?T" by blast+
  have T: "0 \<notin> set (mask_tids msk)" "set (mask_tids msk) = ?T" using works_okD(1) [OF wo] T2 by simp_all
  have pl: "\<forall>a \<in> set ?Q. is_plain a \<or> a = Thread_join msk" using a by (auto simp: list_all_iff)
  have "main_ok ?T (post @ [])" using a by (intro main_ok_plain) (auto simp: list_all_iff)
  hence j: "main_ok ?T ([Thread_join msk] @ post)" using a by simp
  have q: "main_ok ?T ?Q" by (rule main_ok_plain [OF _ j]) (use a in \<open>simp add: list_all_iff\<close>)
  have "main_ok ?T (map releases (mask_tids msk) @ ?Q)"
    using q pl by (intro main_ok_releases mask_tids_distinct) (auto simp: all_arrived_def all_created_def dest: plain_not)
  hence "main_ok ?T (map awaits (mask_tids msk) @ map releases (mask_tids msk) @ ?Q)"
    using T pl by (intro main_ok_awaits mask_tids_distinct) (auto simp: all_arrived_def all_created_def dest: plain_not)
  hence "main_ok ?T (spawn works @ map awaits (mask_tids msk) @ map releases (mask_tids msk) @ ?Q)"
    using T pl a by (intro main_ok_spawn) (auto simp: works_ok_def all_created_def dest: plain_not)
  with a T show ?thesis unfolding fork_join_def
    by (auto simp: start_waiting_threads_eq intro!: main_ok_plain)
qed


text \<open>The invariant of a run, and that the start of a test satisfies it.\<close>

definition run_inv :: "(nat \<times> action list) list \<Rightarrow> lock \<Rightarrow> nat \<Rightarrow> nat \<Rightarrow> nat \<Rightarrow> checks \<Rightarrow> nat \<Rightarrow> machine \<Rightarrow> bool" where
  "run_inv works l N H K r C m \<longleftrightarrow>
     protocol_inv works m \<and> exclusive l m \<and> counted l N m \<and> balanced H m \<and> joined m \<and>
     checks_last l N (prog m 0) \<and> reported r C m \<and> handlers_short K m"

lemma run_inv_step:
  assumes ok: "works_ok works" and inv: "run_inv works l N H K r C m" and st: "step m m'"
  shows "run_inv works l N H K r C m'"
proof -
  note i = inv [unfolded run_inv_def]
  from i have p: "protocol_inv works m" and e: "exclusive l m" and c: "counted l N m"
    and b: "balanced H m" and j: "joined m" and cl: "checks_last l N (prog m 0)"
    and re: "reported r C m" and h: "handlers_short K m" by simp_all
  show ?thesis unfolding run_inv_def
    using protocol_step [OF ok p st] exclusive_step [OF ok p e st] counted_step [OF ok p e c st]
      balanced_step [OF ok p b st] joined_step [OF ok p j st]
      reported_step [OF ok p j c cl re st] handlers_short_step [OF ok p h st] by simp
qed

lemma run_inv_reach:
  assumes "works_ok works" "run_inv works l N H K r C m" "step\<^sup>*\<^sup>* m m'"
  shows "run_inv works l N H K r C m'"
  using assms(3,2) by (induction rule: rtranclp_induct) (auto intro: run_inv_step [OF assms(1)])

text \<open>A machine between two tests: no thread runs, the lock is free, the heap has \<open>n\<close> free blocks.\<close>

definition idle :: "lock \<Rightarrow> nat \<Rightarrow> machine \<Rightarrow> bool" where
  "idle l n m \<longleftrightarrow> (\<forall>t. prog m t = [] \<and> handler m t = []) \<and> (\<forall>k. list_all is_isr (isr_of m k)) \<and>
     (\<exists>K. \<forall>k. length (isr_of m k) \<le> K) \<and> \<not> aborted m \<and> \<not> lock_held l m \<and> n \<le> heap_free m"

definition boot :: "action list \<Rightarrow> machine \<Rightarrow> machine" where
  "boot p m = m\<lparr>prog := (prog m)(0 := p)\<rparr>"

lemma weight_zero: "(\<And>a. a \<in> set P \<Longrightarrow> w a = 0 \<and> inner a = []) \<Longrightarrow> weight w P = 0"
  by (induction P) auto

lemma start_simple: "a \<in> set (start_waiting_threads t w) \<Longrightarrow> (\<exists>i v. a = Sem_store i v) \<or> (\<exists>i v. a = Sem_await i v)"
  by (auto simp: start_waiting_threads_def wait_semaphore_state_def set_semaphore_state_def Let_def)

lemma weight_start: "(\<And>i v. w (Sem_store i v) = 0 \<and> w (Sem_await i v) = 0) \<Longrightarrow> weight w (start_waiting_threads t x) = 0"
  by (rule weight_zero) (use start_simple in fastforce)

lemma plain_inner: "is_plain a \<Longrightarrow> inner a = []"
  by (cases a) auto

lemma weight_plain:
  "list_all is_plain P \<Longrightarrow> (\<And>a. is_plain a \<Longrightarrow> w a = 0) \<Longrightarrow> weight w P = 0"
  by (rule weight_zero) (auto simp: list_all_iff plain_inner)

lemma weight_funcs: "list_all is_func f \<Longrightarrow> (\<And>a. is_func a \<Longrightarrow> w a = 0) \<Longrightarrow> weight w f = 0"
proof (rule weight_zero)
  fix a assume "list_all is_func f" "a \<in> set f" "\<And>a. is_func a \<Longrightarrow> w a = 0"
  hence "is_func a" "w a = 0" by (auto simp: list_all_iff)
  thus "w a = 0 \<and> inner a = []" by (cases a) auto
qed

lemma weight_spawn:
  "weight w (spawn ws) = (\<Sum>(t, f)\<leftarrow>ws. w Malloc_work + w (Sem_store t THREAD_SEMAPHORE_OFF) +
     w (Thread_create t (thread_wrapper f t)) + w (Sem_store t THREAD_SEMAPHORE_ON_WAIT) +
     w (Sem_await t THREAD_SEMAPHORE_GO) + weight w f + w Free_work)"
  by (induction ws)
     (auto simp: spawn_def create_waiting_thread_def thread_wrapper_def wait_on_semaphore_def)


lemma phase_append_free: "phase_of l (f @ [Free_work]) = phase_of l f"
proof (induction f)
  case (Cons a f)
  thus ?case by (cases a) simp_all
qed simp

lemma disciplined_append_free:
  "disciplined l f \<Longrightarrow> disciplined l (f @ [Free_work])"
  by (induction f) (auto simp: phase_append_free)

lemma wrapper_disciplined:
  "disciplined l f \<Longrightarrow> phase_of l f = Out \<Longrightarrow>
     disciplined l (thread_wrapper f t) \<and> phase_of l (thread_wrapper f t) = Out"
  by (simp add: wrapper_Cons phase_append_free disciplined_append_free)

lemma checks_last_skip:
  "(\<forall>line l' v. Check_counter line l' v \<notin> set P) \<Longrightarrow> checks_last l N (P @ Q) = checks_last l N Q"
proof (induction P)
  case (Cons a P)
  thus ?case by (cases a) auto
qed simp

lemma checks_last_plain:
  "list_all is_plain P \<Longrightarrow> (\<forall>line l' v. Check_counter line l' v \<in> set P \<longrightarrow> l' = l \<and> v = of_nat N) \<Longrightarrow>
     checks_last l N P"
proof (induction P)
  case (Cons a P)
  hence "\<forall>w. Thread_join w \<notin> set P" by (auto simp: list_all_iff)
  moreover have "checks_last l N P" using Cons by simp
  moreover have "l' = l \<and> v = of_nat N" if "a = Check_counter line l' v" for line l' v
    using Cons.prems(2) that by auto
  ultimately show ?case by (cases a) auto
qed simp

lemma no_check_counter:
  "Check_counter line l v \<notin> set (spawn ws)" "Check_counter line l v \<notin> set (start_waiting_threads t w)"
  using start_simple by (fastforce simp: spawn_def create_waiting_thread_def)+

lemma fork_join_weight:
  assumes "fork_join_ok l N pre works msk mid post"
    and w: "\<And>a. is_plain a \<Longrightarrow> w a = 0" "\<And>l. w (Reset l) = 0" "\<And>i v. w (Sem_store i v) = 0"
      "\<And>i v. w (Sem_await i v) = 0" "\<And>i. w (Thread_join i) = 0" "\<And>i q. w (Thread_create i q) = 0"
  shows "weight w (fork_join pre works msk mid post) =
    (\<Sum>(t, f)\<leftarrow>works. w Malloc_work + weight w f + w Free_work)"
proof -
  note a = assms(1) [unfolded fork_join_ok_def]
  from a have pre: "\<forall>x \<in> set pre. is_plain x \<or> x = Reset l" by simp
  have "weight w pre = 0"
  proof (rule weight_zero)
    fix x assume "x \<in> set pre"
    with pre have "is_plain x \<or> x = Reset l" by blast
    thus "w x = 0 \<and> inner x = []" using w(1,2) plain_inner by auto
  qed
  moreover have "weight w mid = 0" "weight w post = 0" using a w(1) by (auto intro: weight_plain)
  moreover have "weight w (start_waiting_threads 0 msk) = 0" using w by (intro weight_start) simp
  ultimately show ?thesis unfolding fork_join_def using w by (simp add: weight_spawn)
qed

lemma sum_list_ones:
  "(\<And>t f. (t, f) \<in> set ws \<Longrightarrow> g t f = (1::nat)) \<Longrightarrow> (\<Sum>(t, f)\<leftarrow>ws. g t f) = length ws"
  by (induction ws) auto

lemma fork_join_mallocs:
  assumes "fork_join_ok l N pre works msk mid post"
  shows "length (filter (\<lambda>a. a = Malloc_work) (fork_join pre works msk mid post)) = length works"
proof -
  note a = assms [unfolded fork_join_ok_def]
  have none: "filter (\<lambda>a. a = Malloc_work) P = []" if "Malloc_work \<notin> set P" for P
    using that by (auto simp: filter_empty_conv)
  have "Malloc_work \<notin> set pre" "Malloc_work \<notin> set mid" "Malloc_work \<notin> set post"
    using a by (auto simp: list_all_iff dest: plain_not)
  moreover have "Malloc_work \<notin> set (start_waiting_threads 0 msk)" using start_simple by blast
  moreover have "length (filter (\<lambda>a. a = Malloc_work) (spawn works)) = length works"
    by (induction works) (auto simp: spawn_def create_waiting_thread_def)
  ultimately show ?thesis unfolding fork_join_def by (simp add: none)
qed

lemma fork_join_start:
  assumes fj: "fork_join_ok l N pre works msk mid post" and id: "idle l (length works) m"
    and K: "\<And>k. length (isr_of m k) \<le> K"
      "\<And>k h. Register_interrupt k h \<in> set (fork_join pre works msk mid post) \<Longrightarrow> length h \<le> K"
  shows "run_inv works l N (heap_free m) K (results m)
    (weight isr_checks (fork_join pre works msk mid post)) (boot (fork_join pre works msk mid post) m)"
proof -
  let ?P = "fork_join pre works msk mid post"
  let ?m = "boot ?P m"
  note a = fj [unfolded fork_join_ok_def]
  note d = id [unfolded idle_def]
  from a have ok: "works_ok works" by blast
  have P: "prog ?m 0 = ?P" "\<And>t. 0 < t \<Longrightarrow> prog ?m t = []" using d by (simp_all add: boot_def)
  note tot = stopped_weight [of ?m, unfolded P(1)]
  have cr: "Thread_create t q \<in> set ?P \<longleftrightarrow> (\<exists>f. (t, f) \<in> set works \<and> q = thread_wrapper f t)" for t q
  proof -
    from a have "\<forall>a \<in> set pre. is_plain a \<or> a = Reset l" "\<forall>a \<in> set mid. is_plain a" "\<forall>a \<in> set post. is_plain a"
      by (simp_all add: list_all_iff)
    hence "Thread_create t q \<notin> set pre" "Thread_create t q \<notin> set mid" "Thread_create t q \<notin> set post"
      by fastforce+
    with start_simple [of "Thread_create t q" 0 msk] show ?thesis by (auto simp: fork_join_def spawn_creates)
  qed
  have off: "Sem_store t THREAD_SEMAPHORE_OFF \<in> set ?P" if "(t, f) \<in> set works" for t f
    using that by (force simp: fork_join_def spawn_def create_waiting_thread_def)
  have "protocol works ?m"
    unfolding protocol_def worker_ok_def fresh_def using fork_join_main_ok [OF fj] P cr off works_okD [OF ok]
    by (auto simp del: One_nat_def)
  moreover have "interrupts_ok ?m" using d by (simp add: interrupts_ok_def boot_def)
  moreover have "heap_ok ?m" using d fork_join_mallocs [OF fj] by (simp add: heap_ok_def boot_def)
  moreover have "exclusive l ?m"
    unfolding exclusive_def programs_ok_def lock_ok_def
    using P cr d a wrapper_disciplined [of l] by (auto simp: boot_def lock_held_def)
  moreover have "counted l N ?m"
  proof -
    have "weight (stores l) ?P = N"
      by (subst fork_join_weight [OF fj]) (use a in \<open>auto simp: stores_def\<close>)
    moreover have "Reset l \<in> set ?P" using a by (simp add: fork_join_def)
    ultimately show ?thesis using tot P by (simp add: counted_def)
  qed
  moreover have "balanced (heap_free m) ?m"
  proof -
    have f: "list_all is_func f" if "(t, f) \<in> set works" for t f using works_okD(2) [OF ok that] by simp
    have 1: "(\<Sum>(t, f)\<leftarrow>works. frees Malloc_work + weight frees f + frees Free_work) = length works"
      by (rule sum_list_ones) (use f in \<open>auto simp: frees_def intro!: weight_funcs\<close>)
    have 2: "(\<Sum>(t, f)\<leftarrow>works. mallocs Malloc_work + weight mallocs f + mallocs Free_work) = length works"
      by (rule sum_list_ones) (use f in \<open>auto simp: mallocs_def intro!: weight_funcs\<close>)
    have "weight frees ?P = length works"
      by (subst fork_join_weight [OF fj]) (use 1 in \<open>auto simp: frees_def\<close>)
    moreover have "weight mallocs ?P = length works"
      by (subst fork_join_weight [OF fj]) (use 2 in \<open>auto simp: mallocs_def\<close>)
    ultimately have "weight frees ?P = weight mallocs ?P" by simp
    thus ?thesis using tot P by (simp add: balanced_def boot_def)
  qed
  moreover have "joined ?m" using P by (auto simp: joined_def fork_join_def)
  moreover have "checks_last l N (prog ?m 0)"
  proof -
    have n: "\<forall>line l' v. Check_counter line l' v \<notin> set pre" "\<forall>line l' v. Check_counter line l' v \<notin> set mid"
      using a by blast+
    have "checks_last l N post" using a by (intro checks_last_plain) blast+
    hence "checks_last l N ?P" unfolding fork_join_def using n by (simp add: checks_last_skip no_check_counter)
    thus ?thesis by (simp only: P(1))
  qed
  moreover have "reported (results m) (weight isr_checks ?P) ?m"
    using tot [of isr_checks] P by (auto simp: reported_def boot_def)
  moreover have "handlers_short K ?m" using K P by (simp add: handlers_short_def boot_def)
  ultimately show ?thesis by (simp add: run_inv_def protocol_inv_def)
qed


text \<open>Every run of a test is finite, and the machine it ends in.\<close>

definition finished :: "lock \<Rightarrow> nat \<Rightarrow> machine \<Rightarrow> machine \<Rightarrow> bool" where
  "finished l N m m' \<longleftrightarrow> (\<forall>t. prog m' t = []) \<and> \<not> aborted m' \<and> counter m' l = of_nat N \<and>
     \<not> lock_held l m' \<and> heap_free m' = heap_free m"

lemma run_inv_finished:
  assumes ok: "works_ok works" and inv: "run_inv works l N (heap_free m) K r C m'" and st: "\<forall>t < 32. exec t m' = None"
  shows "finished l N m m'"
proof -
  note i = inv [unfolded run_inv_def]
  from i have e: "exclusive l m'" and p: "protocol_inv works m'" by blast+
  have n: "prog m' t = []" for t by (rule progress [OF ok p e st])
  have "\<not> lock_held l m'" using e n by (simp add: exclusive_def lock_ok_def)
  moreover have "counter m' l = of_nat N" using i n by (intro counted_stopped) auto
  moreover have "heap_free m' = heap_free m"
    using i n stopped_weight [of m'] by (simp add: balanced_def)
  moreover have "\<not> aborted m'" using p by (simp add: protocol_inv_def heap_ok_def)
  ultimately show ?thesis using n by (simp add: finished_def)
qed

lemma no_step_exec: "\<nexists>m'. step m m' \<Longrightarrow> t < 32 \<Longrightarrow> exec t m = None"
  by (cases "exec t m") (auto intro: thread)

text \<open>Turns that change the machine use up its fuel, so a fair execution comes to a machine that no turn changes any more; there every
  thread is blocked or has stopped.\<close>

lemma turn_step: "turn t m m' \<Longrightarrow> t < 32 \<Longrightarrow> step m m' \<or> exec t m = None \<and> m' = m"
  by (auto simp: turn_def intro: step.intros)

lemma fair_finishes:
  assumes ok: "works_ok works" and inv: "run_inv works l N H K r C (f 0)" and fair: "fair_execution sched f"
  shows "\<exists>i. run_inv works l N H K r C (f i) \<and> (\<forall>j \<ge> i. f j = f i) \<and> (\<forall>t < 32. exec t (f i) = None)"
proof -
  have tn: "step (f i) (f (Suc i)) \<or> exec (sched i) (f i) = None \<and> f (Suc i) = f i" for i
    using fair by (intro turn_step) (simp_all add: fair_execution_def)
  have I: "run_inv works l N H K r C (f i)" for i
  proof (induction i)
    case (Suc i)
    then show ?case using tn [of i] run_inv_step [OF ok Suc] by auto
  qed (fact inv)
  have less: "fuel K (f (Suc i)) < fuel K (f i)" if "step (f i) (f (Suc i))" for i
    using fuel_step [OF ok _ _ that] I [of i] by (simp add: run_inv_def)
  obtain i where i: "\<And>j. fuel K (f i) \<le> fuel K (f j)"
    using ex_has_least_nat [of "\<lambda>_. True" 0 "\<lambda>i. fuel K (f i)"] by auto
  have same: "f j = f i" if "i \<le> j" for j
    using that
  proof (induction j rule: dec_induct)
    case (step j)
    then have "\<not> step (f j) (f (Suc j))" using less [of j] i [of "Suc j"] by auto
    then show ?case using tn [of j] step.IH by simp
  qed simp
  have "exec t (f i) = None" if t: "t < 32" for t
  proof -
    obtain j where j: "i \<le> j" "sched j = t" using fair t unfolding fair_execution_def by blast
    then have "f j = f i" "f (Suc j) = f i" using same [of j] same [of "Suc j"] by (blast, blast intro: le_SucI)
    then have "\<not> step (f j) (f (Suc j))" using less [of j] by auto
    then show ?thesis using tn [of j] j(2) \<open>f j = f i\<close> by simp
  qed
  then show ?thesis using I same by blast
qed

lemma run_ends:
  assumes ok: "works_ok works" and inv: "run_inv works l N H K r C m"
  shows "\<exists>m'. step\<^sup>*\<^sup>* m m' \<and> (\<nexists>m''. step m' m'')"
  using inv
proof (induction "fuel K m" arbitrary: m rule: less_induct)
  case less
  show ?case
  proof (cases "\<exists>m'. step m m'")
    case True
    then obtain m' where st: "step m m'" by blast
    from less.prems have "fuel K m' < fuel K m"
      using fuel_step [OF ok _ _ st] by (simp add: run_inv_def)
    from less.hyps [OF this run_inv_step [OF ok less.prems st]] st show ?thesis
      by (meson converse_rtranclp_into_rtranclp)
  qed blast
qed

text \<open>What a test of the fork and join shape does, from an idle machine.\<close>

lemma fork_join_correct:
  assumes fj: "fork_join_ok l N pre works msk mid post" and id: "idle l (length works) m"
    and p: "p = fork_join pre works msk mid post"
  shows "fair_execution sched f \<Longrightarrow> f 0 = boot p m \<Longrightarrow> \<exists>i. \<forall>j \<ge> i. f j = f i \<and> finished l N m (f j)"
    and "\<exists>m'. step\<^sup>*\<^sup>* (boot p m) m' \<and> (\<nexists>m''. step m' m'')"
    and "step\<^sup>*\<^sup>* (boot p m) m' \<Longrightarrow> exclusive l m' \<and> protocol_inv works m' \<and> reported (results m) (weight isr_checks p) m'"
    and "step\<^sup>*\<^sup>* (boot p m) m' \<Longrightarrow> (\<nexists>m''. step m' m'') \<Longrightarrow> finished l N m m'"
proof -
  from fj have ok: "works_ok works" by (simp add: fork_join_ok_def)
  from id obtain K1 where K1: "\<And>k. length (isr_of m k) \<le> K1" by (auto simp: idle_def)
  have "finite {h. \<exists>k. Register_interrupt k h \<in> set p}"
  proof (rule finite_subset)
    show "{h. \<exists>k. Register_interrupt k h \<in> set p} \<subseteq> (\<lambda>a. case a of Register_interrupt k h \<Rightarrow> h | _ \<Rightarrow> []) ` set p"
      by force
  qed simp
  hence f: "finite (length ` {h. \<exists>k. Register_interrupt k h \<in> set p})" by simp
  define K where "K = Max (insert K1 (length ` {h. \<exists>k. Register_interrupt k h \<in> set p}))"
  have K: "\<And>k. length (isr_of m k) \<le> K" "\<And>k h. Register_interrupt k h \<in> set p \<Longrightarrow> length h \<le> K"
  proof -
    show "length (isr_of m k) \<le> K" for k using K1 [of k] f unfolding K_def by (meson Max_ge finite_insert insertI1 le_trans)
    show "length h \<le> K" if "Register_interrupt k h \<in> set p" for k h
      unfolding K_def using f that by (intro Max_ge) auto
  qed
  have inv: "run_inv works l N (heap_free m) K (results m) (weight isr_checks p) (boot p m)"
    unfolding p by (rule fork_join_start [OF fj id K(1)]) (use K(2) p in blast)
  show "\<exists>i. \<forall>j \<ge> i. f j = f i \<and> finished l N m (f j)" if fair: "fair_execution sched f" "f 0 = boot p m"
  proof -
    have "run_inv works l N (heap_free m) K (results m) (weight isr_checks p) (f 0)" using inv fair(2) by simp
    from fair_finishes [OF ok this fair(1)] obtain i where
      i: "run_inv works l N (heap_free m) K (results m) (weight isr_checks p) (f i)" "\<forall>j \<ge> i. f j = f i" "\<forall>t < 32. exec t (f i) = None"
      by blast
    have "finished l N m (f i)" by (rule run_inv_finished [OF ok i(1,3)])
    then show ?thesis using i(2) by metis
  qed
  show "\<exists>m'. step\<^sup>*\<^sup>* (boot p m) m' \<and> (\<nexists>m''. step m' m'')" by (rule run_ends [OF ok inv])
  note R = run_inv_reach [OF ok inv]
  show "exclusive l m' \<and> protocol_inv works m' \<and> reported (results m) (weight isr_checks p) m'"
    if "step\<^sup>*\<^sup>* (boot p m) m'"
    using R [OF that] by (simp add: run_inv_def)
  show "finished l N m m'" if "step\<^sup>*\<^sup>* (boot p m) m'" "\<nexists>m''. step m' m''"
    using run_inv_finished [OF ok R [OF that(1)]] no_step_exec [OF that(2)] by blast
qed


section \<open>The contract of the start protocol\<close>

definition started :: "nat \<Rightarrow> action list \<Rightarrow> machine \<Rightarrow> bool" where
  "started t f m \<longleftrightarrow> prog m t \<noteq> [] \<and> prog m t \<noteq> thread_wrapper f t \<and> prog m t \<noteq> tl (thread_wrapper f t)"

lemma started_arrived:
  assumes "protocol_inv works m" "(t, f) \<in> set works" "started t f m" "(u, g) \<in> set works"
  shows "all_arrived (prog m 0)" "prog m u \<noteq> thread_wrapper g u"
proof -
  from assms(1,2) have "worker_ok t f m" by (auto simp: protocol_inv_def protocol_def)
  with assms(3) show ar: "all_arrived (prog m 0)"
    by (auto simp: worker_ok_def started_def fresh_def entered_def waiting_def released_def in_func_def)
  from assms(1,4) have w: "worker_ok u g m" by (auto simp: protocol_inv_def protocol_def)
  show "prog m u \<noteq> thread_wrapper g u"
  proof
    assume e: "prog m u = thread_wrapper g u"
    have "length (thread_wrapper g u) = Suc (Suc (Suc (length g)))" by (simp add: wrapper_Cons)
    moreover have "length (drop k (g @ [Free_work])) \<le> Suc (length g)" for k by simp
    ultimately have "\<not> in_func u g m" using e unfolding in_func_def by (metis Suc_n_not_le_n Suc_leD)
    with w e have "entered u g m"
      by (auto simp: worker_ok_def fresh_def waiting_def released_def wrapper_Cons)
    with ar show False by (auto simp: entered_def all_arrived_def)
  qed
qed

text \<open>A machine for examples, and a run under a given schedule.\<close>

definition sample_machine :: machine where
  "sample_machine = \<lparr>thread_semaphore = (\<lambda>_. 0), syscfg = 0, counter = (\<lambda>_. 7), temp = (\<lambda>_. 0),
     prog = (\<lambda>_. []), handler = (\<lambda>_. []), heap_free = 3, aborted = False, ipend = 0, imask = (\<lambda>_. 0),
     iassign = (\<lambda>_. 0), isr_of = (\<lambda>_. []), isr_cnt = (\<lambda>_. 0), isr_syscfg = (\<lambda>_. 0), isr_temp = (\<lambda>_. 0),
     results = \<lparr>err = 0, messages = []\<rparr>, console = []\<rparr>"

fun run_schedule :: "nat list \<Rightarrow> machine \<Rightarrow> machine option" where
  "run_schedule [] m = Some m"
| "run_schedule (t # ts) m = Option.bind (exec t m) (run_schedule ts)"

lemma run_schedule_steps:
  "run_schedule ts m = Some m' \<Longrightarrow> (\<forall>t \<in> set ts. t < 32) \<Longrightarrow> step\<^sup>*\<^sup>* m m'"
proof (induction ts arbitrary: m)
  case (Cons t ts)
  then obtain m1 where m1: "exec t m = Some m1" "run_schedule ts m1 = Some m'" by (auto split: Option.bind_splits)
  with Cons have "step m m1" "step\<^sup>*\<^sup>* m1 m'" by (auto intro: thread)
  thus ?case by (rule converse_rtranclp_into_rtranclp)
qed simp

lemma sample_fork_join:
  "fork_join_ok K0 0 [Reset K0] [(1, [Delay 1])] 2 [] []" "idle K0 1 sample_machine"
proof -
  have "mask_tids 2 = [1]" by code_simp
  thus "fork_join_ok K0 0 [Reset K0] [(1, [Delay 1])] 2 [] []"
    by (simp add: fork_join_ok_def works_ok_def stores_def)
  show "idle K0 1 sample_machine" by (auto simp: idle_def sample_machine_def lock_held_def)
qed

text \<open>C18: the start protocol of \<open>thread_common\<close> is a barrier.  In every state that a program of the fork and join
  shape reaches, once one of its threads has started its function, the main thread has created every
  thread and has no thread to wait for, and every thread has announced itself.\<close>

theorem start_protocol_barrier:
  assumes "fork_join_ok l N pre works msk mid post" "idle l (length works) m"
    and "step\<^sup>*\<^sup>* (boot (fork_join pre works msk mid post) m) m'"
    and "(t, f) \<in> set works" "started t f m'" "(u, g) \<in> set works"
  shows "(\<forall>i q. Thread_create i q \<notin> set (prog m' 0)) \<and> (\<forall>i v. Sem_await i v \<notin> set (prog m' 0)) \<and>
    prog m' u \<noteq> thread_wrapper g u"
proof -
  from fork_join_correct(3) [OF assms(1,2) refl assms(3)] have "protocol_inv works m'" by blast
  from started_arrived [OF this assms(4,5,6)] show ?thesis by (simp add: all_arrived_def all_created_def)
qed

theorem start_protocol_barrier_witness:
  "\<exists>m'. step\<^sup>*\<^sup>* (boot (fork_join [Reset K0] [(1, [Delay 1])] 2 [] []) sample_machine) m' \<and> started 1 [Delay 1] m' \<and>
     (\<forall>i q. Thread_create i q \<notin> set (prog m' 0))"
proof -
  let ?m = "boot (fork_join [Reset K0] [(1, [Delay 1])] 2 [] []) sample_machine"
  have "mask_tids 2 = [1]" "mask_tids (remove_myself 0 2) = [1]" by code_simp+
  hence "\<exists>m'. run_schedule [0, 0, 0, 0, 1, 0, 0, 1] ?m = Some m' \<and> started 1 [Delay 1] m'"
    by (simp add: fork_join_def spawn_def create_waiting_thread_def start_waiting_threads_def
      wait_semaphore_state_def set_semaphore_state_def thread_wrapper_def wait_on_semaphore_def
      boot_def sample_machine_def exec_def started_def semaphore_states)
  then obtain m' where m': "run_schedule [0, 0, 0, 0, 1, 0, 0, 1] ?m = Some m'" "started 1 [Delay 1] m'" by blast
  have r: "step\<^sup>*\<^sup>* ?m m'" by (rule run_schedule_steps [OF m'(1)]) simp
  from start_protocol_barrier [OF sample_fork_join(1) _ r, of 1 "[Delay 1]" 1 "[Delay 1]"] sample_fork_join(2) m'(2) r
  show ?thesis by auto
qed

text \<open>C15: no wake-up of the start protocol is lost.  A program of the fork and join shape, started on an idle
  machine with a heap block for each thread, reaches under every schedule a state with no step left, and
  in every such state each thread has run its function to the end and has freed its block.\<close>

theorem start_protocol_live:
  assumes "fork_join_ok l N pre works msk mid post" "idle l (length works) m"
  shows "(\<exists>m'. step\<^sup>*\<^sup>* (boot (fork_join pre works msk mid post) m) m' \<and> (\<nexists>m''. step m' m'')) \<and>
    (\<forall>m'. step\<^sup>*\<^sup>* (boot (fork_join pre works msk mid post) m) m' \<and> (\<nexists>m''. step m' m'') \<longrightarrow>
      (\<forall>t. prog m' t = []) \<and> \<not> aborted m' \<and> heap_free m' = heap_free m)"
  using fork_join_correct [OF assms refl] by (auto simp: finished_def)

theorem start_protocol_live_witness:
  "\<exists>m'. step\<^sup>*\<^sup>* (boot (fork_join [Reset K0] [(1, [Delay 1])] 2 [] []) sample_machine) m' \<and>
     (\<forall>t. prog m' t = []) \<and> heap_free m' = heap_free sample_machine"
  using start_protocol_live [OF sample_fork_join(1), of sample_machine] sample_fork_join(2) by auto

text \<open>With an empty heap the assertion of \<open>create_waiting_thread\<close> fails: the machine stops at the
  \<open>malloc\<close> and no thread is created.\<close>

lemma create_waiting_thread_no_memory:
  assumes "\<not> aborted m" "handler m 0 = []" "heap_free m = 0" "prog m 0 = create_waiting_thread f t @ p"
  shows "\<exists>m'. exec 0 m = Some m' \<and> aborted m' \<and> (\<forall>u. exec u m' = None) \<and> (\<forall>u > 0. prog m' u = prog m u)"
  using assms by (auto simp: exec_def create_waiting_thread_def)

end
