(* ===== verification/Lock_Verify.thy ===== *)
theory Lock_Verify
  imports Hw_Runs
begin

text \<open>
  The lock tests \<open>src/lock_verify.c\<close>, \<open>src/k0locklock.c\<close> and
  \<open>src/tlblocklock.c\<close>: the bit of \<open>syscfg\<close> that each lock sets, and the counters that three
  threads increment under a lock, without and with software interrupts.  A test is the program of the
  main thread; the line of every check is its line in the source.
\<close>

section \<open>The programs\<close>

definition COMPUTE_THREADS :: nat where "COMPUTE_THREADS = 3"
definition ITERATIONS :: nat where "ITERATIONS = 1000"

definition do_k0lock :: "action list" where "do_k0lock = [Lock K0]"
definition do_k0unlock :: "action list" where "do_k0unlock = [Unlock K0]"
definition do_tlblock :: "action list" where "do_tlblock = [Lock TLB]"
definition do_tlbunlock :: "action list" where "do_tlbunlock = [Unlock TLB]"

lemmas lock_programs = do_k0lock_def do_k0unlock_def do_tlblock_def do_tlbunlock_def

definition test_k0lock_syscfg_bit :: "action list" where
  "test_k0lock_syscfg_bit =
     [Printf ''k0lock/k0unlock SYSCFG.KL bit'' [], Check_syscfg 84 K0 0] @
     do_k0lock @ [Check_syscfg 88 K0 1] @
     do_k0unlock @ [Check_syscfg 92 K0 0]"

definition test_tlblock_syscfg_bit :: "action list" where
  "test_tlblock_syscfg_bit =
     [Printf ''tlblock/tlbunlock SYSCFG.TL bit'' [], Check_syscfg 105 TLB 0] @
     do_tlblock @ [Check_syscfg 109 TLB 1] @
     do_tlbunlock @ [Check_syscfg 113 TLB 0]"

definition test_locks_independent :: "action list" where
  "test_locks_independent =
     [Printf ''k0lock and tlblock are independent'' []] @
     do_k0lock @ [Check_syscfg 128 K0 1, Check_syscfg 129 TLB 0] @
     do_tlblock @ [Check_syscfg 133 K0 1, Check_syscfg 134 TLB 1] @
     do_k0unlock @ [Check_syscfg 138 K0 0, Check_syscfg 139 TLB 1] @
     do_tlbunlock @ [Check_syscfg 143 K0 0, Check_syscfg 144 TLB 0]"

text \<open>The programs of \<open>k0locklock.c\<close> and \<open>tlblocklock.c\<close>, which must never return.\<close>

definition k0locklock_main :: "action list" where
  "k0locklock_main = [Lock K0, Lock K0]"

definition tlblocklock_main :: "action list" where
  "tlblocklock_main = [Lock TLB, Lock TLB]"

text \<open>A loop with a constant number of rounds.\<close>

definition rounds :: "nat \<Rightarrow> action list \<Rightarrow> action list" where
  "rounds n body = concat (replicate n body)"

definition k0lock_counter_thread :: "action list" where
  "k0lock_counter_thread =
     rounds ITERATIONS (do_k0lock @ [Load K0, Delay 4, Store K0] @ do_k0unlock)"

definition tlblock_counter_thread :: "action list" where
  "tlblock_counter_thread =
     rounds ITERATIONS (do_tlblock @ [Load TLB, Delay 4, Store TLB] @ do_tlbunlock)"

definition k0lock_counter_thread_long :: "action list" where
  "k0lock_counter_thread_long =
     rounds ITERATIONS (do_k0lock @ [Load K0, Delay 1024, Store K0] @ do_k0unlock)"

definition tlblock_counter_thread_long :: "action list" where
  "tlblock_counter_thread_long =
     rounds ITERATIONS (do_tlblock @ [Load TLB, Delay 1024, Store TLB] @ do_tlbunlock)"

definition thread_mask :: u32 where
  "thread_mask = push_bit 1 (push_bit COMPUTE_THREADS 1 - 1)"

definition create_threads :: "action list \<Rightarrow> action list" where
  "create_threads func = concat (map (\<lambda>i. create_waiting_thread func (i + 1)) [0..<COMPUTE_THREADS])"

abbreviation size_args :: "print_arg list" where
  "size_args \<equiv> [Const (of_nat COMPUTE_THREADS), Const (of_nat ITERATIONS)]"

abbreviation expected :: u32 where
  "expected \<equiv> of_nat (COMPUTE_THREADS * ITERATIONS)"

definition test_k0lock_mutual_exclusion :: "action list" where
  "test_k0lock_mutual_exclusion =
     [Printf ''k0lock mutual exclusion (%d threads x %d iterations)'' size_args, Reset K0] @
     create_threads k0lock_counter_thread @
     start_waiting_threads 0 thread_mask @
     [Thread_join thread_mask] @
     [Printf ''  k0lock counter: %d (expected %d)'' [Counter K0, Const expected],
      Check_counter 180 K0 expected]"

definition test_tlblock_mutual_exclusion :: "action list" where
  "test_tlblock_mutual_exclusion =
     [Printf ''tlblock mutual exclusion (%d threads x %d iterations)'' size_args, Reset TLB] @
     create_threads tlblock_counter_thread @
     start_waiting_threads 0 thread_mask @
     [Thread_join thread_mask] @
     [Printf ''  tlblock counter: %d (expected %d)'' [Counter TLB, Const expected],
      Check_counter 214 TLB expected]"

text \<open>The interrupt handler: each increment of a counter is a load and a store.\<close>

definition lock_interrupt_handler :: "action list" where
  "lock_interrupt_handler =
     [Isr_syscfg,
      Isr_load Isr_kl_set_count, Isr_store Isr_kl_set_count,
      Isr_load Isr_tl_set_count, Isr_store Isr_tl_set_count,
      Isr_load Isr_count, Isr_store Isr_count]"

definition setup_interrupts :: "action list" where
  "setup_interrupts =
     [Isr_clear Isr_count, Isr_clear Isr_kl_set_count, Isr_clear Isr_tl_set_count,
      Register_interrupt 0 lock_interrupt_handler, Set_imask 0xffffffff, Iassignw 0 1]"

definition test_k0lock_with_interrupts :: "action list" where
  "test_k0lock_with_interrupts =
     [Printf ''k0lock mutual exclusion with interrupts (%d threads x %d iterations)'' size_args, Reset K0] @
     setup_interrupts @
     create_threads k0lock_counter_thread_long @
     start_waiting_threads 0 thread_mask @
     rounds ITERATIONS [Swi 1, Delay 1] @
     [Thread_join thread_mask] @
     [Printf ''  k0lock counter: %d (expected %d)'' [Counter K0, Const expected],
      Check_counter 314 K0 expected,
      Printf ''  Interrupts taken: %d (while KL held: %d)'' [Isr Isr_count, Isr Isr_kl_set_count],
      Check_isr_ne 319 Isr_count 0, Check_isr_ne 321 Isr_kl_set_count 0]"

definition test_tlblock_with_interrupts :: "action list" where
  "test_tlblock_with_interrupts =
     [Printf ''tlblock mutual exclusion with interrupts (%d threads x %d iterations)'' size_args, Reset TLB] @
     setup_interrupts @
     create_threads tlblock_counter_thread_long @
     start_waiting_threads 0 thread_mask @
     rounds ITERATIONS [Swi 1, Delay 1] @
     [Thread_join thread_mask] @
     [Printf ''  tlblock counter: %d (expected %d)'' [Counter TLB, Const expected],
      Check_counter 358 TLB expected,
      Printf ''  Interrupts taken: %d (while TL held: %d)'' [Isr Isr_count, Isr Isr_tl_set_count],
      Check_isr_ne 362 Isr_count 0, Check_isr_ne 363 Isr_tl_set_count 0]"

section \<open>Tests of one thread\<close>

text \<open>A program run by the main thread alone; \<open>None\<close> when it stalls.\<close>

fun run_alone :: "action list \<Rightarrow> machine \<Rightarrow> machine option" where
  "run_alone [] m = Some m"
| "run_alone (a # p) m = Option.bind (act 0 a m) (run_alone p)"

lemma lock_field_bit: "drop_bit (lock_bit l) (w :: u32) AND 1 = of_bool (bit w (lock_bit l))"
  by (simp add: and_one_eq mod_2_eq_odd bit_iff_odd_drop_bit)

lemmas alone_simps = lock_field_bit lock_held_bit bit_set_bit_iff bit_unset_bit_iff check32_def

lemma set_unset_same: "\<not> bit w n \<Longrightarrow> unset_bit n (set_bit n w) = (w :: u32)"
  by (rule bit_word_eqI) (auto simp: bit_set_bit_iff bit_unset_bit_iff)

lemma unset_two_locks:
  "\<not> bit w 12 \<Longrightarrow> \<not> bit w 11 \<Longrightarrow>
     unset_bit 11 (unset_bit 12 (set_bit 11 (set_bit 12 w))) = (w :: u32)"
  by (rule bit_word_eqI) (auto simp: bit_set_bit_iff bit_unset_bit_iff)

lemma run_alone_append: "run_alone (p @ q) m = Option.bind (run_alone p m) (run_alone q)"
  by (induction p arbitrary: m) (auto split: Option.bind_splits)

lemma check_bit:
  "act 0 (Check_syscfg line l v) m =
     Some (m\<lparr>results := check32 line (of_bool (bit (syscfg m) (lock_bit l))) v (results m)\<rparr>)"
  by (simp add: lock_field_bit)

lemma act_lock: "act 0 (Lock l) m =
     (if bit (syscfg m) (lock_bit l) then None else Some (m\<lparr>syscfg := set_bit (lock_bit l) (syscfg m)\<rparr>))"
  by (simp add: lock_held_bit)

lemma one_lock_test:
  assumes "\<not> lock_held l m"
  shows "run_alone [Printf s [], Check_syscfg a l 0, Lock l, Check_syscfg b l 1, Unlock l, Check_syscfg c l 0] m =
    Some (m\<lparr>console := console m @ [(s, [])]\<rparr>)"
proof -
  let ?n = "lock_bit l"
  have b: "\<not> bit (syscfg m) ?n" using assms by (simp add: lock_held_bit)
  have "unset_bit ?n (set_bit ?n (syscfg m)) = syscfg m" by (rule set_unset_same [OF b])
  with b lock_bit_inj(1) [of l] show ?thesis
    by (simp add: check_bit act_lock bit_set_bit_iff check32_def del: act.simps(7) act.simps(21))
qed

lemma two_locks_test:
  assumes "\<not> lock_held K0 m" "\<not> lock_held TLB m"
  shows "run_alone test_locks_independent m =
    Some (m\<lparr>console := console m @ [(''k0lock and tlblock are independent'', [])]\<rparr>)"
proof -
  have b: "\<not> bit (syscfg m) 12" "\<not> bit (syscfg m) 11" using assms by (simp_all add: lock_held_bit)
  from unset_two_locks [OF b] b show ?thesis
    by (simp add: test_locks_independent_def lock_programs check_bit act_lock bit_set_bit_iff
      bit_unset_bit_iff check32_def del: act.simps(7) act.simps(21))
qed

text \<open>The three tests of the \<open>syscfg\<close> bits, run one after the other with both locks free, return without a stall,
  report no error and leave \<open>syscfg\<close> as it was: each lock sets its own bit and only that one, and the
  unlock clears it.\<close>

lemma lock_bits_tests_pass:
  assumes "\<not> lock_held K0 m" "\<not> lock_held TLB m"
  shows "\<exists>m'. run_alone (test_k0lock_syscfg_bit @ test_tlblock_syscfg_bit @ test_locks_independent) m = Some m' \<and>
    results m' = results m \<and> syscfg m' = syscfg m \<and>
    console m' = console m @ [(''k0lock/k0unlock SYSCFG.KL bit'', []), (''tlblock/tlbunlock SYSCFG.TL bit'', []),
      (''k0lock and tlblock are independent'', [])]"
proof -
  define m1 where "m1 = m\<lparr>console := console m @ [(''k0lock/k0unlock SYSCFG.KL bit'', [])]\<rparr>"
  define m2 where "m2 = m1\<lparr>console := console m1 @ [(''tlblock/tlbunlock SYSCFG.TL bit'', [])]\<rparr>"
  have h: "\<not> lock_held TLB m1" "\<not> lock_held K0 m2" "\<not> lock_held TLB m2"
    using assms by (simp_all add: lock_held_def m1_def m2_def)
  have "run_alone test_k0lock_syscfg_bit m = Some m1"
    using one_lock_test [OF assms(1)] by (simp only: test_k0lock_syscfg_bit_def lock_programs append.simps m1_def)
  moreover have "run_alone test_tlblock_syscfg_bit m1 = Some m2"
    using one_lock_test [OF h(1)] by (simp only: test_tlblock_syscfg_bit_def lock_programs append.simps m2_def)
  ultimately show ?thesis
    using two_locks_test [OF h(2,3)] by (simp add: run_alone_append) (simp add: m1_def m2_def)
qed

section \<open>A second lock of the same thread\<close>

definition stall_inv :: "lock \<Rightarrow> machine \<Rightarrow> bool" where
  "stall_inv l m \<longleftrightarrow> interrupts_ok m \<and> (\<forall>t > 0. prog m t = []) \<and>
     (prog m 0 = [Lock l, Lock l] \<or> prog m 0 = [Lock l] \<and> lock_held l m)"

lemma stall_inv_step:
  assumes "stall_inv l m" "step m m'"
  shows "stall_inv l m'"
proof -
  from assms(1) have io: "interrupts_ok m" by (simp add: stall_inv_def)
  from assms(2) io show ?thesis
  proof (cases rule: step_kinds)
    case quiet
    with assms(1) show ?thesis by (simp add: stall_inv_def same_core_def lock_held_def)
  next
    case (main a P)
    with assms(1) have a: "a = Lock l" "P = [Lock l]"
      by (auto simp: stall_inv_def lock_held_def split: if_splits)
    with main have m': "m' = m\<lparr>prog := (prog m)(0 := [Lock l]), syscfg := set_bit (lock_bit l) (syscfg m)\<rparr>"
      by (auto simp: lock_held_def split: if_splits)
    moreover have "lock_held l m'" using m' by (simp add: lock_held_bit bit_set_bit_iff lock_bit_inj)
    ultimately show ?thesis using assms(1) by (auto simp: stall_inv_def interrupts_ok_def)
  next
    case (worker t a p)
    with assms(1) show ?thesis by (simp add: stall_inv_def)
  qed
qed

text \<open>A thread that takes a lock twice never returns: in every state that the programs of
  \<open>k0locklock.c\<close> and \<open>tlblocklock.c\<close> reach from an idle machine, the main thread has still to take
  the lock.\<close>

lemma lock_twice_never_returns:
  assumes "idle l 0 m" "p = (if l = K0 then k0locklock_main else tlblocklock_main)" "step\<^sup>*\<^sup>* (boot p m) m'"
  shows "\<exists>q. prog m' 0 = Lock l # q"
proof -
  have p: "p = [Lock l, Lock l]"
    using assms(2) by (cases l) (simp_all add: k0locklock_main_def tlblocklock_main_def)
  have "stall_inv l (boot p m)"
    using assms(1) p by (auto simp: stall_inv_def idle_def boot_def interrupts_ok_def)
  with assms(3) have "stall_inv l m'"
    by (induction rule: rtranclp_induct) (auto intro: stall_inv_step)
  thus ?thesis by (auto simp: stall_inv_def)
qed

section \<open>The counter tests\<close>

lemma rounds_Suc: "rounds (Suc n) p = p @ rounds n p" and rounds_0: "rounds 0 p = []"
  by (simp_all add: rounds_def)

lemma weight_rounds: "weight w (rounds n p) = n * weight w p"
  by (induction n) (simp_all add: rounds_Suc rounds_0)

lemma set_rounds: "a \<in> set (rounds n p) \<Longrightarrow> a \<in> set p"
  by (auto simp: rounds_def)

definition critical :: "lock \<Rightarrow> nat \<Rightarrow> action list" where
  "critical l d = [Lock l, Load l, Delay d, Store l, Unlock l]"

lemma critical_rounds:
  "list_all is_func (rounds n (critical l d))" "phase_of l (rounds n (critical l d)) = Out"
  "disciplined l (rounds n (critical l d))" "weight (stores l) (rounds n (critical l d)) = n"
proof -
  show "list_all is_func (rounds n (critical l d))"
    by (auto simp: list_all_iff critical_def dest!: set_rounds)
  show ph: "phase_of l (rounds n (critical l d)) = Out" for n
    by (cases n) (simp_all add: rounds_Suc rounds_0 critical_def)
  show "disciplined l (rounds n (critical l d))"
    by (induction n) (simp_all add: rounds_Suc rounds_0 critical_def ph [unfolded critical_def])
  show "weight (stores l) (rounds n (critical l d)) = n"
    by (simp add: weight_rounds) (simp add: critical_def stores_def)
qed

lemma counter_threads:
  "k0lock_counter_thread = rounds ITERATIONS (critical K0 4)"
  "tlblock_counter_thread = rounds ITERATIONS (critical TLB 4)"
  "k0lock_counter_thread_long = rounds ITERATIONS (critical K0 1024)"
  "tlblock_counter_thread_long = rounds ITERATIONS (critical TLB 1024)"
  by (simp_all add: k0lock_counter_thread_def tlblock_counter_thread_def k0lock_counter_thread_long_def
    tlblock_counter_thread_long_def critical_def lock_programs)

definition workers :: "action list \<Rightarrow> (nat \<times> action list) list" where
  "workers f = map (\<lambda>t. (t, f)) [1, 2, 3]"

lemma create_threads_spawn: "create_threads f = spawn (workers f)"
  by (simp add: create_threads_def spawn_def workers_def COMPUTE_THREADS_def upt_conv_Cons numeral_2_eq_2 numeral_3_eq_3)

lemma thread_mask_tids: "mask_tids thread_mask = [1, 2, 3]"
  by code_simp

lemma counter_fork_join_ok:
  assumes "list_all is_plain pre1" "list_all is_plain pre2" "list_all is_plain mid" "list_all is_plain post"
    "\<And>line l' v. Check_counter line l' v \<notin> set pre1 \<union> set pre2 \<union> set mid"
    "\<And>line l' v. Check_counter line l' v \<in> set post \<Longrightarrow> l' = l \<and> v = expected"
  shows "fork_join_ok l (COMPUTE_THREADS * ITERATIONS) (pre1 @ [Reset l] @ pre2)
    (workers (rounds ITERATIONS (critical l d))) thread_mask mid post"
  using assms critical_rounds [where n = ITERATIONS and l = l and d = d]
  by (auto simp: fork_join_ok_def works_ok_def workers_def thread_mask_tids list_all_iff COMPUTE_THREADS_def)

text \<open>The lock of every counter test, and its program.\<close>

definition counter_tests :: "(lock \<times> action list) list" where
  "counter_tests =
     [(K0, test_k0lock_mutual_exclusion), (TLB, test_tlblock_mutual_exclusion),
      (K0, test_k0lock_with_interrupts), (TLB, test_tlblock_with_interrupts)]"

lemma counter_test_fork_join:
  assumes "(l, p) \<in> set counter_tests"
  obtains pre d mid post where "p = fork_join pre (workers (rounds ITERATIONS (critical l d))) thread_mask mid post"
    "fork_join_ok l (COMPUTE_THREADS * ITERATIONS) pre (workers (rounds ITERATIONS (critical l d))) thread_mask mid post"
proof -
  note ok = counter_fork_join_ok [where l = l]
  have isr: "list_all is_plain setup_interrupts" by (simp add: setup_interrupts_def lock_interrupt_handler_def)
  have swi: "list_all is_plain (rounds n [Swi 1, Delay 1])" for n by (auto simp: list_all_iff dest!: set_rounds)
  have nc: "Check_counter line l' v \<notin> set setup_interrupts" "Check_counter line l' v \<notin> set (rounds n [Swi 1, Delay 1])"
    for line l' v n by (auto simp: setup_interrupts_def dest!: set_rounds)
  from assms consider
      (1) "l = K0" "p = test_k0lock_mutual_exclusion" | (2) "l = TLB" "p = test_tlblock_mutual_exclusion"
    | (3) "l = K0" "p = test_k0lock_with_interrupts" | (4) "l = TLB" "p = test_tlblock_with_interrupts"
    by (auto simp: counter_tests_def)
  thus thesis
  proof cases
    case 1
    show ?thesis
      by (rule that [OF _ ok [of "[Printf ''k0lock mutual exclusion (%d threads x %d iterations)'' size_args]" "[]" "[]"
            "[Printf ''  k0lock counter: %d (expected %d)'' [Counter K0, Const expected], Check_counter 180 K0 expected]" 4]])
        (auto simp: 1 fork_join_def test_k0lock_mutual_exclusion_def counter_threads create_threads_spawn)
  next
    case 2
    show ?thesis
      by (rule that [OF _ ok [of "[Printf ''tlblock mutual exclusion (%d threads x %d iterations)'' size_args]" "[]" "[]"
            "[Printf ''  tlblock counter: %d (expected %d)'' [Counter TLB, Const expected], Check_counter 214 TLB expected]" 4]])
        (auto simp: 2 fork_join_def test_tlblock_mutual_exclusion_def counter_threads create_threads_spawn)
  next
    case 3
    show ?thesis
      by (rule that [OF _ ok [of "[Printf ''k0lock mutual exclusion with interrupts (%d threads x %d iterations)'' size_args]"
            setup_interrupts "rounds ITERATIONS [Swi 1, Delay 1]"
            "[Printf ''  k0lock counter: %d (expected %d)'' [Counter K0, Const expected], Check_counter 314 K0 expected,
              Printf ''  Interrupts taken: %d (while KL held: %d)'' [Isr Isr_count, Isr Isr_kl_set_count],
              Check_isr_ne 319 Isr_count 0, Check_isr_ne 321 Isr_kl_set_count 0]" 1024]])
        (auto simp: 3 fork_join_def test_k0lock_with_interrupts_def counter_threads create_threads_spawn isr swi nc simp del: One_nat_def)
  next
    case 4
    show ?thesis
      by (rule that [OF _ ok [of "[Printf ''tlblock mutual exclusion with interrupts (%d threads x %d iterations)'' size_args]"
            setup_interrupts "rounds ITERATIONS [Swi 1, Delay 1]"
            "[Printf ''  tlblock counter: %d (expected %d)'' [Counter TLB, Const expected], Check_counter 358 TLB expected,
              Printf ''  Interrupts taken: %d (while TL held: %d)'' [Isr Isr_count, Isr Isr_tl_set_count],
              Check_isr_ne 362 Isr_count 0, Check_isr_ne 363 Isr_tl_set_count 0]" 1024]])
        (auto simp: 4 fork_join_def test_tlblock_with_interrupts_def counter_threads create_threads_spawn isr swi nc simp del: One_nat_def)
  qed
qed


lemma counter_test_facts:
  assumes "(l, p) \<in> set counter_tests" "idle l 3 m"
  shows "fair_execution sched f \<Longrightarrow> f 0 = boot p m \<Longrightarrow> \<exists>i. \<forall>j \<ge> i. f j = f i \<and> finished l (COMPUTE_THREADS * ITERATIONS) m (f j)"
    and "\<exists>m'. step\<^sup>*\<^sup>* (boot p m) m' \<and> (\<nexists>m''. step m' m'')"
    and "step\<^sup>*\<^sup>* (boot p m) m' \<Longrightarrow> exclusive l m' \<and> reported (results m) (weight isr_checks p) m'"
    and "step\<^sup>*\<^sup>* (boot p m) m' \<Longrightarrow> (\<nexists>m''. step m' m'') \<Longrightarrow> finished l (COMPUTE_THREADS * ITERATIONS) m m'"
proof -
  from counter_test_fork_join [OF assms(1)] obtain pre d mid post
    where p: "p = fork_join pre (workers (rounds ITERATIONS (critical l d))) thread_mask mid post"
      and ok: "fork_join_ok l (COMPUTE_THREADS * ITERATIONS) pre (workers (rounds ITERATIONS (critical l d))) thread_mask mid post"
    by blast
  have id: "idle l (length (workers (rounds ITERATIONS (critical l d)))) m" using assms(2) by (simp add: workers_def numeral_3_eq_3)
  note c = fork_join_correct [OF ok id p]
  show "fair_execution sched f \<Longrightarrow> f 0 = boot p m \<Longrightarrow> \<exists>i. \<forall>j \<ge> i. f j = f i \<and> finished l (COMPUTE_THREADS * ITERATIONS) m (f j)"
    by (fact c(1))
  show "\<exists>m'. step\<^sup>*\<^sup>* (boot p m) m' \<and> (\<nexists>m''. step m' m'')" by (fact c(2))
  show "step\<^sup>*\<^sup>* (boot p m) m' \<Longrightarrow> exclusive l m' \<and> reported (results m) (weight isr_checks p) m'"
    using c(3) by blast
  show "step\<^sup>*\<^sup>* (boot p m) m' \<Longrightarrow> (\<nexists>m''. step m' m'') \<Longrightarrow> finished l (COMPUTE_THREADS * ITERATIONS) m m'"
    by (fact c(4))
qed

lemma isr_checks_plain_tests:
  "weight isr_checks test_k0lock_mutual_exclusion = 0" "weight isr_checks test_tlblock_mutual_exclusion = 0"
proof -
  have f: "weight isr_checks (rounds n (critical l d)) = 0" for n l d
    by (simp add: weight_rounds) (simp add: critical_def)
  have s: "weight isr_checks (spawn (workers (rounds n (critical l d)))) = 0" for n l d
    by (simp add: weight_spawn workers_def f)
  have "weight isr_checks (start_waiting_threads 0 thread_mask) = 0" by (rule weight_start) simp
  with s show "weight isr_checks test_k0lock_mutual_exclusion = 0" "weight isr_checks test_tlblock_mutual_exclusion = 0"
    by (simp_all add: test_k0lock_mutual_exclusion_def test_tlblock_mutual_exclusion_def counter_threads
      create_threads_spawn)
qed

text \<open>C14: each of the four counter tests of \<open>lock_verify.c\<close>, started with its lock free and three heap blocks,
  ends under every schedule of the threads and of the interrupts: it reaches a state with no step left, and in every
  such state all threads have stopped, the counter is 3000, the lock is free and no heap block is lost.\<close>

theorem lock_counter_tests_correct:
  assumes "(l, p) \<in> set counter_tests" "idle l 3 m"
  shows "(\<exists>m'. step\<^sup>*\<^sup>* (boot p m) m' \<and> (\<nexists>m''. step m' m'')) \<and>
    (\<forall>m'. step\<^sup>*\<^sup>* (boot p m) m' \<and> (\<nexists>m''. step m' m'') \<longrightarrow>
       (\<forall>t. prog m' t = []) \<and> counter m' l = 3000 \<and> \<not> lock_held l m' \<and> heap_free m' = heap_free m)"
  using counter_test_facts(2,4) [OF assms] by (auto simp: finished_def COMPUTE_THREADS_def ITERATIONS_def)

lemma sample_idle: "idle l 3 sample_machine"
  by (auto simp: idle_def sample_machine_def lock_held_def)

theorem lock_counter_tests_correct_witness:
  "\<exists>m'. step\<^sup>*\<^sup>* (boot test_k0lock_with_interrupts sample_machine) m' \<and> counter m' K0 = 3000"
proof -
  have "(K0, test_k0lock_with_interrupts) \<in> set counter_tests" by (simp add: counter_tests_def)
  from lock_counter_tests_correct [OF this sample_idle] show ?thesis by blast
qed

text \<open>C17: the counter tests return under every fair scheduler, with the spin loops of the start protocol and of the join
  as rounds that change nothing: in every execution that gives each thread its turn again and again, spins, stalls and interrupts
  included, there is a point from which all threads have stopped, the counter is 3000 and the lock is free.\<close>

theorem lock_counter_tests_fair_return:
  assumes "(l, p) \<in> set counter_tests" "idle l 3 m" "fair_execution sched f" "f 0 = boot p m"
  shows "\<exists>i. \<forall>j \<ge> i. f j = f i \<and> (\<forall>t. prog (f j) t = []) \<and> counter (f j) l = 3000 \<and> \<not> lock_held l (f j)"
  using counter_test_facts(1) [OF assms] by (simp add: finished_def COMPUTE_THREADS_def ITERATIONS_def) blast

theorem lock_counter_tests_fair_return_witness:
  "\<exists>i. counter (round_robin (boot test_tlblock_with_interrupts sample_machine) i) TLB = 3000"
proof -
  have "(TLB, test_tlblock_with_interrupts) \<in> set counter_tests" by (simp add: counter_tests_def)
  from lock_counter_tests_fair_return [OF this sample_idle round_robin_fair] show ?thesis by fastforce
qed

text \<open>C16: mutual exclusion.  In every state that a counter test reaches, at most one thread is between taking and
  releasing the lock, the lock's bit of \<open>syscfg\<close> is set exactly when one is, and the value which that thread has
  loaded is the value of the counter until it stores it; also with interrupts.\<close>

theorem lock_counter_tests_exclusive:
  assumes "(l, p) \<in> set counter_tests" "idle l 3 m" "step\<^sup>*\<^sup>* (boot p m) m'"
  shows "(lock_held l m' \<longleftrightarrow> (\<exists>t > 0. phase_of l (prog m' t) \<noteq> Out)) \<and>
    (\<forall>t > 0. \<forall>u > 0. phase_of l (prog m' t) \<noteq> Out \<and> phase_of l (prog m' u) \<noteq> Out \<longrightarrow> t = u) \<and>
    (\<forall>t > 0. phase_of l (prog m' t) = Loaded \<longrightarrow> temp m' t = counter m' l)"
  using counter_test_facts(3) [OF assms] by (auto simp: exclusive_def lock_ok_def)

theorem lock_counter_tests_exclusive_witness:
  "\<exists>m'. step\<^sup>*\<^sup>* (boot test_k0lock_mutual_exclusion sample_machine) m' \<and> (\<nexists>m''. step m' m'') \<and>
     lock_held K0 m' = (\<exists>t. 0 < t \<and> phase_of K0 (prog m' t) \<noteq> Out)"
proof -
  have m: "(K0, test_k0lock_mutual_exclusion) \<in> set counter_tests" by (simp add: counter_tests_def)
  from counter_test_facts(2) [OF m sample_idle] obtain m'
    where m': "step\<^sup>*\<^sup>* (boot test_k0lock_mutual_exclusion sample_machine) m'" "\<nexists>m''. step m' m''" by blast
  from lock_counter_tests_exclusive [OF m sample_idle m'(1)] m' show ?thesis by blast
qed

text \<open>The tests without interrupts report no error; those with interrupts only that no interrupt was taken.\<close>

lemma lock_counter_tests_report:
  assumes "idle l 3 m" "step\<^sup>*\<^sup>* (boot p m) m'"
  shows "(l, p) \<in> set (take 2 counter_tests) \<Longrightarrow> messages (results m') = messages (results m)"
    and "(l, p) \<in> set counter_tests \<Longrightarrow> \<exists>es. messages (results m') = messages (results m) @ es \<and>
      (\<forall>e \<in> set es. \<exists>line a b. e = Equal32 line a b)"
proof -
  show "\<exists>es. messages (results m') = messages (results m) @ es \<and> (\<forall>e \<in> set es. \<exists>line a b. e = Equal32 line a b)"
    if "(l, p) \<in> set counter_tests"
    using counter_test_facts(3) [OF that assms] by (auto simp: reported_def)
  assume p: "(l, p) \<in> set (take 2 counter_tests)"
  hence "(l, p) \<in> set counter_tests" by (meson in_set_takeD)
  moreover from p have "weight isr_checks p = 0"
    by (auto simp: counter_tests_def isr_checks_plain_tests)
  ultimately show "messages (results m') = messages (results m)"
    using counter_test_facts(3) [OF _ assms] by (auto simp: reported_def)
qed

end
