(* ===== verification/Sys_Atomics.thy ===== *)
theory Sys_Atomics
  imports Hex_Prelude "HOL-Library.Sublist"
begin

text \<open>
  The test \<open>src/sys_atomics.c\<close>: two threads increment a 32-bit and a 64-bit counter with load-locked and
  store-conditional while the main thread watches that they never decrease.  A counter is a natural
  number below \<open>2 ^ w\<close>, and every sum is taken modulo \<open>2 ^ w\<close>.  One step is one load, store or
  store-conditional of a thread.  A load-locked sets the reservation of its thread; a
  store-conditional succeeds when the reservation is for its address, a store to a reserved address
  ends every reservation of it, and a store-conditional ends that of its thread.
\<close>

section \<open>Saturating addition\<close>

definition sat_add :: "nat \<Rightarrow> nat \<Rightarrow> nat \<Rightarrow> nat" where
  "sat_add w a b = (let result = (a + b) mod 2 ^ w in if result < a \<or> result < b then 2 ^ w - 1 else result)"

lemma sat_add_min:
  assumes "a < 2 ^ w" "b < 2 ^ w"
  shows "sat_add w a b = min (a + b) (2 ^ w - 1)"
proof (cases "a + b < 2 ^ w")
  case True
  then show ?thesis by (auto simp: sat_add_def Let_def)
next
  case False
  then have "(a + b) mod 2 ^ w = a + b - 2 ^ w" using assms by (simp add: le_mod_geq)
  with False assms show ?thesis by (auto simp: sat_add_def Let_def)
qed

section \<open>State\<close>

datatype avar = Tick32 | Tick64

fun avar_width :: "avar \<Rightarrow> nat" where
  "avar_width Tick32 = 32"
| "avar_width Tick64 = 64"

text \<open>An address: a counter, or the variable \<open>ignored32\<close> or \<open>ignored64\<close> of a thread.\<close>

datatype atom_addr = Tick avar | Ignored nat avar

datatype atom_op = Atomic_inc avar nat | Atomic_inc_mismatch avar | Set_contention | Set_done

datatype main_pc = Poll nat | Assert32 | Assert64 | Prev32 | Prev64 | Join | Returned int | Failed

record atom =
  tick :: "avar \<Rightarrow> nat"
  ignored :: "nat \<Rightarrow> avar \<Rightarrow> nat"
  resv :: "nat \<Rightarrow> atom_addr option"
  ops :: "nat \<Rightarrow> atom_op list"
  pc :: "nat \<Rightarrow> nat"
  old :: "nat \<Rightarrow> nat"
  iters :: "nat \<Rightarrow> nat"
  tick_iters :: "nat \<Rightarrow> avar \<Rightarrow> nat"
  contention :: "nat \<Rightarrow> nat"
  finished :: "nat \<Rightarrow> bool"
  prev :: "avar \<Rightarrow> nat"
  main_at :: main_pc
  assert_failed :: bool

definition NUM_THREADS :: nat where "NUM_THREADS = 2"
definition LOOP_CNT :: nat where "LOOP_CNT = 10000"
definition EXPECTED_IGNORED :: nat where "EXPECTED_IGNORED = 99"

definition thread_inc :: "nat \<Rightarrow> nat \<Rightarrow> nat" where
  "thread_inc tid i = tid * (i mod 5)"

definition thread_body :: "nat \<Rightarrow> atom_op list" where
  "thread_body tid = concat (map (\<lambda>i.
     [Atomic_inc Tick32 (thread_inc tid i), Atomic_inc Tick64 (thread_inc tid i),
      Atomic_inc_mismatch Tick32, Atomic_inc_mismatch Tick64]) [0..<LOOP_CNT])"

definition my_thread :: "nat \<Rightarrow> atom_op list" where
  "my_thread tid = thread_body tid @ [Set_contention, Set_done]"

text \<open>The returned difference \<open>(tick32_iters - LOOP_CNT) + (tick64_iters - LOOP_CNT)\<close>: 32-bit and 64-bit
  unsigned subtraction, a 64-bit sum, and the conversion to \<open>int\<close>.\<close>

definition body_result :: "nat \<Rightarrow> nat \<Rightarrow> nat" where
  "body_result it32 it64 =
     (((it32 + 2 ^ 32 - LOOP_CNT) mod 2 ^ 32 + (it64 + 2 ^ 64 - LOOP_CNT) mod 2 ^ 64) mod 2 ^ 64) mod 2 ^ 32"

section \<open>Steps of a thread\<close>

text \<open>A store to an address ends every reservation of it.\<close>

definition store_addr :: "atom_addr \<Rightarrow> nat \<Rightarrow> atom \<Rightarrow> atom" where
  "store_addr x v s =
     (let s = s\<lparr>resv := (\<lambda>u. if resv s u = Some x then None else resv s u)\<rparr> in
      case x of Tick a \<Rightarrow> s\<lparr>tick := (tick s)(a := v)\<rparr>
      | Ignored t a \<Rightarrow> s\<lparr>ignored := (ignored s)(t := (ignored s t)(a := v))\<rparr>)"

definition load_locked :: "nat \<Rightarrow> avar \<Rightarrow> atom \<Rightarrow> atom" where
  "load_locked t a s = s\<lparr>old := (old s)(t := tick s a), resv := (resv s)(t := Some (Tick a))\<rparr>"

definition store_cond :: "nat \<Rightarrow> atom_addr \<Rightarrow> nat \<Rightarrow> atom \<Rightarrow> bool \<times> atom" where
  "store_cond t x v s =
     (if resv s t = Some x then (True, (store_addr x v s)\<lparr>resv := (resv (store_addr x v s))(t := None)\<rparr>)
      else (False, s\<lparr>resv := (resv s)(t := None)\<rparr>))"

definition atomic_inc :: "nat \<Rightarrow> avar \<Rightarrow> nat \<Rightarrow> atom_op list \<Rightarrow> atom \<Rightarrow> atom" where
  "atomic_inc t a increment rest s =
     (if pc s t = 0 then (load_locked t a s)\<lparr>pc := (pc s)(t := 1)\<rparr>
      else
        let it = (iters s t + 1) mod 2 ^ 32;
            dummy = (old s t + increment) mod 2 ^ avar_width a;
            (p0, s) = store_cond t (Tick a) dummy (s\<lparr>iters := (iters s)(t := it), pc := (pc s)(t := 0)\<rparr>)
        in if p0
           then s\<lparr>tick_iters := (tick_iters s)(t := (tick_iters s t)(a := sat_add (avar_width a) (tick_iters s t a) it)),
                  iters := (iters s)(t := 0), ops := (ops s)(t := rest)\<rparr>
           else s)"

definition atomic_inc_mismatch :: "nat \<Rightarrow> avar \<Rightarrow> atom_op list \<Rightarrow> atom \<Rightarrow> atom" where
  "atomic_inc_mismatch t a rest s =
     (if pc s t = 0 then (load_locked t a s)\<lparr>pc := (pc s)(t := 1)\<rparr>
      else
        let (pred_true, s) = store_cond t (Ignored t a) 0 (s\<lparr>pc := (pc s)(t := 0)\<rparr>);
            s = s\<lparr>ops := (ops s)(t := rest)\<rparr>
        in if pred_true \<or> ignored s t a \<noteq> EXPECTED_IGNORED then s\<lparr>assert_failed := True\<rparr> else s)"

definition thread_step :: "nat \<Rightarrow> atom \<Rightarrow> atom option" where
  "thread_step t s =
     (case ops s t of
        [] \<Rightarrow> None
      | Atomic_inc a increment # rest \<Rightarrow> Some (atomic_inc t a increment rest s)
      | Atomic_inc_mismatch a # rest \<Rightarrow> Some (atomic_inc_mismatch t a rest s)
      | Set_contention # rest \<Rightarrow>
          Some (s\<lparr>contention := (contention s)(t := body_result (tick_iters s t Tick32) (tick_iters s t Tick64)),
                  ops := (ops s)(t := rest)\<rparr>)
      | Set_done # rest \<Rightarrow> Some (s\<lparr>finished := (finished s)(t := True), ops := (ops s)(t := rest)\<rparr>))"

section \<open>Steps of the main thread\<close>

definition expected_tick_count :: nat where
  "expected_tick_count =
     fold (\<lambda>tid. fold (\<lambda>i n. (n + thread_inc tid i) mod 2 ^ 32) [0..<LOOP_CNT]) [1..<NUM_THREADS + 1] 1"

definition test_result :: "atom \<Rightarrow> int" where
  "test_result s =
     (if \<exists>i \<in> set [1..<NUM_THREADS + 1]. contention s i = 0 then - 1
      else of_bool (tick s Tick32 \<noteq> expected_tick_count) + of_bool (tick s Tick64 \<noteq> expected_tick_count))"

text \<open>
  The main thread in \<open>run_test\<close> after the start of the threads: \<open>all_done\<close> reads one flag a step.
\<close>

definition main_step :: "atom \<Rightarrow> atom option" where
  "main_step s =
     (case main_at s of
        Poll i \<Rightarrow> Some (if i > NUM_THREADS then s\<lparr>main_at := Join\<rparr>
                       else if finished s i then s\<lparr>main_at := Poll (i + 1)\<rparr> else s\<lparr>main_at := Assert32\<rparr>)
      | Assert32 \<Rightarrow> Some (if prev s Tick32 \<le> tick s Tick32 then s\<lparr>main_at := Assert64\<rparr>
                         else s\<lparr>main_at := Failed, assert_failed := True\<rparr>)
      | Assert64 \<Rightarrow> Some (if prev s Tick64 \<le> tick s Tick64 then s\<lparr>main_at := Prev32\<rparr>
                         else s\<lparr>main_at := Failed, assert_failed := True\<rparr>)
      | Prev32 \<Rightarrow> Some (s\<lparr>prev := (prev s)(Tick32 := tick s Tick32), main_at := Prev64\<rparr>)
      | Prev64 \<Rightarrow> Some (s\<lparr>prev := (prev s)(Tick64 := tick s Tick64), main_at := Poll 1\<rparr>)
      | Join \<Rightarrow> if \<forall>t \<in> set [1..<NUM_THREADS + 1]. ops s t = []
                then Some (s\<lparr>main_at := Returned (test_result s)\<rparr>) else None
      | Returned r \<Rightarrow> None
      | Failed \<Rightarrow> None)"

text \<open>A step of hardware thread \<open>t\<close>; \<open>main\<close> and \<open>run_test\<close> run on thread 0.  An assertion that fails stops the program.\<close>

inductive atom_step :: "nat \<Rightarrow> atom \<Rightarrow> atom \<Rightarrow> bool" where
  by_thread: "0 < t \<Longrightarrow> t \<le> NUM_THREADS \<Longrightarrow> \<not> assert_failed s \<Longrightarrow> thread_step t s = Some s' \<Longrightarrow> atom_step t s s'"
| by_main: "\<not> assert_failed s \<Longrightarrow> main_step s = Some s' \<Longrightarrow> atom_step 0 s s'"

inductive atom_run :: "atom \<Rightarrow> nat list \<Rightarrow> atom \<Rightarrow> bool" where
  atom_run_nil: "atom_run s [] s"
| atom_run_snoc: "atom_run s ts s' \<Longrightarrow> atom_step t s' s'' \<Longrightarrow> atom_run s (ts @ [t]) s''"

text \<open>
  The states in which \<open>run_test\<close> has started the threads: the counters, the flags and the local variables of the threads
  are initialised, the main thread is about to read the counters, everything else has any value.
\<close>

definition run_test_start :: "atom \<Rightarrow> bool" where
  "run_test_start s \<longleftrightarrow>
     (\<forall>a. tick s a = 1) \<and> (\<forall>t a. ignored s t a = EXPECTED_IGNORED) \<and>
     (\<forall>t. ops s t = (if 1 \<le> t \<and> t \<le> NUM_THREADS then my_thread t else []) \<and> pc s t = 0 \<and> iters s t = 0 \<and>
          (\<forall>a. tick_iters s t a = 0) \<and> (1 \<le> t \<and> t \<le> NUM_THREADS \<longrightarrow> \<not> finished s t)) \<and>
     main_at s = Prev32 \<and> \<not> assert_failed s"

definition NUM_RETRIES :: nat where "NUM_RETRIES = 4"

text \<open>The loop of \<open>main\<close> over the results of its tries; \<open>None\<close> when there are not enough of them.\<close>

fun retry_loop :: "nat \<Rightarrow> int list \<Rightarrow> int option" where
  "retry_loop n [] = None"
| "retry_loop n (r # rs) = (if r \<noteq> - 1 \<or> n \<le> 1 then Some r else retry_loop (n - 1) rs)"

definition atomics_main :: "int list \<Rightarrow> (int \<times> string) option" where
  "atomics_main rs = map_option (\<lambda>err. (err, if err \<noteq> 0 then ''FAIL'' else ''PASS'')) (retry_loop NUM_RETRIES rs)"

section \<open>Cases of a thread step\<close>

lemmas thread_step_defs = thread_step_def atomic_inc_def atomic_inc_mismatch_def store_cond_def store_addr_def load_locked_def

text \<open>The increments of a counter that a list of operations has left.\<close>

fun inc_of :: "avar \<Rightarrow> atom_op \<Rightarrow> nat" where
  "inc_of a (Atomic_inc b n) = (if a = b then n else 0)"
| "inc_of a x = 0"

definition incs_left :: "avar \<Rightarrow> atom_op list \<Rightarrow> nat" where
  "incs_left a xs = sum_list (map (inc_of a) xs)"

lemma incs_left_simps [simp]:
  "incs_left a [] = 0" "incs_left a (x # xs) = inc_of a x + incs_left a xs" "incs_left a (xs @ ys) = incs_left a xs + incs_left a ys"
  by (simp_all add: incs_left_def)

text \<open>The cases of a thread step, with all that the invariants read of the state.\<close>

inductive thread_case :: "nat \<Rightarrow> atom \<Rightarrow> atom \<Rightarrow> bool" for t s s' where
  load: "ops s t = x # rest \<Longrightarrow> x = Atomic_inc_mismatch a \<or> x = Atomic_inc a n \<Longrightarrow> pc s t = 0 \<Longrightarrow> tick s' = tick s \<Longrightarrow>
    ops s' = ops s \<Longrightarrow> pc s' = (pc s)(t := 1) \<Longrightarrow> resv s' = (resv s)(t := Some (Tick a)) \<Longrightarrow>
    old s' = (old s)(t := tick s a) \<Longrightarrow> finished s' = finished s \<Longrightarrow> thread_case t s s'"
| sc_succeeds: "ops s t = Atomic_inc a n # rest \<Longrightarrow> pc s t \<noteq> 0 \<Longrightarrow> resv s t = Some (Tick a) \<Longrightarrow>
    tick s' = (tick s)(a := (old s t + n) mod 2 ^ avar_width a) \<Longrightarrow> ops s' = (ops s)(t := rest) \<Longrightarrow> pc s' = (pc s)(t := 0) \<Longrightarrow>
    resv s' = (\<lambda>u. if resv s u = Some (Tick a) then None else resv s u)(t := None) \<Longrightarrow> old s' = old s \<Longrightarrow>
    finished s' = finished s \<Longrightarrow> thread_case t s s'"
| sc_fails: "ops s t = Atomic_inc a n # rest \<Longrightarrow> pc s t \<noteq> 0 \<Longrightarrow> resv s t \<noteq> Some (Tick a) \<Longrightarrow> tick s' = tick s \<Longrightarrow>
    ops s' = ops s \<Longrightarrow> pc s' = (pc s)(t := 0) \<Longrightarrow> resv s' = (resv s)(t := None) \<Longrightarrow> old s' = old s \<Longrightarrow>
    finished s' = finished s \<Longrightarrow> thread_case t s s'"
| mismatch: "ops s t = Atomic_inc_mismatch a # rest \<Longrightarrow> pc s t \<noteq> 0 \<Longrightarrow> tick s' = tick s \<Longrightarrow> ops s' = (ops s)(t := rest) \<Longrightarrow>
    pc s' = (pc s)(t := 0) \<Longrightarrow> resv s' = (resv s)(t := None) \<Longrightarrow> old s' = old s \<Longrightarrow> finished s' = finished s \<Longrightarrow> thread_case t s s'"
| returns: "ops s t = x # rest \<Longrightarrow> x \<in> {Set_contention, Set_done} \<Longrightarrow> tick s' = tick s \<Longrightarrow> ops s' = (ops s)(t := rest) \<Longrightarrow>
    pc s' = pc s \<Longrightarrow> resv s' = resv s \<Longrightarrow> old s' = old s \<Longrightarrow>
    finished s' = (if x = Set_done then (finished s)(t := True) else finished s) \<Longrightarrow> thread_case t s s'"

text \<open>A thread that holds a lock address holds that of a counter, with the value the counter has.\<close>

definition resv_inv :: "atom \<Rightarrow> bool" where
  "resv_inv s \<longleftrightarrow>
     (\<forall>t a. pc s t \<noteq> 0 \<and> resv s t = Some (Tick a) \<longrightarrow> old s t = tick s a) \<and>
     (\<forall>t u a. pc s t \<noteq> 0 \<longrightarrow> resv s t \<noteq> Some (Ignored u a))"

definition ignored_inv :: "atom \<Rightarrow> bool" where
  "ignored_inv s \<longleftrightarrow> (\<forall>t a. ignored s t a = EXPECTED_IGNORED)"

lemma resv_inv_not_ignored: "resv_inv s \<Longrightarrow> pc s t \<noteq> 0 \<Longrightarrow> resv s t \<noteq> Some (Ignored u a)"
  by (simp add: resv_inv_def)

lemma resv_inv_old: "resv_inv s \<Longrightarrow> pc s t \<noteq> 0 \<Longrightarrow> resv s t = Some (Tick a) \<Longrightarrow> old s t = tick s a"
  by (simp add: resv_inv_def)

lemma thread_step_case:
  assumes "thread_step t s = Some s'" "resv_inv s"
  shows "thread_case t s s'"
proof (cases "ops s t")
  case (Cons x rest)
  show ?thesis
  proof (cases x)
    case (Atomic_inc a n)
    consider "pc s t = 0" | "pc s t \<noteq> 0" "resv s t = Some (Tick a)" | "pc s t \<noteq> 0" "resv s t \<noteq> Some (Tick a)" by blast
    then show ?thesis
    proof cases
      case 1
      then show ?thesis using assms Cons Atomic_inc by (intro load) (auto simp: thread_step_defs Let_def)
    next
      case 2
      then show ?thesis using assms Cons Atomic_inc by (intro sc_succeeds) (auto simp: thread_step_defs Let_def fun_eq_iff)
    next
      case 3
      then show ?thesis using assms Cons Atomic_inc by (intro sc_fails) (auto simp: thread_step_defs Let_def)
    qed
  next
    case (Atomic_inc_mismatch a)
    show ?thesis
    proof (cases "pc s t = 0")
      case True
      then show ?thesis using assms Cons Atomic_inc_mismatch by (intro load) (auto simp: thread_step_defs Let_def)
    next
      case False
      then show ?thesis using assms Cons Atomic_inc_mismatch resv_inv_not_ignored [OF assms(2) False]
        by (intro mismatch) (auto simp: thread_step_defs Let_def)
    qed
  qed (use assms Cons in \<open>auto intro!: returns simp: thread_step_defs\<close>)
qed (use assms in \<open>simp add: thread_step_def\<close>)

text \<open>What no thread step changes; no assertion of a thread fails.\<close>

lemma thread_step_frame:
  assumes "thread_step t s = Some s'" "resv_inv s" "ignored_inv s"
  shows "ignored s' = ignored s" "assert_failed s' = assert_failed s" "main_at s' = main_at s" "prev s' = prev s"
proof -
  have "pc s t \<noteq> 0 \<Longrightarrow> resv s t \<noteq> Some (Ignored t a)" for a using resv_inv_not_ignored [OF assms(2)] .
  then show "ignored s' = ignored s" "assert_failed s' = assert_failed s" "main_at s' = main_at s" "prev s' = prev s"
    using assms(1, 3)
    by (auto simp: thread_step_defs ignored_inv_def Let_def split: list.splits atom_op.splits if_splits)
qed

lemma watch_frame:
  assumes "main_step s = Some s'"
  shows "ignored s' = ignored s" "tick s' = tick s" "ops s' = ops s" "pc s' = pc s" "resv s' = resv s" "old s' = old s"
    "finished s' = finished s" "contention s' = contention s"
  using assms by (auto simp: main_step_def split: main_pc.splits if_splits)

lemma main_step_inv: "main_step s = Some s' \<Longrightarrow> resv_inv s \<Longrightarrow> resv_inv s'" "main_step s = Some s' \<Longrightarrow> ignored_inv s \<Longrightarrow> ignored_inv s'"
  by (simp_all add: resv_inv_def ignored_inv_def watch_frame)

lemma thread_step_resv: "thread_step t s = Some s' \<Longrightarrow> resv_inv s \<Longrightarrow> resv_inv s'"
  by (frule (1) thread_step_case, erule thread_case.cases) (auto simp: resv_inv_def)

section \<open>No increment is lost\<close>

text \<open>The increments of the threads sum up to the count \<open>run_test\<close> expects, far below \<open>2 ^ 32\<close>.\<close>

lemma sum_mod_5: "sum_list (map (\<lambda>i. c * (i mod 5)) [0..<5 * n]) = 10 * c * (n :: nat)"
proof (induction n)
  case (Suc n)
  have "[5 * n..<5 * n + 5] = [5 * n, 5 * n + 1, 5 * n + 2, 5 * n + 3, 5 * n + 4]" by (simp add: upt_conv_Cons numeral_eq_Suc)
  then have "[0..<5 * Suc n] = [0..<5 * n] @ [5 * n, 5 * n + 1, 5 * n + 2, 5 * n + 3, 5 * n + 4]"
    using upt_add_eq_append [of 0 "5 * n" 5] by (simp add: add.commute)
  moreover have "(5 * n + 1) mod 5 = 1" "(5 * n + 2) mod 5 = 2" "(5 * n + 3) mod 5 = 3" "(5 * n + 4) mod 5 = 4" by presburger+
  ultimately show ?case using Suc by (simp only: map_append sum_list_append) (simp add: algebra_simps)
qed simp

lemma fold_add_mod: "fold (\<lambda>i n. (n + f i) mod m) xs (k mod m) = (k + sum_list (map f xs)) mod (m :: nat)"
  by (induction xs arbitrary: k) (simp_all add: mod_simps add.assoc)

lemma sum_thread_inc: "sum_list (map (thread_inc tid) [0..<LOOP_CNT]) = 20000 * tid"
  using sum_mod_5 [of tid 2000] by (simp add: LOOP_CNT_def thread_inc_def [abs_def])

lemma expected_tick_count_value: "expected_tick_count = 60001"
proof -
  have "fold (\<lambda>i n. (n + thread_inc tid i) mod 2 ^ 32) [0..<LOOP_CNT] k = (k + 20000 * tid) mod 2 ^ 32" if "k < 2 ^ 32" for tid k
    using fold_add_mod [where f = "thread_inc tid" and m = "2 ^ 32" and xs = "[0..<LOOP_CNT]" and k = k] that by (simp add: sum_thread_inc)
  moreover have "[1..<NUM_THREADS + 1] = [1, 2]" by (simp add: NUM_THREADS_def upt_rec)
  ultimately show ?thesis by (simp add: expected_tick_count_def)
qed

lemma incs_left_concat: "incs_left a (concat xss) = sum_list (map (incs_left a) xss)"
  by (induction xss) simp_all

lemma incs_left_my_thread: "incs_left a (my_thread tid) = 20000 * tid"
proof -
  have "incs_left a [Atomic_inc Tick32 n, Atomic_inc Tick64 n, Atomic_inc_mismatch Tick32, Atomic_inc_mismatch Tick64] = n" for n
    by (cases a) simp_all
  then show ?thesis by (simp add: my_thread_def thread_body_def incs_left_concat comp_def sum_thread_inc del: incs_left_simps(2))
    (simp add: sum_thread_inc [unfolded LOOP_CNT_def])
qed

definition counter_inv :: "atom \<Rightarrow> bool" where
  "counter_inv s \<longleftrightarrow> (\<forall>a. tick s a + (\<Sum>t \<in> {1..NUM_THREADS}. incs_left a (ops s t)) = expected_tick_count)"

lemma sum_ops_upd:
  assumes "t \<in> {1..NUM_THREADS}"
  shows "(\<Sum>u \<in> {1..NUM_THREADS}. f (if u = t then x else g u)) + f (g t) = (\<Sum>u \<in> {1..NUM_THREADS}. f (g u)) + (f x :: nat)"
proof -
  have "(\<Sum>u \<in> {1..NUM_THREADS} - {t}. f (if u = t then x else g u)) = (\<Sum>u \<in> {1..NUM_THREADS} - {t}. f (g u))"
    by (rule sum.cong) auto
  then show ?thesis using assms by (simp add: sum.remove [where x = t])
qed

lemma incs_left_pop:
  assumes "t \<in> {1..NUM_THREADS}" "ops s t = x # rest"
  shows "(\<Sum>u \<in> {1..NUM_THREADS}. incs_left c (((ops s)(t := rest)) u)) + inc_of c x =
    (\<Sum>u \<in> {1..NUM_THREADS}. incs_left c (ops s u))"
  using sum_ops_upd [OF assms(1), of "incs_left c" rest "ops s"] by (simp add: assms(2) fun_upd_def)

lemma counter_inv_pop:
  assumes "t \<in> {1..NUM_THREADS}" "ops s t = x # rest" "\<forall>a. inc_of a x = 0" "ops s' = (ops s)(t := rest)" "tick s' = tick s"
    "counter_inv s"
  shows "counter_inv s'"
  using assms(3, 6) incs_left_pop [OF assms(1, 2)] by (simp add: counter_inv_def assms(4, 5))

lemma thread_step_counter:
  assumes "thread_step t s = Some s'" "t \<in> {1..NUM_THREADS}" "resv_inv s" "counter_inv s"
  shows "counter_inv s' \<and> tick s a \<le> tick s' a"
  using thread_step_case [OF assms(1, 3)]
proof cases
  case (sc_succeeds b n rest)
  have old: "old s t = tick s b" using assms(3) sc_succeeds(2, 3) by (rule resv_inv_old)
  have sum: "(\<Sum>u \<in> {1..NUM_THREADS}. incs_left c (ops s' u)) + inc_of c (Atomic_inc b n) =
      (\<Sum>u \<in> {1..NUM_THREADS}. incs_left c (ops s u))" for c
    using incs_left_pop [OF assms(2) sc_succeeds(1)] by (simp add: sc_succeeds(5))
  have cnt: "tick s c + (\<Sum>u \<in> {1..NUM_THREADS}. incs_left c (ops s u)) = 60001" for c
    using assms(4) by (simp add: counter_inv_def expected_tick_count_value)
  have "tick s b + n \<le> 60001" using sum [of b] cnt [of b] by simp
  moreover have "(60001 :: nat) < 2 ^ avar_width b" by (cases b) simp_all
  ultimately have tick': "tick s' = (tick s)(b := tick s b + n)" using sc_succeeds(4) old by simp
  have "tick s' c + (\<Sum>u \<in> {1..NUM_THREADS}. incs_left c (ops s' u)) = expected_tick_count" for c
    using sum [of c] cnt [of c] by (simp add: tick' expected_tick_count_value split: if_splits)
  then show ?thesis by (simp add: counter_inv_def tick')
next
  case (mismatch b rest)
  then show ?thesis using counter_inv_pop [OF assms(2) mismatch(1) _ mismatch(4, 3) assms(4)] by simp
next
  case (returns x rest)
  then show ?thesis using counter_inv_pop [OF assms(2) returns(1) _ returns(4, 3) assms(4)] by auto
qed (use assms(4) in \<open>simp_all add: counter_inv_def\<close>)

section \<open>The main thread\<close>

definition ops_inv :: "atom \<Rightarrow> bool" where
  "ops_inv s \<longleftrightarrow> (\<forall>t \<in> {1..NUM_THREADS}. suffix (ops s t) (my_thread t) \<and> (finished s t \<longleftrightarrow> ops s t = []))"

definition main_inv :: "atom \<Rightarrow> bool" where
  "main_inv s \<longleftrightarrow>
     (case main_at s of
        Poll i \<Rightarrow> 0 < i \<and> (\<forall>t \<in> {1..<i}. finished s t) \<and> (\<forall>a. prev s a \<le> tick s a)
      | Assert32 \<Rightarrow> \<forall>a. prev s a \<le> tick s a
      | Assert64 \<Rightarrow> \<forall>a. prev s a \<le> tick s a
      | Prev32 \<Rightarrow> True
      | Prev64 \<Rightarrow> prev s Tick32 \<le> tick s Tick32
      | Join \<Rightarrow> \<forall>t \<in> {1..NUM_THREADS}. finished s t
      | Returned r \<Rightarrow> (\<forall>t \<in> {1..NUM_THREADS}. ops s t = []) \<and> r = test_result s
      | Failed \<Rightarrow> False)"

definition atom_inv :: "atom \<Rightarrow> bool" where
  "atom_inv s \<longleftrightarrow> resv_inv s \<and> ignored_inv s \<and> counter_inv s \<and> ops_inv s \<and> main_inv s \<and> \<not> assert_failed s"

lemma Set_done_last: "suffix (Set_done # rest) (my_thread t) \<Longrightarrow> rest = []"
proof -
  assume "suffix (Set_done # rest) (my_thread t)"
  then obtain ys where "(thread_body t @ [Set_contention]) @ [Set_done] = ys @ Set_done # rest"
    by (auto simp: suffix_def my_thread_def)
  moreover have "Set_done \<notin> set (thread_body t @ [Set_contention])" by (auto simp: thread_body_def)
  ultimately show "rest = []" by (auto simp: append_eq_append_conv2 append_eq_Cons_conv Cons_eq_append_conv)
qed

lemma last_Set_done: "suffix [x] (my_thread t) \<Longrightarrow> x = Set_done"
  by (auto simp: suffix_def my_thread_def)

lemma suffix_tl: "suffix (x # xs) ys \<Longrightarrow> suffix xs ys"
  by (meson suffix_ConsI suffix_order.trans suffix_order.order_refl)

lemma ops_invD: "ops_inv s \<Longrightarrow> t \<in> {1..NUM_THREADS} \<Longrightarrow> ops s t = xs \<Longrightarrow> suffix xs (my_thread t)"
  unfolding ops_inv_def by blast

lemma ops_inv_pop:
  assumes "ops s t = x # rest" "ops s' = (ops s)(t := rest)" "finished s' = finished s" "ops_inv s" "t \<in> {1..NUM_THREADS}"
    "x \<noteq> Set_done"
  shows "ops_inv s'"
  using assms(4, 6) last_Set_done [of x t] ops_invD [OF assms(4, 5, 1)] ops_invD [OF assms(4, 5, 1), THEN suffix_tl] assms(1) by (auto simp: ops_inv_def assms(2, 3))

lemma thread_step_ops:
  assumes "thread_step t s = Some s'" "t \<in> {1..NUM_THREADS}" "resv_inv s" "ops_inv s"
  shows "ops_inv s'" "finished s u \<Longrightarrow> finished s' u"
proof -
  have "ops_inv s' \<and> (finished s u \<longrightarrow> finished s' u)"
    using thread_step_case [OF assms(1, 3)]
  proof cases
    case (returns x rest)
    have suf: "suffix (x # rest) (my_thread t)" using ops_invD [OF assms(4, 2) returns(1)] .
    show ?thesis
    proof (cases "x = Set_done")
      case True
      then have "rest = []" using suf Set_done_last by blast
      then show ?thesis using assms(4) returns True by (auto simp: ops_inv_def)
    qed (use ops_inv_pop [OF returns(1, 4) _ assms(4, 2)] returns in simp)
  qed (use assms(2, 4) ops_inv_pop [OF _ _ _ assms(4, 2)] in \<open>auto simp: ops_inv_def\<close>)
  then show "ops_inv s'" "finished s u \<Longrightarrow> finished s' u" by simp_all
qed

lemma thread_step_main_inv:
  assumes "thread_step t s = Some s'" "t \<in> {1..NUM_THREADS}" "atom_inv s"
  shows "main_inv s'"
proof -
  have inv: "resv_inv s" "ignored_inv s" "counter_inv s" "ops_inv s" "main_inv s" using assms(3) by (simp_all add: atom_inv_def)
  have mono: "prev s a \<le> tick s a \<Longrightarrow> prev s a \<le> tick s' a" for a
    using thread_step_counter [OF assms(1, 2) inv(1, 3)] le_trans by blast
  have "main_at s \<noteq> Returned r" for r
  proof
    assume "main_at s = Returned r"
    then have "ops s t = []" using inv(5) assms(2) by (simp add: main_inv_def)
    then show False using assms(1) by (simp add: thread_step_def)
  qed
  then show ?thesis
    using inv(5) mono thread_step_ops(2) [OF assms(1, 2) inv(1, 4)]
    by (simp add: main_inv_def thread_step_frame [OF assms(1) inv(1, 2)] split: main_pc.splits)
qed

lemma test_result_main_at [simp]: "test_result (s\<lparr>main_at := m\<rparr>) = test_result s"
  by (simp add: test_result_def)

lemma main_step_main_inv:
  assumes "main_step s = Some s'" "main_inv s" "\<not> assert_failed s"
  shows "main_inv s' \<and> \<not> assert_failed s'"
proof (cases "main_at s")
  case Prev64
  then have "(\<forall>a. prev s' a \<le> tick s' a) \<and> main_at s' = Poll 1 \<and> \<not> assert_failed s'"
    using assms by (auto simp: main_step_def main_inv_def intro: avar.exhaust)
      (metis avar.exhaust order_refl)+
  then show ?thesis by (simp add: main_inv_def)
next
  case (Poll i)
  then show ?thesis using assms by (auto simp: main_step_def main_inv_def less_Suc_eq split: if_splits)
next
  case Join
  then have "\<forall>t \<in> {1..NUM_THREADS}. ops s t = []" "s' = s\<lparr>main_at := Returned (test_result s)\<rparr>"
    using assms(1) by (auto simp: main_step_def split: if_splits)
  then show ?thesis using assms(3) by (simp add: main_inv_def)
qed (use assms in \<open>auto simp: main_step_def main_inv_def split: if_splits\<close>)

lemma atom_step_inv:
  assumes "atom_step t s s'" "atom_inv s"
  shows "atom_inv s'"
  using assms(1)
proof cases
  case by_thread
  have inv: "resv_inv s" "ignored_inv s" "counter_inv s" "ops_inv s" using assms(2) by (simp_all add: atom_inv_def)
  have t: "t \<in> {1..NUM_THREADS}" using by_thread by simp
  show ?thesis
    using inv by_thread thread_step_resv [OF by_thread(4) inv(1)] thread_step_counter [OF by_thread(4) t inv(1, 3)]
      thread_step_ops(1) [OF by_thread(4) t inv(1, 4)] thread_step_main_inv [OF by_thread(4) t assms(2)]
    by (simp add: atom_inv_def ignored_inv_def thread_step_frame [OF by_thread(4) inv(1, 2)])
next
  case by_main
  then show ?thesis using assms(2) main_step_main_inv [OF by_main(3)] main_step_inv [OF by_main(3)]
    by (simp add: atom_inv_def counter_inv_def ops_inv_def watch_frame [OF by_main(3)])
qed

lemma my_thread_nonempty [simp]: "my_thread t \<noteq> []"
  by (simp add: my_thread_def)

lemma run_test_start_inv: "run_test_start s \<Longrightarrow> atom_inv s"
  by (auto simp: run_test_start_def atom_inv_def resv_inv_def ignored_inv_def counter_inv_def ops_inv_def main_inv_def
      incs_left_my_thread expected_tick_count_value NUM_THREADS_def numeral_2_eq_2)

lemma atom_run_inv: "atom_run s ts s' \<Longrightarrow> run_test_start s \<Longrightarrow> atom_inv s'"
  by (induction rule: atom_run.induct) (auto intro: atom_step_inv run_test_start_inv)

section \<open>Termination\<close>

text \<open>
  The steps a thread may still need.  A failed store-conditional is paid for by the successful one that ended its
  reservation; a load and a store-conditional repeat.
\<close>

fun op_cost :: "atom_op \<Rightarrow> nat" where
  "op_cost (Atomic_inc a n) = 4"
| "op_cost (Atomic_inc_mismatch a) = 2"
| "op_cost x = 3"

definition ops_cost :: "atom_op list \<Rightarrow> nat" where
  "ops_cost xs = sum_list (map op_cost xs)"

lemma ops_cost_simps [simp]:
  "ops_cost [] = 0" "ops_cost (x # xs) = op_cost x + ops_cost xs" "ops_cost (xs @ ys) = ops_cost xs + ops_cost ys"
  by (simp_all add: ops_cost_def)

definition lock_lost :: "atom \<Rightarrow> nat \<Rightarrow> bool" where
  "lock_lost s t \<longleftrightarrow> (case ops s t of Atomic_inc a n # rest \<Rightarrow> resv s t \<noteq> Some (Tick a) | _ \<Rightarrow> False)"

definition thread_fuel :: "atom \<Rightarrow> nat \<Rightarrow> nat" where
  "thread_fuel s t = ops_cost (ops s t) + (if pc s t = 0 then 1 else if lock_lost s t then 2 else 0)"

definition atom_fuel :: "atom \<Rightarrow> nat" where
  "atom_fuel s = (\<Sum>t \<in> {1..NUM_THREADS}. thread_fuel s t)"

lemma atom_fuel_split: "t \<in> {1..NUM_THREADS} \<Longrightarrow> atom_fuel s = thread_fuel s t + thread_fuel s (3 - t)"
proof -
  assume "t \<in> {1..NUM_THREADS}"
  then have "t = 1 \<or> t = 2" by (auto simp: NUM_THREADS_def)
  then show ?thesis by (auto simp: atom_fuel_def NUM_THREADS_def numeral_2_eq_2)
qed

lemma thread_fuel_cong:
  "ops s' u = ops s u \<Longrightarrow> pc s' u = pc s u \<Longrightarrow> resv s' u = resv s u \<Longrightarrow> thread_fuel s' u = thread_fuel s u"
  by (simp add: thread_fuel_def lock_lost_def split: list.split atom_op.split)

lemma thread_step_fuel:
  assumes "thread_step t s = Some s'" "t \<in> {1..NUM_THREADS}" "resv_inv s"
  shows "atom_fuel s' < atom_fuel s"
proof -
  have ne: "3 - t \<noteq> t" using assms(2) by (simp add: NUM_THREADS_def) presburger
  from thread_step_case [OF assms(1, 3)]
  have "thread_fuel s' t + thread_fuel s' (3 - t) < thread_fuel s t + thread_fuel s (3 - t)"
  proof cases
    case (sc_succeeds a n rest)
    have "thread_fuel s' (3 - t) \<le> thread_fuel s (3 - t) + 2"
      using ne by (simp add: sc_succeeds(5, 6) thread_fuel_def)
    moreover have "thread_fuel s' t + 3 = thread_fuel s t" using sc_succeeds by (simp add: thread_fuel_def lock_lost_def)
    ultimately show ?thesis by linarith
  next
    case (load x rest a n)
    have "thread_fuel s' (3 - t) = thread_fuel s (3 - t)" using ne load by (intro thread_fuel_cong) simp_all
    then show ?thesis using load by (auto simp: thread_fuel_def lock_lost_def)
  next
    case (sc_fails a n rest)
    have "thread_fuel s' (3 - t) = thread_fuel s (3 - t)" using ne sc_fails by (intro thread_fuel_cong) simp_all
    then show ?thesis using sc_fails by (simp add: thread_fuel_def lock_lost_def)
  next
    case (mismatch a rest)
    have "thread_fuel s' (3 - t) = thread_fuel s (3 - t)" using ne mismatch by (intro thread_fuel_cong) simp_all
    then show ?thesis using mismatch by (simp add: thread_fuel_def lock_lost_def)
  next
    case (returns x rest)
    have "thread_fuel s' (3 - t) = thread_fuel s (3 - t)" using ne returns by (intro thread_fuel_cong) simp_all
    then show ?thesis using returns by (auto simp: thread_fuel_def lock_lost_def)
  qed
  then show ?thesis by (simp add: atom_fuel_split [OF assms(2)])
qed

lemma atom_step_fuel:
  assumes "atom_step t s s'" "atom_inv s"
  shows "atom_fuel s' + of_bool (t \<noteq> 0) \<le> atom_fuel s"
  using assms(1)
proof cases
  case by_thread
  then show ?thesis using thread_step_fuel [OF by_thread(4)] assms(2) by (simp add: atom_inv_def)
next
  case by_main
  then have "thread_fuel s' = thread_fuel s" by (intro ext thread_fuel_cong) (simp_all add: watch_frame)
  then show ?thesis using by_main by (simp add: atom_fuel_def)
qed

lemma ops_cost_concat: "ops_cost (concat xss) = sum_list (map ops_cost xss)"
  by (induction xss) simp_all

lemma run_test_start_fuel: "run_test_start s \<Longrightarrow> atom_fuel s = 240014"
proof -
  assume "run_test_start s"
  then have "t \<in> {1..NUM_THREADS} \<Longrightarrow> thread_fuel s t = ops_cost (my_thread t) + 1" for t
    by (simp add: run_test_start_def thread_fuel_def)
  moreover have "ops_cost (my_thread t) = 120006" for t
    by (simp add: my_thread_def thread_body_def ops_cost_concat comp_def sum_list_triv LOOP_CNT_def)
  ultimately show ?thesis by (simp add: atom_fuel_def NUM_THREADS_def)
qed

lemma atom_run_fuel:
  "atom_run s ts s' \<Longrightarrow> run_test_start s \<Longrightarrow> length (filter (\<lambda>t. t \<noteq> 0) ts) + atom_fuel s' \<le> 240014"
proof (induction rule: atom_run.induct)
  case (atom_run_nil s)
  then show ?case by (simp add: run_test_start_fuel)
next
  case (atom_run_snoc s ts s' t s'')
  then show ?case using atom_step_fuel [OF atom_run_snoc(2) atom_run_inv [OF atom_run_snoc(1, 4)]] by (auto split: if_splits)
qed

text \<open>Once the threads have finished, every step of the main thread brings it closer to its return.\<close>

fun main_rank :: "main_pc \<Rightarrow> nat" where
  "main_rank (Poll i) = 2 + (NUM_THREADS + 1 - i)"
| "main_rank Assert32 = NUM_THREADS + 6"
| "main_rank Assert64 = NUM_THREADS + 5"
| "main_rank Prev32 = NUM_THREADS + 4"
| "main_rank Prev64 = NUM_THREADS + 3"
| "main_rank Join = 1"
| "main_rank x = 0"

definition threads_done :: "atom \<Rightarrow> bool" where
  "threads_done s \<longleftrightarrow> (\<forall>t \<in> {1..NUM_THREADS}. ops s t = [])"

lemma main_step_rank:
  assumes "main_step s = Some s'" "atom_inv s" "threads_done s"
  shows "main_rank (main_at s') < main_rank (main_at s)"
proof -
  have "i \<in> {1..NUM_THREADS} \<Longrightarrow> finished s i" for i using assms(2, 3) by (simp add: atom_inv_def ops_inv_def threads_done_def)
  then show ?thesis using assms(1, 2)
    by (auto simp: main_step_def atom_inv_def main_inv_def split: main_pc.splits if_splits)
qed

lemma main_step_enabled:
  assumes "atom_inv s" "\<forall>r. main_at s \<noteq> Returned r"
  obtains s' where "atom_step 0 s s'"
proof -
  have "\<exists>s'. main_step s = Some s'"
    using assms by (cases "main_at s") (auto simp: main_step_def atom_inv_def main_inv_def ops_inv_def)
  then show thesis using assms(1) that by (auto simp: atom_inv_def intro: by_main)
qed

lemma thread_step_enabled:
  assumes "atom_inv s" "t \<in> {1..NUM_THREADS}" "ops s t \<noteq> []"
  obtains s' where "atom_step t s s'"
proof -
  have "\<exists>s'. thread_step t s = Some s'" using assms(3) by (simp add: thread_step_def split: list.split atom_op.split)
  then obtain s' where "thread_step t s = Some s'" by blast
  then show thesis using assms(1, 2) that [of s'] by_thread [of t s s'] by (simp add: atom_inv_def)
qed

definition atom_measure :: "atom \<Rightarrow> nat" where
  "atom_measure s = atom_fuel s + (if threads_done s then main_rank (main_at s) else NUM_THREADS + 6)"

lemma main_rank_le: "main_rank m \<le> NUM_THREADS + 6"
  by (cases m) auto

text \<open>As long as \<open>run_test\<close> has not returned there is a step that brings it closer to its return.\<close>

lemma measure_step:
  assumes "atom_inv s" "\<forall>r. main_at s \<noteq> Returned r"
  obtains t s' where "atom_step t s s'" "atom_measure s' < atom_measure s"
proof (cases "threads_done s")
  case True
  obtain s' where s': "atom_step 0 s s'" using assms by (rule main_step_enabled)
  then have main: "main_step s = Some s'" by (auto elim: atom_step.cases)
  have "threads_done s'" using True by (simp add: threads_done_def watch_frame [OF main])
  then show thesis using that [OF s'] main_step_rank [OF main assms(1) True] atom_step_fuel [OF s' assms(1)] True
    by (simp add: atom_measure_def)
next
  case False
  then obtain t where t: "t \<in> {1..NUM_THREADS}" "ops s t \<noteq> []" by (auto simp: threads_done_def)
  obtain s' where s': "atom_step t s s'" using assms(1) t by (rule thread_step_enabled)
  have "atom_fuel s' < atom_fuel s" using atom_step_fuel [OF s' assms(1)] t(1) by simp
  then have "atom_measure s' < atom_measure s"
    using main_rank_le [of "main_at s'"] False by (simp add: atom_measure_def)
  then show thesis using that [OF s'] by simp
qed

lemma atom_run_Cons: "atom_run s' ts s'' \<Longrightarrow> atom_step t s s' \<Longrightarrow> atom_run s (t # ts) s''"
proof (induction rule: atom_run.induct)
  case (atom_run_nil s')
  then show ?case using atom_run.atom_run_snoc [OF atom_run.atom_run_nil] by fastforce
next
  case (atom_run_snoc s1 ts s2 u s3)
  then show ?case using atom_run.atom_run_snoc [of s "t # ts"] by simp
qed

lemma atom_inv_returns: "atom_inv s \<Longrightarrow> \<exists>ts s' r. atom_run s ts s' \<and> main_at s' = Returned r"
proof (induction "atom_measure s" arbitrary: s rule: less_induct)
  case less
  show ?case
  proof (cases "\<exists>r. main_at s = Returned r")
    case True
    then show ?thesis using atom_run_nil by blast
  next
    case False
    then have "\<forall>r. main_at s \<noteq> Returned r" by blast
    with less.prems obtain t s' where s': "atom_step t s s'" "atom_measure s' < atom_measure s" by (rule measure_step)
    then have "atom_inv s'" using less.prems by (blast intro: atom_step_inv)
    with less.hyps [OF s'(2)] show ?thesis using s'(1) atom_run_Cons by blast
  qed
qed

section \<open>The sample\<close>

text \<open>Every thread runs alone until its end, the main thread after both; the samples the witnesses use.\<close>

definition sample :: atom where
  "sample = \<lparr>tick = (\<lambda>a. 1), ignored = (\<lambda>t a. EXPECTED_IGNORED), resv = (\<lambda>t. None),
     ops = (\<lambda>t. if 1 \<le> t \<and> t \<le> NUM_THREADS then my_thread t else []), pc = (\<lambda>t. 0), old = (\<lambda>t. 0), iters = (\<lambda>t. 0),
     tick_iters = (\<lambda>t a. 0), contention = (\<lambda>t. 0), finished = (\<lambda>t. False), prev = (\<lambda>a. 1), main_at = Prev32,
     assert_failed = False\<rparr>"

lemma sample_start: "run_test_start sample"
  by (simp add: run_test_start_def sample_def)

section \<open>Properties\<close>

lemma test_result_correct: "counter_inv s \<Longrightarrow> threads_done s \<Longrightarrow> (\<forall>a. tick s a = expected_tick_count) \<and>
    test_result s = (if \<exists>i \<in> {1..NUM_THREADS}. contention s i = 0 then - 1 else 0)"
proof -
  have "set [1..<NUM_THREADS + 1] = {1..NUM_THREADS}" by auto
  moreover assume "counter_inv s" "threads_done s"
  ultimately show ?thesis by (simp only: test_result_def) (simp add: counter_inv_def threads_done_def)
qed

text \<open>C19: In every state a run of \<open>run_test\<close> reaches, whatever the interleaving of the threads, no assertion has failed: no
  store-conditional with the wrong address succeeds, the variables \<open>ignored\<close> keep their value, and the counters never
  decrease.  When \<open>run_test\<close> has returned, no increment has been lost, both counters have the expected value, and it has returned
  \<open>RETRY\<close> when a thread met no contention and 0 otherwise.\<close>

theorem run_test_correct:
  assumes "run_test_start s" "atom_run s ts s'"
  shows "\<not> assert_failed s' \<and> (\<forall>t a. ignored s' t a = EXPECTED_IGNORED) \<and> (\<forall>a. tick s' a \<le> expected_tick_count) \<and>
    (case main_at s' of
       Returned r \<Rightarrow> (\<forall>a. tick s' a = expected_tick_count) \<and>
         r = (if \<exists>i \<in> {1..NUM_THREADS}. contention s' i = 0 then - 1 else 0)
     | Failed \<Rightarrow> False | _ \<Rightarrow> True)"
proof -
  have inv: "atom_inv s'" using assms(2, 1) by (rule atom_run_inv)
  then have "tick s' a \<le> expected_tick_count" for a by (metis atom_inv_def counter_inv_def le_add1)
  moreover have "main_at s' = Returned r \<Longrightarrow> (\<forall>a. tick s' a = expected_tick_count) \<and>
      r = (if \<exists>i \<in> {1..NUM_THREADS}. contention s' i = 0 then - 1 else 0)" for r
    using inv test_result_correct [of s'] by (simp add: atom_inv_def main_inv_def threads_done_def)
  moreover have "main_at s' \<noteq> Failed" using inv by (auto simp: atom_inv_def main_inv_def)
  ultimately show ?thesis using inv by (cases "main_at s'") (auto simp: atom_inv_def ignored_inv_def)
qed

theorem run_test_correct_witness:
  "\<exists>ts s' r. atom_run sample ts s' \<and> main_at s' = Returned r \<and> (\<forall>a. tick s' a = 60001) \<and> \<not> assert_failed s'"
proof -
  obtain ts s' r where s': "atom_run sample ts s'" "main_at s' = Returned r"
    using atom_inv_returns [OF run_test_start_inv [OF sample_start]] by blast
  with run_test_correct [OF sample_start s'(1)] show ?thesis by (auto simp: expected_tick_count_value)
qed

text \<open>C20: The threads of \<open>run_test\<close> take at most 240014 steps in any run: a store-conditional fails only after another thread's
  increment has succeeded.  A state in which no thread can take a step is one in which \<open>run_test\<close> has returned, and from every
  state of a run a return can be reached.\<close>

theorem run_test_terminates:
  assumes "run_test_start s" "atom_run s ts s'"
  shows "length (filter (\<lambda>t. t \<noteq> 0) ts) \<le> 240014 \<and>
    ((\<exists>t s''. atom_step t s' s'') \<or> (\<exists>r. main_at s' = Returned r)) \<and>
    (\<exists>ts' s'' r. atom_run s' ts' s'' \<and> main_at s'' = Returned r)"
proof -
  have inv: "atom_inv s'" using assms(2, 1) by (rule atom_run_inv)
  have "(\<exists>t s''. atom_step t s' s'') \<or> (\<exists>r. main_at s' = Returned r)"
    using main_step_enabled [OF inv] by blast
  then show ?thesis using atom_run_fuel [OF assms(2, 1)] atom_inv_returns [OF inv] by simp
qed

theorem run_test_terminates_witness:
  "(\<exists>t s''. atom_step t sample s'') \<and> (\<exists>ts' s'' r. atom_run sample ts' s'' \<and> main_at s'' = Returned r)"
  using run_test_terminates [OF sample_start atom_run_nil] by (auto simp: sample_def)

section \<open>Infinite executions\<close>

lemma execution_inv:
  assumes "run_test_start (f 0)" "\<And>n. atom_step (l n) (f n) (f (Suc n))"
  shows "atom_inv (f n)"
  by (induction n) (auto intro: run_test_start_inv atom_step_inv assms)

lemma execution_only_main:
  assumes "run_test_start (f 0)" "\<And>n. atom_step (l n) (f n) (f (Suc n))"
  shows "\<exists>n0. \<forall>n \<ge> n0. l n = (0 :: nat)"
proof -
  have step: "atom_fuel (f (Suc n)) + of_bool (l n \<noteq> 0) \<le> atom_fuel (f n)" for n
    using assms(2) execution_inv [OF assms] by (rule atom_step_fuel)
  define m where "m = (LEAST k. \<exists>n. atom_fuel (f n) = k)"
  obtain n0 where n0: "atom_fuel (f n0) = m" using LeastI_ex [of "\<lambda>k. \<exists>n. atom_fuel (f n) = k"] by (auto simp: m_def)
  have least: "m \<le> atom_fuel (f n)" for n unfolding m_def by (rule Least_le) blast
  have "atom_fuel (f n) \<le> m" if "n0 \<le> n" for n
    using that by (induction n rule: dec_induct) (use n0 step in \<open>auto intro: order_trans [OF add_leD1]\<close>)
  then have "l n = 0" if "n0 \<le> n" for n using that step [of n] least [of "Suc n"] by (cases "l n = 0") force+
  then show ?thesis by blast
qed

lemma execution_main_ops:
  assumes "\<And>n. atom_step (l n) (f n) (f (Suc n))" "\<And>n. n0 \<le> n \<Longrightarrow> l n = (0 :: nat)" "n0 \<le> n"
  shows "ops (f n) = ops (f n0)"
  using assms(3)
proof (induction n rule: dec_induct)
  case (step n)
  then have "main_step (f n) = Some (f (Suc n))" using assms(1) [of n] assms(2) [of n] by (auto elim: atom_step.cases)
  then show ?case using step by (simp add: watch_frame)
qed simp

text \<open>C21: An execution of \<open>run_test\<close> without end starves a thread: from some point on a thread that has work to do never takes a step.
  So \<open>run_test\<close> returns under every fair schedule.\<close>

theorem run_test_fair_return:
  assumes "run_test_start (f 0)" "\<And>n. atom_step (l n) (f n) (f (Suc n))"
  shows "\<exists>t \<in> {1..NUM_THREADS}. \<exists>n0. \<forall>n \<ge> n0. l n \<noteq> t \<and> ops (f n) t \<noteq> []"
proof -
  obtain n0 where "\<forall>n \<ge> n0. l n = 0" using execution_only_main [of f l] assms by blast
  then have n0: "l n = 0" if "n0 \<le> n" for n using that by simp
  have same: "ops (f n) = ops (f n0)" if "n0 \<le> n" for n using execution_main_ops [of l f n0, OF assms(2) n0 that] .
  have "\<not> threads_done (f n0)"
  proof
    assume "threads_done (f n0)"
    then have fin: "threads_done (f n)" if "n0 \<le> n" for n using same [OF that] by (simp add: threads_done_def)
    have "main_rank (main_at (f (Suc n))) < main_rank (main_at (f n))" if "n0 \<le> n" for n
    proof -
      have "main_step (f n) = Some (f (Suc n))" using assms(2) [of n] n0 [OF that] by (auto elim: atom_step.cases)
      then show ?thesis using execution_inv [OF assms] fin [OF that] by (rule main_step_rank)
    qed
    then have dec: "main_rank (main_at (f (Suc (n0 + k)))) < main_rank (main_at (f (n0 + k)))" for k by simp
    have "main_rank (main_at (f (n0 + k))) + k \<le> main_rank (main_at (f n0))" for k
      by (induction k) (use dec in \<open>auto simp: Suc_le_eq intro: less_le_trans [OF add_strict_right_mono]\<close>)
    from this [of "Suc (main_rank (main_at (f n0)))"] show False by simp
  qed
  then obtain t where t: "t \<in> {1..NUM_THREADS}" "ops (f n0) t \<noteq> []" by (auto simp: threads_done_def)
  have "l n \<noteq> t \<and> ops (f n) t \<noteq> []" if "n0 \<le> n" for n using t n0 [OF that] same [OF that] by (metis atLeastAtMost_iff not_one_le_zero)
  then show ?thesis using t(1) by blast
qed

text \<open>The main thread polls for ever while no thread is scheduled.\<close>

definition poll_cycle :: "nat \<Rightarrow> atom" where
  "poll_cycle n = sample\<lparr>main_at := [Prev32, Prev64, Poll 1, Assert32, Assert64] ! (n mod 5)\<rparr>"

lemma poll_cycle_step: "atom_step 0 (poll_cycle n) (poll_cycle (Suc n))"
proof -
  have "n mod 5 < 5" by simp
  then have "n mod 5 = 0 \<or> n mod 5 = 1 \<or> n mod 5 = 2 \<or> n mod 5 = 3 \<or> n mod 5 = 4" by linarith
  then have "main_step (poll_cycle n) = Some (poll_cycle (Suc n))"
    by (auto simp: poll_cycle_def sample_def main_step_def NUM_THREADS_def mod_Suc fun_eq_iff)
  then show ?thesis by (intro by_main) (simp add: poll_cycle_def sample_def)
qed

theorem run_test_fair_return_witness:
  "run_test_start (poll_cycle 0) \<and> atom_step 0 (poll_cycle 0) (poll_cycle 1) \<and> (\<exists>t n0. ops (poll_cycle n0) t \<noteq> [])"
  using run_test_fair_return [of poll_cycle "\<lambda>n. 0"] poll_cycle_step poll_cycle_step [of 0] sample_start
  by (simp add: poll_cycle_def sample_def)

section \<open>The retries of main\<close>

lemma retry_loop_result:
  "set rs \<subseteq> {- 1, 0} \<Longrightarrow> n \<le> length rs \<Longrightarrow> 0 < n \<Longrightarrow> retry_loop n rs = Some (if 0 \<in> set (take n rs) then 0 else - 1)"
  by (induction n rs rule: retry_loop.induct) (auto simp: take_Cons')

text \<open>The test passes when one of its four tries meets contention on every thread.\<close>

lemma atomics_main_result:
  "set rs \<subseteq> {- 1, 0} \<Longrightarrow> NUM_RETRIES \<le> length rs \<Longrightarrow>
   atomics_main rs = Some (if 0 \<in> set (take NUM_RETRIES rs) then (0, ''PASS'') else (- 1, ''FAIL''))"
  by (simp add: atomics_main_def retry_loop_result NUM_RETRIES_def)
end
