(* ===== verification/Qtimer.thy ===== *)
theory Qtimer
  imports Hex_Prelude
begin

text \<open>
  The timers: the reads of the 64-bit counter in \<open>include/timer.h\<close>, and the two timer frames and the interrupt
  controller as \<open>include/qtimer.h\<close>, \<open>src/qtimer.c\<close> and \<open>src/qtimer_test.c\<close> program them.  The devices are outside the
  sources: they are the parameters of the operations, with their laws in the locale \<open>timer_device\<close>.
\<close>

section \<open>Reading the counter\<close>

definition QTMR_FREQ :: nat where "QTMR_FREQ = 19200000"

text \<open>The counter as the two halves an instruction reads; \<open>utimer\<close> and the control registers \<open>s57:56\<close> hold the same counter.
  The reads of single registers happen one after the other, at two values of the counter.\<close>

definition join_halves :: "u32 \<Rightarrow> u32 \<Rightarrow> u64" where
  "join_halves timer_high timer_low = push_bit 32 (ucast timer_high) OR ucast timer_low"

definition high_half :: "u64 \<Rightarrow> u32" where "high_half c = ucast (drop_bit 32 c)"
definition low_half :: "u64 \<Rightarrow> u32" where "low_half c = ucast c"

definition utimer_read :: "u64 \<Rightarrow> u64 \<Rightarrow> u64" where
  "utimer_read c1 c2 = (let timer_high = high_half c1; timer_low = low_half c2 in join_halves timer_high timer_low)"

definition utimer_read_pair :: "u64 \<Rightarrow> u64" where
  "utimer_read_pair c = (let timer_low = low_half c; timer_high = high_half c in join_halves timer_high timer_low)"

definition timer_read :: "u64 \<Rightarrow> u64 \<Rightarrow> u64" where
  "timer_read c1 c2 = (let timer_high = high_half c1; timer_low = low_half c2 in join_halves timer_high timer_low)"

definition timer_read_pair :: "u64 \<Rightarrow> u64" where
  "timer_read_pair c = (let timer_low = low_half c; timer_high = high_half c in join_halves timer_high timer_low)"

lemma join_halves_bit:
  "bit (join_halves h l) n \<longleftrightarrow> (if n < 32 then bit l n else bit h (n - 32) \<and> n < 64)"
proof (cases "n < 32")
  case True
  then show ?thesis by (simp add: join_halves_def bit_or_iff bit_push_bit_iff bit_ucast_iff)
next
  case False
  then have "\<not> bit l n" by (auto dest: bit_imp_le_length)
  then show ?thesis using False by (auto simp: join_halves_def bit_or_iff bit_push_bit_iff bit_ucast_iff dest: bit_imp_le_length)
qed

lemma halves_of_join [simp]: "high_half (join_halves h l) = h" "low_half (join_halves h l) = l"
  by (auto simp: bit_eq_iff high_half_def low_half_def bit_ucast_iff bit_drop_bit_eq join_halves_bit dest: bit_imp_le_length)

lemma join_of_halves [simp]: "join_halves (high_half c) (low_half c) = c"
  by (auto simp: bit_eq_iff high_half_def low_half_def bit_ucast_iff bit_drop_bit_eq join_halves_bit dest: bit_imp_le_length)

lemma unat_high_half: "unat (high_half c) = unat c div 2 ^ 32"
proof -
  have lt: "unat c < 2 ^ 64" using unsigned_less [of c, where ?'a = nat] by simp
  then have "unat c div 2 ^ 32 < 2 ^ 32" by (simp add: less_mult_imp_div_less)
  then have "take_bit 32 (drop_bit 32 (unat c)) = unat c div 2 ^ 32" unfolding drop_bit_eq_div by (simp add: take_bit_nat_eq_self)
  then show ?thesis using lt unfolding high_half_def unsigned_ucast_eq unsigned_drop_bit_eq by (simp add: take_bit_nat_eq_self)
qed

lemma unat_low_half: "unat (low_half c) = unat c mod 2 ^ 32"
  by (simp add: low_half_def unsigned_ucast_eq take_bit_eq_mod)

lemma unat_join_halves: "unat (join_halves h l) = unat h * 2 ^ 32 + unat l"
proof -
  have "unat (join_halves h l) = unat (join_halves h l) div 2 ^ 32 * 2 ^ 32 + unat (join_halves h l) mod 2 ^ 32" by simp
  also have "\<dots> = unat h * 2 ^ 32 + unat l" using unat_high_half [of "join_halves h l"] unat_low_half [of "join_halves h l"] by simp
  finally show ?thesis .
qed

lemma read_pair_exact: "timer_read_pair c = c" "utimer_read_pair c = c"
  by (simp_all add: timer_read_pair_def utimer_read_pair_def)

lemma torn_nat:
  fixes a b K :: nat
  assumes "a \<le> b" "b < a + K"
  shows "b div K = a div K \<and> a div K * K + b mod K = b \<or> b div K \<noteq> a div K \<and> a div K * K + b mod K + K = b \<and> a < b"
proof (cases "b div K = a div K")
  case True
  then show ?thesis by (metis div_mult_mod_eq)
next
  case False
  have "0 < K" using assms by linarith
  have "a div K \<le> b div K" using assms(1) by (rule div_le_mono)
  moreover have "b div K < a div K + 2" using div_le_mono [of b "a + K" K] assms(2) div_add_self2 [of K a] \<open>0 < K\<close> by simp
  ultimately have "b div K = a div K + 1" using False by linarith
  then have "a div K * K + b mod K + K = b" using div_mult_mod_eq [of b K] by (simp add: algebra_simps)
  moreover have "a \<noteq> b" using False by blast
  ultimately show ?thesis using False assms(1) by simp
qed

text \<open>C25: the two reads of single registers give a value of the counter between them exactly when the low half did not wrap in
  between; when it wrapped once the result is lower than the first value by up to \<open>2 ^ 32\<close>.\<close>

theorem timer_read_torn:
  assumes "c1 \<le> c2" "unat c2 < unat c1 + 2 ^ 32"
  shows "(c1 \<le> timer_read c1 c2 \<longleftrightarrow> high_half c1 = high_half c2) \<and> timer_read c1 c2 \<le> c2 \<and>
    unat c1 < unat (timer_read c1 c2) + 2 ^ 32 \<and> utimer_read c1 c2 = timer_read c1 c2"
proof -
  have "unat c1 \<le> unat c2" using assms(1) by (simp add: word_le_nat_alt)
  note torn = torn_nat [OF this assms(2)]
  have val: "unat (timer_read c1 c2) = unat c1 div 2 ^ 32 * 2 ^ 32 + unat c2 mod 2 ^ 32"
    by (simp only: timer_read_def Let_def unat_join_halves unat_high_half unat_low_half)
  have high: "high_half c1 = high_half c2 \<longleftrightarrow> unat c2 div 2 ^ 32 = unat c1 div 2 ^ 32"
    by (metis unat_high_half word_unat_eq_iff)
  have "utimer_read c1 c2 = timer_read c1 c2" by (simp add: utimer_read_def timer_read_def)
  then show ?thesis using torn assms unfolding word_le_nat_alt val high by linarith
qed

theorem timer_read_torn_witness:
  "timer_read 0x1ffffffff 0x200000000 = 0x100000000 \<and> \<not> 0x1ffffffff \<le> timer_read 0x1ffffffff 0x200000000"
proof -
  have "high_half 0x1ffffffff = 1" "high_half 0x200000000 = 2" by (simp_all add: high_half_def)
  moreover have "(0x1ffffffff :: u64) \<le> 0x200000000" "unat (0x200000000 :: u64) < unat (0x1ffffffff :: u64) + 2 ^ 32" by simp_all
  note timer_read_torn [OF this]
  ultimately show ?thesis by (simp add: timer_read_def join_halves_def high_half_def low_half_def)
qed

section \<open>Registers\<close>

datatype qframe = Frame1 | Frame2

datatype dev_reg =
    QTMR_AC_CNTACR | QTMR_AC_VER | CNTPCT_LO qframe | CNTPCT_HI qframe | CVAL_LO qframe | CVAL_HI qframe | TVAL qframe | CTL qframe
  | VER qframe | INT_ENABLE nat | INT_ENABLE_CLEAR nat | INT_ENABLE_SET nat | INT_TYPE nat | INT_STATUS nat | INT_PENDING nat

definition CSR_BASE :: u32 where "CSR_BASE = 0xfc900000"
definition IRQ1 :: u32 where "IRQ1 = 3"
definition IRQ2 :: u32 where "IRQ2 = 4"

definition frame_offset :: "qframe \<Rightarrow> nat" where
  "frame_offset f = (case f of Frame1 \<Rightarrow> 0x1000 | Frame2 \<Rightarrow> 0x2000)"

text \<open>The offset of a register from \<open>CSR_BASE\<close>; the registers of the interrupt controller come in words of 32 interrupts.\<close>

definition reg_offset :: "dev_reg \<Rightarrow> nat" where
  "reg_offset r =
     (case r of
        QTMR_AC_CNTACR \<Rightarrow> 0x20000 + 0x40
      | QTMR_AC_VER \<Rightarrow> 0x20000 + 0x0fd0
      | CNTPCT_LO f \<Rightarrow> 0x20000 + frame_offset f
      | CNTPCT_HI f \<Rightarrow> 0x20000 + frame_offset f + 0x4
      | CVAL_LO f \<Rightarrow> 0x20000 + frame_offset f + 0x20
      | CVAL_HI f \<Rightarrow> 0x20000 + frame_offset f + 0x24
      | TVAL f \<Rightarrow> 0x20000 + frame_offset f + 0x28
      | CTL f \<Rightarrow> 0x20000 + frame_offset f + 0x2c
      | VER f \<Rightarrow> 0x20000 + frame_offset f + 0xfd0
      | INT_ENABLE w \<Rightarrow> 0x10000 + 0x100 + 4 * w
      | INT_ENABLE_CLEAR w \<Rightarrow> 0x10000 + 0x180 + 4 * w
      | INT_ENABLE_SET w \<Rightarrow> 0x10000 + 0x200 + 4 * w
      | INT_TYPE w \<Rightarrow> 0x10000 + 0x280 + 4 * w
      | INT_STATUS w \<Rightarrow> 0x10000 + 0x380 + 4 * w
      | INT_PENDING w \<Rightarrow> 0x10000 + 0x500 + 4 * w)"

definition reg_addr :: "dev_reg \<Rightarrow> u32" where
  "reg_addr r = CSR_BASE + of_nat (reg_offset r)"

text \<open>The controller has 1024 interrupts.\<close>

fun reg_valid :: "dev_reg \<Rightarrow> bool" where
  "reg_valid (INT_ENABLE w) = (w < 32)"
| "reg_valid (INT_ENABLE_CLEAR w) = (w < 32)"
| "reg_valid (INT_ENABLE_SET w) = (w < 32)"
| "reg_valid (INT_TYPE w) = (w < 32)"
| "reg_valid (INT_STATUS w) = (w < 32)"
| "reg_valid (INT_PENDING w) = (w < 32)"
| "reg_valid r = True"

lemma frame_offset_inject [simp]: "frame_offset f = frame_offset g \<longleftrightarrow> f = g"
  by (cases f; cases g) (simp_all add: frame_offset_def)

lemma reg_offset_inject: "reg_valid r \<Longrightarrow> reg_valid r' \<Longrightarrow> reg_offset r = reg_offset r' \<Longrightarrow> r = r'"
  by (cases r; cases r'; simp add: reg_offset_def frame_offset_def split: qframe.splits)

lemma reg_offset_less: "reg_valid r \<Longrightarrow> reg_offset r < 0x23000"
  by (cases r) (simp_all add: reg_offset_def frame_offset_def split: qframe.splits)

lemma reg_addr_inject: "reg_valid r \<Longrightarrow> reg_valid r' \<Longrightarrow> reg_addr r = reg_addr r' \<Longrightarrow> r = r'"
proof -
  assume v: "reg_valid r" "reg_valid r'" and eq: "reg_addr r = reg_addr r'"
  have lt: "reg_offset r < 2 ^ 32" "reg_offset r' < 2 ^ 32" using reg_offset_less [OF v(1)] reg_offset_less [OF v(2)] by simp_all
  have same: "unat (of_nat n :: u32) = n" if "n < 2 ^ 32" for n using that by (simp add: unsigned_of_nat take_bit_nat_eq_self)
  have "(of_nat (reg_offset r) :: u32) = of_nat (reg_offset r')" using eq by (simp add: reg_addr_def)
  then have "reg_offset r = reg_offset r'" 
    using same [OF lt(1)] same [OF lt(2)] by metis
  then show ?thesis using v reg_offset_inject by blast
qed

section \<open>Operations\<close>

record 'd timer_ops =
  rd :: "dev_reg \<Rightarrow> 'd \<Rightarrow> u32"
  wr :: "dev_reg \<Rightarrow> u32 \<Rightarrow> 'd \<Rightarrow> 'd"

definition ticks_per_qtimer1 :: nat where "ticks_per_qtimer1 = QTMR_FREQ div 700"
definition ticks_per_qtimer2 :: nat where "ticks_per_qtimer2 = QTMR_FREQ div 70"

definition timer_init :: "'d timer_ops \<Rightarrow> 'd \<Rightarrow> 'd" where
  "timer_init ops d =
     (let d = wr ops (TVAL Frame1) (of_nat (QTMR_FREQ div 1000)) d
      in wr ops (CTL Frame1) 1 d)"

definition update_qtimer1 :: "'d timer_ops \<Rightarrow> 'd \<Rightarrow> 'd" where
  "update_qtimer1 ops d =
     (let cval = push_bit 32 (ucast (rd ops (CVAL_HI Frame1) d) :: u64) OR ucast (rd ops (CVAL_LO Frame1) d);
          cval = cval + of_nat ticks_per_qtimer1;
          d = wr ops (CVAL_LO Frame1) (ucast (cval AND 0xffffffff)) d
      in wr ops (CVAL_HI Frame1) (ucast (drop_bit 32 cval)) d)"

definition update_qtimer2 :: "'d timer_ops \<Rightarrow> 'd \<Rightarrow> 'd" where
  "update_qtimer2 ops d =
     (let cval = push_bit 32 (ucast (rd ops (CVAL_HI Frame2) d) :: u64) OR ucast (rd ops (CVAL_LO Frame2) d);
          cval = cval + of_nat ticks_per_qtimer2;
          d = wr ops (CVAL_LO Frame2) (ucast (cval AND 0xffffffff)) d
      in wr ops (CVAL_HI Frame2) (ucast (drop_bit 32 cval)) d)"

definition init_qtimers :: "'d timer_ops \<Rightarrow> int \<Rightarrow> 'd \<Rightarrow> 'd" where
  "init_qtimers ops ctr d =
     (let d = wr ops QTMR_AC_CNTACR 0x3f d;
          d = (if ctr AND 1 \<noteq> 0 then wr ops (CTL Frame1) 1 (wr ops (TVAL Frame1) (of_nat ticks_per_qtimer1) d) else d)
      in if ctr AND 2 \<noteq> 0 then wr ops (CTL Frame2) 1 (wr ops (TVAL Frame2) (of_nat ticks_per_qtimer2) d) else d)"

definition irq_word :: "u32 \<Rightarrow> nat" where "irq_word n = unat (n div 32)"

definition update_l2vic :: "'d timer_ops \<Rightarrow> u32 \<Rightarrow> 'd \<Rightarrow> 'd" where
  "update_l2vic ops irq d =
     (let irq_bit = push_bit (unat (irq mod 32)) 1
      in wr ops (INT_ENABLE_SET (irq_word irq)) irq_bit d)"

definition init_l2vic :: "'d timer_ops \<Rightarrow> 'd \<Rightarrow> 'd" where
  "init_l2vic ops d =
     (let irq1_bit = push_bit (unat (IRQ1 mod 32)) 1;
          irq2_bit = push_bit (unat (IRQ2 mod 32)) 1
      in if IRQ1 div 32 = IRQ2 div 32 then
           let irq1_bit = irq1_bit OR irq2_bit;
               d = wr ops (INT_ENABLE_CLEAR (irq_word IRQ1)) irq1_bit d;
               d = wr ops (INT_TYPE (irq_word IRQ1)) 0 d
           in wr ops (INT_ENABLE_SET (irq_word IRQ1)) irq1_bit d
         else
           let d = wr ops (INT_ENABLE_CLEAR (irq_word IRQ1)) irq1_bit d;
               d = wr ops (INT_TYPE (irq_word IRQ1)) 0 d;
               d = wr ops (INT_ENABLE_SET (irq_word IRQ1)) irq1_bit d;
               d = wr ops (INT_ENABLE_CLEAR (irq_word IRQ2)) irq2_bit d;
               d = wr ops (INT_TYPE (irq_word IRQ2)) 0 d
           in wr ops (INT_ENABLE_SET (irq_word IRQ2)) irq2_bit d)"

record 'd qtest =
  dev :: 'd
  qtimer1_cnt :: u32
  qtimer2_cnt :: u32
  other_irqs :: "u32 list"

text \<open>The handler of \<open>include/qtimer.h\<close>; \<open>vid\<close> is what it reads from the register of that name.\<close>

definition intr_handler :: "'d timer_ops \<Rightarrow> u32 \<Rightarrow> 'd qtest \<Rightarrow> 'd qtest" where
  "intr_handler ops vid s =
     (if vid = IRQ1 then
        let s = s\<lparr>qtimer1_cnt := qtimer1_cnt s + 1\<rparr>;
            s = s\<lparr>dev := update_qtimer1 ops (dev s)\<rparr>
        in s\<lparr>dev := update_l2vic ops vid (dev s)\<rparr>
      else if vid = IRQ2 then
        let s = s\<lparr>dev := update_qtimer2 ops (dev s)\<rparr>;
            s = s\<lparr>dev := update_l2vic ops vid (dev s)\<rparr>
        in s\<lparr>qtimer2_cnt := qtimer2_cnt s + 1\<rparr>
      else s\<lparr>other_irqs := other_irqs s @ [vid]\<rparr>)"

definition read_ver :: "'d timer_ops \<Rightarrow> 'd \<Rightarrow> u32" where "read_ver ops d = rd ops QTMR_AC_VER d"
definition read_ver1 :: "'d timer_ops \<Rightarrow> 'd \<Rightarrow> u32" where "read_ver1 ops d = rd ops (VER Frame1) d"
definition read_ver2 :: "'d timer_ops \<Rightarrow> 'd \<Rightarrow> u32" where "read_ver2 ops d = rd ops (VER Frame2) d"

text \<open>\<open>src/qtimer.c\<close> has its own copy of these functions, with ten times the rates and another handler.\<close>

definition qtimer_ticks1 :: nat where "qtimer_ticks1 = QTMR_FREQ div 7000"
definition qtimer_ticks2 :: nat where "qtimer_ticks2 = QTMR_FREQ div 700"

definition qtimer_update_qtimer1 :: "'d timer_ops \<Rightarrow> 'd \<Rightarrow> 'd" where
  "qtimer_update_qtimer1 ops d =
     (let cval = push_bit 32 (ucast (rd ops (CVAL_HI Frame1) d) :: u64) OR ucast (rd ops (CVAL_LO Frame1) d);
          cval = cval + of_nat qtimer_ticks1;
          d = wr ops (CVAL_LO Frame1) (ucast (cval AND 0xffffffff)) d
      in wr ops (CVAL_HI Frame1) (ucast (drop_bit 32 cval)) d)"

definition qtimer_update_qtimer2 :: "'d timer_ops \<Rightarrow> 'd \<Rightarrow> 'd" where
  "qtimer_update_qtimer2 ops d =
     (let cval = push_bit 32 (ucast (rd ops (CVAL_HI Frame2) d) :: u64) OR ucast (rd ops (CVAL_LO Frame2) d);
          cval = cval + of_nat qtimer_ticks2;
          d = wr ops (CVAL_LO Frame2) (ucast (cval AND 0xffffffff)) d
      in wr ops (CVAL_HI Frame2) (ucast (drop_bit 32 cval)) d)"

definition qtimer_init_qtimers :: "'d timer_ops \<Rightarrow> int \<Rightarrow> 'd \<Rightarrow> 'd" where
  "qtimer_init_qtimers ops ctr d =
     (let d = wr ops QTMR_AC_CNTACR 0x3f d;
          d = (if ctr AND 1 \<noteq> 0 then wr ops (CTL Frame1) 1 (wr ops (TVAL Frame1) (of_nat qtimer_ticks1) d) else d)
      in if ctr AND 2 \<noteq> 0 then wr ops (CTL Frame2) 1 (wr ops (TVAL Frame2) (of_nat qtimer_ticks2) d) else d)"

text \<open>The handler of the second timer waits for the first: it reads the pending word of \<open>IRQ1\<close> until that is 8.  \<open>polls\<close> are the
  values it reads; without an end of the loop there is no result.\<close>

fun pending_loop :: "u32 list \<Rightarrow> bool" where
  "pending_loop [] = False"
| "pending_loop (p # ps) = (if p = 0x8 then True else pending_loop ps)"

definition qtimer_intr_handler :: "'d timer_ops \<Rightarrow> u32 \<times> u32 list \<Rightarrow> 'd qtest \<Rightarrow> 'd qtest option" where
  "qtimer_intr_handler ops event s =
     (let (vid, polls) = event in
      if vid = IRQ1 then
        let s = s\<lparr>qtimer1_cnt := qtimer1_cnt s + 1\<rparr>;
            s = s\<lparr>dev := update_l2vic ops vid (dev s)\<rparr>
        in Some (s\<lparr>dev := qtimer_update_qtimer1 ops (dev s)\<rparr>)
      else if vid = IRQ2 then
        let s = s\<lparr>dev := update_l2vic ops vid (dev s)\<rparr>
        in if pending_loop polls then
             let s = s\<lparr>qtimer2_cnt := qtimer2_cnt s + 1\<rparr>
             in Some (s\<lparr>dev := qtimer_update_qtimer2 ops (dev s)\<rparr>)
           else None
      else Some (s\<lparr>other_irqs := other_irqs s @ [vid]\<rparr>))"

text \<open>The main loop of thread 0, which also takes the interrupts: at any point between two instructions an interrupt may come; its handler
  runs to its end, and only a thread that already sleeps in \<open>wait\<close> is woken by it.  A schedule says where the interrupts come.  \<open>In_handler\<close>:
  the handler never returned.\<close>

datatype main_pc = At_test | At_wait | Asleep | After_wait | Returned | In_handler

datatype 'e item = Run | Irq 'e

fun wait_loop_step :: "('e \<Rightarrow> 'd qtest \<Rightarrow> 'd qtest option) \<Rightarrow> u32 \<Rightarrow> 'e item \<Rightarrow> main_pc \<times> 'd qtest \<Rightarrow> main_pc \<times> 'd qtest" where
  "wait_loop_step handler limit Run (pc, s) =
     (case pc of
        At_test \<Rightarrow> (if qtimer2_cnt s <s limit then At_wait else Returned, s)
      | At_wait \<Rightarrow> (Asleep, s)
      | After_wait \<Rightarrow> (At_test, s)
      | _ \<Rightarrow> (pc, s))"
| "wait_loop_step handler limit (Irq e) (pc, s) =
     (if pc = Returned \<or> pc = In_handler then (pc, s)
      else case handler e s of
        None \<Rightarrow> (In_handler, s)
      | Some s' \<Rightarrow> (if pc = Asleep then After_wait else pc, s'))"

definition wait_loop :: "('e \<Rightarrow> 'd qtest \<Rightarrow> 'd qtest option) \<Rightarrow> u32 \<Rightarrow> 'e item list \<Rightarrow> 'd qtest \<Rightarrow> main_pc \<times> 'd qtest" where
  "wait_loop handler limit sched s = fold (wait_loop_step handler limit) sched (At_test, s)"

text \<open>The main functions: a failed assertion, or where thread 0 is at the end of the schedule.  The first interrupt comes after the timers
  are programmed.\<close>

definition qtimer_test_main :: "'d timer_ops \<Rightarrow> u32 item list \<Rightarrow> 'd \<Rightarrow> ('d qtest, main_pc \<times> 'd qtest) outcome" where
  "qtimer_test_main ops sched d =
     (let d = init_l2vic ops d;
          d = init_qtimers ops 3 d;
          ver1 = read_ver1 ops d;
          ver2 = read_ver2 ops d;
          s = \<lparr>dev = d, qtimer1_cnt = 0, qtimer2_cnt = 0, other_irqs = []\<rparr>
      in if ver2 \<noteq> ver1 then Stop Assert_failed s
         else Ok (wait_loop (\<lambda>vid s. Some (intr_handler ops vid s)) 2 sched s))"

definition qtimer_main :: "'d timer_ops \<Rightarrow> (u32 \<times> u32 list) item list \<Rightarrow> 'd \<Rightarrow> main_pc \<times> 'd qtest" where
  "qtimer_main ops sched d =
     (let d = init_l2vic ops d;
          d = qtimer_init_qtimers ops 3 d
      in wait_loop (qtimer_intr_handler ops) 25 sched \<lparr>dev = d, qtimer1_cnt = 0, qtimer2_cnt = 0, other_irqs = []\<rparr>)"

text \<open>The four updates move a compare value by a number of ticks.\<close>

definition bump :: "'d timer_ops \<Rightarrow> qframe \<Rightarrow> nat \<Rightarrow> 'd \<Rightarrow> 'd" where
  "bump ops f n d =
     (let c = join_halves (rd ops (CVAL_HI f) d) (rd ops (CVAL_LO f) d) + of_nat n
      in wr ops (CVAL_HI f) (high_half c) (wr ops (CVAL_LO f) (low_half c) d))"

lemma low_half_mask: "ucast (c AND 0xffffffff) = low_half c"
proof -
  have "(0xffffffff :: u64) = mask 32" by (simp add: mask_eq_exp_minus_1)
  then show ?thesis by (auto simp: bit_eq_iff low_half_def bit_ucast_iff bit_and_iff bit_mask_iff)
qed

lemmas bump_eqs = update_qtimer1_def update_qtimer2_def qtimer_update_qtimer1_def qtimer_update_qtimer2_def

lemma updates_are_bumps:
  "update_qtimer1 ops = bump ops Frame1 ticks_per_qtimer1" "update_qtimer2 ops = bump ops Frame2 ticks_per_qtimer2"
  "qtimer_update_qtimer1 ops = bump ops Frame1 qtimer_ticks1" "qtimer_update_qtimer2 ops = bump ops Frame2 qtimer_ticks2"
  by (simp_all add: fun_eq_iff bump_eqs bump_def Let_def low_half_mask join_halves_def high_half_def)

section \<open>The devices\<close>

text \<open>
  What the code relies on: once access is granted, the compare values are registers, a write of \<open>TVAL\<close> sets the
  compare value that many ticks after the counter, the two frames are separate, and the controller keeps a set of enabled
  interrupts.
\<close>

definition cval :: "'d timer_ops \<Rightarrow> qframe \<Rightarrow> 'd \<Rightarrow> u64" where
  "cval ops f d = join_halves (rd ops (CVAL_HI f) d) (rd ops (CVAL_LO f) d)"

fun touches :: "dev_reg \<Rightarrow> qframe \<Rightarrow> bool" where
  "touches (CVAL_LO g) f = (g = f)"
| "touches (CVAL_HI g) f = (g = f)"
| "touches (TVAL g) f = (g = f)"
| "touches r f = False"

fun controls :: "dev_reg \<Rightarrow> bool" where
  "controls (INT_ENABLE_SET w) = True"
| "controls (INT_ENABLE_CLEAR w) = True"
| "controls (INT_ENABLE w) = True"
| "controls r = False"

locale timer_device =
  fixes ops :: "'d timer_ops" and granted :: "'d \<Rightarrow> bool" and counter :: "'d \<Rightarrow> u64" and enabled :: "'d \<Rightarrow> nat \<Rightarrow> bool"
  assumes grant: "granted (wr ops QTMR_AC_CNTACR 0x3f d)"
    and granted_wr: "granted d \<Longrightarrow> r \<noteq> QTMR_AC_CNTACR \<Longrightarrow> granted (wr ops r v d)"
    and wr_lo: "granted d \<Longrightarrow> cval ops f (wr ops (CVAL_LO f) v d) = join_halves (rd ops (CVAL_HI f) d) v"
    and wr_hi: "granted d \<Longrightarrow> cval ops f (wr ops (CVAL_HI f) v d) = join_halves v (rd ops (CVAL_LO f) d)"
    and wr_tval: "granted d \<Longrightarrow> v < 0x80000000 \<Longrightarrow> cval ops f (wr ops (TVAL f) v d) = counter d + ucast v"
    and cval_frame: "\<not> touches r f \<Longrightarrow> cval ops f (wr ops r v d) = cval ops f d"
    and wr_ctl: "granted d \<Longrightarrow> bit (rd ops (CTL f) (wr ops (CTL f) v d)) 0 = bit v 0"
    and ctl_frame: "r \<noteq> CTL f \<Longrightarrow> bit (rd ops (CTL f) (wr ops r v d)) 0 = bit (rd ops (CTL f) d) 0"
    and ver_frame: "rd ops (VER f) (wr ops r v d) = rd ops (VER f) d"
    and wr_set: "enabled (wr ops (INT_ENABLE_SET w) v d) i \<longleftrightarrow> enabled d i \<or> i div 32 = w \<and> bit v (i mod 32)"
    and wr_clear: "enabled (wr ops (INT_ENABLE_CLEAR w) v d) i \<longleftrightarrow> enabled d i \<and> \<not> (i div 32 = w \<and> bit v (i mod 32))"
    and enabled_frame: "\<not> controls r \<Longrightarrow> enabled (wr ops r v d) = enabled d"
begin

lemma rd_cval: "rd ops (CVAL_HI f) d = high_half (cval ops f d)" "rd ops (CVAL_LO f) d = low_half (cval ops f d)"
  by (simp_all add: cval_def)

lemma bump_cval: "granted d \<Longrightarrow> cval ops f (bump ops f n d) = cval ops f d + of_nat n"
  unfolding bump_def Let_def
  by (simp add: wr_hi granted_wr rd_cval wr_lo)

lemma bump_other: "g \<noteq> f \<Longrightarrow> cval ops g (bump ops f n d) = cval ops g d"
  by (simp add: bump_def Let_def cval_frame)

lemma bump_keeps: "granted d \<Longrightarrow> granted (bump ops f n d)" "enabled (bump ops f n d) = enabled d"
  "bit (rd ops (CTL g) (bump ops f n d)) 0 = bit (rd ops (CTL g) d) 0"
  by (simp_all add: bump_def Let_def granted_wr enabled_frame ctl_frame)

text \<open>The low half is written first: in between, the timer compares with a value that is not beyond the new one.\<close>

lemma bump_between:
  assumes "granted d" "unat (cval ops f d) + n < 2 ^ 64"
  shows "cval ops f (wr ops (CVAL_LO f) (low_half (cval ops f d + of_nat n)) d) \<le> cval ops f d + of_nat n"
proof -
  let ?c = "cval ops f d"
  have "unat (?c + of_nat n) = unat ?c + n" using assms(2) by (simp add: unat_word_ariths unsigned_of_nat take_bit_nat_eq_self)
  moreover have "unat ?c div 2 ^ 32 * 2 ^ 32 + (unat ?c + n) mod 2 ^ 32 \<le> unat ?c + n"
    by (metis (no_types) add_le_mono1 div_le_mono div_mult_mod_eq le_add1 mult_le_mono1)
  ultimately show ?thesis
    by (simp add: wr_lo assms(1) rd_cval word_le_nat_alt unat_join_halves unat_high_half unat_low_half)
qed

lemma update_l2vic_keeps:
  "granted d \<Longrightarrow> granted (update_l2vic ops irq d)" "cval ops f (update_l2vic ops irq d) = cval ops f d"
  "bit (rd ops (CTL g) (update_l2vic ops irq d)) 0 = bit (rd ops (CTL g) d) 0"
  by (simp_all add: update_l2vic_def Let_def granted_wr cval_frame ctl_frame)

lemma intr_handler_dev:
  assumes "granted (dev s)"
  shows "granted (dev (intr_handler ops vid s))"
    "cval ops Frame1 (dev (intr_handler ops vid s)) = cval ops Frame1 (dev s) + of_nat (of_bool (vid = IRQ1) * ticks_per_qtimer1)"
    "cval ops Frame2 (dev (intr_handler ops vid s)) = cval ops Frame2 (dev s) + of_nat (of_bool (vid = IRQ2) * ticks_per_qtimer2)"
  using assms by (auto simp: intr_handler_def Let_def updates_are_bumps bump_cval bump_other bump_keeps update_l2vic_keeps IRQ1_def IRQ2_def)

lemma intr_handlers_dev:
  assumes "granted (dev s)"
  shows "granted (dev (fold (intr_handler ops) vids s))"
    "cval ops Frame1 (dev (fold (intr_handler ops) vids s)) = cval ops Frame1 (dev s) + of_nat (count_list vids IRQ1 * ticks_per_qtimer1)"
    "cval ops Frame2 (dev (fold (intr_handler ops) vids s)) = cval ops Frame2 (dev s) + of_nat (count_list vids IRQ2 * ticks_per_qtimer2)"
  using assms
proof (induction vids arbitrary: s)
  case (Cons v vids)
  { case 1 then show ?case using Cons.IH(1) intr_handler_dev(1) by simp }
  { case 2 then show ?case using Cons.IH(2) [of "intr_handler ops v s"] intr_handler_dev [of s v] by (simp add: algebra_simps) }
  { case 3 then show ?case using Cons.IH(3) [of "intr_handler ops v s"] intr_handler_dev [of s v] by (simp add: algebra_simps) }
qed simp_all

lemma init_qtimers_programs:
  fixes d
  defines "d1 \<equiv> wr ops QTMR_AC_CNTACR 0x3f (init_l2vic ops d)"
  shows "granted (init_qtimers ops 3 (init_l2vic ops d))" "bit (rd ops (CTL f) (init_qtimers ops 3 (init_l2vic ops d))) 0"
    "cval ops Frame1 (init_qtimers ops 3 (init_l2vic ops d)) = counter d1 + of_nat ticks_per_qtimer1"
    "cval ops Frame2 (init_qtimers ops 3 (init_l2vic ops d)) =
       counter (wr ops (CTL Frame1) 1 (wr ops (TVAL Frame1) (of_nat ticks_per_qtimer1) d1)) + of_nat ticks_per_qtimer2"
    "rd ops (VER f) (init_qtimers ops 3 (init_l2vic ops d)) = rd ops (VER f) d"
proof -
  have g: "granted d1" unfolding d1_def by (rule grant)
  have init: "init_qtimers ops 3 (init_l2vic ops d) =
      wr ops (CTL Frame2) 1 (wr ops (TVAL Frame2) (of_nat ticks_per_qtimer2) (wr ops (CTL Frame1) 1 (wr ops (TVAL Frame1) (of_nat ticks_per_qtimer1) d1)))"
    by (simp add: init_qtimers_def Let_def d1_def)
  have ticks: "(of_nat ticks_per_qtimer1 :: u32) < 0x80000000" "(of_nat ticks_per_qtimer2 :: u32) < 0x80000000"
    "ucast (of_nat ticks_per_qtimer1 :: u32) = (of_nat ticks_per_qtimer1 :: u64)" "ucast (of_nat ticks_per_qtimer2 :: u32) = (of_nat ticks_per_qtimer2 :: u64)"
    by (simp_all add: ticks_per_qtimer1_def ticks_per_qtimer2_def QTMR_FREQ_def)
  show "granted (init_qtimers ops 3 (init_l2vic ops d))" by (simp add: init granted_wr g)
  show "bit (rd ops (CTL f) (init_qtimers ops 3 (init_l2vic ops d))) 0" by (cases f) (simp_all add: init granted_wr g wr_ctl ctl_frame)
  show "cval ops Frame1 (init_qtimers ops 3 (init_l2vic ops d)) = counter d1 + of_nat ticks_per_qtimer1"
    using ticks by (simp add: init cval_frame wr_tval g)
  show "cval ops Frame2 (init_qtimers ops 3 (init_l2vic ops d)) =
       counter (wr ops (CTL Frame1) 1 (wr ops (TVAL Frame1) (of_nat ticks_per_qtimer1) d1)) + of_nat ticks_per_qtimer2"
    using ticks by (simp add: init cval_frame wr_tval g granted_wr)
  show "rd ops (VER f) (init_qtimers ops 3 (init_l2vic ops d)) = rd ops (VER f) d"
  proof -
    have "rd ops (VER f) (init_l2vic ops d) = rd ops (VER f) d" by (simp add: ver_frame init_l2vic_def Let_def)
    then show ?thesis by (simp add: init ver_frame d1_def)
  qed
qed

lemma init_l2vic_enables: "enabled (init_qtimers ops 3 (init_l2vic ops d)) i \<longleftrightarrow> enabled d i \<or> i = 3 \<or> i = 4"
proof -
  have word: "i div 32 = 0 \<and> bit (24 :: u32) (i mod 32) \<longleftrightarrow> i = 3 \<or> i = 4"
  proof -
    have "bit (24 :: u32) n \<longleftrightarrow> n = 3 \<or> n = 4" for n
    proof -
      have "(24 :: u32) = 2 ^ 3 OR 2 ^ 4" by simp
      then show ?thesis by (simp only: bit_or_iff bit_exp_iff) auto
    qed
    moreover have "i = 32 * (i div 32) + i mod 32" by simp
    moreover have "3 div 32 = (0 :: nat)" "4 div 32 = (0 :: nat)" "3 mod 32 = (3 :: nat)" "4 mod 32 = (4 :: nat)" by simp_all
    ultimately show ?thesis by (metis add_0 mult_0_right)
  qed
  have "enabled (init_qtimers ops 3 (init_l2vic ops d)) = enabled (init_l2vic ops d)"
    by (simp add: init_qtimers_def Let_def enabled_frame)
  moreover have "init_l2vic ops d = wr ops (INT_ENABLE_SET 0) 24 (wr ops (INT_TYPE 0) 0 (wr ops (INT_ENABLE_CLEAR 0) 24 d))"
    by (simp add: init_l2vic_def Let_def IRQ1_def IRQ2_def irq_word_def)
  ultimately show ?thesis using word by (simp only: wr_set wr_clear enabled_frame controls.simps simp_thms) blast
qed

end

section \<open>The main loops\<close>

text \<open>The interrupts of a schedule, and how many satisfy a condition.\<close>

fun irqs_of :: "'e item list \<Rightarrow> 'e list" where
  "irqs_of [] = []"
| "irqs_of (Run # is) = irqs_of is"
| "irqs_of (Irq e # is) = e # irqs_of is"

lemma irqs_of_append [simp]: "irqs_of (xs @ ys) = irqs_of xs @ irqs_of ys"
  by (induction xs rule: irqs_of.induct) simp_all

lemma length_irqs_of: "length (irqs_of is) \<le> length is"
  by (induction "is" rule: irqs_of.induct) simp_all

lemma Run_or_Irq: "x \<noteq> Run \<longleftrightarrow> (\<exists>e. x = Irq e)"
  by (cases x) simp_all

lemma Returned_step [simp]: "wait_loop_step handler limit x (Returned, s) = (Returned, s)"
  by (cases x) simp_all

lemma Returned_fold [simp]: "fold (wait_loop_step handler limit) xs (Returned, s) = (Returned, s)"
  by (induction xs) simp_all

text \<open>The state after a schedule is that after the interrupts of the part before the return.\<close>

lemma wait_loop_state:
  fixes g :: "'e \<Rightarrow> 'd qtest \<Rightarrow> 'd qtest"
  assumes "\<forall>e \<in> set (irqs_of sched). \<forall>s. handler e s = Some (g e s)" "pc \<noteq> In_handler"
  shows "\<exists>pre suf pc'. sched = pre @ suf \<and> fold (wait_loop_step handler limit) sched (pc, s) = (pc', fold g (irqs_of pre) s) \<and>
    (suf \<noteq> [] \<longrightarrow> pc' = Returned) \<and> pc' \<noteq> In_handler"
  using assms
proof (induction sched arbitrary: pc s)
  case (Cons x sched)
  show ?case
  proof (cases "pc = Returned")
    case True
    then show ?thesis by (intro exI [of _ "[]"] exI [of _ "x # sched"] exI [of _ Returned]) simp
  next
    case pc: False
    have "\<exists>pc1. wait_loop_step handler limit x (pc, s) = (pc1, fold g (irqs_of [x]) s) \<and> pc1 \<noteq> In_handler"
      using Cons.prems pc by (cases x) (auto split: main_pc.splits)
    then obtain pc1 where 1: "wait_loop_step handler limit x (pc, s) = (pc1, fold g (irqs_of [x]) s)" "pc1 \<noteq> In_handler" by blast
    have "\<forall>e \<in> set (irqs_of sched). \<forall>s. handler e s = Some (g e s)" using Cons.prems(1) by (cases x) simp_all
    from Cons.IH [OF this 1(2), of "fold g (irqs_of [x]) s"] obtain pre suf pc' where
      "sched = pre @ suf" "fold (wait_loop_step handler limit) sched (pc1, fold g (irqs_of [x]) s) = (pc', fold g (irqs_of pre) (fold g (irqs_of [x]) s))"
      "suf \<noteq> [] \<longrightarrow> pc' = Returned" "pc' \<noteq> In_handler" by blast
    then show ?thesis using 1 by (intro exI [of _ "x # pre"] exI [of _ suf] exI [of _ pc']) (cases x; simp)
  qed
qed simp

text \<open>Once the count is reached, a turn takes thread 0 past the test and the wait; from the other points, two turns take it to the return.\<close>

definition past_wait :: "main_pc \<Rightarrow> bool" where
  "past_wait pc \<longleftrightarrow> pc \<in> {Asleep, After_wait, At_test, Returned}"

definition heading :: "main_pc \<Rightarrow> bool" where
  "heading pc \<longleftrightarrow> pc \<in> {After_wait, At_test, Returned}"

fun to_return :: "main_pc \<Rightarrow> nat" where
  "to_return After_wait = 2" | "to_return At_test = 1" | "to_return _ = 0"

lemma wait_loop_step_progress:
  assumes "\<And>e s. x = Irq e \<Longrightarrow> handler e s = Some (g e s)" "\<not> qtimer2_cnt s <s limit" "pc \<noteq> In_handler"
    "wait_loop_step handler limit x (pc, s) = (pc', s')"
  shows "pc' \<noteq> In_handler" "x = Run \<or> past_wait pc \<Longrightarrow> past_wait pc'"
    "heading pc \<Longrightarrow> heading pc' \<and> to_return pc' \<le> to_return pc - of_bool (x = Run)"
    "pc' = Returned \<or> s' = fold g (irqs_of [x]) s"
  using assms by (cases x; cases pc; auto simp: past_wait_def heading_def)+

definition counted :: "nat \<Rightarrow> nat \<Rightarrow> main_pc \<times> 'd qtest \<Rightarrow> bool" where
  "counted l r ps \<longleftrightarrow> fst ps = Returned \<or>
     (fst ps \<noteq> In_handler \<and> (\<exists>k. l \<le> k \<and> k + r < 2 ^ 31 \<and> qtimer2_cnt (snd ps) = of_nat k))"

lemma of_nat_sless: "k < 2 ^ 31 \<Longrightarrow> l < 2 ^ 31 \<Longrightarrow> (of_nat k :: u32) <s of_nat l \<longleftrightarrow> k < l"
  by (simp add: word_sless_alt signed_of_nat signed_take_bit_int_eq_self)

lemma wait_counted_step:
  fixes g :: "'e \<Rightarrow> 'd qtest \<Rightarrow> 'd qtest"
  assumes hnd: "\<And>e s. x = Irq e \<Longrightarrow> handler e s = Some (g e s)"
    and cnt: "\<And>e s. qtimer2_cnt (g e s) = qtimer2_cnt s + of_bool (second e)"
    and c: "counted l (Suc r) ps"
  shows "counted l r (wait_loop_step handler (of_nat l) x ps)"
    "x = Run \<or> past_wait (fst ps) \<Longrightarrow> past_wait (fst (wait_loop_step handler (of_nat l) x ps))"
    "heading (fst ps) \<Longrightarrow> heading (fst (wait_loop_step handler (of_nat l) x ps)) \<and>
       to_return (fst (wait_loop_step handler (of_nat l) x ps)) \<le> to_return (fst ps) - of_bool (x = Run)"
proof -
  obtain pc s where ps: "ps = (pc, s)" by (cases ps)
  obtain pc' s' where st: "wait_loop_step handler (of_nat l) x (pc, s) = (pc', s')" by (cases "wait_loop_step handler (of_nat l) x (pc, s)")
  have "counted l r (pc', s') \<and> (x = Run \<or> past_wait pc \<longrightarrow> past_wait pc') \<and>
      (heading pc \<longrightarrow> heading pc' \<and> to_return pc' \<le> to_return pc - of_bool (x = Run))"
  proof (cases "pc = Returned")
    case True
    then show ?thesis using st by (auto simp: counted_def past_wait_def heading_def)
  next
    case False
    then obtain k where k: "pc \<noteq> In_handler" "l \<le> k" "k + Suc r < 2 ^ 31" "qtimer2_cnt s = of_nat k" using c ps by (auto simp: counted_def)
    have "\<not> qtimer2_cnt s <s of_nat l" using k of_nat_sless [of k l] by simp
    note pr = wait_loop_step_progress [OF hnd this k(1) st, simplified]
    have "counted l r (pc', s')"
    proof (cases "pc' = Returned")
      case notret: False
      then have "s' = fold g (irqs_of [x]) s" using pr(4) by blast
      then have "qtimer2_cnt s' = of_nat (k + (if \<exists>e. x = Irq e \<and> second e then 1 else 0))" using k(4) cnt by (cases x) simp_all
      then show ?thesis using pr(1) k(2,3) by (auto simp: counted_def intro!: exI [of _ "k + (if \<exists>e. x = Irq e \<and> second e then 1 else 0)"])
    qed (simp add: counted_def)
    then show ?thesis using pr(2,3) by blast
  qed
  then show "counted l r (wait_loop_step handler (of_nat l) x ps)"
    "x = Run \<or> past_wait (fst ps) \<Longrightarrow> past_wait (fst (wait_loop_step handler (of_nat l) x ps))"
    "heading (fst ps) \<Longrightarrow> heading (fst (wait_loop_step handler (of_nat l) x ps)) \<and>
       to_return (fst (wait_loop_step handler (of_nat l) x ps)) \<le> to_return (fst ps) - of_bool (x = Run)"
    using st ps by simp_all
qed

lemma counted_fold:
  fixes g :: "'e \<Rightarrow> 'd qtest \<Rightarrow> 'd qtest"
  assumes cnt: "\<And>e s. qtimer2_cnt (g e s) = qtimer2_cnt s + of_bool (second e)"
    and "\<And>e s. e \<in> set (irqs_of xs) \<Longrightarrow> handler e s = Some (g e s)" "counted l (length xs + r) ps"
  shows "counted l r (fold (wait_loop_step handler (of_nat l)) xs ps) \<and>
    (Run \<in> set xs \<or> past_wait (fst ps) \<longrightarrow> past_wait (fst (fold (wait_loop_step handler (of_nat l)) xs ps))) \<and>
    (heading (fst ps) \<longrightarrow> heading (fst (fold (wait_loop_step handler (of_nat l)) xs ps)) \<and>
       to_return (fst (fold (wait_loop_step handler (of_nat l)) xs ps)) \<le> to_return (fst ps) - count_list xs Run)"
  using assms(2,3)
proof (induction xs arbitrary: ps)
  case (Cons x xs)
  let ?p = "wait_loop_step handler (of_nat l) x ps"
  have h: "handler e s = Some (g e s)" if "x = Irq e" for e s using Cons.prems(1) that by simp
  have "counted l (Suc (length xs + r)) ps" using Cons.prems(2) by simp
  note st = wait_counted_step [of x handler g second l, OF h cnt this]
  have "handler e s = Some (g e s)" if "e \<in> set (irqs_of xs)" for e s using Cons.prems(1) that by (cases x) simp_all
  note IH = Cons.IH [OF this st(1)]
  show ?case
  proof (intro conjI impI)
    show "counted l r (fold (wait_loop_step handler (of_nat l)) (x # xs) ps)" using IH by simp
    show "past_wait (fst (fold (wait_loop_step handler (of_nat l)) (x # xs) ps))" if "Run \<in> set (x # xs) \<or> past_wait (fst ps)"
      using IH st(2) that by auto
    assume hd: "heading (fst ps)"
    then have "to_return (fst (fold (wait_loop_step handler (of_nat l)) xs ?p)) \<le> to_return (fst ps) - of_bool (x = Run) - count_list xs Run"
      using IH st(3) by (meson diff_le_mono le_trans)
    then show "to_return (fst (fold (wait_loop_step handler (of_nat l)) (x # xs) ps)) \<le> to_return (fst ps) - count_list (x # xs) Run" by (cases "x = Run") simp_all
    show "heading (fst (fold (wait_loop_step handler (of_nat l)) (x # xs) ps))" using IH st(3) hd by simp
  qed
qed simp

lemma returned_only_counted:
  "(fst ps = Returned \<longrightarrow> \<not> qtimer2_cnt (snd ps) <s limit) \<Longrightarrow>
   (fst (fold (wait_loop_step handler limit) xs ps) = Returned \<longrightarrow> \<not> qtimer2_cnt (snd (fold (wait_loop_step handler limit) xs ps)) <s limit)"
proof (induction xs arbitrary: ps)
  case (Cons x xs)
  have "fst (wait_loop_step handler limit x ps) = Returned \<longrightarrow> \<not> qtimer2_cnt (snd (wait_loop_step handler limit x ps)) <s limit"
    using Cons.prems by (cases ps; cases x; cases "fst ps") (auto split: option.splits)
  then show ?case using Cons.IH by simp
qed simp

text \<open>A schedule that lets thread 0 return: after the interrupts that reach the count, a turn, one more interrupt and two turns.\<close>

definition wakes_in_time :: "('e \<Rightarrow> bool) \<Rightarrow> nat \<Rightarrow> 'e item list \<Rightarrow> bool" where
  "wakes_in_time second l sched \<longleftrightarrow>
     (\<exists>a b e c. sched = a @ b @ Irq e # c \<and> l \<le> length (filter second (irqs_of a)) \<and> Run \<in> set b \<and> 2 \<le> count_list c Run)"

lemma wait_loop_verdict:
  fixes g :: "'e \<Rightarrow> 'd qtest \<Rightarrow> 'd qtest"
  assumes hnd: "\<And>e s. e \<in> set (irqs_of sched) \<Longrightarrow> handler e s = Some (g e s)"
    and cnt: "\<And>e s. qtimer2_cnt (g e s) = qtimer2_cnt s + of_bool (second e)"
    and len: "length sched < 2 ^ 31" "l < 2 ^ 31" and s: "qtimer2_cnt s = 0"
  shows "\<exists>pre suf pc. sched = pre @ suf \<and> wait_loop handler (of_nat l) sched s = (pc, fold g (irqs_of pre) s) \<and> (suf \<noteq> [] \<longrightarrow> pc = Returned) \<and>
    (pc = Returned \<longrightarrow> l \<le> length (filter second (irqs_of pre))) \<and> (wakes_in_time second l sched \<longrightarrow> pc = Returned)"
proof -
  let ?F = "fold (wait_loop_step handler (of_nat l))"
  have counts: "qtimer2_cnt (fold g es s) = of_nat (length (filter second es))" for es
  proof -
    have "qtimer2_cnt (fold g es s1) = qtimer2_cnt s1 + of_nat (length (filter second es))" for s1
      by (induction es arbitrary: s1) (simp_all add: cnt)
    then show ?thesis by (simp add: s)
  qed
  have le: "length (filter second (irqs_of xs)) \<le> length xs" for xs
    using length_filter_le length_irqs_of by (rule le_trans)
  have small: "length (filter second (irqs_of xs)) < 2 ^ 31" if "sched = xs @ ys" for xs ys
    using le [of xs] that len(1) by simp
  obtain pre suf pc where p: "sched = pre @ suf" "?F sched (At_test, s) = (pc, fold g (irqs_of pre) s)" "suf \<noteq> [] \<longrightarrow> pc = Returned" "pc \<noteq> In_handler"
    using wait_loop_state [of sched handler g At_test "of_nat l" s] hnd by blast
  have "l \<le> length (filter second (irqs_of pre))" if "pc = Returned"
  proof -
    have "\<not> qtimer2_cnt (fold g (irqs_of pre) s) <s of_nat l"
      using returned_only_counted [of "(At_test, s)" "of_nat l" handler sched] p(2) that by simp
    then show ?thesis using of_nat_sless [OF small [OF p(1)] len(2)] by (simp add: counts)
  qed
  moreover have "pc = Returned" if "wakes_in_time second l sched"
  proof -
    obtain a b e c where w: "sched = a @ b @ Irq e # c" "l \<le> length (filter second (irqs_of a))" "Run \<in> set b" "2 \<le> count_list c Run"
      using \<open>wakes_in_time second l sched\<close> by (auto simp: wakes_in_time_def)
    have hs: "\<And>e s. e \<in> set (irqs_of a) \<Longrightarrow> handler e s = Some (g e s)" "\<And>e s. e \<in> set (irqs_of b) \<Longrightarrow> handler e s = Some (g e s)"
      "\<And>e s. e \<in> set (irqs_of c) \<Longrightarrow> handler e s = Some (g e s)" "\<And>s. handler e s = Some (g e s)" using hnd w(1) by simp_all
    obtain pa sa qc where a: "a = pa @ sa" "?F a (At_test, s) = (qc, fold g (irqs_of pa) s)" "sa \<noteq> [] \<longrightarrow> qc = Returned" "qc \<noteq> In_handler"
      using wait_loop_state [of a handler g At_test "of_nat l" s] hs(1) by blast
    have "length (filter second (irqs_of a)) \<le> length a" by (rule le)
    then have c0: "counted l (length b + (1 + length c)) (?F a (At_test, s))"
      using a w(2) len(1) unfolding counted_def by (cases "sa = []") (auto simp: counts w(1) intro!: exI [of _ "length (filter second (irqs_of a))"])
    note st = counted_fold [where g = g and second = second, OF cnt hs(2) c0]
    then have cb: "counted l (Suc (length c)) (?F b (?F a (At_test, s)))" and pw: "past_wait (fst (?F b (?F a (At_test, s))))" using w(3) by simp_all
    have he: "handler e' s = Some (g e' s)" if "Irq e = Irq e'" for e' s using hs(4) that by simp
    note cs = wait_counted_step [of "Irq e" handler g second l "length c", OF he cnt cb]
    let ?q = "wait_loop_step handler (of_nat l) (Irq e) (?F b (?F a (At_test, s)))"
    have hdq: "heading (fst ?q)" using pw hs(4) by (cases "?F b (?F a (At_test, s))") (auto simp: past_wait_def heading_def)
    have "counted l (length c + 0) ?q" using cs(1) by simp
    from counted_fold [where g = g and second = second, OF cnt hs(3) this] hdq w(4)
    have "heading (fst (?F c ?q))" "to_return (fst (?F c ?q)) \<le> to_return (fst ?q) - 2" by auto
    moreover have "to_return (fst ?q) \<le> 2" by (cases "fst ?q") simp_all
    ultimately have "fst (?F c ?q) = Returned" by (auto simp: heading_def)
    then show ?thesis using p(2) by (simp add: w(1))
  qed
  ultimately show ?thesis using p by (auto simp: wait_loop_def)
qed

lemma intr_handler_counts:
  "qtimer2_cnt (intr_handler ops vid s) = qtimer2_cnt s + of_bool (vid = IRQ2)"
  "qtimer1_cnt (intr_handler ops vid s) = qtimer1_cnt s + of_bool (vid = IRQ1)"
  by (simp_all add: intr_handler_def Let_def IRQ1_def IRQ2_def)

lemma intr_handlers_counts:
  "qtimer1_cnt (fold (intr_handler ops) vids s) = qtimer1_cnt s + of_nat (count_list vids IRQ1)"
  "qtimer2_cnt (fold (intr_handler ops) vids s) = qtimer2_cnt s + of_nat (count_list vids IRQ2)"
  by (induction vids arbitrary: s) (simp_all add: intr_handler_counts)

lemma count_list_filter: "length (filter (\<lambda>v. v = x) xs) = count_list xs x"
  by (induction xs) simp_all

text \<open>C23: wherever the interrupts of the timers come between the steps of the test, both counts are right and each compare value has moved
  by one period for every interrupt of its timer taken before the return, so that no period is lost or drifts; the test returns only after
  the second timer has fired twice, and it does return when, after that, thread 0 takes a step, one more interrupt comes and thread 0 takes
  two steps.\<close>

theorem qtimer_test_returns:
  assumes dev: "timer_device ops granted counter enabled" and ver: "rd ops (VER Frame1) d = rd ops (VER Frame2) d"
    and len: "length sched < 2 ^ 31"
  shows "\<exists>pre suf pc s. sched = pre @ suf \<and> qtimer_test_main ops sched d = Ok (pc, s) \<and> (suf \<noteq> [] \<longrightarrow> pc = Returned) \<and>
    qtimer1_cnt s = of_nat (count_list (irqs_of pre) IRQ1) \<and> qtimer2_cnt s = of_nat (count_list (irqs_of pre) IRQ2) \<and>
    cval ops Frame1 (dev s) = cval ops Frame1 (init_qtimers ops 3 (init_l2vic ops d)) + of_nat (count_list (irqs_of pre) IRQ1 * ticks_per_qtimer1) \<and>
    cval ops Frame2 (dev s) = cval ops Frame2 (init_qtimers ops 3 (init_l2vic ops d)) + of_nat (count_list (irqs_of pre) IRQ2 * ticks_per_qtimer2) \<and>
    (pc = Returned \<longrightarrow> 2 \<le> count_list (irqs_of pre) IRQ2) \<and>
    (\<forall>a b v c. sched = a @ b @ Irq v # c \<and> 2 \<le> count_list (irqs_of a) IRQ2 \<and> Run \<in> set b \<and> 2 \<le> count_list c Run \<longrightarrow> pc = Returned)"
proof -
  let ?d = "init_qtimers ops 3 (init_l2vic ops d)"
  let ?s = "\<lparr>dev = ?d, qtimer1_cnt = 0, qtimer2_cnt = 0, other_irqs = []\<rparr>"
  have main: "qtimer_test_main ops sched d = Ok (wait_loop (\<lambda>vid s. Some (intr_handler ops vid s)) (of_nat 2) sched ?s)"
    using ver timer_device.init_qtimers_programs(5) [OF dev] by (simp add: qtimer_test_main_def Let_def read_ver1_def read_ver2_def)
  have "granted (dev ?s)" using timer_device.init_qtimers_programs(1) [OF dev] by simp
  note cvals = timer_device.intr_handlers_dev [OF dev this]
  obtain pre suf pc where p: "sched = pre @ suf"
    "wait_loop (\<lambda>vid s. Some (intr_handler ops vid s)) (of_nat 2) sched ?s = (pc, fold (intr_handler ops) (irqs_of pre) ?s)"
    "suf \<noteq> [] \<longrightarrow> pc = Returned" "pc = Returned \<longrightarrow> 2 \<le> length (filter (\<lambda>v. v = IRQ2) (irqs_of pre))"
    "wakes_in_time (\<lambda>v. v = IRQ2) 2 sched \<longrightarrow> pc = Returned"
    using wait_loop_verdict [of sched "\<lambda>vid s. Some (intr_handler ops vid s)" "intr_handler ops" "\<lambda>v. v = IRQ2" 2 ?s] len
    by (auto simp: intr_handler_counts)
  show ?thesis using main p cvals(2,3) [of "irqs_of pre"] intr_handlers_counts [where s = ?s and vids = "irqs_of pre"]
    by (intro exI [of _ pre] exI [of _ suf] exI [of _ pc] exI [of _ "fold (intr_handler ops) (irqs_of pre) ?s"])
      (auto simp: count_list_filter wakes_in_time_def)
qed

text \<open>The wake-up can be lost: when the interrupt that reaches the count comes between the test and \<open>wait\<close>, thread 0 sleeps however many
  steps it is given, until another interrupt comes.\<close>

lemma qtimer_test_lost_wakeup:
  assumes "rd ops (VER Frame1) (init_qtimers ops 3 (init_l2vic ops d)) = rd ops (VER Frame2) (init_qtimers ops 3 (init_l2vic ops d))"
  shows "\<exists>s. qtimer_test_main ops ([Irq IRQ2, Run, Irq IRQ2] @ replicate (Suc n) Run) d = Ok (Asleep, s) \<and> qtimer2_cnt s = 2"
proof -
  have "(wait_loop_step (\<lambda>vid s. Some (intr_handler ops vid s)) 2 Run ^^ n) (Asleep, s) = (Asleep, s)" for s
    by (induction n) simp_all
  moreover have "(1 :: u32) <s 2" by (simp add: word_sless_alt)
  ultimately show ?thesis using assms
    by (simp add: qtimer_test_main_def Let_def read_ver1_def read_ver2_def wait_loop_def intr_handler_counts)
qed

text \<open>The handler of \<open>src/qtimer.c\<close>, when the loop of the second timer ends.\<close>

definition qtimer_handle :: "'d timer_ops \<Rightarrow> u32 \<times> u32 list \<Rightarrow> 'd qtest \<Rightarrow> 'd qtest" where
  "qtimer_handle ops e s =
     (if fst e = IRQ1 then s\<lparr>qtimer1_cnt := qtimer1_cnt s + 1, dev := qtimer_update_qtimer1 ops (update_l2vic ops IRQ1 (dev s))\<rparr>
      else if fst e = IRQ2 then s\<lparr>qtimer2_cnt := qtimer2_cnt s + 1, dev := qtimer_update_qtimer2 ops (update_l2vic ops IRQ2 (dev s))\<rparr>
      else s\<lparr>other_irqs := other_irqs s @ [fst e]\<rparr>)"

lemma pending_loop_iff: "pending_loop polls \<longleftrightarrow> 8 \<in> set polls"
  by (induction polls) auto

lemma qtimer_intr_handler_eq:
  "qtimer_intr_handler ops e s = (if fst e = IRQ2 \<and> 8 \<notin> set (snd e) then None else Some (qtimer_handle ops e s))"
  by (simp add: qtimer_intr_handler_def qtimer_handle_def pending_loop_iff Let_def case_prod_unfold IRQ1_def IRQ2_def)

lemma qtimer_handle_counts:
  "qtimer2_cnt (qtimer_handle ops e s) = qtimer2_cnt s + of_bool (fst e = IRQ2)"
  "qtimer1_cnt (qtimer_handle ops e s) = qtimer1_cnt s + of_bool (fst e = IRQ1)"
  by (simp_all add: qtimer_handle_def IRQ1_def IRQ2_def)

text \<open>The program of \<open>src/qtimer.c\<close> returns in the same way when the second timer has fired 25 times, if each of its handlers sees the
  pending word of the first timer equal to 8; a handler that never reads that value, for instance because both timers are pending, never
  returns.\<close>

lemma qtimer_main_returns:
  fixes ops :: "'a timer_ops"
  assumes "\<forall>e \<in> set (irqs_of sched). fst e = IRQ2 \<longrightarrow> 8 \<in> set (snd e)" "length sched < 2 ^ 31"
  shows "\<exists>pre suf pc s. sched = pre @ suf \<and> qtimer_main ops sched d = (pc, s) \<and> (suf \<noteq> [] \<longrightarrow> pc = Returned) \<and>
    (pc = Returned \<longrightarrow> 25 \<le> length (filter (\<lambda>e. fst e = IRQ2) (irqs_of pre))) \<and>
    (wakes_in_time (\<lambda>e. fst e = IRQ2) 25 sched \<longrightarrow> pc = Returned)"
proof -
  let ?s = "\<lparr>dev = qtimer_init_qtimers ops 3 (init_l2vic ops d), qtimer1_cnt = 0, qtimer2_cnt = 0, other_irqs = []\<rparr>"
  have main: "qtimer_main ops sched d = wait_loop (qtimer_intr_handler ops) (of_nat 25) sched ?s" by (simp add: qtimer_main_def)
  have "qtimer_intr_handler ops e s = Some (qtimer_handle ops e s)" if "e \<in> set (irqs_of sched)" for e and s :: "'a qtest"
    using assms(1) that by (auto simp: qtimer_intr_handler_eq)
  then obtain pre suf pc where "sched = pre @ suf"
    "wait_loop (qtimer_intr_handler ops) (of_nat 25) sched ?s = (pc, fold (qtimer_handle ops) (irqs_of pre) ?s)"
    "suf \<noteq> [] \<longrightarrow> pc = Returned" "pc = Returned \<longrightarrow> 25 \<le> length (filter (\<lambda>e. fst e = IRQ2) (irqs_of pre))"
    "wakes_in_time (\<lambda>e. fst e = IRQ2) 25 sched \<longrightarrow> pc = Returned"
    using wait_loop_verdict [of sched "qtimer_intr_handler ops" "qtimer_handle ops" "\<lambda>e. fst e = IRQ2" 25 ?s] assms(2)
    by (auto simp: qtimer_handle_counts)
  then show ?thesis unfolding main by (intro exI conjI)
qed

lemma qtimer_handler_hangs: "8 \<notin> set polls \<Longrightarrow> qtimer_intr_handler ops (IRQ2, polls) s = None"
  by (simp add: qtimer_intr_handler_eq)

section \<open>A device\<close>

record sim_timer =
  sim_granted :: bool
  sim_count :: u64
  sim_cval :: "qframe \<Rightarrow> u64"
  sim_ctl :: "qframe \<Rightarrow> u32"
  sim_enabled :: "nat \<Rightarrow> bool"

fun sim_rd :: "dev_reg \<Rightarrow> sim_timer \<Rightarrow> u32" where
  "sim_rd (CVAL_LO f) d = low_half (sim_cval d f)"
| "sim_rd (CVAL_HI f) d = high_half (sim_cval d f)"
| "sim_rd (CTL f) d = sim_ctl d f"
| "sim_rd (VER f) d = 0x20020000"
| "sim_rd r d = 0"

fun sim_wr :: "dev_reg \<Rightarrow> u32 \<Rightarrow> sim_timer \<Rightarrow> sim_timer" where
  "sim_wr QTMR_AC_CNTACR v d = d\<lparr>sim_granted := (v = 0x3f)\<rparr>"
| "sim_wr (CVAL_LO f) v d = (if sim_granted d then d\<lparr>sim_cval := (sim_cval d)(f := join_halves (high_half (sim_cval d f)) v)\<rparr> else d)"
| "sim_wr (CVAL_HI f) v d = (if sim_granted d then d\<lparr>sim_cval := (sim_cval d)(f := join_halves v (low_half (sim_cval d f)))\<rparr> else d)"
| "sim_wr (TVAL f) v d = (if sim_granted d then d\<lparr>sim_cval := (sim_cval d)(f := sim_count d + scast v)\<rparr> else d)"
| "sim_wr (CTL f) v d = (if sim_granted d then d\<lparr>sim_ctl := (sim_ctl d)(f := v)\<rparr> else d)"
| "sim_wr (INT_ENABLE_SET w) v d = d\<lparr>sim_enabled := (\<lambda>i. sim_enabled d i \<or> i div 32 = w \<and> bit v (i mod 32))\<rparr>"
| "sim_wr (INT_ENABLE_CLEAR w) v d = d\<lparr>sim_enabled := (\<lambda>i. sim_enabled d i \<and> \<not> (i div 32 = w \<and> bit v (i mod 32)))\<rparr>"
| "sim_wr r v d = d"

definition sim_ops :: "sim_timer timer_ops" where
  "sim_ops = \<lparr>rd = sim_rd, wr = sim_wr\<rparr>"

lemma scast_nonneg: "v < 0x80000000 \<Longrightarrow> (scast (v :: u32) :: u64) = ucast v"
proof -
  assume "v < 0x80000000"
  then have "uint v < 2 ^ 31" by (simp add: word_less_alt)
  moreover have "- (2 ^ 31) \<le> uint v" by (rule order_trans [OF _ unsigned_greater_eq]) simp
  ultimately have "signed_take_bit 31 (uint v) = uint v" by (intro signed_take_bit_int_eq_self)
  then have "sint v = uint v" by (simp add: sint_uint)
  then show ?thesis by (metis of_int_sint of_int_uint)
qed

interpretation sim_timer: timer_device sim_ops sim_granted sim_count sim_enabled
proof
  show "cval sim_ops f (wr sim_ops (TVAL f) v d) = sim_count d + ucast v" if "sim_granted d" "v < 0x80000000" for f v d
    using that by (simp add: sim_ops_def cval_def scast_nonneg)
  show "\<not> touches r f \<Longrightarrow> cval sim_ops f (wr sim_ops r v d) = cval sim_ops f d" for r f v d
    by (cases r) (auto simp: sim_ops_def cval_def)
  show "r \<noteq> CTL f \<Longrightarrow> bit (rd sim_ops (CTL f) (wr sim_ops r v d)) 0 = bit (rd sim_ops (CTL f) d) 0" for r f v d
    by (cases r) (auto simp: sim_ops_def)
  show "sim_granted d \<Longrightarrow> r \<noteq> QTMR_AC_CNTACR \<Longrightarrow> sim_granted (wr sim_ops r v d)" for r v d
    by (cases r) (auto simp: sim_ops_def)
  show "\<not> controls r \<Longrightarrow> sim_enabled (wr sim_ops r v d) = sim_enabled d" for r v d
    by (cases r) (auto simp: sim_ops_def)
qed (simp_all add: sim_ops_def cval_def)

definition sim_start :: sim_timer where
  "sim_start = \<lparr>sim_granted = False, sim_count = 0xfffffff0, sim_cval = (\<lambda>f. 0), sim_ctl = (\<lambda>f. 0), sim_enabled = (\<lambda>i. False)\<rparr>"

definition sample_sched :: "u32 item list" where
  "sample_sched = [Run, Irq 3, Irq 4, Run, Run, Irq 4] @ [Run, Run] @ Irq 3 # [Run, Run]"

theorem qtimer_test_returns_witness:
  "\<exists>s. qtimer_test_main sim_ops sample_sched sim_start = Ok (Returned, s)"
proof -
  have "rd sim_ops (VER Frame1) sim_start = rd sim_ops (VER Frame2) sim_start" by (simp add: sim_ops_def)
  moreover have "length sample_sched < 2 ^ 31" by (simp add: sample_sched_def)
  ultimately obtain pc s where "qtimer_test_main sim_ops sample_sched sim_start = Ok (pc, s)"
    and wake: "\<forall>a b v c. sample_sched = a @ b @ Irq v # c \<and> 2 \<le> count_list (irqs_of a) IRQ2 \<and> Run \<in> set b \<and> 2 \<le> count_list c Run \<longrightarrow> pc = Returned"
    using qtimer_test_returns [OF sim_timer.timer_device_axioms] by blast
  moreover have "2 \<le> count_list (irqs_of [Run, Irq 3, Irq 4, Run, Run, Irq 4]) IRQ2" "Run \<in> set [Run, Run :: u32 item]" "2 \<le> count_list [Run, Run :: u32 item] Run"
    by (simp_all add: IRQ2_def)
  then have "pc = Returned" using wake [THEN spec [of _ "[Run, Irq 3, Irq 4, Run, Run, Irq 4]"], THEN spec [of _ "[Run, Run]"], THEN spec [of _ 3], THEN spec [of _ "[Run, Run]"]]
    unfolding sample_sched_def by blast
  ultimately show ?thesis by blast
qed

section \<open>The register test\<close>

text \<open>\<open>src/timer_reg.c\<close>: \<open>c i\<close> is the counter at the \<open>i\<close>-th register read after \<open>timer_init\<close>.  A round of the loop makes six
  reads; the last loop reads until the value differs from the first.\<close>

definition reg_round :: "(nat \<Rightarrow> u64) \<Rightarrow> nat \<Rightarrow> bool" where
  "reg_round c i =
     (let val = timer_read (c i) (c (i + 1));
          val = timer_read_pair (c (i + 2))
      in if val = 0 then False
         else let val = utimer_read (c (i + 3)) (c (i + 4))
              in if val = 0 then False
                 else let val = utimer_read_pair (c (i + 5)) in val \<noteq> 0)"

fun reg_rounds :: "(nat \<Rightarrow> u64) \<Rightarrow> nat \<Rightarrow> nat \<Rightarrow> bool" where
  "reg_rounds c 0 i = True"
| "reg_rounds c (Suc n) i = (if reg_round c i then reg_rounds c n (i + 6) else False)"

fun change_loop :: "nat \<Rightarrow> u64 \<Rightarrow> (nat \<Rightarrow> u64) \<Rightarrow> nat \<Rightarrow> bool" where
  "change_loop 0 start c i = False"
| "change_loop (Suc fuel) start c i = (if start = timer_read (c i) (c (i + 1)) then change_loop fuel start c (i + 2) else True)"

text \<open>The result: the assertion that failed, the return, or no end within \<open>fuel\<close> turns of the last loop.\<close>

definition timer_reg_main :: "nat \<Rightarrow> (nat \<Rightarrow> u64) \<Rightarrow> (unit, int) outcome option" where
  "timer_reg_main fuel c =
     (let start = timer_read (c 0) (c 1)
      in if \<not> reg_rounds c 30 2 then Some (Stop Assert_failed ())
         else if change_loop fuel start c 182 then Some (Ok 0) else None)"

definition steady :: "(nat \<Rightarrow> u64) \<Rightarrow> bool" where
  "steady c \<longleftrightarrow> (\<forall>i. c i \<le> c (i + 1)) \<and> 0 < c 0 \<and> (\<forall>i. high_half (c i) = high_half (c 0))"

lemma steady_read: "steady c \<Longrightarrow> timer_read (c i) (c j) = c j" "steady c \<Longrightarrow> utimer_read (c i) (c j) = c j"
proof -
  assume "steady c"
  then have "high_half (c i) = high_half (c j)" unfolding steady_def by metis
  then show "timer_read (c i) (c j) = c j" "utimer_read (c i) (c j) = c j" by (simp_all add: timer_read_def utimer_read_def)
qed

lemma steady_pos: "steady c \<Longrightarrow> 0 < c i"
proof (induction i)
  case (Suc i)
  then have "c i \<le> c (i + 1)" unfolding steady_def by blast
  then show ?case using Suc by (metis Suc_eq_plus1 less_le_trans)
qed (simp add: steady_def)

lemma steady_rounds: "steady c \<Longrightarrow> reg_rounds c n i"
proof (induction n arbitrary: i)
  case (Suc n)
  have "c j \<noteq> 0" for j using steady_pos [OF Suc.prems, of j] by simp
  then show ?case using Suc by (simp add: reg_round_def Let_def steady_read read_pair_exact)
qed simp

lemma change_loop_ends:
  assumes "steady c" "c (i + 2 * k + 1) \<noteq> start" "k < fuel"
  shows "change_loop fuel start c i"
  using assms
proof (induction fuel arbitrary: i k)
  case (Suc fuel)
  show ?case
  proof (cases k)
    case 0
    then show ?thesis using Suc.prems by (simp add: steady_read)
  next
    case (Suc k')
    then have "change_loop fuel start c (i + 2)" using Suc.prems by (intro Suc.IH [of "i + 2" k']) (simp_all add: algebra_simps)
    then show ?thesis by auto
  qed
qed simp

text \<open>The register test passes on a counter that has left zero, runs, changes at some time and does not wrap its low half.\<close>

lemma timer_reg_passes:
  assumes "steady c" "c 1 < c (183 + 2 * k)"
  shows "timer_reg_main (k + 1) c = Some (Ok 0)"
proof -
  have "change_loop (k + 1) (c 1) c 182" using assms by (intro change_loop_ends [of c 182 k]) (simp_all add: algebra_simps)
  then show ?thesis using steady_rounds [OF assms(1)] by (simp add: timer_reg_main_def Let_def steady_read [OF assms(1)])
qed

text \<open>When the low half wraps between the two reads of \<open>utimer_read\<close> the result can be zero and the assertion fails.\<close>

lemma timer_reg_torn: "timer_reg_main fuel (\<lambda>i. if i \<le> 5 then 0xffffffff else 0x100000000) = Some (Stop Assert_failed ())"
proof -
  have "utimer_read 0xffffffff 0x100000000 = 0" by (simp add: utimer_read_def join_halves_def high_half_def low_half_def)
  then have "\<not> reg_round (\<lambda>i. if i \<le> 5 then 0xffffffff else 0x100000000) 2" by (simp add: reg_round_def Let_def)
  moreover have "30 = Suc 29" by simp
  ultimately show ?thesis unfolding timer_reg_main_def Let_def by (simp only: reg_rounds.simps if_False not_False_eq_True if_True)
qed

definition sample_counter :: "nat \<Rightarrow> u64" where
  "sample_counter i = (if i \<le> 200 then 5 else 9)"

end
