(* ===== verification/Lock_Timer.thy ===== *)
theory Lock_Timer
  imports Qtimer "HOL-Library.Multiset"
begin

text \<open>
  The test \<open>src/lock_timer_test.c\<close>: four worker threads enter a critical section 1600 times and record the time of the
  timer at its start and end, while the main thread raises interrupts that the workers take.  Afterwards the
  main thread counts the interrupts and checks that no two recorded intervals overlap.  One step is one access to
  shared state: the lock, the round counter, the timer, a flag or an interrupt counter.  A record is
  stored in one step, because nothing reads it before its thread has ended.  The lock is the bit of \<open>syscfg\<close> that
  \<open>k0lock\<close> or \<open>tlblock\<close> sets; a thread waits while it is set, and takes no interrupt while it waits.
\<close>

section \<open>State\<close>

definition N_THREADS :: nat where "N_THREADS = 4"
definition MAX_INT_NUM :: nat where "MAX_INT_NUM = 8"
definition ROUNDS_PER_THREAD :: nat where "ROUNDS_PER_THREAD = 400"

record lock_record =
  start_time :: nat
  end_time :: nat
  thread_id :: nat
  round :: nat

text \<open>
  Where a worker is in \<open>thread_func\<close>: at the test of \<open>test_complete\<close>, before the lock, before the
  increment of the counter, before the unlock of its last turn, before the two readings of the timer, before the unlock, before the store
  of its record, at its end.
\<close>

datatype worker_pc = Test | Lock | Claim | Quit | Begin nat | Work nat nat | Leave nat nat nat | Store nat nat nat | Stopped

text \<open>Where the main thread is in \<open>run_lock_test\<close> after the start of the threads.\<close>

datatype main_point = Check | Issue | Poll nat nat | Complete | Join | Finished

record lock_test =
  lock_bit :: bool
  clock :: nat
  global_round_counter :: nat
  test_complete :: bool
  lock_records :: "lock_record list"
  at :: "nat \<Rightarrow> worker_pc"
  pending :: "nat set"
  isr :: "nat \<Rightarrow> (nat \<times> bool) option"
  ints_by_irq :: "nat \<Rightarrow> nat"
  ints_by_tid :: "nat \<Rightarrow> nat"
  swi_issued_count :: nat
  main_where :: main_point
  aborted :: bool

definition worker_ids :: "nat set" where
  "worker_ids = {1..N_THREADS}"

definition max_rounds :: nat where
  "max_rounds = N_THREADS * ROUNDS_PER_THREAD"

section \<open>Steps\<close>

text \<open>A reading of the timer; the 64-bit values of the code are numbers below \<open>2 ^ 64\<close> here.\<close>

definition read_clock :: "lock_test \<Rightarrow> nat" where
  "read_clock s = unat (timer_read_pair (of_nat (clock s)))"

lemma read_clock_eq: "read_clock s = clock s mod 2 ^ 64"
  by (simp add: read_clock_def read_pair_exact unsigned_of_nat take_bit_eq_mod)

text \<open>A worker waits for the lock.\<close>

definition waits_for_lock :: "nat \<Rightarrow> lock_test \<Rightarrow> bool" where
  "waits_for_lock t s \<longleftrightarrow> at s t = Lock \<and> lock_bit s"

definition goto :: "nat \<Rightarrow> worker_pc \<Rightarrow> lock_test \<Rightarrow> lock_test" where
  "goto t p s = s\<lparr>at := (at s)(t := p)\<rparr>"

definition thread_func :: "nat \<Rightarrow> lock_test \<Rightarrow> lock_test option" where
  "thread_func t s =
     (case at s t of
        Test \<Rightarrow> Some (goto t (if test_complete s then Stopped else Lock) s)
      | Lock \<Rightarrow> if lock_bit s then None else Some (goto t Claim (s\<lparr>lock_bit := True\<rparr>))
      | Claim \<Rightarrow>
          let r = global_round_counter s;
              s = s\<lparr>global_round_counter := r + 1\<rparr>
          in Some (if max_rounds \<le> r then goto t Quit s else goto t (Begin r) s)
      | Quit \<Rightarrow> Some (goto t Stopped (s\<lparr>lock_bit := False\<rparr>))
      | Begin r \<Rightarrow> Some (goto t (Work r (read_clock s)) s)
      | Work r st \<Rightarrow>
          let en = read_clock s;
              dur = (en + 2 ^ 64 - st) mod 2 ^ 64
          in Some (if dur = 0 then s\<lparr>aborted := True\<rparr> else goto t (Leave r st en) s)
      | Leave r st en \<Rightarrow> Some (goto t (Store r st en) (s\<lparr>lock_bit := False\<rparr>))
      | Store r st en \<Rightarrow>
          Some (goto t Test (s\<lparr>lock_records :=
            (lock_records s)[r := \<lparr>start_time = st, end_time = en, thread_id = t, round = r\<rparr>]\<rparr>))
      | Stopped \<Rightarrow> None)"

text \<open>The handler: the counter of the interrupt, then the counter of the thread.\<close>

definition interrupt_handler :: "nat \<Rightarrow> lock_test \<Rightarrow> lock_test option" where
  "interrupt_handler t s =
     (case isr s t of
        None \<Rightarrow> None
      | Some (i, False) \<Rightarrow> Some (s\<lparr>ints_by_irq := (ints_by_irq s)(i := ints_by_irq s i + 1), isr := (isr s)(t := Some (i, True))\<rparr>)
      | Some (i, True) \<Rightarrow> Some (s\<lparr>ints_by_tid := (ints_by_tid s)(t := ints_by_tid s t + 1), isr := (isr s)(t := None)\<rparr>))"

text \<open>The main thread: \<open>wait_for_int_count\<close> adds up the counters one after the other.\<close>

definition main_thread :: "lock_test \<Rightarrow> lock_test option" where
  "main_thread s =
     (case main_where s of
        Check \<Rightarrow> Some (s\<lparr>main_where := if global_round_counter s < max_rounds then Issue else Complete\<rparr>)
      | Issue \<Rightarrow> Some (s\<lparr>pending := pending s \<union> {0..<MAX_INT_NUM}, swi_issued_count := swi_issued_count s + 1, main_where := Poll 0 0\<rparr>)
      | Poll tid tot \<Rightarrow>
          Some (if tid \<le> N_THREADS then s\<lparr>main_where := Poll (tid + 1) (tot + ints_by_tid s tid)\<rparr>
                else if tot < swi_issued_count s * MAX_INT_NUM then s\<lparr>main_where := Poll 0 0\<rparr> else s\<lparr>main_where := Check\<rparr>)
      | Complete \<Rightarrow> Some (s\<lparr>test_complete := True, main_where := Join\<rparr>)
      | Join \<Rightarrow> if \<forall>t \<in> worker_ids. at s t = Stopped \<and> isr s t = None then Some (s\<lparr>main_where := Finished\<rparr>) else None
      | Finished \<Rightarrow> None)"

text \<open>
  The interrupts are assigned to the workers only; one that is in no handler and does not wait for the lock takes a pending one.  The
  timer advances at any time, and does not reach \<open>2 ^ 64\<close> ticks in a run.
\<close>

inductive lock_step :: "lock_test \<Rightarrow> lock_test \<Rightarrow> bool" where
  work: "t \<in> worker_ids \<Longrightarrow> \<not> aborted s \<Longrightarrow> isr s t = None \<Longrightarrow> thread_func t s = Some s' \<Longrightarrow> lock_step s s'"
| take_int: "t \<in> worker_ids \<Longrightarrow> \<not> aborted s \<Longrightarrow> isr s t = None \<Longrightarrow> at s t \<noteq> Stopped \<Longrightarrow> \<not> waits_for_lock t s \<Longrightarrow> i \<in> pending s \<Longrightarrow>
    lock_step s (s\<lparr>pending := pending s - {i}, isr := (isr s)(t := Some (i, False))\<rparr>)"
| handle: "t \<in> worker_ids \<Longrightarrow> \<not> aborted s \<Longrightarrow> interrupt_handler t s = Some s' \<Longrightarrow> lock_step s s'"
| main: "\<not> aborted s \<Longrightarrow> main_thread s = Some s' \<Longrightarrow> lock_step s s'"
| tick: "\<not> aborted s \<Longrightarrow> clock s + d < 2 ^ 64 \<Longrightarrow> lock_step s (s\<lparr>clock := clock s + d\<rparr>)"

text \<open>The state after \<open>reset_test_state\<close> and the start of the threads.\<close>

definition zero_record :: lock_record where
  "zero_record = \<lparr>start_time = 0, end_time = 0, thread_id = 0, round = 0\<rparr>"

definition reset_test_state :: "lock_test \<Rightarrow> bool" where
  "reset_test_state s \<longleftrightarrow> swi_issued_count s = 0 \<and> global_round_counter s = 0 \<and> \<not> test_complete s \<and>
     (\<forall>i. ints_by_irq s i = 0) \<and> (\<forall>i. ints_by_tid s i = 0) \<and> lock_records s = replicate max_rounds zero_record"

definition run_start :: "lock_test \<Rightarrow> bool" where
  "run_start s \<longleftrightarrow> reset_test_state s \<and> \<not> lock_bit s \<and> \<not> aborted s \<and> pending s = {} \<and> main_where s = Check \<and> clock s < 2 ^ 64 \<and>
     (\<forall>t \<in> worker_ids. at s t = Test) \<and> (\<forall>t. isr s t = None)"

section \<open>Verification of the records\<close>

definition compare_records :: "lock_record \<Rightarrow> lock_record \<Rightarrow> int" where
  "compare_records ra rb =
     (if start_time ra < start_time rb then - 1 else if start_time ra > start_time rb then 1 else 0)"

text \<open>\<open>qsort\<close> of the C library: a permutation in an order the comparison agrees with.\<close>

locale c_qsort =
  fixes qsort :: "(lock_record \<Rightarrow> lock_record \<Rightarrow> int) \<Rightarrow> lock_record list \<Rightarrow> lock_record list"
  assumes qsort_perm: "mset (qsort cmp xs) = mset xs"
    and qsort_sorted: "sorted_wrt (\<lambda>a b. compare_records a b \<le> 0) (qsort compare_records xs)"

fun no_overlap_loop :: "lock_record list \<Rightarrow> bool" where
  "no_overlap_loop (current # next_rec # rest) =
     (if end_time current > start_time next_rec then False else no_overlap_loop (next_rec # rest))"
| "no_overlap_loop xs = True"

definition total_records :: "lock_test \<Rightarrow> nat" where
  "total_records s = (if global_round_counter s > max_rounds then max_rounds else global_round_counter s)"

definition verify_no_overlaps ::
  "((lock_record \<Rightarrow> lock_record \<Rightarrow> int) \<Rightarrow> lock_record list \<Rightarrow> lock_record list) \<Rightarrow> lock_test \<Rightarrow> bool" where
  "verify_no_overlaps qsort s = no_overlap_loop (qsort compare_records (take (total_records s) (lock_records s)))"

section \<open>The result of a test\<close>

definition total_int_count :: "lock_test \<Rightarrow> nat" where
  "total_int_count s = sum_list (map (ints_by_tid s) [0..<N_THREADS + 1])"

definition total_ints_by_irq :: "lock_test \<Rightarrow> nat" where
  "total_ints_by_irq s = sum_list (map (ints_by_irq s) [0..<MAX_INT_NUM])"

definition run_lock_test ::
  "((lock_record \<Rightarrow> lock_record \<Rightarrow> int) \<Rightarrow> lock_record list \<Rightarrow> lock_record list) \<Rightarrow> lock_test \<Rightarrow> (lock_test, bool) outcome" where
  "run_lock_test qsort s =
     (if total_int_count s \<noteq> swi_issued_count s * MAX_INT_NUM then Stop Assert_failed s
      else if ints_by_tid s 0 \<noteq> 0 then Ok False
      else if \<exists>i \<in> set [1..<N_THREADS + 1]. ints_by_tid s i = 0 then Ok False
      else if total_int_count s \<le> 10 then Ok False
      else if total_ints_by_irq s \<le> 10 then Ok False
      else if total_int_count s \<noteq> total_ints_by_irq s then Ok False
      else Ok (verify_no_overlaps qsort s))"

section \<open>The program\<close>

text \<open>\<open>init_clock\<close> refuses old timers, and otherwise gives access, sets the first timer and enables it.\<close>

definition init_clock :: "'d timer_ops \<Rightarrow> 'd \<Rightarrow> ('d, 'd) outcome" where
  "init_clock ops d =
     (let cntp_ver = rd ops (VER Frame1) d
      in if cntp_ver \<noteq> 0 \<and> cntp_ver < 0x20020000 then Stop Aborted d
         else let d = wr ops QTMR_AC_CNTACR 0x3f d;
                  d = wr ops (TVAL Frame1) (of_nat (QTMR_FREQ div 1000)) d
              in Ok (wr ops (CTL Frame1) 1 d))"

text \<open>The main function, from the mask of available threads, the timer and the results of the two tests.\<close>

definition required_mask :: u32 where
  "required_mask = push_bit N_THREADS 1 - 1"

definition lock_timer_main :: "u32 \<Rightarrow> 'd timer_ops \<Rightarrow> 'd \<Rightarrow> bool \<Rightarrow> bool \<Rightarrow> ('d, int) outcome" where
  "lock_timer_main thread_enable_mask ops d k0lock_passed tlblock_passed =
     (if thread_enable_mask AND required_mask \<noteq> required_mask then Stop Assert_failed d
      else bind_outcome (init_clock ops d) (\<lambda>d. Ok (if k0lock_passed \<and> tlblock_passed then 0 else 1)))"

text \<open>The mask that is checked has the threads 0 to 3, but the workers are the threads 1 to 4.\<close>

lemma required_mask_misses_worker: "4 \<in> worker_ids" "\<not> bit required_mask 4" "bit required_mask 0"
  by (simp_all add: worker_ids_def required_mask_def N_THREADS_def)

section \<open>The check of the records is complete\<close>

definition disjoint_records :: "lock_record \<Rightarrow> lock_record \<Rightarrow> bool" where
  "disjoint_records a b \<longleftrightarrow> end_time a \<le> start_time b \<or> end_time b \<le> start_time a"

lemma sorted_wrt_perm:
  assumes "\<And>x y. R x y \<Longrightarrow> R y x"
  shows "mset xs = mset ys \<Longrightarrow> sorted_wrt R xs \<Longrightarrow> sorted_wrt R ys"
proof (induction xs arbitrary: ys)
  case (Cons x xs)
  then obtain as bs where ys: "ys = as @ x # bs" by (metis list.set_intros(1) set_mset_mset split_list)
  then have "mset xs = mset (as @ bs)" using Cons.prems(1) by simp
  moreover from this have "set xs = set as \<union> set bs" by (metis set_append set_mset_mset)
  moreover have "sorted_wrt R (as @ bs)" using Cons calculation(1) by simp
  ultimately show ?case using Cons.prems(2) assms by (auto simp: ys sorted_wrt_append)
qed simp

lemma no_overlap_loop_sorted:
  assumes "\<forall>x \<in> set xs. start_time x < end_time x" "sorted_wrt (\<lambda>a b. start_time a \<le> start_time b) xs"
  shows "no_overlap_loop xs \<longleftrightarrow> sorted_wrt disjoint_records xs"
  using assms
proof (induction xs rule: no_overlap_loop.induct)
  case (1 current next_rec rest)
  then have IH: "no_overlap_loop (next_rec # rest) \<longleftrightarrow> sorted_wrt disjoint_records (next_rec # rest)"
    if "end_time current \<le> start_time next_rec" using that by auto
  show ?case
  proof (cases "end_time current \<le> start_time next_rec")
    case True
    then have "\<forall>x \<in> set (next_rec # rest). disjoint_records current x" using 1(3) by (fastforce simp: disjoint_records_def)
    then show ?thesis using True IH by simp
  next
    case False
    then have "\<not> disjoint_records current next_rec" using 1(2, 3) by (auto simp: disjoint_records_def)
    then show ?thesis using False by simp
  qed
qed simp_all

context c_qsort
begin

lemma no_overlaps_iff:
  assumes "\<forall>x \<in> set xs. start_time x < end_time x"
  shows "no_overlap_loop (qsort compare_records xs) \<longleftrightarrow> sorted_wrt disjoint_records xs"
proof -
  let ?ys = "qsort compare_records xs"
  have "set ?ys = set xs" using qsort_perm [of compare_records xs] by (metis set_mset_mset)
  moreover have "(\<lambda>a b. compare_records a b \<le> 0) = (\<lambda>a b. start_time a \<le> start_time b)"
    by (auto simp: compare_records_def fun_eq_iff)
  then have "sorted_wrt (\<lambda>a b. start_time a \<le> start_time b) ?ys" using qsort_sorted [of xs] by simp
  ultimately have "no_overlap_loop ?ys \<longleftrightarrow> sorted_wrt disjoint_records ?ys" using assms by (intro no_overlap_loop_sorted) simp_all
  also have "\<dots> \<longleftrightarrow> sorted_wrt disjoint_records xs"
    using sorted_wrt_perm [of disjoint_records] qsort_perm [of compare_records xs] by (metis disjoint_records_def)
  finally show ?thesis .
qed

end

definition sort_records :: "(lock_record \<Rightarrow> lock_record \<Rightarrow> int) \<Rightarrow> lock_record list \<Rightarrow> lock_record list" where
  "sort_records cmp xs = sort_key start_time xs"

interpretation record_sort: c_qsort sort_records
proof
  have "(\<lambda>a b. compare_records a b \<le> 0) = (\<lambda>a b. start_time a \<le> start_time b)"
    by (auto simp: compare_records_def fun_eq_iff)
  then show "sorted_wrt (\<lambda>a b. compare_records a b \<le> 0) (sort_records compare_records xs)" for xs
    using sorted_sort_key [of start_time xs] by (simp add: sort_records_def sorted_map)
qed (simp add: sort_records_def)

text \<open>C24: \<open>verify_no_overlaps\<close> compares neighbours of the sorted records only, and that is enough: for records that end after
  they start it returns true exactly when no two of the recorded intervals overlap.\<close>

theorem verify_no_overlaps_complete:
  assumes "c_qsort qsort" "\<forall>x \<in> set (take (total_records s) (lock_records s)). start_time x < end_time x"
  shows "verify_no_overlaps qsort s \<longleftrightarrow>
    (\<forall>i j. i < j \<longrightarrow> j < min (total_records s) (length (lock_records s)) \<longrightarrow> disjoint_records (lock_records s ! i) (lock_records s ! j))"
  using c_qsort.no_overlaps_iff [OF assms] by (simp add: verify_no_overlaps_def sorted_wrt_iff_nth_less ac_simps)

definition sample_records :: "lock_test" where
  "sample_records = \<lparr>lock_bit = False, clock = 20, global_round_counter = 2, test_complete = False,
     lock_records = [\<lparr>start_time = 10, end_time = 15, thread_id = 1, round = 0\<rparr>, \<lparr>start_time = 3, end_time = 11, thread_id = 2, round = 1\<rparr>],
     at = (\<lambda>t. Stopped), pending = {}, isr = (\<lambda>t. None), ints_by_irq = (\<lambda>i. 0), ints_by_tid = (\<lambda>i. 0), swi_issued_count = 0,
     main_where = Check, aborted = False\<rparr>"

theorem verify_no_overlaps_complete_witness: "\<not> verify_no_overlaps sort_records sample_records"
proof -
  have t: "total_records sample_records = 2" by (simp add: total_records_def sample_records_def max_rounds_def N_THREADS_def ROUNDS_PER_THREAD_def)
  have "\<forall>x \<in> set (take (total_records sample_records) (lock_records sample_records)). start_time x < end_time x"
    unfolding t by (simp add: sample_records_def)
  note verify_no_overlaps_complete [OF record_sort.c_qsort_axioms this]
  moreover have "\<not> disjoint_records (lock_records sample_records ! 0) (lock_records sample_records ! 1)"
    by (simp add: sample_records_def disjoint_records_def)
  moreover have "1 < min (total_records sample_records) (length (lock_records sample_records))" by (simp add: t) (simp add: sample_records_def)
  ultimately show ?thesis by (metis less_numeral_extra(1))
qed

section \<open>Mutual exclusion\<close>

fun critical :: "worker_pc \<Rightarrow> bool" where
  "critical Claim = True"
| "critical Quit = True"
| "critical (Begin r) = True"
| "critical (Work r st) = True"
| "critical (Leave r st en) = True"
| "critical p = False"

definition excl_inv :: "lock_test \<Rightarrow> bool" where
  "excl_inv s \<longleftrightarrow> (\<forall>t \<in> worker_ids. critical (at s t) \<longrightarrow> lock_bit s) \<and>
     (\<forall>t \<in> worker_ids. \<forall>u \<in> worker_ids. critical (at s t) \<longrightarrow> critical (at s u) \<longrightarrow> t = u)"

lemma excl_stay:
  "excl_inv s \<Longrightarrow> critical p \<longrightarrow> critical (at s t) \<Longrightarrow> at s' = (at s)(t := p) \<Longrightarrow> lock_bit s' = lock_bit s \<Longrightarrow> excl_inv s'"
  unfolding excl_inv_def by (metis fun_upd_apply)

lemma excl_goto:
  "excl_inv s \<Longrightarrow> critical p \<longrightarrow> critical (at s t) \<Longrightarrow> at s1 = at s \<Longrightarrow> lock_bit s1 = lock_bit s \<Longrightarrow> excl_inv (goto t p s1)"
  by (rule excl_stay [of s p t]) (simp_all add: goto_def)

lemma excl_leave:
  "excl_inv s \<Longrightarrow> t \<in> worker_ids \<Longrightarrow> critical (at s t) \<Longrightarrow> \<not> critical p \<Longrightarrow> at s' = (at s)(t := p) \<Longrightarrow> excl_inv s'"
  unfolding excl_inv_def by (metis fun_upd_apply)

lemma excl_enter: "excl_inv s \<Longrightarrow> \<not> lock_bit s \<Longrightarrow> at s' = (at s)(t := p) \<Longrightarrow> lock_bit s' \<Longrightarrow> excl_inv s'"
  unfolding excl_inv_def by (metis fun_upd_apply)

lemma excl_inv_abort: "excl_inv (s\<lparr>aborted := True\<rparr>) = excl_inv s"
  by (simp add: excl_inv_def)

lemma thread_func_excl:
  assumes "thread_func t s = Some s'" "t \<in> worker_ids" "excl_inv s"
  shows "excl_inv s'"
proof (cases "at s t")
  case Lock
  then show ?thesis using assms by (intro excl_enter [OF assms(3)]) (auto simp: thread_func_def goto_def split: if_splits)
next
  case Quit
  then show ?thesis using assms by (intro excl_leave [OF assms(3, 2)]) (auto simp: thread_func_def goto_def)
next
  case (Leave r st en)
  then show ?thesis using assms by (intro excl_leave [OF assms(3, 2)]) (auto simp: thread_func_def goto_def)
next
  case (Work r st)
  then show ?thesis using assms
    by (auto simp: thread_func_def Let_def excl_inv_abort split: if_splits intro: excl_goto)
qed (use assms in \<open>auto simp: thread_func_def Let_def split: if_splits intro!: excl_goto [OF assms(3)]\<close>)

section \<open>Rounds\<close>

fun round_of :: "worker_pc \<Rightarrow> nat option" where
  "round_of (Begin r) = Some r"
| "round_of (Work r st) = Some r"
| "round_of (Leave r st en) = Some r"
| "round_of (Store r st en) = Some r"
| "round_of p = None"

definition recorded :: "lock_test \<Rightarrow> nat \<Rightarrow> bool" where
  "recorded s r \<longleftrightarrow> thread_id (lock_records s ! r) \<noteq> 0"

text \<open>Every round that was claimed is that of one worker or has been recorded.\<close>

definition rounds_inv :: "lock_test \<Rightarrow> bool" where
  "rounds_inv s \<longleftrightarrow> length (lock_records s) = max_rounds \<and>
     (\<forall>t \<in> worker_ids. \<forall>r. round_of (at s t) = Some r \<longrightarrow> r < max_rounds \<and> r < global_round_counter s \<and> \<not> recorded s r) \<and>
     (\<forall>t \<in> worker_ids. \<forall>u \<in> worker_ids. \<forall>r. round_of (at s t) = Some r \<longrightarrow> round_of (at s u) = Some r \<longrightarrow> t = u) \<and>
     (\<forall>r < max_rounds. r < global_round_counter s \<longrightarrow> recorded s r \<or> (\<exists>t \<in> worker_ids. round_of (at s t) = Some r)) \<and>
     (\<forall>r < max_rounds. recorded s r \<longrightarrow> r < global_round_counter s) \<and>
     (\<forall>t \<in> worker_ids. \<forall>r. critical (at s t) \<longrightarrow> round_of (at s t) = Some r \<longrightarrow> global_round_counter s = r + 1)"

text \<open>A step that leaves rounds, records and the counter alone.\<close>

lemma rounds_inv_cong:
  assumes "rounds_inv s" "lock_records s' = lock_records s" "global_round_counter s' = global_round_counter s"
    "\<And>u. u \<in> worker_ids \<Longrightarrow> round_of (at s' u) = round_of (at s u) \<and> (round_of (at s u) \<noteq> None \<longrightarrow> critical (at s' u) \<longrightarrow> critical (at s u))"
  shows "rounds_inv s'"
  using assms(1, 4) unfolding rounds_inv_def recorded_def assms(2, 3)
  by (auto; metis option.distinct(1))

lemma claim_rounds:
  assumes inv: "rounds_inv s" "excl_inv s" and t: "t \<in> worker_ids" "at s t = Claim" and r: "r = global_round_counter s" "r < max_rounds"
    and s': "at s' = (at s)(t := Begin r)" "global_round_counter s' = r + 1" "lock_records s' = lock_records s"
  shows "rounds_inv s'"
proof -
  have rec: "recorded s' x = recorded s x" for x by (simp add: recorded_def s'(3))
  have new: "\<not> recorded s r" using inv(1) r unfolding rounds_inv_def by blast
  have old: "round_of (at s u) \<noteq> Some r" if "u \<in> worker_ids" for u using inv(1) that r unfolding rounds_inv_def by blast
  have alone: "\<not> critical (at s u)" if "u \<in> worker_ids" "u \<noteq> t" for u using inv(2) t that unfolding excl_inv_def by auto
  have "\<forall>u \<in> worker_ids. \<forall>x. round_of (at s' u) = Some x \<longrightarrow> x < max_rounds \<and> x < r + 1 \<and> \<not> recorded s x"
    using inv(1) r new by (auto simp: s'(1) rounds_inv_def)
  moreover have "\<forall>u \<in> worker_ids. \<forall>w \<in> worker_ids. \<forall>x. round_of (at s' u) = Some x \<longrightarrow> round_of (at s' w) = Some x \<longrightarrow> u = w"
    using inv(1) old by (auto simp: s'(1) rounds_inv_def)
  moreover have "\<forall>x < max_rounds. x < r + 1 \<longrightarrow> recorded s x \<or> (\<exists>u \<in> worker_ids. round_of (at s' u) = Some x)"
  proof (intro allI impI)
    fix x assume x: "x < max_rounds" "x < r + 1"
    show "recorded s x \<or> (\<exists>u \<in> worker_ids. round_of (at s' u) = Some x)"
    proof (cases "x = r")
      case False
      then have "recorded s x \<or> (\<exists>u \<in> worker_ids. round_of (at s u) = Some x)" using inv(1) x r(1) unfolding rounds_inv_def by auto
      then show ?thesis using t(2) by (metis fun_upd_other option.distinct(1) round_of.simps(7) s'(1))
    qed (use t(1) in \<open>auto simp: s'(1)\<close>)
  qed
  moreover have "\<forall>x < max_rounds. recorded s x \<longrightarrow> x < r + 1" using inv(1) r(1) unfolding rounds_inv_def by auto
  moreover have "\<forall>u \<in> worker_ids. \<forall>x. critical (at s' u) \<longrightarrow> round_of (at s' u) = Some x \<longrightarrow> r + 1 = x + 1"
    using alone by (auto simp: s'(1))
  ultimately show ?thesis using inv(1) unfolding rounds_inv_def rec s'(2, 3) by auto
qed

lemma store_rounds:
  assumes inv: "rounds_inv s" and t: "t \<in> worker_ids" "at s t = Store r st en"
    and s': "at s' = (at s)(t := Test)" "global_round_counter s' = global_round_counter s"
      "lock_records s' = (lock_records s)[r := \<lparr>start_time = st, end_time = en, thread_id = t, round = r\<rparr>]"
  shows "rounds_inv s'"
proof -
  have r: "r < max_rounds" "r < global_round_counter s" "r < length (lock_records s)"
    using inv t unfolding rounds_inv_def by auto
  have t0: "t \<noteq> 0" using t(1) by (auto simp: worker_ids_def)
  have rec: "recorded s' x \<longleftrightarrow> x = r \<or> recorded s x" for x using r(3) t0 by (auto simp: recorded_def s'(3) nth_list_update)
  have old: "round_of (at s u) \<noteq> Some r" if "u \<in> worker_ids" "u \<noteq> t" for u using inv that t unfolding rounds_inv_def by (metis round_of.simps(4))
  have at: "round_of (at s' u) = (if u = t then None else round_of (at s u))" "critical (at s' u) = (u \<noteq> t \<and> critical (at s u))" for u
    by (simp_all add: s'(1))
  have "\<forall>u \<in> worker_ids. \<forall>x. round_of (at s' u) = Some x \<longrightarrow> x < max_rounds \<and> x < global_round_counter s \<and> \<not> (x = r \<or> recorded s x)"
    using inv old unfolding rounds_inv_def at by (metis option.distinct(1))
  moreover have "\<forall>u \<in> worker_ids. \<forall>w \<in> worker_ids. \<forall>x. round_of (at s' u) = Some x \<longrightarrow> round_of (at s' w) = Some x \<longrightarrow> u = w"
    using inv unfolding rounds_inv_def at by (metis option.distinct(1))
  moreover have "\<forall>x < max_rounds. x < global_round_counter s \<longrightarrow> (x = r \<or> recorded s x) \<or> (\<exists>u \<in> worker_ids. round_of (at s' u) = Some x)"
  proof (intro allI impI)
    fix x assume "x < max_rounds" "x < global_round_counter s"
    then consider "recorded s x" | u where "u \<in> worker_ids" "round_of (at s u) = Some x" using inv unfolding rounds_inv_def by blast
    then show "(x = r \<or> recorded s x) \<or> (\<exists>u \<in> worker_ids. round_of (at s' u) = Some x)"
    proof cases
      case 2
      then show ?thesis using t(2) by (cases "u = t") (auto simp: at)
    qed simp
  qed
  moreover have "\<forall>x < max_rounds. x = r \<or> recorded s x \<longrightarrow> x < global_round_counter s" using inv r(2) unfolding rounds_inv_def by blast
  moreover have "\<forall>u \<in> worker_ids. \<forall>x. critical (at s' u) \<longrightarrow> round_of (at s' u) = Some x \<longrightarrow> global_round_counter s = x + 1"
    using inv unfolding rounds_inv_def at by (metis option.distinct(1))
  moreover have "length (lock_records s') = max_rounds" using inv by (simp add: rounds_inv_def s'(3))
  ultimately show ?thesis unfolding rounds_inv_def rec s'(2) by blast
qed

lemma quit_rounds:
  assumes inv: "rounds_inv s" "excl_inv s" and t: "t \<in> worker_ids" "at s t = Claim" and r: "r = global_round_counter s" "max_rounds \<le> r"
    and s': "at s' = (at s)(t := Quit)" "global_round_counter s' = r + 1" "lock_records s' = lock_records s"
  shows "rounds_inv s'"
proof -
  have rec: "recorded s' x = recorded s x" for x by (simp add: recorded_def s'(3))
  have at: "round_of (at s' u) = round_of (at s u)" for u using t(2) by (simp add: s'(1))
  have "\<forall>u \<in> worker_ids. \<forall>x. round_of (at s u) = Some x \<longrightarrow> x < max_rounds \<and> x < r + 1 \<and> \<not> recorded s x"
    using inv(1) r by (fastforce simp: rounds_inv_def)
  moreover have "\<forall>x < max_rounds. x < r + 1 \<longrightarrow> recorded s x \<or> (\<exists>u \<in> worker_ids. round_of (at s u) = Some x)"
    using inv(1) r unfolding rounds_inv_def by (meson less_le_trans)
  moreover have "\<forall>x < max_rounds. recorded s x \<longrightarrow> x < r + 1" using r(2) by auto
  moreover have "\<forall>u \<in> worker_ids. \<forall>x. critical (at s' u) \<longrightarrow> round_of (at s u) = Some x \<longrightarrow> r + 1 = x + 1"
    using inv(2) t unfolding excl_inv_def by (metis critical.simps(1) fun_upd_apply option.distinct(1) round_of.simps(5-7) s'(1))
  ultimately show ?thesis using inv(1) unfolding rounds_inv_def rec at s'(2, 3) by blast
qed

lemma thread_func_rounds:
  assumes "thread_func t s = Some s'" "t \<in> worker_ids" "excl_inv s" "rounds_inv s"
  shows "rounds_inv s'"
proof -
  have keep: "rounds_inv (goto t p s1)"
    if "round_of p = round_of (at s t)" "critical p \<longrightarrow> round_of p \<noteq> None \<longrightarrow> critical (at s t)"
      "at s1 = at s" "lock_records s1 = lock_records s" "global_round_counter s1 = global_round_counter s" for p s1
    using that by (intro rounds_inv_cong [OF assms(4)]) (auto simp: goto_def)
  show ?thesis
  proof (cases "at s t")
    case Claim
    let ?r = "global_round_counter s"
    show ?thesis
    proof (cases "max_rounds \<le> ?r")
      case True
      then have s': "s' = goto t Quit (s\<lparr>global_round_counter := ?r + 1\<rparr>)" using assms(1) Claim by (simp add: thread_func_def Let_def)
      show ?thesis by (rule quit_rounds [OF assms(4, 3, 2) Claim refl True]) (simp_all add: s' goto_def)
    qed (use assms Claim in \<open>auto simp: thread_func_def goto_def Let_def intro!: claim_rounds [OF assms(4, 3, 2) Claim]\<close>)
  next
    case (Store r st en)
    then show ?thesis using assms(1) by (auto simp: thread_func_def goto_def intro!: store_rounds [OF assms(4, 2) Store])
  next
    case (Work r st)
    have "rounds_inv (s\<lparr>aborted := True\<rparr>)" by (rule rounds_inv_cong [OF assms(4)]) simp_all
    then show ?thesis using assms(1) Work keep by (auto simp: thread_func_def Let_def split: if_splits)
  qed (use assms(1) keep in \<open>auto simp: thread_func_def Let_def split: if_splits\<close>)
qed

section \<open>Times\<close>

text \<open>The interval of a round: of a worker that has left the critical section, or recorded.\<close>

definition interval :: "lock_test \<Rightarrow> nat \<Rightarrow> nat \<Rightarrow> nat \<Rightarrow> bool" where
  "interval s r st en \<longleftrightarrow> (\<exists>t \<in> worker_ids. at s t = Leave r st en \<or> at s t = Store r st en) \<or>
     (r < max_rounds \<and> recorded s r \<and> start_time (lock_records s ! r) = st \<and> end_time (lock_records s ! r) = en)"

definition times_inv :: "lock_test \<Rightarrow> bool" where
  "times_inv s \<longleftrightarrow> clock s < 2 ^ 64 \<and>
     (\<forall>r st en. interval s r st en \<longrightarrow> st < en \<and> en \<le> clock s) \<and>
     (\<forall>r st en r' st' en'. interval s r st en \<longrightarrow> interval s r' st' en' \<longrightarrow> r < r' \<longrightarrow> en \<le> st') \<and>
     (\<forall>t \<in> worker_ids. \<forall>r st. at s t = Work r st \<longrightarrow> st \<le> clock s \<and> (\<forall>r' st' en'. interval s r' st' en' \<longrightarrow> en' \<le> st))"

lemma times_invI:
  assumes "clock s < 2 ^ 64" "\<And>r st en. interval s r st en \<Longrightarrow> st < en \<and> en \<le> clock s"
    "\<And>r st en r' st' en'. interval s r st en \<Longrightarrow> interval s r' st' en' \<Longrightarrow> r < r' \<Longrightarrow> en \<le> st'"
    "\<And>t r st. t \<in> worker_ids \<Longrightarrow> at s t = Work r st \<Longrightarrow> st \<le> clock s"
    "\<And>t r st r' st' en'. t \<in> worker_ids \<Longrightarrow> at s t = Work r st \<Longrightarrow> interval s r' st' en' \<Longrightarrow> en' \<le> st"
  shows "times_inv s"
  unfolding times_inv_def using assms by blast

lemma times_invD:
  assumes "times_inv s"
  shows "clock s < 2 ^ 64" "interval s r st en \<Longrightarrow> st < en \<and> en \<le> clock s"
    "interval s r st en \<Longrightarrow> interval s r' st' en' \<Longrightarrow> r < r' \<Longrightarrow> en \<le> st'"
    "t \<in> worker_ids \<Longrightarrow> at s t = Work r st \<Longrightarrow> st \<le> clock s"
    "t \<in> worker_ids \<Longrightarrow> at s t = Work r st \<Longrightarrow> interval s r' st' en' \<Longrightarrow> en' \<le> st"
  using assms unfolding times_inv_def by blast+

lemma times_inv_cong:
  assumes "times_inv s" "\<And>r st en. interval s' r st en \<longrightarrow> interval s r st en" "clock s' = clock s"
    "\<And>u r st. u \<in> worker_ids \<Longrightarrow> at s' u = Work r st \<Longrightarrow> at s u = Work r st"
  shows "times_inv s'"
proof (rule times_invI)
  have old: "interval s r st en" if "interval s' r st en" for r st en using assms(2) that by simp
  note D = times_invD [OF assms(1)]
  show "clock s' < 2 ^ 64" using D(1) assms(3) by simp
  show "st < en \<and> en \<le> clock s'" if "interval s' r st en" for r st en using D(2) [OF old [OF that]] assms(3) by simp
  show "en \<le> st'" if "interval s' r st en" "interval s' r' st' en'" "r < r'" for r st en r' st' en'
    by (rule D(3) [OF old [OF that(1)] old [OF that(2)] that(3)])
  fix t r st assume t: "t \<in> worker_ids" "at s' t = Work r st"
  show "st \<le> clock s'" using D(4) [OF t(1) assms(4) [OF t]] assms(3) by simp
  show "en' \<le> st" if "interval s' r' st' en'" for r' st' en' by (rule D(5) [OF t(1) assms(4) [OF t] old [OF that]])
qed

lemma interval_goto:
  assumes "at s' = (at s)(t := p)" "lock_records s' = lock_records s" "\<And>r st en. p \<noteq> Leave r st en \<and> p \<noteq> Store r st en"
    "\<And>r st en. at s t \<noteq> Leave r st en \<and> at s t \<noteq> Store r st en"
  shows "interval s' r st en = interval s r st en"
proof -
  have "(at s' u = Leave r st en \<or> at s' u = Store r st en) = (at s u = Leave r st en \<or> at s u = Store r st en)" for u
    using assms(3, 4) by (cases "u = t") (auto simp: assms(1))
  then show ?thesis by (simp add: interval_def recorded_def assms(2))
qed

lemma interval_rounds:
  assumes "rounds_inv s" "interval s r st en"
  shows "r < global_round_counter s \<and> (t \<in> worker_ids \<longrightarrow> round_of (at s t) = Some r \<longrightarrow> at s t = Leave r st en \<or> at s t = Store r st en)"
proof -
  consider u where "u \<in> worker_ids" "at s u = Leave r st en \<or> at s u = Store r st en" | "r < max_rounds" "recorded s r"
    using assms(2) unfolding interval_def by blast
  then show ?thesis
  proof cases
    case 1
    then have u: "round_of (at s u) = Some r" by auto
    have "r < global_round_counter s" "t \<in> worker_ids \<Longrightarrow> round_of (at s t) = Some r \<Longrightarrow> t = u"
      using assms(1) 1(1) u unfolding rounds_inv_def by blast+
    then show ?thesis using 1(2) by blast
  next
    case 2
    then have "r < global_round_counter s" "t \<in> worker_ids \<Longrightarrow> round_of (at s t) \<noteq> Some r"
      using assms(1) unfolding rounds_inv_def by blast+
    then show ?thesis by blast
  qed
qed


lemma work_times:
  assumes inv: "times_inv s" "rounds_inv s" "excl_inv s" and t: "t \<in> worker_ids" "at s t = Work r st"
    and en: "en = clock s" "en \<noteq> st"
    and s': "at s' = (at s)(t := Leave r st en)" "lock_records s' = lock_records s" "clock s' = clock s"
  shows "times_inv s'"
proof -
  have st: "st \<le> clock s" "interval s r' st' en' \<Longrightarrow> en' \<le> st" for r' st' en'
    using times_invD(4, 5) [OF inv(1) t] by blast+
  have cnt: "global_round_counter s = r + 1" using inv(2) t unfolding rounds_inv_def by (metis critical.simps(4) round_of.simps(2))
  have old: "r' < r" if "interval s r' st' en'" for r' st' en'
    using interval_rounds [OF inv(2) that, of t] cnt t by (cases "r' = r") auto
  have new: "interval s' r' st' en' \<longleftrightarrow> interval s r' st' en' \<or> (r' = r \<and> st' = st \<and> en' = en)" for r' st' en'
  proof -
    have "(\<exists>u \<in> worker_ids. at s' u = Leave r' st' en' \<or> at s' u = Store r' st' en') \<longleftrightarrow>
        (\<exists>u \<in> worker_ids. at s u = Leave r' st' en' \<or> at s u = Store r' st' en') \<or> (r' = r \<and> st' = st \<and> en' = en)"
    proof -
      have "(at s' u = Leave r' st' en' \<or> at s' u = Store r' st' en') \<longleftrightarrow>
          (at s u = Leave r' st' en' \<or> at s u = Store r' st' en') \<or> (u = t \<and> r' = r \<and> st' = st \<and> en' = en)" for u
        using t(2) by (cases "u = t") (auto simp: s'(1))
      then show ?thesis using t(1) by blast
    qed
    then show ?thesis by (auto simp: interval_def recorded_def s'(2))
  qed
  have times: "st' < en' \<and> en' \<le> clock s'" if "interval s' r' st' en'" for r' st' en'
    using that times_invD(2) [OF inv(1), of r' st' en'] st(1) en by (auto simp: new s'(3))
  have order: "en1 \<le> st2" if "interval s' r1 st1 en1" "interval s' r2 st2 en2" "r1 < r2" for r1 st1 en1 r2 st2 en2
    using that times_invD(3) [OF inv(1), of r1 st1 en1 r2 st2 en2] st(2) old [of r2 st2 en2] by (auto simp: new)
  have none: "at s' u \<noteq> Work r1 st1" if "u \<in> worker_ids" for u r1 st1
  proof
    assume work: "at s' u = Work r1 st1"
    then have "u \<noteq> t" by (auto simp: s'(1))
    moreover from this work have "critical (at s u)" "critical (at s t)" using t(2) by (simp_all add: s'(1))
    ultimately show False using inv(3) t(1) that unfolding excl_inv_def by blast
  qed
  show ?thesis by (rule times_invI) (use times_invD(1) [OF inv(1)] times order none s'(3) in \<open>simp, blast+\<close>)
qed

lemma begin_times:
  assumes inv: "times_inv s" and t: "t \<in> worker_ids" "at s t = Begin r"
    and s': "at s' = (at s)(t := Work r (clock s))" "lock_records s' = lock_records s" "clock s' = clock s"
  shows "times_inv s'"
proof (rule times_invI)
  have same: "interval s' r' st' en' = interval s r' st' en'" for r' st' en'
    by (rule interval_goto [OF s'(1, 2)]) (simp_all add: t(2))
  show "clock s' < 2 ^ 64" using times_invD(1) [OF inv] s'(3) by simp
  show "st < en \<and> en \<le> clock s'" if "interval s' r st en" for r st en using times_invD(2) [OF inv] that s'(3) same by simp
  show "en \<le> st'" if "interval s' r st en" "interval s' r' st' en'" "r < r'" for r st en r' st' en'
    using times_invD(3) [OF inv] that unfolding same by blast
  fix u r1 st1 assume u: "u \<in> worker_ids" "at s' u = Work r1 st1"
  have "st1 = clock s \<or> at s u = Work r1 st1" using u(2) by (cases "u = t") (simp_all add: s'(1))
  then show "st1 \<le> clock s'" using times_invD(4) [OF inv u(1)] s'(3) by auto
  show "en' \<le> st1" if "interval s' r' st' en'" for r' st' en'
    using \<open>st1 = clock s \<or> at s u = Work r1 st1\<close> times_invD(2, 5) [OF inv] u(1) that unfolding same by blast
qed

lemma thread_func_times:
  assumes "thread_func t s = Some s'" "t \<in> worker_ids" "excl_inv s" "rounds_inv s" "times_inv s"
  shows "times_inv s'"
proof -
  have clk: "read_clock s = clock s" using assms(5) by (simp add: read_clock_eq times_inv_def)
  have keep: "times_inv (goto t p s1)"
    if "\<And>r st en. p \<noteq> Leave r st en \<and> p \<noteq> Store r st en" "\<And>r st. p \<noteq> Work r st"
      "\<And>r st en. at s t \<noteq> Leave r st en \<and> at s t \<noteq> Store r st en"
      "at s1 = at s" "lock_records s1 = lock_records s" "clock s1 = clock s" for p s1
  proof (rule times_inv_cong [OF assms(5)])
    show "interval (goto t p s1) r st en \<longrightarrow> interval s r st en" for r st en
      using interval_goto [of "goto t p s1" s t p] that by (simp add: goto_def)
    fix u r st assume "at (goto t p s1) u = Work r st"
    then show "at s u = Work r st" using that by (auto simp: goto_def split: if_splits)
  qed (simp add: goto_def that)
  show ?thesis
  proof (cases "at s t")
    case (Begin r)
    then show ?thesis using assms(1) by (auto simp: thread_func_def goto_def clk intro!: begin_times [OF assms(5, 2) Begin])
  next
    case (Work r st)
    have st: "st \<le> clock s" "clock s < 2 ^ 64" using assms(2, 5) Work unfolding times_inv_def by blast+
    have "times_inv (s\<lparr>aborted := True\<rparr>)" by (rule times_inv_cong [OF assms(5)]) (simp_all add: interval_def recorded_def)
    moreover have "(clock s + 2 ^ 64 - st) mod 2 ^ 64 = 0 \<longleftrightarrow> clock s = st"
    proof -
      have "(clock s + 2 ^ 64 - st) mod 2 ^ 64 = clock s - st"
        using st by (metis (no_types, lifting) add.commute add_diff_assoc less_imp_diff_less mod_add_self1 mod_less)
      then show ?thesis using st by auto
    qed
    ultimately show ?thesis using assms(1) Work clk
      by (auto simp: thread_func_def goto_def Let_def split: if_splits intro!: work_times [OF assms(5, 4, 3, 2) Work refl])
  next
    case (Leave r st en)
    then have "s' = goto t (Store r st en) (s\<lparr>lock_bit := False\<rparr>)" using assms(1) by (simp add: thread_func_def)
    then show ?thesis using Leave assms(2)
      by (intro times_inv_cong [OF assms(5)]) (auto simp: goto_def interval_def recorded_def split: if_splits)
  next
    case (Store r st en)
    have r: "r < length (lock_records s)" using assms(2, 4) Store unfolding rounds_inv_def by auto
    then have "interval s' r' st' en' \<longrightarrow> interval s r' st' en'" for r' st' en'
      using assms(1, 2) Store by (cases "r' = r") (auto simp: thread_func_def goto_def interval_def recorded_def split: if_splits)
    moreover have "at s' u = Work r' st' \<Longrightarrow> at s u = Work r' st'" for u r' st'
      using assms(1) Store by (auto simp: thread_func_def goto_def split: if_splits)
    moreover have "clock s' = clock s" using assms(1) Store by (auto simp: thread_func_def goto_def)
    ultimately show ?thesis by (intro times_inv_cong [OF assms(5)]) auto
  qed (use assms(1) keep in \<open>auto simp: thread_func_def Let_def split: if_splits\<close>)
qed

lemma tick_times: "times_inv s \<Longrightarrow> clock s + d < 2 ^ 64 \<Longrightarrow> times_inv (s\<lparr>clock := clock s + d\<rparr>)"
proof (rule times_invI)
  assume inv: "times_inv s" and d: "clock s + d < 2 ^ 64"
  have same: "interval (s\<lparr>clock := clock s + d\<rparr>) r st en = interval s r st en" for r st en by (simp add: interval_def recorded_def)
  note D = times_invD [OF inv]
  show "clock (s\<lparr>clock := clock s + d\<rparr>) < 2 ^ 64" using d by simp
  show "st < en \<and> en \<le> clock (s\<lparr>clock := clock s + d\<rparr>)" if "interval (s\<lparr>clock := clock s + d\<rparr>) r st en" for r st en
    using D(2) that unfolding same by fastforce
  show "en \<le> st'" if "interval (s\<lparr>clock := clock s + d\<rparr>) r st en" "interval (s\<lparr>clock := clock s + d\<rparr>) r' st' en'" "r < r'" for r st en r' st' en'
    using D(3) that unfolding same by blast
  fix t r st assume t: "t \<in> worker_ids" "at (s\<lparr>clock := clock s + d\<rparr>) t = Work r st"
  then show "st \<le> clock (s\<lparr>clock := clock s + d\<rparr>)" using D(4) by fastforce
  show "en' \<le> st" if "interval (s\<lparr>clock := clock s + d\<rparr>) r' st' en'" for r' st' en' using D(5) t that unfolding same by auto
qed

section \<open>Interrupts\<close>

lemma worker_ids_eq: "worker_ids = {1, 2, 3, 4}"
  by (auto simp: worker_ids_def N_THREADS_def)

definition tid_total :: "lock_test \<Rightarrow> nat" where
  "tid_total s = (\<Sum>t \<in> worker_ids. ints_by_tid s t)"

definition in_handler :: "lock_test \<Rightarrow> nat" where
  "in_handler s = (\<Sum>t \<in> worker_ids. of_bool (isr s t \<noteq> None))"

definition half_counted :: "lock_test \<Rightarrow> nat" where
  "half_counted s = (\<Sum>t \<in> worker_ids. of_bool (\<exists>i. isr s t = Some (i, True)))"

text \<open>Every interrupt raised is pending, in a handler or counted.\<close>

definition ints_inv :: "lock_test \<Rightarrow> bool" where
  "ints_inv s \<longleftrightarrow> pending s \<subseteq> {0..<MAX_INT_NUM} \<and> ints_by_tid s 0 = 0 \<and>
     (\<forall>t \<in> worker_ids. \<forall>i b. isr s t = Some (i, b) \<longrightarrow> i < MAX_INT_NUM) \<and>
     tid_total s + in_handler s + card (pending s) = swi_issued_count s * MAX_INT_NUM \<and>
     (\<Sum>i<MAX_INT_NUM. ints_by_irq s i) = tid_total s + half_counted s"

text \<open>What the main thread has established where it is.\<close>

fun main_inv :: "main_point \<Rightarrow> lock_test \<Rightarrow> bool" where
  "main_inv (Poll tid tot) s \<longleftrightarrow> tid \<le> N_THREADS + 1 \<and> tot \<le> (\<Sum>j<tid. ints_by_tid s j)"
| "main_inv Check s \<longleftrightarrow> swi_issued_count s * MAX_INT_NUM \<le> tid_total s"
| "main_inv Issue s \<longleftrightarrow> swi_issued_count s * MAX_INT_NUM \<le> tid_total s"
| "main_inv Complete s \<longleftrightarrow> swi_issued_count s * MAX_INT_NUM \<le> tid_total s \<and> max_rounds \<le> global_round_counter s"
| "main_inv Join s \<longleftrightarrow> swi_issued_count s * MAX_INT_NUM \<le> tid_total s \<and> max_rounds \<le> global_round_counter s"
| "main_inv Finished s \<longleftrightarrow> swi_issued_count s * MAX_INT_NUM \<le> tid_total s \<and> max_rounds \<le> global_round_counter s \<and>
     (\<forall>t \<in> worker_ids. at s t = Stopped \<and> isr s t = None)"

lemma sum_worker_upd:
  fixes f :: "nat \<Rightarrow> nat"
  assumes "t \<in> worker_ids" "\<And>u. u \<noteq> t \<Longrightarrow> g u = f u"
  shows "(\<Sum>u \<in> worker_ids. g u) + f t = (\<Sum>u \<in> worker_ids. f u) + g t"
proof -
  have "(\<Sum>u \<in> worker_ids - {t}. g u) = (\<Sum>u \<in> worker_ids - {t}. f u)" using assms(2) by (intro sum.cong) auto
  moreover have "finite worker_ids" by (simp add: worker_ids_def)
  ultimately show ?thesis using sum.remove [OF _ assms(1), of g] sum.remove [OF _ assms(1), of f] by simp
qed

lemma take_int_ints:
  assumes inv: "ints_inv s" and t: "t \<in> worker_ids" "isr s t = None" and i: "i \<in> pending s"
  shows "ints_inv (s\<lparr>pending := pending s - {i}, isr := (isr s)(t := Some (i, False))\<rparr>)" (is "ints_inv ?s")
proof -
  have "in_handler ?s = in_handler s + 1" unfolding in_handler_def
    using sum_worker_upd [OF t(1), of "\<lambda>u. of_bool (isr ?s u \<noteq> None)" "\<lambda>u. of_bool (isr s u \<noteq> None)"] t(2) by simp
  moreover have "half_counted ?s = half_counted s" unfolding half_counted_def
    by (rule sum.cong) (use t(2) in \<open>auto\<close>)
  moreover have "finite (pending s)" using inv by (auto simp: ints_inv_def intro: finite_subset)
  then have "card (pending s) = card (pending s - {i}) + 1" using i by (metis Suc_eq_plus1 card.remove)
  moreover have "tid_total ?s = tid_total s" by (simp add: tid_total_def)
  ultimately show ?thesis using inv i by (auto simp: ints_inv_def)
qed

lemma interrupt_handler_ints:
  assumes inv: "ints_inv s" and t: "t \<in> worker_ids" and step: "interrupt_handler t s = Some s'"
  shows "ints_inv s'"
proof -
  obtain i b where i: "isr s t = Some (i, b)" using step by (auto simp: interrupt_handler_def split: option.splits)
  have t0: "t \<noteq> 0" using t by (auto simp: worker_ids_def)
  have i8: "i < MAX_INT_NUM" using inv t i unfolding ints_inv_def by blast
  show ?thesis
  proof (cases b)
    case True
    then have s': "s' = s\<lparr>ints_by_tid := (ints_by_tid s)(t := ints_by_tid s t + 1), isr := (isr s)(t := None)\<rparr>"
      using step i by (simp add: interrupt_handler_def)
    have "tid_total s' = tid_total s + 1" unfolding tid_total_def
      using sum_worker_upd [OF t, of "ints_by_tid s'" "ints_by_tid s"] by (simp add: s')
    moreover have "in_handler s' + 1 = in_handler s" unfolding in_handler_def
      using sum_worker_upd [OF t, of "\<lambda>u. of_bool (isr s' u \<noteq> None)" "\<lambda>u. of_bool (isr s u \<noteq> None)"] i by (simp add: s')
    moreover have "half_counted s' + 1 = half_counted s" unfolding half_counted_def
      using sum_worker_upd [OF t, of "\<lambda>u. of_bool (\<exists>i. isr s' u = Some (i, True))" "\<lambda>u. of_bool (\<exists>i. isr s u = Some (i, True))"] i True
      by (simp add: s')
    ultimately show ?thesis using inv t0 by (auto simp: ints_inv_def s')
  next
    case False
    then have s': "s' = s\<lparr>ints_by_irq := (ints_by_irq s)(i := ints_by_irq s i + 1), isr := (isr s)(t := Some (i, True))\<rparr>"
      using step i by (simp add: interrupt_handler_def)
    have "in_handler s' = in_handler s" unfolding in_handler_def by (rule sum.cong) (use i in \<open>auto simp: s'\<close>)
    moreover have "half_counted s' = half_counted s + 1" unfolding half_counted_def
      using sum_worker_upd [OF t, of "\<lambda>u. of_bool (\<exists>i. isr s' u = Some (i, True))" "\<lambda>u. of_bool (\<exists>i. isr s u = Some (i, True))"] i False
      by (simp add: s')
    moreover have "(\<Sum>j<MAX_INT_NUM. ints_by_irq s' j) = (\<Sum>j<MAX_INT_NUM. ints_by_irq s j) + 1"
      using i8 by (simp add: s' sum.remove [of "{..<MAX_INT_NUM}" i] fun_upd_def)
    moreover have "tid_total s' = tid_total s" by (simp add: tid_total_def s')
    ultimately show ?thesis using inv i8 by (auto simp: ints_inv_def s')
  qed
qed

lemma poll_total: "(\<Sum>j<N_THREADS + 1. ints_by_tid s j) = ints_by_tid s 0 + tid_total s"
  by (simp add: tid_total_def worker_ids_def sum.atLeast_Suc_atMost sum.lessThan_Suc_shift N_THREADS_def eval_nat_numeral)

text \<open>The counters only grow, so that what the main thread has read of them stays a lower bound.\<close>

definition grows :: "lock_test \<Rightarrow> lock_test \<Rightarrow> bool" where
  "grows s s' \<longleftrightarrow> main_where s' = main_where s \<and> swi_issued_count s' = swi_issued_count s \<and>
     global_round_counter s \<le> global_round_counter s' \<and> (\<forall>t. ints_by_tid s t \<le> ints_by_tid s' t) \<and>
     (\<forall>t \<in> worker_ids. at s t = Stopped \<longrightarrow> isr s t = None \<longrightarrow> at s' t = Stopped \<and> isr s' t = None)"

lemma main_inv_grows:
  assumes "main_inv (main_where s) s" "grows s s'"
  shows "main_inv (main_where s') s'"
proof -
  have tot: "tid_total s \<le> tid_total s'" "(\<Sum>j<n. ints_by_tid s j) \<le> (\<Sum>j<n. ints_by_tid s' j)" for n
    using assms(2) unfolding tid_total_def grows_def by (auto intro: sum_mono)
  have g: "main_where s' = main_where s" "swi_issued_count s' = swi_issued_count s" "global_round_counter s \<le> global_round_counter s'"
    "\<forall>t \<in> worker_ids. at s t = Stopped \<longrightarrow> isr s t = None \<longrightarrow> at s' t = Stopped \<and> isr s' t = None"
    using assms(2) unfolding grows_def by blast+
  show ?thesis
  proof (cases "main_where s")
    case (Poll tid tot)
    then show ?thesis using assms(1) g tot(2) [of tid] by simp
  qed (use assms(1) g tot(1) in auto)
qed

lemma thread_func_frame:
  assumes "thread_func t s = Some s'" "t \<in> worker_ids" "isr s t = None"
  shows "grows s s'" "ints_inv s \<Longrightarrow> ints_inv s'"
proof -
  have same: "main_where s' = main_where s" "swi_issued_count s' = swi_issued_count s" "ints_by_tid s' = ints_by_tid s"
    "ints_by_irq s' = ints_by_irq s" "isr s' = isr s" "pending s' = pending s" "global_round_counter s \<le> global_round_counter s'"
    using assms(1) by (cases "at s t"; force simp: thread_func_def goto_def Let_def split: if_splits)+
  have "at s u = Stopped \<Longrightarrow> at s' u = Stopped" for u
    using assms(1) by (cases "at s t"; cases "u = t") (auto simp: thread_func_def goto_def Let_def split: if_splits)
  then show "grows s s'" using same by (simp add: grows_def)
  show "ints_inv s \<Longrightarrow> ints_inv s'" by (simp add: ints_inv_def tid_total_def in_handler_def half_counted_def same)
qed

lemma interrupt_handler_frame:
  assumes "interrupt_handler t s = Some s'"
  shows "at s' = at s" "lock_records s' = lock_records s" "global_round_counter s' = global_round_counter s" "clock s' = clock s"
    "lock_bit s' = lock_bit s" "grows s s'"
  using assms by (auto simp: interrupt_handler_def grows_def split: option.splits prod.splits if_splits bool.splits)

lemma main_thread_frame:
  assumes "main_thread s = Some s'"
  shows "at s' = at s" "lock_records s' = lock_records s" "global_round_counter s' = global_round_counter s" "clock s' = clock s"
    "lock_bit s' = lock_bit s"
  using assms by (auto simp: main_thread_def split: main_point.splits if_splits)

lemma main_thread_ints:
  assumes "main_thread s = Some s'" "ints_inv s" "main_inv (main_where s) s"
  shows "ints_inv s'"
proof (cases "main_where s")
  case Issue
  have fin: "finite (pending s)" using assms(2) by (auto simp: ints_inv_def intro: finite_subset)
  have "in_handler s + card (pending s) = 0" using assms(2, 3) Issue by (auto simp: ints_inv_def)
  then have "pending s = {}" using fin by simp
  moreover have "s' = s\<lparr>pending := pending s \<union> {0..<MAX_INT_NUM}, swi_issued_count := swi_issued_count s + 1, main_where := Poll 0 0\<rparr>"
    using assms(1) Issue by (simp add: main_thread_def)
  ultimately show ?thesis using assms(2) by (simp add: ints_inv_def tid_total_def in_handler_def half_counted_def)
next
  case (Poll tid tot)
  then show ?thesis using assms(1, 2)
    by (auto simp: main_thread_def ints_inv_def tid_total_def in_handler_def half_counted_def split: if_splits)
qed (use assms(1, 2) in \<open>auto simp: main_thread_def ints_inv_def tid_total_def in_handler_def half_counted_def split: if_splits\<close>)

lemma main_thread_main_inv:
  assumes "main_thread s = Some s'" "ints_inv s" "main_inv (main_where s) s"
  shows "main_inv (main_where s') s'"
proof (cases "main_where s")
  case (Poll tid tot)
  consider "tid \<le> N_THREADS" | "tid = N_THREADS + 1" using assms(3) Poll by fastforce
  then show ?thesis
  proof cases
    case 2
    then have "tot \<le> tid_total s" using assms(2, 3) Poll poll_total [of s] by (simp add: ints_inv_def)
    then show ?thesis using assms(1) Poll 2 by (auto simp: main_thread_def tid_total_def split: if_splits)
  qed (use assms(1, 3) Poll in \<open>auto simp: main_thread_def\<close>)
qed (use assms(1, 3) in \<open>auto simp: main_thread_def tid_total_def split: if_splits\<close>)

section \<open>A run\<close>

definition test_inv :: "lock_test \<Rightarrow> bool" where
  "test_inv s \<longleftrightarrow> excl_inv s \<and> rounds_inv s \<and> times_inv s \<and> ints_inv s \<and> main_inv (main_where s) s"

lemma test_inv_frame:
  assumes "test_inv s" "at s' = at s" "lock_records s' = lock_records s" "global_round_counter s' = global_round_counter s" "clock s' = clock s"
    "lock_bit s' = lock_bit s"
  shows "excl_inv s' \<and> rounds_inv s' \<and> times_inv s'"
proof -
  have "interval s' r st en = interval s r st en" for r st en by (simp add: interval_def recorded_def assms(2, 3))
  then show ?thesis using assms(1) unfolding test_inv_def excl_inv_def rounds_inv_def times_inv_def recorded_def assms(2-6) by simp
qed

lemma test_inv_start: "run_start s \<Longrightarrow> test_inv s"
proof -
  assume start: "run_start s"
  then have at: "\<forall>t \<in> worker_ids. at s t = Test" and rec: "r < max_rounds \<Longrightarrow> \<not> recorded s r" for r
    by (simp_all add: run_start_def reset_test_state_def recorded_def zero_record_def)
  have "excl_inv s" using at by (simp add: excl_inv_def)
  moreover have "rounds_inv s" using start at rec by (simp add: rounds_inv_def run_start_def reset_test_state_def)
  moreover have "\<not> interval s r st en" for r st en using at rec by (auto simp: interval_def)
  then have "times_inv s" using start at by (simp add: times_inv_def run_start_def)
  moreover have "ints_inv s" "main_inv (main_where s) s"
    using start by (simp_all add: ints_inv_def run_start_def reset_test_state_def tid_total_def in_handler_def half_counted_def)
  ultimately show ?thesis by (simp add: test_inv_def)
qed

lemma test_inv_step: "lock_step s s' \<Longrightarrow> test_inv s \<Longrightarrow> test_inv s'"
proof (induction rule: lock_step.induct)
  case (work t s s')
  then have inv: "excl_inv s" "rounds_inv s" "times_inv s" "ints_inv s" "main_inv (main_where s) s" by (simp_all add: test_inv_def)
  note frame = thread_func_frame [OF work(4, 1, 3)]
  show ?case unfolding test_inv_def
    using thread_func_excl [OF work(4, 1) inv(1)] thread_func_rounds [OF work(4, 1) inv(1, 2)] thread_func_times [OF work(4, 1) inv(1-3)]
      frame(2) [OF inv(4)] main_inv_grows [OF inv(5) frame(1)] by simp
next
  case (take_int t s i)
  let ?s = "s\<lparr>pending := pending s - {i}, isr := (isr s)(t := Some (i, False))\<rparr>"
  have "grows s ?s" using take_int by (auto simp: grows_def)
  moreover have "main_inv (main_where s) s" using take_int(7) by (simp add: test_inv_def)
  ultimately have "main_inv (main_where ?s) ?s" using main_inv_grows by blast
  moreover have "excl_inv ?s \<and> rounds_inv ?s \<and> times_inv ?s" using take_int(7) by (rule test_inv_frame) simp_all
  moreover have "ints_inv s" using take_int(7) by (simp add: test_inv_def)
  then have "ints_inv ?s" using take_int(1, 3, 6) by (rule take_int_ints)
  ultimately show ?case unfolding test_inv_def by blast
next
  case (handle t s s')
  note frame = interrupt_handler_frame [OF handle(3)]
  have "main_inv (main_where s) s" using handle(4) by (simp add: test_inv_def)
  then have "main_inv (main_where s') s'" using frame(6) by (rule main_inv_grows)
  moreover have "excl_inv s' \<and> rounds_inv s' \<and> times_inv s'" using handle(4) frame(1-5) by (rule test_inv_frame)
  moreover have "ints_inv s" using handle(4) by (simp add: test_inv_def)
  then have "ints_inv s'" using handle(1, 3) by (rule interrupt_handler_ints)
  ultimately show ?case unfolding test_inv_def by blast
next
  case (main s s')
  have "excl_inv s' \<and> rounds_inv s' \<and> times_inv s'" using main(3) main_thread_frame [OF main(2)] by (rule test_inv_frame)
  moreover have "ints_inv s'" "main_inv (main_where s') s'"
    using main(3) main_thread_ints [OF main(2)] main_thread_main_inv [OF main(2)] by (simp_all add: test_inv_def)
  ultimately show ?case unfolding test_inv_def by blast
next
  case (tick s d)
  let ?s = "s\<lparr>clock := clock s + d\<rparr>"
  have "main_inv (main_where s) s" using tick(3) by (simp add: test_inv_def)
  then have "main_inv (main_where ?s) ?s" by (rule main_inv_grows) (simp add: grows_def)
  moreover have "times_inv s" using tick(3) by (simp add: test_inv_def)
  then have "times_inv ?s" using tick(2) by (rule tick_times)
  moreover have "excl_inv ?s" "rounds_inv ?s" "ints_inv ?s"
    using tick(3) by (simp_all add: test_inv_def excl_inv_def rounds_inv_def recorded_def ints_inv_def tid_total_def in_handler_def half_counted_def)
  ultimately show ?case unfolding test_inv_def by blast
qed

lemma test_inv_reachable: "lock_step\<^sup>*\<^sup>* s0 s \<Longrightarrow> run_start s0 \<Longrightarrow> test_inv s"
  by (induction rule: rtranclp_induct) (auto intro: test_inv_start test_inv_step)

section \<open>The verdict\<close>

lemma finished_records:
  assumes inv: "test_inv s" and fin: "main_where s = Finished"
  shows "total_records s = max_rounds" "length (lock_records s) = max_rounds"
    "r < max_rounds \<Longrightarrow> interval s r (start_time (lock_records s ! r)) (end_time (lock_records s ! r))"
proof -
  have rounds: "rounds_inv s" and main: "main_inv Finished s" using inv fin by (simp_all add: test_inv_def)
  show "total_records s = max_rounds" using main by (auto simp: total_records_def)
  show "length (lock_records s) = max_rounds" using rounds by (simp add: rounds_inv_def)
  assume r: "r < max_rounds"
  then have "recorded s r \<or> (\<exists>t \<in> worker_ids. round_of (at s t) = Some r)" using rounds main unfolding rounds_inv_def by force
  then have "recorded s r" using main by auto
  then show "interval s r (start_time (lock_records s ! r)) (end_time (lock_records s ! r))" using r by (simp add: interval_def)
qed

lemma finished_no_overlaps:
  assumes "c_qsort qsort" "test_inv s" "main_where s = Finished"
  shows "verify_no_overlaps qsort s"
proof -
  note fin = finished_records [OF assms(2, 3)]
  have times: "times_inv s" using assms(2) by (simp add: test_inv_def)
  have "\<forall>x \<in> set (lock_records s). start_time x < end_time x"
    using fin(2) times_invD(2) [OF times fin(3)] by (auto simp: in_set_conv_nth)
  moreover have "sorted_wrt disjoint_records (lock_records s)" unfolding sorted_wrt_iff_nth_less
    using fin(2) times_invD(3) [OF times fin(3) fin(3)] by (auto simp: disjoint_records_def)
  ultimately show ?thesis using c_qsort.no_overlaps_iff [OF assms(1)] fin(1, 2) by (simp add: verify_no_overlaps_def)
qed

lemma finished_counts:
  assumes "test_inv s" "main_where s = Finished"
  shows "total_int_count s = swi_issued_count s * MAX_INT_NUM" "total_ints_by_irq s = swi_issued_count s * MAX_INT_NUM" "ints_by_tid s 0 = 0"
proof -
  have ints: "ints_inv s" and main: "main_inv Finished s" using assms by (simp_all add: test_inv_def)
  have "in_handler s = 0" "half_counted s = 0" using main by (simp_all add: in_handler_def half_counted_def)
  then have tot: "tid_total s = swi_issued_count s * MAX_INT_NUM" "(\<Sum>i<MAX_INT_NUM. ints_by_irq s i) = tid_total s"
    using ints main by (simp_all add: ints_inv_def)
  show zero: "ints_by_tid s 0 = 0" using ints by (simp add: ints_inv_def)
  have "total_int_count s = (\<Sum>j<N_THREADS + 1. ints_by_tid s j)"
    by (simp add: total_int_count_def interv_sum_list_conv_sum_set_nat lessThan_atLeast0 del: upt_Suc)
  then show "total_int_count s = swi_issued_count s * MAX_INT_NUM" using tot(1) zero poll_total by simp
  show "total_ints_by_irq s = swi_issued_count s * MAX_INT_NUM"
    using tot by (simp add: total_ints_by_irq_def interv_sum_list_conv_sum_set_nat lessThan_atLeast0)
qed

text \<open>C22: however the workers, their interrupts and the main thread interleave, a run that ends has lost no interrupt and no record:
  the assertion on the number of interrupts holds, none was taken by the main thread, the counts by thread and by interrupt agree
  and no two intervals overlap.  The test returns true exactly when every worker took an interrupt and the main thread raised them at
  least twice.\<close>

theorem run_lock_test_verdict:
  assumes "c_qsort qsort" "run_start s0" "lock_step\<^sup>*\<^sup>* s0 s" "main_where s = Finished"
  shows "run_lock_test qsort s = Ok ((\<forall>t \<in> worker_ids. 0 < ints_by_tid s t) \<and> 2 \<le> swi_issued_count s)"
proof -
  have inv: "test_inv s" using assms(2, 3) test_inv_reachable by blast
  note counts = finished_counts [OF inv assms(4)] and verified = finished_no_overlaps [OF assms(1) inv assms(4)]
  have "(\<exists>i \<in> set [1..<N_THREADS + 1]. ints_by_tid s i = 0) \<longleftrightarrow> \<not> (\<forall>t \<in> worker_ids. 0 < ints_by_tid s t)"
    by (auto simp: worker_ids_def)
  moreover have "swi_issued_count s * MAX_INT_NUM \<le> 10 \<longleftrightarrow> \<not> 2 \<le> swi_issued_count s" by (auto simp: MAX_INT_NUM_def)
  ultimately show ?thesis using counts verified by (auto simp: run_lock_test_def)
qed

section \<open>Bounds\<close>

definition gone :: "lock_test \<Rightarrow> nat set" where
  "gone s = {t \<in> worker_ids. at s t = Quit \<or> at s t = Stopped}"

definition counter_inv :: "lock_test \<Rightarrow> bool" where
  "counter_inv s \<longleftrightarrow> global_round_counter s \<le> max_rounds + card (gone s)"

lemma gone_finite: "finite (gone s)" "card (gone s) \<le> N_THREADS"
proof -
  have "gone s \<subseteq> worker_ids" by (auto simp: gone_def)
  then show "finite (gone s)" "card (gone s) \<le> N_THREADS"
    using card_mono [of worker_ids "gone s"] by (auto simp: worker_ids_def intro: finite_subset)
qed

lemma counter_inv_mono:
  "counter_inv s \<Longrightarrow> global_round_counter s' \<le> global_round_counter s \<Longrightarrow> gone s \<subseteq> gone s' \<Longrightarrow> counter_inv s'"
  unfolding counter_inv_def by (meson add_le_mono card_mono gone_finite(1) le_refl le_trans)

lemma thread_func_counter:
  assumes "thread_func t s = Some s'" "t \<in> worker_ids" "counter_inv s"
  shows "counter_inv s'"
proof (cases "at s t")
  case Claim
  let ?r = "global_round_counter s"
  have t: "t \<notin> gone s" using Claim by (simp add: gone_def)
  show ?thesis
  proof (cases "max_rounds \<le> ?r")
    case True
    then have "gone s' = insert t (gone s)" "global_round_counter s' = ?r + 1"
      using assms(1, 2) Claim by (auto simp: thread_func_def goto_def gone_def split: if_splits)
    then show ?thesis using t gone_finite(1) assms(3) by (simp add: counter_inv_def)
  next
    case False
    then have "global_round_counter s' = ?r + 1" using assms(1) Claim by (auto simp: thread_func_def goto_def Let_def)
    then show ?thesis using False by (simp add: counter_inv_def)
  qed
qed (use assms(1) in \<open>auto simp: thread_func_def goto_def gone_def Let_def split: if_splits intro!: counter_inv_mono [OF assms(3)]\<close>)

lemma counter_inv_step: "lock_step s s' \<Longrightarrow> counter_inv s \<Longrightarrow> counter_inv s'"
proof (induction rule: lock_step.induct)
  case (work t s s')
  then show ?case using thread_func_counter by blast
next
  case (handle t s s')
  then show ?case using interrupt_handler_frame(1, 3) by (intro counter_inv_mono [of s s']) (simp_all add: gone_def)
next
  case (main s s')
  then show ?case using main_thread_frame(1, 3) by (intro counter_inv_mono [of s s']) (simp_all add: gone_def)
qed (simp_all add: counter_inv_def gone_def)

lemma counter_inv_reachable: "lock_step\<^sup>*\<^sup>* s0 s \<Longrightarrow> run_start s0 \<Longrightarrow> counter_inv s"
proof (induction rule: rtranclp_induct)
  case base
  then show ?case by (simp add: counter_inv_def run_start_def reset_test_state_def)
qed (auto intro: counter_inv_step)

text \<open>The counter of rounds exceeds the number of records by at most the number of workers, and every record is stored inside
  the array.\<close>

lemma round_counter_bounds:
  assumes "run_start s0" "lock_step\<^sup>*\<^sup>* s0 s"
  shows "global_round_counter s \<le> max_rounds + N_THREADS \<and>
    (\<forall>t r st en. t \<in> worker_ids \<longrightarrow> at s t = Store r st en \<longrightarrow> r < length (lock_records s))"
proof -
  have "global_round_counter s \<le> max_rounds + N_THREADS"
    using counter_inv_reachable [OF assms(2, 1)] gone_finite(2) [of s] by (simp add: counter_inv_def)
  moreover have "rounds_inv s" using test_inv_reachable [OF assms(2, 1)] by (simp add: test_inv_def)
  then have "r < length (lock_records s)" if "t \<in> worker_ids" "at s t = Store r st en" for t r st en
    using that unfolding rounds_inv_def by (metis round_of.simps(4))
  ultimately show ?thesis by blast
qed

section \<open>Runs\<close>

definition first_state :: lock_test where
  "first_state = \<lparr>lock_bit = False, clock = 0, global_round_counter = 0, test_complete = False,
     lock_records = replicate max_rounds zero_record, at = (\<lambda>t. Test), pending = {}, isr = (\<lambda>t. None), ints_by_irq = (\<lambda>i. 0),
     ints_by_tid = (\<lambda>i. 0), swi_issued_count = 0, main_where = Check, aborted = False\<rparr>"

lemma first_state_start: "run_start first_state"
  by (simp add: run_start_def reset_test_state_def first_state_def)

text \<open>One worker alone: a whole round, its last turn, and an interrupt it takes at the head of its loop.\<close>

definition one_round :: "nat \<Rightarrow> lock_test \<Rightarrow> lock_test" where
  "one_round t s = s\<lparr>global_round_counter := global_round_counter s + 1, clock := clock s + 1,
     lock_records := (lock_records s)[global_round_counter s :=
       \<lparr>start_time = clock s, end_time = clock s + 1, thread_id = t, round = global_round_counter s\<rparr>]\<rparr>"

definition last_turn :: "nat \<Rightarrow> lock_test \<Rightarrow> lock_test" where
  "last_turn t s = s\<lparr>global_round_counter := global_round_counter s + 1, at := (at s)(t := Stopped)\<rparr>"

definition serve :: "nat \<times> nat \<Rightarrow> lock_test \<Rightarrow> lock_test" where
  "serve ti s = s\<lparr>pending := pending s - {snd ti}, ints_by_irq := (ints_by_irq s)(snd ti := ints_by_irq s (snd ti) + 1),
     ints_by_tid := (ints_by_tid s)(fst ti := ints_by_tid s (fst ti) + 1)\<rparr>"

definition idle :: "nat \<Rightarrow> lock_test \<Rightarrow> bool" where
  "idle t s \<longleftrightarrow> t \<in> worker_ids \<and> \<not> aborted s \<and> isr s t = None \<and> at s t = Test"

fun turns :: "nat \<Rightarrow> nat \<Rightarrow> lock_test \<Rightarrow> lock_test option" where
  "turns 0 t s = Some s"
| "turns (Suc n) t s = (if aborted s then None else case thread_func t s of None \<Rightarrow> None | Some s1 \<Rightarrow> turns n t s1)"

lemma turns_steps: "turns n t s = Some s' \<Longrightarrow> t \<in> worker_ids \<Longrightarrow> isr s t = None \<Longrightarrow> lock_step\<^sup>*\<^sup>* s s'"
proof (induction n t s rule: turns.induct)
  case (2 n t s)
  then obtain s1 where s1: "\<not> aborted s" "thread_func t s = Some s1" "turns n t s1 = Some s'" by (auto split: if_splits option.splits)
  moreover have "isr s1 = isr s"
    using s1(2) by (cases "at s t") (auto simp: thread_func_def goto_def Let_def split: if_splits)
  ultimately show ?case using 2 lock_step.work by (metis converse_rtranclp_into_rtranclp)
qed simp

lemma one_round_steps:
  assumes "idle t s" "\<not> lock_bit s" "\<not> test_complete s" "global_round_counter s < max_rounds" "clock s + 1 < 2 ^ 64"
  shows "lock_step\<^sup>*\<^sup>* s (one_round t s)"
proof -
  let ?r = "global_round_counter s" and ?c = "clock s"
  let ?w = "(goto t (Work ?r ?c) s)\<lparr>lock_bit := True, global_round_counter := ?r + 1\<rparr>"
  have t: "t \<in> worker_ids" "\<not> aborted s" "isr s t = None" "at s t = Test" using assms(1) by (simp_all add: idle_def)
  have clk: "?c mod 18446744073709551616 = ?c" "(?c + 1) mod 18446744073709551616 = ?c + 1" using assms(5) by simp_all
  have triv: "(at s)(t := Test) = at s" using t(4) by auto
  have "turns (Suc (Suc (Suc (Suc 0)))) t s = Some ?w"
    using t assms clk by (simp add: thread_func_def goto_def Let_def read_clock_eq)
  then have "lock_step\<^sup>*\<^sup>* s ?w" using t(1, 3) by (rule turns_steps)
  moreover have "lock_step ?w (?w\<lparr>clock := ?c + 1\<rparr>)" using lock_step.tick [of ?w 1] t(2) assms(5) by (simp add: goto_def)
  moreover have "turns (Suc (Suc (Suc 0))) t (?w\<lparr>clock := ?c + 1\<rparr>) = Some (one_round t s)"
    using t assms clk triv by (simp add: thread_func_def goto_def Let_def read_clock_eq one_round_def)
  then have "lock_step\<^sup>*\<^sup>* (?w\<lparr>clock := ?c + 1\<rparr>) (one_round t s)"
    by (rule turns_steps) (use t(1, 3) in \<open>simp_all add: goto_def\<close>)
  ultimately show ?thesis by (metis rtranclp.rtrancl_into_rtrancl rtranclp_trans)
qed

lemma last_turn_steps:
  assumes "idle t s" "\<not> lock_bit s" "\<not> test_complete s" "max_rounds \<le> global_round_counter s"
  shows "lock_step\<^sup>*\<^sup>* s (last_turn t s)"
proof -
  have t: "t \<in> worker_ids" "\<not> aborted s" "isr s t = None" "at s t = Test" using assms(1) by (simp_all add: idle_def)
  have "s\<lparr>lock_bit := False\<rparr> = s" using assms(2) by (cases s) simp
  then have "turns (Suc (Suc (Suc (Suc 0)))) t s = Some (last_turn t s)"
    using t assms by (cases s) (simp add: thread_func_def goto_def Let_def last_turn_def)
  then show ?thesis using t(1, 3) by (rule turns_steps)
qed

lemma serve_steps:
  assumes "idle t s" "i \<in> pending s"
  shows "lock_step\<^sup>*\<^sup>* s (serve (t, i) s)"
proof -
  have t: "t \<in> worker_ids" "\<not> aborted s" "isr s t = None" "at s t = Test" using assms(1) by (simp_all add: idle_def)
  let ?a = "s\<lparr>pending := pending s - {i}, isr := (isr s)(t := Some (i, False))\<rparr>"
  let ?b = "?a\<lparr>ints_by_irq := (ints_by_irq s)(i := ints_by_irq s i + 1), isr := (isr s)(t := Some (i, True))\<rparr>"
  have "lock_step s ?a" using lock_step.take_int [OF t(1-3) _ _ assms(2)] t(4) by (simp add: waits_for_lock_def)
  moreover have "lock_step ?a ?b" using t by (intro lock_step.handle [of t]) (simp_all add: interrupt_handler_def)
  moreover have "(isr s)(t := None) = isr s" using t(3) by auto
  then have "lock_step ?b (serve (t, i) s)" using t by (intro lock_step.handle [of t]) (simp_all add: interrupt_handler_def serve_def)
  ultimately show ?thesis by (meson converse_rtranclp_into_rtranclp rtranclp.rtrancl_refl)
qed

lemma serve_all_steps:
  "distinct (map snd tis) \<Longrightarrow> \<forall>(t, i) \<in> set tis. idle t s \<and> i \<in> pending s \<Longrightarrow> lock_step\<^sup>*\<^sup>* s (fold serve tis s)"
proof (induction tis arbitrary: s)
  case (Cons ti tis)
  have "lock_step\<^sup>*\<^sup>* s (serve ti s)" using serve_steps [of "fst ti" s "snd ti"] Cons.prems(2) by (simp add: case_prod_unfold)
  moreover have "\<forall>(t, i) \<in> set tis. idle t (serve ti s) \<and> i \<in> pending (serve ti s)"
    using Cons.prems by (force simp: serve_def idle_def)
  then have "lock_step\<^sup>*\<^sup>* (serve ti s) (fold serve tis (serve ti s))" using Cons by simp
  ultimately show ?case by simp
qed simp

lemma poll_steps: "\<not> aborted s \<Longrightarrow> n \<le> N_THREADS + 1 \<Longrightarrow>
    lock_step\<^sup>*\<^sup>* (s\<lparr>main_where := Poll 0 0\<rparr>) (s\<lparr>main_where := Poll n (\<Sum>j<n. ints_by_tid s j)\<rparr>)"
proof (induction n)
  case (Suc n)
  then have "lock_step (s\<lparr>main_where := Poll n (\<Sum>j<n. ints_by_tid s j)\<rparr>) (s\<lparr>main_where := Poll (Suc n) (\<Sum>j<Suc n. ints_by_tid s j)\<rparr>)"
    by (intro lock_step.main) (simp_all add: main_thread_def)
  then show ?case using Suc by (simp add: rtranclp.rtrancl_into_rtrancl)
qed simp

text \<open>The main thread raises all interrupts, each worker takes two, and the main thread has seen them.\<close>

definition between :: "lock_test \<Rightarrow> bool" where
  "between s \<longleftrightarrow> (\<forall>t \<in> worker_ids. idle t s) \<and> \<not> aborted s \<and> \<not> lock_bit s \<and> \<not> test_complete s \<and> main_where s = Check \<and> pending s = {} \<and>
     ints_by_tid s 0 = 0 \<and> (\<forall>t \<in> worker_ids. ints_by_tid s t = 2 * swi_issued_count s)"

definition shares :: "(nat \<times> nat) list" where
  "shares = [(1, 0), (1, 1), (2, 2), (2, 3), (3, 4), (3, 5), (4, 6), (4, 7)]"

lemma issue_round:
  assumes "between s" "global_round_counter s < max_rounds"
  shows "\<exists>s'. lock_step\<^sup>*\<^sup>* s s' \<and> between s' \<and> swi_issued_count s' = swi_issued_count s + 1 \<and>
    global_round_counter s' = global_round_counter s \<and> clock s' = clock s"
proof -
  let ?i = "s\<lparr>pending := {0..<MAX_INT_NUM}, swi_issued_count := swi_issued_count s + 1, main_where := Poll 0 0\<rparr>"
  let ?f = "fold serve shares ?i"
  let ?d = "?f\<lparr>main_where := Check\<rparr>"
  have s: "\<forall>t \<in> worker_ids. idle t s" "\<not> aborted s" "pending s = {}" "main_where s = Check" "ints_by_tid s 0 = 0"
    "\<forall>t \<in> worker_ids. ints_by_tid s t = 2 * swi_issued_count s" using assms(1) by (simp_all add: between_def)
  have "lock_step s (s\<lparr>main_where := Issue\<rparr>)" using s assms(2) by (intro lock_step.main) (simp_all add: main_thread_def)
  moreover have "lock_step (s\<lparr>main_where := Issue\<rparr>) ?i" using s by (intro lock_step.main) (simp_all add: main_thread_def)
  moreover have "lock_step\<^sup>*\<^sup>* ?i ?f"
    using s(1) by (intro serve_all_steps) (simp_all add: shares_def worker_ids_eq idle_def MAX_INT_NUM_def)
  moreover have f: "ints_by_tid ?f 0 = 0" "\<forall>t \<in> worker_ids. ints_by_tid ?f t = 2 * swi_issued_count ?f" "swi_issued_count ?f = swi_issued_count s + 1"
    "pending ?f = {}" "global_round_counter ?f = global_round_counter s" "clock ?f = clock s" "at ?f = at s" "isr ?f = isr s" "main_where ?f = Poll 0 0"
    "aborted ?f = aborted s" "lock_bit ?f = lock_bit s" "test_complete ?f = test_complete s"
    using s(5, 6) by (simp_all add: shares_def serve_def worker_ids_eq) (auto simp: MAX_INT_NUM_def)
  have "?f\<lparr>main_where := Poll 0 0\<rparr> = ?f" using f(9) by (cases ?f) simp
  then have "lock_step\<^sup>*\<^sup>* ?f (?f\<lparr>main_where := Poll (N_THREADS + 1) (\<Sum>j<N_THREADS + 1. ints_by_tid ?f j)\<rparr>)"
    using poll_steps [of ?f "N_THREADS + 1"] s(2) f(10) by simp
  moreover have "(\<Sum>j<N_THREADS + 1. ints_by_tid ?f j) = swi_issued_count ?f * MAX_INT_NUM"
    using f(1, 2) unfolding poll_total by (simp add: tid_total_def worker_ids_eq MAX_INT_NUM_def)
  then have "lock_step (?f\<lparr>main_where := Poll (N_THREADS + 1) (\<Sum>j<N_THREADS + 1. ints_by_tid ?f j)\<rparr>) ?d"
    using s(2) f(10) by (intro lock_step.main) (simp_all add: main_thread_def)
  ultimately have "lock_step\<^sup>*\<^sup>* s ?d" by (meson converse_rtranclp_into_rtranclp rtranclp.rtrancl_into_rtrancl rtranclp_trans)
  moreover have "between ?d" using assms(1) f by (simp add: between_def idle_def)
  ultimately show ?thesis using f by (intro exI [of _ ?d]) simp
qed

lemma rounds_steps:
  "idle t s \<Longrightarrow> \<not> lock_bit s \<Longrightarrow> \<not> test_complete s \<Longrightarrow> global_round_counter s + n \<le> max_rounds \<Longrightarrow> clock s + n < 2 ^ 64 \<Longrightarrow>
    \<exists>recs. lock_step\<^sup>*\<^sup>* s (s\<lparr>global_round_counter := global_round_counter s + n, clock := clock s + n, lock_records := recs\<rparr>)"
proof (induction n)
  case (Suc n)
  then obtain recs where recs: "lock_step\<^sup>*\<^sup>* s (s\<lparr>global_round_counter := global_round_counter s + n, clock := clock s + n, lock_records := recs\<rparr>)"
    (is "lock_step\<^sup>*\<^sup>* s ?s") by auto
  moreover have "lock_step\<^sup>*\<^sup>* ?s (one_round t ?s)" using Suc.prems by (intro one_round_steps) (simp_all add: idle_def)
  ultimately show ?case by (intro exI [of _ "lock_records (one_round t ?s)"]) (simp add: one_round_def)
qed (auto intro: exI [of _ "lock_records s"])

lemma all_quit_steps:
  assumes "\<forall>t \<in> set ts. idle t s" "distinct ts" "\<not> lock_bit s" "\<not> test_complete s" "max_rounds \<le> global_round_counter s"
  shows "lock_step\<^sup>*\<^sup>* s (fold last_turn ts s)"
  using assms
proof (induction ts arbitrary: s)
  case (Cons t ts)
  then have "lock_step\<^sup>*\<^sup>* s (last_turn t s)" by (intro last_turn_steps) simp_all
  moreover have "\<forall>u \<in> set ts. idle u (last_turn t s)" using Cons.prems(1, 2) by (auto simp: idle_def last_turn_def)
  then have "lock_step\<^sup>*\<^sup>* (last_turn t s) (fold last_turn ts (last_turn t s))"
    by (rule Cons.IH) (use Cons.prems in \<open>simp_all add: last_turn_def\<close>)
  ultimately show ?case by simp
qed simp

text \<open>All workers do their rounds and leave, while the main thread stays where it is.\<close>

lemma worker_ids_done:
  assumes "\<forall>t \<in> worker_ids. idle t s" "\<not> lock_bit s" "\<not> test_complete s" "global_round_counter s = 0" "clock s + max_rounds < 2 ^ 64"
  shows "\<exists>s'. lock_step\<^sup>*\<^sup>* s s' \<and> (\<forall>t \<in> worker_ids. at s' t = Stopped \<and> isr s' t = None) \<and> max_rounds \<le> global_round_counter s' \<and>
    main_where s' = main_where s \<and> pending s' = pending s \<and> ints_by_tid s' = ints_by_tid s \<and> swi_issued_count s' = swi_issued_count s \<and>
    aborted s' = aborted s"
proof -
  have "idle 1 s" using assms(1) by (simp add: worker_ids_eq)
  then obtain recs where "lock_step\<^sup>*\<^sup>* s (s\<lparr>global_round_counter := max_rounds, clock := clock s + max_rounds, lock_records := recs\<rparr>)"
    (is "lock_step\<^sup>*\<^sup>* s ?s") using rounds_steps [of 1 s max_rounds] assms by auto
  moreover have "lock_step\<^sup>*\<^sup>* ?s (fold last_turn [1, 2, 3, 4] ?s)"
    using assms by (intro all_quit_steps) (simp_all add: worker_ids_eq idle_def)
  ultimately have "lock_step\<^sup>*\<^sup>* s (fold last_turn [1, 2, 3, 4] ?s)" by simp
  moreover have "\<forall>t \<in> worker_ids. isr s t = None" using assms(1) by (simp add: idle_def)
  ultimately show ?thesis by (intro exI [of _ "fold last_turn [1, 2, 3, 4] ?s"]) (simp add: last_turn_def worker_ids_eq)
qed

theorem run_lock_test_verdict_witness:
  "\<exists>s. lock_step\<^sup>*\<^sup>* first_state s \<and> main_where s = Finished \<and> run_lock_test sort_records s = Ok True"
proof -
  have "between first_state" by (simp add: between_def first_state_def idle_def)
  moreover have cnt: "global_round_counter first_state = 0" "clock first_state = 0" "swi_issued_count first_state = 0" "0 < max_rounds"
    by (simp_all add: first_state_def max_rounds_def N_THREADS_def ROUNDS_PER_THREAD_def)
  ultimately obtain s1 where s1: "lock_step\<^sup>*\<^sup>* first_state s1" "between s1" "swi_issued_count s1 = 1" "global_round_counter s1 = 0" "clock s1 = 0"
    using issue_round [of first_state] by auto
  then obtain s2 where s2: "lock_step\<^sup>*\<^sup>* first_state s2" "between s2" "swi_issued_count s2 = 2" "global_round_counter s2 = 0" "clock s2 = 0"
    using issue_round [of s1] cnt(4) by (auto dest: rtranclp_trans)
  have "clock s2 + max_rounds < 2 ^ 64" using s2(5) by (simp add: max_rounds_def N_THREADS_def ROUNDS_PER_THREAD_def)
  then obtain s3 where s3: "lock_step\<^sup>*\<^sup>* s2 s3" "\<forall>t \<in> worker_ids. at s3 t = Stopped \<and> isr s3 t = None" "max_rounds \<le> global_round_counter s3"
      "main_where s3 = Check" "ints_by_tid s3 = ints_by_tid s2" "swi_issued_count s3 = 2" "\<not> aborted s3"
    using worker_ids_done [of s2] s2 by (auto simp: between_def)
  let ?e = "s3\<lparr>test_complete := True, main_where := Finished\<rparr>"
  have "lock_step s3 (s3\<lparr>main_where := Complete\<rparr>)" using s3 by (intro lock_step.main) (simp_all add: main_thread_def)
  moreover have "lock_step (s3\<lparr>main_where := Complete\<rparr>) (s3\<lparr>test_complete := True, main_where := Join\<rparr>)"
    using s3 by (intro lock_step.main) (simp_all add: main_thread_def)
  moreover have "lock_step (s3\<lparr>test_complete := True, main_where := Join\<rparr>) ?e"
    using s3 by (intro lock_step.main) (simp_all add: main_thread_def)
  ultimately have run: "lock_step\<^sup>*\<^sup>* first_state ?e"
    using s2(1) s3(1) by (meson rtranclp.rtrancl_into_rtrancl rtranclp_trans)
  have "\<forall>t \<in> worker_ids. 0 < ints_by_tid s3 t" using s2(2, 3) s3(5) by (simp add: between_def)
  then show ?thesis using run run_lock_test_verdict [OF record_sort.c_qsort_axioms first_state_start run] s3(6) by (intro exI [of _ ?e]) simp
qed

text \<open>The main thread can wait for ever: it finds rounds left, all workers finish and leave, and the interrupts it raises then are
  taken by nobody.\<close>

definition forsaken :: "lock_test \<Rightarrow> bool" where
  "forsaken s \<longleftrightarrow> (\<forall>t \<in> worker_ids. at s t = Stopped \<and> isr s t = None) \<and> ints_by_tid s 0 + tid_total s < swi_issued_count s * MAX_INT_NUM \<and>
     (\<exists>tid tot. main_where s = Poll tid tot \<and> tid \<le> N_THREADS + 1 \<and> tot \<le> (\<Sum>j<tid. ints_by_tid s j))"

lemma forsaken_step: "lock_step s s' \<Longrightarrow> forsaken s \<Longrightarrow> forsaken s'"
proof (induction rule: lock_step.induct)
  case (main s s')
  then obtain tid tot where p: "main_where s = Poll tid tot" "tid \<le> N_THREADS + 1" "tot \<le> (\<Sum>j<tid. ints_by_tid s j)"
    by (auto simp: forsaken_def)
  have "tot < swi_issued_count s * MAX_INT_NUM" if "\<not> tid \<le> N_THREADS"
  proof -
    have "tid = N_THREADS + 1" using p(2) that by simp
    then have "tot \<le> ints_by_tid s 0 + tid_total s" using p(3) poll_total [of s] by simp
    then show ?thesis using main(3) by (simp add: forsaken_def)
  qed
  then show ?case using main p by (auto simp: main_thread_def forsaken_def tid_total_def split: if_splits)
qed (auto simp: forsaken_def thread_func_def interrupt_handler_def tid_total_def)

lemma forsaken_reach: "lock_step\<^sup>*\<^sup>* s s' \<Longrightarrow> forsaken s \<Longrightarrow> forsaken s'"
  by (induction rule: rtranclp_induct) (auto intro: forsaken_step)

lemma run_lock_test_can_hang:
  "\<exists>s. lock_step\<^sup>*\<^sup>* first_state s \<and> (\<forall>s'. lock_step\<^sup>*\<^sup>* s s' \<longrightarrow> main_where s' \<noteq> Finished)"
proof -
  let ?a = "first_state\<lparr>main_where := Issue\<rparr>"
  have max: "0 < max_rounds" "max_rounds < 2 ^ 64" by (simp_all add: max_rounds_def N_THREADS_def ROUNDS_PER_THREAD_def)
  have a: "lock_step first_state ?a" using max(1) by (intro lock_step.main) (simp_all add: main_thread_def first_state_def)
  have "\<forall>t \<in> worker_ids. idle t ?a" by (simp add: idle_def first_state_def)
  then obtain s where s: "lock_step\<^sup>*\<^sup>* ?a s" "\<forall>t \<in> worker_ids. at s t = Stopped \<and> isr s t = None" "main_where s = Issue"
      "ints_by_tid s = (\<lambda>i. 0)" "\<not> aborted s"
    using worker_ids_done [of ?a] max(2) by (auto simp: first_state_def)
  let ?b = "s\<lparr>pending := pending s \<union> {0..<MAX_INT_NUM}, swi_issued_count := swi_issued_count s + 1, main_where := Poll 0 0\<rparr>"
  have "lock_step s ?b" using s by (intro lock_step.main) (simp_all add: main_thread_def)
  then have "lock_step\<^sup>*\<^sup>* first_state ?b" using a s(1) by (meson converse_rtranclp_into_rtranclp rtranclp.rtrancl_into_rtrancl)
  moreover have "forsaken ?b" using s by (simp add: forsaken_def tid_total_def MAX_INT_NUM_def)
  then have "forsaken s'" if "lock_step\<^sup>*\<^sup>* ?b s'" for s' using forsaken_reach that by blast
  then have "\<forall>s'. lock_step\<^sup>*\<^sup>* ?b s' \<longrightarrow> main_where s' \<noteq> Finished" by (fastforce simp: forsaken_def)
  ultimately show ?thesis by blast
qed

end
