(* ===== verification/Udma.thy ===== *)
theory Udma
  imports Min_Libc
begin

text \<open>
  The DMA helpers of \<^verbatim>\<open>include/dma.h\<close> and the program \<^verbatim>\<open>src/udma.c\<close>: two chained transfers in a small and in a
  large buffer.  The descriptors are C structures of the tool chain; they are records here, in a store of their own by address.  The DMA
  engine is a parameter with its laws in the locale \<open>udma_engine\<close>.
\<close>

section \<open>Descriptors\<close>

record udma_desc0 =
  next_desc :: u32
  dstate :: u32
  order :: u32
  srcbypass :: u32
  dstbypass :: u32
  srccomp :: u32
  dstcomp :: u32
  desctype :: u32
  xfer_length :: u32
  src :: u32
  dst :: u32

record udma_desc1 = udma_desc0 +
  roiwidth :: u32
  roiheight :: u32
  srcstride :: u32
  dststride :: u32
  srcwidthoffset :: u32
  dstwidthoffset :: u32

definition HEXAGON_UDMA_DESC_ORDER_NOORDER :: u32 where "HEXAGON_UDMA_DESC_ORDER_NOORDER = 0"
definition HEXAGON_UDMA_DESC_BYPASS_OFF :: u32 where "HEXAGON_UDMA_DESC_BYPASS_OFF = 0"
definition HEXAGON_UDMA_DESC_COMP_NONE :: u32 where "HEXAGON_UDMA_DESC_COMP_NONE = 0"
definition HEXAGON_UDMA_DESC_DESCTYPE_TYPE0 :: u32 where "HEXAGON_UDMA_DESC_DESCTYPE_TYPE0 = 0"
definition HEXAGON_UDMA_DESC_DESCTYPE_TYPE1 :: u32 where "HEXAGON_UDMA_DESC_DESCTYPE_TYPE1 = 1"

definition DMA_XFER_SIZE :: "u32 \<Rightarrow> u32" where "DMA_XFER_SIZE x = x div 8"
definition HALF_SIZE :: "u32 \<Rightarrow> u32" where "HALF_SIZE x = x div 2"
definition QUARTER_SIZE :: "u32 \<Rightarrow> u32" where "QUARTER_SIZE x = x div 4"
definition ALIGN :: u32 where "ALIGN = 1024 * 32"
definition DESC_ALIGN :: u32 where "DESC_ALIGN = 1024 * 8"
definition SMALL_SIZE :: u32 where "SMALL_SIZE = 1024 * 1024 * 1"
definition LARGE_SIZE :: u32 where "LARGE_SIZE = 1024 * 1024 * 4"

definition fill_descriptor0 :: "u32 \<Rightarrow> u32 \<Rightarrow> u32 \<Rightarrow> u32 \<Rightarrow> udma_desc0" where
  "fill_descriptor0 s d len nxt =
     \<lparr>next_desc = nxt, dstate = 0, order = HEXAGON_UDMA_DESC_ORDER_NOORDER, srcbypass = HEXAGON_UDMA_DESC_BYPASS_OFF,
      dstbypass = HEXAGON_UDMA_DESC_BYPASS_OFF, srccomp = HEXAGON_UDMA_DESC_COMP_NONE, dstcomp = HEXAGON_UDMA_DESC_COMP_NONE,
      desctype = HEXAGON_UDMA_DESC_DESCTYPE_TYPE0, xfer_length = len, src = s, dst = d\<rparr>"

definition fill_descriptor1 ::
  "u32 \<Rightarrow> u32 \<Rightarrow> u32 \<Rightarrow> u32 \<Rightarrow> u32 \<Rightarrow> u32 \<Rightarrow> u32 \<Rightarrow> u32 \<Rightarrow> u32 \<Rightarrow> u32 \<Rightarrow> udma_desc1" where
  "fill_descriptor1 s d len height width src_stride dst_stride src_wo dst_wo nxt =
     \<lparr>next_desc = nxt, dstate = 0, order = HEXAGON_UDMA_DESC_ORDER_NOORDER, srcbypass = HEXAGON_UDMA_DESC_BYPASS_OFF,
      dstbypass = HEXAGON_UDMA_DESC_BYPASS_OFF, srccomp = HEXAGON_UDMA_DESC_COMP_NONE, dstcomp = HEXAGON_UDMA_DESC_COMP_NONE,
      desctype = HEXAGON_UDMA_DESC_DESCTYPE_TYPE1, xfer_length = len, src = s, dst = d,
      roiwidth = width, roiheight = height, srcstride = src_stride, dststride = dst_stride,
      srcwidthoffset = src_wo, dstwidthoffset = dst_wo\<rparr>"

section \<open>The program\<close>

text \<open>A line that \<open>printf\<close> prints: the format and the numbers in it.\<close>

type_synonym line = "string \<times> u32 list"

definition fill_line :: "u32 \<Rightarrow> u32 \<Rightarrow> u32 \<Rightarrow> u32 \<Rightarrow> line" where
  "fill_line s d len nxt = (''fill desc: src %p, dst %p, len %d, next %p'', [s, d, len, nxt])"

type_synonym desc_store = "u32 \<rightharpoonup> udma_desc0"
type_synonym dma_engine = "desc_store \<Rightarrow> u32 \<Rightarrow> mem \<Rightarrow> mem option"

text \<open>The addresses of the four arrays.\<close>

record udma_layout =
  small_memory :: u32
  large_memory :: u32
  desc_buf1 :: u32
  desc_buf2 :: u32

record udma_state =
  ram :: mem
  descs :: desc_store
  printed :: "line list"

text \<open>\<open>dmstart\<close> starts the chain and \<open>dmwait\<close> waits for its end; \<open>None\<close> when it has none.\<close>

definition do_dmastart :: "dma_engine \<Rightarrow> u32 \<Rightarrow> udma_state \<Rightarrow> udma_state option" where
  "do_dmastart dma desc s = map_option (\<lambda>m. s\<lparr>ram := m\<rparr>) (dma (descs s) desc (ram s))"

definition udma_test :: "dma_engine \<Rightarrow> udma_layout \<Rightarrow> bool \<Rightarrow> string \<Rightarrow> udma_state \<Rightarrow> (udma_state, udma_state) outcome option" where
  "udma_test dma l use_small err_msg s =
     (let memory = (if use_small then small_memory l else large_memory l);
          alloc_size = (if use_small then SMALL_SIZE else LARGE_SIZE);
          memory = memory + ALIGN;
          memory = memory AND NOT (ALIGN - 1);
          src1 = memory;
          src2 = memory + QUARTER_SIZE alloc_size;
          s = s\<lparr>ram := memset src1 0xAA (DMA_XFER_SIZE alloc_size) (ram s)\<rparr>;
          s = s\<lparr>ram := memset src2 0xBB (DMA_XFER_SIZE alloc_size) (ram s)\<rparr>;
          s = s\<lparr>printed := printed s @ [(''memory at %p: src1 %p: src2 %p'', [memory, src1, src2])]\<rparr>;
          desc0_1 = desc_buf1 l;
          desc0_2 = desc_buf2 l;
          s = s\<lparr>printed := printed s @ [(''aligned: desc0_1 at %p, desc0_2 at %p'', [desc0_1, desc0_2])]\<rparr>;
          dst1 = memory + HALF_SIZE alloc_size;
          dst2 = memory + HALF_SIZE alloc_size + QUARTER_SIZE alloc_size;
          s = s\<lparr>printed := printed s @ [(''malloc memory at %p: dst1 %p: dst2 %p'', [memory, dst1, dst2])]\<rparr>;
          s = s\<lparr>descs := (descs s)(desc0_1 \<mapsto> fill_descriptor0 src1 dst1 (DMA_XFER_SIZE alloc_size) desc0_2),
                printed := printed s @ [fill_line src1 dst1 (DMA_XFER_SIZE alloc_size) desc0_2]\<rparr>;
          s = s\<lparr>descs := (descs s)(desc0_2 \<mapsto> fill_descriptor0 src2 dst2 (DMA_XFER_SIZE alloc_size) 0),
                printed := printed s @ [fill_line src2 dst2 (DMA_XFER_SIZE alloc_size) 0]\<rparr>
      in case do_dmastart dma desc0_1 s of
           None \<Rightarrow> None
         | Some s \<Rightarrow>
             let fail = False;
                 (s, fail) = (if memcmp (ram s) src1 dst1 (DMA_XFER_SIZE alloc_size) \<noteq> 0
                              then (s\<lparr>printed := printed s @ [(''first dma transfer failed'', [])]\<rparr>, True) else (s, fail));
                 (s, fail) = (if memcmp (ram s) src2 dst2 (DMA_XFER_SIZE alloc_size) \<noteq> 0
                              then (s\<lparr>printed := printed s @ [(''second dma transfer failed'', [])]\<rparr>, True) else (s, fail))
             in Some (if fail then Stop (Exit_code (- 3)) (s\<lparr>printed := printed s @ [(''FAIL'', []), (''NOTE: '' @ err_msg, [])]\<rparr>) else Ok s))"

definition udma_main :: "dma_engine \<Rightarrow> udma_layout \<Rightarrow> udma_state \<Rightarrow> (udma_state, udma_state) outcome option" where
  "udma_main dma l s =
     (case udma_test dma l True ''General DMA failure'' s of
        Some (Ok s) \<Rightarrow>
          (case udma_test dma l False ''Preload of dst buffers probably missing'' s of
             Some (Ok s) \<Rightarrow> Some (Stop (Exit_code 0) (s\<lparr>printed := printed s @ [(''PASS'', [])]\<rparr>))
           | r \<Rightarrow> r)
      | r \<Rightarrow> r)"

section \<open>The engine\<close>

text \<open>A transfer of a descriptor of type 0 copies \<open>length\<close> bytes.\<close>

definition copy_bytes :: "udma_desc0 \<Rightarrow> mem \<Rightarrow> mem" where
  "copy_bytes d m = (\<lambda>a. if unat (a - dst d) < unat (xfer_length d) then m (src d + (a - dst d)) else m a)"

definition apart :: "u32 \<Rightarrow> u32 \<Rightarrow> u32 \<Rightarrow> bool" where
  "apart a b n \<longleftrightarrow> unat n \<le> unat (a - b) \<and> unat n \<le> unat (b - a)"

locale udma_engine =
  fixes dma :: dma_engine
  assumes chain_end: "dma ds 0 m = Some m"
    and transfer: "p \<noteq> 0 \<Longrightarrow> ds p = Some d \<Longrightarrow> desctype d = 0 \<Longrightarrow> xfer_length d < 0x1000000 \<Longrightarrow> apart (src d) (dst d) (xfer_length d) \<Longrightarrow>
      dma ds p m = dma ds (next_desc d) (copy_bytes d m)"
begin

text \<open>A chain of two transfers.\<close>

lemma chain_of_two:
  assumes "p \<noteq> 0" "q \<noteq> 0" "p \<noteq> q" "len < 0x1000000" "apart s1 d1 len" "apart s2 d2 len"
    "ds p = Some (fill_descriptor0 s1 d1 len q)" "ds q = Some (fill_descriptor0 s2 d2 len 0)"
  shows "dma ds p m = Some (copy_bytes (fill_descriptor0 s2 d2 len 0) (copy_bytes (fill_descriptor0 s1 d1 len q) m))"
proof -
  have "dma ds p m = dma ds q (copy_bytes (fill_descriptor0 s1 d1 len q) m)"
    using transfer [of p ds, OF _ assms(7), of m] assms(1, 4, 5) by (simp add: fill_descriptor0_def HEXAGON_UDMA_DESC_DESCTYPE_TYPE0_def)
  also have "\<dots> = dma ds 0 (copy_bytes (fill_descriptor0 s2 d2 len 0) (copy_bytes (fill_descriptor0 s1 d1 len q) m))"
    using transfer [of q ds, OF _ assms(8)] assms(2, 4, 6) by (simp add: fill_descriptor0_def HEXAGON_UDMA_DESC_DESCTYPE_TYPE0_def)
  finally show ?thesis by (simp add: chain_end)
qed

end

partial_function (option) chain_dma :: dma_engine where
  "chain_dma ds p m =
     (if p = 0 then Some m
      else case ds p of None \<Rightarrow> None | Some d \<Rightarrow> if desctype d = 0 then chain_dma ds (next_desc d) (copy_bytes d m) else None)"

interpretation chain: udma_engine chain_dma
  by unfold_locales (simp_all add: chain_dma.simps)

section \<open>The transfers\<close>

lemma window_iff:
  fixes x q :: u32
  assumes "unat q + n \<le> 2 ^ 32"
  shows "unat (x - q) < n \<longleftrightarrow> unat q \<le> unat x \<and> unat x < unat q + n"
  using assms unat_u32_less [of x] unat_u32_less [of q] by (auto simp: unat_sub_if' split: if_splits)

definition transferred :: "u32 \<Rightarrow> nat \<Rightarrow> mem \<Rightarrow> mem" where
  "transferred base n m a =
     (let k = unat (a - base)
      in if k < n \<or> 4 * n \<le> k \<and> k < 5 * n then char_of (0xAA :: nat)
         else if 2 * n \<le> k \<and> k < 3 * n \<or> 6 * n \<le> k \<and> k < 7 * n then char_of (0xBB :: nat) else m a)"

lemma unat_mult_small:
  fixes n :: u32
  assumes "n < 0x1000000" "k < 256"
  shows "unat (of_nat k * n) = k * unat n"
proof -
  have "unat n < 0x1000000" using assms(1) by (simp add: word_less_nat_alt)
  then have "k * unat n < 256 * 0x1000000" using assms(2) by (intro mult_strict_mono) auto
  then show ?thesis using assms(2) by (simp add: unat_word_ariths unat_of_nat)
qed

lemma transfers_eq:
  fixes n :: u32
  assumes n: "n < 0x1000000"
  shows "copy_bytes (fill_descriptor0 (b + 2 * n) (b + 4 * n + 2 * n) n 0)
    (copy_bytes (fill_descriptor0 b (b + 4 * n) n p) (memset (b + 2 * n) 0xBB n (memset b 0xAA n m))) = transferred b (unat n) m"
proof
  fix a
  have u: "unat (2 * n) = 2 * unat n" "unat (4 * n) = 4 * unat n" "unat (6 * n) = 6 * unat n"
    using unat_mult_small [OF n, of 2] unat_mult_small [OF n, of 4] unat_mult_small [OF n, of 6] by simp_all
  have "unat n < 0x1000000" using n by (simp add: word_less_nat_alt)
  then have w: "unat (x - 2 * n) < unat n \<longleftrightarrow> 2 * unat n \<le> unat x \<and> unat x < 3 * unat n"
      "unat (x - 4 * n) < unat n \<longleftrightarrow> 4 * unat n \<le> unat x \<and> unat x < 5 * unat n"
      "unat (x - 6 * n) < unat n \<longleftrightarrow> 6 * unat n \<le> unat x \<and> unat x < 7 * unat n" for x :: u32
    using window_iff [of "2 * n" "unat n" x] window_iff [of "4 * n" "unat n" x] window_iff [of "6 * n" "unat n" x]
    by (simp_all add: u)
  define k where "k = unat (a - b)"
  define m1 where "m1 = memset (b + 2 * n) 0xBB n (memset b 0xAA n m)"
  have m1: "m1 c = (if 2 * unat n \<le> unat (c - b) \<and> unat (c - b) < 3 * unat n then char_of (0xBB :: nat)
      else if unat (c - b) < unat n then char_of (0xAA :: nat) else m c)" for c
    using w(1) [of "c - b"] by (simp add: m1_def memset_spec diff_diff_eq)
  have d: "a - (b + 4 * n + 2 * n) = a - b - 6 * n" "a - (b + 4 * n) = a - b - 4 * n"
    by (simp_all add: algebra_simps)
  have v: "4 * unat n \<le> k \<Longrightarrow> unat (a - b - 4 * n) = k - 4 * unat n"
    using u unat_u32_less [of "a - b"] unfolding k_def by (subst unat_sub) (simp_all add: word_le_nat_alt)
  define m2 where "m2 = copy_bytes (fill_descriptor0 b (b + 4 * n) n p) m1"
  have m2: "m2 c = (if 4 * unat n \<le> unat (c - b) \<and> unat (c - b) < 5 * unat n then m1 (c - 4 * n) else m1 c)" for c
  proof -
    have "b + (c - (b + 4 * n)) = c - 4 * n" by simp
    then show ?thesis using w(2) [of "c - b"] by (simp add: m2_def copy_bytes_def fill_descriptor0_def diff_diff_eq)
  qed
  have "copy_bytes (fill_descriptor0 (b + 2 * n) (b + 4 * n + 2 * n) n 0) m2 a =
      (if 6 * unat n \<le> k \<and> k < 7 * unat n then m2 (a - 4 * n) else m2 a)"
  proof -
    have "b + 2 * n + (a - b - 6 * n) = a - 4 * n" by (simp add: algebra_simps)
    then show ?thesis using w(3) [of "a - b"] by (simp add: copy_bytes_def fill_descriptor0_def k_def diff_diff_eq add.commute [of b])
  qed
  also have "\<dots> = transferred b (unat n) m a"
    using v by (auto simp: m2 m1 transferred_def Let_def k_def [symmetric] diff_right_commute [of a])
  finally show "copy_bytes (fill_descriptor0 (b + 2 * n) (b + 4 * n + 2 * n) n 0)
    (copy_bytes (fill_descriptor0 b (b + 4 * n) n p) (memset (b + 2 * n) 0xBB n (memset b 0xAA n m))) a = transferred b (unat n) m a"
    by (simp add: m1_def m2_def)
qed


lemma memcmp_equal:
  assumes "\<And>i. i < unat n \<Longrightarrow> m (p + of_nat i) = m (q + of_nat i)"
  shows "memcmp m p q n = 0"
  using assms memcmp_loop_sgn [of m p q "unat n"] by (simp add: memcmp_def bytes_at_def)

lemma transferred_part:
  fixes n :: u32
  assumes "n < 0x1000000" "i < unat n" "k < 7"
  shows "transferred b (unat n) m (b + of_nat k * n + of_nat i) =
    (if k = 0 \<or> k = 4 then char_of (0xAA :: nat) else if k = 2 \<or> k = 6 then char_of (0xBB :: nat)
     else m (b + of_nat k * n + of_nat i))"
proof -
  have n: "unat n < 0x1000000" using assms(1) by (simp add: word_less_nat_alt)
  have "k * unat n \<le> 6 * unat n" using assms(3) by (intro mult_right_mono) auto
  with n assms(2) have "k * unat n + i < 4294967296" by linarith
  then have "unat (of_nat k * n + of_nat i) = k * unat n + i"
    using unat_of_nat_small [of "k * unat n + i", where 'a = 32] by simp
  moreover have "k \<in> {0, 1, 2, 3, 4, 5, 6}" using assms(3) by auto
  ultimately show ?thesis using assms(2) by (auto simp: transferred_def Let_def add.assoc)
qed

lemma transfers_verified:
  fixes n :: u32
  assumes "n < 0x1000000"
  shows "memcmp (transferred b (unat n) m) b (b + 4 * n) n = 0"
    "memcmp (transferred b (unat n) m) (b + 2 * n) (b + 4 * n + 2 * n) n = 0"
  subgoal by (rule memcmp_equal)
    (use transferred_part [OF assms, of _ 0 b m] transferred_part [OF assms, of _ 4 b m] in simp)
  subgoal proof (rule memcmp_equal)
    fix i assume i: "i < unat n"
    have "b + 4 * n + 2 * n = b + 6 * n" by (simp add: algebra_simps)
    then show "transferred b (unat n) m (b + 2 * n + of_nat i) = transferred b (unat n) m (b + 4 * n + 2 * n + of_nat i)"
      using transferred_part [OF assms i, of 2 b m] transferred_part [OF assms i, of 6 b m] by (simp add: add.assoc)
  qed
  done

lemma sizes:
  "QUARTER_SIZE SMALL_SIZE = 2 * DMA_XFER_SIZE SMALL_SIZE" "HALF_SIZE SMALL_SIZE = 4 * DMA_XFER_SIZE SMALL_SIZE"
  "QUARTER_SIZE LARGE_SIZE = 2 * DMA_XFER_SIZE LARGE_SIZE" "HALF_SIZE LARGE_SIZE = 4 * DMA_XFER_SIZE LARGE_SIZE"
  "DMA_XFER_SIZE SMALL_SIZE < 0x1000000" "DMA_XFER_SIZE LARGE_SIZE < 0x1000000"
  by (simp_all add: QUARTER_SIZE_def HALF_SIZE_def DMA_XFER_SIZE_def SMALL_SIZE_def LARGE_SIZE_def)

lemma apart_parts:
  fixes n :: u32
  assumes "n < 0x1000000"
  shows "apart b (b + 4 * n) n" "apart (b + 2 * n) (b + 4 * n + 2 * n) n"
proof -
  have u: "unat (4 * n) = 4 * unat n" using unat_mult_small [OF assms, of 4] by simp
  have "unat n < 0x1000000" using assms by (simp add: word_less_nat_alt)
  then have "unat n \<le> unat (- (4 * n))" using window_iff [of "4 * n" "unat n" 0] by (simp add: u) linarith
  then show "apart b (b + 4 * n) n" "apart (b + 2 * n) (b + 4 * n + 2 * n) n" using u by (simp_all add: apart_def)
qed


definition aligned :: "u32 \<Rightarrow> u32" where "aligned a = (a + ALIGN) AND NOT (ALIGN - 1)"

definition tested :: "udma_layout \<Rightarrow> bool \<Rightarrow> mem \<Rightarrow> mem" where
  "tested l use_small m =
     (if use_small then transferred (aligned (small_memory l)) (unat (DMA_XFER_SIZE SMALL_SIZE)) m
      else transferred (aligned (large_memory l)) (unat (DMA_XFER_SIZE LARGE_SIZE)) m)"

text \<open>Two descriptors at different addresses, neither of them null.\<close>

definition separate :: "udma_layout \<Rightarrow> bool" where
  "separate l \<longleftrightarrow> desc_buf1 l \<noteq> 0 \<and> desc_buf2 l \<noteq> 0 \<and> desc_buf1 l \<noteq> desc_buf2 l"
text \<open>The lines of a test that passes.\<close>

definition test_lines :: "udma_layout \<Rightarrow> bool \<Rightarrow> line list" where
  "test_lines l use_small =
     (let b = aligned (if use_small then small_memory l else large_memory l);
          n = DMA_XFER_SIZE (if use_small then SMALL_SIZE else LARGE_SIZE)
      in [(''memory at %p: src1 %p: src2 %p'', [b, b, b + 2 * n]),
          (''aligned: desc0_1 at %p, desc0_2 at %p'', [desc_buf1 l, desc_buf2 l]),
          (''malloc memory at %p: dst1 %p: dst2 %p'', [b, b + 4 * n, b + 4 * n + 2 * n]),
          fill_line b (b + 4 * n) n (desc_buf2 l), fill_line (b + 2 * n) (b + 4 * n + 2 * n) n 0])"

context udma_engine
begin

lemma chain_transferred:
  fixes n :: u32
  assumes "n < 0x1000000" "separate l"
  shows "dma (ds(desc_buf1 l \<mapsto> fill_descriptor0 b (b + 4 * n) n (desc_buf2 l),
        desc_buf2 l \<mapsto> fill_descriptor0 (b + 2 * n) (b + 4 * n + 2 * n) n 0)) (desc_buf1 l) (memset (b + 2 * n) 0xBB n (memset b 0xAA n m)) =
    Some (transferred b (unat n) m)"
  using assms(2) unfolding separate_def
  by (subst chain_of_two [where q = "desc_buf2 l", OF _ _ _ assms(1) apart_parts [OF assms(1)]])
    (use transfers_eq [OF assms(1), of b "desc_buf2 l" m] in simp_all)

lemma test_passes:
  assumes "separate l"
  shows "\<exists>s'. udma_test dma l use_small msg s = Some (Ok s') \<and> ram s' = tested l use_small (ram s) \<and>
    printed s' = printed s @ test_lines l use_small"
proof (cases use_small)
  case True
  then show ?thesis
    using chain_transferred [OF sizes(5) assms]
    by (simp add: udma_test_def Let_def sizes do_dmastart_def transfers_verified [OF sizes(5), simplified] aligned_def [symmetric] tested_def test_lines_def)
next
  case False
  then show ?thesis
    using chain_transferred [OF sizes(6) assms]
    by (simp add: udma_test_def Let_def sizes do_dmastart_def transfers_verified [OF sizes(6), simplified] aligned_def [symmetric] tested_def test_lines_def)
qed

lemma main_passes:
  assumes "separate l"
  shows "\<exists>s'. udma_main dma l s = Some (Stop (Exit_code 0) s') \<and> ram s' = tested l False (tested l True (ram s)) \<and>
    printed s' = printed s @ test_lines l True @ test_lines l False @ [(''PASS'', [])]"
proof -
  obtain s1 where 1: "udma_test dma l True ''General DMA failure'' s = Some (Ok s1)"
      "ram s1 = tested l True (ram s)" "printed s1 = printed s @ test_lines l True"
    using test_passes [OF assms] by blast
  obtain s2 where "udma_test dma l False ''Preload of dst buffers probably missing'' s1 = Some (Ok s2)"
      "ram s2 = tested l False (ram s1)" "printed s2 = printed s1 @ test_lines l False"
    using test_passes [OF assms] by blast
  with 1 show ?thesis by (simp add: udma_main_def)
qed

end

section \<open>Bounds\<close>

lemma aligned_eq: "aligned a = a + ALIGN - take_bit 15 (a + ALIGN)"
proof -
  define x where "x = a + ALIGN"
  have m: "ALIGN - 1 = mask 15" by (simp add: ALIGN_def mask_eq_exp_minus_1)
  have "(x AND NOT (mask 15)) + take_bit 15 x = (x AND NOT (mask 15)) OR take_bit 15 x"
    by (rule disjunctive_add) (simp add: bit_simps)
  also have "\<dots> = x" by (rule bit_eqI) (auto simp: bit_simps)
  finally show ?thesis by (simp add: aligned_def m x_def eq_diff_eq)
qed

lemma aligned_offset: "unat (aligned a - a) \<le> unat ALIGN" "unat (aligned a - a) > 0"
proof -
  have "unat (take_bit 15 (a + ALIGN)) < 2 ^ 15" by (simp add: unsigned_take_bit_eq take_bit_nat_less_exp [of 15, simplified])
  moreover have "aligned a - a = ALIGN - take_bit 15 (a + ALIGN)" by (simp add: aligned_eq)
  ultimately show "unat (aligned a - a) \<le> unat ALIGN" "unat (aligned a - a) > 0" by (auto simp: unat_sub_if' ALIGN_def)
qed


text \<open>Every byte the tests change is in the array they use.\<close>

lemma transferred_outside:
  fixes n :: u32
  assumes "\<not> unat (a - base) < 8 * unat n + unat ALIGN" "n < 0x1000000"
  shows "transferred (aligned base) (unat n) m a = m a"
proof -
  define j where "j = aligned base - base"
  have "unat n < 0x1000000" using assms(2) by (simp add: word_less_nat_alt)
  moreover have "a - base = (a - aligned base) + j" by (simp add: j_def)
  then have "unat (a - base) \<le> unat (a - aligned base) + unat j" by (simp only: unat_word_ariths mod_less_eq_dividend)
  moreover have "unat j \<le> unat ALIGN" using aligned_offset(1) by (simp add: j_def)
  ultimately show ?thesis using assms(1) by (simp add: transferred_def Let_def)
qed

definition inside :: "u32 \<Rightarrow> u32 \<Rightarrow> u32 \<Rightarrow> bool" where
  "inside base len a \<longleftrightarrow> unat (a - base) < unat (len + ALIGN)"

lemma tested_outside:
  assumes "\<not> inside (small_memory l) SMALL_SIZE a" "\<not> inside (large_memory l) LARGE_SIZE a"
  shows "tested l use_small m a = m a"
  using assms transferred_outside [OF _ sizes(5), of a "small_memory l" m] transferred_outside [OF _ sizes(6), of a "large_memory l" m]
  by (simp add: tested_def inside_def ALIGN_def SMALL_SIZE_def LARGE_SIZE_def DMA_XFER_SIZE_def)

text \<open>C40: \<^verbatim>\<open>src/udma.c\<close>: with any engine that copies the bytes of a chain of descriptors, whatever the placement of the
  arrays and what they hold, \<open>main\<close> ends with status 0 and prints, after the addresses it works with, PASS and no failure; each destination of the large buffer then holds the
  pattern of its source, and no byte outside the two arrays is changed, the alignment of their start included.\<close>

theorem udma_main_passes:
  assumes "udma_engine dma" "separate l"
  shows "\<exists>s'. udma_main dma l s = Some (Stop (Exit_code 0) s') \<and>
    printed s' = printed s @ test_lines l True @ test_lines l False @ [(''PASS'', [])] \<and>
    ram s' = tested l False (tested l True (ram s)) \<and>
    (\<forall>a. inside (small_memory l) SMALL_SIZE a \<or> inside (large_memory l) LARGE_SIZE a \<or> ram s' a = ram s a)"
proof -
  obtain s' where "udma_main dma l s = Some (Stop (Exit_code 0) s')" "ram s' = tested l False (tested l True (ram s))"
      "printed s' = printed s @ test_lines l True @ test_lines l False @ [(''PASS'', [])]"
    using udma_engine.main_passes [OF assms] by blast
  moreover have "inside (small_memory l) SMALL_SIZE a \<or> inside (large_memory l) LARGE_SIZE a \<or>
      tested l False (tested l True (ram s)) a = ram s a" for a
    by (cases "inside (small_memory l) SMALL_SIZE a \<or> inside (large_memory l) LARGE_SIZE a") (auto simp: tested_outside)
  ultimately show ?thesis by (intro exI [of _ s']) simp
qed

theorem udma_main_passes_witness:
  "\<exists>s'. udma_main chain_dma \<lparr>small_memory = 0x10000, large_memory = 0x200004, desc_buf1 = 0x2000, desc_buf2 = 0x6000\<rparr>
      \<lparr>ram = (\<lambda>_. CHR ''x''), descs = Map.empty, printed = []\<rparr> = Some (Stop (Exit_code 0) s') \<and>
    last (printed s') = (''PASS'', []) \<and> ram s' 0x408000 = char_of (0xAA :: nat) \<and> ram s' 0x100 = CHR ''x''"
  using udma_main_passes [OF chain.udma_engine_axioms, of
      "\<lparr>small_memory = 0x10000, large_memory = 0x200004, desc_buf1 = 0x2000, desc_buf2 = 0x6000\<rparr>"
      "\<lparr>ram = (\<lambda>_. CHR ''x''), descs = Map.empty, printed = []\<rparr>"]
  by (auto simp: separate_def tested_def transferred_def aligned_def ALIGN_def SMALL_SIZE_def LARGE_SIZE_def DMA_XFER_SIZE_def Let_def)

end
