(* ===== verification/Irq_Runs.thy ===== *)
theory Irq_Runs
  imports Hex_Prelude
begin

text \<open>
  Programs of one hardware thread that an interrupt can stop between any two of its statements.  A program is a list of statements on a
  state: an update, a loop that waits for a condition that only a handler can establish, an assertion.  A handler runs to its end before
  another interrupt is taken.  \<open>returns\<close> is total correctness over all interleavings: no run is infinite, none gets
  stuck or fails, and every one ends in a state with the given property.
\<close>

section \<open>Runs\<close>

datatype 's stmt = Do "'s \<Rightarrow> 's" | Await "'s \<Rightarrow> bool" | Require "'s \<Rightarrow> bool"

text \<open>What the interrupt controller offers in a state: no interrupt, one whose handler leads to a state, or one whose handler has
  undefined behaviour.\<close>

datatype 's irq = No_irq | Irq 's | Irq_undef

datatype 's conf = Run "'s stmt list" 's | Failed

inductive irq_step :: "('s \<Rightarrow> 's irq) \<Rightarrow> 's conf \<Rightarrow> 's conf \<Rightarrow> bool" for dlv where
  step_do: "irq_step dlv (Run (Do f # p) s) (Run p (f s))"
| step_await: "g s \<Longrightarrow> irq_step dlv (Run (Await g # p) s) (Run p s)"
| step_require: "g s \<Longrightarrow> irq_step dlv (Run (Require g # p) s) (Run p s)"
| step_abort: "\<not> g s \<Longrightarrow> irq_step dlv (Run (Require g # p) s) Failed"
| step_irq: "p \<noteq> [] \<Longrightarrow> dlv s = Irq s' \<Longrightarrow> irq_step dlv (Run p s) (Run p s')"
| step_undef: "p \<noteq> [] \<Longrightarrow> dlv s = Irq_undef \<Longrightarrow> irq_step dlv (Run p s) Failed"

inductive_cases irq_step_RunE: "irq_step dlv (Run p s) c"
inductive_cases irq_step_FailedE [elim!]: "irq_step dlv Failed c"
inductive_simps irq_step_Nil: "irq_step dlv (Run [] s) c"

inductive returns :: "('s \<Rightarrow> 's irq) \<Rightarrow> ('s \<Rightarrow> bool) \<Rightarrow> 's conf \<Rightarrow> bool" for dlv Q where
  ended: "Q s \<Longrightarrow> returns dlv Q (Run [] s)"
| more: "p \<noteq> [] \<Longrightarrow> irq_step dlv (Run p s) c \<Longrightarrow> (\<And>c'. irq_step dlv (Run p s) c' \<Longrightarrow> returns dlv Q c') \<Longrightarrow> returns dlv Q (Run p s)"

inductive_cases returns_FailedE [elim!]: "returns dlv Q Failed"
inductive_cases returns_NilE: "returns dlv Q (Run [] s)"

section \<open>What \<open>returns\<close> promises\<close>

lemma returns_step: "returns dlv Q c \<Longrightarrow> irq_step dlv c c' \<Longrightarrow> returns dlv Q c'"
  by (induction rule: returns.induct) (auto simp: irq_step_Nil)

lemma returns_steps: "(irq_step dlv)\<^sup>*\<^sup>* c c' \<Longrightarrow> returns dlv Q c \<Longrightarrow> returns dlv Q c'"
  by (induction rule: rtranclp_induct) (auto intro: returns_step)

text \<open>No failure, no stuck state, and the property at the end.\<close>

lemma returns_reachable:
  assumes "returns dlv Q c" "(irq_step dlv)\<^sup>*\<^sup>* c c'"
  shows "c' \<noteq> Failed \<and> (\<forall>s. c' = Run [] s \<longrightarrow> Q s) \<and> ((\<exists>s. c' = Run [] s) \<or> (\<exists>c''. irq_step dlv c' c''))"
  using returns_steps [OF assms(2, 1)] by (auto elim: returns.cases)

text \<open>No run without end.\<close>

lemma returns_no_infinite: "returns dlv Q c \<Longrightarrow> \<not> (\<exists>r. r 0 = c \<and> (\<forall>i. irq_step dlv (r i) (r (Suc i))))"
proof (induction rule: returns.induct)
  case (ended s)
  then show ?case by (metis irq_step_Nil)
next
  case (more p s c)
  show ?case
  proof
    assume "\<exists>r. r 0 = Run p s \<and> (\<forall>i. irq_step dlv (r i) (r (Suc i)))"
    then obtain r where r: "r 0 = Run p s" "\<And>i. irq_step dlv (r i) (r (Suc i))" by blast
    have "irq_step dlv (Run p s) (r (Suc 0))" using r(2) [of 0] r(1) by simp
    from more.IH [OF this] r(2) show False by (metis comp_apply)
  qed
qed

lemma returns_mono: "returns dlv Q c \<Longrightarrow> (\<And>s. Q s \<Longrightarrow> Q' s) \<Longrightarrow> returns dlv Q' c"
  by (induction rule: returns.induct) (auto intro: returns.intros)

section \<open>Rules for programs\<close>

text \<open>An invariant that handlers keep, with a measure that each of them decreases, holds at every statement.\<close>

definition irq_inv :: "('s \<Rightarrow> 's irq) \<Rightarrow> ('s \<Rightarrow> bool) \<Rightarrow> ('s \<Rightarrow> nat) \<Rightarrow> bool" where
  "irq_inv dlv I \<mu> \<longleftrightarrow> (\<forall>s. I s \<longrightarrow> dlv s \<noteq> Irq_undef \<and> (\<forall>s'. dlv s = Irq s' \<longrightarrow> I s' \<and> \<mu> s' < \<mu> s))"

lemma returns_stmt:
  assumes "irq_inv dlv I \<mu>" "I s"
    and prog: "\<And>s. I s \<Longrightarrow> case a of Do f \<Rightarrow> returns dlv Q (Run p (f s))
      | Await g \<Rightarrow> (g s \<longrightarrow> returns dlv Q (Run p s)) \<and> (\<not> g s \<longrightarrow> dlv s \<noteq> No_irq)
      | Require g \<Rightarrow> g s \<and> returns dlv Q (Run p s)"
  shows "returns dlv Q (Run (a # p) s)"
  using assms(2)
proof (induction "\<mu> s" arbitrary: s rule: less_induct)
  case less
  have "returns dlv Q c'" if "irq_step dlv (Run (a # p) s) c'" for c'
    using that
  proof cases
    case (step_irq s')
    then have "I s'" "\<mu> s' < \<mu> s" using assms(1) less.prems by (auto simp: irq_inv_def)
    then show ?thesis using less.hyps step_irq by blast
  next
    case step_undef
    then show ?thesis using assms(1) less.prems by (auto simp: irq_inv_def)
  qed (use prog [OF less.prems] in auto)
  moreover have "\<exists>c. irq_step dlv (Run (a # p) s) c"
  proof (cases a)
    case (Await g)
    then show ?thesis using prog [OF less.prems] by (cases "dlv s") (auto intro: irq_step.intros)
  qed (use prog [OF less.prems] in \<open>auto intro: irq_step.intros\<close>)
  ultimately show ?case by (auto intro: returns.more)
qed

lemma returns_Do:
  "irq_inv dlv I \<mu> \<Longrightarrow> I s \<Longrightarrow> (\<And>s. I s \<Longrightarrow> returns dlv Q (Run p (f s))) \<Longrightarrow> returns dlv Q (Run (Do f # p) s)"
  by (erule returns_stmt) simp_all

lemma returns_Await:
  "irq_inv dlv I \<mu> \<Longrightarrow> I s \<Longrightarrow> (\<And>s. I s \<Longrightarrow> g s \<Longrightarrow> returns dlv Q (Run p s)) \<Longrightarrow>
   (\<And>s. I s \<Longrightarrow> \<not> g s \<Longrightarrow> dlv s \<noteq> No_irq) \<Longrightarrow> returns dlv Q (Run (Await g # p) s)"
  by (erule returns_stmt) simp_all

lemma returns_Require:
  "irq_inv dlv I \<mu> \<Longrightarrow> I s \<Longrightarrow> (\<And>s. I s \<Longrightarrow> g s) \<Longrightarrow> (\<And>s. I s \<Longrightarrow> returns dlv Q (Run p s)) \<Longrightarrow>
   returns dlv Q (Run (Require g # p) s)"
  by (erule returns_stmt) simp_all

text \<open>A part of a program, from states with \<open>P\<close> to states with \<open>R\<close>; loops.\<close>

definition part :: "('s \<Rightarrow> 's irq) \<Rightarrow> ('s \<Rightarrow> bool) \<Rightarrow> 's stmt list \<Rightarrow> ('s \<Rightarrow> bool) \<Rightarrow> bool" where
  "part dlv P p R \<longleftrightarrow> (\<forall>q s Q. P s \<longrightarrow> (\<forall>s. R s \<longrightarrow> returns dlv Q (Run q s)) \<longrightarrow> returns dlv Q (Run (p @ q) s))"

lemma partI: "(\<And>q s Q. P s \<Longrightarrow> (\<And>s. R s \<Longrightarrow> returns dlv Q (Run q s)) \<Longrightarrow> returns dlv Q (Run (p @ q) s)) \<Longrightarrow> part dlv P p R"
  by (simp add: part_def)

lemma part_Nil: "(\<And>s. P s \<Longrightarrow> R s) \<Longrightarrow> part dlv P [] R"
  by (simp add: part_def)

lemma part_append: "part dlv P p M \<Longrightarrow> part dlv M q R \<Longrightarrow> part dlv P (p @ q) R"
  unfolding part_def by simp

lemma part_Cons: "part dlv P [a] M \<Longrightarrow> part dlv M q R \<Longrightarrow> part dlv P (a # q) R"
  using part_append [of dlv P "[a]" M q R] by simp

lemma part_pre: "part dlv P p R \<Longrightarrow> (\<And>s. P' s \<Longrightarrow> P s) \<Longrightarrow> part dlv P' p R"
  unfolding part_def by blast

lemma part_Do: "irq_inv dlv I \<mu> \<Longrightarrow> (\<And>s. I s \<Longrightarrow> R (f s)) \<Longrightarrow> part dlv I [Do f] R"
  by (rule partI) (auto intro: returns_Do)

lemma part_Await: "irq_inv dlv I \<mu> \<Longrightarrow> (\<And>s. I s \<Longrightarrow> g s \<Longrightarrow> R s) \<Longrightarrow> (\<And>s. I s \<Longrightarrow> \<not> g s \<Longrightarrow> dlv s \<noteq> No_irq) \<Longrightarrow> part dlv I [Await g] R"
  by (rule partI) (auto intro: returns_Await)

lemma part_Require: "irq_inv dlv I \<mu> \<Longrightarrow> (\<And>s. I s \<Longrightarrow> g s \<and> R s) \<Longrightarrow> part dlv I [Require g] R"
  by (rule partI) (auto intro: returns_Require)

lemma part_loop:
  assumes "\<And>i. a \<le> i \<Longrightarrow> i < b \<Longrightarrow> part dlv (I i) (body i) (I (Suc i))" "a \<le> b"
  shows "part dlv (I a) (concat (map body [a..<b])) (I b)"
  using assms(2, 1)
proof (induction rule: dec_induct)
  case base
  then show ?case by (auto intro: part_Nil)
next
  case (step n)
  then show ?case by (auto intro!: part_append)
qed

lemma part_returns: "part dlv P p R \<Longrightarrow> P s \<Longrightarrow> returns dlv R (Run p s)"
  unfolding part_def by (metis append_Nil2 returns.ended)

end
