(* ===== verification/L2vic.thy ===== *)
theory L2vic
  imports Mmu_Access Cfgtable Irq_Runs
begin

text \<open>
  The interrupt controller L2VIC as the programs use it: the addresses of its registers, accesses to them through the TLB, and the programs
  \<^verbatim>\<open>src/int_range.c\<close> and \<^verbatim>\<open>src/fastl2vic.c\<close>.  The controller is hardware: its operations are a record
  and the locale \<open>l2vic\<close> states its laws, which the array \<open>vic_model\<close> meets.
\<close>

section \<open>Registers\<close>

definition L2VIC_INT_ENABLE :: "u32 \<Rightarrow> u32 \<Rightarrow> u32" where "L2VIC_INT_ENABLE b n = b + 0x100 + 4 * (n div 32)"
definition L2VIC_INT_ENABLE_CLEAR :: "u32 \<Rightarrow> u32 \<Rightarrow> u32" where "L2VIC_INT_ENABLE_CLEAR b n = b + 0x180 + 4 * (n div 32)"
definition L2VIC_INT_ENABLE_SET :: "u32 \<Rightarrow> u32 \<Rightarrow> u32" where "L2VIC_INT_ENABLE_SET b n = b + 0x200 + 4 * (n div 32)"
definition L2VIC_INT_TYPE :: "u32 \<Rightarrow> u32 \<Rightarrow> u32" where "L2VIC_INT_TYPE b n = b + 0x280 + 4 * (n div 32)"
definition L2VIC_SOFT_INT_SET :: "u32 \<Rightarrow> u32 \<Rightarrow> u32" where "L2VIC_SOFT_INT_SET b n = b + 0x480 + 4 * (n div 32)"
definition INTMAX :: nat where "INTMAX = 1024"
definition LEFT_SET :: nat where "LEFT_SET = 666"
definition FAST_VA :: u32 where "FAST_VA = 0x888e0000"

text \<open>\<open>1 << (n % 32)\<close>.\<close>

definition irq_bit_of :: "u32 \<Rightarrow> u32" where "irq_bit_of n = push_bit (unat (n mod 32)) 1"

section \<open>State and accesses\<close>

text \<open>Loads and stores of the controller at a physical address; taking its next interrupt gives the number and the state after.\<close>

record 'd l2vic_ops =
  vic_ld :: "'d \<Rightarrow> u64 \<Rightarrow> u32"
  vic_st :: "'d \<Rightarrow> u64 \<Rightarrow> u32 \<Rightarrow> 'd"
  vic_take :: "'d \<Rightarrow> (nat \<times> 'd) option"

record ('t, 'd) machine =
  tlb_hw :: "'t tlb_ops"
  vic_hw :: "'d l2vic_ops"
  cfg :: cfgtable
  arch_rev :: nat

datatype msg = PASS | FAIL nat | ERROR nat u32

record ('t, 'd) vstate =
  trt :: "'t tlb_rt"
  vic :: 'd
  g_l2vic_base :: u32
  registered :: bool
  pass :: u32
  g_irq :: u32
  irqlog :: "u32 list"
  interrupt_count :: u32
  retv :: nat
  out :: "msg list"

text \<open>The address an access goes to.  The runtime maps an address that misses in the TLB to itself.\<close>

definition phys :: "'t tlb_ops \<Rightarrow> 't tlb_rt \<Rightarrow> u32 \<Rightarrow> u64" where
  "phys hw t va =
     (let i = tlb_probe hw t va
      in if i = TLB_NOT_FOUND then ucast va else tlb_translate (read_tlb_entry hw t i) va)"

definition ld :: "('t, 'd) machine \<Rightarrow> ('t, 'd) vstate \<Rightarrow> u32 \<Rightarrow> u32" where
  "ld mc s a = vic_ld (vic_hw mc) (vic s) (phys (tlb_hw mc) (trt s) a)"

definition st :: "('t, 'd) machine \<Rightarrow> u32 \<Rightarrow> u32 \<Rightarrow> ('t, 'd) vstate \<Rightarrow> ('t, 'd) vstate" where
  "st mc a v s = s\<lparr>vic := vic_st (vic_hw mc) (vic s) (phys (tlb_hw mc) (trt s) a) v\<rparr>"

definition setup_fast :: "('t, 'd) machine \<Rightarrow> ('t, 'd) vstate \<Rightarrow> ('t, 'd) vstate" where
  "setup_fast mc s =
     (let s = s\<lparr>trt := fst (add_translation_extended (arch_rev mc) (tlb_hw mc) (trt s) 3 FAST_VA (ucast (GET_FASTL2VIC_BASE (cfg mc)))
                16 7 4 0 0 3)\<rparr>
      in s\<lparr>g_l2vic_base := GET_SUBSYSTEM_BASE (cfg mc) + 0x10000\<rparr>)"

section \<open>Range of the registers\<close>

text \<open>\<^verbatim>\<open>src/int_range.c\<close>: \<open>main\<close> enables all interrupts, reads them back, clears all but one and reads them again.\<close>

definition enable_irq :: "('t, 'd) machine \<Rightarrow> nat \<Rightarrow> ('t, 'd) vstate \<Rightarrow> ('t, 'd) vstate" where
  "enable_irq mc irq s =
     (let a = L2VIC_INT_ENABLE (g_l2vic_base s) (of_nat irq) in st mc a (ld mc s a OR irq_bit_of (of_nat irq)) s)"

definition check_set :: "('t, 'd) machine \<Rightarrow> nat \<Rightarrow> ('t, 'd) vstate \<Rightarrow> ('t, 'd) vstate" where
  "check_set mc irq s =
     (let a = L2VIC_INT_ENABLE (g_l2vic_base s) (of_nat irq)
      in if ld mc s a AND irq_bit_of (of_nat irq) \<noteq> irq_bit_of (of_nat irq)
         then s\<lparr>out := out s @ [ERROR irq (ld mc s a)], retv := 1\<rparr> else s)"

definition clear_irq :: "('t, 'd) machine \<Rightarrow> nat \<Rightarrow> ('t, 'd) vstate \<Rightarrow> ('t, 'd) vstate" where
  "clear_irq mc irq s =
     (if irq mod LEFT_SET = 0 then s
      else let a = L2VIC_INT_ENABLE_CLEAR (g_l2vic_base s) (of_nat irq) in st mc a (ld mc s a OR irq_bit_of (of_nat irq)) s)"

definition check_left :: "('t, 'd) machine \<Rightarrow> nat \<Rightarrow> ('t, 'd) vstate \<times> nat \<Rightarrow> ('t, 'd) vstate \<times> nat" where
  "check_left mc irq sl =
     (let (s, left_set) = sl;
          a = L2VIC_INT_ENABLE (g_l2vic_base s) (of_nat irq)
      in if ld mc s a AND irq_bit_of (of_nat irq) \<noteq> 0
         then if irq \<noteq> LEFT_SET then (s\<lparr>out := out s @ [ERROR irq (ld mc s a)], retv := 1\<rparr>, left_set) else (s, irq)
         else (s, left_set))"

definition int_range_main :: "('t, 'd) machine \<Rightarrow> ('t, 'd) vstate \<Rightarrow> ('t, 'd) vstate" where
  "int_range_main mc s =
     (let left_set = 0;
          s = s\<lparr>retv := 0\<rparr>;
          s = s\<lparr>g_l2vic_base := GET_SUBSYSTEM_BASE (cfg mc) + 0x10000\<rparr>;
          s = fold (enable_irq mc) [1..<INTMAX] s;
          s = fold (check_set mc) [1..<INTMAX] s;
          s = fold (clear_irq mc) [1..<INTMAX] s;
          (s, left_set) = fold (check_left mc) [0..<INTMAX] (s, left_set)
      in if left_set = LEFT_SET then s\<lparr>out := out s @ [PASS]\<rparr> else s)"

section \<open>The fast interface\<close>

text \<open>\<^verbatim>\<open>src/fastl2vic.c\<close>.\<close>

definition check_word :: "('t, 'd) machine \<Rightarrow> nat \<Rightarrow> u32 \<Rightarrow> ('t, 'd) vstate \<Rightarrow> ('t, 'd) vstate" where
  "check_word mc line w s = (if ld mc s (L2VIC_INT_ENABLE (g_l2vic_base s) 64) \<noteq> w then s\<lparr>retv := line\<rparr> else s)"

definition fastl2vic_main :: "('t, 'd) machine \<Rightarrow> ('t, 'd) vstate \<Rightarrow> ('t, 'd) vstate" where
  "fastl2vic_main mc s =
     (let s = setup_fast mc (s\<lparr>retv := 0\<rparr>);
          s = st mc (L2VIC_INT_ENABLE_SET (g_l2vic_base s) 66) (irq_bit_of 66) s;
          s = check_word mc 39 0x4 s;
          s = check_word mc 45 0x14 (st mc FAST_VA 68 s);
          s = check_word mc 49 0x1c (st mc FAST_VA 67 s);
          s = check_word mc 56 0xc (st mc FAST_VA (push_bit 16 1 OR 68) s);
          s = check_word mc 60 0x8 (st mc FAST_VA (push_bit 16 1 OR 66) s);
          s = check_word mc 64 0x0 (st mc FAST_VA (push_bit 16 1 OR 67) s)
      in s\<lparr>out := out s @ [if retv s \<noteq> 0 then FAIL (retv s) else PASS]\<rparr>)"

section \<open>The translation of the fast interface\<close>

text \<open>Every entry that matches an address maps it to itself.\<close>

definition direct :: "'t tlb_ops \<Rightarrow> ('t \<Rightarrow> u32 \<Rightarrow> bool) \<Rightarrow> 't tlb_rt \<Rightarrow> u32 \<Rightarrow> bool" where
  "direct hw ok t a \<longleftrightarrow> (\<forall>i. ok (dev t) i \<longrightarrow> tlb_entry_matches (probe_key (ssr_reg t) a) (op_tlbr hw (dev t) i) \<longrightarrow>
     tlb_translate (op_tlbr hw (dev t) i) a = ucast a)"

lemma direct_phys: "tlb_device hw ok \<Longrightarrow> direct hw ok t a \<Longrightarrow> phys hw t a = ucast a"
  using tlb_device.probe_hit [of hw ok "dev t" "probe_key (ssr_reg t) a"]
  by (simp add: phys_def direct_def tlb_probe_def get_ssr_def read_tlb_entry_def Let_def)

text \<open>An entry for a megabyte whose physical address is a multiple of 64K, as \<open>cfgtable\<close> gives it.\<close>

abbreviation fast_entry :: "nat \<Rightarrow> u32 \<Rightarrow> u64" where
  "fast_entry ar fb \<equiv> translation_entry ar FAST_VA (ucast fb) 16 7 4 0 0 3"

lemma PageSize_1M: "PageSize SHIFT_1M = 16"
  by (simp add: PageSize_def)

lemma unat_ucast_u32: "unat (ucast (fb :: u32) :: u64) < 2 ^ 32"
  using unsigned_less [of fb, where ?'a = nat] by (simp add: unsigned_ucast_eq take_bit_nat_eq_self)

lemma fast_entry_encodes: "encodes_page (fast_entry ar fb) SHIFT_1M (ucast fb)"
  using unat_ucast_u32 [of fb] translation_entry_encodes_page [of "ucast fb" ar FAST_VA SHIFT_1M 7 4 0 0 3] by (simp add: PageSize_1M)

lemma fast_entry_ctz:
  assumes "take_bit 16 fb = (0 :: u32)"
  shows "ctz (fast_entry ar fb) = 4"
proof (rule ctz_eqI)
  note e = fast_entry_encodes [of ar fb, unfolded encodes_page_def]
  show "bit (fast_entry ar fb) 4" using e by simp
  show "\<not> bit (fast_entry ar fb) i" if "i < 4" for i
  proof -
    have "\<not> bit (take_bit 16 fb) (i + 11)" using assms by simp
    then show ?thesis using e that by (simp add: bit_take_bit_iff bit_ucast_iff)
  qed
qed

lemma fast_entry_translate:
  assumes "take_bit 20 fb = (0xe0000 :: u32)"
  shows "tlb_translate (fast_entry ar fb) FAST_VA = ucast fb"
proof -
  have "take_bit 16 (take_bit 20 fb) = take_bit 16 fb" by simp
  then have "take_bit 16 fb = 0" using assms by simp
  then have ctz: "ctz (fast_entry ar fb) = 4" by (rule fast_entry_ctz)
  have "push_bit 12 (hex_tlb_phys_page_num (fast_entry ar fb)) AND NOT (mask 20) = ucast fb AND NOT (mask 20)"
    using encodes_page_masked [OF fast_entry_encodes, of 20] unat_ucast_u32 [of fb] by simp
  moreover have "take_bit 20 (ucast FAST_VA) = (ucast (take_bit 20 fb) :: u64)" using assms by (simp add: FAST_VA_def)
  then have "take_bit 20 (ucast FAST_VA) = take_bit 20 (ucast fb :: u64)"
    by (simp add: unsigned_take_bit_eq)
  moreover have "(x AND NOT (mask 20)) OR take_bit 20 x = x" for x :: u64
    by (rule bit_word_eqI) (auto simp: bit_simps)
  ultimately show ?thesis by (simp add: tlb_translate_def ctz Let_def)
qed

lemma fast_entry_matches: "tlb_entry_matches (probe_key ssr FAST_VA) (fast_entry ar fb)"
  using translation_entry_matches [of "ucast fb" 3 0 ssr FAST_VA ar SHIFT_1M 7 4 0] unat_ucast_u32 [of fb]
  by (simp add: PageSize_1M)

lemma fast_entry_other:
  assumes "take_bit 16 fb = (0 :: u32)" "drop_bit 20 a \<noteq> 0x888"
  shows "\<not> tlb_entry_matches (probe_key ssr a) (fast_entry ar fb)"
proof
  assume m: "tlb_entry_matches (probe_key ssr a) (fast_entry ar fb)"
  have v: "get_member (fast_entry ar fb) VirtualPage = ucast (drop_bit 12 FAST_VA)"
    using translation_entry_vpn [of "ucast fb" ar FAST_VA SHIFT_1M 7 4 0 0 3] unat_ucast_u32 [of fb] by (simp add: PageSize_1M)
  from m have "drop_bit 8 (ucast (drop_bit 12 FAST_VA) :: u64) = drop_bit 8 (ucast (drop_bit 12 a))"
    by (simp add: tlb_entry_matches_def fast_entry_ctz [OF assms(1)] v probe_key_fields)
  then have "bit (drop_bit 8 (ucast (drop_bit 12 FAST_VA) :: u64)) i = bit (drop_bit 8 (ucast (drop_bit 12 a) :: u64)) i" for i by simp
  note bits = this
  have "bit FAST_VA (i + 20) = bit a (i + 20)" if "i < 32" for i using bits [of i] that by (simp add: bit_drop_bit_eq bit_ucast_iff ac_simps)
  then have "drop_bit 20 FAST_VA = drop_bit 20 a" by (intro bit_word_eqI) (simp add: bit_drop_bit_eq ac_simps)
  with assms(2) show False by (simp add: FAST_VA_def)
qed


section \<open>The controller\<close>

text \<open>What a program sees of the controller: the interrupts that are enabled, edge triggered, pending.\<close>

record vic_view =
  en :: "nat \<Rightarrow> bool"
  edg :: "nat \<Rightarrow> bool"
  pend :: "nat \<Rightarrow> bool"

definition vic_base :: "('t, 'd) machine \<Rightarrow> u32" where "vic_base mc = GET_SUBSYSTEM_BASE (cfg mc) + 0x10000"
definition fast_base :: "('t, 'd) machine \<Rightarrow> u32" where "fast_base mc = GET_FASTL2VIC_BASE (cfg mc)"
definition vreg :: "('t, 'd) machine \<Rightarrow> nat \<Rightarrow> nat \<Rightarrow> u32" where "vreg mc r k = vic_base mc + of_nat r + 4 * of_nat k"

text \<open>The laws, for word \<open>k\<close> of each register.  The enable register can be read and written, its bits set and cleared; the register that
  clears reads as 0.  A soft interrupt is pending only when it is edge triggered.  The lowest interrupt that is pending and
  enabled is taken; it is then disabled.  The fast interface enables the interrupt that is written to it, or disables it when
  bit 16 is set.\<close>

locale l2vic =
  fixes mc :: "('t, 'd) machine" and view :: "'d \<Rightarrow> vic_view"
  assumes ld_enable: "k < 32 \<Longrightarrow> i < 32 \<Longrightarrow> bit (vic_ld (vic_hw mc) d (ucast (vreg mc 0x100 k))) i = en (view d) (32 * k + i)"
    and ld_type: "k < 32 \<Longrightarrow> i < 32 \<Longrightarrow> bit (vic_ld (vic_hw mc) d (ucast (vreg mc 0x280 k))) i = edg (view d) (32 * k + i)"
    and ld_clear: "k < 32 \<Longrightarrow> vic_ld (vic_hw mc) d (ucast (vreg mc 0x180 k)) = 0"
    and st_enable: "k < 32 \<Longrightarrow> view (vic_st (vic_hw mc) d (ucast (vreg mc 0x100 k)) v) =
      (view d)\<lparr>en := \<lambda>n. if n div 32 = k then bit v (n mod 32) else en (view d) n\<rparr>"
    and st_clear: "k < 32 \<Longrightarrow> view (vic_st (vic_hw mc) d (ucast (vreg mc 0x180 k)) v) =
      (view d)\<lparr>en := \<lambda>n. en (view d) n \<and> \<not> (n div 32 = k \<and> bit v (n mod 32))\<rparr>"
    and st_set: "k < 32 \<Longrightarrow> view (vic_st (vic_hw mc) d (ucast (vreg mc 0x200 k)) v) =
      (view d)\<lparr>en := \<lambda>n. en (view d) n \<or> n div 32 = k \<and> bit v (n mod 32)\<rparr>"
    and st_type: "k < 32 \<Longrightarrow> view (vic_st (vic_hw mc) d (ucast (vreg mc 0x280 k)) v) =
      (view d)\<lparr>edg := \<lambda>n. if n div 32 = k then bit v (n mod 32) else edg (view d) n\<rparr>"
    and st_soft: "k < 32 \<Longrightarrow> view (vic_st (vic_hw mc) d (ucast (vreg mc 0x480 k)) v) =
      (view d)\<lparr>pend := \<lambda>n. pend (view d) n \<or> n div 32 = k \<and> bit v (n mod 32) \<and> edg (view d) n\<rparr>"
    and fast_enable: "n < 1024 \<Longrightarrow> view (vic_st (vic_hw mc) d (ucast (fast_base mc)) (of_nat n)) = (view d)\<lparr>en := (en (view d))(n := True)\<rparr>"
    and fast_disable: "n < 1024 \<Longrightarrow> view (vic_st (vic_hw mc) d (ucast (fast_base mc)) (push_bit 16 1 OR of_nat n)) =
      (view d)\<lparr>en := (en (view d))(n := False)\<rparr>"
    and take_none: "vic_take (vic_hw mc) d = None \<longleftrightarrow> (\<forall>n < 1024. \<not> (en (view d) n \<and> pend (view d) n))"
    and take_some: "vic_take (vic_hw mc) d = Some (n, d') \<Longrightarrow>
      n < 1024 \<and> en (view d) n \<and> pend (view d) n \<and> (\<forall>m < n. \<not> (en (view d) m \<and> pend (view d) m)) \<and>
      view d' = (view d)\<lparr>en := (en (view d))(n := False), pend := (pend (view d))(n := False)\<rparr>"

text \<open>With the TLB, and the fast interface at the offset of \<open>FAST_VA\<close> in a megabyte.\<close>

locale l2vic_board = l2vic mc view + tlb: tlb_device "tlb_hw mc" ok
  for mc :: "('t, 'd) machine" and view :: "'d \<Rightarrow> vic_view" and ok :: "'t \<Rightarrow> u32 \<Rightarrow> bool" +
  assumes fast_place: "take_bit 20 (fast_base mc) = 0xe0000"

text \<open>The TLB before a program: entry 3 can be used, at most one entry matches \<open>FAST_VA\<close>, and the registers are mapped to
  themselves, in another megabyte.\<close>

definition tlb_ready :: "('t, 'd) machine \<Rightarrow> ('t \<Rightarrow> u32 \<Rightarrow> bool) \<Rightarrow> 't tlb_rt \<Rightarrow> bool" where
  "tlb_ready mc ok t \<longleftrightarrow> ok (dev t) 3 \<and> 3 \<le> tlb_fixed_entries t - 1 \<and>
     unique_match (tlb_hw mc) ok (dev t) (probe_key (ssr_reg t) FAST_VA) \<and>
     (\<forall>k < 0x1000. direct (tlb_hw mc) ok t (vic_base mc + of_nat k) \<and> drop_bit 20 (vic_base mc + of_nat k) \<noteq> 0x888)"

definition regs_wired :: "('t, 'd) machine \<Rightarrow> 't tlb_rt \<Rightarrow> bool" where
  "regs_wired mc t \<longleftrightarrow> (\<forall>k < 0x1000. phys (tlb_hw mc) t (vic_base mc + of_nat k) = ucast (vic_base mc + of_nat k))"

definition fast_wired :: "('t, 'd) machine \<Rightarrow> 't tlb_rt \<Rightarrow> bool" where
  "fast_wired mc t \<longleftrightarrow> phys (tlb_hw mc) t FAST_VA = ucast (fast_base mc)"

text \<open>The address and the bit of an interrupt.\<close>

lemma irq_div: "n < 1024 \<Longrightarrow> (of_nat n :: u32) div 32 = of_nat (n div 32)"
  by (simp add: word_unat_eq_iff unat_div unat_of_nat_small)

lemma irq_bit_of_nat: "n < 1024 \<Longrightarrow> irq_bit_of (of_nat n) = 2 ^ (n mod 32)"
  by (simp add: irq_bit_of_def unat_mod unat_of_nat_small)

lemma reg_addrs:
  assumes "n < 1024"
  shows "L2VIC_INT_ENABLE (vic_base mc) (of_nat n) = vreg mc 0x100 (n div 32)" "L2VIC_INT_ENABLE_CLEAR (vic_base mc) (of_nat n) = vreg mc 0x180 (n div 32)"
    "L2VIC_INT_ENABLE_SET (vic_base mc) (of_nat n) = vreg mc 0x200 (n div 32)" "L2VIC_INT_TYPE (vic_base mc) (of_nat n) = vreg mc 0x280 (n div 32)"
    "L2VIC_SOFT_INT_SET (vic_base mc) (of_nat n) = vreg mc 0x480 (n div 32)"
  using assms by (simp_all add: L2VIC_INT_ENABLE_def L2VIC_INT_ENABLE_CLEAR_def L2VIC_INT_ENABLE_SET_def L2VIC_INT_TYPE_def
      L2VIC_SOFT_INT_SET_def irq_div vreg_def)

lemma wired_reg:
  assumes "regs_wired mc t" "k < 32" "r < 0xf00"
  shows "phys (tlb_hw mc) t (vreg mc r k) = ucast (vreg mc r k)"
proof -
  have "r + 4 * k < 0x1000" using assms(2, 3) by simp
  then have "phys (tlb_hw mc) t (vic_base mc + of_nat (r + 4 * k)) = ucast (vic_base mc + of_nat (r + 4 * k))"
    using assms(1) unfolding regs_wired_def by blast
  then show ?thesis by (simp add: vreg_def add.assoc)
qed

lemma vic_st_frame [simp]: "trt (st mc a v s) = trt s" "g_l2vic_base (st mc a v s) = g_l2vic_base s" "registered (st mc a v s) = registered s"
  "pass (st mc a v s) = pass s" "g_irq (st mc a v s) = g_irq s" "irqlog (st mc a v s) = irqlog s"
  "interrupt_count (st mc a v s) = interrupt_count s" "retv (st mc a v s) = retv s" "out (st mc a v s) = out s"
  by (simp_all add: st_def)

lemma one_bit: "(w AND 2 ^ i = (2 ^ i :: u32)) = bit w i" "(w AND 2 ^ i = (0 :: u32)) = (\<not> bit w i)" if "i < 32"
  using that by (auto simp: bit_eq_iff [of "w AND 2 ^ i"] bit_and_iff bit_exp_iff)

lemma div_modD: "m div 32 = n div 32 \<Longrightarrow> m mod 32 = n mod 32 \<Longrightarrow> m = (n :: nat)"
  by (metis div_mult_mod_eq)

context l2vic
begin

lemmas at_irq = reg_addrs irq_bit_of_nat wired_reg ld_def st_def less_mult_imp_div_less

lemma ld_word:
  "m div 32 = k \<Longrightarrow> k < 32 \<Longrightarrow> bit (vic_ld (vic_hw mc) d (ucast (vreg mc 0x100 k))) (m mod 32) = en (view d) m"
  "m div 32 = k \<Longrightarrow> k < 32 \<Longrightarrow> bit (vic_ld (vic_hw mc) d (ucast (vreg mc 0x280 k))) (m mod 32) = edg (view d) m"
  using ld_enable [of k "m mod 32" d] ld_type [of k "m mod 32" d] by auto

lemma enabled_test:
  assumes "regs_wired mc (trt s)" "n < 1024"
  shows "(ld mc s (L2VIC_INT_ENABLE (vic_base mc) (of_nat n)) AND irq_bit_of (of_nat n) = irq_bit_of (of_nat n)) = en (view (vic s)) n"
    "(ld mc s (L2VIC_INT_ENABLE (vic_base mc) (of_nat n)) AND irq_bit_of (of_nat n) = 0) = (\<not> en (view (vic s)) n)"
  using ld_enable [of "n div 32" "n mod 32" "vic s"] assms by (simp_all add: at_irq one_bit)

lemma view_ext: "(v :: vic_view) = w \<longleftrightarrow> (\<forall>n. en v n = en w n) \<and> (\<forall>n. edg v n = edg w n) \<and> (\<forall>n. pend v n = pend w n)"
  by (cases v; cases w) auto

lemma or_enable:
  assumes "regs_wired mc (trt s)" "n < 1024"
  shows "view (vic (st mc (L2VIC_INT_ENABLE (vic_base mc) (of_nat n)) (ld mc s (L2VIC_INT_ENABLE (vic_base mc) (of_nat n)) OR irq_bit_of (of_nat n)) s)) =
    (view (vic s))\<lparr>en := (en (view (vic s)))(n := True)\<rparr>"
  using assms
  by (auto simp: at_irq st_enable bit_or_iff bit_exp_iff ld_word view_ext dest: div_modD)

lemma or_clear:
  assumes "regs_wired mc (trt s)" "n < 1024"
  shows "view (vic (st mc (L2VIC_INT_ENABLE_CLEAR (vic_base mc) (of_nat n)) (ld mc s (L2VIC_INT_ENABLE_CLEAR (vic_base mc) (of_nat n)) OR irq_bit_of (of_nat n)) s)) =
    (view (vic s))\<lparr>en := (en (view (vic s)))(n := False)\<rparr>"
  using assms
  by (auto simp: at_irq st_clear ld_clear bit_exp_iff ld_word view_ext dest: div_modD)

lemma set_enable:
  assumes "regs_wired mc (trt s)" "n < 1024"
  shows "view (vic (st mc (L2VIC_INT_ENABLE_SET (vic_base mc) (of_nat n)) (irq_bit_of (of_nat n)) s)) =
    (view (vic s))\<lparr>en := (en (view (vic s)))(n := True)\<rparr>"
  using assms
  by (auto simp: at_irq st_set bit_exp_iff ld_word view_ext dest: div_modD)

lemma or_type:
  assumes "regs_wired mc (trt s)" "n < 1024"
  shows "view (vic (st mc (L2VIC_INT_TYPE (vic_base mc) (of_nat n)) (ld mc s (L2VIC_INT_TYPE (vic_base mc) (of_nat n)) OR irq_bit_of (of_nat n)) s)) =
    (view (vic s))\<lparr>edg := (edg (view (vic s)))(n := True)\<rparr>"
  using assms
  by (auto simp: at_irq st_type bit_or_iff bit_exp_iff ld_word view_ext dest: div_modD)

lemma and_type:
  assumes "regs_wired mc (trt s)" "n < 1024"
  shows "view (vic (st mc (L2VIC_INT_TYPE (vic_base mc) (of_nat n)) (ld mc s (L2VIC_INT_TYPE (vic_base mc) (of_nat n)) AND NOT (irq_bit_of (of_nat n))) s)) =
    (view (vic s))\<lparr>edg := (edg (view (vic s)))(n := False)\<rparr>"
  using assms
  by (auto simp: at_irq st_type bit_and_iff bit_not_iff bit_exp_iff ld_word view_ext dest: div_modD)

lemma soft_set:
  assumes "regs_wired mc (trt s)" "n < 1024"
  shows "view (vic (st mc (L2VIC_SOFT_INT_SET (vic_base mc) (of_nat n)) (irq_bit_of (of_nat n)) s)) =
    (if edg (view (vic s)) n then (view (vic s))\<lparr>pend := (pend (view (vic s)))(n := True)\<rparr> else view (vic s))"
  using assms
  by (auto simp: at_irq st_soft bit_exp_iff ld_word view_ext dest: div_modD)

lemma fast_store:
  assumes "fast_wired mc (trt s)" "n < 1024"
  shows "view (vic (st mc FAST_VA (of_nat n) s)) = (view (vic s))\<lparr>en := (en (view (vic s)))(n := True)\<rparr>"
    "view (vic (st mc FAST_VA (push_bit 16 1 OR of_nat n) s)) = (view (vic s))\<lparr>en := (en (view (vic s)))(n := False)\<rparr>"
  using assms fast_enable [of n "vic s"] fast_disable [of n "vic s"] by (simp_all add: st_def fast_wired_def)

lemma check_word_passes:
  assumes "regs_wired mc (trt s)" "g_l2vic_base s = vic_base mc" "\<forall>i < 32. en (view (vic s)) (64 + i) = bit w i"
  shows "check_word mc line w s = s"
proof -
  have "L2VIC_INT_ENABLE (vic_base mc) 64 = vreg mc 0x100 2" using reg_addrs(1) [of 64 mc] by simp
  then have "ld mc s (L2VIC_INT_ENABLE (vic_base mc) 64) = w"
    using ld_enable [of 2 _ "vic s"] assms wired_reg [of mc "trt s" 2 "0x100"]
    by (intro bit_word_eqI) (simp add: ld_def)
  then show ?thesis using assms(2) by (simp add: check_word_def)
qed

lemma int_range_passes:
  assumes "regs_wired mc (trt s)" "\<not> en (view (vic s)) 0"
  shows "retv (int_range_main mc s) = 0 \<and> out (int_range_main mc s) = out s @ [PASS] \<and>
    (\<forall>n < INTMAX. en (view (vic (int_range_main mc s))) n = (n = LEFT_SET))"
proof -
  let ?ok = "\<lambda>P (s' :: ('t, 'd) vstate). regs_wired mc (trt s') \<and> g_l2vic_base s' = vic_base mc \<and> retv s' = 0 \<and> out s' = out s \<and> (\<forall>n < 1024. en (view (vic s')) n = P n)"
  define s0 where "s0 = s\<lparr>retv := 0, g_l2vic_base := GET_SUBSYSTEM_BASE (cfg mc) + 0x10000\<rparr>"
  define s1 where "s1 = fold (enable_irq mc) [1..<INTMAX] s0"
  define s2 where "s2 = fold (check_set mc) [1..<INTMAX] s1"
  define s3 where "s3 = fold (clear_irq mc) [1..<INTMAX] s2"
  have "?ok (\<lambda>n. 1 \<le> n \<and> n < INTMAX \<or> en (view (vic s)) n) s1"
    unfolding s1_def
  proof (rule fold_range_inv [where I = "\<lambda>i. ?ok (\<lambda>n. 1 \<le> n \<and> n < i \<or> en (view (vic s)) n)"])
    show "?ok (\<lambda>n. 1 \<le> n \<and> n < 1 \<or> en (view (vic s)) n) s0" using assms by (auto simp: s0_def vic_base_def)
  next
    fix i and s' :: "('t, 'd) vstate" assume "1 \<le> i" "i < INTMAX" "?ok (\<lambda>n. 1 \<le> n \<and> n < i \<or> en (view (vic s)) n) s'"
    then show "?ok (\<lambda>n. 1 \<le> n \<and> n < Suc i \<or> en (view (vic s)) n) (enable_irq mc i s')"
      by (auto simp: enable_irq_def Let_def or_enable INTMAX_def)
  qed (simp add: INTMAX_def)
  then have 1: "?ok (\<lambda>n. 1 \<le> n) s1" using assms(2) by (auto simp: INTMAX_def) (metis One_nat_def Suc_leI neq0_conv)+
  have 2: "?ok (\<lambda>n. 1 \<le> n) s2"
    unfolding s2_def
  proof (rule fold_range_inv [where I = "\<lambda>i. ?ok (\<lambda>n. 1 \<le> n)"])
    fix i and s' :: "('t, 'd) vstate" assume "1 \<le> i" "i < INTMAX" "?ok (\<lambda>n. 1 \<le> n) s'"
    then show "?ok (\<lambda>n. 1 \<le> n) (check_set mc i s')" by (simp add: check_set_def Let_def enabled_test INTMAX_def)
  qed (use 1 in \<open>simp_all add: INTMAX_def\<close>)
  have "?ok (\<lambda>n. 1 \<le> n \<and> (n < INTMAX \<longrightarrow> n mod LEFT_SET = 0)) s3"
    unfolding s3_def
  proof (rule fold_range_inv [where I = "\<lambda>i. ?ok (\<lambda>n. 1 \<le> n \<and> (n < i \<longrightarrow> n mod LEFT_SET = 0))"])
    fix i and s' :: "('t, 'd) vstate" assume "1 \<le> i" "i < INTMAX" "?ok (\<lambda>n. 1 \<le> n \<and> (n < i \<longrightarrow> n mod LEFT_SET = 0)) s'"
    then show "?ok (\<lambda>n. 1 \<le> n \<and> (n < Suc i \<longrightarrow> n mod LEFT_SET = 0)) (clear_irq mc i s')"
      by (auto simp: clear_irq_def Let_def or_clear INTMAX_def less_Suc_eq)
  qed (use 2 in \<open>auto simp: INTMAX_def\<close>)
  moreover have "(1 \<le> n \<and> (n < INTMAX \<longrightarrow> n mod LEFT_SET = 0)) = (n = LEFT_SET)" if "n < 1024" for n
    using that by (auto simp: LEFT_SET_def INTMAX_def elim!: dvdE simp flip: dvd_eq_mod_eq_0)
  ultimately have 3: "?ok (\<lambda>n. n = LEFT_SET) s3" by auto
  have "fold (check_left mc) [0..<INTMAX] (s3, 0) = (s3, if LEFT_SET < INTMAX then LEFT_SET else 0)"
    by (rule fold_range_inv [where I = "\<lambda>i x. x = (s3, if LEFT_SET < i then LEFT_SET else 0)"])
      (use 3 in \<open>auto simp: check_left_def Let_def enabled_test INTMAX_def less_Suc_eq\<close>)
  then have "int_range_main mc s = s3\<lparr>out := out s3 @ [PASS]\<rparr>"
    by (simp add: int_range_main_def Let_def s3_def s2_def s1_def s0_def LEFT_SET_def INTMAX_def)
  then show ?thesis using 3 by (simp add: INTMAX_def)
qed

end

context l2vic_board
begin

lemma fast_base_64K: "take_bit 16 (fast_base mc) = 0"
proof -
  have "take_bit 16 (take_bit 20 (fast_base mc)) = take_bit 16 (fast_base mc)" by simp
  then show ?thesis using fast_place by simp
qed

lemma setup_fast_trt:
  assumes "tlb_ready mc ok (trt s)"
  shows "trt (setup_fast mc s) = write_tlb_entry (tlb_hw mc) (tlb_invalidate (tlb_hw mc) (trt s) FAST_VA) (fast_entry (arch_rev mc) (fast_base mc)) 3"
proof -
  have "\<not> 3 > tlb_fixed_entries (trt s) - 1" using assms by (auto simp: tlb_ready_def not_less)
  then show ?thesis by (simp add: setup_fast_def fast_base_def add_translation_extended_def get_tlb_fixed_entries_def Let_def)
qed

lemma setup_fast_wired:
  assumes r: "tlb_ready mc ok (trt s)"
  shows "fast_wired mc (trt (setup_fast mc s)) \<and> regs_wired mc (trt (setup_fast mc s))"
proof -
  let ?t = "trt (setup_fast mc s)" and ?e = "fast_entry (arch_rev mc) (fast_base mc)"
  have ssr: "ssr_reg ?t = ssr_reg (trt s)" by (simp add: setup_fast_trt [OF r] frame_simps)
  have ok: "ok (dev (trt s)) 3" using r by (simp add: tlb_ready_def)
  have entry: "op_tlbr (tlb_hw mc) (dev ?t) i =
      (if i = 3 then ?e else op_tlbr (tlb_hw mc) (dev (tlb_invalidate (tlb_hw mc) (trt s) FAST_VA)) i)"
    if "ok (dev (trt s)) i" for i
    using tlb.write_read [of "tlb_invalidate (tlb_hw mc) (trt s) FAST_VA" 3 i] ok that by (auto simp: setup_fast_trt [OF r] tlb.ok_invalidate)
  have "op_tlbp (tlb_hw mc) (dev ?t) (probe_key (ssr_reg (trt s)) FAST_VA) = 3"
    unfolding setup_fast_trt [OF r]
    using tlb.install_entry [OF _ ok fast_entry_matches] r by (simp add: tlb_ready_def)
  then have "phys (tlb_hw mc) ?t FAST_VA = ucast (fast_base mc)"
    using entry [OF ok] fast_entry_translate [OF fast_place]
    by (simp add: phys_def tlb_probe_def get_ssr_def ssr read_tlb_entry_def TLB_NOT_FOUND_def)
  moreover have "phys (tlb_hw mc) ?t (vic_base mc + of_nat k) = ucast (vic_base mc + of_nat k)" if k: "k < 0x1000" for k
  proof (rule direct_phys [OF tlb.tlb_device_axioms])
    let ?a = "vic_base mc + of_nat k :: u32"
    have d: "direct (tlb_hw mc) ok (trt s) ?a" and m: "drop_bit 20 ?a \<noteq> 0x888" using r k by (auto simp: tlb_ready_def)
    show "direct (tlb_hw mc) ok ?t ?a"
      unfolding direct_def
    proof (intro allI impI)
      fix i assume i: "ok (dev ?t) i" "tlb_entry_matches (probe_key (ssr_reg ?t) ?a) (op_tlbr (tlb_hw mc) (dev ?t) i)"
      have oki: "ok (dev (trt s)) i" using i(1) by (simp add: setup_fast_trt [OF r] tlb.ok_write tlb.ok_invalidate)
      have "i \<noteq> 3" using i(2) entry [OF ok] fast_entry_other [OF fast_base_64K m] by auto
      then have "op_tlbr (tlb_hw mc) (dev ?t) i = op_tlbr (tlb_hw mc) (dev (trt s)) i"
        using entry [OF oki] i(2) tlb.invalidate_entry [OF oki, of FAST_VA] not_matches_cleared by (auto split: if_splits)
      then show "tlb_translate (op_tlbr (tlb_hw mc) (dev ?t) i) ?a = ucast ?a" using d oki i(2) by (simp add: direct_def ssr)
    qed
  qed
  ultimately show ?thesis by (simp add: fast_wired_def regs_wired_def)
qed

text \<open>The six commands of \<open>main\<close> and what word 2 of the enable register reads after each.\<close>

lemma fastl2vic_passes:
  assumes "tlb_ready mc ok (trt s)" "\<forall>n. 64 \<le> n \<longrightarrow> n < 96 \<longrightarrow> \<not> en (view (vic s)) n"
  shows "retv (fastl2vic_main mc s) = 0 \<and> out (fastl2vic_main mc s) = out s @ [PASS] \<and>
    en (view (vic (fastl2vic_main mc s))) = en (view (vic s))"
proof -
  define s0 where "s0 = setup_fast mc (s\<lparr>retv := 0\<rparr>)"
  define s1 where "s1 = st mc (L2VIC_INT_ENABLE_SET (g_l2vic_base s0) (of_nat 66)) (irq_bit_of (of_nat 66)) s0"
  define s2 where "s2 = st mc FAST_VA (of_nat 68) s1"
  define s3 where "s3 = st mc FAST_VA (of_nat 67) s2"
  define s4 where "s4 = st mc FAST_VA (push_bit 16 1 OR of_nat 68) s3"
  define s5 where "s5 = st mc FAST_VA (push_bit 16 1 OR of_nat 66) s4"
  define s6 where "s6 = st mc FAST_VA (push_bit 16 1 OR of_nat 67) s5"
  note defs = s1_def s2_def s3_def s4_def s5_def s6_def
  have wired: "fast_wired mc (trt s0)" "regs_wired mc (trt s0)"
    using setup_fast_wired [of "s\<lparr>retv := 0\<rparr>"] assms(1) by (simp_all add: s0_def)
  have s0: "g_l2vic_base s0 = vic_base mc" "retv s0 = 0" "out s0 = out s" "vic s0 = vic s"
    by (simp_all add: s0_def setup_fast_def vic_base_def Let_def)
  have e1: "view (vic s1) = (view (vic s))\<lparr>en := (en (view (vic s)))(66 := True)\<rparr>"
    unfolding s1_def s0 by (subst set_enable) (use wired s0 in simp_all)
  have e2: "view (vic s2) = (view (vic s1))\<lparr>en := (en (view (vic s1)))(68 := True)\<rparr>"
    unfolding s2_def by (subst fast_store) (use wired in \<open>simp_all add: s1_def\<close>)
  have e3: "view (vic s3) = (view (vic s2))\<lparr>en := (en (view (vic s2)))(67 := True)\<rparr>"
    unfolding s3_def by (subst fast_store) (use wired in \<open>simp_all add: defs\<close>)
  have e4: "view (vic s4) = (view (vic s3))\<lparr>en := (en (view (vic s3)))(68 := False)\<rparr>"
    unfolding s4_def by (subst fast_store) (use wired in \<open>simp_all add: defs\<close>)
  have e5: "view (vic s5) = (view (vic s4))\<lparr>en := (en (view (vic s4)))(66 := False)\<rparr>"
    unfolding s5_def by (subst fast_store) (use wired in \<open>simp_all add: defs\<close>)
  have e6: "view (vic s6) = (view (vic s5))\<lparr>en := (en (view (vic s5)))(67 := False)\<rparr>"
    unfolding s6_def by (subst fast_store) (use wired in \<open>simp_all add: defs\<close>)
  have w: "(0x4 :: int) = 2 ^ 2" "(0x14 :: int) = 2 ^ 2 OR 2 ^ 4" "(0x1c :: int) = 2 ^ 2 OR 2 ^ 4 OR 2 ^ 3" "(0xc :: int) = 2 ^ 2 OR 2 ^ 3" "(0x8 :: int) = 2 ^ 3"
    by simp_all
  have b: "bit (0x4 :: int) i = (i = 2)" "bit (0x14 :: int) i = (i = 2 \<or> i = 4)" "bit (0x1c :: int) i = (i = 2 \<or> i = 4 \<or> i = 3)"
    "bit (0xc :: int) i = (i = 2 \<or> i = 3)" "bit (0x8 :: int) i = (i = 3)" for i
    unfolding w bit_or_iff bit_exp_iff by auto
  have c: "regs_wired mc (trt s')" "g_l2vic_base s' = vic_base mc" if "s' \<in> {s1, s2, s3, s4, s5, s6}" for s'
    using that wired s0 by (auto simp: defs)
  have "\<not> en (view (vic s)) (64 + i)" if "i < 32" for i using assms(2) that by simp
  then have words: "check_word mc 39 0x4 s1 = s1" "check_word mc 45 0x14 s2 = s2" "check_word mc 49 0x1c s3 = s3" "check_word mc 56 0xc s4 = s4"
    "check_word mc 60 0x8 s5 = s5" "check_word mc 64 0x0 s6 = s6"
    by (auto intro!: check_word_passes c simp: b e1 e2 e3 e4 e5 e6 split: if_splits)
  have "fastl2vic_main mc s = s6\<lparr>out := out s6 @ [PASS]\<rparr>"
    using words by (simp add: fastl2vic_main_def Let_def s0_def [symmetric] defs s0)
  moreover have "en (view (vic s6)) = en (view (vic s))" using assms(2) by (auto simp: e1 e2 e3 e4 e5 e6 fun_eq_iff)
  ultimately show ?thesis by (simp add: defs s0)
qed

end

section \<open>A controller\<close>

text \<open>The three arrays of bits, with the decoding of the addresses.\<close>

definition word_bits :: "(nat \<Rightarrow> bool) \<Rightarrow> nat \<Rightarrow> u32" where
  "word_bits f k = horner_sum of_bool 2 (map (\<lambda>i. f (32 * k + i)) [0..<32])"

definition reg_word :: "u32 \<Rightarrow> nat \<Rightarrow> u64 \<Rightarrow> nat option" where
  "reg_word b r a = (let d = unat (ucast a - b :: u32) in if r \<le> d \<and> d < r + 128 then Some ((d - r) div 4) else None)"

definition model_ld :: "u32 \<Rightarrow> vic_view \<Rightarrow> u64 \<Rightarrow> u32" where
  "model_ld b v a =
     (case reg_word b 0x100 a of Some k \<Rightarrow> word_bits (en v) k
      | None \<Rightarrow> case reg_word b 0x280 a of Some k \<Rightarrow> word_bits (edg v) k | None \<Rightarrow> 0)"

definition model_st :: "u32 \<Rightarrow> u32 \<Rightarrow> vic_view \<Rightarrow> u64 \<Rightarrow> u32 \<Rightarrow> vic_view" where
  "model_st b f v a x =
     (let upd = (\<lambda>g r. case reg_word b r a of Some k \<Rightarrow> (\<lambda>n. g (n div 32 = k) (bit x (n mod 32)) n) | None \<Rightarrow> (\<lambda>n. g False False n))
      in if a = ucast f
         then let n = unat (take_bit 16 x)
              in if drop_bit 16 x = 0 then v\<lparr>en := (en v)(n := True)\<rparr> else if drop_bit 16 x = 1 then v\<lparr>en := (en v)(n := False)\<rparr> else v
         else v\<lparr>en := upd (\<lambda>h w n. if h then w else upd (\<lambda>h w n. (en v n \<or> h \<and> w)) 0x200 n \<and> \<not> upd (\<lambda>h w n. h \<and> w) 0x180 n) 0x100,
                edg := upd (\<lambda>h w n. if h then w else edg v n) 0x280,
                pend := upd (\<lambda>h w n. pend v n \<or> h \<and> w \<and> edg v n) 0x480\<rparr>)"

definition model_take :: "vic_view \<Rightarrow> (nat \<times> vic_view) option" where
  "model_take v =
     (case find (\<lambda>n. en v n \<and> pend v n) [0..<1024] of
        None \<Rightarrow> None
      | Some n \<Rightarrow> Some (n, v\<lparr>en := (en v)(n := False), pend := (pend v)(n := False)\<rparr>))"

definition model_cfg :: cfgtable where
  "model_cfg = \<lparr>cfgbase = 0, memw_phys = (\<lambda>off _. if off = 0x8 then 0xfab0 else if off = 0x28 then 0xd81e else 0)\<rparr>"

definition vic_model :: "(u64 list, vic_view) machine" where
  "vic_model = \<lparr>tlb_hw = arr_tlb, vic_hw = \<lparr>vic_ld = model_ld 0xfab10000, vic_st = model_st 0xfab10000 0xd81e0000, vic_take = model_take\<rparr>,
     cfg = model_cfg, arch_rev = 73\<rparr>"

lemma vic_model_base: "vic_base vic_model = 0xfab10000" "fast_base vic_model = 0xd81e0000"
  by (simp_all add: vic_base_def fast_base_def vic_model_def model_cfg_def GET_SUBSYSTEM_BASE_def GET_FASTL2VIC_BASE_def read_cfgtable_field_def)

lemma bit_word_bits: "i < 32 \<Longrightarrow> bit (word_bits f k) i = f (32 * k + i)"
  by (simp add: word_bits_def bit_horner_sum_bit_word_iff)

lemma reg_word_vreg:
  assumes "k < 32" "r \<le> 0x480" "r' \<le> 0x480" "r mod 128 = 0" "r' mod 128 = 0"
  shows "reg_word (vic_base mc) r' (ucast (vreg mc r k)) = (if r = r' then Some k else None)"
proof -
  have "vreg mc r k - vic_base mc = of_nat (r + 4 * k)" by (simp add: vreg_def)
  moreover have "unat (of_nat (r + 4 * k) :: u32) = r + 4 * k" using assms(1, 2) by (intro unat_of_nat_small) simp
  ultimately have "unat (vreg mc r k - vic_base mc) = r + 4 * k" by (simp only:)
  moreover have "r' \<le> r + 4 * k \<and> r + 4 * k < r' + 128 \<longleftrightarrow> r = r'"
  proof -
    obtain p q where "r = 128 * p" "r' = 128 * q" using assms(4, 5) by (auto elim!: dvdE simp flip: dvd_eq_mod_eq_0)
    then show ?thesis using assms(1) by auto
  qed
  moreover have "ucast (ucast (vreg mc r k) :: u64) = vreg mc r k" by (rule bit_word_eqI) (simp add: bit_ucast_iff)
  ultimately show ?thesis by (simp add: reg_word_def Let_def)
qed


lemma fast_not_reg: "r \<le> 0x480 \<Longrightarrow> reg_word 0xfab10000 r (ucast (0xd81e0000 :: u32)) = None"
  by (simp add: reg_word_def)

lemma vreg_not_fast:
  assumes "k < 32" "r \<le> 0x480" "r mod 128 = 0"
  shows "(ucast (vreg vic_model r k) :: u64) \<noteq> 0xd81e0000"
  using reg_word_vreg [OF assms(1, 2, 2, 3, 3), of vic_model] fast_not_reg [OF assms(2)] by (auto simp: vic_model_base)

lemma model_regs:
  assumes "k < 32" "r \<in> {0x100, 0x180, 0x200, 0x280, 0x480}" "r' \<in> {0x100, 0x180, 0x200, 0x280, 0x480}"
  shows "reg_word 0xfab10000 r' (ucast (vreg vic_model r k)) = (if r = r' then Some k else None)"
  using reg_word_vreg [OF assms(1), of r r' vic_model] assms(2, 3) by (auto simp: vic_model_base)

lemma vic_model_simps: "vic_ld (vic_hw vic_model) = model_ld 0xfab10000" "vic_st (vic_hw vic_model) = model_st 0xfab10000 0xd81e0000"
  "vic_take (vic_hw vic_model) = model_take" "tlb_hw vic_model = arr_tlb"
  by (simp_all add: vic_model_def)

lemma command_word:
  assumes "n < 1024"
  shows "drop_bit 16 (of_nat n :: u32) = 0" "take_bit 16 (of_nat n :: u32) = of_nat n"
    "drop_bit 16 (push_bit 16 1 OR of_nat n :: u32) = 1" "take_bit 16 (push_bit 16 1 OR of_nat n :: u32) = of_nat n"
proof -
  have n: "take_bit 16 n = n" using assms by (simp add: take_bit_nat_eq_self)
  then have t: "take_bit 16 (of_nat n :: u32) = of_nat n" by (simp add: take_bit_of_nat)
  have "\<not> bit n (16 + i)" for i using bit_take_bit_iff [of 16 n "16 + i"] n by simp
  then show "drop_bit 16 (of_nat n :: u32) = 0" "take_bit 16 (of_nat n :: u32) = of_nat n"
    "drop_bit 16 (push_bit 16 1 OR of_nat n :: u32) = 1" "take_bit 16 (push_bit 16 1 OR of_nat n :: u32) = of_nat n"
    using t by (auto intro!: bit_word_eqI simp: bit_simps)
qed

lemma model_laws: "l2vic vic_model (\<lambda>v. v)"
proof
  fix k i n v and x :: u32 and d d' :: vic_view
  note simps = vic_model_simps model_ld_def model_st_def Let_def model_regs vreg_not_fast bit_word_bits vic_model_base fast_not_reg
  show "k < 32 \<Longrightarrow> i < 32 \<Longrightarrow> bit (vic_ld (vic_hw vic_model) d (ucast (vreg vic_model 0x100 k))) i = en d (32 * k + i)" by (simp add: simps)
  show "k < 32 \<Longrightarrow> i < 32 \<Longrightarrow> bit (vic_ld (vic_hw vic_model) d (ucast (vreg vic_model 0x280 k))) i = edg d (32 * k + i)" by (simp add: simps)
  show "k < 32 \<Longrightarrow> vic_ld (vic_hw vic_model) d (ucast (vreg vic_model 0x180 k)) = 0" by (simp add: simps)
  show "k < 32 \<Longrightarrow> vic_st (vic_hw vic_model) d (ucast (vreg vic_model 0x100 k)) x =
      d\<lparr>en := \<lambda>n. if n div 32 = k then bit x (n mod 32) else en d n\<rparr>" by (simp add: simps)
  show "k < 32 \<Longrightarrow> vic_st (vic_hw vic_model) d (ucast (vreg vic_model 0x180 k)) x =
      d\<lparr>en := \<lambda>n. en d n \<and> \<not> (n div 32 = k \<and> bit x (n mod 32))\<rparr>" by (simp add: simps)
  show "k < 32 \<Longrightarrow> vic_st (vic_hw vic_model) d (ucast (vreg vic_model 0x200 k)) x =
      d\<lparr>en := \<lambda>n. en d n \<or> n div 32 = k \<and> bit x (n mod 32)\<rparr>" by (simp add: simps)
  show "k < 32 \<Longrightarrow> vic_st (vic_hw vic_model) d (ucast (vreg vic_model 0x280 k)) x =
      d\<lparr>edg := \<lambda>n. if n div 32 = k then bit x (n mod 32) else edg d n\<rparr>" by (simp add: simps)
  show "k < 32 \<Longrightarrow> vic_st (vic_hw vic_model) d (ucast (vreg vic_model 0x480 k)) x =
      d\<lparr>pend := \<lambda>n. pend d n \<or> n div 32 = k \<and> bit x (n mod 32) \<and> edg d n\<rparr>" by (simp add: simps)
  show "n < 1024 \<Longrightarrow> vic_st (vic_hw vic_model) d (ucast (fast_base vic_model)) (of_nat n) = d\<lparr>en := (en d)(n := True)\<rparr>"
    by (simp add: simps command_word unat_of_nat_small)
  show "n < 1024 \<Longrightarrow> vic_st (vic_hw vic_model) d (ucast (fast_base vic_model)) (push_bit 16 1 OR of_nat n) = d\<lparr>en := (en d)(n := False)\<rparr>"
    by (simp add: simps command_word unat_of_nat_small)
  show "(vic_take (vic_hw vic_model) d = None) = (\<forall>n<1024. \<not> (en d n \<and> pend d n))"
    by (auto simp: simps model_take_def find_None_iff split: option.splits dest: find_upt_SomeD)
  show "vic_take (vic_hw vic_model) d = Some (n, d') \<Longrightarrow> n < 1024 \<and> en d n \<and> pend d n \<and> (\<forall>m<n. \<not> (en d m \<and> pend d m)) \<and>
      d' = d\<lparr>en := (en d)(n := False), pend := (pend d)(n := False)\<rparr>"
    by (auto simp: simps model_take_def find_Some_iff split: option.splits)
qed

interpretation model: l2vic_board vic_model "\<lambda>v. v" arr_ok
  by (intro l2vic_board.intro l2vic_board_axioms.intro model_laws)
    (simp_all add: vic_model_simps arr.tlb_device_axioms vic_model_base)


text \<open>An empty TLB is ready.\<close>

definition empty_rt :: "u64 list tlb_rt" where
  "empty_rt = \<lparr>dev = replicate 8 0, ssr_reg = 0, syscfg_TL = False, tlb_fixed_entries = 6, upte = \<lambda>_. 0\<rparr>"

definition quiet_state :: "(u64 list, vic_view) vstate" where
  "quiet_state = \<lparr>trt = empty_rt, vic = \<lparr>en = \<lambda>_. False, edg = \<lambda>_. False, pend = \<lambda>_. False\<rparr>, g_l2vic_base = 0, registered = False,
     pass = 0, g_irq = 0, irqlog = replicate 1025 0, interrupt_count = 0, retv = 0, out = []\<rparr>"

lemma model_ready: "tlb_ready vic_model arr_ok (trt quiet_state)"
proof -
  have "drop_bit 20 (0xfab10000 + of_nat k :: u32) \<noteq> 0x888" if "k < 0x1000" for k
  proof
    assume "drop_bit 20 (0xfab10000 + of_nat k :: u32) = 0x888"
    then have "unat (drop_bit 20 (0xfab10000 + of_nat k :: u32)) = 0x888" by simp
    moreover have "unat (0xfab10000 + of_nat k :: u32) = 0xfab10000 + k"
      using unat_of_nat_small [of "0xfab10000 + k", where 'a = 32] that by simp
    ultimately have "(0xfab10000 + k) div 2 ^ 20 = 0x888" by (simp add: drop_bit_eq_div unat_div)
    then show False using that by simp
  qed
  moreover have "\<not> tlb_entry_matches x 0" for x by (simp add: tlb_entry_matches_def)
  ultimately show ?thesis
    by (simp add: tlb_ready_def direct_def unique_match_def vic_model_base vic_model_simps quiet_state_def empty_rt_def arr_tlb_def arr_ok_def)
qed

text \<open>C28: \<^verbatim>\<open>src/fastl2vic.c\<close>: \<open>main\<close> returns 0 and prints PASS on every board whose TLB and controller meet their laws, when
  interrupts 64 to 95 are disabled at the start.  The translation it adds sends the stores to the fast interface and leaves the
  registers where they were, each command enables or disables one interrupt, and in the end all are as before.\<close>

theorem fastl2vic_main_passes:
  assumes "l2vic_board mc view ok" "tlb_ready mc ok (trt s)" "\<forall>n. 64 \<le> n \<longrightarrow> n < 96 \<longrightarrow> \<not> en (view (vic s)) n"
  shows "retv (fastl2vic_main mc s) = 0 \<and> out (fastl2vic_main mc s) = out s @ [PASS] \<and>
    en (view (vic (fastl2vic_main mc s))) = en (view (vic s))"
  using assms by (rule l2vic_board.fastl2vic_passes)

theorem fastl2vic_main_passes_witness:
  "retv (fastl2vic_main vic_model quiet_state) = 0 \<and> out (fastl2vic_main vic_model quiet_state) = [PASS]"
  using fastl2vic_main_passes [OF model.l2vic_board_axioms model_ready] by (simp add: quiet_state_def)

end
