(* ===== verification/L2vic_Tests.thy ===== *)
theory L2vic_Tests
  imports L2vic
begin

text \<open>
  The programs \<^verbatim>\<open>src/fastint.c\<close>, \<^verbatim>\<open>src/pendalot.c\<close> and \<^verbatim>\<open>src/levelint.c\<close>, which an interrupt of the
  controller can stop anywhere: each of them is a list of statements, and each is proved to end and to pass under every interleaving.
\<close>

section \<open>Handlers\<close>

text \<open>The interrupt the controller offers, once a handler is registered.\<close>

definition deliver :: "('t, 'd) machine \<Rightarrow> (nat \<Rightarrow> ('t, 'd) vstate \<Rightarrow> ('t, 'd) vstate irq) \<Rightarrow> ('t, 'd) vstate \<Rightarrow> ('t, 'd) vstate irq" where
  "deliver mc handler s =
     (if registered s
      then case vic_take (vic_hw mc) (vic s) of None \<Rightarrow> No_irq | Some (vid, d) \<Rightarrow> handler vid (s\<lparr>vic := d\<rparr>)
      else No_irq)"

definition reenable :: "('t, 'd) machine \<Rightarrow> nat \<Rightarrow> ('t, 'd) vstate \<Rightarrow> ('t, 'd) vstate" where
  "reenable mc vid s = st mc (L2VIC_INT_ENABLE_SET (g_l2vic_base s) (of_nat vid)) (irq_bit_of (of_nat vid)) s"

definition fastint_handler :: "('t, 'd) machine \<Rightarrow> nat \<Rightarrow> ('t, 'd) vstate \<Rightarrow> ('t, 'd) vstate irq" where
  "fastint_handler mc vid s =
     (let s = s\<lparr>g_irq := of_nat vid\<rparr>;
          s = reenable mc vid s
      in Irq (s\<lparr>pass := pass s + 1\<rparr>))"

text \<open>\<open>irqlog\<close> has \<open>INTMAX + 1\<close> elements.\<close>

definition pendalot_handler :: "('t, 'd) machine \<Rightarrow> nat \<Rightarrow> ('t, 'd) vstate \<Rightarrow> ('t, 'd) vstate irq" where
  "pendalot_handler mc vid s =
     (let s = s\<lparr>g_irq := of_nat vid\<rparr>;
          s = reenable mc vid s
      in if vid < length (irqlog s)
         then let s = s\<lparr>irqlog := (irqlog s)[vid := irqlog s ! vid + 1]\<rparr>
              in Irq (if vid = INTMAX - 1 then s\<lparr>pass := pass s + 1\<rparr> else s)
         else Irq_undef)"

definition levelint_handler :: "('t, 'd) machine \<Rightarrow> nat \<Rightarrow> ('t, 'd) vstate \<Rightarrow> ('t, 'd) vstate irq" where
  "levelint_handler mc vid s =
     (let s = reenable mc vid s
      in Irq (s\<lparr>interrupt_count := interrupt_count s + 1\<rparr>))"

section \<open>Programs\<close>

text \<open>The setup of an interrupt; \<open>line\<close> is that of the assignment of \<open>ret\<close>.\<close>

definition report_enable :: "('t, 'd) machine \<Rightarrow> nat \<Rightarrow> nat \<Rightarrow> ('t, 'd) vstate \<Rightarrow> ('t, 'd) vstate" where
  "report_enable mc line irq s =
     (let a = L2VIC_INT_ENABLE (g_l2vic_base s) (of_nat irq)
      in if ld mc s a AND irq_bit_of (of_nat irq) \<noteq> irq_bit_of (of_nat irq)
         then s\<lparr>out := out s @ [ERROR irq (ld mc s a)], retv := line\<rparr> else s)"

definition setup_edge :: "('t, 'd) machine \<Rightarrow> nat \<Rightarrow> nat \<Rightarrow> ('t, 'd) vstate stmt list" where
  "setup_edge mc line irq =
     [Do (st mc FAST_VA (of_nat irq)),
      Do (\<lambda>s. let a = L2VIC_INT_TYPE (g_l2vic_base s) (of_nat irq) in st mc a (ld mc s a OR irq_bit_of (of_nat irq)) s),
      Do (report_enable mc line irq)]"

definition setup_level :: "('t, 'd) machine \<Rightarrow> nat \<Rightarrow> nat \<Rightarrow> ('t, 'd) vstate stmt list" where
  "setup_level mc line irq =
     [Do (st mc FAST_VA (of_nat irq)),
      Do (\<lambda>s. let a = L2VIC_INT_TYPE (g_l2vic_base s) (of_nat irq) in st mc a (ld mc s a AND NOT (irq_bit_of (of_nat irq))) s),
      Do (report_enable mc line irq)]"

definition trigger :: "('t, 'd) machine \<Rightarrow> nat \<Rightarrow> ('t, 'd) vstate \<Rightarrow> ('t, 'd) vstate" where
  "trigger mc irq s = st mc (L2VIC_SOFT_INT_SET (g_l2vic_base s) (of_nat irq)) (irq_bit_of (of_nat irq)) s"

definition verdict :: "('t, 'd) vstate \<Rightarrow> ('t, 'd) vstate" where
  "verdict s = s\<lparr>out := out s @ [if retv s \<noteq> 0 then FAIL (retv s) else PASS]\<rparr>"

definition fastint_round :: "('t, 'd) machine \<Rightarrow> nat \<Rightarrow> ('t, 'd) vstate stmt list" where
  "fastint_round mc irq =
     [Do (trigger mc irq), Await (\<lambda>s. pass s \<noteq> 0), Require (\<lambda>s. g_irq s = of_nat irq), Do (\<lambda>s. s\<lparr>pass := 0\<rparr>)]"

definition fastint_main :: "('t, 'd) machine \<Rightarrow> ('t, 'd) vstate stmt list" where
  "fastint_main mc =
     [Do (\<lambda>s. setup_fast mc (s\<lparr>retv := 0\<rparr>)), Do (\<lambda>s. s\<lparr>registered := True\<rparr>)]
     @ concat (map (setup_edge mc 73) [1..<INTMAX])
     @ concat (map (fastint_round mc) [1..<INTMAX])
     @ [Do verdict]"

definition log_clear :: "nat \<Rightarrow> ('t, 'd) vstate stmt list" where
  "log_clear i = [Require (\<lambda>s. irqlog s ! i = 0)]"

definition log_once :: "nat \<Rightarrow> ('t, 'd) vstate stmt list" where
  "log_once i = [Require (\<lambda>s. irqlog s ! i = 1)]"

definition pendalot_main :: "('t, 'd) machine \<Rightarrow> ('t, 'd) vstate stmt list" where
  "pendalot_main mc =
     [Do (\<lambda>s. setup_fast mc (s\<lparr>retv := 0\<rparr>)), Do (\<lambda>s. s\<lparr>registered := True\<rparr>)]
     @ concat (map (setup_edge mc 82) [1..<INTMAX])
     @ log_clear 0 @ log_clear INTMAX @ concat (map log_clear [1..<INTMAX])
     @ concat (map (\<lambda>irq. [Do (trigger mc irq)]) [1..<INTMAX])
     @ [Await (\<lambda>s. pass s \<noteq> 0)]
     @ log_clear 0 @ log_clear INTMAX @ concat (map log_once [1..<INTMAX])
     @ [Do verdict]"

definition levelint_main :: "('t, 'd) machine \<Rightarrow> ('t, 'd) vstate stmt list" where
  "levelint_main mc =
     [Do (\<lambda>s. setup_fast mc (s\<lparr>retv := 0\<rparr>)), Do (\<lambda>s. s\<lparr>registered := True\<rparr>)]
     @ concat (map (setup_level mc 71) [1..<INTMAX])
     @ concat (map (\<lambda>irq. [Do (trigger mc irq)]) [1..<INTMAX])
     @ [Require (\<lambda>s. interrupt_count s = 0), Do (\<lambda>s. if retv s = 0 then s\<lparr>out := out s @ [PASS]\<rparr> else s)]"


section \<open>Setup\<close>

text \<open>The state after the setup of the interrupts below \<open>i\<close>: nothing is pending, the variables of the handlers are untouched.\<close>

definition placed :: "('t, 'd) machine \<Rightarrow> msg list \<Rightarrow> ('t, 'd) vstate \<Rightarrow> bool" where
  "placed mc msgs s \<longleftrightarrow> fast_wired mc (trt s) \<and> regs_wired mc (trt s) \<and> g_l2vic_base s = vic_base mc \<and> retv s = 0 \<and> out s = msgs \<and> registered s"

definition vars :: "('t, 'd) vstate \<Rightarrow> u32 \<times> u32 list \<times> u32" where
  "vars s = (pass s, irqlog s, interrupt_count s)"

lemma placed_vic [simp]: "placed mc msgs (s\<lparr>vic := d\<rparr>) = placed mc msgs s" "vars (s\<lparr>vic := d\<rparr>) = vars s"
  by (simp_all add: placed_def vars_def)

lemma placed_st [simp]: "placed mc msgs (st mc a x s) = placed mc msgs s" "vars (st mc a x s) = vars s"
  by (simp_all add: placed_def vars_def)

definition prep :: "('t, 'd) machine \<Rightarrow> ('d \<Rightarrow> vic_view) \<Rightarrow> bool \<Rightarrow> msg list \<Rightarrow> u32 \<times> u32 list \<times> u32 \<Rightarrow> nat \<Rightarrow> ('t, 'd) vstate \<Rightarrow> bool" where
  "prep mc view e msgs v i s \<longleftrightarrow> placed mc msgs s \<and> vars s = v \<and> (\<forall>n < 1024. \<not> pend (view (vic s)) n) \<and>
     (\<forall>n. 1 \<le> n \<longrightarrow> n < i \<longrightarrow> en (view (vic s)) n \<and> edg (view (vic s)) n = e)"

text \<open>A round of \<open>fastint\<close>: the one interrupt that is triggered is taken before the loop ends.\<close>

definition round_inv :: "('t, 'd) machine \<Rightarrow> ('d \<Rightarrow> vic_view) \<Rightarrow> msg list \<Rightarrow> u32 list \<times> u32 \<Rightarrow> nat \<Rightarrow> ('t, 'd) vstate \<Rightarrow> bool" where
  "round_inv mc view msgs v irq s \<longleftrightarrow> placed mc msgs s \<and> snd (vars s) = v \<and> (\<forall>n. 1 \<le> n \<longrightarrow> n < 1024 \<longrightarrow> en (view (vic s)) n \<and> edg (view (vic s)) n) \<and>
     (\<forall>n < 1024. n \<noteq> irq \<longrightarrow> \<not> pend (view (vic s)) n) \<and>
     (if pend (view (vic s)) irq then pass s = 0 else pass s = 1 \<and> g_irq s = of_nat irq)"

text \<open>\<open>pendalot\<close> after it has triggered the interrupts below \<open>m\<close>: each of them is pending or logged once; the last one is
  taken when nothing else is pending.\<close>

definition log_inv :: "('t, 'd) machine \<Rightarrow> ('d \<Rightarrow> vic_view) \<Rightarrow> msg list \<Rightarrow> nat \<Rightarrow> ('t, 'd) vstate \<Rightarrow> bool" where
  "log_inv mc view msgs m s \<longleftrightarrow> placed mc msgs s \<and> (\<forall>n. 1 \<le> n \<longrightarrow> n < 1024 \<longrightarrow> en (view (vic s)) n \<and> edg (view (vic s)) n) \<and>
     (\<forall>n < 1024. pend (view (vic s)) n \<longrightarrow> 1 \<le> n \<and> n < m) \<and> length (irqlog s) = 1025 \<and>
     (\<forall>n < 1025. irqlog s ! n = (if 1 \<le> n \<and> n < m \<and> \<not> pend (view (vic s)) n then 1 else 0)) \<and>
     (if m = 1024 \<and> \<not> pend (view (vic s)) 1023 then pass s = 1 \<and> (\<forall>n < 1024. \<not> pend (view (vic s)) n) else pass s = 0)"

definition pending_count :: "('d \<Rightarrow> vic_view) \<Rightarrow> ('t, 'd) vstate \<Rightarrow> nat" where
  "pending_count view s = card {n. n < 1024 \<and> pend (view (vic s)) n}"

context l2vic_board
begin

lemma deliver_quiet: "\<forall>n < 1024. \<not> pend (view (vic s)) n \<Longrightarrow> deliver mc h s = No_irq"
  using take_none [of "vic s"] by (auto simp: deliver_def split: option.splits)

lemma quiet_inv: "(\<And>s. I s \<Longrightarrow> \<forall>n < 1024. \<not> pend (view (vic s)) n) \<Longrightarrow> irq_inv (deliver mc h) I (\<lambda>_. 0)"
  by (simp add: irq_inv_def deliver_quiet)

lemma report_enable_passes:
  "placed mc msgs s \<Longrightarrow> n < 1024 \<Longrightarrow> en (view (vic s)) n \<Longrightarrow> report_enable mc line n s = s"
  by (simp add: report_enable_def placed_def enabled_test Let_def)

lemma setup_part:
  assumes "1 \<le> i" "i < 1024"
  shows "part (deliver mc h) (prep mc view e msgs v i) (if e then setup_edge mc line i else setup_level mc line i) (prep mc view e msgs v (Suc i))"
proof -
  let ?I = "prep mc view e msgs v i"
  have "part (deliver mc h) ?I [Do (st mc FAST_VA (of_nat i))] (\<lambda>s. ?I s \<and> en (view (vic s)) i)"
    by (rule part_Do [OF quiet_inv]) (use assms in \<open>auto simp: prep_def fast_store placed_def\<close>)
  moreover have "part (deliver mc h) (\<lambda>s. ?I s \<and> en (view (vic s)) i)
      [Do (\<lambda>s. let a = L2VIC_INT_TYPE (g_l2vic_base s) (of_nat i)
               in st mc a (if e then ld mc s a OR irq_bit_of (of_nat i) else ld mc s a AND NOT (irq_bit_of (of_nat i))) s)]
      (prep mc view e msgs v (Suc i))"
    by (rule part_Do [OF quiet_inv])
      (use assms in \<open>auto simp: prep_def or_type and_type placed_def Let_def less_Suc_eq\<close>)
  moreover have "part (deliver mc h) (prep mc view e msgs v (Suc i)) [Do (report_enable mc line i)] (prep mc view e msgs v (Suc i))"
    by (rule part_Do [OF quiet_inv]) (use assms in \<open>auto simp: prep_def report_enable_passes\<close>)
  ultimately show ?thesis
    by (cases e) (auto simp: setup_edge_def setup_level_def intro: part_Cons)
qed

lemma start_part:
  assumes "tlb_ready mc ok (trt s)" "\<forall>n < 1024. \<not> pend (view (vic s)) n" "\<not> registered s"
  shows "part (deliver mc h) (\<lambda>s'. s' = s) ([Do (\<lambda>s. setup_fast mc (s\<lparr>retv := 0\<rparr>)), Do (\<lambda>s. s\<lparr>registered := True\<rparr>)]) (prep mc view e (out s) (vars s) 1)"
proof -
  have "part (deliver mc h) (\<lambda>s'. s' = s) [Do (\<lambda>s. setup_fast mc (s\<lparr>retv := 0\<rparr>))] (\<lambda>s'. s' = setup_fast mc (s\<lparr>retv := 0\<rparr>))"
    by (rule part_Do [OF quiet_inv]) (use assms in auto)
  moreover have "part (deliver mc h) (\<lambda>s'. s' = setup_fast mc (s\<lparr>retv := 0\<rparr>)) [Do (\<lambda>s. s\<lparr>registered := True\<rparr>)] (prep mc view e (out s) (vars s) 1)"
    by (rule part_Do [OF quiet_inv])
      (use assms setup_fast_wired [of "s\<lparr>retv := 0\<rparr>"] in \<open>auto simp: prep_def placed_def vars_def setup_fast_def Let_def vic_base_def\<close>)
  ultimately show ?thesis by (rule part_Cons)
qed

lemma setup_loop:
  "part (deliver mc h) (prep mc view e msgs v 1) (concat (map (if e then setup_edge mc line else setup_level mc line) [1..<INTMAX])) (prep mc view e msgs v INTMAX)"
proof -
  have "part (deliver mc h) (prep mc view e msgs v 1) (concat (map (\<lambda>i. if e then setup_edge mc line i else setup_level mc line i) [1..<INTMAX])) (prep mc view e msgs v INTMAX)"
  proof (rule part_loop)
    fix i assume "1 \<le> i" "i < INTMAX"
    then show "part (deliver mc h) (prep mc view e msgs v i) (if e then setup_edge mc line i else setup_level mc line i) (prep mc view e msgs v (Suc i))"
      by (intro setup_part) (simp_all add: INTMAX_def)
  qed (simp add: INTMAX_def)
  then show ?thesis by (cases e) simp_all
qed

lemma round_inv_irq:
  assumes "1 \<le> irq" "irq < 1024"
  shows "irq_inv (deliver mc (fastint_handler mc)) (round_inv mc view msgs v irq) (\<lambda>s. of_bool (pend (view (vic s)) irq))"
  unfolding irq_inv_def
proof (intro allI impI)
  fix s assume I: "round_inv mc view msgs v irq s"
  show "deliver mc (fastint_handler mc) s \<noteq> Irq_undef \<and>
    (\<forall>s'. deliver mc (fastint_handler mc) s = Irq s' \<longrightarrow>
       round_inv mc view msgs v irq s' \<and> (of_bool (pend (view (vic s')) irq) :: nat) < of_bool (pend (view (vic s)) irq))"
  proof (cases "vic_take (vic_hw mc) (vic s)")
    case None
    then show ?thesis by (simp add: deliver_def)
  next
    case (Some p)
    then obtain n d where p: "vic_take (vic_hw mc) (vic s) = Some (n, d)" by (cases p) auto
    note t = take_some [OF p]
    then have n: "n = irq" using I by (auto simp: round_inv_def)
    then have "view (vic (reenable mc n (s\<lparr>vic := d, g_irq := of_nat n\<rparr>))) = (view (vic s))\<lparr>pend := (pend (view (vic s)))(irq := False)\<rparr>"
      using I t assms by (auto simp: reenable_def set_enable placed_def round_inv_def view_ext)
    then show ?thesis
      using I t n assms by (auto simp: p deliver_def fastint_handler_def Let_def round_inv_def placed_def vars_def reenable_def)
  qed
qed

lemma fastint_round_part:
  assumes "1 \<le> irq" "irq < 1024"
  shows "part (deliver mc (fastint_handler mc)) (prep mc view True msgs (0, v) INTMAX) (fastint_round mc irq) (prep mc view True msgs (0, v) INTMAX)"
proof -
  let ?d = "deliver mc (fastint_handler mc)" and ?P = "prep mc view True msgs (0, v) INTMAX" and ?J = "round_inv mc view msgs v irq"
  let ?K = "\<lambda>s. ?J s \<and> \<not> pend (view (vic s)) irq"
  have 1: "part ?d ?P [Do (trigger mc irq)] ?J"
    by (rule part_Do [OF quiet_inv])
      (use assms in \<open>auto simp: prep_def trigger_def soft_set round_inv_def placed_def vars_def INTMAX_def\<close>)
  have 2: "part ?d ?J [Await (\<lambda>s. pass s \<noteq> 0)] ?K"
  proof (rule part_Await [OF round_inv_irq [OF assms]])
    fix s assume "?J s" "\<not> pass s \<noteq> 0"
    then have "en (view (vic s)) irq" "pend (view (vic s)) irq" "registered s" using assms by (auto simp: round_inv_def placed_def split: if_splits)
    then have "vic_take (vic_hw mc) (vic s) \<noteq> None" using take_none [of "vic s"] assms(2) by auto
    then show "?d s \<noteq> No_irq" using \<open>registered s\<close> by (auto simp: deliver_def fastint_handler_def Let_def)
  qed (auto simp: round_inv_def split: if_splits)
  have q: "?K s \<Longrightarrow> \<forall>n < 1024. \<not> pend (view (vic s)) n" for s by (auto simp: round_inv_def)
  have 3: "part ?d ?K [Require (\<lambda>s. g_irq s = of_nat irq)] ?K"
  proof (rule part_Require [OF quiet_inv])
    show "\<forall>n < 1024. \<not> pend (view (vic s)) n" if "?K s" for s using that by (rule q)
    show "g_irq s = of_nat irq \<and> ?K s" if "?K s" for s using that unfolding round_inv_def by simp
  qed
  have 4: "part ?d ?K [Do (\<lambda>s. s\<lparr>pass := 0\<rparr>)] ?P"
  proof (rule part_Do [OF quiet_inv])
    show "\<forall>n < 1024. \<not> pend (view (vic s)) n" if "?K s" for s using that by (rule q)
    show "?P (s\<lparr>pass := 0\<rparr>)" if "?K s" for s using that q [OF that] by (auto simp: round_inv_def prep_def placed_def vars_def INTMAX_def)
  qed
  show ?thesis unfolding fastint_round_def by (rule part_Cons [OF 1 part_Cons [OF 2 part_Cons [OF 3 4]]])
qed

lemma pendalot_handler_inv:
  assumes I: "log_inv mc view msgs m s" and m: "m \<le> 1024" and p: "vic_take (vic_hw mc) (vic s) = Some (n, d)"
  shows "\<exists>s'. pendalot_handler mc n (s\<lparr>vic := d\<rparr>) = Irq s' \<and> log_inv mc view msgs m s' \<and> pending_count view s' < pending_count view s"
proof -
  note t = take_some [OF p]
  have n: "1 \<le> n" "n < m" "n < 1024" "pend (view (vic s)) n" using t I by (auto simp: log_inv_def)
  define s1 where "s1 = reenable mc n (s\<lparr>vic := d, g_irq := of_nat n\<rparr>)"
  have frame: "placed mc msgs s1" "irqlog s1 = irqlog s" "pass s1 = pass s"
    using I by (simp_all add: s1_def reenable_def log_inv_def placed_def)
  have v: "view (vic s1) = (view (vic s))\<lparr>pend := (pend (view (vic s)))(n := False)\<rparr>"
    using I t by (auto simp: s1_def reenable_def set_enable placed_def log_inv_def view_ext)
  have parts: "length (irqlog s) = 1025" "\<forall>k < 1025. irqlog s ! k = (if 1 \<le> k \<and> k < m \<and> \<not> pend (view (vic s)) k then 1 else 0)"
    "if m = 1024 \<and> \<not> pend (view (vic s)) 1023 then pass s = 1 \<and> (\<forall>k < 1024. \<not> pend (view (vic s)) k) else pass s = 0"
    using I unfolding log_inv_def by simp_all
  have "pass s = 0" using parts(3) n(3, 4) by (cases "m = 1024 \<and> \<not> pend (view (vic s)) 1023") simp_all
  moreover have "irqlog s ! n = 0" using parts(2) n(3, 4) by simp
  ultimately have l: "length (irqlog s) = 1025" "irqlog s ! n = 0" "pass s = 0" using parts(1) by simp_all
  define s2 where "s2 = s1\<lparr>irqlog := (irqlog s)[n := 1]\<rparr>"
  define s3 where "s3 = (if n = 1023 then s2\<lparr>pass := 1\<rparr> else s2)"
  have "pendalot_handler mc n (s\<lparr>vic := d\<rparr>) = Irq s3"
    using l n frame by (simp add: pendalot_handler_def s1_def [symmetric] Let_def s2_def s3_def INTMAX_def)
  moreover have "{k. k < 1024 \<and> pend (view (vic s3)) k} = {k. k < 1024 \<and> pend (view (vic s)) k} - {n}"
    by (auto simp: s3_def s2_def v)
  then have "pending_count view s3 < pending_count view s"
    using card_Diff1_less [of "{k. k < 1024 \<and> pend (view (vic s)) k}" n] n(3, 4) by (simp add: pending_count_def)
  moreover have "log_inv mc view msgs m s3"
  proof -
    have "placed mc msgs s3" using frame(1) by (simp add: s3_def s2_def placed_def)
    moreover have "\<forall>k < 1024. pend (view (vic s3)) k \<longrightarrow> 1 \<le> k \<and> k < m" using I by (auto simp: log_inv_def s3_def s2_def v)
    moreover have "\<forall>k < 1025. irqlog s3 ! k = (if 1 \<le> k \<and> k < m \<and> \<not> pend (view (vic s3)) k then 1 else 0)"
    proof (intro allI impI)
      fix k :: nat assume "k < 1025"
      then show "irqlog s3 ! k = (if 1 \<le> k \<and> k < m \<and> \<not> pend (view (vic s3)) k then 1 else 0)"
        using parts(2) n(1, 2) l(1) by (cases "k = n") (simp_all add: s3_def s2_def v)
    qed
    moreover have "if m = 1024 \<and> \<not> pend (view (vic s3)) 1023 then pass s3 = 1 \<and> (\<forall>k < 1024. \<not> pend (view (vic s3)) k) else pass s3 = 0"
    proof (cases "n = 1023")
      case True
      then have "\<not> pend (view (vic s)) k" if "k < 1024" "k \<noteq> n" for k using t I that by (auto simp: log_inv_def)
      then show ?thesis using True n m by (auto simp: s3_def s2_def v)
    next
      case False
      then show ?thesis using parts(3) n(3, 4) l(3) frame(3) by (cases "m = 1024 \<and> \<not> pend (view (vic s)) 1023") (simp_all add: s3_def s2_def v)
    qed
    moreover have "\<forall>k. 1 \<le> k \<longrightarrow> k < 1024 \<longrightarrow> en (view (vic s3)) k \<and> edg (view (vic s3)) k" "length (irqlog s3) = 1025"
      using I l(1) by (simp_all add: log_inv_def s3_def s2_def v)
    ultimately show ?thesis unfolding log_inv_def by (intro conjI)
  qed
  ultimately show ?thesis by blast
qed

lemma log_inv_irq:
  assumes "m \<le> 1024"
  shows "irq_inv (deliver mc (pendalot_handler mc)) (log_inv mc view msgs m) (pending_count view)"
  unfolding irq_inv_def
proof (intro allI impI)
  fix s assume I: "log_inv mc view msgs m s"
  show "deliver mc (pendalot_handler mc) s \<noteq> Irq_undef \<and>
    (\<forall>s'. deliver mc (pendalot_handler mc) s = Irq s' \<longrightarrow> log_inv mc view msgs m s' \<and> pending_count view s' < pending_count view s)"
  proof (cases "vic_take (vic_hw mc) (vic s)")
    case (Some p)
    then obtain n d where p: "vic_take (vic_hw mc) (vic s) = Some (n, d)" by (cases p) auto
    show ?thesis using pendalot_handler_inv [OF I assms p] p by (auto simp: deliver_def)
  qed (simp add: deliver_def)
qed

lemma pendalot_trigger:
  assumes "1 \<le> m" "m < 1024"
  shows "part (deliver mc (pendalot_handler mc)) (log_inv mc view msgs m) [Do (trigger mc m)] (log_inv mc view msgs (Suc m))"
proof (rule part_Do [OF log_inv_irq])
  fix s assume I: "log_inv mc view msgs m s"
  then have e: "edg (view (vic s)) m" "placed mc msgs s" "pass s = 0" using assms by (simp_all add: log_inv_def)
  have v: "view (vic (trigger mc m s)) = (view (vic s))\<lparr>pend := (pend (view (vic s)))(m := True)\<rparr>"
    using e assms by (simp add: trigger_def soft_set placed_def)
  have "irqlog s ! k = (if 1 \<le> k \<and> k < Suc m \<and> \<not> ((pend (view (vic s)))(m := True)) k then 1 else 0)" if "k < 1025" for k
    using I that by (cases "k = m") (auto simp: log_inv_def less_Suc_eq)
  then show "log_inv mc view msgs (Suc m) (trigger mc m s)"
    using I assms e by (auto simp: log_inv_def v) (auto simp: trigger_def)
qed (use assms in simp)

lemma pendalot_await:
  "part (deliver mc (pendalot_handler mc)) (log_inv mc view msgs 1024) [Await (\<lambda>s. pass s \<noteq> 0)]
     (\<lambda>s. log_inv mc view msgs 1024 s \<and> (\<forall>n < 1024. \<not> pend (view (vic s)) n))"
proof (rule part_Await [OF log_inv_irq])
  fix s assume I: "log_inv mc view msgs 1024 s"
  then have c: "if \<not> pend (view (vic s)) 1023 then pass s = 1 \<and> (\<forall>n < 1024. \<not> pend (view (vic s)) n) else pass s = 0"
    by (simp add: log_inv_def)
  show "log_inv mc view msgs 1024 s \<and> (\<forall>n < 1024. \<not> pend (view (vic s)) n)" if "pass s \<noteq> 0"
    using I c that by (auto split: if_splits)
  show "deliver mc (pendalot_handler mc) s \<noteq> No_irq" if "\<not> pass s \<noteq> 0"
  proof -
    have "pend (view (vic s)) 1023" using c that by (auto split: if_splits)
    then have "vic_take (vic_hw mc) (vic s) \<noteq> None" using take_none [of "vic s"] I by (auto simp: log_inv_def)
    moreover have "registered s" using I by (simp add: log_inv_def placed_def)
    ultimately show ?thesis by (auto simp: deliver_def pendalot_handler_def Let_def split: if_splits)
  qed
qed simp

lemma require_quiet:
  assumes "\<And>s. I s \<Longrightarrow> g s" "\<And>s. I s \<Longrightarrow> \<forall>n < 1024. \<not> pend (view (vic s)) n"
  shows "part (deliver mc h) I [Require g] I"
  by (rule part_Require [OF quiet_inv]) (use assms in blast)+

lemma require_quiet_loop:
  assumes "\<And>i s. 1 \<le> i \<Longrightarrow> i < INTMAX \<Longrightarrow> I s \<Longrightarrow> g i s" "\<And>s. I s \<Longrightarrow> \<forall>n < 1024. \<not> pend (view (vic s)) n"
  shows "part (deliver mc h) I (concat (map (\<lambda>i. [Require (g i)]) [1..<INTMAX])) I"
  using part_loop [of 1 INTMAX "deliver mc h" "\<lambda>_. I" "\<lambda>i. [Require (g i)]"] require_quiet [of I] assms by (simp add: INTMAX_def)

lemma verdict_part:
  assumes "\<And>s. I s \<Longrightarrow> placed mc msgs s \<and> (\<forall>n < 1024. \<not> pend (view (vic s)) n)"
  shows "part (deliver mc h) I [Do verdict] (\<lambda>s'. retv s' = 0 \<and> out s' = msgs @ [PASS])"
proof (rule part_Do [OF quiet_inv])
  show "\<forall>n < 1024. \<not> pend (view (vic s)) n" if "I s" for s using assms [OF that] by blast
  show "retv (verdict s) = 0 \<and> out (verdict s) = msgs @ [PASS]" if "I s" for s
    using assms [OF that] by (simp add: verdict_def placed_def)
qed

lemma fastint_passes:
  assumes "tlb_ready mc ok (trt s)" "\<forall>n < 1024. \<not> pend (view (vic s)) n" "\<not> registered s" "pass s = 0"
  shows "returns (deliver mc (fastint_handler mc)) (\<lambda>s'. retv s' = 0 \<and> out s' = out s @ [PASS]) (Run (fastint_main mc) s)"
proof -
  let ?d = "deliver mc (fastint_handler mc)" and ?P = "prep mc view True (out s) (vars s) INTMAX"
  obtain v where v: "vars s = (0, v)" using assms(4) by (simp add: vars_def)
  note 1 = start_part [OF assms(1-3), of "fastint_handler mc" True]
  note 2 = setup_loop [of "fastint_handler mc" True "out s" "vars s" 73, simplified]
  have 3: "part ?d ?P (concat (map (fastint_round mc) [1..<INTMAX])) ?P"
    using part_loop [of 1 INTMAX ?d "\<lambda>_. ?P" "fastint_round mc"] fastint_round_part [of _ "out s" v] by (simp add: v INTMAX_def)
  have 4: "part ?d ?P [Do verdict] (\<lambda>s'. retv s' = 0 \<and> out s' = out s @ [PASS])"
    by (rule verdict_part) (simp add: prep_def)
  have "part ?d (\<lambda>s'. s' = s) (fastint_main mc) (\<lambda>s'. retv s' = 0 \<and> out s' = out s @ [PASS])"
    unfolding fastint_main_def by (rule part_append [OF 1 part_append [OF _ part_append [OF 3 4]]]) (use 2 in simp)
  then show ?thesis by (rule part_returns) simp
qed

lemma pendalot_passes:
  assumes "tlb_ready mc ok (trt s)" "\<forall>n < 1024. \<not> pend (view (vic s)) n" "\<not> registered s" "pass s = 0" "irqlog s = replicate 1025 0"
  shows "returns (deliver mc (pendalot_handler mc)) (\<lambda>s'. retv s' = 0 \<and> out s' = out s @ [PASS]) (Run (pendalot_main mc) s)"
proof -
  let ?d = "deliver mc (pendalot_handler mc)" and ?P = "prep mc view True (out s) (vars s) INTMAX" and ?L = "log_inv mc view (out s)"
  let ?R = "\<lambda>s'. ?L 1024 s' \<and> (\<forall>n < 1024. \<not> pend (view (vic s')) n)"
  note 1 = start_part [OF assms(1-3), of "pendalot_handler mc" True]
  have 2: "part ?d (prep mc view True (out s) (vars s) 1) (concat (map (setup_edge mc 82) [1..<INTMAX])) ?P"
    using setup_loop [of "pendalot_handler mc" True "out s" "vars s" 82] by simp
  have zero: "irqlog s' ! n = 0" if "?P s'" "n < 1025" for s' n using that assms(5) by (simp add: prep_def vars_def)
  have q: "\<forall>n < 1024. \<not> pend (view (vic s')) n" if "?P s'" for s' using that by (simp add: prep_def)
  have 3: "part ?d ?P (log_clear 0) ?P" "part ?d ?P (log_clear INTMAX) ?P" "part ?d ?P (concat (map log_clear [1..<INTMAX])) ?P"
    unfolding log_clear_def by (intro require_quiet require_quiet_loop zero q; simp add: INTMAX_def)+
  have start: "?L 1 s'" if "?P s'" for s'
    using that assms(4) zero [OF that] by (auto simp: prep_def log_inv_def vars_def assms(5) INTMAX_def)
  have 4: "part ?d ?P (concat (map (\<lambda>irq. [Do (trigger mc irq)]) [1..<INTMAX])) (?L 1024)"
    using part_loop [of 1 INTMAX ?d ?L "\<lambda>irq. [Do (trigger mc irq)]"] pendalot_trigger [of _ "out s"] part_pre [OF _ start] by (simp add: INTMAX_def)
  have once: "irqlog s' ! n = (if 1 \<le> n \<and> n < 1024 then 1 else 0)" if "?R s'" "n < 1025" for s' n using that by (simp add: log_inv_def)
  have 5: "part ?d ?R (log_clear 0) ?R" "part ?d ?R (log_clear INTMAX) ?R" "part ?d ?R (concat (map log_once [1..<INTMAX])) ?R"
    unfolding log_clear_def log_once_def by (intro require_quiet require_quiet_loop; simp add: once INTMAX_def)+
  have 6: "part ?d ?R [Do verdict] (\<lambda>s'. retv s' = 0 \<and> out s' = out s @ [PASS])"
    by (rule verdict_part) (simp add: log_inv_def)
  have "part ?d (\<lambda>s'. s' = s) (pendalot_main mc) (\<lambda>s'. retv s' = 0 \<and> out s' = out s @ [PASS])"
    unfolding pendalot_main_def
    by (intro part_append [OF 1 part_append [OF 2 part_append [OF 3(1) part_append [OF 3(2) part_append [OF 3(3) part_append [OF 4
        part_append [OF pendalot_await part_append [OF 5(1) part_append [OF 5(2) part_append [OF 5(3) 6]]]]]]]]]])
  then show ?thesis by (rule part_returns) simp
qed

lemma levelint_passes:
  assumes "tlb_ready mc ok (trt s)" "\<forall>n < 1024. \<not> pend (view (vic s)) n" "\<not> registered s" "interrupt_count s = 0"
  shows "returns (deliver mc (levelint_handler mc)) (\<lambda>s'. retv s' = 0 \<and> out s' = out s @ [PASS]) (Run (levelint_main mc) s)"
proof -
  let ?d = "deliver mc (levelint_handler mc)" and ?P = "prep mc view False (out s) (vars s) INTMAX"
  note 1 = start_part [OF assms(1-3), of "levelint_handler mc" False]
  have 2: "part ?d (prep mc view False (out s) (vars s) 1) (concat (map (setup_level mc 71) [1..<INTMAX])) ?P"
    using setup_loop [of "levelint_handler mc" False "out s" "vars s" 71] by simp
  have "part ?d ?P [Do (trigger mc i)] ?P" if "1 \<le> i" "i < INTMAX" for i
    by (rule part_Do [OF quiet_inv]) (use that in \<open>auto simp: prep_def trigger_def soft_set placed_def INTMAX_def\<close>)
  then have 3: "part ?d ?P (concat (map (\<lambda>irq. [Do (trigger mc irq)]) [1..<INTMAX])) ?P"
    using part_loop [of 1 INTMAX ?d "\<lambda>_. ?P" "\<lambda>irq. [Do (trigger mc irq)]"] by (simp add: INTMAX_def)
  have 4: "part ?d ?P [Require (\<lambda>s. interrupt_count s = 0)] ?P"
    by (rule require_quiet) (use assms(4) in \<open>auto simp: prep_def vars_def\<close>)
  have 5: "part ?d ?P [Do (\<lambda>s. if retv s = 0 then s\<lparr>out := out s @ [PASS]\<rparr> else s)] (\<lambda>s'. retv s' = 0 \<and> out s' = out s @ [PASS])"
    by (rule part_Do [OF quiet_inv]) (auto simp: prep_def placed_def)
  have "part ?d (\<lambda>s'. s' = s) (levelint_main mc) (\<lambda>s'. retv s' = 0 \<and> out s' = out s @ [PASS])"
    unfolding levelint_main_def by (rule part_append [OF 1 part_append [OF 2 part_append [OF 3 part_Cons [OF 4 5]]]])
  then show ?thesis by (rule part_returns) simp
qed

end


section \<open>Properties\<close>

text \<open>C27: \<^verbatim>\<open>src/fastint.c\<close>: whatever the moments at which interrupts are taken, \<open>main\<close> ends, its assertion that each interrupt
  is the one just triggered holds in every round, it returns 0 and prints PASS.\<close>

theorem fastint_main_returns:
  assumes "l2vic_board mc view ok" "tlb_ready mc ok (trt s)" "\<forall>n < 1024. \<not> pend (view (vic s)) n" "\<not> registered s" "pass s = 0"
  shows "returns (deliver mc (fastint_handler mc)) (\<lambda>s'. retv s' = 0 \<and> out s' = out s @ [PASS]) (Run (fastint_main mc) s)"
  using assms by (rule l2vic_board.fastint_passes)

theorem fastint_main_returns_witness:
  "returns (deliver vic_model (fastint_handler vic_model)) (\<lambda>s'. retv s' = 0 \<and> out s' = [PASS]) (Run (fastint_main vic_model) quiet_state)"
  using fastint_main_returns [OF model.l2vic_board_axioms model_ready] by (simp add: quiet_state_def)

text \<open>C26: \<^verbatim>\<open>src/pendalot.c\<close>: \<open>main\<close> triggers 1023 interrupts without waiting for any of them.  Whatever the moments at which they are
  taken, it ends, no assertion fails, each interrupt has been logged exactly once when it stops waiting for the last one, no access to
  the log is out of bounds, it returns 0 and prints PASS.\<close>

theorem pendalot_main_returns:
  assumes "l2vic_board mc view ok" "tlb_ready mc ok (trt s)" "\<forall>n < 1024. \<not> pend (view (vic s)) n" "\<not> registered s" "pass s = 0"
    "irqlog s = replicate 1025 0"
  shows "returns (deliver mc (pendalot_handler mc)) (\<lambda>s'. retv s' = 0 \<and> out s' = out s @ [PASS]) (Run (pendalot_main mc) s)"
  using assms by (rule l2vic_board.pendalot_passes)

theorem pendalot_main_returns_witness:
  "returns (deliver vic_model (pendalot_handler vic_model)) (\<lambda>s'. retv s' = 0 \<and> out s' = [PASS]) (Run (pendalot_main vic_model) quiet_state)"
  using pendalot_main_returns [OF model.l2vic_board_axioms model_ready] by (simp add: quiet_state_def)

end
