(* ===== verification/Sys_Regs.thy ===== *)
theory Sys_Regs
  imports Hex_Test
begin

text \<open>
  The macros of \<^verbatim>\<open>reg_mut.h\<close> and the program \<^verbatim>\<open>src/sys_reg_mut.c\<close>, which checks the read-only bits of the
  system registers.  The register file is hardware: reading and writing a register are a parameter, with their laws in the locale
  \<open>sreg_file\<close>, in which \<open>imm\<close> gives the read-only bits.  The numbers of the named registers are a parameter too.
\<close>

section \<open>Macros\<close>

record 'f sreg_ops =
  sreg_rd :: "'f \<Rightarrow> nat \<Rightarrow> u32"
  sreg_wr :: "'f \<Rightarrow> nat \<Rightarrow> u32 \<Rightarrow> 'f"

definition ehw :: "u64 \<Rightarrow> u32" where
  "ehw val = ucast (drop_bit 32 (val AND 0xffffffff00000000))"

definition elw :: "u64 \<Rightarrow> u32" where
  "elw val = ucast (val AND 0xffffffff)"

text \<open>A register pair \<open>s(n+1):n\<close>.\<close>

definition pair_rd :: "'f sreg_ops \<Rightarrow> 'f \<Rightarrow> nat \<Rightarrow> u64" where
  "pair_rd ops f n = push_bit 32 (ucast (sreg_rd ops f (n + 1))) OR ucast (sreg_rd ops f n)"

definition pair_wr :: "'f sreg_ops \<Rightarrow> 'f \<Rightarrow> nat \<Rightarrow> u64 \<Rightarrow> 'f" where
  "pair_wr ops f n v = sreg_wr ops (sreg_wr ops f n (elw v)) (n + 1) (ehw v)"

text \<open>The register an encoded write \<open>sX:Y = r1:0\<close> goes to: its low seven bits.\<close>

definition encoded_reg :: "u32 \<Rightarrow> nat" where
  "encoded_reg w = unat (w AND 0x7f)"

definition READ_WRITE_REG_NOCLOBBER :: "'f sreg_ops \<Rightarrow> nat \<Rightarrow> u32 \<Rightarrow> 'f \<Rightarrow> u32 \<times> u32 \<times> 'f" where
  "READ_WRITE_REG_NOCLOBBER ops reg_name new_val f =
     (let cur_val = sreg_rd ops f reg_name;
          f = sreg_wr ops f reg_name new_val;
          result = sreg_rd ops f reg_name;
          f = sreg_wr ops f reg_name cur_val
      in (cur_val, result, f))"

definition READ_WRITE_PAIR_NOCLOBBER :: "'f sreg_ops \<Rightarrow> nat \<Rightarrow> u64 \<Rightarrow> 'f \<Rightarrow> u64 \<times> u64 \<times> 'f" where
  "READ_WRITE_PAIR_NOCLOBBER ops reg_name new_val f =
     (let cur_val = pair_rd ops f reg_name;
          f = pair_wr ops f reg_name new_val;
          result = pair_rd ops f reg_name;
          f = pair_wr ops f reg_name cur_val
      in (cur_val, result, f))"

definition READ_WRITE_REG_ENCODED :: "'f sreg_ops \<Rightarrow> nat \<Rightarrow> u64 \<Rightarrow> u32 \<Rightarrow> 'f \<Rightarrow> u64 \<times> u64 \<times> 'f" where
  "READ_WRITE_REG_ENCODED ops reg_name new_val enc f =
     (let cur_val = pair_rd ops f reg_name;
          f = pair_wr ops f (encoded_reg enc) new_val;
          result = pair_rd ops f reg_name;
          f = pair_wr ops f (encoded_reg enc) cur_val
      in (cur_val, result, f))"

section \<open>The program\<close>

definition mask_val :: "u32 \<Rightarrow> u32 \<Rightarrow> u32 \<Rightarrow> u32" where
  "mask_val new_val cur_val reg_mask = (new_val AND NOT reg_mask) OR (cur_val AND reg_mask)"

definition mask_pair :: "u64 \<Rightarrow> u64 \<Rightarrow> u32 \<Rightarrow> u32 \<Rightarrow> u64" where
  "mask_pair new_val cur_val reg_mask_high reg_mask_low =
     push_bit 32 (ucast (mask_val (ehw new_val) (ehw cur_val) reg_mask_high)) OR ucast (mask_val (elw new_val) (elw cur_val) reg_mask_low)"

definition S21_20_EQ_R1_0 :: u32 where "S21_20_EQ_R1_0 = 0x6d00c014"
definition S27_26_EQ_R1_0 :: u32 where "S27_26_EQ_R1_0 = 0x6d00c01a"
definition S29_28_EQ_R1_0 :: u32 where "S29_28_EQ_R1_0 = 0x6d00c01c"
definition S33_32_EQ_R1_0 :: u32 where "S33_32_EQ_R1_0 = 0x6d00c020"
definition S41_40_EQ_R1_0 :: u32 where "S41_40_EQ_R1_0 = 0x6d00c028"
definition S57_56_EQ_R1_0 :: u32 where "S57_56_EQ_R1_0 = 0x6d00c038"

record 'f regtest =
  sregs :: 'f
  chk :: checks

text \<open>One check of a register; \<open>line\<close> is that of the check.\<close>

definition chk_reg :: "int \<Rightarrow> 'f sreg_ops \<Rightarrow> nat \<Rightarrow> u32 \<Rightarrow> 'f regtest \<Rightarrow> 'f regtest" where
  "chk_reg line ops r reg_mask s =
     (let new_val = 0xffffffff;
          (cur_val, result, f) = READ_WRITE_REG_NOCLOBBER ops r new_val (sregs s)
      in s\<lparr>sregs := f, chk := check32 line result (mask_val new_val cur_val reg_mask) (chk s)\<rparr>)"

definition chk_pair :: "int \<Rightarrow> 'f sreg_ops \<Rightarrow> nat \<Rightarrow> u32 \<Rightarrow> u32 \<Rightarrow> 'f regtest \<Rightarrow> 'f regtest" where
  "chk_pair line ops n mask_high mask_low s =
     (let new_val = 0xffffffffffffffff;
          (cur_val, result, f) = READ_WRITE_PAIR_NOCLOBBER ops n new_val (sregs s)
      in s\<lparr>sregs := f, chk := check64 line result (mask_pair new_val cur_val mask_high mask_low) (chk s)\<rparr>)"

definition chk_pair_encoded :: "int \<Rightarrow> 'f sreg_ops \<Rightarrow> nat \<Rightarrow> u32 \<Rightarrow> u32 \<Rightarrow> u32 \<Rightarrow> 'f regtest \<Rightarrow> 'f regtest" where
  "chk_pair_encoded line ops n enc mask_high mask_low s =
     (let new_val = 0xffffffffffffffff;
          (cur_val, result, f) = READ_WRITE_REG_ENCODED ops n new_val enc (sregs s)
      in s\<lparr>sregs := f, chk := check64 line result (mask_pair new_val cur_val mask_high mask_low) (chk s)\<rparr>)"

definition write_thread_local_system_control_registers :: "'f sreg_ops \<Rightarrow> (string \<Rightarrow> nat) \<Rightarrow> 'f regtest \<Rightarrow> 'f regtest" where
  "write_thread_local_system_control_registers ops sreg s =
     (let s = chk_reg 44 ops (sreg ''stid'') 0xff00ff00 s;
          s = chk_reg 47 ops (sreg ''elr'') 0x3 s;
          s = chk_reg 50 ops (sreg ''ccr'') 0x10e0ff24 s;
          s = chk_reg 53 ops (sreg ''imask'') 0 s
      in chk_reg 56 ops (sreg ''gevb'') 0xff s)"

definition write_global_system_control_registers :: "'f sreg_ops \<Rightarrow> (string \<Rightarrow> nat) \<Rightarrow> 'f regtest \<Rightarrow> 'f regtest" where
  "write_global_system_control_registers ops sreg s =
     (let s = chk_reg 66 ops (sreg ''syscfg'') 0x80001c00 s;
          s = chk_reg 69 ops (sreg ''vid'') 0xfc00fc00 s;
          s = chk_reg 72 ops (sreg ''bestwait'') 0xfffffe00 s;
          s = chk_reg 75 ops (sreg ''schedcfg'') 0xfffffee0 s;
          s = chk_reg 78 ops (sreg ''isdbcfg0'') 0xe0000000 s;
          s = chk_reg 81 ops (sreg ''brkptpc0'') 0x3 s;
          s = chk_reg 84 ops (sreg ''brkptcfg0'') 0xfc007000 s;
          s = chk_reg 87 ops (sreg ''brkptpc1'') 0x3 s;
          s = chk_reg 90 ops (sreg ''brkptcfg1'') 0xfc007000 s
      in chk_reg 93 ops (sreg ''isdben'') 0xfffffffe s)"

definition write_thread_local_system_control_register_pairs :: "'f sreg_ops \<Rightarrow> 'f regtest \<Rightarrow> 'f regtest" where
  "write_thread_local_system_control_register_pairs ops s =
     (let s = chk_pair 103 ops 2 0x3 0xff00ff00 s
      in chk_pair 106 ops 10 0xff 0 s)"

definition write_global_system_control_register_pairs :: "'f sreg_ops \<Rightarrow> 'f regtest \<Rightarrow> 'f regtest" where
  "write_global_system_control_register_pairs ops s =
     (let s = chk_pair 134 ops 18 0 0x80001c00 s;
          s = chk_pair_encoded 137 ops 20 S21_20_EQ_R1_0 0xfc00fc00 0xffffffff s;
          s = chk_pair 140 ops 24 0xfffffee0 0 s;
          s = chk_pair_encoded 143 ops 26 S27_26_EQ_R1_0 0xffffffff 0 s;
          s = chk_pair_encoded 146 ops 28 S29_28_EQ_R1_0 0xffffffff 0 s;
          s = chk_pair_encoded 149 ops 32 S33_32_EQ_R1_0 0xe0000000 0xffffffff s;
          s = chk_pair 152 ops 36 0xfc007000 0x3 s;
          s = chk_pair 155 ops 38 0xfc007000 0x3 s;
          s = chk_pair_encoded 158 ops 40 S41_40_EQ_R1_0 0 0xffffffff s;
          s = chk_pair 161 ops 42 0 0xfffffffe s
      in chk_pair_encoded 164 ops 56 S57_56_EQ_R1_0 0xffffffff 0xffffffff s)"


definition sys_reg_mut_main :: "'f sreg_ops \<Rightarrow> (string \<Rightarrow> nat) \<Rightarrow> 'f regtest \<Rightarrow> 'f regtest" where
  "sys_reg_mut_main ops sreg s =
     (let s = write_thread_local_system_control_registers ops sreg s;
          s = write_global_system_control_registers ops sreg s;
          s = write_thread_local_system_control_register_pairs ops s
      in write_global_system_control_register_pairs ops s)"

section \<open>Halves\<close>

lemma bit_ehw: "bit (ehw v) i = (i < 32 \<and> bit v (i + 32))"
proof -
  have high: "(0xffffffff00000000 :: u64) = push_bit 32 (mask 32)" by (simp add: mask_eq_exp_minus_1)
  show ?thesis unfolding ehw_def high bit_ucast_iff bit_drop_bit_eq bit_and_iff bit_push_bit_iff bit_mask_iff by (auto simp: ac_simps)
qed

lemma bit_elw: "bit (elw v) i = (i < 32 \<and> bit v i)"
proof -
  have "(0xffffffff :: u64) = mask 32" by (simp add: mask_eq_exp_minus_1)
  then show ?thesis unfolding elw_def by (simp only: bit_ucast_iff bit_and_iff bit_mask_iff) auto
qed

definition joined :: "u32 \<Rightarrow> u32 \<Rightarrow> u64" where
  "joined h l = push_bit 32 (ucast h) OR ucast l"

lemma halves_joined [simp]: "ehw (joined h l) = h" "elw (joined h l) = l"
  by (auto simp: bit_eq_iff bit_ehw bit_elw joined_def bit_or_iff bit_push_bit_iff bit_ucast_iff dest: bit_imp_le_length)

lemma joined_inject [simp]: "joined h l = joined h' l' \<longleftrightarrow> h = h' \<and> l = l'"
  by (metis halves_joined)

lemma ones_halves [simp]: "ehw 0xffffffffffffffff = 0xffffffff" "elw 0xffffffffffffffff = 0xffffffff"
  by (simp_all add: ehw_def elw_def)

lemma mask_pair_joined: "mask_pair new (joined h l) mh ml = joined (mask_val (ehw new) h mh) (mask_val (elw new) l ml)"
  by (simp add: mask_pair_def joined_def [symmetric])

text \<open>Writing back what was read restores a register, whatever was written in between.\<close>

lemma mask_val_restores: "mask_val cur (mask_val v cur m) m = cur"
  by (rule bit_word_eqI) (auto simp: mask_val_def bit_or_iff bit_and_iff bit_not_iff)

text \<open>With all bits written, two masks give the same result exactly when they agree on the bits that were 0.\<close>

lemma mask_val_eq_iff: "mask_val 0xffffffff cur m = mask_val 0xffffffff cur e \<longleftrightarrow> (m XOR e) AND NOT cur = 0"
proof -
  have "(0xffffffff :: u32) = mask 32" by (simp add: mask_eq_exp_minus_1)
  then have ones: "bit (0xffffffff :: u32) i = (i < 32)" for i by (simp only: bit_mask_iff) simp
  show ?thesis
    unfolding bit_eq_iff mask_val_def bit_or_iff bit_and_iff bit_not_iff bit_xor_iff ones by auto
qed


section \<open>What the program detects\<close>

text \<open>A register has the expected read-only bits as far as its value shows it: a bit that is 1 reads the same whether it can be written or not.\<close>

definition agrees :: "u32 \<Rightarrow> u32 \<Rightarrow> u32 \<Rightarrow> bool" where
  "agrees m e cur \<longleftrightarrow> (m XOR e) AND NOT cur = 0"

locale sreg_file =
  fixes ops :: "'f sreg_ops" and imm :: "nat \<Rightarrow> u32"
  assumes rd_same: "sreg_rd ops (sreg_wr ops f r v) r = mask_val v (sreg_rd ops f r) (imm r)"
    and rd_other: "r' \<noteq> r \<Longrightarrow> sreg_rd ops (sreg_wr ops f r v) r' = sreg_rd ops f r'"
begin

lemma rd_wr: "sreg_rd ops (sreg_wr ops f r v) = (sreg_rd ops f)(r := mask_val v (sreg_rd ops f r) (imm r))"
  by (auto simp: fun_eq_iff rd_same rd_other)

lemma pair_rd_joined: "pair_rd ops f n = joined (sreg_rd ops f (n + 1)) (sreg_rd ops f n)"
  by (simp add: pair_rd_def joined_def)

lemma rd_pair_wr: "sreg_rd ops (pair_wr ops f n (joined h l)) = (sreg_rd ops f)(n := mask_val l (sreg_rd ops f n) (imm n),
    n + 1 := mask_val h (sreg_rd ops f (n + 1)) (imm (n + 1)))"
  by (simp add: pair_wr_def rd_wr)

lemma all_ones: "0xffffffffffffffff = joined 0xffffffff 0xffffffff"
  by (simp add: joined_def)

lemma chk_reg_effect:
  "sreg_rd ops (sregs (chk_reg line ops r e s)) = sreg_rd ops (sregs s) \<and>
   err (chk (chk_reg line ops r e s)) = err (chk s) + of_bool (\<not> agrees (imm r) e (sreg_rd ops (sregs s) r))"
  by (simp add: chk_reg_def READ_WRITE_REG_NOCLOBBER_def Let_def rd_wr mask_val_restores fun_upd_idem check32_def report_def
      mask_val_eq_iff agrees_def)

lemma chk_pair_effect:
  "sreg_rd ops (sregs (chk_pair line ops n eh el s)) = sreg_rd ops (sregs s) \<and>
   err (chk (chk_pair line ops n eh el s)) = err (chk s) +
     of_bool (\<not> (agrees (imm (n + 1)) eh (sreg_rd ops (sregs s) (n + 1)) \<and> agrees (imm n) el (sreg_rd ops (sregs s) n)))"
  unfolding chk_pair_def READ_WRITE_PAIR_NOCLOBBER_def all_ones
  by (simp add: Let_def pair_rd_joined rd_pair_wr mask_val_restores fun_upd_twist check64_def report_def
      mask_pair_joined mask_val_eq_iff agrees_def fun_eq_iff)

lemma chk_pair_encoded_effect:
  assumes "encoded_reg enc = n"
  shows "chk_pair_encoded line ops n enc eh el s = chk_pair line ops n eh el s"
  using assms by (simp add: chk_pair_encoded_def chk_pair_def READ_WRITE_REG_ENCODED_def READ_WRITE_PAIR_NOCLOBBER_def)

end

lemma encodings:
  "encoded_reg S21_20_EQ_R1_0 = 20" "encoded_reg S27_26_EQ_R1_0 = 26" "encoded_reg S29_28_EQ_R1_0 = 28" "encoded_reg S33_32_EQ_R1_0 = 32"
  "encoded_reg S41_40_EQ_R1_0 = 40" "encoded_reg S57_56_EQ_R1_0 = 56"
  by (simp_all add: encoded_reg_def S21_20_EQ_R1_0_def S27_26_EQ_R1_0_def S29_28_EQ_R1_0_def S33_32_EQ_R1_0_def S41_40_EQ_R1_0_def S57_56_EQ_R1_0_def)

text \<open>The expected read-only bits of the named registers and of the pairs.\<close>

definition expected_regs :: "(string \<times> u32) list" where
  "expected_regs =
     [(''stid'', 0xff00ff00), (''elr'', 0x3), (''ccr'', 0x10e0ff24), (''imask'', 0), (''gevb'', 0xff), (''syscfg'', 0x80001c00),
      (''vid'', 0xfc00fc00), (''bestwait'', 0xfffffe00), (''schedcfg'', 0xfffffee0), (''isdbcfg0'', 0xe0000000), (''brkptpc0'', 0x3),
      (''brkptcfg0'', 0xfc007000), (''brkptpc1'', 0x3), (''brkptcfg1'', 0xfc007000), (''isdben'', 0xfffffffe)]"

definition expected_pairs :: "(nat \<times> u32 \<times> u32) list" where
  "expected_pairs =
     [(2, 0x3, 0xff00ff00), (10, 0xff, 0), (18, 0, 0x80001c00), (20, 0xfc00fc00, 0xffffffff), (24, 0xfffffee0, 0),
      (26, 0xffffffff, 0), (28, 0xffffffff, 0), (32, 0xe0000000, 0xffffffff), (36, 0xfc007000, 0x3), (38, 0xfc007000, 0x3),
      (40, 0, 0xffffffff), (42, 0, 0xfffffffe), (56, 0xffffffff, 0xffffffff)]"

context sreg_file
begin

lemma main_counts:
  "sreg_rd ops (sregs (sys_reg_mut_main ops sreg s)) = sreg_rd ops (sregs s) \<and>
   err (chk (sys_reg_mut_main ops sreg s)) = err (chk s) +
     (\<Sum>(n, e) \<leftarrow> expected_regs. of_bool (\<not> agrees (imm (sreg n)) e (sreg_rd ops (sregs s) (sreg n)))) +
     (\<Sum>(n, h, l) \<leftarrow> expected_pairs.
       of_bool (\<not> (agrees (imm (n + 1)) h (sreg_rd ops (sregs s) (n + 1)) \<and> agrees (imm n) l (sreg_rd ops (sregs s) n))))"
  by (simp add: sys_reg_mut_main_def write_thread_local_system_control_registers_def write_global_system_control_registers_def
      write_thread_local_system_control_register_pairs_def write_global_system_control_register_pairs_def
      Let_def chk_pair_encoded_effect encodings chk_reg_effect chk_pair_effect expected_regs_def expected_pairs_def
      del: of_bool_not_iff)

end


section \<open>A register file\<close>

definition table_regs :: "(string \<times> nat) list" where
  "table_regs =
     [(''stid'', 2), (''elr'', 3), (''ccr'', 7), (''imask'', 10), (''gevb'', 11), (''syscfg'', 18), (''vid'', 21), (''bestwait'', 23),
      (''schedcfg'', 25), (''isdbcfg0'', 33), (''brkptpc0'', 36), (''brkptcfg0'', 37), (''brkptpc1'', 38), (''brkptcfg1'', 39), (''isdben'', 42)]"

definition table_sreg :: "string \<Rightarrow> nat" where
  "table_sreg n = (case map_of table_regs n of Some r \<Rightarrow> r | None \<Rightarrow> 0)"

definition table_imm :: "nat \<Rightarrow> u32" where
  "table_imm r =
     (case map_of [(2, 0xff00ff00), (3, 0x3), (7, 0x10e0ff24), (11, 0xff), (18, 0x80001c00), (20, 0xffffffff), (21, 0xfc00fc00), (23, 0xfffffe00),
        (25, 0xfffffee0), (27, 0xffffffff), (29, 0xffffffff), (32, 0xffffffff), (33, 0xe0000000), (36, 0x3), (37, 0xfc007000), (38, 0x3),
        (39, 0xfc007000), (40, 0xffffffff), (42, 0xfffffffe), (56, 0xffffffff), (57, 0xffffffff)] r of Some m \<Rightarrow> m | None \<Rightarrow> 0)"

definition table_ops :: "(nat \<Rightarrow> u32) sreg_ops" where
  "table_ops = \<lparr>sreg_rd = (\<lambda>f. f), sreg_wr = (\<lambda>f r v. f(r := mask_val v (f r) (table_imm r)))\<rparr>"

interpretation table: sreg_file table_ops table_imm
  by unfold_locales (simp_all add: table_ops_def)

lemma sum_failures:
  "(\<Sum>x \<leftarrow> xs. of_bool (P x) :: int) \<ge> 0" "(\<Sum>x \<leftarrow> xs. of_bool (P x) :: int) = 0 \<longleftrightarrow> (\<forall>x \<in> set xs. \<not> P x)"
proof -
  show ge: "(\<Sum>x \<leftarrow> xs. of_bool (P x) :: int) \<ge> 0" for xs by (induction xs) auto
  show "(\<Sum>x \<leftarrow> xs. of_bool (P x) :: int) = 0 \<longleftrightarrow> (\<forall>x \<in> set xs. \<not> P x)"
  proof (induction xs)
    case (Cons x xs)
    then show ?case using ge [of xs] by (cases "P x") auto
  qed simp
qed

text \<open>C39: \<^verbatim>\<open>src/sys_reg_mut.c\<close>: \<open>main\<close> returns 0 exactly when every register and pair it tests has the expected read-only bits among the bits
  that are 0 at the start; a wrong read-only bit that reads 1 goes unnoticed.  Every register holds its first value again at the
  end, as the comment of \<^verbatim>\<open>reg_mut.h\<close> promises, the pairs written by encoded instructions included.\<close>

theorem sys_reg_mut_detects:
  assumes "sreg_file ops imm" "err (chk s) = 0"
  shows "sreg_rd ops (sregs (sys_reg_mut_main ops sreg s)) = sreg_rd ops (sregs s) \<and>
    (err (chk (sys_reg_mut_main ops sreg s)) = 0 \<longleftrightarrow>
      (\<forall>(n, e) \<in> set expected_regs. agrees (imm (sreg n)) e (sreg_rd ops (sregs s) (sreg n))) \<and>
      (\<forall>(n, h, l) \<in> set expected_pairs. agrees (imm (n + 1)) h (sreg_rd ops (sregs s) (n + 1)) \<and> agrees (imm n) l (sreg_rd ops (sregs s) n)))"
proof -
  let ?f = "sreg_rd ops (sregs s)"
  let ?P = "\<lambda>(n, e). \<not> agrees (imm (sreg n)) e (?f (sreg n))"
  let ?Q = "\<lambda>(n, h, l). \<not> (agrees (imm (n + 1)) h (?f (n + 1)) \<and> agrees (imm n) l (?f n))"
  have "err (chk (sys_reg_mut_main ops sreg s)) =
      (\<Sum>x \<leftarrow> expected_regs. of_bool (?P x)) + (\<Sum>x \<leftarrow> expected_pairs. of_bool (?Q x))"
    using sreg_file.main_counts [OF assms(1), of sreg s] assms(2) by (simp add: case_prod_unfold del: of_bool_not_iff)
  also have "\<dots> = 0 \<longleftrightarrow> (\<forall>x \<in> set expected_regs. \<not> ?P x) \<and> (\<forall>x \<in> set expected_pairs. \<not> ?Q x)"
    unfolding sum_failures(2) [symmetric] using sum_failures(1) [of ?P expected_regs] sum_failures(1) [of ?Q expected_pairs] by linarith
  finally show ?thesis using sreg_file.main_counts [OF assms(1), of sreg s] by (simp add: case_prod_unfold)
qed

theorem sys_reg_mut_detects_witness:
  "err (chk (sys_reg_mut_main table_ops table_sreg \<lparr>sregs = \<lambda>r. of_nat r, chk = \<lparr>err = 0, messages = []\<rparr>\<rparr>)) = 0"
  using sys_reg_mut_detects [OF table.sreg_file_axioms, of "\<lparr>sregs = \<lambda>r. of_nat r, chk = \<lparr>err = 0, messages = []\<rparr>\<rparr>" table_sreg]
  by (simp add: expected_regs_def expected_pairs_def table_sreg_def table_regs_def table_imm_def agrees_def)

end
