(* ===== verification/Priv_Tests.thy ===== *)
theory Priv_Tests
  imports Mmu_Access
begin

text \<open>
  The programs \<^verbatim>\<open>src/checkforpriv.c\<close> and \<^verbatim>\<open>src/framelimit.c\<close>: instructions that raise an exception in user mode, with
  handlers that skip the instruction or repeat it in kernel mode.  Which instructions raise which cause is up to the processor: the locale
  \<open>priv_check\<close> states what the programs rely on.
\<close>

section \<open>Instructions\<close>

definition HEX_CAUSE_PRIV_USER_NO_GINS :: u32 where "HEX_CAUSE_PRIV_USER_NO_GINS = 0x1a"
definition HEX_CAUSE_PRIV_USER_NO_SINS :: u32 where "HEX_CAUSE_PRIV_USER_NO_SINS = 0x1b"
definition HEX_CAUSE_STACK_LIMIT :: u32 where "HEX_CAUSE_STACK_LIMIT = 0x27"

text \<open>A return from an exception, an access to \<open>ssr\<close>, a write of a guest register, the allocation of a frame.\<close>

datatype insn = Rte | Ssr_access | Gelr_write | Allocframe u32

type_synonym insn_check = "insn \<Rightarrow> bool \<Rightarrow> u32 \<Rightarrow> u32 \<Rightarrow> u32 option"

record 'd ptest =
  pm :: "'d mmu"
  priv_exception_found :: bool
  guest_exception_found :: bool
  framelimit_exception_found :: bool
  framelimit :: u32
  sp :: u32
  fp :: u32
  saved_fp :: "u32 list"
  pchk :: checks

definition raise_insn :: "u32 \<Rightarrow> u32 \<Rightarrow> 'd mmu \<Rightarrow> 'd mmu" where
  "raise_insn cause a m = setssr (m\<lparr>elr := a\<rparr>) (set_bit 17 (SET_FIELD (getssr m) SSR_CAUSE (ucast cause)))"

text \<open>An instruction at address \<open>a\<close>: when it raises an exception, the handler runs and the thread goes on at \<open>elr\<close>, with the next
  instruction or with this one again.\<close>

partial_function (option) exec_insn ::
  "insn_check \<Rightarrow> (u32 \<Rightarrow> 'd ptest \<Rightarrow> ('d ptest, 'd ptest) outcome) \<Rightarrow> insn \<Rightarrow> ('d ptest \<Rightarrow> 'd ptest) \<Rightarrow> u32 \<Rightarrow> 'd ptest \<Rightarrow> 'd ptest option" where
  "exec_insn fault handler i eff a s =
     (case fault i (user_mode (pm s)) (sp s) (framelimit s) of
        None \<Rightarrow> Some (eff s)
      | Some cause \<Rightarrow>
          let s = s\<lparr>pm := raise_insn cause a (pm s)\<rparr>
          in case handler (getssr (pm s)) s of
               Ok s \<Rightarrow>
                 let s = s\<lparr>pm := rte (pm s)\<rparr>
                 in if elr (pm s) = a + 4 then Some s
                    else if elr (pm s) = a then exec_insn fault handler i eff a s else None
             | _ \<Rightarrow> None)"

section \<open>Privileged and guest instructions\<close>

definition increment_elr :: "u32 \<Rightarrow> 'd mmu \<Rightarrow> 'd mmu" where
  "increment_elr x m = m\<lparr>elr := elr m + x\<rparr>"

definition coredump :: "'d ptest \<Rightarrow> ('d ptest, 'd ptest) outcome" where
  "coredump s = (case do_coredump (pm s) of Stop e m \<Rightarrow> Stop e (s\<lparr>pm := m\<rparr>) | _ \<Rightarrow> Undef)"

definition checkforpriv_event_handle_error_helper :: "u32 \<Rightarrow> 'd ptest \<Rightarrow> ('d ptest, 'd ptest) outcome" where
  "checkforpriv_event_handle_error_helper ssr s =
     (let cause = ucast (GET_FIELD ssr SSR_CAUSE) :: u32
      in if priv_exception_found s \<and> guest_exception_found s \<and>
            (cause = HEX_CAUSE_PRIV_USER_NO_SINS \<or> cause = HEX_CAUSE_PRIV_USER_NO_GINS)
         then Ok (s\<lparr>pm := enter_kernel_mode (pm s)\<rparr>)
         else if cause = HEX_CAUSE_PRIV_USER_NO_SINS
         then Ok (s\<lparr>priv_exception_found := True, pm := increment_elr 4 (pm s)\<rparr>)
         else if cause = HEX_CAUSE_PRIV_USER_NO_GINS
         then Ok (s\<lparr>guest_exception_found := True, pm := increment_elr 4 (pm s)\<rparr>)
         else coredump s)"

text \<open>Instructions of supervisor mode that run before the tables of the test are in place, or in kernel mode: an exception there goes to the
  handler of the runtime, which dumps core.\<close>

definition supervisor :: "insn_check \<Rightarrow> ('d mmu \<Rightarrow> 'd mmu) \<Rightarrow> 'd ptest \<Rightarrow> 'd ptest option" where
  "supervisor fault f s =
     (case fault Ssr_access (user_mode (pm s)) (sp s) (framelimit s) of None \<Rightarrow> Some (s\<lparr>pm := f (pm s)\<rparr>) | Some cause \<Rightarrow> None)"

text \<open>\<open>a1\<close> and \<open>a2\<close> are the addresses of the two instructions, \<open>other\<close> is what they do when they raise nothing.\<close>

definition checkforpriv_main ::
  "insn_check \<Rightarrow> ('d ptest \<Rightarrow> 'd ptest) \<Rightarrow> u32 \<Rightarrow> u32 \<Rightarrow> u32 \<Rightarrow> 'd ptest \<Rightarrow> 'd ptest option" where
  "checkforpriv_main fault other my_event_vectors a1 a2 s =
     do {
        s \<leftarrow> supervisor fault (install_my_event_vectors my_event_vectors) s;
        s \<leftarrow> supervisor fault enter_user_mode s;
        s \<leftarrow> exec_insn fault checkforpriv_event_handle_error_helper Rte other a1 s;
        let s = s\<lparr>pchk := check32 80 (of_bool (priv_exception_found s)) 1 (pchk s)\<rparr>;
        s \<leftarrow> exec_insn fault checkforpriv_event_handle_error_helper Gelr_write other a2 s;
        Some (s\<lparr>pchk := check32 83 (of_bool (guest_exception_found s)) 1 (pchk s)\<rparr>)
      }"

section \<open>The limit of the stack\<close>

definition MIN_ALLOC_SIZE :: u32 where "MIN_ALLOC_SIZE = 8"
definition STACK_SIZE :: u32 where "STACK_SIZE = 0x1000"
definition OVERFLOW_SIZE :: u32 where "OVERFLOW_SIZE = STACK_SIZE + MIN_ALLOC_SIZE"

definition get_stack_ptr :: "'d ptest \<Rightarrow> u32" where
  "get_stack_ptr s = sp s"

definition set_framelimit :: "u32 \<Rightarrow> 'd ptest \<Rightarrow> 'd ptest" where
  "set_framelimit x s = s\<lparr>framelimit := x\<rparr>"

definition check_for_framelimit_error_helper :: "u32 \<Rightarrow> 'd ptest \<Rightarrow> ('d ptest, 'd ptest) outcome" where
  "check_for_framelimit_error_helper ssr s =
     (let cause = ucast (GET_FIELD ssr SSR_CAUSE) :: u32
      in if cause = HEX_CAUSE_STACK_LIMIT
         then Ok (s\<lparr>framelimit_exception_found := True, pm := inc_elr (pm s) 4\<rparr>)
         else if cause = HEX_CAUSE_PRIV_USER_NO_SINS then Ok (s\<lparr>pm := enter_kernel_mode (pm s)\<rparr>)
         else coredump s)"

text \<open>\<open>allocframe\<close> saves the frame pointer below the stack pointer; \<open>deallocframe\<close> takes it back.\<close>

definition allocframe :: "u32 \<Rightarrow> 'd ptest \<Rightarrow> 'd ptest" where
  "allocframe n s = s\<lparr>saved_fp := fp s # saved_fp s, fp := sp s - 8, sp := sp s - 8 - n\<rparr>"

definition deallocframe :: "'d ptest \<Rightarrow> 'd ptest" where
  "deallocframe s = (case saved_fp s of [] \<Rightarrow> s | f # fs \<Rightarrow> s\<lparr>saved_fp := fs, sp := fp s + 8, fp := f\<rparr>)"

definition test_framelimit :: "insn_check \<Rightarrow> u32 \<Rightarrow> bool \<Rightarrow> bool \<Rightarrow> 'd ptest \<Rightarrow> 'd ptest option" where
  "test_framelimit fault a overflow user s =
     (let s = s\<lparr>framelimit_exception_found := False\<rparr>;
          s = (if user then s\<lparr>pm := enter_user_mode (pm s)\<rparr> else s);
          s = set_framelimit (get_stack_ptr s - STACK_SIZE) s
      in do {
        s \<leftarrow> (if overflow
              then do {
                s \<leftarrow> exec_insn fault check_for_framelimit_error_helper (Allocframe OVERFLOW_SIZE) (allocframe OVERFLOW_SIZE) a s;
                Some (if \<not> user then deallocframe s else s)
              }
              else do {
                s \<leftarrow> exec_insn fault check_for_framelimit_error_helper (Allocframe MIN_ALLOC_SIZE) (allocframe MIN_ALLOC_SIZE) a s;
                Some (deallocframe s)
              });
        let s = set_framelimit 0 s;
        s \<leftarrow> exec_insn fault check_for_framelimit_error_helper Ssr_access (\<lambda>s. s\<lparr>pm := enter_kernel_mode (pm s)\<rparr>) (a + 0x20) s;
        Some (s\<lparr>pchk := check32 85 (of_bool (framelimit_exception_found s)) (of_bool (overflow \<and> user)) (pchk s)\<rparr>)
      })"

definition framelimit_main :: "insn_check \<Rightarrow> u32 \<Rightarrow> u32 \<Rightarrow> 'd ptest \<Rightarrow> 'd ptest option" where
  "framelimit_main fault my_event_vectors a s =
     do {
        s \<leftarrow> supervisor fault (install_my_event_vectors my_event_vectors) s;
        s \<leftarrow> test_framelimit fault a True False s;
        s \<leftarrow> test_framelimit fault a False True s;
        test_framelimit fault a True True s
      }"

section \<open>Modes\<close>

lemma raise_insn_ssr:
  "bit (getssr (raise_insn c a m)) 16 = bit (getssr m) 16" "bit (getssr (raise_insn c a m)) 17" "elr (raise_insn c a m) = a"
  by (simp_all add: raise_insn_def getssr_def setssr_def bit_set_bit_iff SET_FIELD_def bit_fINSERT_BITS)

lemma raise_insn_cause: "unat c < 256 \<Longrightarrow> ucast (GET_FIELD (getssr (raise_insn c a m)) SSR_CAUSE) = c"
  by (simp add: raise_insn_def getssr_def setssr_def ssr_cause_written)

lemmas raise_insn_facts = raise_insn_ssr raise_insn_cause

lemma rte_modes [simp]: "bit (getssr (rte m)) 16 = bit (getssr m) 16" "\<not> bit (getssr (rte m)) 17" "elr (rte m) = elr m"
  by (simp_all add: rte_def getssr_def setssr_def bit_unset_bit_iff)

lemma mode_changes [simp]:
  "user_mode (enter_user_mode m)" "\<not> user_mode (enter_kernel_mode m)" "elr (enter_user_mode m) = elr m" "elr (enter_kernel_mode m) = elr m"
  "\<not> bit (getssr (enter_kernel_mode m)) 16"
  by (simp_all add: user_mode_def enter_user_mode_def enter_kernel_mode_def getssr_def setssr_def Let_def bit_unset_bit_iff bit_set_bit_iff)

lemma user_mode_rte [simp]: "user_mode (rte m) = bit (getssr m) 16"
  by (simp add: user_mode_def)

lemma bit_16_elr [simp]: "getssr (m\<lparr>elr := a\<rparr>) = getssr m"
  by (simp add: getssr_def)

lemma priv_causes [simp]:
  "unat HEX_CAUSE_PRIV_USER_NO_SINS < 256" "unat HEX_CAUSE_PRIV_USER_NO_GINS < 256" "unat HEX_CAUSE_STACK_LIMIT < 256"
  "HEX_CAUSE_PRIV_USER_NO_GINS \<noteq> HEX_CAUSE_PRIV_USER_NO_SINS" "HEX_CAUSE_PRIV_USER_NO_SINS \<noteq> HEX_CAUSE_STACK_LIMIT"
  by (simp_all add: HEX_CAUSE_PRIV_USER_NO_SINS_def HEX_CAUSE_PRIV_USER_NO_GINS_def HEX_CAUSE_STACK_LIMIT_def)

definition framelimit_ok :: "u32 \<Rightarrow> u32 \<Rightarrow> u32 list \<Rightarrow> 'd ptest \<Rightarrow> bool" where
  "framelimit_ok p f fs s \<longleftrightarrow> sp s = p \<and> fp s = f \<and> saved_fp s = fs \<and> \<not> user_mode (pm s) \<and> err (pchk s) = 0"

lemma frame_bounds:
  assumes "0x2000 \<le> p"
  shows "p - 8 - OVERFLOW_SIZE < p - STACK_SIZE" "\<not> p - 8 - MIN_ALLOC_SIZE < p - STACK_SIZE"
proof -
  have n: "0x2000 \<le> unat p" using assms by (simp add: word_le_nat_alt)
  have e: "p - 8 - OVERFLOW_SIZE = p - 0x1010" "p - 8 - MIN_ALLOC_SIZE = p - 0x10" "p - STACK_SIZE = p - 0x1000"
    by (simp_all add: OVERFLOW_SIZE_def STACK_SIZE_def MIN_ALLOC_SIZE_def)
  have "unat (p - 0x1010) = unat p - 0x1010" "unat (p - 0x10) = unat p - 0x10" "unat (p - 0x1000) = unat p - 0x1000"
    using n by (simp_all add: unat_sub word_le_nat_alt)
  then show "p - 8 - OVERFLOW_SIZE < p - STACK_SIZE" "\<not> p - 8 - MIN_ALLOC_SIZE < p - STACK_SIZE"
    using n unfolding e by (simp_all add: word_less_nat_alt)
qed

lemma deallocframe_allocframe [simp]: "deallocframe (allocframe n s) = s"
  by (simp add: deallocframe_def allocframe_def)

section \<open>The processor\<close>

locale priv_check =
  fixes fault :: insn_check
  assumes kernel: "fault i False p l = None"
    and user_rte: "fault Rte True p l = Some HEX_CAUSE_PRIV_USER_NO_SINS"
    and user_ssr: "fault Ssr_access True p l = Some HEX_CAUSE_PRIV_USER_NO_SINS"
    and user_gelr: "fault Gelr_write True p l = Some HEX_CAUSE_PRIV_USER_NO_GINS"
    and user_frame: "fault (Allocframe n) True p l = (if p - 8 - n < l then Some HEX_CAUSE_STACK_LIMIT else None)"
begin

text \<open>The handler of \<open>checkforpriv\<close> skips an instruction of each kind.\<close>

lemma exec_rte:
  assumes "user_mode (pm s)" "\<not> (priv_exception_found s \<and> guest_exception_found s)"
  shows "\<exists>m. exec_insn fault checkforpriv_event_handle_error_helper Rte other a s = Some (s\<lparr>priv_exception_found := True, pm := m\<rparr>) \<and> user_mode m"
proof -
  have "bit (getssr (pm s)) 16" using assms(1) by (simp add: user_mode_def)
  then show ?thesis
    using assms by (intro exI [of _ "rte (increment_elr 4 (raise_insn HEX_CAUSE_PRIV_USER_NO_SINS a (pm s)))"], subst exec_insn.simps)
      (auto simp: user_rte Let_def checkforpriv_event_handle_error_helper_def raise_insn_facts increment_elr_def)
qed

lemma exec_gelr:
  assumes "user_mode (pm s)" "\<not> (priv_exception_found s \<and> guest_exception_found s)"
  shows "\<exists>m. exec_insn fault checkforpriv_event_handle_error_helper Gelr_write other a s = Some (s\<lparr>guest_exception_found := True, pm := m\<rparr>) \<and> user_mode m"
proof -
  have "bit (getssr (pm s)) 16" using assms(1) by (simp add: user_mode_def)
  then show ?thesis
    using assms by (intro exI [of _ "rte (increment_elr 4 (raise_insn HEX_CAUSE_PRIV_USER_NO_GINS a (pm s)))"], subst exec_insn.simps)
      (auto simp: user_gelr Let_def checkforpriv_event_handle_error_helper_def raise_insn_facts increment_elr_def)
qed

text \<open>After both it repeats a privileged instruction in kernel mode.\<close>

lemma exec_ssr_repeated:
  assumes "priv_exception_found s" "guest_exception_found s"
  shows "\<exists>m. exec_insn fault checkforpriv_event_handle_error_helper Ssr_access eff a s = Some (eff (s\<lparr>pm := m\<rparr>)) \<and> \<not> user_mode m"
proof (cases "user_mode (pm s)")
  case False
  then show ?thesis by (subst exec_insn.simps) (auto simp: kernel intro: exI [of _ "pm s"])
next
  case True
  define m where "m = rte (enter_kernel_mode (raise_insn HEX_CAUSE_PRIV_USER_NO_SINS a (pm s)))"
  have m: "\<not> user_mode m" "elr m = a" by (simp_all add: m_def raise_insn_facts)
  have "exec_insn fault checkforpriv_event_handle_error_helper Ssr_access eff a s =
      exec_insn fault checkforpriv_event_handle_error_helper Ssr_access eff a (s\<lparr>pm := m\<rparr>)"
    using True assms m by (subst exec_insn.simps) (simp add: user_ssr Let_def checkforpriv_event_handle_error_helper_def raise_insn_facts
priv_causes m_def [symmetric])
  also have "\<dots> = Some (eff (s\<lparr>pm := m\<rparr>))" using m by (subst exec_insn.simps) (simp add: kernel)
  finally show ?thesis using m by blast
qed

lemma supervisor_modes:
  "user_mode (pm s) \<Longrightarrow> supervisor fault f s = None" "\<not> user_mode (pm s) \<Longrightarrow> supervisor fault f s = Some (s\<lparr>pm := f (pm s)\<rparr>)"
  by (simp_all add: supervisor_def kernel user_ssr)

lemma user_mode_install [simp]: "user_mode (install_my_event_vectors vec m) = user_mode m"
  by (simp add: user_mode_def install_my_event_vectors_def setevb_def getssr_def)

lemma checkforpriv_passes:
  assumes "\<not> user_mode (pm s)" "\<not> guest_exception_found s" "err (pchk s) = 0"
  shows "\<exists>s'. checkforpriv_main fault other vec a1 a2 s = Some s' \<and> err (pchk s') = 0 \<and> priv_exception_found s' \<and> guest_exception_found s' \<and> user_mode (pm s')"
proof -
  define s0 where "s0 = s\<lparr>pm := enter_user_mode (install_my_event_vectors vec (pm s))\<rparr>"
  have u: "user_mode (pm s0)" "\<not> guest_exception_found s0" using assms by (simp_all add: s0_def)
  obtain m1 where 1: "exec_insn fault checkforpriv_event_handle_error_helper Rte other a1 s0 = Some (s0\<lparr>priv_exception_found := True, pm := m1\<rparr>)" "user_mode m1"
    using exec_rte [of s0 other a1] u by blast
  define s1 where "s1 = s0\<lparr>priv_exception_found := True, pm := m1, pchk := check32 80 1 1 (pchk s0)\<rparr>"
  obtain m2 where 2: "exec_insn fault checkforpriv_event_handle_error_helper Gelr_write other a2 s1 = Some (s1\<lparr>guest_exception_found := True, pm := m2\<rparr>)" "user_mode m2"
    using exec_gelr [of s1 other a2] u 1 by (auto simp: s1_def)
  have "checkforpriv_main fault other vec a1 a2 s = Some (s1\<lparr>guest_exception_found := True, pm := m2, pchk := check32 83 1 1 (pchk s1)\<rparr>)"
    using 1 2 assms(1) by (simp add: checkforpriv_main_def Let_def s0_def s1_def supervisor_modes)
  then show ?thesis using 2 assms by (simp add: s1_def s0_def check32_def)
qed

text \<open>The handler of \<open>framelimit\<close>: a frame that would cross the limit is refused in user mode only, and the switch to kernel mode ends in
  kernel mode wherever it starts.\<close>

lemma exec_frame_kernel:
  "\<not> user_mode (pm s) \<Longrightarrow> exec_insn fault h (Allocframe n) eff a s = Some (eff s)"
  by (subst exec_insn.simps) (simp add: kernel)

lemma exec_frame_fits:
  "\<not> sp s - 8 - n < framelimit s \<Longrightarrow> exec_insn fault h (Allocframe n) eff a s = Some (eff s)"
  by (cases "user_mode (pm s)") (subst exec_insn.simps, simp add: kernel user_frame)+

lemma exec_frame_refused:
  assumes "user_mode (pm s)" "sp s - 8 - n < framelimit s"
  shows "\<exists>m. exec_insn fault check_for_framelimit_error_helper (Allocframe n) eff a s = Some (s\<lparr>framelimit_exception_found := True, pm := m\<rparr>)"
  using assms by (intro exI [of _ "rte (inc_elr (raise_insn HEX_CAUSE_STACK_LIMIT a (pm s)) 4)"], subst exec_insn.simps)
    (simp add: user_frame Let_def check_for_framelimit_error_helper_def raise_insn_facts inc_elr_def)

lemma exec_kernel_switch:
  "\<exists>m. exec_insn fault check_for_framelimit_error_helper Ssr_access eff a s = Some (eff (s\<lparr>pm := m\<rparr>))"
proof (cases "user_mode (pm s)")
  case False
  then show ?thesis by (subst exec_insn.simps) (auto simp: kernel intro: exI [of _ "pm s"])
next
  case True
  define m where "m = rte (enter_kernel_mode (raise_insn HEX_CAUSE_PRIV_USER_NO_SINS a (pm s)))"
  have m: "\<not> user_mode m" "elr m = a" by (simp_all add: m_def raise_insn_facts)
  have "exec_insn fault check_for_framelimit_error_helper Ssr_access eff a s =
      exec_insn fault check_for_framelimit_error_helper Ssr_access eff a (s\<lparr>pm := m\<rparr>)"
    using True m by (subst exec_insn.simps) (simp add: user_ssr Let_def check_for_framelimit_error_helper_def raise_insn_facts m_def [symmetric])
  also have "\<dots> = Some (eff (s\<lparr>pm := m\<rparr>))" using m by (subst exec_insn.simps) (simp add: kernel)
  finally show ?thesis by blast
qed

text \<open>One test leaves the stack as it was, drops the limit, ends in kernel mode and finds an exception exactly for an overflow in user mode.\<close>

lemma test_framelimit_ok:
  assumes s: "framelimit_ok p f fs s" and p: "0x2000 \<le> p"
  shows "\<exists>s'. test_framelimit fault a overflow user s = Some s' \<and> framelimit_ok p f fs s' \<and> framelimit s' = 0 \<and> framelimit_exception_found s' = (overflow \<and> user)"
proof -
  define s0 where "s0 = set_framelimit (p - STACK_SIZE) (if user then s\<lparr>framelimit_exception_found := False, pm := enter_user_mode (pm s)\<rparr> else s\<lparr>framelimit_exception_found := False\<rparr>)"
  define run where "run = (if overflow
              then Option.bind (exec_insn fault check_for_framelimit_error_helper (Allocframe OVERFLOW_SIZE) (allocframe OVERFLOW_SIZE) a s0) (\<lambda>s.
                Some (if \<not> user then deallocframe s else s))
              else Option.bind (exec_insn fault check_for_framelimit_error_helper (Allocframe MIN_ALLOC_SIZE) (allocframe MIN_ALLOC_SIZE) a s0) (\<lambda>s.
                Some (deallocframe s)))"
  have s0: "sp s0 = p" "fp s0 = f" "saved_fp s0 = fs" "framelimit s0 = p - STACK_SIZE" "user_mode (pm s0) = user" "err (pchk s0) = 0" "\<not> framelimit_exception_found s0"
    using s by (simp_all add: s0_def framelimit_ok_def set_framelimit_def)
  have "\<exists>m. run = Some (s0\<lparr>framelimit_exception_found := (overflow \<and> user), pm := m\<rparr>)"
  proof (cases "overflow \<and> user")
    case True
    then show ?thesis using exec_frame_refused [of s0 OVERFLOW_SIZE "allocframe OVERFLOW_SIZE" a] s0 frame_bounds(1) [OF p] by (auto simp: run_def)
  next
    case False
    have u: "s0\<lparr>framelimit_exception_found := False, pm := pm s0\<rparr> = s0" using s0 by simp
    have "run = Some s0" 
      using False s0 frame_bounds(2) [OF p] by (auto simp: run_def exec_frame_kernel exec_frame_fits)
    then show ?thesis using False u by (intro exI [of _ "pm s0"]) auto
  qed
  then obtain m where m: "run = Some (s0\<lparr>framelimit_exception_found := (overflow \<and> user), pm := m\<rparr>)" by blast
  define s1 where "s1 = s0\<lparr>framelimit_exception_found := (overflow \<and> user), pm := m, framelimit := 0\<rparr>"
  obtain m' where m': "exec_insn fault check_for_framelimit_error_helper Ssr_access (\<lambda>s. s\<lparr>pm := enter_kernel_mode (pm s)\<rparr>) (a + 0x20) s1 =
      Some (s1\<lparr>pm := enter_kernel_mode m'\<rparr>)"
    using exec_kernel_switch [of "\<lambda>s. s\<lparr>pm := enter_kernel_mode (pm s)\<rparr>" "a + 0x20" s1] by auto
  have "test_framelimit fault a overflow user s = Option.bind run (\<lambda>s. let s = set_framelimit 0 s in
        Option.bind (exec_insn fault check_for_framelimit_error_helper Ssr_access (\<lambda>s. s\<lparr>pm := enter_kernel_mode (pm s)\<rparr>) (a + 0x20) s) (\<lambda>s.
        Some (s\<lparr>pchk := check32 85 (of_bool (framelimit_exception_found s)) (of_bool (overflow \<and> user)) (pchk s)\<rparr>)))"
    using s by (simp add: test_framelimit_def run_def s0_def Let_def get_stack_ptr_def framelimit_ok_def)
  also have "\<dots> = Some (s1\<lparr>pm := enter_kernel_mode m', pchk := check32 85 (of_bool (overflow \<and> user)) (of_bool (overflow \<and> user)) (pchk s1)\<rparr>)"
    using m m' by (simp add: Let_def s1_def set_framelimit_def)
  finally show ?thesis using s0 by (simp add: s1_def framelimit_ok_def check32_def)
qed

lemma framelimit_passes:
  assumes "\<not> user_mode (pm s)" "err (pchk s) = 0" "0x2000 \<le> sp s"
  shows "\<exists>s'. framelimit_main fault vec a s = Some s' \<and> framelimit_ok (sp s) (fp s) (saved_fp s) s' \<and> framelimit s' = 0 \<and> framelimit_exception_found s'"
proof -
  define s0 where "s0 = s\<lparr>pm := install_my_event_vectors vec (pm s)\<rparr>"
  have 0: "framelimit_ok (sp s) (fp s) (saved_fp s) s0"
    using assms by (simp add: s0_def framelimit_ok_def user_mode_def install_my_event_vectors_def setevb_def getssr_def)
  obtain s1 where 1: "test_framelimit fault a True False s0 = Some s1" "framelimit_ok (sp s) (fp s) (saved_fp s) s1"
    using test_framelimit_ok [OF 0 assms(3)] by blast
  obtain s2 where 2: "test_framelimit fault a False True s1 = Some s2" "framelimit_ok (sp s) (fp s) (saved_fp s) s2"
    using test_framelimit_ok [OF 1(2) assms(3)] by blast
  show ?thesis using test_framelimit_ok [OF 2(2) assms(3), of a True True] 1 2 assms(1)
    by (simp add: framelimit_main_def supervisor_modes s0_def [symmetric])
qed

end

text \<open>The check of the instruction set for the four instructions.\<close>

fun insn_fault :: insn_check where
  "insn_fault i False p l = None"
| "insn_fault (Allocframe n) True p l = (if p - 8 - n < l then Some HEX_CAUSE_STACK_LIMIT else None)"
| "insn_fault Gelr_write True p l = Some HEX_CAUSE_PRIV_USER_NO_GINS"
| "insn_fault i True p l = Some HEX_CAUSE_PRIV_USER_NO_SINS"

interpretation isa: priv_check insn_fault
  by unfold_locales simp_all

section \<open>The two programs\<close>

definition sample_ptest :: "u64 list ptest" where
  "sample_ptest = \<lparr>pm = sample_mmu 0, priv_exception_found = False, guest_exception_found = False, framelimit_exception_found = False,
     framelimit = 0, sp = 0x8000, fp = 0x8100, saved_fp = [], pchk = \<lparr>err = 0, messages = []\<rparr>\<rparr>"

text \<open>C38: started in kernel mode on a processor that checks the privilege of instructions, \<open>checkforpriv\<close> returns without an
  error: in user mode the return from an exception and the write of the guest register each raise their exception once, the handler
  skips the instruction and the thread is still in user mode; from then on a privileged instruction takes effect, in kernel mode.
  Started in user mode, its set-up already raises an exception that the runtime answers with a core dump.\<close>

theorem checkforpriv_main_passes:
  assumes "priv_check fault" "\<not> guest_exception_found s" "err (pchk s) = 0"
  shows "if user_mode (pm s) then checkforpriv_main fault other vec a1 a2 s = None
    else \<exists>s'. checkforpriv_main fault other vec a1 a2 s = Some s' \<and> err (pchk s') = 0 \<and> priv_exception_found s' \<and> guest_exception_found s' \<and> user_mode (pm s') \<and>
      (\<forall>eff a. \<exists>m. exec_insn fault checkforpriv_event_handle_error_helper Ssr_access eff a s' = Some (eff (s'\<lparr>pm := m\<rparr>)) \<and> \<not> user_mode m)"
proof (cases "user_mode (pm s)")
  case True
  then show ?thesis using priv_check.supervisor_modes(1) [OF assms(1) True] by (simp add: checkforpriv_main_def)
next
  case False
  then show ?thesis using priv_check.checkforpriv_passes [OF assms(1) False assms(2,3)] priv_check.exec_ssr_repeated [OF assms(1)]
    by (simp only: if_False) blast
qed

theorem checkforpriv_main_passes_witness:
  "\<exists>s'. checkforpriv_main insn_fault (\<lambda>s. s) 0x5000 0x100 0x200 sample_ptest = Some s' \<and> err (pchk s') = 0 \<and> user_mode (pm s')"
  using checkforpriv_main_passes [OF isa.priv_check_axioms, where s = sample_ptest and other = "\<lambda>s. s" and vec = "0x5000" and ?a1.0 = "0x100" and ?a2.0 = "0x200"]
  by (auto simp: sample_ptest_def user_mode_def sample_mmu_def getssr_def)

text \<open>C37: On such a processor \<open>framelimit\<close> returns without an error when it starts in kernel mode with two pages of stack: a frame
  that crosses the limit is refused exactly in user mode, and each of the three tests leaves the stack pointer, the frame pointer and the
  saved frames as they were, no limit and kernel mode.\<close>

theorem framelimit_main_passes:
  assumes "priv_check fault" "\<not> user_mode (pm s)" "err (pchk s) = 0" "0x2000 \<le> sp s"
  shows "\<exists>s'. framelimit_main fault vec a s = Some s' \<and> err (pchk s') = 0 \<and> framelimit_exception_found s' \<and> framelimit s' = 0 \<and>
    sp s' = sp s \<and> fp s' = fp s \<and> saved_fp s' = saved_fp s \<and> \<not> user_mode (pm s')"
  using priv_check.framelimit_passes [OF assms] by (auto simp: framelimit_ok_def)

theorem framelimit_main_passes_witness:
  "\<exists>s'. framelimit_main insn_fault 0x5000 0x100 sample_ptest = Some s' \<and> err (pchk s') = 0 \<and> framelimit_exception_found s' \<and> sp s' = 0x8000"
  using framelimit_main_passes [OF isa.priv_check_axioms, where s = sample_ptest and vec = "0x5000" and a = "0x100"]
  by (auto simp: sample_ptest_def user_mode_def sample_mmu_def getssr_def)

end
