(* ===== verification/Tlb_Refill.thy ===== *)
theory Tlb_Refill
  imports Mmu_Access
begin

text \<open>
  The refill of the TLB from the software page table: the handler \<open>event_handle_tlbmissrw\<close> of \<^verbatim>\<open>crt0/crt0_standalone.S\<close>,
  which serves the misses of loads and stores of every program that does not install a handler of its own, and the table
  \<^verbatim>\<open>crt0/pte.S\<close> it reads, to which \<open>add_translation\<close> of \<^verbatim>\<open>crt0/tlb.c\<close> writes.  After a refill
  the TLB translates the address as the table says.
\<close>

section \<open>The handler\<close>

text \<open>\<^verbatim>\<open>__tlb_idx\<close> is the entry written last, \<^verbatim>\<open>_NumTLBEntries\<close> the number of entries the handler may use.\<close>

record 'd refill =
  brt :: "'d tlb_rt"
  tlb_idx :: u32
  NumTLBEntries :: u32

text \<open>The table of the image: each megabyte is mapped to itself, with cache attribute 7.\<close>

definition UPTE_START :: "nat \<Rightarrow> u16" where
  "UPTE_START i = (if i < 4096 then push_bit 4 (of_nat i) OR 7 else 0)"

text \<open>The registers \<open>r1\<close> and \<open>r0\<close> that the handler writes: a valid global entry with every permission, for a page of 1M.\<close>

definition refill_high :: "u32 \<Rightarrow> u32" where
  "refill_high bad = 0xc0000000 OR push_bit 8 (drop_bit 20 bad)"

definition refill_low :: "u16 \<Rightarrow> u32" where
  "refill_low pte =
     (let r3 = scast pte :: u32;
          r4 = push_bit 24 (take_bit 4 r3);
          r5 = take_bit 12 (drop_bit 4 r3)
      in (0xf0000010 OR push_bit 9 r5) OR r4)"

definition refill_entry :: "u16 \<Rightarrow> u32 \<Rightarrow> u64" where
  "refill_entry pte bad = push_bit 32 (ucast (refill_high bad)) OR ucast (refill_low pte)"

definition next_tlb_idx :: "'d refill \<Rightarrow> u32" where
  "next_tlb_idx s =
     (let r6 = tlb_idx s + 1
      in if \<not> sint r6 < sint (NumTLBEntries s) then tlb_fixed_entries (brt s) else r6)"

text \<open>\<open>None\<close>: a fixed entry covers a part of the megabyte, and the handler never returns.\<close>

definition event_handle_tlbmissrw :: "'d tlb_ops \<Rightarrow> u32 \<Rightarrow> 'd refill \<Rightarrow> 'd refill option" where
  "event_handle_tlbmissrw hw bad s =
     (let s = s\<lparr>tlb_idx := next_tlb_idx s\<rparr>;
          pte = findPTEValue (brt s) bad;
          s = s\<lparr>brt := (brt s)\<lparr>syscfg_TL := True\<rparr>\<rparr>;
          r5 = op_tlbp hw (dev (brt s)) (refill_high bad);
          unlock = (\<lambda>s. s\<lparr>brt := (brt s)\<lparr>syscfg_TL := False\<rparr>\<rparr>)
      in if bit r5 31
         then Some (unlock (s\<lparr>brt := (brt s)\<lparr>dev := op_tlbw hw (dev (brt s)) (refill_entry pte bad) (tlb_idx s)\<rparr>\<rparr>))
         else if sint r5 < sint (tlb_fixed_entries (brt s)) then None
         else Some (unlock s))"

section \<open>The entry\<close>

lemma bit_C000: "bit (0xc0000000 :: u32) i \<longleftrightarrow> i = 30 \<or> i = 31"
proof -
  have e: "(0xc0000000 :: u32) = push_bit 30 (mask 2)" by (simp add: mask_eq_exp_minus_1)
  show ?thesis unfolding e bit_push_bit_iff bit_mask_iff by auto
qed

lemma bit_F010: "bit (0xf0000010 :: u32) i \<longleftrightarrow> i = 4 \<or> 28 \<le> i \<and> i < 32"
proof -
  have e: "(0xf0000010 :: u32) = push_bit 28 (mask 4) OR push_bit 4 (mask 1)" by (simp add: mask_eq_exp_minus_1)
  show ?thesis unfolding e bit_or_iff bit_push_bit_iff bit_mask_iff by auto
qed

lemma bit_refill_high: "bit (refill_high bad) i \<longleftrightarrow> i = 30 \<or> i = 31 \<or> 8 \<le> i \<and> bit bad (12 + i)"
  unfolding refill_high_def bit_or_iff bit_C000 bit_push_bit_iff bit_drop_bit_eq
  using bit_imp_le_length [of bad "12 + i"] by auto

lemma bit_refill_low:
  "bit (refill_low pte) i \<longleftrightarrow> i = 4 \<or> 28 \<le> i \<and> i < 32 \<or> 9 \<le> i \<and> i < 21 \<and> bit pte (i - 5) \<or> 24 \<le> i \<and> i < 28 \<and> bit pte (i - 24)"
proof -
  have s: "bit (scast pte :: u32) k = bit pte k" if "k < 16" for k using that by (cases "k = 15") (auto simp: bit_signed_iff min_def)
  have "bit (take_bit 12 (drop_bit 4 (scast pte :: u32))) (i - 9) = (i - 9 < 12 \<and> bit pte (i - 5))" if "9 \<le> i"
    using that s [of "i - 5"] by (auto simp: bit_take_bit_iff bit_drop_bit_eq)
  moreover have "bit (take_bit 4 (scast pte :: u32)) (i - 24) = (i - 24 < 4 \<and> bit pte (i - 24))"
    using s [of "i - 24"] by (auto simp: bit_take_bit_iff)
  ultimately show ?thesis unfolding refill_low_def Let_def bit_or_iff bit_F010 bit_push_bit_iff by auto
qed

lemma bit_refill_entry:
  "bit (refill_entry pte bad) i \<longleftrightarrow>
     (if i < 32 then bit (refill_low pte) i else bit (refill_high bad) (i - 32))"
  by (auto simp: refill_entry_def bit_or_iff bit_push_bit_iff bit_ucast_iff dest: bit_imp_le_length)

lemma ctz_refill_entry: "ctz (refill_entry pte bad) = 4"
  by (rule ctz_eqI) (auto simp: bit_refill_entry bit_refill_low)

lemma ucast_u64_inject: "(ucast (x :: u32) :: u64) = ucast y \<Longrightarrow> x = y"
proof (rule bit_word_eqI)
  fix n assume "(ucast x :: u64) = ucast y" "n < LENGTH(32)"
  then have "bit (ucast x :: u64) n = bit (ucast y :: u64) n" "n < 32" by simp_all
  then show "bit x n = bit y n" by (simp add: bit_ucast_iff)
qed

text \<open>It matches the addresses of its megabyte, in every address space.\<close>

lemma refill_entry_matches:
  "tlb_entry_matches key (refill_entry pte bad) \<longleftrightarrow> drop_bit 8 (take_bit 20 key) = drop_bit 20 bad"
proof -
  let ?e = "refill_entry pte bad"
  have "bit ?e 63" "bit ?e 62" by (simp_all add: bit_refill_entry bit_refill_high)
  moreover have "drop_bit 8 (get_member ?e VirtualPage) = ucast (drop_bit 20 bad)"
    by (rule bit_word_eqI) (auto simp: bit_drop_bit_eq bit_get_member bit_refill_entry bit_refill_high bit_ucast_iff
        dest: bit_imp_le_length)
  moreover have "drop_bit 8 (ucast (take_bit 20 key) :: u64) = ucast (drop_bit 8 (take_bit 20 key))"
    by (rule bit_word_eqI) (auto simp: bit_drop_bit_eq bit_ucast_iff dest: bit_imp_le_length)
  ultimately show ?thesis using ucast_u64_inject by (auto simp: tlb_entry_matches_def ctz_refill_entry)
qed

text \<open>What the software page table says of an address.\<close>

definition pt_translate :: "'d tlb_rt \<Rightarrow> u32 \<Rightarrow> u64" where
  "pt_translate st va = push_bit 20 (ucast (get_pte_pa (findPTEValue st va))) OR take_bit 20 (ucast va)"

lemma refill_entry_translates:
  "tlb_translate (refill_entry pte bad) va = push_bit 20 (ucast (get_pte_pa pte)) OR take_bit 20 (ucast va)"
proof (rule bit_word_eqI)
  let ?e = "refill_entry pte bad"
  fix i assume "i < LENGTH(64)"
  have p: "bit (hex_tlb_phys_page_num ?e) (i - 12) \<longleftrightarrow> i < 32 \<and> bit pte (i - 16)" if "20 \<le> i"
    using that bit_imp_le_length [of bad 41] by (auto simp: bit_phys_page_num bit_refill_entry bit_refill_low bit_refill_high)
  have "bit pte (i - 16) \<Longrightarrow> i < 32" if "20 \<le> i" using that bit_imp_le_length [of pte "i - 16"] by auto
  then show "bit (tlb_translate ?e va) i = bit (push_bit 20 (ucast (get_pte_pa pte)) OR take_bit 20 (ucast va) :: u64) i"
    using p \<open>i < LENGTH(64)\<close> by (auto simp: tlb_translate_def Let_def ctz_refill_entry bit_or_iff bit_and_iff bit_not_iff bit_mask_iff bit_push_bit_iff
        bit_take_bit_iff bit_ucast_iff get_pte_pa_def bit_drop_bit_eq)
qed

lemma refill_entry_permits: "missing_causes acc um (refill_entry pte bad) = {}"
  using access_perm(2) [of acc] by (auto simp: missing_causes_bits bit_refill_entry bit_refill_low)

section \<open>The refill\<close>

text \<open>The megabyte of an address and of a key; a TLB without an entry for any address of a megabyte, and one with an entry of the handler.\<close>

definition key_mb :: "u32 \<Rightarrow> u32" where
  "key_mb key = drop_bit 8 (take_bit 20 key)"

definition mb_free :: "'d tlb_ops \<Rightarrow> ('d \<Rightarrow> u32 \<Rightarrow> bool) \<Rightarrow> 'd \<Rightarrow> u32 \<Rightarrow> bool" where
  "mb_free hw ok d va \<longleftrightarrow> (\<forall>j key. ok d j \<longrightarrow> key_mb key = drop_bit 20 va \<longrightarrow> \<not> tlb_entry_matches key (op_tlbr hw d j))"

definition filled :: "'d tlb_ops \<Rightarrow> ('d \<Rightarrow> u32 \<Rightarrow> bool) \<Rightarrow> 'd \<Rightarrow> u32 \<Rightarrow> u16 \<Rightarrow> u32 \<Rightarrow> bool" where
  "filled hw ok d i pte va \<longleftrightarrow> ok d i \<and> \<not> bit i 31 \<and> op_tlbr hw d i = refill_entry pte va \<and>
     (\<forall>j key. ok d j \<longrightarrow> key_mb key = drop_bit 20 va \<longrightarrow> tlb_entry_matches key (op_tlbr hw d j) \<longrightarrow> j = i)"

lemma key_mb_probe [simp]: "key_mb (probe_key ssr va) = drop_bit 20 va"
  by (simp add: key_mb_def probe_key_fields)

lemma key_mb_refill [simp]: "key_mb (refill_high va) = drop_bit 20 va"
  unfolding key_mb_def
proof (rule bit_word_eqI)
  fix n
  show "bit (drop_bit 8 (take_bit 20 (refill_high va))) n = bit (drop_bit 20 va) n"
    using bit_imp_le_length [of va "20 + n"] by (auto simp: bit_drop_bit_eq bit_take_bit_iff bit_refill_high)
qed

lemma entry_matches_key_mb: "tlb_entry_matches key (refill_entry pte va) \<longleftrightarrow> key_mb key = drop_bit 20 va"
  by (simp add: refill_entry_matches key_mb_def)

lemma NOT_FOUND_bit [simp]: "bit TLB_NOT_FOUND 31"
  by (simp add: TLB_NOT_FOUND_def)

definition refilled :: "'d tlb_ops \<Rightarrow> u32 \<Rightarrow> 'd refill \<Rightarrow> 'd refill" where
  "refilled hw va s =
     s\<lparr>tlb_idx := next_tlb_idx s, brt := (brt s)\<lparr>syscfg_TL := False,
       dev := op_tlbw hw (dev (brt s)) (refill_entry (findPTEValue (brt s) va) va) (next_tlb_idx s)\<rparr>\<rparr>"

context tlb_device
begin

lemma free_probe: "mb_free hw ok d va \<Longrightarrow> key_mb key = drop_bit 20 va \<Longrightarrow> op_tlbp hw d key = TLB_NOT_FOUND"
  using probe_hit [of d key] by (auto simp: mb_free_def)

lemma filled_probe: "filled hw ok d i pte va \<Longrightarrow> key_mb key = drop_bit 20 va \<Longrightarrow> op_tlbp hw d key = i"
  by (rule probe_unique) (auto simp: filled_def entry_matches_key_mb)

lemma filled_write: "mb_free hw ok d va \<Longrightarrow> ok d i \<Longrightarrow> \<not> bit i 31 \<Longrightarrow> filled hw ok (op_tlbw hw d (refill_entry pte va) i) i pte va"
  by (auto simp: filled_def mb_free_def ok_wr rd_wr_same) (metis rd_wr_other)

lemma filled_write_other:
  "filled hw ok d i pte va \<Longrightarrow> ok d i' \<Longrightarrow> i' \<noteq> i \<Longrightarrow> drop_bit 20 va' \<noteq> drop_bit 20 va \<Longrightarrow>
    filled hw ok (op_tlbw hw d (refill_entry pte' va') i') i pte va"
  by (auto simp: filled_def ok_wr rd_wr_other) (metis rd_wr_other rd_wr_same entry_matches_key_mb)

lemma free_write_other:
  "mb_free hw ok d va \<Longrightarrow> ok d i \<Longrightarrow> drop_bit 20 va' \<noteq> drop_bit 20 va \<Longrightarrow> mb_free hw ok (op_tlbw hw d (refill_entry pte' va') i) va"
  by (auto simp: mb_free_def ok_wr) (metis rd_wr_other rd_wr_same entry_matches_key_mb)

lemma refill_fills:
  assumes "mb_free hw ok (dev (brt s)) va"
  shows "event_handle_tlbmissrw hw va s = Some (refilled hw va s)"
  using free_probe [OF assms key_mb_refill] by (simp add: event_handle_tlbmissrw_def Let_def refilled_def next_tlb_idx_def findPTEValue_def)

end

lemma next_tlb_idx_range:
  assumes "sint (tlb_fixed_entries (brt s)) < sint (NumTLBEntries s)" "sint (tlb_fixed_entries (brt s)) \<le> sint (tlb_idx s + 1)"
  shows "sint (tlb_fixed_entries (brt s)) \<le> sint (next_tlb_idx s) \<and> sint (next_tlb_idx s) < sint (NumTLBEntries s)"
  using assms by (simp add: next_tlb_idx_def Let_def)


definition sample_refill :: "u64 list refill" where
  "sample_refill = \<lparr>brt = \<lparr>dev = replicate 16 0, ssr_reg = 0, syscfg_TL = False, tlb_fixed_entries = 6, upte = UPTE_START\<rparr>,
     tlb_idx = 6, NumTLBEntries = 15\<rparr>"

lemma sample_free: "mb_free arr_tlb arr_ok (replicate n 0) va"
  by (auto simp: mb_free_def arr_ok_def arr_tlb_def tlb_entry_matches_def)


end
