(* ===== verification/Badva.thy ===== *)
theory Badva
  imports Tlb_Refill
begin

text \<open>
  The program \<^verbatim>\<open>src/badva.c\<close>: packets of two memory accesses whose addresses are not in the TLB.  Each miss records the address
  and the slot of the access in \<open>badva0\<close>, \<open>badva1\<close> and the fields \<open>V0\<close>, \<open>V1\<close> and \<open>BVS\<close> of
  \<open>ssr\<close> (\<^verbatim>\<open>include/reg_fields_def.h\<close>), and the refill of the runtime maps the page.  Two choices are not in the
  sources and are parameters: \<open>slots\<close>, whether the assembler puts the first access of a packet in slot 1, and \<open>slot1_first\<close>,
  whether the processor reports the miss of slot 1 before that of slot 0.  The last theorem says for which choices the test passes.
\<close>

section \<open>Registers\<close>

record 'd badva_test =
  rf :: "'d refill"
  badva0 :: u32
  badva1 :: u32
  bmem :: "u64 \<Rightarrow> u32"
  mb_counter :: u32
  bchk :: checks

definition INVALID_BADVA :: u32 where "INVALID_BADVA = 0xbadabada"

definition read_ssr :: "'d badva_test \<Rightarrow> u32" where
  "read_ssr s = ssr_reg (brt (rf s))"

definition write_ssr :: "u32 \<Rightarrow> 'd badva_test \<Rightarrow> 'd badva_test" where
  "write_ssr v s = s\<lparr>rf := (rf s)\<lparr>brt := (brt (rf s))\<lparr>ssr_reg := v\<rparr>\<rparr>\<rparr>"

definition read_badva0 :: "'d badva_test \<Rightarrow> u32" where "read_badva0 s = badva0 s"
definition read_badva1 :: "'d badva_test \<Rightarrow> u32" where "read_badva1 s = badva1 s"

text \<open>\<open>badva\<close> is the register that the selector names.\<close>

definition read_badva :: "'d badva_test \<Rightarrow> u32" where
  "read_badva s = (if GET_FIELD (read_ssr s) SSR_BVS \<noteq> 0 then badva1 s else badva0 s)"

definition write_badva0 :: "u32 \<Rightarrow> 'd badva_test \<Rightarrow> 'd badva_test" where "write_badva0 v s = s\<lparr>badva0 := v\<rparr>"
definition write_badva1 :: "u32 \<Rightarrow> 'd badva_test \<Rightarrow> 'd badva_test" where "write_badva1 v s = s\<lparr>badva1 := v\<rparr>"

definition SSR_V0_BIT :: nat where "SSR_V0_BIT = 20"
definition SSR_V1_BIT :: nat where "SSR_V1_BIT = 21"
definition SSR_BVS_BIT :: nat where "SSR_BVS_BIT = 21"

definition read_ssr_v0 :: "'d badva_test \<Rightarrow> u32" where "read_ssr_v0 s = drop_bit SSR_V0_BIT (read_ssr s) AND 1"
definition read_ssr_v1 :: "'d badva_test \<Rightarrow> u32" where "read_ssr_v1 s = drop_bit SSR_V1_BIT (read_ssr s) AND 1"
definition read_ssr_bvs :: "'d badva_test \<Rightarrow> u32" where "read_ssr_bvs s = drop_bit SSR_BVS_BIT (read_ssr s) AND 1"

section \<open>Packets\<close>

text \<open>A miss: the registers of the exception, the refill of the runtime, the return.\<close>

definition miss_regs :: "bool \<Rightarrow> u32 \<Rightarrow> u32 \<Rightarrow> 'd badva_test \<Rightarrow> 'd badva_test" where
  "miss_regs slot1 cause va s =
     (let ssr = SET_FIELD (read_ssr s) SSR_V0 (of_bool (\<not> slot1));
          ssr = SET_FIELD ssr SSR_V1 (of_bool slot1);
          ssr = SET_FIELD ssr SSR_BVS (of_bool slot1);
          ssr = SET_FIELD ssr SSR_CAUSE (ucast cause)
      in write_ssr (set_bit 17 ssr)
           (s\<lparr>badva0 := (if slot1 then INVALID_BADVA else va), badva1 := (if slot1 then va else INVALID_BADVA)\<rparr>))"

fun miss_cause :: "access \<Rightarrow> u32" where
  "miss_cause Write = HEX_CAUSE_TLBMISSRW_WRITE"
| "miss_cause _ = HEX_CAUSE_TLBMISSRW_READ"

definition tlb_miss :: "'d tlb_ops \<Rightarrow> bool \<Rightarrow> access \<Rightarrow> u32 \<Rightarrow> 'd badva_test \<Rightarrow> 'd badva_test option" where
  "tlb_miss hw slot1 acc va s =
     (let s = miss_regs slot1 (miss_cause acc) va s
      in do {
        r \<leftarrow> event_handle_tlbmissrw hw (read_badva s) (rf s);
        let s = s\<lparr>rf := r\<rparr>;
        Some (write_ssr (unset_bit 17 (read_ssr s)) s)
      })"

text \<open>The packet starts again after each miss, and takes effect when both addresses have an entry that permits the access; the result is the
  two physical addresses.\<close>

type_synonym choice = "access \<Rightarrow> access \<Rightarrow> bool"

partial_function (option) packet ::
  "'d tlb_ops \<Rightarrow> choice \<Rightarrow> access \<Rightarrow> u32 \<Rightarrow> access \<Rightarrow> u32 \<Rightarrow> 'd badva_test \<Rightarrow> ('d badva_test \<times> u64 \<times> u64) option" where
  "packet hw slot1_first acc1 va1 acc0 va0 s =
     (let st = brt (rf s);
          i1 = tlb_probe hw st va1;
          i0 = tlb_probe hw st va0;
          e1 = read_tlb_entry hw st i1;
          e0 = read_tlb_entry hw st i0;
          um = bit (read_ssr s) 16 \<and> \<not> bit (read_ssr s) 17
      in if i1 = TLB_NOT_FOUND \<and> (i0 \<noteq> TLB_NOT_FOUND \<or> slot1_first acc1 acc0)
         then do { s \<leftarrow> tlb_miss hw True acc1 va1 s; packet hw slot1_first acc1 va1 acc0 va0 s }
         else if i0 = TLB_NOT_FOUND
         then do { s \<leftarrow> tlb_miss hw False acc0 va0 s; packet hw slot1_first acc1 va1 acc0 va0 s }
         else if missing_causes acc1 um e1 = {} \<and> missing_causes acc0 um e0 = {}
         then Some (s, tlb_translate e1 va1, tlb_translate e0 va0) else None)"

text \<open>A packet as written: the assembler puts its two accesses in the slots.\<close>

definition written_packet ::
  "'d tlb_ops \<Rightarrow> choice \<Rightarrow> choice \<Rightarrow> access \<Rightarrow> u32 \<Rightarrow> access \<Rightarrow> u32 \<Rightarrow> 'd badva_test \<Rightarrow> ('d badva_test \<times> u64 \<times> u64) option" where
  "written_packet hw slots slot1_first acc va acc' va' s =
     (if slots acc acc' then packet hw slot1_first acc va acc' va' s
      else map_option (\<lambda>(s, pa', pa). (s, pa, pa')) (packet hw slot1_first acc' va' acc va s))"

definition clear_badva :: "'d badva_test \<Rightarrow> 'd badva_test" where
  "clear_badva s =
     (let s = s\<lparr>badva0 := 0\<rparr>;
          s = s\<lparr>badva1 := 0\<rparr>;
          r6 = read_ssr s;
          r6 = unset_bit SSR_V0_BIT r6;
          r6 = unset_bit SSR_V1_BIT r6;
          r6 = unset_bit SSR_BVS_BIT r6
      in write_ssr r6 s)"

definition dual_store :: "'d tlb_ops \<Rightarrow> choice \<Rightarrow> choice \<Rightarrow> u32 \<Rightarrow> u32 \<Rightarrow> u32 \<Rightarrow> u32 \<Rightarrow> 'd badva_test \<Rightarrow> 'd badva_test option" where
  "dual_store hw slots slot1_first p q pval qval s = do {
     (s, pa, qa) \<leftarrow> written_packet hw slots slot1_first Write p Write q (clear_badva s);
     Some (s\<lparr>bmem := (bmem s)(pa := pval, qa := qval)\<rparr>)
   }"

definition dual_load :: "'d tlb_ops \<Rightarrow> choice \<Rightarrow> choice \<Rightarrow> u32 \<Rightarrow> u32 \<Rightarrow> 'd badva_test \<Rightarrow> ((u32 \<times> u32) \<times> 'd badva_test) option" where
  "dual_load hw slots slot1_first p q s = do {
     (s, qa, pa) \<leftarrow> written_packet hw slots slot1_first Read q Read p (clear_badva s);
     Some ((bmem s pa, bmem s qa), s)
   }"

definition load_store :: "'d tlb_ops \<Rightarrow> choice \<Rightarrow> choice \<Rightarrow> u32 \<Rightarrow> u32 \<Rightarrow> u32 \<Rightarrow> 'd badva_test \<Rightarrow> (u32 \<times> 'd badva_test) option" where
  "load_store hw slots slot1_first p q qval s = do {
     (s, pa, qa) \<leftarrow> written_packet hw slots slot1_first Read p Write q (clear_badva s);
     Some (bmem s pa, s\<lparr>bmem := (bmem s)(qa := qval)\<rparr>)
   }"

section \<open>The tests\<close>

definition add_trans_pgsize :: "u32 \<Rightarrow> u32" where
  "add_trans_pgsize page_size_bits =
     (if page_size_bits = 12 then 1 else if page_size_bits = 14 then 2 else if page_size_bits = 16 then 4
      else if page_size_bits = 18 then 8 else if page_size_bits = 20 then 16 else if page_size_bits = 22 then 32
      else if page_size_bits = 24 then 64 else 1)"

definition map_data_address :: "u32 \<Rightarrow> u32 \<Rightarrow> 'd badva_test \<Rightarrow> u32 \<times> 'd badva_test" where
  "map_data_address p data_offset s =
     (let page_size_bits = 12;
          page_size = push_bit page_size_bits 1;
          page_align = NOT (page_size - 1);
          data_addr = p;
          data_page = data_addr AND page_align;
          new_data_page = data_page + data_offset;
          read_data_addr = data_addr + data_offset
      in (read_data_addr, s\<lparr>rf := (rf s)\<lparr>brt := add_translation (brt (rf s)) new_data_page data_page 0\<rparr>\<rparr>))"

definition bcheck :: "int \<Rightarrow> u32 \<Rightarrow> u32 \<Rightarrow> 'd badva_test \<Rightarrow> 'd badva_test" where
  "bcheck line v e s = s\<lparr>bchk := check32 line v e (bchk s)\<rparr>"

text \<open>The part the three tests share: the data at their own addresses \<open>a0\<close>, \<open>a1\<close>, the two mappings, the checks of the
  registers, with \<open>line\<close> the line of the first check, and \<open>x\<close> the address expected in slot 0.\<close>

definition set_data :: "u32 \<Rightarrow> u32 \<Rightarrow> u32 \<Rightarrow> u32 \<Rightarrow> 'd badva_test \<Rightarrow> 'd badva_test" where
  "set_data a0 a1 v0 v1 s = s\<lparr>bmem := (bmem s)(ucast a0 := v0, ucast a1 := v1)\<rparr>"

definition map_both :: "u32 \<Rightarrow> u32 \<Rightarrow> 'd badva_test \<Rightarrow> u32 \<times> u32 \<times> 'd badva_test" where
  "map_both a0 a1 s =
     (let (new_data0, s) = map_data_address a0 (mb_counter s * ONE_MB) s;
          s = s\<lparr>mb_counter := mb_counter s + 1\<rparr>;
          (new_data1, s) = map_data_address a1 (mb_counter s * ONE_MB) s;
          s = s\<lparr>mb_counter := mb_counter s + 1\<rparr>
      in (new_data0, new_data1, s))"

definition check_badva :: "int \<Rightarrow> u32 \<Rightarrow> u32 \<Rightarrow> 'd badva_test \<Rightarrow> 'd badva_test" where
  "check_badva line x y s =
     (if read_badva s = x
      then let s = bcheck line (read_badva0 s) x s;
               s = bcheck (line + 1) (read_badva1 s) INVALID_BADVA s;
               s = bcheck (line + 2) (read_ssr_v0 s) 1 s;
               s = bcheck (line + 3) (read_ssr_v1 s) 0 s
           in bcheck (line + 4) (read_ssr_bvs s) 0 s
      else if read_badva s = y
      then let s = bcheck (line + 6) (read_badva0 s) INVALID_BADVA s;
               s = bcheck (line + 7) (read_badva1 s) y s;
               s = bcheck (line + 8) (read_ssr_v0 s) 0 s;
               s = bcheck (line + 9) (read_ssr_v1 s) 1 s
           in bcheck (line + 10) (read_ssr_bvs s) 1 s
      else bcheck (line + 13) 0 1 s)"

definition test_dual_store :: "'d tlb_ops \<Rightarrow> choice \<Rightarrow> choice \<Rightarrow> u32 \<Rightarrow> u32 \<Rightarrow> 'd badva_test \<Rightarrow> 'd badva_test option" where
  "test_dual_store hw slots slot1_first a0 a1 s =
     (let s = set_data a0 a1 0x12345678 0x87654321 s;
          (new_data0, new_data1, s) = map_both a0 a1 s
      in do {
        s \<leftarrow> dual_store hw slots slot1_first new_data0 new_data1 1 2 s;
        let s = check_badva 232 new_data0 new_data1 s;
        let s = bcheck 247 (bmem s (ucast a0)) 1 s;
        Some (bcheck 248 (bmem s (ucast a1)) 2 s)
      })"

definition test_dual_load :: "'d tlb_ops \<Rightarrow> choice \<Rightarrow> choice \<Rightarrow> u32 \<Rightarrow> u32 \<Rightarrow> 'd badva_test \<Rightarrow> 'd badva_test option" where
  "test_dual_load hw slots slot1_first a0 a1 s =
     (let s = set_data a0 a1 0xaabbccdd 0xeeff0011 s;
          (new_data0, new_data1, s) = map_both a0 a1 s
      in do {
        ((val0, val1), s) \<leftarrow> dual_load hw slots slot1_first new_data0 new_data1 s;
        let s = check_badva 265 new_data0 new_data1 s;
        let s = bcheck 280 val0 0xaabbccdd s;
        Some (bcheck 281 val1 0xeeff0011 s)
      })"

definition test_load_store :: "'d tlb_ops \<Rightarrow> choice \<Rightarrow> choice \<Rightarrow> u32 \<Rightarrow> u32 \<Rightarrow> 'd badva_test \<Rightarrow> 'd badva_test option" where
  "test_load_store hw slots slot1_first a0 a1 s =
     (let s = set_data a0 a1 0x11223344 0x55667788 s;
          (new_data0, new_data1, s) = map_both a0 a1 s
      in do {
        (val, s) \<leftarrow> load_store hw slots slot1_first new_data0 new_data1 0x123 s;
        let s = check_badva 298 new_data1 new_data0 s;
        let s = bcheck 313 val 0x11223344 s;
        Some (bcheck 314 (bmem s (ucast a1)) 0x123 s)
      })"

definition test_badva_write :: "'d badva_test \<Rightarrow> 'd badva_test" where
  "test_badva_write s =
     (let va = 0x11223344;
          s = write_badva0 va s
      in bcheck 320 (read_badva s) va s)"

definition badva_main :: "'d tlb_ops \<Rightarrow> choice \<Rightarrow> choice \<Rightarrow> u32 \<Rightarrow> u32 \<Rightarrow> 'd badva_test \<Rightarrow> (string \<times> 'd badva_test) option" where
  "badva_main hw slots slot1_first a0 a1 s = do {
     s \<leftarrow> test_dual_store hw slots slot1_first a0 a1 s;
     s \<leftarrow> test_dual_load hw slots slot1_first a0 a1 s;
     s \<leftarrow> test_load_store hw slots slot1_first a0 a1 s;
     let s = test_badva_write s;
     Some (if err (bchk s) \<noteq> 0 then ''FAIL'' else ''PASS'', s)
   }"

section \<open>The registers after a miss\<close>

text \<open>The last miss was that of \<open>va\<close>, in slot 1 or 0.\<close>

definition reported :: "bool \<Rightarrow> u32 \<Rightarrow> 'd badva_test \<Rightarrow> bool" where
  "reported slot1 va s \<longleftrightarrow>
     badva0 s = (if slot1 then INVALID_BADVA else va) \<and> badva1 s = (if slot1 then va else INVALID_BADVA) \<and>
     bit (read_ssr s) 20 = (\<not> slot1) \<and> bit (read_ssr s) 21 = slot1 \<and> bit (read_ssr s) 22 = slot1"

lemma read_write_ssr [simp]:
  "read_ssr (write_ssr v s) = v" "badva0 (write_ssr v s) = badva0 s" "badva1 (write_ssr v s) = badva1 s" "bmem (write_ssr v s) = bmem s"
  "mb_counter (write_ssr v s) = mb_counter s" "bchk (write_ssr v s) = bchk s"
  "rf (write_ssr v s) = (rf s)\<lparr>brt := (brt (rf s))\<lparr>ssr_reg := v\<rparr>\<rparr>"
  by (simp_all add: write_ssr_def read_ssr_def)

lemma read_badva_bit: "read_badva s = (if bit (read_ssr s) 22 then badva1 s else badva0 s)"
  using GET_FIELD_perm [of SSR_BVS "ucast (read_ssr s) :: u64"]
  by (auto simp: read_badva_def GET_FIELD_def bit_eq_iff [of "fEXTRACTU_BITS _ _ _"] bit_fEXTRACTU_BITS dest: spec [of _ 0])

lemma read_ssr_fields:
  "read_ssr_v0 s = of_bool (bit (read_ssr s) 20)" "read_ssr_v1 s = of_bool (bit (read_ssr s) 21)" "read_ssr_bvs s = read_ssr_v1 s"
  by (simp_all add: read_ssr_v0_def read_ssr_v1_def read_ssr_bvs_def SSR_V0_BIT_def SSR_V1_BIT_def SSR_BVS_BIT_def and_one_eq mod_2_eq_odd
      bit_drop_bit_eq bit_iff_odd_drop_bit)

lemma reported_miss: "reported slot1 va (miss_regs slot1 c va s)"
  by (simp add: reported_def miss_regs_def Let_def SET_FIELD_def bit_set_bit_iff bit_fINSERT_BITS)

lemma reported_read: "reported slot1 va s \<Longrightarrow> read_badva s = va"
  by (simp add: reported_def read_badva_bit)

lemma miss_regs_frame:
  "bmem (miss_regs b c va s) = bmem s" "mb_counter (miss_regs b c va s) = mb_counter s" "bchk (miss_regs b c va s) = bchk s"
  "\<exists>v. rf (miss_regs b c va s) = (rf s)\<lparr>brt := (brt (rf s))\<lparr>ssr_reg := v\<rparr>\<rparr>"
  by (auto simp: miss_regs_def Let_def)

lemma err_bcheck: "err (bchk (bcheck l v e s)) = err (bchk s) + of_bool (v \<noteq> e)"
  by (simp add: bcheck_def check32_def report_def)

lemma bcheck_frame [simp]:
  "rf (bcheck l v e s) = rf s" "badva0 (bcheck l v e s) = badva0 s" "badva1 (bcheck l v e s) = badva1 s" "bmem (bcheck l v e s) = bmem s"
  "mb_counter (bcheck l v e s) = mb_counter s" "read_ssr (bcheck l v e s) = read_ssr s"
  by (simp_all add: bcheck_def read_ssr_def)

lemma bcheck_reads [simp]:
  "read_badva (bcheck l v e s) = read_badva s" "read_badva0 (bcheck l v e s) = badva0 s" "read_badva1 (bcheck l v e s) = badva1 s"
  "read_ssr_v0 (bcheck l v e s) = read_ssr_v0 s" "read_ssr_v1 (bcheck l v e s) = read_ssr_v1 s"
  by (simp_all add: read_badva_bit read_badva0_def read_badva1_def read_ssr_fields(1,2))

text \<open>The checks of the registers: they pass exactly when \<open>x\<close> was reported in slot 0 or \<open>y\<close> in slot 1.\<close>

lemma check_badva_verdict:
  assumes "reported slot1 va s" "va = x \<or> va = y" "x \<noteq> y"
  obtains n where "err (bchk (check_badva line x y s)) = err (bchk s) + int n" "n = 0 \<longleftrightarrow> (if slot1 then va = y else va = x)"
proof -
  have r: "read_badva s = va" using assms(1) by (rule reported_read)
  have "\<exists>n. err (bchk (check_badva line x y s)) = err (bchk s) + int n \<and> (n = 0 \<longleftrightarrow> (if slot1 then va = y else va = x))"
  proof (cases "va = x")
    case True
    then show ?thesis using assms r
      by (intro exI [of _ "of_bool (badva0 s \<noteq> x) + of_bool (badva1 s \<noteq> INVALID_BADVA) + of_bool (read_ssr_v0 s \<noteq> 1) + 2 * of_bool (read_ssr_v1 s \<noteq> 0)"])
        (auto simp: check_badva_def Let_def err_bcheck read_ssr_fields reported_def read_badva0_def read_badva1_def)
  next
    case False
    then show ?thesis using assms r
      by (intro exI [of _ "of_bool (badva0 s \<noteq> INVALID_BADVA) + of_bool (badva1 s \<noteq> y) + of_bool (read_ssr_v0 s \<noteq> 0) + 2 * of_bool (read_ssr_v1 s \<noteq> 1)"])
        (auto simp: check_badva_def Let_def err_bcheck read_ssr_fields reported_def read_badva0_def read_badva1_def)
  qed
  then show thesis using that by blast
qed

lemma check_badva_frame [simp]:
  "rf (check_badva l x y s) = rf s" "bmem (check_badva l x y s) = bmem s" "mb_counter (check_badva l x y s) = mb_counter s"
  "badva0 (check_badva l x y s) = badva0 s" "badva1 (check_badva l x y s) = badva1 s"
  by (simp_all add: check_badva_def Let_def)

section \<open>Two misses\<close>

text \<open>The refill has at least two entries to write, all of them entries of the device.\<close>

definition space :: "('d \<Rightarrow> u32 \<Rightarrow> bool) \<Rightarrow> 'd refill \<Rightarrow> bool" where
  "space ok r \<longleftrightarrow>
     unat (tlb_fixed_entries (brt r)) + 2 \<le> unat (NumTLBEntries r) \<and> unat (NumTLBEntries r) < 2 ^ 31 \<and>
     unat (tlb_fixed_entries (brt r)) \<le> unat (tlb_idx r) + 1 \<and> unat (tlb_idx r) < unat (NumTLBEntries r) \<and>
     (\<forall>i. unat (tlb_fixed_entries (brt r)) \<le> unat i \<and> unat i < unat (NumTLBEntries r) \<longrightarrow> ok (dev (brt r)) i)"

lemma sint_small: "unat (x :: u32) < 2 ^ 31 \<Longrightarrow> sint x = int (unat x)"
proof -
  assume x: "unat x < 2 ^ 31"
  have "\<not> bit (uint x) (LENGTH(32) - Suc 0)" using bit_beyond_unat [OF x, of 31] by (simp add: bit_uint_iff)
  then have "sint x = take_bit (LENGTH(32) - Suc 0) (uint x)" unfolding sint_uint by (rule signed_take_bit_eq_if_positive)
  moreover have "int (unat x) < int (2 ^ 31)" using x by (simp only: of_nat_less_iff)
  then have "take_bit (LENGTH(32) - Suc 0) (uint x) = uint x" by (intro take_bit_int_eq_self) simp_all
  ultimately show ?thesis by simp
qed

lemma space_next:
  assumes "space ok r"
  shows "next_tlb_idx r \<noteq> tlb_idx r" "unat (tlb_fixed_entries (brt r)) \<le> unat (next_tlb_idx r)" "unat (next_tlb_idx r) < unat (NumTLBEntries r)"
    "\<not> bit (next_tlb_idx r) 31" "ok (dev (brt r)) (next_tlb_idx r)"
proof -
  have u: "unat (tlb_idx r + 1) = unat (tlb_idx r) + 1" using assms by (simp add: space_def unat_word_ariths)
  have "sint (tlb_idx r + 1) = int (unat (tlb_idx r) + 1)" "sint (NumTLBEntries r) = int (unat (NumTLBEntries r))"
    using assms u sint_small [of "tlb_idx r + 1"] sint_small [of "NumTLBEntries r"] by (simp_all add: space_def)
  then have c: "sint (tlb_idx r + 1) < sint (NumTLBEntries r) \<longleftrightarrow> unat (tlb_idx r) + 1 < unat (NumTLBEntries r)"
    by (simp only: of_nat_less_iff)
  have n: "next_tlb_idx r = (if unat (tlb_idx r) + 1 < unat (NumTLBEntries r) then tlb_idx r + 1 else tlb_fixed_entries (brt r))"
    using c by (simp add: next_tlb_idx_def)
  show i: "next_tlb_idx r \<noteq> tlb_idx r" "unat (tlb_fixed_entries (brt r)) \<le> unat (next_tlb_idx r)" "unat (next_tlb_idx r) < unat (NumTLBEntries r)"
    using assms u by (auto simp: n space_def word_unat_eq_iff)
  show "ok (dev (brt r)) (next_tlb_idx r)" using assms i by (simp add: space_def)
  show "\<not> bit (next_tlb_idx r) 31" using assms i(3) bit_beyond_unat [of "next_tlb_idx r" 31 31] by (simp add: space_def)
qed

text \<open>What a miss changes.\<close>

definition same_data :: "'d badva_test \<Rightarrow> 'd badva_test \<Rightarrow> bool" where
  "same_data s s' \<longleftrightarrow> bmem s' = bmem s \<and> mb_counter s' = mb_counter s \<and> bchk s' = bchk s \<and> upte (brt (rf s')) = upte (brt (rf s)) \<and>
     NumTLBEntries (rf s') = NumTLBEntries (rf s) \<and> tlb_fixed_entries (brt (rf s')) = tlb_fixed_entries (brt (rf s))"

definition after_miss :: "'d tlb_ops \<Rightarrow> bool \<Rightarrow> u32 \<Rightarrow> 'd badva_test \<Rightarrow> 'd badva_test \<Rightarrow> bool" where
  "after_miss hw slot1 va s s' \<longleftrightarrow> reported slot1 va s' \<and> same_data s s' \<and> tlb_idx (rf s') = next_tlb_idx (rf s) \<and>
     dev (brt (rf s')) = op_tlbw hw (dev (brt (rf s))) (refill_entry (findPTEValue (brt (rf s)) va) va) (next_tlb_idx (rf s))"

abbreviation tlb_of :: "'d badva_test \<Rightarrow> 'd" where
  "tlb_of s \<equiv> dev (brt (rf s))"

lemma same_data_trans: "same_data s s' \<Longrightarrow> same_data s' s'' \<Longrightarrow> same_data s s''"
  by (simp add: same_data_def)

lemma same_data_pte: "same_data s s' \<Longrightarrow> findPTEValue (brt (rf s')) va = findPTEValue (brt (rf s)) va"
  by (simp add: same_data_def findPTEValue_def)

context tlb_device
begin

lemma miss_spec:
  assumes "mb_free hw ok (tlb_of s) va"
  shows "\<exists>s'. tlb_miss hw slot1 acc va s = Some s' \<and> after_miss hw slot1 va s s'"
proof -
  let ?m = "miss_regs slot1 (miss_cause acc) va s"
  obtain v where v: "rf ?m = (rf s)\<lparr>brt := (brt (rf s))\<lparr>ssr_reg := v\<rparr>\<rparr>" using miss_regs_frame(4) by blast
  have b: "read_badva ?m = va" using reported_miss by (rule reported_read)
  have f: "event_handle_tlbmissrw hw va (rf ?m) = Some (refilled hw va (rf ?m))"
    by (rule refill_fills) (use assms v in simp)
  define s' where "s' = write_ssr (unset_bit 17 (read_ssr (?m\<lparr>rf := refilled hw va (rf ?m)\<rparr>))) (?m\<lparr>rf := refilled hw va (rf ?m)\<rparr>)"
  have "tlb_miss hw slot1 acc va s = Some s'" by (simp add: tlb_miss_def Let_def b f s'_def)
  moreover have "read_ssr s' = unset_bit 17 (read_ssr ?m)" "badva0 s' = badva0 ?m" "badva1 s' = badva1 ?m"
    by (simp_all add: s'_def read_ssr_def refilled_def)
  then have "reported slot1 va s'"
    using reported_miss [of slot1 va "miss_cause acc" s] unfolding reported_def by (simp add: bit_unset_bit_iff)
  moreover have "next_tlb_idx (rf ?m) = next_tlb_idx (rf s)" "findPTEValue (brt (rf ?m)) va = findPTEValue (brt (rf s)) va"
    by (simp_all add: v next_tlb_idx_def Let_def findPTEValue_def)
  then have "tlb_idx (rf s') = next_tlb_idx (rf s)"
    "tlb_of s' = op_tlbw hw (tlb_of s) (refill_entry (findPTEValue (brt (rf s)) va) va) (next_tlb_idx (rf s))"
    by (simp_all add: s'_def refilled_def) (simp add: v)
  moreover have "same_data s s'" by (simp add: same_data_def s'_def refilled_def miss_regs_frame v)
  ultimately show ?thesis unfolding after_miss_def by blast
qed

lemma after_miss_space: "space ok (rf s) \<Longrightarrow> after_miss hw slot1 va s s' \<Longrightarrow> space ok (rf s')"
  using space_next(2,3) [of ok "rf s"] by (simp add: space_def after_miss_def same_data_def ok_wr)

lemma after_miss_free:
  "space ok (rf s) \<Longrightarrow> after_miss hw slot1 va s s' \<Longrightarrow> mb_free hw ok (tlb_of s) x \<Longrightarrow> drop_bit 20 va \<noteq> drop_bit 20 x \<Longrightarrow> mb_free hw ok (tlb_of s') x"
  using free_write_other [of "tlb_of s"] space_next(5) [of ok "rf s"] by (simp add: after_miss_def)

lemma after_miss_filled:
  "space ok (rf s) \<Longrightarrow> after_miss hw slot1 va s s' \<Longrightarrow> mb_free hw ok (tlb_of s) va \<Longrightarrow>
    filled hw ok (tlb_of s') (tlb_idx (rf s')) (findPTEValue (brt (rf s)) va) va"
  using filled_write [of "tlb_of s" va] space_next(4,5) [of ok "rf s"] by (simp add: after_miss_def)

lemma after_miss_keeps:
  "space ok (rf s) \<Longrightarrow> after_miss hw slot1 va s s' \<Longrightarrow> filled hw ok (tlb_of s) (tlb_idx (rf s)) pte x \<Longrightarrow> drop_bit 20 va \<noteq> drop_bit 20 x \<Longrightarrow>
    filled hw ok (tlb_of s') (tlb_idx (rf s)) pte x"
  using filled_write_other [of "tlb_of s"] space_next(1,5) [of ok "rf s"] by (simp add: after_miss_def)

lemma packet_hits:
  assumes "filled hw ok (tlb_of s) i (findPTEValue (brt (rf s)) va1) va1" "filled hw ok (tlb_of s) j (findPTEValue (brt (rf s)) va0) va0"
  shows "packet hw slot1_first acc1 va1 acc0 va0 s = Some (s, pt_translate (brt (rf s)) va1, pt_translate (brt (rf s)) va0)"
proof -
  have p: "tlb_probe hw (brt (rf s)) va1 = i" "tlb_probe hw (brt (rf s)) va0 = j"
    using filled_probe [OF assms(1)] filled_probe [OF assms(2)] by (simp_all add: tlb_probe_def)
  have n: "i \<noteq> TLB_NOT_FOUND" "j \<noteq> TLB_NOT_FOUND" using assms by (auto simp: filled_def)
  have e: "read_tlb_entry hw (brt (rf s)) i = refill_entry (findPTEValue (brt (rf s)) va1) va1"
    "read_tlb_entry hw (brt (rf s)) j = refill_entry (findPTEValue (brt (rf s)) va0) va0"
    using assms by (simp_all add: filled_def read_tlb_entry_def)
  show ?thesis
    by (subst packet.simps) (simp add: Let_def p n e refill_entry_permits refill_entry_translates pt_translate_def)
qed

lemma packet_misses:
  assumes "space ok (rf s)" "mb_free hw ok (tlb_of s) va1" "mb_free hw ok (tlb_of s) va0" "drop_bit 20 va1 \<noteq> drop_bit 20 va0"
  shows "\<exists>s'. packet hw slot1_first acc1 va1 acc0 va0 s = Some (s', pt_translate (brt (rf s)) va1, pt_translate (brt (rf s)) va0) \<and>
    reported (\<not> slot1_first acc1 acc0) (if slot1_first acc1 acc0 then va0 else va1) s' \<and> same_data s s' \<and> space ok (rf s') \<and>
    (\<forall>x. drop_bit 20 x \<noteq> drop_bit 20 va1 \<longrightarrow> drop_bit 20 x \<noteq> drop_bit 20 va0 \<longrightarrow> mb_free hw ok (tlb_of s) x \<longrightarrow> mb_free hw ok (tlb_of s') x)"
proof -
  let ?f = "slot1_first acc1 acc0"
  define va where "va = (if ?f then va1 else va0)"
  define va' where "va' = (if ?f then va0 else va1)"
  have d: "drop_bit 20 va \<noteq> drop_bit 20 va'" and free: "mb_free hw ok (tlb_of s) va" "mb_free hw ok (tlb_of s) va'"
    using assms by (auto simp: va_def va'_def)
  obtain s1 where 1: "tlb_miss hw ?f (if ?f then acc1 else acc0) va s = Some s1" "after_miss hw ?f va s s1"
    using miss_spec [OF free(1)] by blast
  have sp1: "space ok (rf s1)" and free1: "mb_free hw ok (tlb_of s1) va'"
    using after_miss_space [OF assms(1) 1(2)] after_miss_free [OF assms(1) 1(2) free(2) d] by simp_all
  have fill1: "filled hw ok (tlb_of s1) (tlb_idx (rf s1)) (findPTEValue (brt (rf s)) va) va"
    by (rule after_miss_filled [OF assms(1) 1(2) free(1)])
  obtain s2 where 2: "tlb_miss hw (\<not> ?f) (if ?f then acc0 else acc1) va' s1 = Some s2" "after_miss hw (\<not> ?f) va' s1 s2"
    using miss_spec [OF free1] by blast
  have dat: "same_data s s1" "same_data s1 s2" "same_data s s2" using 1(2) 2(2) by (auto simp: after_miss_def intro: same_data_trans)
  have fill2: "filled hw ok (tlb_of s2) (tlb_idx (rf s1)) (findPTEValue (brt (rf s2)) va) va"
    "filled hw ok (tlb_of s2) (tlb_idx (rf s2)) (findPTEValue (brt (rf s2)) va') va'"
    using after_miss_keeps [OF sp1 2(2) fill1] after_miss_filled [OF sp1 2(2) free1] d dat by (simp_all add: same_data_pte)
  have miss: "tlb_probe hw (brt (rf s)) va1 = TLB_NOT_FOUND" "tlb_probe hw (brt (rf s)) va0 = TLB_NOT_FOUND"
    using free_probe [OF assms(2)] free_probe [OF assms(3)] by (simp_all add: tlb_probe_def)
  have hit: "tlb_probe hw (brt (rf s1)) va \<noteq> TLB_NOT_FOUND" "tlb_probe hw (brt (rf s1)) va' = TLB_NOT_FOUND"
    using filled_probe [OF fill1] free_probe [OF free1] fill1 by (auto simp: tlb_probe_def filled_def)
  have "packet hw slot1_first acc1 va1 acc0 va0 s = packet hw slot1_first acc1 va1 acc0 va0 s1"
    using miss 1(1) by (subst packet.simps) (auto simp: Let_def va_def)
  also have "\<dots> = packet hw slot1_first acc1 va1 acc0 va0 s2"
    using hit 2(1) by (subst packet.simps) (auto simp: Let_def va_def va'_def split: if_splits)
  also have "\<dots> = Some (s2, pt_translate (brt (rf s2)) va1, pt_translate (brt (rf s2)) va0)"
    using fill2 by (cases ?f) (auto simp: va_def va'_def intro: packet_hits)
  also have "\<dots> = Some (s2, pt_translate (brt (rf s)) va1, pt_translate (brt (rf s)) va0)"
    using dat(3) by (simp add: pt_translate_def same_data_pte)
  finally have "packet hw slot1_first acc1 va1 acc0 va0 s = \<dots>" .
  moreover have "reported (\<not> ?f) va' s2" using 2(2) by (simp add: after_miss_def)
  moreover have "space ok (rf s2)" by (rule after_miss_space [OF sp1 2(2)])
  moreover have "mb_free hw ok (tlb_of s2) x"
    if "drop_bit 20 x \<noteq> drop_bit 20 va1" "drop_bit 20 x \<noteq> drop_bit 20 va0" "mb_free hw ok (tlb_of s) x" for x
  proof -
    have "drop_bit 20 va \<noteq> drop_bit 20 x" "drop_bit 20 va' \<noteq> drop_bit 20 x" using that by (auto simp: va_def va'_def)
    then show ?thesis using after_miss_free [OF sp1 2(2) after_miss_free [OF assms(1) 1(2) that(3)]] by blast
  qed
  ultimately show ?thesis using dat(3) unfolding va'_def by (intro exI [of _ s2] conjI) simp_all
qed

end

section \<open>The addresses\<close>

text \<open>Both variables lie in one megabyte, with six more above it.\<close>

definition data_layout :: "u32 \<Rightarrow> u32 \<Rightarrow> bool" where
  "data_layout a0 a1 \<longleftrightarrow> a0 \<noteq> a1 \<and> drop_bit 20 a0 = drop_bit 20 a1 \<and> unat (drop_bit 20 a0) + 7 \<le> 4096"

definition above :: "u32 \<Rightarrow> nat \<Rightarrow> u32" where
  "above a j = a + of_nat j * ONE_MB"

lemma unat_above:
  assumes "unat (drop_bit 20 a) + 7 \<le> 4096" "j \<le> 6"
  shows "unat (above a j) = unat a + j * 2 ^ 20"
proof -
  have "unat a div 2 ^ 20 + 7 \<le> 4096" using assms(1) by (simp add: drop_bit_eq_div unat_div)
  then have "unat a < 4090 * 2 ^ 20" by (simp add: div_less_iff_less_mult [symmetric])
  then have "unat a + 6 * 2 ^ 20 < 2 ^ 32" by simp
  moreover have "unat (of_nat j * ONE_MB) = j * 2 ^ 20"
    using assms(2) by (simp add: ONE_MB_def unat_word_ariths unat_of_nat_small)
  ultimately show ?thesis using assms(2) by (simp add: above_def unat_word_ariths)
qed

lemma above_mb:
  assumes "unat (drop_bit 20 a) + 7 \<le> 4096" "j \<le> 6"
  shows "unat (drop_bit 20 (above a j)) = unat (drop_bit 20 a) + j" "take_bit 20 (above a j) = take_bit 20 a"
proof -
  show "unat (drop_bit 20 (above a j)) = unat (drop_bit 20 a) + j"
    using unat_above [OF assms] by (simp add: drop_bit_eq_div unat_div)
  have "unat (take_bit 20 (above a j)) = unat (take_bit 20 a)"
    using unat_above [OF assms] by (simp add: take_bit_eq_mod unat_mod)
  then show "take_bit 20 (above a j) = take_bit 20 a" by (simp add: word_unat_eq_iff)
qed

lemma page_mb: "drop_bit 20 (a AND NOT (push_bit 12 1 - 1) :: u32) = drop_bit 20 a"
proof -
  have e: "(push_bit 12 1 - 1 :: u32) = mask 12" by (simp add: mask_eq_exp_minus_1)
  show ?thesis unfolding e by (rule bit_word_eqI) (auto simp: bit_drop_bit_eq bit_and_iff bit_not_iff bit_mask_iff dest: bit_imp_le_length)
qed

lemma compose_pa:
  assumes "take_bit 20 va = take_bit 20 (a :: u32)"
  shows "push_bit 20 (ucast (ucast (drop_bit 20 a) :: u16)) OR take_bit 20 (ucast va) = (ucast a :: u64)"
proof (rule bit_word_eqI)
  fix i assume i: "i < LENGTH(64)"
  have "bit (take_bit 20 va) i = bit (take_bit 20 a) i" using assms by simp
  then have "i < 20 \<Longrightarrow> bit va i = bit a i" by (simp add: bit_take_bit_iff)
  moreover have "bit a i \<Longrightarrow> i < 32" using bit_imp_le_length [of a i] by simp
  ultimately show "bit (push_bit 20 (ucast (ucast (drop_bit 20 a) :: u16)) OR take_bit 20 (ucast va) :: u64) i = bit (ucast a :: u64) i"
    using i by (cases "i < 20") (auto simp: bit_or_iff bit_push_bit_iff bit_ucast_iff bit_drop_bit_eq bit_take_bit_iff)
qed

text \<open>A mapping of the software page table.\<close>

lemma mapped_translate:
  assumes "drop_bit 20 va = drop_bit 20 new" "take_bit 20 va = take_bit 20 a" "drop_bit 20 pa = drop_bit 20 a"
  shows "pt_translate (add_translation st new pa c) va = ucast a"
  using add_translation_lookup [of va st new pa c] assms compose_pa [OF assms(2)] by (simp add: pt_translate_def)

lemma other_translate:
  assumes "drop_bit 20 va \<noteq> drop_bit 20 new"
  shows "pt_translate (add_translation st new pa c) va = pt_translate st va"
  using add_translation_lookup [of va st new pa c] assms by (simp add: pt_translate_def)

section \<open>The verdict of each test\<close>

text \<open>Before the test with offset \<open>k\<close>: the megabytes of this and the later tests have no entry.\<close>

definition fresh :: "'d tlb_ops \<Rightarrow> ('d \<Rightarrow> u32 \<Rightarrow> bool) \<Rightarrow> u32 \<Rightarrow> nat \<Rightarrow> 'd badva_test \<Rightarrow> bool" where
  "fresh hw ok a0 k s \<longleftrightarrow> space ok (rf s) \<and> mb_counter s = of_nat k \<and> (\<forall>j. k \<le> j \<and> j \<le> 6 \<longrightarrow> mb_free hw ok (tlb_of s) (above a0 j))"

lemma fresh_frame:
  "fresh hw ok a0 k (set_data a b u v s) = fresh hw ok a0 k s" "fresh hw ok a0 k (bcheck l x y s) = fresh hw ok a0 k s"
  "fresh hw ok a0 k (s\<lparr>bmem := m\<rparr>) = fresh hw ok a0 k s" "fresh hw ok a0 k (check_badva l x y s) = fresh hw ok a0 k s"
  by (simp_all add: fresh_def set_data_def)

lemma clear_badva_frame [simp]:
  "bmem (clear_badva s) = bmem s" "mb_counter (clear_badva s) = mb_counter s" "bchk (clear_badva s) = bchk s"
  "tlb_of (clear_badva s) = tlb_of s" "upte (brt (rf (clear_badva s))) = upte (brt (rf s))"
  "space ok (rf (clear_badva s)) = space ok (rf s)" "pt_translate (brt (rf (clear_badva s))) va = pt_translate (brt (rf s)) va"
  by (simp_all add: clear_badva_def Let_def space_def pt_translate_def findPTEValue_def)

lemma layout_mbs:
  assumes "data_layout a0 a1" "k \<le> 5"
  shows "drop_bit 20 (above a0 k) \<noteq> drop_bit 20 (above a1 (k + 1))" "above a0 k \<noteq> above a1 (k + 1)"
    "j \<le> 6 \<Longrightarrow> drop_bit 20 (above a0 j) = drop_bit 20 (above a1 j)"
    "j \<le> 6 \<Longrightarrow> j \<noteq> k \<Longrightarrow> drop_bit 20 (above a0 j) \<noteq> drop_bit 20 (above a0 k)"
    "j \<le> 6 \<Longrightarrow> j \<noteq> k + 1 \<Longrightarrow> drop_bit 20 (above a0 j) \<noteq> drop_bit 20 (above a1 (k + 1))"
proof -
  have r: "unat (drop_bit 20 a0) + 7 \<le> 4096" "unat (drop_bit 20 a1) + 7 \<le> 4096" and e: "drop_bit 20 a0 = drop_bit 20 a1"
    using assms by (auto simp: data_layout_def)
  have u: "unat (drop_bit 20 (above a0 j)) = unat (drop_bit 20 a0) + j" "unat (drop_bit 20 (above a1 j)) = unat (drop_bit 20 a0) + j"
    if "j \<le> 6" for j using above_mb(1) [OF r(1) that] above_mb(1) [OF r(2) that] e by simp_all
  show "drop_bit 20 (above a0 k) \<noteq> drop_bit 20 (above a1 (k + 1))" using u [of k] u [of "k + 1"] assms(2) by auto
  then show "above a0 k \<noteq> above a1 (k + 1)" by metis
  show "drop_bit 20 (above a0 j) = drop_bit 20 (above a1 j)" if "j \<le> 6" using u [OF that] by (simp add: word_unat_eq_iff)
  show "drop_bit 20 (above a0 j) \<noteq> drop_bit 20 (above a0 k)" if "j \<le> 6" "j \<noteq> k" using u [OF that(1)] u [of k] that assms(2) by auto
  show "drop_bit 20 (above a0 j) \<noteq> drop_bit 20 (above a1 (k + 1))" if "j \<le> 6" "j \<noteq> k + 1"
    using u [OF that(1)] u [of "k + 1"] that assms(2) by auto
qed

lemma mb_free_cong: "drop_bit 20 x = drop_bit 20 y \<Longrightarrow> mb_free hw ok d x = mb_free hw ok d y"
  by (simp add: mb_free_def)

text \<open>The two mappings: the new addresses translate to the data.\<close>

lemma map_both_maps:
  assumes "data_layout a0 a1" "k \<le> 5" "mb_counter s = of_nat k"
  obtains s1 where "map_both a0 a1 s = (above a0 k, above a1 (k + 1), s1)" "tlb_of s1 = tlb_of s" "space ok (rf s1) = space ok (rf s)"
    "mb_counter s1 = of_nat (k + 2)" "bmem s1 = bmem s" "bchk s1 = bchk s"
    "pt_translate (brt (rf s1)) (above a0 k) = ucast a0" "pt_translate (brt (rf s1)) (above a1 (k + 1)) = ucast a1"
proof -
  define pg where "pg a = a AND NOT (push_bit 12 1 - 1 :: u32)" for a
  have pg: "drop_bit 20 (pg a) = drop_bit 20 a" for a unfolding pg_def by (rule page_mb)
  have n: "pg a + of_nat j * ONE_MB = above (pg a) j" for a j by (simp add: above_def)
  have r: "unat (drop_bit 20 a0) + 7 \<le> 4096" "unat (drop_bit 20 a1) + 7 \<le> 4096" using assms by (auto simp: data_layout_def)
  have mb: "drop_bit 20 (above (pg a) j) = drop_bit 20 (above a j)" if "unat (drop_bit 20 a) + 7 \<le> 4096" "j \<le> 6" for a j
    using above_mb(1) [of "pg a" j] above_mb(1) [of a j] that by (simp add: pg word_unat_eq_iff)
  let ?st = "add_translation (brt (rf s)) (above (pg a0) k) (pg a0) 0"
  let ?st' = "add_translation ?st (above (pg a1) (k + 1)) (pg a1) 0"
  define s1 where "s1 = s\<lparr>rf := (rf s)\<lparr>brt := ?st'\<rparr>, mb_counter := of_nat (k + 2)\<rparr>"
  have st: "dev ?st' = tlb_of s" "tlb_fixed_entries ?st' = tlb_fixed_entries (brt (rf s))" by (simp_all add: add_translation_def Let_def)
  have "map_both a0 a1 s = (above a0 k, above a1 (k + 1), s1)"
    using assms(3) n by (simp add: map_both_def map_data_address_def Let_def s1_def pg_def above_def add.commute)
  moreover have "tlb_of s1 = tlb_of s" "space ok (rf s1) = space ok (rf s)" using st by (simp_all add: s1_def space_def)
  moreover have "pt_translate ?st' (above a0 k) = ucast a0"
    using layout_mbs(1) [OF assms(1,2)] mb r assms(2) above_mb(2) [OF r(1), of k]
    by (subst other_translate) (auto intro!: mapped_translate simp: pg)
  moreover have "pt_translate ?st' (above a1 (k + 1)) = ucast a1"
    using mb r assms(2) above_mb(2) [OF r(2), of "k + 1"] by (intro mapped_translate) (auto simp: pg)
  ultimately show thesis using that [of s1] by (simp add: s1_def)
qed

text \<open>A packet runs on the state \<open>s1\<close> after the mappings: both accesses reach the data, and the last miss is that of one of them, in its
  slot; the next test finds its megabytes without an entry.\<close>

definition packet_runs ::
  "'d tlb_ops \<Rightarrow> ('d \<Rightarrow> u32 \<Rightarrow> bool) \<Rightarrow> choice \<Rightarrow> choice \<Rightarrow> u32 \<Rightarrow> nat \<Rightarrow> access \<Rightarrow> u32 \<Rightarrow> u64 \<Rightarrow> access \<Rightarrow> u32 \<Rightarrow> u64 \<Rightarrow> 'd badva_test \<Rightarrow> 'd badva_test \<Rightarrow> bool" where
  "packet_runs hw ok slots slot1_first a0 k acc va pa acc' va' pa' s s1 \<longleftrightarrow>
     (\<exists>s' b v. written_packet hw slots slot1_first acc va acc' va' (clear_badva s1) = Some (s', pa, pa') \<and>
        reported b v s' \<and> (v = va \<or> v = va') \<and> (b \<longleftrightarrow> v = (if slots acc acc' then va else va')) \<and> (slots acc acc' \<longrightarrow> b = (\<not> slot1_first acc acc')) \<and>
        bmem s' = bmem s \<and> bchk s' = bchk s \<and> fresh hw ok a0 (k + 2) s')"

context tlb_device
begin

text \<open>A packet of two mapped addresses: the last miss is that of one of its accesses, in its slot.\<close>

lemma written_packet_misses:
  assumes "space ok (rf s)" "mb_free hw ok (tlb_of s) va" "mb_free hw ok (tlb_of s) va'" "drop_bit 20 va \<noteq> drop_bit 20 va'"
  shows "\<exists>s' b v. written_packet hw slots slot1_first acc va acc' va' s = Some (s', pt_translate (brt (rf s)) va, pt_translate (brt (rf s)) va') \<and>
    reported b v s' \<and> (v = va \<or> v = va') \<and> (b \<longleftrightarrow> v = (if slots acc acc' then va else va')) \<and> (slots acc acc' \<longrightarrow> b = (\<not> slot1_first acc acc')) \<and>
    same_data s s' \<and> space ok (rf s') \<and>
    (\<forall>x. drop_bit 20 x \<noteq> drop_bit 20 va \<longrightarrow> drop_bit 20 x \<noteq> drop_bit 20 va' \<longrightarrow> mb_free hw ok (tlb_of s) x \<longrightarrow> mb_free hw ok (tlb_of s') x)"
proof (cases "slots acc acc'")
  case True
  obtain s' where "packet hw slot1_first acc va acc' va' s = Some (s', pt_translate (brt (rf s)) va, pt_translate (brt (rf s)) va')"
    "reported (\<not> slot1_first acc acc') (if slot1_first acc acc' then va' else va) s'" "same_data s s'" "space ok (rf s')"
    "\<forall>x. drop_bit 20 x \<noteq> drop_bit 20 va \<longrightarrow> drop_bit 20 x \<noteq> drop_bit 20 va' \<longrightarrow> mb_free hw ok (tlb_of s) x \<longrightarrow> mb_free hw ok (tlb_of s') x"
    using packet_misses [OF assms, of slot1_first acc acc'] by blast
  then show ?thesis using True assms(4) unfolding written_packet_def
    by (intro exI [of _ s'] exI [of _ "\<not> slot1_first acc acc'"] exI [of _ "if slot1_first acc acc' then va' else va"]) auto
next
  case False
  obtain s' where "packet hw slot1_first acc' va' acc va s = Some (s', pt_translate (brt (rf s)) va', pt_translate (brt (rf s)) va)"
    "reported (\<not> slot1_first acc' acc) (if slot1_first acc' acc then va else va') s'" "same_data s s'" "space ok (rf s')"
    "\<forall>x. drop_bit 20 x \<noteq> drop_bit 20 va' \<longrightarrow> drop_bit 20 x \<noteq> drop_bit 20 va \<longrightarrow> mb_free hw ok (tlb_of s) x \<longrightarrow> mb_free hw ok (tlb_of s') x"
    using packet_misses [OF assms(1,3,2) assms(4) [symmetric], of slot1_first acc' acc] by blast
  then show ?thesis using False assms(4) unfolding written_packet_def
    by (intro exI [of _ s'] exI [of _ "\<not> slot1_first acc' acc"] exI [of _ "if slot1_first acc' acc then va else va'"]) auto
qed


text \<open>The accesses of a test, in either order, on the state after the mappings.\<close>

lemma mapped_packet:
  assumes lay: "data_layout a0 a1" and k: "k \<le> 5" and fr: "fresh hw ok a0 k s"
  shows "\<exists>s1. map_both a0 a1 s = (above a0 k, above a1 (k + 1), s1) \<and>
    (\<forall>acc acc'. packet_runs hw ok slots slot1_first a0 k acc (above a0 k) (ucast a0) acc' (above a1 (k + 1)) (ucast a1) s s1) \<and>
    (\<forall>acc acc'. packet_runs hw ok slots slot1_first a0 k acc (above a1 (k + 1)) (ucast a1) acc' (above a0 k) (ucast a0) s s1)"
proof -
  have f: "space ok (rf s)" "mb_counter s = of_nat k" "mb_free hw ok (tlb_of s) (above a0 j)" if "k \<le> j" "j \<le> 6" for j
    using fr that by (auto simp: fresh_def)
  obtain s1 where s1: "map_both a0 a1 s = (above a0 k, above a1 (k + 1), s1)" "tlb_of s1 = tlb_of s" "space ok (rf s1) = space ok (rf s)"
    "mb_counter s1 = of_nat (k + 2)" "bmem s1 = bmem s" "bchk s1 = bchk s"
    "pt_translate (brt (rf s1)) (above a0 k) = ucast a0" "pt_translate (brt (rf s1)) (above a1 (k + 1)) = ucast a1"
    using map_both_maps [OF lay k] f(2) [of k] k by auto
  let ?c = "clear_badva s1"
  have sp: "space ok (rf ?c)" using s1(3) f(1) [of k] k by simp
  have free: "mb_free hw ok (tlb_of ?c) (above a0 k)" "mb_free hw ok (tlb_of ?c) (above a1 (k + 1))"
    using f(3) [of k] f(3) [of "k + 1"] k s1(2) mb_free_cong [OF layout_mbs(3) [OF lay k, of "k + 1"], of hw ok] by simp_all
  have d: "drop_bit 20 (above a0 k) \<noteq> drop_bit 20 (above a1 (k + 1))" by (rule layout_mbs(1) [OF lay k])
  have next_fresh: "fresh hw ok a0 (k + 2) s'"
    if "same_data ?c s'" "space ok (rf s')"
      "\<forall>x. drop_bit 20 x \<noteq> drop_bit 20 (above a0 k) \<longrightarrow> drop_bit 20 x \<noteq> drop_bit 20 (above a1 (k + 1)) \<longrightarrow> mb_free hw ok (tlb_of ?c) x \<longrightarrow> mb_free hw ok (tlb_of s') x"
    for s'
  proof -
    note keeps = that(3)
    have "mb_free hw ok (tlb_of s') (above a0 j)" if "k + 2 \<le> j" "j \<le> 6" for j
      using layout_mbs(4,5) [OF lay k, of j] that f(3) [of j] s1(2) keeps by simp
    then show ?thesis using that(1,2) s1(4) by (simp add: fresh_def same_data_def)
  qed
  have runs: "packet_runs hw ok slots slot1_first a0 k acc va pa acc' va' pa' s s1"
    if o: "(va, pa, va', pa') = (above a0 k, ucast a0, above a1 (k + 1), ucast a1) \<or>
        (va, pa, va', pa') = (above a1 (k + 1), ucast a1, above a0 k, ucast a0)" for acc va pa acc' va' pa'
  proof -
    have "mb_free hw ok (tlb_of ?c) va" "mb_free hw ok (tlb_of ?c) va'" "drop_bit 20 va \<noteq> drop_bit 20 va'"
      using free d o by auto
    from written_packet_misses [OF sp this, of slots slot1_first acc acc']
    obtain s' b v where w: "written_packet hw slots slot1_first acc va acc' va' ?c = Some (s', pt_translate (brt (rf ?c)) va, pt_translate (brt (rf ?c)) va')"
      and r: "reported b v s'" "v = va \<or> v = va'" "b \<longleftrightarrow> v = (if slots acc acc' then va else va')" "slots acc acc' \<longrightarrow> b = (\<not> slot1_first acc acc')"
      and fin: "same_data ?c s'" "space ok (rf s')"
        "\<forall>x. drop_bit 20 x \<noteq> drop_bit 20 va \<longrightarrow> drop_bit 20 x \<noteq> drop_bit 20 va' \<longrightarrow> mb_free hw ok (tlb_of ?c) x \<longrightarrow> mb_free hw ok (tlb_of s') x"
      by blast
    have fr': "fresh hw ok a0 (k + 2) s'" using o fin by (intro next_fresh) auto
    have "pt_translate (brt (rf ?c)) va = pa" "pt_translate (brt (rf ?c)) va' = pa'" using o s1(7,8) by auto
    then have w': "written_packet hw slots slot1_first acc va acc' va' ?c = Some (s', pa, pa')" using w by simp
    have same: "bmem s' = bmem s" "bchk s' = bchk s" using fin(1) s1(5,6) by (simp_all add: same_data_def)
    show ?thesis unfolding packet_runs_def
      by (rule exI [of _ s'], rule exI [of _ b], rule exI [of _ v]) (intro conjI w' r(1-3) r(4) same fr')
  qed
  show ?thesis by (rule exI [of _ s1]) (intro conjI allI s1(1); rule runs; simp)
qed

lemma test_dual_store_verdict:
  assumes "data_layout a0 a1" "k \<le> 5" "fresh hw ok a0 k s"
  shows "\<exists>s' n. test_dual_store hw slots slot1_first a0 a1 s = Some s' \<and> err (bchk s') = err (bchk s) + int n \<and> (n = 0 \<longleftrightarrow> \<not> slots Write Write) \<and>
    fresh hw ok a0 (k + 2) s'"
proof -
  let ?s = "set_data a0 a1 0x12345678 0x87654321 s"
  let ?n0 = "above a0 k" and ?n1 = "above a1 (k + 1)"
  have fr: "fresh hw ok a0 k ?s" using assms(3) by (simp add: fresh_frame)
  obtain s1 where s1: "map_both a0 a1 ?s = (?n0, ?n1, s1)"
    and w: "\<forall>acc acc'. packet_runs hw ok slots slot1_first a0 k acc ?n0 (ucast a0) acc' ?n1 (ucast a1) ?s s1"
    using mapped_packet [OF assms(1,2) fr, of slots slot1_first] by (elim exE conjE)
  obtain s2 b v where s2: "written_packet hw slots slot1_first Write ?n0 Write ?n1 (clear_badva s1) = Some (s2, ucast a0, ucast a1)"
    "reported b v s2" "v = ?n0 \<or> v = ?n1" "b \<longleftrightarrow> v = (if slots Write Write then ?n0 else ?n1)" "bchk s2 = bchk ?s" "fresh hw ok a0 (k + 2) s2"
    using w [rule_format, of Write Write] unfolding packet_runs_def by (elim exE conjE)
  define s3 where "s3 = s2\<lparr>bmem := (bmem s2)(ucast a0 := 1, ucast a1 := 2)\<rparr>"
  have ne: "?n0 \<noteq> ?n1" by (rule layout_mbs(2) [OF assms(1,2)])
  have "reported b v s3" using s2(2) by (simp add: reported_def s3_def read_ssr_def)
  then obtain n where n: "err (bchk (check_badva 232 ?n0 ?n1 s3)) = err (bchk s3) + int n" "n = 0 \<longleftrightarrow> (if b then v = ?n1 else v = ?n0)"
    using check_badva_verdict [OF _ s2(3) ne] by blast
  have a: "(ucast a0 :: u64) \<noteq> ucast a1" using assms(1) ucast_u64_inject by (auto simp: data_layout_def)
  have "test_dual_store hw slots slot1_first a0 a1 s = Some (bcheck 248 2 2 (bcheck 247 1 1 (check_badva 232 ?n0 ?n1 s3)))"
    using a s1 s2(1) by (simp add: test_dual_store_def Let_def dual_store_def s3_def)
  moreover have "n = 0 \<longleftrightarrow> \<not> slots Write Write" using n(2) s2(3,4) ne by auto
  moreover have "bchk s3 = bchk s" by (simp add: s3_def s2(5) set_data_def)
  moreover have "fresh hw ok a0 (k + 2) s3" using s2(6) by (simp add: s3_def fresh_frame)
  ultimately show ?thesis using n(1) by (simp add: err_bcheck fresh_frame)
qed


lemma test_dual_load_verdict:
  assumes "data_layout a0 a1" "k \<le> 5" "fresh hw ok a0 k s"
  shows "\<exists>s' n. test_dual_load hw slots slot1_first a0 a1 s = Some s' \<and> err (bchk s') = err (bchk s) + int n \<and> (n = 0 \<longleftrightarrow> slots Read Read) \<and>
    fresh hw ok a0 (k + 2) s'"
proof -
  let ?s = "set_data a0 a1 0xaabbccdd 0xeeff0011 s"
  let ?n0 = "above a0 k" and ?n1 = "above a1 (k + 1)"
  have fr: "fresh hw ok a0 k ?s" using assms(3) by (simp add: fresh_frame)
  obtain s1 where s1: "map_both a0 a1 ?s = (?n0, ?n1, s1)"
    and w: "\<forall>acc acc'. packet_runs hw ok slots slot1_first a0 k acc ?n1 (ucast a1) acc' ?n0 (ucast a0) ?s s1"
    using mapped_packet [OF assms(1,2) fr, of slots slot1_first] by (elim exE conjE)
  obtain s2 b v where s2: "written_packet hw slots slot1_first Read ?n1 Read ?n0 (clear_badva s1) = Some (s2, ucast a1, ucast a0)"
    "reported b v s2" "v = ?n1 \<or> v = ?n0" "b \<longleftrightarrow> v = (if slots Read Read then ?n1 else ?n0)" "bmem s2 = bmem ?s" "bchk s2 = bchk ?s"
    "fresh hw ok a0 (k + 2) s2"
    using w [rule_format, of Read Read] unfolding packet_runs_def by (elim exE conjE)
  have ne: "?n0 \<noteq> ?n1" by (rule layout_mbs(2) [OF assms(1,2)])
  obtain n where n: "err (bchk (check_badva 265 ?n0 ?n1 s2)) = err (bchk s2) + int n" "n = 0 \<longleftrightarrow> (if b then v = ?n1 else v = ?n0)"
    using check_badva_verdict [OF s2(2) _ ne, of 265] s2(3) by blast
  have a: "(ucast a0 :: u64) \<noteq> ucast a1" using assms(1) ucast_u64_inject by (auto simp: data_layout_def)
  have "bmem s2 (ucast a0) = 0xaabbccdd" "bmem s2 (ucast a1) = 0xeeff0011" using s2(5) a by (simp_all add: set_data_def)
  then have "test_dual_load hw slots slot1_first a0 a1 s =
      Some (bcheck 281 0xeeff0011 0xeeff0011 (bcheck 280 0xaabbccdd 0xaabbccdd (check_badva 265 ?n0 ?n1 s2)))"
    using s1 s2(1) by (simp add: test_dual_load_def Let_def dual_load_def)
  moreover have "n = 0 \<longleftrightarrow> slots Read Read" using n(2) s2(3,4) ne by auto
  moreover have "bchk s2 = bchk s" by (simp add: s2(6) set_data_def)
  ultimately show ?thesis using n(1) s2(7) by (simp add: err_bcheck fresh_frame)
qed

lemma test_load_store_verdict:
  assumes "data_layout a0 a1" "k \<le> 5" "fresh hw ok a0 k s"
  shows "\<exists>s' n b v. test_load_store hw slots slot1_first a0 a1 s = Some s' \<and> err (bchk s') = err (bchk s) + int n \<and> (n = 0 \<longleftrightarrow> slots Read Write) \<and>
    reported b v s' \<and> (slots Read Write \<longrightarrow> b = (\<not> slot1_first Read Write) \<and> (b \<longleftrightarrow> v = above a0 k))"
proof -
  let ?s = "set_data a0 a1 0x11223344 0x55667788 s"
  let ?n0 = "above a0 k" and ?n1 = "above a1 (k + 1)"
  have fr: "fresh hw ok a0 k ?s" using assms(3) by (simp add: fresh_frame)
  obtain s1 where s1: "map_both a0 a1 ?s = (?n0, ?n1, s1)"
    and w: "\<forall>acc acc'. packet_runs hw ok slots slot1_first a0 k acc ?n0 (ucast a0) acc' ?n1 (ucast a1) ?s s1"
    using mapped_packet [OF assms(1,2) fr, of slots slot1_first] by (elim exE conjE)
  obtain s2 b v where s2: "written_packet hw slots slot1_first Read ?n0 Write ?n1 (clear_badva s1) = Some (s2, ucast a0, ucast a1)"
    "reported b v s2" "v = ?n0 \<or> v = ?n1" "b \<longleftrightarrow> v = (if slots Read Write then ?n0 else ?n1)" "slots Read Write \<longrightarrow> b = (\<not> slot1_first Read Write)"
    "bmem s2 = bmem ?s" "bchk s2 = bchk ?s"
    using w [rule_format, of Read Write] unfolding packet_runs_def by (elim exE conjE)
  define s3 where "s3 = s2\<lparr>bmem := (bmem s2)(ucast a1 := 0x123)\<rparr>"
  have ne: "?n1 \<noteq> ?n0" using layout_mbs(2) [OF assms(1,2)] by simp
  have r3: "reported b v s3" using s2(2) by (simp add: reported_def s3_def read_ssr_def)
  obtain n where n: "err (bchk (check_badva 298 ?n1 ?n0 s3)) = err (bchk s3) + int n" "n = 0 \<longleftrightarrow> (if b then v = ?n0 else v = ?n1)"
    using check_badva_verdict [OF r3 _ ne, of 298] s2(3) by blast
  have a: "(ucast a0 :: u64) \<noteq> ucast a1" using assms(1) ucast_u64_inject by (auto simp: data_layout_def)
  have "bmem s2 (ucast a0) = 0x11223344" using s2(6) a by (simp add: set_data_def)
  then have t: "test_load_store hw slots slot1_first a0 a1 s =
      Some (bcheck 314 0x123 0x123 (bcheck 313 0x11223344 0x11223344 (check_badva 298 ?n1 ?n0 s3)))"
    using s1 s2(1) by (simp add: test_load_store_def Let_def load_store_def s3_def)
  have "n = 0 \<longleftrightarrow> slots Read Write" using n(2) s2(3,4) ne by auto
  moreover have "bchk s3 = bchk s" by (simp add: s3_def s2(7) set_data_def)
  moreover have "reported b v (bcheck l x y (bcheck l' x' y' (check_badva 298 ?n1 ?n0 s3)))" for l x y l' x' y'
    using r3 by (simp add: reported_def read_ssr_def)
  ultimately show ?thesis using n(1) s2(4,5) t by (intro exI [of _ "bcheck 314 0x123 0x123 (bcheck 313 0x11223344 0x11223344 (check_badva 298 ?n1 ?n0 s3))"]
      exI [of _ n] exI [of _ b] exI [of _ v]) (simp add: err_bcheck)
qed

end


definition sample_badva :: "u64 list badva_test" where
  "sample_badva = \<lparr>rf = sample_refill, badva0 = 0, badva1 = 0, bmem = (\<lambda>_. 0), mb_counter = 1, bchk = \<lparr>err = 0, messages = []\<rparr>\<rparr>"


end
