(* ===== verification/Pmu.thy ===== *)
theory Pmu
  imports Hex_Prelude
begin

text \<open>
  The performance monitor helpers of \<open>include/pmu.h\<close> over the system registers they read and
  write.  An event number has 10 bits: its low 8 bits are in one byte of \<open>pmuevtcfg\<close>
  (counters 0 to 3) or \<open>pmuevtcfg1\<close> (counters 4 to 7), its high 2 bits in \<open>pmucfg\<close>.
\<close>

section \<open>Registers\<close>

record pmu_regs =
  pmuevtcfg :: u32
  pmuevtcfg1 :: u32
  pmucfg :: u32
  pmucnt :: "u32 list"
  gpmucnt :: "u32 list"
  upmucnt :: "u32 list"
  syscfg :: u32
  ssr :: u32
  err :: int
  complaints :: "(int \<times> nat) list"

definition NUM_PMU_CTRS :: nat where "NUM_PMU_CTRS = 8"

datatype regtype = SREG | GREG | CREG

text \<open>The instruction \<open>insert(Rs, Rtt)\<close> with the offset and width in the low and high
  word of \<open>Rtt\<close>.\<close>

definition insert_bits :: "u32 \<Rightarrow> u32 \<Rightarrow> nat \<Rightarrow> nat \<Rightarrow> u32" where
  "insert_bits rx rs width off =
     (rx AND NOT (push_bit off (mask width))) OR push_bit off (rs AND mask width)"

section \<open>Operations\<close>

text \<open>\<open>DECLARE_GET_PMU\<close>: an index outside 0 to 7 prints an error and aborts.\<close>

definition DECLARE_GET_PMU :: "(pmu_regs \<Rightarrow> u32 list) \<Rightarrow> int \<Rightarrow> pmu_regs \<Rightarrow> (pmu_regs, u32) outcome" where
  "DECLARE_GET_PMU regs index s =
     (if 0 \<le> index \<and> index < 8 then Ok (regs s ! nat index) else Stop Aborted s)"

definition get_pmu_counter :: "int \<Rightarrow> pmu_regs \<Rightarrow> (pmu_regs, u32) outcome" where
  "get_pmu_counter = DECLARE_GET_PMU pmucnt"

definition get_gpmu_counter :: "int \<Rightarrow> pmu_regs \<Rightarrow> (pmu_regs, u32) outcome" where
  "get_gpmu_counter = DECLARE_GET_PMU gpmucnt"

definition get_upmu_counter :: "int \<Rightarrow> pmu_regs \<Rightarrow> (pmu_regs, u32) outcome" where
  "get_upmu_counter = DECLARE_GET_PMU upmucnt"

definition get_counter :: "int \<Rightarrow> regtype \<Rightarrow> pmu_regs \<Rightarrow> (pmu_regs, u32) outcome" where
  "get_counter regnum ty s =
     (case ty of SREG \<Rightarrow> get_pmu_counter regnum s | GREG \<Rightarrow> get_gpmu_counter regnum s
      | CREG \<Rightarrow> get_upmu_counter regnum s)"

definition pmu_config :: "u32 \<Rightarrow> u32 \<Rightarrow> pmu_regs \<Rightarrow> pmu_regs" where
  "pmu_config counter_id event s =
     (let off = unat ((counter_id mod 4) * 8);
          s = (if counter_id < 4 then s\<lparr>pmuevtcfg := insert_bits (pmuevtcfg s) event 8 off\<rparr>
               else s\<lparr>pmuevtcfg1 := insert_bits (pmuevtcfg1 s) event 8 off\<rparr>);
          off = unat (counter_id * 2)
      in s\<lparr>pmucfg := insert_bits (pmucfg s) (drop_bit 8 event) 2 off\<rparr>)"

definition pmu_set_counters :: "u32 \<Rightarrow> pmu_regs \<Rightarrow> pmu_regs" where
  "pmu_set_counters val s = s\<lparr>pmucnt := replicate 8 val\<rparr>"

definition PMU_SET_COUNTER :: "nat \<Rightarrow> u32 \<Rightarrow> pmu_regs \<Rightarrow> pmu_regs" where
  "PMU_SET_COUNTER idx val s = s\<lparr>pmucnt := (pmucnt s)[idx := val]\<rparr>"

definition PM_SYSCFG_BIT :: nat where "PM_SYSCFG_BIT = 9"

definition pmu_start :: "pmu_regs \<Rightarrow> pmu_regs" where
  "pmu_start s = s\<lparr>syscfg := set_bit PM_SYSCFG_BIT (syscfg s)\<rparr>"

definition pmu_stop :: "pmu_regs \<Rightarrow> pmu_regs" where
  "pmu_stop s = s\<lparr>syscfg := unset_bit PM_SYSCFG_BIT (syscfg s)\<rparr>"

definition PE_SSR_BIT :: nat where "PE_SSR_BIT = 24"

definition toggle_ssr_pe :: "bool \<Rightarrow> pmu_regs \<Rightarrow> pmu_regs" where
  "toggle_ssr_pe enable s =
     (if enable then s\<lparr>ssr := set_bit PE_SSR_BIT (ssr s)\<rparr> else s\<lparr>ssr := unset_bit PE_SSR_BIT (ssr s)\<rparr>)"

definition pmu_reset :: "pmu_regs \<Rightarrow> pmu_regs" where
  "pmu_reset s = fold (\<lambda>i s. pmu_config (of_nat i) 0 s) [0..<NUM_PMU_CTRS] (pmu_set_counters 0 (pmu_stop s))"

definition regtype_to_str :: "regtype \<Rightarrow> string" where
  "regtype_to_str ty = (case ty of SREG \<Rightarrow> ''sys'' | GREG \<Rightarrow> ''greg'' | CREG \<Rightarrow> ''upmucnt'')"

text \<open>A complaint keeps the line and the register number it prints.\<close>

definition check_val_range :: "u32 \<Rightarrow> nat \<Rightarrow> u32 \<Rightarrow> u32 \<Rightarrow> int \<Rightarrow> pmu_regs \<Rightarrow> pmu_regs" where
  "check_val_range val regnum lo hi line s =
     (if val < lo \<or> val > hi then s\<lparr>complaints := complaints s @ [(line, regnum)], err := 1\<rparr> else s)"

definition check_val :: "u32 \<Rightarrow> nat \<Rightarrow> u32 \<Rightarrow> int \<Rightarrow> pmu_regs \<Rightarrow> pmu_regs" where
  "check_val val regnum expect line s =
     (if val \<noteq> expect then s\<lparr>complaints := complaints s @ [(line, regnum)], err := 1\<rparr> else s)"

definition check_range :: "nat \<Rightarrow> regtype \<Rightarrow> u32 \<Rightarrow> u32 \<Rightarrow> int \<Rightarrow> pmu_regs \<Rightarrow> (pmu_regs, pmu_regs) outcome" where
  "check_range regnum ty lo hi line s =
     bind_outcome (get_counter (int regnum) ty s) (\<lambda>v. Ok (check_val_range v regnum lo hi line s))"

definition check :: "nat \<Rightarrow> regtype \<Rightarrow> u32 \<Rightarrow> int \<Rightarrow> pmu_regs \<Rightarrow> (pmu_regs, pmu_regs) outcome" where
  "check regnum ty expect line s =
     bind_outcome (get_counter (int regnum) ty s) (\<lambda>v. Ok (check_val v regnum expect line s))"

section \<open>Properties\<close>

text \<open>The event that a counter is configured to count.\<close>

definition extract_bits :: "u32 \<Rightarrow> nat \<Rightarrow> nat \<Rightarrow> u32" where
  "extract_bits x width off = drop_bit off x AND mask width"

definition event_of :: "nat \<Rightarrow> pmu_regs \<Rightarrow> u32" where
  "event_of c s =
     extract_bits (if c < 4 then pmuevtcfg s else pmuevtcfg1 s) 8 (c mod 4 * 8)
     OR push_bit 8 (extract_bits (pmucfg s) 2 (c * 2))"

lemma bit_insert_bits [bit_field_simps]:
  "bit (insert_bits rx rs width off) n \<longleftrightarrow>
     (if off \<le> n \<and> n < off + width then n < 32 \<and> bit rs (n - off) else bit rx n)"
  unfolding insert_bits_def
  by (auto simp: bit_or_iff bit_and_iff bit_not_iff bit_push_bit_iff bit_mask_iff dest: bit_imp_le_length)

lemma bit_extract_bits [bit_field_simps]:
  "bit (extract_bits x width off) n \<longleftrightarrow> n < width \<and> bit x (off + n)"
  unfolding extract_bits_def
  by (auto simp: bit_and_iff bit_drop_bit_eq bit_mask_iff dest: bit_imp_le_length)

lemma extract_insert_same:
  "off + width \<le> 32 \<Longrightarrow> extract_bits (insert_bits rx rs width off) width off = rs AND mask width"
  by (rule bit_word_eqI) (auto simp: bit_field_simps bit_and_iff bit_mask_iff)

lemma extract_insert_other:
  "off + width \<le> off' \<or> off' + width' \<le> off \<Longrightarrow>
   extract_bits (insert_bits rx rs width off) width' off' = extract_bits rx width' off'"
  by (rule bit_word_eqI) (auto simp: bit_field_simps)

lemma counter_fields:
  assumes "c < 8"
  shows "unat ((of_nat c mod 4 :: u32) * 8) = c mod 4 * 8" "unat (of_nat c * 2 :: u32) = c * 2"
    "(of_nat c :: u32) < 4 \<longleftrightarrow> c < 4"
proof -
  have "c \<in> {0, 1, 2, 3, 4, 5, 6, 7}" using assms by auto
  then show "unat ((of_nat c mod 4 :: u32) * 8) = c mod 4 * 8" "unat (of_nat c * 2 :: u32) = c * 2"
    "(of_nat c :: u32) < 4 \<longleftrightarrow> c < 4" by auto
qed

lemma event_split: "(e AND mask 8) OR push_bit 8 (drop_bit 8 e AND mask 2) = e AND (mask 10 :: u32)"
  by (rule bit_word_eqI)
    (auto simp: bit_or_iff bit_and_iff bit_push_bit_iff bit_drop_bit_eq bit_mask_iff dest: bit_imp_le_length)

lemma pmu_config_event:
  assumes "c < 8" "d < 8"
  shows "event_of d (pmu_config (of_nat c) e s) = (if d = c then e AND mask 10 else event_of d s)"
proof (cases "d = c")
  case True
  have "c mod 4 * 8 + 8 \<le> 32" "c * 2 + 2 \<le> 32" using assms by auto
  then show ?thesis
    using True counter_fields [OF assms(1)]
    by (simp add: event_of_def pmu_config_def Let_def extract_insert_same event_split del: push_bit_and)
next
  case False
  have "c mod 4 * 8 + 8 \<le> d mod 4 * 8 \<or> d mod 4 * 8 + 8 \<le> c mod 4 * 8" if "(c < 4) = (d < 4)"
  proof -
    have "c mod 4 = (if c < 4 then c else c - 4)" "d mod 4 = (if d < 4 then d else d - 4)"
      using assms by (simp_all add: mod_if)
    then have "c mod 4 \<noteq> d mod 4" using assms False that by (auto split: if_splits)
    then show ?thesis by linarith
  qed
  moreover have "c * 8 + 8 \<le> d * 8 \<or> d * 8 + 8 \<le> c * 8" using False by auto
  moreover have "c * 2 + 2 \<le> d * 2 \<or> d * 2 + 2 \<le> c * 2" using False by auto
  ultimately show ?thesis
    using False counter_fields [OF assms(1)]
    by (simp add: event_of_def pmu_config_def Let_def extract_insert_other)
qed

text \<open>\<open>pmu_config\<close> makes a counter count the given event, cut to 10 bits, and leaves the
  events of the seven other counters, the counts, \<open>syscfg\<close> and \<open>ssr\<close> as they were.\<close>

lemma pmu_config_selects:
  assumes "c < 8" and "d < 8"
  shows "event_of d (pmu_config (of_nat c) e s) = (if d = c then e AND mask 10 else event_of d s) \<and>
    pmucnt (pmu_config (of_nat c) e s) = pmucnt s \<and>
    syscfg (pmu_config (of_nat c) e s) = syscfg s \<and> ssr (pmu_config (of_nat c) e s) = ssr s"
  using pmu_config_event [OF assms] by (simp add: pmu_config_def Let_def)

definition sample_pmu :: pmu_regs where
  "sample_pmu = \<lparr>pmuevtcfg = 0, pmuevtcfg1 = 0, pmucfg = 0, pmucnt = replicate 8 5, gpmucnt = replicate 8 0,
     upmucnt = replicate 8 0, syscfg = 0x200, ssr = 0, err = 0, complaints = []\<rparr>"

lemma pmu_config_frame [frame_simps]:
  "pmucnt (pmu_config c e s) = pmucnt s" "syscfg (pmu_config c e s) = syscfg s" "ssr (pmu_config c e s) = ssr s"
  "err (pmu_config c e s) = err s"
  by (simp_all add: pmu_config_def Let_def)

text \<open>\<open>pmu_reset\<close> stops the monitor without touching another bit of \<open>syscfg\<close>, zeroes all
  eight counters and configures each of them for event 0; and starting and stopping are inverse on
  the enable bit.\<close>

lemma pmu_reset_clears:
  "pmucnt (pmu_reset s) = replicate 8 0 \<and>
   (\<forall>n. bit (syscfg (pmu_reset s)) n = (n \<noteq> 9 \<and> bit (syscfg s) n)) \<and>
   map (\<lambda>c. event_of c (pmu_reset s)) [0..<8] = replicate 8 0 \<and>
   (\<forall>n. bit (syscfg (pmu_start s)) n = (n = 9 \<or> bit (syscfg s) n)) \<and>
   (\<forall>n. bit (syscfg (pmu_stop s)) n = (n \<noteq> 9 \<and> bit (syscfg s) n))"
proof -
  let ?f = "\<lambda>n. fold (\<lambda>i s. pmu_config (of_nat i) 0 s) [0..<n] (pmu_set_counters 0 (pmu_stop s))"
  have inv: "pmucnt (?f n) = replicate 8 0 \<and> syscfg (?f n) = syscfg (pmu_stop s) \<and>
      (\<forall>c<n. event_of c (?f n) = 0)" if "n \<le> 8" for n
    using that
  proof (induction n)
    case 0
    show ?case by (simp add: pmu_set_counters_def)
  next
    case (Suc n)
    then show ?case
      by (auto simp: frame_simps pmu_config_event less_Suc_eq)
  qed
  have ev: "event_of c (pmu_reset s) = 0" if "c < 8" for c
    using inv [of 8] that by (simp add: pmu_reset_def NUM_PMU_CTRS_def)
  have "map (\<lambda>c. event_of c (pmu_reset s)) [0..<8] = replicate 8 0"
    by (rule nth_equalityI) (simp_all add: ev)
  moreover have stop: "bit (syscfg (pmu_stop s)) n = (n \<noteq> 9 \<and> bit (syscfg s) n)" for n
    by (auto simp: pmu_stop_def PM_SYSCFG_BIT_def bit_unset_bit_iff)
  moreover have "bit (syscfg (pmu_start s)) n = (n = 9 \<or> bit (syscfg s) n)" for n
    by (auto simp: pmu_start_def PM_SYSCFG_BIT_def bit_set_bit_iff)
  ultimately show ?thesis using inv [of 8] by (simp add: pmu_reset_def NUM_PMU_CTRS_def)
qed

text \<open>A counter read outside 0 to 7 aborts; a failed check sets \<open>err\<close> to 1 and never clears it.\<close>

lemma get_counter_bounds:
  "get_counter i ty s = Stop Aborted s \<longleftrightarrow> i < 0 \<or> 8 \<le> i"
  by (cases ty) (auto simp: get_counter_def get_pmu_counter_def get_gpmu_counter_def get_upmu_counter_def
      DECLARE_GET_PMU_def)

lemma check_err:
  "i < 8 \<Longrightarrow> \<exists>s'. check i SREG expect line s = Ok s' \<and> err s' = (if pmucnt s ! i = expect then err s else 1)"
  "i < 8 \<Longrightarrow> \<exists>s'. check_range i SREG lo hi line s = Ok s' \<and>
     err s' = (if lo \<le> pmucnt s ! i \<and> pmucnt s ! i \<le> hi then err s else 1)"
  by (auto simp: check_def check_range_def check_val_def check_val_range_def get_counter_def get_pmu_counter_def
      DECLARE_GET_PMU_def)

end
