(* ===== verification/Interrupts.thy ===== *)
theory Interrupts
  imports Hex_Prelude
begin

text \<open>
  The interrupt helpers of \<open>include/interrupts.h\<close> over the registers they change.  The
  instructions that only signal or wait (\<open>swi\<close>, \<open>wait\<close>, \<open>pause\<close>) are
  recorded as events in program order.
\<close>

datatype int_event = Swi u32 | Wait | Pause | Iassignw u32

record int_regs =
  syscfg :: u32
  imask :: u32
  stid :: u32
  vals :: "int list"
  events :: "int_event list"

definition global_int_disable :: "int_regs \<Rightarrow> int_regs" where
  "global_int_disable s = s\<lparr>syscfg := unset_bit 4 (syscfg s)\<rparr>"

definition global_int_enable :: "int_regs \<Rightarrow> int_regs" where
  "global_int_enable s = s\<lparr>syscfg := set_bit 4 (syscfg s)\<rparr>"

definition event :: "int_event \<Rightarrow> int_regs \<Rightarrow> int_regs" where
  "event e s = s\<lparr>events := events s @ [e]\<rparr>"

definition pause :: "int_regs \<Rightarrow> int_regs" where
  "pause s = event Pause s"

text \<open>The loop of \<open>delay\<close> for a non-negative number of iterations; a negative one does nothing.\<close>

definition delay_step :: "nat \<Rightarrow> int_regs \<Rightarrow> int_regs" where
  "delay_step i s =
     (let k = i mod 512;
          s = pause (s\<lparr>vals := (vals s)[k := int i]\<rparr>)
      in s\<lparr>vals := (vals s)[k := vals s ! k + 1]\<rparr>)"

definition delay :: "int \<Rightarrow> int_regs \<Rightarrow> int \<times> int_regs" where
  "delay iters s = (let s = fold delay_step [0..<nat iters] s in (vals s ! 0, s))"

definition swi :: "u32 \<Rightarrow> int_regs \<Rightarrow> int_regs" where
  "swi m s = event (Swi m) s"

definition set_thread_imask :: "u32 \<Rightarrow> int_regs \<Rightarrow> int_regs" where
  "set_thread_imask m s = s\<lparr>imask := m\<rparr>"

definition wait_for_interrupts :: "int_regs \<Rightarrow> int_regs" where
  "wait_for_interrupts s = event Wait s"

definition iassignw :: "u32 \<Rightarrow> u32 \<Rightarrow> int_regs \<Rightarrow> int_regs" where
  "iassignw int_num thread_mask s =
     (let int_num = int_num AND 0x1f;
          int_num = push_bit 16 int_num
      in event (Iassignw ((thread_mask AND 0xff) OR int_num)) s)"

definition get_task_prio :: "int_regs \<Rightarrow> u32" where
  "get_task_prio s = drop_bit 16 (stid s) AND 0xff"

definition set_task_prio :: "u32 \<Rightarrow> int_regs \<Rightarrow> int_regs" where
  "set_task_prio prio s =
     (let prio = prio AND 0xff
      in s\<lparr>stid := (stid s AND 0xff00ffff) OR push_bit 16 prio\<rparr>)"

lemma prio_masks: "(0xff :: u32) = mask 8" "(0xff00ffff :: u32) = NOT (push_bit 16 (mask 8))" "(0x1f :: u32) = mask 5"
  by (simp_all add: mask_eq_exp_minus_1 push_bit_eq_mult)

text \<open>\<open>set_task_prio\<close> then \<open>get_task_prio\<close> gives the low 8 bits of the priority, the other bits
  of \<open>stid\<close> are kept, and enabling or disabling the interrupts changes bit 4 of \<open>syscfg\<close> only.\<close>

lemma task_prio_roundtrip:
  "get_task_prio (set_task_prio p s) = p AND 0xff \<and>
   (\<forall>n. \<not> (16 \<le> n \<and> n < 24) \<longrightarrow> bit (stid (set_task_prio p s)) n = bit (stid s) n) \<and>
   (\<forall>n. bit (syscfg (global_int_enable s)) n = (n = 4 \<or> bit (syscfg s) n)) \<and>
   (\<forall>n. bit (syscfg (global_int_disable s)) n = (n \<noteq> 4 \<and> bit (syscfg s) n))"
proof (intro conjI allI impI)
  have b: "bit (stid (set_task_prio p s)) n =
      (if 16 \<le> n \<and> n < 24 then bit p (n - 16) else bit (stid s) n)" for n
    unfolding set_task_prio_def Let_def prio_masks
    by (auto simp: bit_or_iff bit_and_iff bit_not_iff bit_push_bit_iff bit_mask_iff dest: bit_imp_le_length)
  show "get_task_prio (set_task_prio p s) = p AND 0xff"
    by (rule bit_word_eqI) (simp add: get_task_prio_def prio_masks bit_and_iff bit_drop_bit_eq b bit_mask_iff)
  show "bit (stid (set_task_prio p s)) n = bit (stid s) n" if "\<not> (16 \<le> n \<and> n < 24)" for n
    using that b by auto
  show "bit (syscfg (global_int_enable s)) n = (n = 4 \<or> bit (syscfg s) n)" for n
    by (auto simp: global_int_enable_def bit_set_bit_iff)
  show "bit (syscfg (global_int_disable s)) n = (n \<noteq> 4 \<and> bit (syscfg s) n)" for n
    by (auto simp: global_int_disable_def bit_unset_bit_iff)
qed

text \<open>The delay loop stays inside its array and returns one more than the last multiple of 512.\<close>

lemma delay_loop:
  assumes "length (vals s) = 512"
  shows "length (vals (fold delay_step [0..<n] s)) = 512 \<and>
    (0 < n \<longrightarrow> vals (fold delay_step [0..<n] s) ! 0 = int (512 * ((n - 1) div 512)) + 1) \<and>
    events (fold delay_step [0..<n] s) = events s @ replicate n Pause"
proof (induction n)
  case 0
  then show ?case using assms by simp
next
  case (Suc n)
  have k: "n mod 512 < 512" by simp
  show ?case
  proof (cases "n mod 512 = 0")
    case True
    then have "512 * (n div 512) = n" by auto
    then show ?thesis using Suc True
      by (simp add: delay_step_def pause_def event_def Let_def replicate_append_same [symmetric])
  next
    case False
    then have "0 < n" "n div 512 = (n - 1) div 512"
      by (cases n; simp add: div_Suc)+
    then show ?thesis using Suc False k
      by (simp add: delay_step_def pause_def event_def Let_def replicate_append_same [symmetric])
  qed
qed

end
