(* ===== verification/Spec2Isabelle.thy ===== *)
theory Spec2Isabelle
  imports Event_Handle Mmu_Overlap Strutils File_Mem Scatter_Main Lock_Verify Sys_Atomics Lock_Timer Udma L2vic_Tests Sys_Regs Priv_Tests Badva Pmu Interrupts
begin

text \<open>
  \<^bold>\<open>A verification of the Hexagon standalone system tests.\<close>

  The repository tests a Hexagon emulator with small bare-metal programs
  (\<^verbatim>\<open>src/standalone_systests\<close>).  They share a runtime (\<^verbatim>\<open>crt0\<close>: TLB management, a minimal
  C library, program start), headers with helpers (\<^verbatim>\<open>include\<close>: MMU, register fields, checks, interrupts,
  performance counters, thread start, in-memory files) and are the programs of \<^verbatim>\<open>src\<close>.  This
  development models the runtime, the helpers and the programs with logic of their own, and proves
  what they promise.

  \<^bold>\<open>Theories and the code they model.\<close>

  \<^item> \<^verbatim>\<open>Hex_Prelude\<close>: machine types, the type \<open>outcome\<close> that makes \<open>exit\<close>, a failed
    \<open>assert\<close>, a core dump and undefined behaviour values, and the lemmas on words, bits and loops.
  \<^item> \<^verbatim>\<open>Reg_Fields\<close>: \<^verbatim>\<open>include/reg_fields_def.h\<close> and the field macros of \<^verbatim>\<open>include/mmu.h\<close>;
    a field reads back what was written and no other bit changes.
  \<^item> \<^verbatim>\<open>Tlb_Entry\<close>: the 64-bit TLB entry, encoded by \<^verbatim>\<open>crt0/tlb.c\<close> and
    \<^verbatim>\<open>create_mmu_entry\<close>, decoded by the \<^verbatim>\<open>hex_tlb_*\<close> helpers; round trips and the limits of
    the decoders.
  \<^item> \<^verbatim>\<open>Tlb_Runtime\<close>: \<^verbatim>\<open>crt0/tlb.c\<close>.  The TLB is hardware: the record \<open>tlb_ops\<close> of its
    instructions is a parameter and the locale \<open>tlb_device\<close> states its laws (a read after a write, a
    probe finds a matching entry); an array of entries interprets it.
  \<^item> \<^verbatim>\<open>Mmu\<close>: the registers, the exception vector, the fault handlers and the translation helpers
    of \<^verbatim>\<open>include/mmu.h\<close>; what each handler repairs, records or refuses.
  \<^item> \<^verbatim>\<open>Event_Handle\<close>: the assembly of \<open>MY_EVENT_HANDLE\<close>, of the vector tables of \<^verbatim>\<open>include/mmu.h\<close> and
    \<^verbatim>\<open>crt0/crt0_standalone.S\<close> and of the default handlers, as instruction lists over registers and memory.
  \<^item> \<^verbatim>\<open>Min_Libc\<close>: \<^verbatim>\<open>crt0/min_libc.c\<close> over a byte memory and a console; loops that may not
    end are \<open>partial_function (option)\<close> and are proved to return.  The meaning \<open>render\<close> of a format is stated
    apart from the code: a signed decimal for \<open>%d\<close>, the 32-bit word for \<open>%x\<close>; \<open>printf\<close> is proved to print it
    exactly when no such number is negative.
  \<^item> \<^verbatim>\<open>Strutils\<close>: the sort of \<^verbatim>\<open>include/strutils.h\<close>; \<^verbatim>\<open>File_Mem\<close>: the in-memory
    files of \<^verbatim>\<open>src/util.c\<close>, with the invariant of the descriptor table.
  \<^item> \<^verbatim>\<open>Hvx\<close>, \<^verbatim>\<open>Scatter_Gather\<close>, \<^verbatim>\<open>Scatter_Equiv\<close>, \<^verbatim>\<open>Scatter_Main\<close>: the
    program \<^verbatim>\<open>src/standalone_vec.c\<close>.  The vector instructions are the record \<open>hvx_ops\<close>, their
    laws the locale \<open>hvx_unit\<close>, which \<open>hvx_model\<close> interprets.  Each vector routine is proved equal
    to the program's own scalar reference, and the program to print \<open>PASS\<close>.
  \<^item> \<^verbatim>\<open>Hex_Test\<close>: the checks of \<^verbatim>\<open>include/hex_test.h\<close>; \<^verbatim>\<open>Pmu\<close>:
    \<^verbatim>\<open>include/pmu.h\<close>; \<^verbatim>\<open>Interrupts\<close>: \<^verbatim>\<open>include/interrupts.h\<close>.
  \<^item> \<^verbatim>\<open>Hw_Threads\<close>, \<^verbatim>\<open>Hw_Runs\<close>: hardware threads as interleaved lists of actions, the
    start protocol of \<^verbatim>\<open>src/thread_common.c\<close> and its invariant; runs that use a lock in a
    discipline: mutual exclusion, counting, heap balance and absence of deadlock.  In a \<open>fair_execution\<close> the threads get
    their turns for ever, and an unsuccessful round of a spin loop or a stalled lock is a turn that changes nothing; every such execution
    is proved to come to the end of all programs.
  \<^item> \<^verbatim>\<open>Lock_Verify\<close>: the tests of \<^verbatim>\<open>src/lock_verify.c\<close>, \<^verbatim>\<open>src/k0locklock.c\<close> and
    \<^verbatim>\<open>src/tlblocklock.c\<close> as such runs.
  \<^item> \<^verbatim>\<open>Mmu_Access\<close>: loads, stores and calls through the TLB with the permission check of the processor
    (locale \<open>access_check\<close>), an access being repeated after the fault handler has returned;
    \<^verbatim>\<open>Mmu_Tests\<close>: the programs \<^verbatim>\<open>src/mmu_page_size.c\<close> and \<^verbatim>\<open>src/mmu_permissions.c\<close>, proved to pass;
    \<^verbatim>\<open>Mmu_Overlap\<close>: \<^verbatim>\<open>src/mmu_overlap.c\<close> and \<^verbatim>\<open>src/mmu_multi_tlb.c\<close>, with the instructions on
    overlapping entries (locale \<open>tlb_overlap\<close>).
  \<^item> \<^verbatim>\<open>Tlb_Refill\<close>: the handler \<open>event_handle_tlbmissrw\<close> of \<^verbatim>\<open>crt0/crt0_standalone.S\<close> and the table of
    \<^verbatim>\<open>crt0/pte.S\<close>: a refilled TLB translates as the software page table says; \<^verbatim>\<open>Badva\<close>:
    \<^verbatim>\<open>src/badva.c\<close>, packets of two accesses that both miss, and the verdict of the program for every choice of slots.
  \<^item> \<^verbatim>\<open>Sys_Atomics\<close>: \<^verbatim>\<open>src/sys_atomics.c\<close> as interleaved threads with load-locked and
    store-conditional: no lost update, the result of a run, bounded work and return under fair schedules.
  \<^item> \<^verbatim>\<open>Qtimer\<close>: \<^verbatim>\<open>include/timer.h\<close>, \<^verbatim>\<open>include/qtimer.h\<close>, \<^verbatim>\<open>src/qtimer.c\<close>,
    \<^verbatim>\<open>src/qtimer_test.c\<close> and \<^verbatim>\<open>src/timer_reg.c\<close>: reads of the 64-bit counter in halves, the compare values that
    an interrupt moves by a period, the main loops that wait for a number of interrupts.  A schedule says where the interrupts
    come, at any point between two instructions of the loop; a wake-up between the test and the wait is lost
    (\<open>qtimer_test_lost_wakeup\<close>).
  \<^item> \<^verbatim>\<open>Lock_Timer\<close>: \<^verbatim>\<open>src/lock_timer_test.c\<close>: workers, interrupts and main thread as a step relation, with
    invariants for mutual exclusion, rounds, times and interrupts, and the verdict of the test.
  \<^item> \<^verbatim>\<open>Irq_Runs\<close>: programs that an interrupt can stop at every statement, and a calculus for their total
    correctness; \<^verbatim>\<open>Cfgtable\<close>: \<^verbatim>\<open>include/cfgtable.h\<close>; \<^verbatim>\<open>L2vic\<close>: the interrupt controller (locales
    \<open>l2vic\<close> and, with the TLB, \<open>l2vic_board\<close>), \<^verbatim>\<open>src/int_range.c\<close> and \<^verbatim>\<open>src/fastl2vic.c\<close>;
    \<^verbatim>\<open>L2vic_Tests\<close>: \<^verbatim>\<open>src/fastint.c\<close>, \<^verbatim>\<open>src/pendalot.c\<close> and \<^verbatim>\<open>src/levelint.c\<close>.
  \<^item> \<^verbatim>\<open>Sys_Regs\<close>: \<^verbatim>\<open>reg_mut.h\<close> and \<^verbatim>\<open>src/sys_reg_mut.c\<close>: what the test of the read-only bits
    detects, and that it restores the registers.
  \<^item> \<^verbatim>\<open>Priv_Tests\<close>: \<^verbatim>\<open>src/checkforpriv.c\<close> and \<^verbatim>\<open>src/framelimit.c\<close>: instructions that
    user mode may not execute, with handlers that skip or repeat them; the set-up of both programs is checked as well.
  \<^item> \<^verbatim>\<open>Udma\<close>: \<^verbatim>\<open>include/dma.h\<close> and \<^verbatim>\<open>src/udma.c\<close>: a chain of two transfers, its result,
    the bytes it may touch and the lines the program prints.

  \<^bold>\<open>How the code is modelled.\<close>  A C function is a function on explicit state; a hardware register is
  a field of the state; inline assembly is the update of those fields.  Machine integers are words,
  so wrap-around and unsigned comparisons are those of the C code.  An access out of bounds is
  \<open>Undef\<close> or \<open>None\<close>, never a value.  The unit of interleaving of the threads is one access to shared
  memory or one lock instruction; a spin loop is an action that is enabled when its condition is false, its other rounds change nothing.

  \<^bold>\<open>What is assumed.\<close>  Of the hardware: the laws of \<open>tlb_device\<close> and \<open>hvx_unit\<close>; that
  \<open>k0lock\<close> and \<open>tlblock\<close> stall while their bit of \<open>syscfg\<close> is set and set it otherwise, and that a
  stalled thread takes no interrupt (the comments of \<^verbatim>\<open>lock_verify.c\<close>); that
  \<open>access_check\<close> gives the first permission an access lacks; a store-conditional succeeds only with the reservation of its thread,
  which a store to the address ends; the laws of \<open>timer_device\<close>, \<open>c_qsort\<close>, \<open>tlb_overlap\<close>, \<open>udma_engine\<close>, \<open>sreg_file\<close>, \<open>priv_check\<close> and \<open>l2vic_board\<close>, the last with a runtime that
  maps an address without an entry to itself (the comment of \<^verbatim>\<open>mmu_asids.c\<close>); in \<^verbatim>\<open>Lock_Timer\<close>, that the interrupts go to
  the workers only and that the timer does not wrap in a run; that
  \<open>thread_create\<close> starts a thread that stops when its function returns and \<open>thread_join\<close> waits for it
  (the comments of \<^verbatim>\<open>crt0_standalone.S\<close>).

  \<^bold>\<open>Not modelled.\<close>  The assembly of the start code, the refill handler for loads and stores apart; tests that check single instructions
  (vector, matrix and floating-point units), whose semantics is not in the repository; tests that depend on
  the order in which the hardware delivers interrupts, the stall tests of \<^verbatim>\<open>lock_verify.c\<close>
  among them; host files and semihosting; the Rust and Python parts of the repository.
\<close>

end
